(* ===== verification/Prelude.thy ===== *)
theory Prelude
  imports Main "HOL-Library.Word"
begin

text \<open>
  Shared vocabulary of the development: the machine integers of the Rust source as
  words of their width, the checked and saturating operations of the Rust standard
  library that the emulator calls, results as sums, and the generic lemmas on lists,
  words and sums that the component theories use.

  \<^item> \<open>u8\<close>, \<open>u16\<close>, \<open>u32\<close>, \<open>u64\<close> are words; \<open>i64\<close> is read from a \<open>u64\<close> with \<open>sint\<close>.
  \<^item> \<open>usize\<close> is a natural number; the host is a 64-bit one, so conversions and checked
    sums fail from \<open>2 ^ 64\<close> on.
  \<^item> \<open>Result<T, E>\<close> is \<open>'e + 't\<close>, written with \<open>Err\<close> and \<open>Ok\<close>.
  \<^item> A method taking \<open>&mut self\<close> that can fail returns the new state and the result
    side by side, so what a failed call leaves behind is part of the model.
\<close>

section \<open>Machine integers\<close>

type_synonym u8 = "8 word"
type_synonym u16 = "16 word"
type_synonym u32 = "32 word"
type_synonym u64 = "64 word"
type_synonym usize = nat

named_theorems wf_intros \<open>preservation of the component invariants\<close>
named_theorems machine_int \<open>characterisations of the checked operations\<close>

abbreviation Ok :: "'a \<Rightarrow> 'e + 'a" where "Ok \<equiv> Inr"
abbreviation Err :: "'e \<Rightarrow> 'e + 'a" where "Err \<equiv> Inl"

definition checked_add :: "'w::len word \<Rightarrow> 'w word \<Rightarrow> 'w word option" where
  "checked_add a b = (if unat a + unat b < 2 ^ LENGTH('w) then Some (a + b) else None)"

definition usize_checked_add :: "usize \<Rightarrow> usize \<Rightarrow> usize option" where
  "usize_checked_add a b = (if a + b < 2 ^ 64 then Some (a + b) else None)"

definition u64_try_from :: "usize \<Rightarrow> u64 option" where
  "u64_try_from n = (if n < 2 ^ 64 then Some (word_of_nat n) else None)"

definition usize_try_from :: "u64 \<Rightarrow> usize option" where
  "usize_try_from w = Some (unat w)"

definition saturating_add :: "'w::len word \<Rightarrow> 'w word \<Rightarrow> 'w word" where
  "saturating_add a b = (if unat a + unat b < 2 ^ LENGTH('w) then a + b else - 1)"

definition div_ceil :: "'w::len word \<Rightarrow> 'w word \<Rightarrow> 'w word" where
  "div_ceil a b = (if a mod b = 0 then a div b else a div b + 1)"

definition ok_or :: "'a option \<Rightarrow> 'e \<Rightarrow> 'e + 'a" where
  "ok_or x e = (case x of None \<Rightarrow> Err e | Some v \<Rightarrow> Ok v)"

definition map_err :: "('e \<Rightarrow> 'f) \<Rightarrow> 'e + 'a \<Rightarrow> 'f + 'a" where
  "map_err f r = (case r of Inl e \<Rightarrow> Err (f e) | Inr v \<Rightarrow> Ok v)"

definition is_ok :: "'e + 'a \<Rightarrow> bool" where
  "is_ok r = (case r of Inl _ \<Rightarrow> False | Inr _ \<Rightarrow> True)"

section \<open>Laws of the checked operations\<close>

lemma checked_add_Some [machine_int]:
  "checked_add a b = Some c \<longleftrightarrow> unat a + unat b < 2 ^ LENGTH('w) \<and> c = a + b"
  for a b :: "'w::len word"
  by (auto simp: checked_add_def)

lemma checked_add_None [machine_int]:
  "checked_add a b = None \<longleftrightarrow> 2 ^ LENGTH('w) \<le> unat a + unat b"
  for a b :: "'w::len word"
  by (auto simp: checked_add_def)

lemma unat_add_exact:
  "unat a + unat b < 2 ^ LENGTH('w) \<Longrightarrow> unat (a + b) = unat a + unat b"
  for a b :: "'w::len word"
  by (simp add: unat_word_ariths)

lemma checked_add_unat:
  "checked_add a b = Some c \<Longrightarrow> unat c = unat a + unat b"
  for a b :: "'w::len word"
  by (auto simp: checked_add_Some unat_add_exact)

lemma checked_add_le: "checked_add a b = Some c \<Longrightarrow> a \<le> c"
  for a b :: "'w::len word"
  by (auto simp: word_le_nat_alt dest: checked_add_unat)

lemma checked_add_less:
  "checked_add a b = Some c \<Longrightarrow> b \<noteq> 0 \<Longrightarrow> a < c"
  for a b :: "'w::len word"
proof -
  assume c: "checked_add a b = Some c" and "b \<noteq> 0"
  then have "0 < unat b" by (simp add: unat_gt_0)
  with checked_add_unat [OF c] show "a < c" by (simp add: word_less_nat_alt)
qed

lemma usize_checked_add_Some [machine_int]:
  "usize_checked_add a b = Some c \<longleftrightarrow> a + b < 2 ^ 64 \<and> c = a + b"
  by (auto simp: usize_checked_add_def)

lemma usize_checked_add_None [machine_int]:
  "usize_checked_add a b = None \<longleftrightarrow> 2 ^ 64 \<le> a + b"
  by (auto simp: usize_checked_add_def)

text \<open>The bounds of the checked operations, for evaluation, as integers.\<close>

lemma checked_add_code [code]:
  "checked_add a b = (if uint a + uint b < 2 ^ LENGTH('w) then Some (a + b) else None)" for a b :: "'w::len word"
proof -
  have "unat a + unat b < 2 ^ LENGTH('w) \<longleftrightarrow> int (unat a + unat b) < int (2 ^ LENGTH('w))" by (simp only: of_nat_less_iff)
  then show ?thesis by (simp add: checked_add_def)
qed

lemma usize_checked_add_code [code]:
  "usize_checked_add a b = (if int a + int b < 18446744073709551616 then Some (a + b) else None)"
  by (auto simp: usize_checked_add_def)

lemma saturating_add_code [code]:
  "saturating_add a b = (if uint a + uint b < 2 ^ LENGTH('w) then a + b else - 1)" for a b :: "'w::len word"
  using checked_add_code [of a b] by (simp add: saturating_add_def checked_add_def split: if_splits)

lemma u64_try_from_Some [machine_int]:
  "u64_try_from n = Some w \<longleftrightarrow> n < 2 ^ 64 \<and> w = word_of_nat n"
  by (auto simp: u64_try_from_def)

lemma u64_try_from_None [machine_int]:
  "u64_try_from n = None \<longleftrightarrow> 2 ^ 64 \<le> n"
  by (auto simp: u64_try_from_def)

lemma unat_word_of_nat_small:
  "n < 2 ^ LENGTH('w) \<Longrightarrow> unat (word_of_nat n :: 'w::len word) = n"
  by (simp add: unat_of_nat take_bit_nat_eq_self)

lemma unat_u64_of_nat [simp]:
  "n < 18446744073709551616 \<Longrightarrow> unat (word_of_nat n :: u64) = n"
  by (rule unat_word_of_nat_small) simp

lemma unat_u64_less: "unat (w :: u64) < 18446744073709551616"
  using unsigned_less [of w, where ?'a = nat] by simp

lemma unat_offset:
  fixes a :: "'w::len word"
  assumes "unat a + n < 2 ^ LENGTH('w)"
  shows "unat (a + word_of_nat n) = unat a + n"
proof -
  have "unat (word_of_nat n :: 'w word) = n"
    using assms by (intro unat_word_of_nat_small) simp
  with assms show ?thesis by (simp add: unat_word_ariths)
qed

lemma offset_inject:
  fixes a :: "'w::len word"
  assumes "unat a + i < 2 ^ LENGTH('w)" and "unat a + j < 2 ^ LENGTH('w)"
  shows "a + word_of_nat i = a + word_of_nat j \<longleftrightarrow> i = j"
proof
  assume "a + word_of_nat i = a + word_of_nat j"
  then have "unat (a + word_of_nat i) = unat (a + word_of_nat j)" by (rule arg_cong)
  then show "i = j" unfolding unat_offset [OF assms(1)] unat_offset [OF assms(2)] by linarith
qed (rule arg_cong)

lemma unat_diff_exact:
  "b \<le> a \<Longrightarrow> unat (a - b) = unat a - unat b" for a b :: "'w::len word"
  by (simp add: unat_sub)

section \<open>Results\<close>

lemma ok_or_simps [simp]:
  "ok_or None e = Err e" "ok_or (Some v) e = Ok v"
  by (simp_all add: ok_or_def)

lemma ok_or_Ok: "ok_or x e = Ok v \<longleftrightarrow> x = Some v"
  by (cases x) auto

lemma ok_or_Err: "ok_or x e = Err e' \<longleftrightarrow> x = None \<and> e' = e"
  by (cases x) auto

lemma map_err_simps [simp]:
  "map_err f (Err e) = Err (f e)" "map_err f (Ok v) = Ok v"
  by (simp_all add: map_err_def)

lemma map_err_Ok [simp]: "map_err f r = Ok v \<longleftrightarrow> r = Ok v"
  by (cases r) auto

lemma is_ok_simps [simp]: "\<not> is_ok (Err e)" "is_ok (Ok v)"
  by (simp_all add: is_ok_def)

lemma is_ok_iff: "is_ok r \<longleftrightarrow> (\<exists>v. r = Ok v)"
  by (cases r) auto

section \<open>Lists\<close>

text \<open>\<open>Iterator::position\<close>: the index of the first element that satisfies the test.\<close>

fun position :: "('a \<Rightarrow> bool) \<Rightarrow> 'a list \<Rightarrow> nat option" where
  "position P [] = None"
| "position P (x # xs) = (if P x then Some 0 else map_option Suc (position P xs))"

lemma position_None: "position P xs = None \<longleftrightarrow> (\<forall>x\<in>set xs. \<not> P x)"
  by (induction xs) auto

lemma position_Some:
  "position P xs = Some i \<longleftrightarrow> i < length xs \<and> P (xs ! i) \<and> (\<forall>j<i. \<not> P (xs ! j))"
proof (induction xs arbitrary: i)
  case Nil
  then show ?case by simp
next
  case (Cons x xs)
  show ?case
  proof (cases i)
    case 0
    then show ?thesis by simp
  next
    case (Suc k)
    with Cons show ?thesis by (auto simp: less_Suc_eq_0_disj)
  qed
qed

lemma position_split:
  "position P xs = Some i \<Longrightarrow>
     \<exists>ys z zs. xs = ys @ z # zs \<and> length ys = i \<and> P z \<and> (\<forall>y\<in>set ys. \<not> P y)"
proof (induction xs arbitrary: i)
  case (Cons x xs)
  show ?case
  proof (cases "P x")
    case True
    with Cons.prems show ?thesis by (intro exI [of _ "[]"]) simp
  next
    case False
    with Cons.prems obtain k where "position P xs = Some k" "i = Suc k" by auto
    with Cons.IH [of k] obtain ys z zs
      where "xs = ys @ z # zs" "length ys = k" "P z" "\<forall>y\<in>set ys. \<not> P y" by auto
    with False \<open>i = Suc k\<close> show ?thesis
      by (intro exI [of _ "x # ys"] exI [of _ z] exI [of _ zs]) simp
  qed
qed simp

lemma split_first_unique:
  assumes "xs @ x # ys = xs' @ x' # ys'" and "P x" "P x'"
    and "\<forall>y\<in>set xs. \<not> P y" "\<forall>y\<in>set xs'. \<not> P y"
  shows "xs = xs' \<and> x = x' \<and> ys = ys'"
  using assms
proof (induction xs arbitrary: xs')
  case Nil
  then show ?case by (cases xs') auto
next
  case (Cons a xs)
  then show ?case by (cases xs') auto
qed

lemma find_Some_position:
  "find P xs = (case position P xs of None \<Rightarrow> None | Some i \<Rightarrow> Some (xs ! i))"
  by (induction xs) (auto split: option.splits)

lemma find_Some_mem: "find P xs = Some x \<Longrightarrow> x \<in> set xs \<and> P x"
  by (auto simp: find_Some_iff)

lemma find_unique:
  assumes "\<And>s u. s \<in> set xs \<Longrightarrow> u \<in> set xs \<Longrightarrow> P s \<Longrightarrow> P u \<Longrightarrow> s = u"
  shows "find P xs = Some s \<longleftrightarrow> s \<in> set xs \<and> P s"
proof (cases "find P xs")
  case None
  then have "\<not> (s \<in> set xs \<and> P s)" using find_None_iff [of P xs] by blast
  with None show ?thesis by simp
next
  case (Some u)
  then have u: "u \<in> set xs" "P u" using find_Some_mem by fast+
  show ?thesis
  proof
    assume "s \<in> set xs \<and> P s"
    with assms [of s u] u Some show "find P xs = Some s" by simp
  qed (rule find_Some_mem)
qed

lemma count_list_filter: "count_list (filter P xs) x = (if P x then count_list xs x else 0)"
  by (induction xs) auto

lemma sum_list_update_nat:
  "i < length xs \<Longrightarrow> xs ! i \<le> v \<Longrightarrow>
     sum_list (xs[i := v]) = sum_list xs + (v - xs ! i)" for xs :: "nat list"
  by (induction xs arbitrary: i) (auto split: nat.splits)

lemma mem_update: "x \<in> set (xs[i := y]) \<Longrightarrow> x = y \<or> x \<in> set xs"
  by (meson insertE set_update_subset_insert subsetD)

end
