(* ===== verification/Ordered_Map.thy ===== *)
theory Ordered_Map
  imports Prelude "HOL-Library.Product_Lexorder"
begin

text \<open>
  The ordered containers of the Rust standard library that the emulator keeps its state
  in. A \<open>BTreeMap<K, V>\<close> is the list of its entries in strictly ascending key order
  (what its iterators deliver), a \<open>BTreeSet<K>\<close> the map to the unit value. The locale
  \<open>ordered_map\<close> is the contract the components use: what a lookup returns after an
  insert or a remove and how the number of entries grows. The lemmas on bulk inserts are
  proved once inside it; the interpretation \<open>btree\<close> supplies them for the lists.
\<close>

type_synonym ('k, 'v) btree_map = "('k \<times> 'v) list"
type_synonym 'k btree_set = "('k, unit) btree_map"

section \<open>Operations\<close>

definition bm_empty :: "('k, 'v) btree_map" where
  "bm_empty = []"

definition bm_get :: "('k, 'v) btree_map \<Rightarrow> 'k \<Rightarrow> 'v option" where
  "bm_get m k = map_of m k"

definition bm_contains :: "('k, 'v) btree_map \<Rightarrow> 'k \<Rightarrow> bool" where
  "bm_contains m k = (bm_get m k \<noteq> None)"

fun bm_insert :: "'k::linorder \<Rightarrow> 'v \<Rightarrow> ('k, 'v) btree_map \<Rightarrow> ('k, 'v) btree_map" where
  "bm_insert k v [] = [(k, v)]"
| "bm_insert k v ((k', v') # m) =
     (if k < k' then (k, v) # (k', v') # m
      else if k = k' then (k, v) # m
      else (k', v') # bm_insert k v m)"

definition bm_remove :: "'k \<Rightarrow> ('k, 'v) btree_map \<Rightarrow> ('k, 'v) btree_map" where
  "bm_remove k m = filter (\<lambda>(k', _). k' \<noteq> k) m"

definition bm_ok :: "('k::linorder, 'v) btree_map \<Rightarrow> bool" where
  "bm_ok m = sorted_wrt (<) (map fst m)"

definition bs_member :: "'k btree_set \<Rightarrow> 'k \<Rightarrow> bool" where
  "bs_member s k = bm_contains s k"

definition bs_insert :: "'k::linorder \<Rightarrow> 'k btree_set \<Rightarrow> 'k btree_set" where
  "bs_insert k s = bm_insert k () s"

definition bs_remove :: "'k \<Rightarrow> 'k btree_set \<Rightarrow> 'k btree_set" where
  "bs_remove k s = bm_remove k s"

definition bs_elements :: "'k btree_set \<Rightarrow> 'k list" where
  "bs_elements s = map fst s"

section \<open>The contract\<close>

locale ordered_map =
  fixes empty :: "'m"
    and get :: "'m \<Rightarrow> 'k::linorder \<Rightarrow> 'v option"
    and insert :: "'k \<Rightarrow> 'v \<Rightarrow> 'm \<Rightarrow> 'm"
    and remove :: "'k \<Rightarrow> 'm \<Rightarrow> 'm"
    and len :: "'m \<Rightarrow> nat"
    and inv :: "'m \<Rightarrow> bool"
  assumes get_empty: "get empty k = None"
    and get_insert: "get (insert k v m) = (get m)(k \<mapsto> v)"
    and get_remove: "get (remove k m) = (get m)(k := None)"
    and inv_empty: "inv empty"
    and inv_insert: "inv m \<Longrightarrow> inv (insert k v m)"
    and inv_remove: "inv m \<Longrightarrow> inv (remove k m)"
    and finite_dom: "finite (dom (get m))"
    and len_card: "inv m \<Longrightarrow> len m = card (dom (get m))"
begin

lemma inv_insert_all:
  "inv m \<Longrightarrow> inv (fold (\<lambda>(k, v). insert k v) kvs m)"
  by (induction kvs arbitrary: m) (auto simp: inv_insert)

lemma get_insert_all:
  "get (fold (\<lambda>(k, v). insert k v) kvs m) = get m ++ map_of (rev kvs)"
  by (induction kvs arbitrary: m) (auto simp: get_insert map_add_upd_left map_add_def
      fun_eq_iff split: option.splits)

lemma dom_insert_all:
  "dom (get (fold (\<lambda>(k, v). insert k v) kvs m)) = dom (get m) \<union> fst ` set kvs"
  by (induction kvs arbitrary: m) (auto simp: get_insert split: if_splits)

lemma len_insert_all:
  assumes "inv m"
  shows "len (fold (\<lambda>(k, v). insert k v) kvs m)
       = len m + card (fst ` set kvs - dom (get m))"
proof -
  have eq: "dom (get m) \<union> fst ` set kvs = dom (get m) \<union> (fst ` set kvs - dom (get m))" by blast
  have "card (dom (get m) \<union> fst ` set kvs)
      = card (dom (get m)) + card (fst ` set kvs - dom (get m))"
    by (subst eq, subst card_Un_disjoint) (auto simp: finite_dom)
  with assms show ?thesis
    by (simp add: len_card inv_insert_all dom_insert_all)
qed

lemma len_insert:
  assumes "inv m"
  shows "len (insert k v m) = (if get m k = None then Suc (len m) else len m)"
  using assms finite_dom [of m]
  by (auto simp: len_card inv_insert get_insert card_insert_if domIff)

lemma len_remove:
  assumes "inv m"
  shows "len (remove k m) = (if get m k = None then len m else len m - 1)"
proof -
  have "dom (get (remove k m)) = dom (get m) - {k}" by (auto simp: get_remove)
  with assms finite_dom [of m] show ?thesis
    by (auto simp: len_card inv_remove card_Diff_singleton_if domIff)
qed

lemma len_zero: "inv m \<Longrightarrow> len m = 0 \<longleftrightarrow> (\<forall>k. get m k = None)"
  using finite_dom [of m] by (auto simp: len_card)

end

section \<open>The sorted list meets it\<close>

lemma bm_get_empty [simp]: "bm_get bm_empty k = None"
  by (simp add: bm_get_def bm_empty_def)

lemma bm_get_Nil [simp]: "bm_get [] k = None"
  by (simp add: bm_get_def)

lemma bm_get_Cons [simp]: "bm_get ((k', v) # m) k = (if k = k' then Some v else bm_get m k)"
  by (simp add: bm_get_def)

lemma bm_get_insert_apply [simp]:
  "bm_get (bm_insert k v m) a = (if a = k then Some v else bm_get m a)"
  by (induction m) auto

lemma bm_get_insert: "bm_get (bm_insert k v m) = (bm_get m)(k \<mapsto> v)"
  by (simp add: fun_eq_iff)

lemma bm_get_remove_apply [simp]:
  "bm_get (bm_remove k m) a = (if a = k then None else bm_get m a)"
  by (induction m) (auto simp: bm_remove_def)

lemma bm_get_remove: "bm_get (bm_remove k m) = (bm_get m)(k := None)"
  by (simp add: fun_eq_iff)

lemma bm_ok_Nil [simp]: "bm_ok []"
  by (simp add: bm_ok_def)

lemma bm_ok_Cons [simp]: "bm_ok ((k, v) # m) \<longleftrightarrow> (\<forall>k'\<in>fst ` set m. k < k') \<and> bm_ok m"
  by (auto simp: bm_ok_def)

lemma mem_bm_insert:
  "p \<in> set (bm_insert k v m) \<Longrightarrow> p = (k, v) \<or> p \<in> set m"
  by (induction m) (auto split: if_splits)

lemma bm_ok_insert [simp, wf_intros]: "bm_ok m \<Longrightarrow> bm_ok (bm_insert k v m)"
proof (induction m)
  case (Cons x m)
  then show ?case
    by (cases x) (auto dest!: mem_bm_insert intro: less_trans simp: neq_iff)
qed simp

lemma bm_ok_remove [simp, wf_intros]: "bm_ok m \<Longrightarrow> bm_ok (bm_remove k m)"
  by (induction m) (auto simp: bm_remove_def)

lemma bm_ok_tl [wf_intros]: "bm_ok m \<Longrightarrow> bm_ok (tl m)"
  by (cases m) auto

lemma dom_bm_get: "dom (bm_get m) = fst ` set m"
  unfolding bm_get_def [abs_def] by (rule dom_map_of_conv_image_fst)

lemma bm_ok_distinct: "bm_ok m \<Longrightarrow> distinct (map fst m)"
  by (simp add: bm_ok_def strict_sorted_iff)

lemma length_bm: "bm_ok m \<Longrightarrow> length m = card (dom (bm_get m))"
  using distinct_card [OF bm_ok_distinct, of m] by (simp add: dom_bm_get)

interpretation btree: ordered_map bm_empty bm_get bm_insert bm_remove length bm_ok
  by unfold_locales
    (auto simp: bm_get_insert bm_get_remove length_bm dom_bm_get bm_empty_def [symmetric]
      intro: bm_ok_insert bm_ok_remove simp flip: bm_empty_def, simp add: bm_empty_def)

section \<open>Lookups, membership and order\<close>

lemma bm_contains_insert [simp]:
  "bm_contains (bm_insert k v m) a \<longleftrightarrow> a = k \<or> bm_contains m a"
  by (auto simp: bm_contains_def)

lemma bm_get_Some_mem: "bm_get m k = Some v \<Longrightarrow> (k, v) \<in> set m"
  by (auto simp: bm_get_def dest: map_of_SomeD)

lemma bm_mem_get: "bm_ok m \<Longrightarrow> (k, v) \<in> set m \<Longrightarrow> bm_get m k = Some v"
  by (simp add: bm_get_def bm_ok_distinct)

lemma bm_get_iff: "bm_ok m \<Longrightarrow> bm_get m k = Some v \<longleftrightarrow> (k, v) \<in> set m"
  by (blast intro: bm_mem_get dest: bm_get_Some_mem)

lemma bm_first_least:
  assumes "bm_ok m" "m = (k, v) # m'" "bm_get m k' = Some v'"
  shows "k \<le> k'"
proof -
  from bm_get_Some_mem [OF assms(3)] assms(2) have "k' = k \<or> (k', v') \<in> set m'" by auto
  with assms(1,2) show ?thesis by (auto intro: less_imp_le)
qed

lemma bs_member_insert [simp]: "bs_member (bs_insert k s) a \<longleftrightarrow> a = k \<or> bs_member s a"
  by (simp add: bs_member_def bs_insert_def)

lemma bs_member_remove [simp]: "bs_member (bs_remove k s) a \<longleftrightarrow> a \<noteq> k \<and> bs_member s a"
  by (simp add: bs_member_def bs_remove_def bm_contains_def)

lemma bs_member_elements: "bs_member s a \<longleftrightarrow> a \<in> set (bs_elements s)"
  using dom_bm_get [of s] by (auto simp: bs_member_def bm_contains_def bs_elements_def domIff)

lemma bs_member_Nil [simp]: "\<not> bs_member [] a"
  by (simp add: bs_member_elements bs_elements_def)

lemma bs_ok_insert [simp, wf_intros]: "bm_ok s \<Longrightarrow> bm_ok (bs_insert k s)"
  by (simp add: bs_insert_def)

lemma bs_ok_remove [simp, wf_intros]: "bm_ok s \<Longrightarrow> bm_ok (bs_remove k s)"
  by (simp add: bs_remove_def)

end
