(* ===== verification/Sparse_Memory.thy ===== *)
theory Sparse_Memory
  imports Ordered_Map
begin

text \<open>
  \<open>src/src/memory/region.rs\<close> and \<open>src/src/memory/sparse.rs\<close>: staged memory regions whose
  bytes may be unknown, with a bounded overlay of written bytes over an initialised
  prefix. The state is the record \<open>sparse_memory\<close>; each public method is a definition of
  the same name with the prefix \<open>sparse_\<close>. \<open>sparse_ok\<close> is the invariant of the overlay
  accounting and \<open>byte_state\<close> is the abstract view that reads and writes are specified
  against. Host allocation (\<open>try_reserve_exact\<close>) is the parameter \<open>reserve\<close>.
\<close>

section \<open>Regions\<close>

record memory_region =
  allocation_bytes :: u64
  known_prefix :: "u8 list"

datatype memory_region_error = InitializedBytesExceedAllocation

definition region_new :: "u64 \<Rightarrow> u8 list \<Rightarrow> memory_region_error + memory_region" where
  "region_new alloc prefix =
     (if alloc < word_of_nat (length prefix) then Err InitializedBytesExceedAllocation
      else Ok \<lparr>allocation_bytes = alloc, known_prefix = prefix\<rparr>)"

definition region_unknown :: "u64 \<Rightarrow> memory_region" where
  "region_unknown alloc = \<lparr>allocation_bytes = alloc, known_prefix = []\<rparr>"

section \<open>State and errors\<close>

datatype memory_byte_state = Known u8 | Unknown

record sparse_memory =
  regions :: "memory_region list"
  overlays :: "(u64, memory_byte_state) btree_map list"
  overlay_bytes :: usize
  max_overlay_bytes :: usize
  max_transfer_bytes :: usize

datatype sparse_memory_error =
    InvalidRegion usize
  | RangeOverflow usize
  | OutOfBounds usize u64 u64 u64
  | TransferLimitExceeded usize usize
  | OverlayLimitExceeded usize
  | HostAllocationFailed usize
  | UnknownBytes usize u64

definition sparse_new :: "memory_region list \<Rightarrow> usize \<Rightarrow> usize \<Rightarrow> sparse_memory" where
  "sparse_new rs max_overlay max_transfer =
     \<lparr>regions = rs, overlays = map (\<lambda>_. bm_empty) [0..<length rs], overlay_bytes = 0,
      max_overlay_bytes = max_overlay, max_transfer_bytes = max_transfer\<rparr>"

section \<open>Operations\<close>

definition prefix_state :: "memory_region \<Rightarrow> u64 \<Rightarrow> memory_byte_state" where
  "prefix_state r offset =
     (case usize_try_from offset of
        None \<Rightarrow> Unknown
      | Some index \<Rightarrow>
          if index < length (known_prefix r) then Known (known_prefix r ! index) else Unknown)"

definition byte_state :: "sparse_memory \<Rightarrow> usize \<Rightarrow> u64 \<Rightarrow> memory_byte_state" where
  "byte_state m region offset =
     (case bm_get (overlays m ! region) offset of
        Some s \<Rightarrow> s
      | None \<Rightarrow> prefix_state (regions m ! region) offset)"

definition check_range :: "sparse_memory \<Rightarrow> usize \<Rightarrow> u64 \<Rightarrow> usize \<Rightarrow> sparse_memory_error + unit" where
  "check_range m region offset len =
     (if \<not> region < length (regions m) then Err (InvalidRegion region)
      else let alloc = allocation_bytes (regions m ! region) in
      if max_transfer_bytes m < len
      then Err (TransferLimitExceeded len (max_transfer_bytes m))
      else case u64_try_from len of
          None \<Rightarrow> Err (RangeOverflow region)
        | Some n \<Rightarrow>
            (case checked_add offset n of
               None \<Rightarrow> Err (RangeOverflow region)
             | Some e \<Rightarrow>
                 if alloc < e then Err (OutOfBounds region offset e alloc) else Ok ()))"

definition sparse_read_states ::
  "(usize \<Rightarrow> bool) \<Rightarrow> sparse_memory \<Rightarrow> usize \<Rightarrow> u64 \<Rightarrow> usize
     \<Rightarrow> sparse_memory_error + memory_byte_state list" where
  "sparse_read_states reserve m region offset len =
     (case check_range m region offset len of
        Err e \<Rightarrow> Err e
      | Ok _ \<Rightarrow>
          if \<not> reserve len then Err (HostAllocationFailed len)
          else Ok (map (\<lambda>index. byte_state m region (offset + word_of_nat index)) [0..<len]))"

fun read_known_loop ::
  "sparse_memory \<Rightarrow> usize \<Rightarrow> u64 \<Rightarrow> usize list \<Rightarrow> sparse_memory_error + u8 list" where
  "read_known_loop m region offset [] = Ok []"
| "read_known_loop m region offset (index # rest) =
     (let current = offset + word_of_nat index in
      case byte_state m region current of
        Unknown \<Rightarrow> Err (UnknownBytes region current)
      | Known v \<Rightarrow>
          (case read_known_loop m region offset rest of
             Err e \<Rightarrow> Err e
           | Ok vs \<Rightarrow> Ok (v # vs)))"

definition sparse_read_known ::
  "(usize \<Rightarrow> bool) \<Rightarrow> sparse_memory \<Rightarrow> usize \<Rightarrow> u64 \<Rightarrow> usize
     \<Rightarrow> sparse_memory_error + u8 list" where
  "sparse_read_known reserve m region offset len =
     (case check_range m region offset len of
        Err e \<Rightarrow> Err e
      | Ok _ \<Rightarrow>
          if \<not> reserve len then Err (HostAllocationFailed len)
          else read_known_loop m region offset [0..<len])"

text \<open>The insertion loop of the writes, on one region's overlay.\<close>

definition insert_run ::
  "u64 \<Rightarrow> usize \<Rightarrow> (usize \<Rightarrow> memory_byte_state) \<Rightarrow> (u64, memory_byte_state) btree_map
     \<Rightarrow> (u64, memory_byte_state) btree_map" where
  "insert_run offset len val ov =
     fold (\<lambda>index. bm_insert (offset + word_of_nat index) (val index)) [0..<len] ov"

definition next_overlay_count :: "sparse_memory \<Rightarrow> usize \<Rightarrow> sparse_memory_error + usize" where
  "next_overlay_count m new =
     (case usize_checked_add (overlay_bytes m) new of
        None \<Rightarrow> Err (OverlayLimitExceeded (max_overlay_bytes m))
      | Some count \<Rightarrow>
          if count \<le> max_overlay_bytes m then Ok count
          else Err (OverlayLimitExceeded (max_overlay_bytes m)))"

definition sparse_write_with ::
  "sparse_memory \<Rightarrow> usize \<Rightarrow> u64 \<Rightarrow> usize \<Rightarrow> (usize \<Rightarrow> memory_byte_state)
     \<Rightarrow> sparse_memory \<times> (sparse_memory_error + unit)" where
  "sparse_write_with m region offset len val =
     (case check_range m region offset len of
        Err e \<Rightarrow> (m, Err e)
      | Ok _ \<Rightarrow>
          (let new = length (filter (\<lambda>index. \<not> bm_contains (overlays m ! region)
                                        (offset + word_of_nat index)) [0..<len])
           in case next_overlay_count m new of
                Err e \<Rightarrow> (m, Err e)
              | Ok count \<Rightarrow>
                  (m\<lparr>overlays := (overlays m)[region := insert_run offset len val (overlays m ! region)],
                     overlay_bytes := count\<rparr>, Ok ())))"

definition sparse_write_known ::
  "sparse_memory \<Rightarrow> usize \<Rightarrow> u64 \<Rightarrow> u8 list \<Rightarrow> sparse_memory \<times> (sparse_memory_error + unit)" where
  "sparse_write_known m region offset bs =
     sparse_write_with m region offset (length bs) (\<lambda>index. Known (bs ! index))"

definition sparse_write_states ::
  "sparse_memory \<Rightarrow> usize \<Rightarrow> u64 \<Rightarrow> memory_byte_state list
     \<Rightarrow> sparse_memory \<times> (sparse_memory_error + unit)" where
  "sparse_write_states m region offset states =
     sparse_write_with m region offset (length states) (\<lambda>index. states ! index)"

definition sparse_write_unknown ::
  "sparse_memory \<Rightarrow> usize \<Rightarrow> u64 \<Rightarrow> usize \<Rightarrow> sparse_memory \<times> (sparse_memory_error + unit)" where
  "sparse_write_unknown m region offset len =
     sparse_write_with m region offset len (\<lambda>_. Unknown)"

type_synonym segment = "usize \<times> u64 \<times> memory_byte_state list"

fun scan_segments ::
  "sparse_memory \<Rightarrow> segment list \<Rightarrow> (usize \<times> u64) btree_set
     \<Rightarrow> sparse_memory_error + (usize \<times> u64) btree_set" where
  "scan_segments m [] newly = Ok newly"
| "scan_segments m ((region, offset, states) # rest) newly =
     (case check_range m region offset (length states) of
        Err e \<Rightarrow> Err e
      | Ok _ \<Rightarrow> scan_segments m rest
          (fold (\<lambda>index s. if bm_contains (overlays m ! region) (offset + word_of_nat index)
                           then s else bs_insert (region, offset + word_of_nat index) s)
             [0..<length states] newly))"

fun insert_segments ::
  "segment list \<Rightarrow> (u64, memory_byte_state) btree_map list
     \<Rightarrow> (u64, memory_byte_state) btree_map list" where
  "insert_segments [] ovs = ovs"
| "insert_segments ((region, offset, states) # rest) ovs =
     insert_segments rest
       (ovs[region := insert_run offset (length states) (\<lambda>index. states ! index) (ovs ! region)])"

definition sparse_write_segments ::
  "sparse_memory \<Rightarrow> segment list \<Rightarrow> sparse_memory \<times> (sparse_memory_error + unit)" where
  "sparse_write_segments m segments =
     (case scan_segments m segments [] of
        Err e \<Rightarrow> (m, Err e)
      | Ok newly \<Rightarrow>
          (case next_overlay_count m (length newly) of
             Err e \<Rightarrow> (m, Err e)
           | Ok count \<Rightarrow>
               (m\<lparr>overlays := insert_segments segments (overlays m), overlay_bytes := count\<rparr>,
                Ok ())))"

section \<open>Address runs\<close>

definition run_keys :: "u64 \<Rightarrow> usize \<Rightarrow> u64 set" where
  "run_keys offset len = {a. unat offset \<le> unat a \<and> unat a < unat offset + len}"

lemma run_keys_image:
  assumes "unat offset + len < 2 ^ 64"
  shows "(\<lambda>i. offset + word_of_nat i) ` {..<len} = run_keys offset len"
proof -
  have u: "unat (offset + word_of_nat i) = unat offset + i" if "i < len" for i
    using assms that by (intro unat_offset) simp
  have "a \<in> (\<lambda>i. offset + word_of_nat i) ` {..<len}" if "a \<in> run_keys offset len" for a
  proof -
    from that have i: "unat a - unat offset < len" "unat offset \<le> unat a"
      by (auto simp: run_keys_def)
    from u [OF i(1)] i(2) have "a = offset + word_of_nat (unat a - unat offset)"
      by (intro word_unat_eq_iff [THEN iffD2]) simp
    with i(1) show ?thesis by blast
  qed
  then show ?thesis using u by (auto simp: run_keys_def)
qed

lemma run_inj:
  fixes offset :: u64
  assumes "unat offset + len < 2 ^ 64"
  shows "inj_on (\<lambda>i. offset + word_of_nat i) {..<len}"
  using assms by (intro inj_onI, subst (asm) offset_inject) simp_all

lemma insert_run_fold:
  "insert_run offset len val ov =
     fold (\<lambda>(k, v). bm_insert k v) (map (\<lambda>i. (offset + word_of_nat i, val i)) [0..<len]) ov"
  by (simp add: insert_run_def fold_map o_def)

lemma insert_run_ok [wf_intros]: "bm_ok ov \<Longrightarrow> bm_ok (insert_run offset len val ov)"
  unfolding insert_run_fold by (rule btree.inv_insert_all)

lemma insert_run_keys:
  assumes "unat offset + len < 2 ^ 64"
  shows "dom (bm_get (insert_run offset len val ov)) = dom (bm_get ov) \<union> run_keys offset len"
proof -
  have "fst ` set (map (\<lambda>i. (offset + word_of_nat i, val i)) [0..<len]) = run_keys offset len"
    unfolding run_keys_image [OF assms, symmetric] by (simp add: image_image lessThan_atLeast0)
  then show ?thesis
    unfolding insert_run_fold btree.dom_insert_all by simp
qed

lemma insert_run_get:
  assumes "unat offset + len < 2 ^ 64"
  shows "bm_get (insert_run offset len val ov) a =
    (if a \<in> run_keys offset len then Some (val (unat a - unat offset)) else bm_get ov a)"
  using assms
proof (induction len)
  case 0
  then show ?case by (auto simp: insert_run_def run_keys_def)
next
  case (Suc n)
  then have u: "unat (offset + word_of_nat n) = unat offset + n"
    by (intro unat_offset) simp
  have "insert_run offset (Suc n) val ov
      = bm_insert (offset + word_of_nat n) (val n) (insert_run offset n val ov)"
    by (simp add: insert_run_def)
  moreover have "a = offset + word_of_nat n \<longleftrightarrow> unat a = unat offset + n"
    using u by (metis word_unat_eq_iff)
  ultimately show ?case using Suc by (auto simp: run_keys_def)
qed

section \<open>The overlay accounting\<close>

definition overlay_entries :: "(u64, memory_byte_state) btree_map list \<Rightarrow> (usize \<times> u64) set" where
  "overlay_entries ovs = (SIGMA r:{..<length ovs}. dom (bm_get (ovs ! r)))"

definition sparse_ok :: "sparse_memory \<Rightarrow> bool" where
  "sparse_ok m \<longleftrightarrow>
     length (overlays m) = length (regions m) \<and>
     (\<forall>ov\<in>set (overlays m). bm_ok ov) \<and>
     overlay_bytes m = sum_list (map length (overlays m)) \<and>
     overlay_bytes m \<le> max_overlay_bytes m \<and> max_overlay_bytes m < 2 ^ 64 \<and>
     (\<forall>(r, a)\<in>overlay_entries (overlays m). a < allocation_bytes (regions m ! r))"

lemma finite_overlay_entries [simp]: "finite (overlay_entries ovs)"
  by (simp add: overlay_entries_def dom_bm_get)

lemma sum_list_overlays:
  assumes "\<forall>ov\<in>set ovs. bm_ok ov"
  shows "sum_list (map length ovs) = card (overlay_entries ovs)"
proof -
  have "card (overlay_entries ovs) = (\<Sum>r<length ovs. card (dom (bm_get (ovs ! r))))"
    unfolding overlay_entries_def by (rule card_SigmaI) (auto simp: dom_bm_get)
  also have "\<dots> = (\<Sum>r<length ovs. length (ovs ! r))"
    using assms by (intro sum.cong) (auto simp: length_bm)
  also have "\<dots> = sum_list (map length ovs)"
    by (simp add: sum_list_sum_nth atLeast0LessThan)
  finally show ?thesis by simp
qed

lemma overlay_entries_run:
  assumes "r < length ovs" and "unat offset + len < 2 ^ 64"
  shows "overlay_entries (ovs[r := insert_run offset len val (ovs ! r)])
       = overlay_entries ovs \<union> {r} \<times> run_keys offset len"
proof (rule set_eqI, clarify)
  fix r' a
  show "((r', a) \<in> overlay_entries (ovs[r := insert_run offset len val (ovs ! r)])) =
        ((r', a) \<in> overlay_entries ovs \<union> {r} \<times> run_keys offset len)"
    using assms(1) insert_run_keys [OF assms(2), of val "ovs ! r"]
    by (cases "r' = r") (simp_all add: overlay_entries_def)
qed

lemma check_range_Ok:
  "check_range m region offset len = Ok u \<longleftrightarrow>
     region < length (regions m) \<and> len \<le> max_transfer_bytes m \<and>
     unat offset + len \<le> unat (allocation_bytes (regions m ! region))"
proof (cases "region < length (regions m) \<and> len \<le> max_transfer_bytes m")
  case outer: True
  show ?thesis
  proof (cases "unat offset + len < 2 ^ 64")
    case True
    then have n: "len < 2 ^ 64" by simp
    then have c: "checked_add offset (word_of_nat len) = Some (offset + word_of_nat len)"
      using True by (simp add: checked_add_Some)
    from unat_offset [of offset len] True
    have "unat (offset + word_of_nat len) = unat offset + len" by simp
    with outer n c show ?thesis
      by (simp add: check_range_def Let_def u64_try_from_def word_less_nat_alt not_le)
  next
    case False
    then have "\<not> unat offset + len \<le> unat (allocation_bytes (regions m ! region))"
      using unat_u64_less [of "allocation_bytes (regions m ! region)"] by simp
    with False outer show ?thesis
      by (auto simp: check_range_def Let_def u64_try_from_def checked_add_def
          split: option.splits if_splits)
  qed
next
  case False
  then show ?thesis by (auto simp: check_range_def Let_def)
qed

lemma check_range_bound:
  "check_range m region offset len = Ok u \<Longrightarrow> unat offset + len < 2 ^ 64"
  using unat_u64_less [of "allocation_bytes (regions m ! region)"] by (simp add: check_range_Ok)

lemma new_run_card:
  assumes "unat offset + len < 2 ^ 64"
  shows "length (filter (\<lambda>i. \<not> bm_contains ov (offset + word_of_nat i)) [0..<len])
       = card (run_keys offset len - dom (bm_get ov))"
proof -
  let ?f = "\<lambda>i. offset + word_of_nat i" and ?new = "\<lambda>i. \<not> bm_contains ov (offset + word_of_nat i)"
  have "length (filter ?new [0..<len]) = card {i. i < len \<and> ?new i}"
    by (simp add: distinct_length_filter Int_def conj_commute)
  also have "\<dots> = card (?f ` {i. i < len \<and> ?new i})"
    by (rule card_image [symmetric], rule inj_on_subset [OF run_inj [OF assms]]) auto
  also have "?f ` {i. i < len \<and> ?new i} = ?f ` {..<len} - dom (bm_get ov)"
    by (auto simp: bm_contains_def)
  finally show ?thesis by (simp add: run_keys_image [OF assms])
qed

lemma next_overlay_count_Ok:
  "next_overlay_count m new = Ok count \<longleftrightarrow>
     count = overlay_bytes m + new \<and> count < 2 ^ 64 \<and> count \<le> max_overlay_bytes m"
  by (auto simp: next_overlay_count_def usize_checked_add_def)

lemma next_overlay_count_Err:
  "next_overlay_count m new = Err e \<Longrightarrow> e = OverlayLimitExceeded (max_overlay_bytes m)"
  by (auto simp: next_overlay_count_def split: option.splits if_splits)

section \<open>One write\<close>

lemma sparse_write_with_cases:
  assumes "sparse_write_with m region offset len val = (m', res)"
  obtains (failed) e where "res = Err e" "m' = m"
  | (success) "res = Ok ()" "check_range m region offset len = Ok ()"
      "overlay_bytes m + card (run_keys offset len - dom (bm_get (overlays m ! region)))
         \<le> max_overlay_bytes m"
      "m' = m\<lparr>overlays := (overlays m)[region := insert_run offset len val (overlays m ! region)],
             overlay_bytes := overlay_bytes m
               + card (run_keys offset len - dom (bm_get (overlays m ! region)))\<rparr>"
proof (cases "check_range m region offset len")
  case (Inl e)
  with assms show ?thesis by (intro failed [of e]) (simp_all add: sparse_write_with_def)
next
  case (Inr u)
  let ?new = "card (run_keys offset len - dom (bm_get (overlays m ! region)))"
  show ?thesis
  proof (cases "next_overlay_count m ?new")
    case (Inl e)
    with assms Inr show ?thesis
      by (intro failed [of e]) (simp_all add: sparse_write_with_def new_run_card [OF check_range_bound [OF Inr]])
  next
    case count: (Inr c)
    with assms Inr show ?thesis
      by (intro success)
        (simp_all add: sparse_write_with_def new_run_card [OF check_range_bound [OF Inr]]
          next_overlay_count_Ok)
  qed
qed

lemma overlay_entries_in_range:
  assumes "sparse_ok m" and "check_range m region offset len = Ok u"
    and "(r, a) \<in> {region} \<times> run_keys offset len"
  shows "a < allocation_bytes (regions m ! r)"
  using assms(2,3) by (auto simp: check_range_Ok run_keys_def word_less_nat_alt)

lemma sparse_new_ok [wf_intros]:
  "max_overlay < 2 ^ 64 \<Longrightarrow> sparse_ok (sparse_new rs max_overlay max_transfer)"
  by (auto simp: sparse_ok_def sparse_new_def overlay_entries_def bm_empty_def sum_list_triv
      comp_def map_replicate_const)

lemma sparse_overlay_count:
  "sparse_ok m \<Longrightarrow> overlay_bytes m = card (overlay_entries (overlays m))"
  by (simp add: sparse_ok_def sum_list_overlays)

lemma sparse_okI:
  assumes ok: "sparse_ok m" and len: "length ovs = length (overlays m)"
    and bm: "\<forall>ov\<in>set ovs. bm_ok ov"
    and ent: "overlay_entries ovs = overlay_entries (overlays m) \<union> K"
    and rng: "\<And>r a. (r, a) \<in> K \<Longrightarrow> a < allocation_bytes (regions m ! r)"
    and cnt: "count = card (overlay_entries ovs)" "count \<le> max_overlay_bytes m"
  shows "sparse_ok (m\<lparr>overlays := ovs, overlay_bytes := count\<rparr>)"
  using ok len bm rng cnt sum_list_overlays [OF bm] by (auto simp: sparse_ok_def ent)

lemma insert_run_nth_ok:
  assumes "sparse_ok m" "r < length (regions m)"
  shows "\<forall>ov\<in>set ((overlays m)[r := insert_run offset len val (overlays m ! r)]). bm_ok ov"
  using assms by (auto simp: sparse_ok_def dest!: set_update_subset_insert [THEN subsetD]
      intro!: insert_run_ok)

lemma run_entries_card:
  assumes "sparse_ok m" and "check_range m r offset len = Ok u"
  shows "card (overlay_entries (overlays m) \<union> {r} \<times> run_keys offset len)
       = overlay_bytes m + card (run_keys offset len - dom (bm_get (overlays m ! r)))"
proof -
  let ?E = "overlay_entries (overlays m)" and ?N = "run_keys offset len - dom (bm_get (overlays m ! r))"
  have r: "r < length (overlays m)" using assms by (simp add: sparse_ok_def check_range_Ok)
  have fin: "finite ?N"
    using run_keys_image [OF check_range_bound [OF assms(2)]] by (metis finite_Diff finite_imageI finite_lessThan)
  have "?E \<union> {r} \<times> run_keys offset len = ?E \<union> {r} \<times> ?N"
    using r by (auto simp: overlay_entries_def)
  moreover have "?E \<inter> {r} \<times> ?N = {}" by (auto simp: overlay_entries_def)
  ultimately have "card (?E \<union> {r} \<times> run_keys offset len) = card ?E + card ({r} \<times> ?N)"
    using fin by (simp add: card_Un_disjoint)
  then show ?thesis using sparse_overlay_count [OF assms(1)] by simp
qed

lemma sparse_write_with_ok [wf_intros]:
  assumes "sparse_ok m" and w: "sparse_write_with m region offset len val = (m', res)"
  shows "sparse_ok m'"
  using w
proof (cases rule: sparse_write_with_cases)
  case failed
  with assms show ?thesis by simp
next
  case success
  have r: "region < length (overlays m)" and l: "unat offset + len < 2 ^ 64"
    using assms(1) success(2) check_range_bound [OF success(2)]
    by (simp_all add: sparse_ok_def check_range_Ok)
  show ?thesis unfolding success(4)
    by (rule sparse_okI [OF assms(1) _ insert_run_nth_ok [OF assms(1)] overlay_entries_run [OF r l]])
      (use success(2,3) r overlay_entries_in_range [OF assms(1) success(2)]
         run_entries_card [OF assms(1) success(2)] overlay_entries_run [OF r l] in
         \<open>auto simp: check_range_Ok\<close>)
qed

text \<open>When a write succeeds: range, transfer limit and overlay budget, and nothing else.\<close>

lemma sparse_write_with_succeeds:
  assumes "sparse_ok m" and "sparse_write_with m region offset len val = (m', res)"
  shows "res = Ok () \<longleftrightarrow>
     region < length (regions m) \<and> len \<le> max_transfer_bytes m \<and>
     unat offset + len \<le> unat (allocation_bytes (regions m ! region)) \<and>
     card (overlay_entries (overlays m)) +
       card {a. unat offset \<le> unat a \<and> unat a < unat offset + len \<and>
                bm_get (overlays m ! region) a = None} \<le> max_overlay_bytes m"
proof (cases "check_range m region offset len")
  case (Inl e)
  with assms(2) check_range_Ok [of m region offset len "()"] show ?thesis
    by (auto simp: sparse_write_with_def)
next
  case (Inr u)
  have new: "{a. unat offset \<le> unat a \<and> unat a < unat offset + len \<and>
        bm_get (overlays m ! region) a = None} = run_keys offset len - dom (bm_get (overlays m ! region))"
    by (auto simp: run_keys_def)
  have "max_overlay_bytes m < 2 ^ 64" using assms(1) by (simp add: sparse_ok_def)
  with assms(2) Inr check_range_Ok [of m region offset len u] show ?thesis
    unfolding new sparse_overlay_count [OF assms(1), symmetric]
    by (auto simp: sparse_write_with_def new_run_card [OF check_range_bound [OF Inr]]
        next_overlay_count_def usize_checked_add_def Let_def split: if_splits)
qed

lemma byte_state_write:
  assumes "sparse_ok m" and w: "sparse_write_with m region offset len val = (m', Ok u)"
  shows "byte_state m' r a =
    (if r = region \<and> a \<in> run_keys offset len then val (unat a - unat offset) else byte_state m r a)"
  using w
proof (cases rule: sparse_write_with_cases)
  case success
  have len: "region < length (overlays m)"
    using assms(1) success(2) by (simp add: sparse_ok_def check_range_Ok)
  show ?thesis
  proof (cases "r = region")
    case True
    with len show ?thesis
      by (simp add: byte_state_def success(4) insert_run_get [OF check_range_bound [OF success(2)]]
          split: option.split)
  next
    case False
    then show ?thesis by (simp add: byte_state_def success(4) split: option.split)
  qed
qed simp

lemma check_range_cong:
  "regions m' = regions m \<Longrightarrow> max_transfer_bytes m' = max_transfer_bytes m
     \<Longrightarrow> check_range m' r offset len = check_range m r offset len"
  unfolding check_range_def by (simp only:)

lemma sparse_write_with_frame:
  assumes "sparse_write_with m region offset len val = (m', res)"
  shows "regions m' = regions m \<and> max_transfer_bytes m' = max_transfer_bytes m \<and>
     max_overlay_bytes m' = max_overlay_bytes m \<and> length (overlays m') = length (overlays m)"
  using assms by (cases rule: sparse_write_with_cases) simp_all

lemma map_Known_inject: "map Known xs = map Known ys \<longleftrightarrow> xs = ys"
  by (rule inj_map_eq_map) (simp add: inj_def)

lemma read_known_loop_Ok:
  "read_known_loop m region offset is = Ok vs \<longleftrightarrow>
     map Known vs = map (\<lambda>i. byte_state m region (offset + word_of_nat i)) is"
proof (induction "is" arbitrary: vs)
  case (Cons i "is")
  show ?case
  proof (cases "byte_state m region (offset + word_of_nat i)")
    case (Known v)
    show ?thesis
    proof (cases "read_known_loop m region offset is")
      case (Inl e)
      with Cons.IH Known show ?thesis by (cases vs) auto
    next
      case (Inr us)
      with Cons.IH [of us] Known show ?thesis
        by (cases vs) (auto simp: map_Known_inject simp flip: Cons.IH)
    qed
  next
    case Unknown
    then show ?thesis by (cases vs) auto
  qed
qed auto

section \<open>Batched writes\<close>

definition seg_keys :: "segment list \<Rightarrow> (usize \<times> u64) set" where
  "seg_keys segs = (\<Union>(r, offset, states)\<in>set segs. {r} \<times> run_keys offset (length states))"

definition seg_in_range :: "sparse_memory \<Rightarrow> segment \<Rightarrow> bool" where
  "seg_in_range m seg =
     (case seg of (r, offset, states) \<Rightarrow> check_range m r offset (length states) = Ok ())"

lemma seg_keys_simps [simp]:
  "seg_keys [] = {}"
  "seg_keys ((r, offset, states) # segs) = {r} \<times> run_keys offset (length states) \<union> seg_keys segs"
  by (simp_all add: seg_keys_def)

lemma seg_in_range_bound:
  "seg_in_range m (r, offset, states) \<Longrightarrow> unat offset + length states < 2 ^ 64"
  by (auto simp only: seg_in_range_def prod.case dest: check_range_bound)

lemma insert_segments_length [simp]: "length (insert_segments segs ovs) = length ovs"
  by (induction segs ovs rule: insert_segments.induct) auto

lemma insert_segments_ok:
  "\<forall>ov\<in>set ovs. bm_ok ov \<Longrightarrow> \<forall>(r, _)\<in>set segs. r < length ovs
     \<Longrightarrow> \<forall>ov\<in>set (insert_segments segs ovs). bm_ok ov"
proof (induction segs ovs rule: insert_segments.induct)
  case (2 region offset states rest ovs)
  let ?ovs = "ovs[region := insert_run offset (length states) (\<lambda>index. states ! index) (ovs ! region)]"
  have "\<forall>ov\<in>set ?ovs. bm_ok ov"
    using 2(2,3) by (auto dest!: set_update_subset_insert [THEN subsetD] intro!: insert_run_ok)
  with 2 show ?case by auto
qed simp

lemma insert_segments_entries:
  assumes "\<forall>seg\<in>set segs. seg_in_range m seg" and "length ovs = length (regions m)"
  shows "overlay_entries (insert_segments segs ovs) = overlay_entries ovs \<union> seg_keys segs"
  using assms
proof (induction segs ovs rule: insert_segments.induct)
  case (2 region offset states rest ovs)
  then have r: "region < length ovs" and l: "unat offset + length states < 2 ^ 64"
    by (auto simp: seg_in_range_def check_range_Ok dest: seg_in_range_bound [of m region])
      (use 2(2) seg_in_range_bound [of m region offset states] in simp)
  from 2 overlay_entries_run [OF r l] show ?case by (simp add: Un_assoc)
qed simp

lemma scan_fold_member:
  assumes "unat offset + length states < 2 ^ 64"
  shows "bs_member (fold (\<lambda>index s. if bm_contains ov (offset + word_of_nat index) then s
                        else bs_insert (r, offset + word_of_nat index) s) [0..<length states] newly) k
     \<longleftrightarrow> bs_member newly k \<or> k \<in> {r} \<times> (run_keys offset (length states) - dom (bm_get ov))"
proof -
  have "bs_member (fold (\<lambda>index s. if bm_contains ov (offset + word_of_nat index) then s
                        else bs_insert (r, offset + word_of_nat index) s) is newly) k
     \<longleftrightarrow> bs_member newly k \<or>
        k \<in> {r} \<times> ((\<lambda>i. offset + word_of_nat i) ` set is - dom (bm_get ov))" for "is"
    by (induction "is" arbitrary: newly) (auto simp: bm_contains_def)
  then show ?thesis by (simp add: lessThan_atLeast0 flip: run_keys_image [OF assms])
qed

lemma scan_fold_ok:
  "bm_ok newly \<Longrightarrow>
     bm_ok (fold (\<lambda>index s. if P index then s else bs_insert (f index) s) is newly)"
  by (induction "is" arbitrary: newly) auto

lemma scan_segments_Ok:
  assumes "scan_segments m segs newly = Ok res" and "bm_ok newly"
    and "length (overlays m) = length (regions m)"
  shows "(\<forall>seg\<in>set segs. seg_in_range m seg) \<and> bm_ok res \<and>
    (\<forall>k. bs_member res k \<longleftrightarrow> bs_member newly k \<or> k \<in> seg_keys segs - overlay_entries (overlays m))"
  using assms
proof (induction m segs newly rule: scan_segments.induct)
  case (2 m region offset states rest newly)
  then obtain u where u: "check_range m region offset (length states) = Ok u"
    by (auto split: sum.splits)
  then have r: "region < length (overlays m)" using 2(4) by (simp add: check_range_Ok)
  have "k \<in> {region} \<times> run_keys offset (length states) - overlay_entries (overlays m) \<longleftrightarrow>
      k \<in> {region} \<times> (run_keys offset (length states) - dom (bm_get (overlays m ! region)))" for k
    using r by (cases k) (auto simp: overlay_entries_def)
  with 2 u show ?case
    by (simp add: scan_fold_ok scan_fold_member [OF check_range_bound [OF u]] seg_in_range_def
        Un_Diff)
qed simp

lemma scan_segments_total:
  "\<forall>seg\<in>set segs. seg_in_range m seg \<Longrightarrow> \<exists>res. scan_segments m segs newly = Ok res"
  by (induction m segs newly rule: scan_segments.induct) (auto simp: seg_in_range_def)

lemma bs_length: "bm_ok s \<Longrightarrow> length s = card {k. bs_member s k}"
  by (simp add: length_bm dom_def bs_member_def bm_contains_def)

lemma scan_segments_card:
  assumes "sparse_ok m" and "scan_segments m segs [] = Ok newly"
  shows "overlay_bytes m + length newly = card (overlay_entries (overlays m) \<union> seg_keys segs)"
proof -
  let ?E = "overlay_entries (overlays m)"
  from scan_segments_Ok [OF assms(2)] assms(1)
  have s: "bm_ok newly" "{k. bs_member newly k} = seg_keys segs - ?E"
    by (auto simp: sparse_ok_def)
  then have "finite (seg_keys segs - ?E)"
    by (metis bs_member_elements finite_set Collect_mem_eq Collect_cong)
  then have "card (?E \<union> (seg_keys segs - ?E)) = card ?E + card (seg_keys segs - ?E)"
    by (intro card_Un_disjoint) auto
  with s bs_length [OF s(1)] sparse_overlay_count [OF assms(1)] show ?thesis by simp
qed

text \<open>The whole effect of a batch, as one equivalence.\<close>

lemma sparse_write_segments_Ok:
  assumes "sparse_ok m"
  shows "sparse_write_segments m segs = (m', Ok ()) \<longleftrightarrow>
    (\<forall>seg\<in>set segs. seg_in_range m seg) \<and>
    card (overlay_entries (overlays m) \<union> seg_keys segs) \<le> max_overlay_bytes m \<and>
    m' = m\<lparr>overlays := insert_segments segs (overlays m),
           overlay_bytes := card (overlay_entries (overlays m) \<union> seg_keys segs)\<rparr>"
proof (cases "scan_segments m segs []")
  case (Inl e)
  then have "\<not> (\<forall>seg\<in>set segs. seg_in_range m seg)"
    using scan_segments_total [of segs m "[]"] by auto
  with Inl show ?thesis by (auto simp: sparse_write_segments_def)
next
  case (Inr newly)
  with assms have "\<forall>seg\<in>set segs. seg_in_range m seg"
    using scan_segments_Ok [OF Inr] by (simp add: sparse_ok_def)
  moreover have "max_overlay_bytes m < 2 ^ 64" using assms by (simp add: sparse_ok_def)
  ultimately show ?thesis
    using Inr scan_segments_card [OF assms Inr]
    by (cases "next_overlay_count m (length newly)")
      (auto simp: sparse_write_segments_def next_overlay_count_Ok next_overlay_count_def
        usize_checked_add_def split: if_splits option.splits)
qed

lemma sparse_write_segments_Err:
  "sparse_write_segments m segs = (m', Err e) \<Longrightarrow> m' = m"
  by (auto simp: sparse_write_segments_def split: sum.splits)

lemma sparse_write_segments_ok [wf_intros]:
  assumes "sparse_ok m" and "sparse_write_segments m segs = (m', res)"
  shows "sparse_ok m'"
proof (cases res)
  case (Inl e)
  with assms sparse_write_segments_Err [of m segs m' e] show ?thesis by simp
next
  case (Inr u)
  with assms sparse_write_segments_Ok [OF assms(1)]
  have rng: "\<forall>seg\<in>set segs. seg_in_range m seg"
    and c: "card (overlay_entries (overlays m) \<union> seg_keys segs) \<le> max_overlay_bytes m"
    and m': "m' = m\<lparr>overlays := insert_segments segs (overlays m),
           overlay_bytes := card (overlay_entries (overlays m) \<union> seg_keys segs)\<rparr>"
    by simp_all
  from rng assms(1) have ovs: "\<forall>(r, _)\<in>set segs. r < length (overlays m)"
    and bm: "\<forall>ov\<in>set (overlays m). bm_ok ov"
    and len: "length (overlays m) = length (regions m)"
    by (auto simp: seg_in_range_def check_range_Ok sparse_ok_def)
  show ?thesis unfolding m'
  proof (rule sparse_okI [OF assms(1) _ insert_segments_ok [OF bm ovs]
        insert_segments_entries [OF rng len]])
    show "a < allocation_bytes (regions m ! r)" if "(r, a) \<in> seg_keys segs" for r a
      using that rng overlay_entries_in_range [OF assms(1)]
      by (fastforce simp: seg_keys_def seg_in_range_def)
  qed (use c insert_segments_entries [OF rng len] in simp_all)
qed

section \<open>A batch is its writes one after the other\<close>

fun write_each :: "sparse_memory \<Rightarrow> segment list \<Rightarrow> sparse_memory \<times> (sparse_memory_error + unit)" where
  "write_each m [] = (m, Ok ())"
| "write_each m ((r, offset, states) # rest) =
     (case sparse_write_states m r offset states of
        (m', Err e) \<Rightarrow> (m', Err e)
      | (m', Ok _) \<Rightarrow> write_each m' rest)"

lemma seg_in_range_frame:
  "regions m' = regions m \<Longrightarrow> max_transfer_bytes m' = max_transfer_bytes m
     \<Longrightarrow> seg_in_range m' seg = seg_in_range m seg"
  by (cases seg) (simp add: seg_in_range_def check_range_cong [of m' m])

lemma write_states_single:
  assumes ok: "sparse_ok m" and chk: "check_range m r offset (length states) = Ok ()"
  shows "sparse_write_states m r offset states = sparse_write_segments m [(r, offset, states)]"
proof -
  have r: "r < length (overlays m)" using ok chk by (simp add: sparse_ok_def check_range_Ok)
  let ?new = "run_keys offset (length states) - dom (bm_get (overlays m ! r))"
  obtain newly where scan: "scan_segments m [(r, offset, states)] [] = Ok newly"
    using scan_segments_total [of "[(r, offset, states)]" m "[]"] chk
    by (auto simp: seg_in_range_def simp del: scan_segments.simps)
  from scan_segments_card [OF ok scan] run_entries_card [OF ok chk]
  have "length newly = card ?new" by simp
  with chk scan show ?thesis
    by (simp add: sparse_write_states_def sparse_write_with_def sparse_write_segments_def
        new_run_card [OF check_range_bound [OF chk]] split: sum.split)
qed

lemma write_each_Ok:
  assumes "sparse_ok m"
  shows "write_each m segs = (m', Ok ()) \<longleftrightarrow>
    (\<forall>seg\<in>set segs. seg_in_range m seg) \<and>
    card (overlay_entries (overlays m) \<union> seg_keys segs) \<le> max_overlay_bytes m \<and>
    m' = m\<lparr>overlays := insert_segments segs (overlays m),
           overlay_bytes := card (overlay_entries (overlays m) \<union> seg_keys segs)\<rparr>"
  using assms
proof (induction m segs rule: write_each.induct)
  case (1 m)
  have "overlay_bytes m \<le> max_overlay_bytes m" using 1 by (simp add: sparse_ok_def)
  then show ?case using sparse_overlay_count [OF 1] by auto
next
  case (2 m r offset states rest)
  let ?seg = "(r, offset, states)" and ?E = "overlay_entries (overlays m)"
  show ?case
  proof (cases "seg_in_range m ?seg")
    case False
    then obtain e where "check_range m r offset (length states) = Err e"
      by (cases "check_range m r offset (length states)") (auto simp: seg_in_range_def)
    with False show ?thesis by (auto simp: sparse_write_states_def sparse_write_with_def)
  next
    case True
    then have single: "sparse_write_states m r offset states = sparse_write_segments m [?seg]"
      using write_states_single 2(2) by (simp add: seg_in_range_def)
    obtain m1 res1 where w: "sparse_write_segments m [?seg] = (m1, res1)" by fastforce
    have fin: "finite (?E \<union> ({r} \<times> run_keys offset (length states) \<union> seg_keys rest))"
      if "\<forall>seg\<in>set rest. seg_in_range m seg"
      using that True finite_overlay_entries
        insert_segments_entries [of "?seg # rest" m "overlays m"] 2(2)
      by (metis set_ConsD sparse_ok_def seg_keys_simps(2))
    show ?thesis
    proof (cases res1)
      case (Inl e)
      have "\<not> card (?E \<union> {r} \<times> run_keys offset (length states)) \<le> max_overlay_bytes m"
        using w Inl True sparse_write_segments_Ok [OF 2(2), of "[?seg]"] by (metis (no_types, lifting)
            Inl_Inr_False Pair_inject Un_empty_right empty_iff empty_set seg_keys_simps set_ConsD)
      moreover have "card (?E \<union> {r} \<times> run_keys offset (length states))
          \<le> card (?E \<union> ({r} \<times> run_keys offset (length states) \<union> seg_keys rest))"
        if "\<forall>seg\<in>set rest. seg_in_range m seg"
        by (rule card_mono [OF fin [OF that]]) blast
      ultimately show ?thesis using Inl w single by fastforce
    next
      case (Inr u)
      with w sparse_write_segments_Ok [OF 2(2), of "[?seg]" m1]
      have m1: "m1 = m\<lparr>overlays := insert_segments [?seg] (overlays m),
            overlay_bytes := card (?E \<union> {r} \<times> run_keys offset (length states))\<rparr>" by simp
      have ok1: "sparse_ok m1" by (rule sparse_write_segments_ok [OF 2(2) w])
      have rng: "seg_in_range m1 seg = seg_in_range m seg" for seg
        by (rule seg_in_range_frame) (simp_all add: m1)
      have ent: "overlay_entries (overlays m1) = ?E \<union> {r} \<times> run_keys offset (length states)"
        using insert_segments_entries [of "[?seg]" m "overlays m"] True 2(2)
        by (simp add: m1 sparse_ok_def)
      have "write_each m (?seg # rest) = write_each m1 rest"
        using w single Inr by simp
      also have "\<dots> = (m', Ok ()) \<longleftrightarrow> (\<forall>seg\<in>set rest. seg_in_range m seg) \<and>
          card (overlay_entries (overlays m1) \<union> seg_keys rest) \<le> max_overlay_bytes m1 \<and>
          m' = m1\<lparr>overlays := insert_segments rest (overlays m1),
             overlay_bytes := card (overlay_entries (overlays m1) \<union> seg_keys rest)\<rparr>"
        using 2(1) [of m1 "Ok ()" "()"] w single Inr ok1 by (simp add: rng)
      finally show ?thesis using True unfolding ent by (simp add: m1 Un_assoc)
    qed
  qed
qed

lemma sparse_read_after_write:
  assumes "sparse_ok m" and "sparse_write_known m region offset bs = (m', Ok ())"
    and "reserve (length bs)"
  shows "sparse_read_known reserve m' region offset (length bs) = Ok bs"
proof -
  let ?n = "length bs"
  have w: "sparse_write_with m region offset ?n (\<lambda>i. Known (bs ! i)) = (m', Ok ())"
    using assms(2) by (simp add: sparse_write_known_def)
  then have c: "check_range m region offset ?n = Ok ()"
    by (auto elim: sparse_write_with_cases)
  have "check_range m' region offset ?n = Ok ()"
    using c check_range_cong [of m' m] sparse_write_with_frame [OF w] by simp
  moreover have "map Known bs = map (\<lambda>i. byte_state m' region (offset + word_of_nat i)) [0..<?n]"
  proof (rule nth_equalityI)
    fix i assume "i < length (map Known bs)"
    then have i: "i < ?n" by simp
    then have "unat (offset + word_of_nat i) = unat offset + i"
      using check_range_bound [OF c] by (intro unat_offset) simp
    with i show "map Known bs ! i = map (\<lambda>i. byte_state m' region (offset + word_of_nat i)) [0..<?n] ! i"
      by (simp add: byte_state_write [OF assms(1) w] run_keys_def)
  qed simp
  ultimately show ?thesis
    using assms(3) by (simp add: sparse_read_known_def read_known_loop_Ok)
qed

section \<open>Properties\<close>

text \<open>C1. Refinement of every single write (known bytes, byte states or unknown bytes, all
  through \<open>write_with\<close>). The write succeeds exactly when the region exists, the run is within
  the transfer limit and inside the region's allocation, and the bytes of the run that the
  region's overlay does not hold yet, added to all the overlay entries there are, fit the
  overlay budget. Against the byte view of the memory, a write that succeeds changes exactly
  the addressed run of the addressed region to the given states and nothing else; a write
  that fails leaves the whole memory as it was; the overlay accounting invariant is kept in
  both cases.\<close>

theorem sparse_write_refines:
  assumes "sparse_ok m" and "sparse_write_with m region offset len val = (m', res)"
  shows "sparse_ok m' \<and>
    (res = Ok () \<longleftrightarrow>
       region < length (regions m) \<and> len \<le> max_transfer_bytes m \<and>
       unat offset + len \<le> unat (allocation_bytes (regions m ! region)) \<and>
       card (overlay_entries (overlays m)) +
         card {a. unat offset \<le> unat a \<and> unat a < unat offset + len \<and>
                  bm_get (overlays m ! region) a = None} \<le> max_overlay_bytes m) \<and>
    (case res of
       Err e \<Rightarrow> m' = m
     | Ok _ \<Rightarrow> byte_state m' = (\<lambda>r a.
         if r = region \<and> unat offset \<le> unat a \<and> unat a < unat offset + len
         then val (unat a - unat offset) else byte_state m r a))"
  using sparse_write_with_ok [OF assms] sparse_write_with_succeeds [OF assms]
proof (intro conjI)
  show "case res of Err e \<Rightarrow> m' = m | Ok _ \<Rightarrow> byte_state m' = (\<lambda>r a.
         if r = region \<and> unat offset \<le> unat a \<and> unat a < unat offset + len
         then val (unat a - unat offset) else byte_state m r a)"
  proof (cases res)
    case (Inl e)
    with assms show ?thesis by (auto elim: sparse_write_with_cases)
  next
    case (Inr u)
    with byte_state_write [OF assms(1)] assms(2) show ?thesis
      by (simp add: fun_eq_iff run_keys_def)
  qed
qed (simp_all only:)

definition demo_memory :: sparse_memory where
  "demo_memory = sparse_new [\<lparr>allocation_bytes = 3, known_prefix = [1, 2, 3]\<rparr>, region_unknown 4] 4 4"

lemma demo_memory_ok: "sparse_ok demo_memory"
  unfolding demo_memory_def by (rule sparse_new_ok) simp

lemmas sparse_eval = demo_memory_def sparse_new_def region_unknown_def sparse_write_known_def
  sparse_write_states_def sparse_write_with_def check_range_def Let_def u64_try_from_def
  checked_add_def bm_contains_def bm_empty_def next_overlay_count_def usize_checked_add_def
  insert_run_def upt_rec

theorem sparse_write_refines_witness:
  "byte_state (fst (sparse_write_known demo_memory 1 1 [9, 8])) 1 2 = Known 8 \<and>
     snd (sparse_write_known demo_memory 1 3 [9, 8]) \<noteq> Ok ()"
proof (rule conjI)
  have w: "sparse_write_with demo_memory 1 1 2 (\<lambda>i. Known ([9, 8] ! i)) =
      (fst (sparse_write_known demo_memory 1 1 [9, 8]), Ok ())"
    by (simp add: sparse_eval)
  from sparse_write_refines [OF demo_memory_ok w]
  show "byte_state (fst (sparse_write_known demo_memory 1 1 [9, 8])) 1 2 = Known 8" by simp
  have "sparse_write_with demo_memory 1 3 2 (\<lambda>i. Known ([9, 8] ! i)) =
      (fst (sparse_write_known demo_memory 1 3 [9, 8]), snd (sparse_write_known demo_memory 1 3 [9, 8]))"
    by (simp add: sparse_write_known_def numeral_2_eq_2)
  from sparse_write_refines [OF demo_memory_ok this]
  show "snd (sparse_write_known demo_memory 1 3 [9, 8]) \<noteq> Ok ()"
    by (simp add: demo_memory_def sparse_new_def region_unknown_def)
qed

text \<open>Round trip: after a successful \<open>write_known\<close>, \<open>read_known\<close> of the same region,
  offset and length returns exactly the written bytes.\<close>

lemma sparse_known_roundtrip:
  assumes "sparse_ok m" and "sparse_write_known m region offset bs = (m', Ok ())"
    and "reserve (length bs)"
  shows "sparse_read_known reserve m' region offset (length bs) = Ok bs"
  using assms by (rule sparse_read_after_write)

lemma sparse_known_roundtrip_witness:
  "sparse_read_known (\<lambda>_. True) (fst (sparse_write_known demo_memory 1 1 [9, 8])) 1 1 2 = Ok [9, 8]"
proof -
  have w: "sparse_write_known demo_memory 1 1 [9, 8] =
      (fst (sparse_write_known demo_memory 1 1 [9, 8]), Ok ())"
    by (simp add: sparse_eval)
  from sparse_known_roundtrip [OF demo_memory_ok w, of "\<lambda>_. True"] show ?thesis
    by (simp add: numeral_2_eq_2)
qed

text \<open>C2. \<open>write_segments\<close> is the sequence of its single writes, made atomic: it succeeds with
  a final memory exactly when writing the segments one after the other succeeds with that
  memory (so its up-front count of the bytes that are new, over segments that may overlap,
  is exact), and when it fails it changes nothing.\<close>

theorem sparse_write_segments_sequential:
  assumes "sparse_ok m"
  shows "(sparse_write_segments m segs = (m', Ok ()) \<longleftrightarrow> write_each m segs = (m', Ok ())) \<and>
    (\<forall>e m''. sparse_write_segments m segs = (m'', Err e) \<longrightarrow> m'' = m)"
  using sparse_write_segments_Ok [OF assms] write_each_Ok [OF assms]
  by (auto dest: sparse_write_segments_Err)

theorem sparse_write_segments_sequential_witness:
  "write_each demo_memory [(1, 0, [Known 7, Unknown]), (1, 1, [Known 5])] =
     (fst (sparse_write_segments demo_memory [(1, 0, [Known 7, Unknown]), (1, 1, [Known 5])]), Ok ())"
proof -
  let ?segs = "[(1, 0, [Known 7, Unknown]), (1, 1, [Known 5])]"
  have "sparse_write_segments demo_memory ?segs = (fst (sparse_write_segments demo_memory ?segs), Ok ())"
    by (simp add: sparse_write_segments_def bs_insert_def sparse_eval)
  with sparse_write_segments_sequential [OF demo_memory_ok, of ?segs] show ?thesis by blast
qed

end
