(* ===== verification/Mapped_Memory.thy ===== *)
theory Mapped_Memory
  imports Sparse_Memory "HOL-Library.Multiset"
begin

text \<open>
  \<open>src/src/memory/mapped.rs\<close>: device addresses bound to the regions of a sparse memory.
  \<open>mapped_bind\<close> checks the bases and sorts the bindings, \<open>mapped_resolve\<close> turns an address
  range into a region and an offset, and the accessors forward to the sparse memory.
  \<open>mapped_ok\<close> says the bindings are ascending, disjoint and cover each region once;
  \<open>mapped_view\<close> is the byte at a device address.
\<close>

section \<open>State and errors\<close>

record memory_mapping =
  mapping_region :: usize
  mapping_base :: u64
  mapping_bytes :: u64

record resolved_address =
  resolved_region :: usize
  resolved_offset :: u64

record mapped_memory =
  mapped_sparse :: sparse_memory
  mapped_bindings :: "memory_mapping list"

datatype memory_mapping_error =
    BaseCount usize usize
  | NullBase usize
  | ZeroSize usize
  | AddressOverflow usize u64 u64
  | OverlappingRegions usize usize

datatype mapped_memory_error =
    MappedZeroLength
  | MappedLengthOverflow
  | MappedRangeOverflow u64
  | MappedUnmapped u64 u64
  | MappedMemory sparse_memory_error

section \<open>Operations\<close>

fun bind_regions ::
  "usize \<Rightarrow> (memory_region \<times> u64) list \<Rightarrow> memory_mapping_error + memory_mapping list" where
  "bind_regions i [] = Ok []"
| "bind_regions i ((region, base) # rest) =
     (if base = 0 then Err (NullBase i)
      else let alloc = allocation_bytes region in
      if alloc = 0 then Err (ZeroSize i)
      else case checked_add base alloc of
          None \<Rightarrow> Err (AddressOverflow i base alloc)
        | Some _ \<Rightarrow>
            (case bind_regions (Suc i) rest of
               Err e \<Rightarrow> Err e
             | Ok bs \<Rightarrow> Ok (\<lparr>mapping_region = i, mapping_base = base, mapping_bytes = alloc\<rparr> # bs)))"

fun check_windows :: "memory_mapping list \<Rightarrow> memory_mapping_error + unit" where
  "check_windows (a # b # rest) =
     (if mapping_base b < mapping_base a + mapping_bytes a
      then Err (OverlappingRegions (mapping_region a) (mapping_region b))
      else check_windows (b # rest))"
| "check_windows _ = Ok ()"

definition mapped_bind :: "sparse_memory \<Rightarrow> u64 list \<Rightarrow> memory_mapping_error + mapped_memory" where
  "mapped_bind m bases =
     (if length bases \<noteq> length (regions m)
      then Err (BaseCount (length (regions m)) (length bases))
      else case bind_regions 0 (zip (regions m) bases) of
          Err e \<Rightarrow> Err e
        | Ok bs \<Rightarrow>
            let sorted_bs = sort_key mapping_base bs in
            (case check_windows sorted_bs of
               Err e \<Rightarrow> Err e
             | Ok _ \<Rightarrow> Ok \<lparr>mapped_sparse = m, mapped_bindings = sorted_bs\<rparr>))"

definition binding_covers :: "u64 \<Rightarrow> u64 \<Rightarrow> memory_mapping \<Rightarrow> bool" where
  "binding_covers address e b \<longleftrightarrow>
     mapping_base b \<le> address \<and> e \<le> mapping_base b + mapping_bytes b"

definition mapped_resolve :: "mapped_memory \<Rightarrow> u64 \<Rightarrow> usize \<Rightarrow> mapped_memory_error + resolved_address" where
  "mapped_resolve mm address len =
     (if len = 0 then Err MappedZeroLength
      else case u64_try_from len of
          None \<Rightarrow> Err MappedLengthOverflow
        | Some n \<Rightarrow>
            (case checked_add address n of
               None \<Rightarrow> Err (MappedRangeOverflow address)
             | Some e \<Rightarrow>
                 ok_or (map_option (\<lambda>b. \<lparr>resolved_region = mapping_region b,
                                         resolved_offset = address - mapping_base b\<rparr>)
                         (find (binding_covers address e) (mapped_bindings mm)))
                   (MappedUnmapped address e)))"

definition mapped_read_states_at ::
  "(usize \<Rightarrow> bool) \<Rightarrow> mapped_memory \<Rightarrow> u64 \<Rightarrow> usize \<Rightarrow> mapped_memory_error + memory_byte_state list" where
  "mapped_read_states_at reserve mm address len =
     (case mapped_resolve mm address len of
        Err e \<Rightarrow> Err e
      | Ok loc \<Rightarrow> map_err MappedMemory
          (sparse_read_states reserve (mapped_sparse mm) (resolved_region loc) (resolved_offset loc) len))"

definition mapped_read_known_at ::
  "(usize \<Rightarrow> bool) \<Rightarrow> mapped_memory \<Rightarrow> u64 \<Rightarrow> usize \<Rightarrow> mapped_memory_error + u8 list" where
  "mapped_read_known_at reserve mm address len =
     (case mapped_resolve mm address len of
        Err e \<Rightarrow> Err e
      | Ok loc \<Rightarrow> map_err MappedMemory
          (sparse_read_known reserve (mapped_sparse mm) (resolved_region loc) (resolved_offset loc) len))"

text \<open>The forwarding shape of the three single writes.\<close>

definition mapped_forward ::
  "mapped_memory \<Rightarrow> sparse_memory \<times> (sparse_memory_error + unit)
     \<Rightarrow> mapped_memory \<times> (mapped_memory_error + unit)" where
  "mapped_forward mm r =
     (case r of (m', res) \<Rightarrow> (mm\<lparr>mapped_sparse := m'\<rparr>, map_err MappedMemory res))"

definition mapped_write_known_at ::
  "mapped_memory \<Rightarrow> u64 \<Rightarrow> u8 list \<Rightarrow> mapped_memory \<times> (mapped_memory_error + unit)" where
  "mapped_write_known_at mm address bs =
     (case mapped_resolve mm address (length bs) of
        Err e \<Rightarrow> (mm, Err e)
      | Ok loc \<Rightarrow> mapped_forward mm
          (sparse_write_known (mapped_sparse mm) (resolved_region loc) (resolved_offset loc) bs))"

definition mapped_write_states_at ::
  "mapped_memory \<Rightarrow> u64 \<Rightarrow> memory_byte_state list \<Rightarrow> mapped_memory \<times> (mapped_memory_error + unit)" where
  "mapped_write_states_at mm address states =
     (case mapped_resolve mm address (length states) of
        Err e \<Rightarrow> (mm, Err e)
      | Ok loc \<Rightarrow> mapped_forward mm
          (sparse_write_states (mapped_sparse mm) (resolved_region loc) (resolved_offset loc) states))"

definition mapped_write_unknown_at ::
  "mapped_memory \<Rightarrow> u64 \<Rightarrow> usize \<Rightarrow> mapped_memory \<times> (mapped_memory_error + unit)" where
  "mapped_write_unknown_at mm address len =
     (case mapped_resolve mm address len of
        Err e \<Rightarrow> (mm, Err e)
      | Ok loc \<Rightarrow> mapped_forward mm
          (sparse_write_unknown (mapped_sparse mm) (resolved_region loc) (resolved_offset loc) len))"

fun resolve_segments ::
  "mapped_memory \<Rightarrow> (u64 \<times> memory_byte_state list) list \<Rightarrow> mapped_memory_error + segment list" where
  "resolve_segments mm [] = Ok []"
| "resolve_segments mm ((address, states) # rest) =
     (case mapped_resolve mm address (length states) of
        Err e \<Rightarrow> Err e
      | Ok loc \<Rightarrow>
          (case resolve_segments mm rest of
             Err e \<Rightarrow> Err e
           | Ok segs \<Rightarrow> Ok ((resolved_region loc, resolved_offset loc, states) # segs)))"

definition mapped_write_segments_at ::
  "mapped_memory \<Rightarrow> (u64 \<times> memory_byte_state list) list
     \<Rightarrow> mapped_memory \<times> (mapped_memory_error + unit)" where
  "mapped_write_segments_at mm segs =
     (case resolve_segments mm segs of
        Err e \<Rightarrow> (mm, Err e)
      | Ok resolved \<Rightarrow> mapped_forward mm (sparse_write_segments (mapped_sparse mm) resolved))"

section \<open>The binding invariant\<close>

definition binding_end :: "memory_mapping \<Rightarrow> nat" where
  "binding_end b = unat (mapping_base b) + unat (mapping_bytes b)"

definition binding_ok :: "memory_region list \<Rightarrow> memory_mapping \<Rightarrow> bool" where
  "binding_ok rs b \<longleftrightarrow>
     mapping_region b < length rs \<and> mapping_base b \<noteq> 0 \<and> mapping_bytes b \<noteq> 0 \<and>
     mapping_bytes b = allocation_bytes (rs ! mapping_region b) \<and> binding_end b < 2 ^ 64"

definition bindings_ok :: "memory_region list \<Rightarrow> memory_mapping list \<Rightarrow> bool" where
  "bindings_ok rs bs \<longleftrightarrow>
     (\<forall>b\<in>set bs. binding_ok rs b) \<and>
     sorted_wrt (\<lambda>a b. binding_end a \<le> unat (mapping_base b)) bs \<and>
     distinct (map mapping_region bs) \<and> set (map mapping_region bs) = {..<length rs}"

definition mapped_ok :: "mapped_memory \<Rightarrow> bool" where
  "mapped_ok mm \<longleftrightarrow>
     sparse_ok (mapped_sparse mm) \<and> bindings_ok (regions (mapped_sparse mm)) (mapped_bindings mm)"

lemma binding_end_word:
  "binding_end b < 2 ^ 64 \<Longrightarrow> unat (mapping_base b + mapping_bytes b) = binding_end b"
  unfolding binding_end_def by (rule unat_add_exact) simp

lemma bind_regions_Ok:
  "bind_regions i rbs = Ok bs \<Longrightarrow>
     map mapping_region bs = [i..<i + length rbs] \<and>
     map mapping_bytes bs = map (allocation_bytes \<circ> fst) rbs \<and>
     map mapping_base bs = map snd rbs \<and>
     (\<forall>b\<in>set bs. mapping_base b \<noteq> 0 \<and> mapping_bytes b \<noteq> 0 \<and> binding_end b < 2 ^ 64)"
proof (induction i rbs arbitrary: bs rule: bind_regions.induct)
  case (2 i region base rest)
  from 2(2) obtain bs' where base: "base \<noteq> 0" "allocation_bytes region \<noteq> 0"
    and c: "\<exists>w. checked_add base (allocation_bytes region) = Some w"
    and r: "bind_regions (Suc i) rest = Ok bs'"
    and bs: "bs = \<lparr>mapping_region = i, mapping_base = base, mapping_bytes = allocation_bytes region\<rparr> # bs'"
    by (auto simp: Let_def split: if_splits option.splits sum.splits)
  from 2(1) [OF base(1) refl base(2)] c r
  have "map mapping_region bs' = [Suc i..<Suc i + length rest]"
    "map mapping_bytes bs' = map (allocation_bytes \<circ> fst) rest" "map mapping_base bs' = map snd rest"
    "\<forall>b\<in>set bs'. mapping_base b \<noteq> 0 \<and> mapping_bytes b \<noteq> 0 \<and> binding_end b < 2 ^ 64"
    by blast+
  moreover have "[i..<i + length ((region, base) # rest)] = i # [Suc i..<Suc i + length rest]"
    by (subst upt_conv_Cons) auto
  moreover have "unat base + unat (allocation_bytes region) < 2 ^ 64"
    using c by (auto simp: checked_add_Some)
  ultimately show ?case using base by (simp add: bs binding_end_def)
qed simp

lemma check_windows_Ok:
  "check_windows bs = Ok u \<Longrightarrow> \<forall>b\<in>set bs. binding_end b < 2 ^ 64 \<Longrightarrow>
     sorted_wrt (\<lambda>a b. binding_end a \<le> unat (mapping_base b)) bs"
proof (induction bs rule: check_windows.induct)
  case (1 a b rest)
  then have ab: "binding_end a \<le> unat (mapping_base b)"
    by (auto simp: word_less_nat_alt binding_end_word split: if_splits)
  from 1 have "sorted_wrt (\<lambda>a b. binding_end a \<le> unat (mapping_base b)) (b # rest)"
    by (auto split: if_splits)
  with ab show ?case by (auto simp: binding_end_def)
qed auto

lemma mapped_bind_ok [wf_intros]:
  assumes "sparse_ok m" and "mapped_bind m bases = Ok mm"
  shows "mapped_ok mm"
proof -
  from assms(2) obtain bs where l: "length bases = length (regions m)"
    and b: "bind_regions 0 (zip (regions m) bases) = Ok bs"
    and w: "check_windows (sort_key mapping_base bs) = Ok ()"
    and mm: "mm = \<lparr>mapped_sparse = m, mapped_bindings = sort_key mapping_base bs\<rparr>"
    by (auto simp: mapped_bind_def Let_def split: if_splits sum.splits)
  have each: "\<forall>b\<in>set bs. mapping_base b \<noteq> 0 \<and> mapping_bytes b \<noteq> 0 \<and> binding_end b < 2 ^ 64"
    and reg: "map mapping_region bs = [0..<length (regions m)]"
    and byt: "map mapping_bytes bs = map (allocation_bytes \<circ> fst) (zip (regions m) bases)"
    using bind_regions_Ok [OF b] l by auto
  have bk: "mapping_region b < length (regions m) \<and>
      mapping_bytes b = allocation_bytes (regions m ! mapping_region b)" if "b \<in> set bs" for b
  proof -
    from that obtain k where k: "k < length bs" "b = bs ! k" by (auto simp: in_set_conv_nth)
    have len: "length bs = length (regions m)" using arg_cong [OF reg, of length] by simp
    have "mapping_region b = map mapping_region bs ! k" "mapping_bytes b = map mapping_bytes bs ! k"
      using k by simp_all
    with k len l show ?thesis unfolding reg byt by simp
  qed
  have "mset (map mapping_region (sort_key mapping_base bs)) = mset [0..<length (regions m)]"
    by (simp flip: reg)
  then have "distinct (map mapping_region (sort_key mapping_base bs))"
    and "set (map mapping_region (sort_key mapping_base bs)) = {..<length (regions m)}"
    by (metis distinct_upt mset_eq_imp_distinct_iff)
      (metis \<open>mset (map mapping_region (sort_key mapping_base bs)) = mset [0..<length (regions m)]\<close>
        atLeast_upt mset_eq_setD)
  moreover have "sorted_wrt (\<lambda>a b. binding_end a \<le> unat (mapping_base b)) (sort_key mapping_base bs)"
    by (rule check_windows_Ok [OF w]) (use each in simp)
  moreover have "\<forall>b\<in>set (sort_key mapping_base bs). binding_ok (regions m) b"
    using each bk by (simp add: binding_ok_def)
  ultimately show ?thesis
    using assms(1) by (simp add: mapped_ok_def mm bindings_ok_def)
qed

section \<open>Resolution\<close>

definition in_binding :: "memory_mapping \<Rightarrow> u64 \<Rightarrow> usize \<Rightarrow> bool" where
  "in_binding b address len \<longleftrightarrow>
     unat (mapping_base b) \<le> unat address \<and> unat address + len \<le> binding_end b"

lemma binding_unique:
  assumes "bindings_ok rs bs" "b \<in> set bs" "b' \<in> set bs"
    and "in_binding b a 1" "in_binding b' a 1"
  shows "b = b'"
proof (rule ccontr)
  assume ne: "b \<noteq> b'"
  from assms(2,3) obtain i j where "i < length bs" "j < length bs" "b = bs ! i" "b' = bs ! j"
    by (auto simp: in_set_conv_nth)
  with ne assms show False
    by (cases "i < j"; cases "j < i")
      (auto simp: bindings_ok_def sorted_wrt_iff_nth_less in_binding_def, force+)
qed

lemma in_binding_mono: "in_binding b a len \<Longrightarrow> i < len \<Longrightarrow> unat x = unat a + i \<Longrightarrow> in_binding b x 1"
  by (simp add: in_binding_def)

lemma mapped_resolve_range:
  "mapped_resolve mm address len = Ok loc \<Longrightarrow> unat address + len < 2 ^ 64"
  by (auto simp: mapped_resolve_def u64_try_from_def checked_add_def split: if_splits)

lemma mapped_resolve_Ok:
  assumes "mapped_ok mm"
  shows "mapped_resolve mm address len = Ok loc \<longleftrightarrow> len \<noteq> 0 \<and>
    (\<exists>b\<in>set (mapped_bindings mm). in_binding b address len \<and>
       loc = \<lparr>resolved_region = mapping_region b, resolved_offset = address - mapping_base b\<rparr>)"
    (is "?lhs \<longleftrightarrow> ?rhs")
proof (cases "len \<noteq> 0 \<and> unat address + len < 2 ^ 64")
  case fits: True
  let ?e = "address + word_of_nat len" and ?bs = "mapped_bindings mm"
  have e: "unat ?e = unat address + len" using fits by (intro unat_offset) simp
  have cov: "binding_covers address ?e b \<longleftrightarrow> in_binding b address len" if "b \<in> set ?bs" for b
    using that assms e binding_end_word [of b]
    by (auto simp: mapped_ok_def bindings_ok_def binding_ok_def binding_covers_def in_binding_def
        word_le_nat_alt)
  have "?lhs \<longleftrightarrow> (\<exists>b. find (binding_covers address ?e) ?bs = Some b \<and>
       loc = \<lparr>resolved_region = mapping_region b, resolved_offset = address - mapping_base b\<rparr>)"
    using fits by (auto simp: mapped_resolve_def u64_try_from_def checked_add_def ok_or_Ok)
  moreover have "find (binding_covers address ?e) ?bs = Some b \<longleftrightarrow>
      b \<in> set ?bs \<and> in_binding b address len" for b
  proof
    assume "find (binding_covers address ?e) ?bs = Some b"
    then show "b \<in> set ?bs \<and> in_binding b address len" using cov by (auto dest: find_Some_mem)
  next
    assume b: "b \<in> set ?bs \<and> in_binding b address len"
    then obtain b' where f: "find (binding_covers address ?e) ?bs = Some b'"
      using cov by (cases "find (binding_covers address ?e) ?bs") (auto simp: find_None_iff)
    then have "b' \<in> set ?bs \<and> in_binding b' address len" using cov by (auto dest: find_Some_mem)
    with b fits assms have "b' = b"
      by (intro binding_unique [of "regions (mapped_sparse mm)" ?bs b' b address])
        (auto simp: mapped_ok_def in_binding_def)
    with f show "find (binding_covers address ?e) ?bs = Some b" by simp
  qed
  ultimately show ?thesis using fits by auto
next
  case False
  then have "\<not> ?rhs" using assms
    by (auto simp: mapped_ok_def bindings_ok_def binding_ok_def in_binding_def)
  moreover have "\<not> ?lhs" using False
    by (auto simp: mapped_resolve_def u64_try_from_def checked_add_def)
  ultimately show ?thesis by blast
qed

definition mapped_view :: "mapped_memory \<Rightarrow> u64 \<Rightarrow> memory_byte_state option" where
  "mapped_view mm a =
     map_option (\<lambda>b. byte_state (mapped_sparse mm) (mapping_region b) (a - mapping_base b))
       (find (\<lambda>b. mapping_base b \<le> a \<and> a < mapping_base b + mapping_bytes b) (mapped_bindings mm))"

lemma mapped_view_eq:
  assumes "bindings_ok rs (mapped_bindings mm)"
    and "b \<in> set (mapped_bindings mm)" "in_binding b a 1"
  shows "mapped_view mm a = Some (byte_state (mapped_sparse mm) (mapping_region b) (a - mapping_base b))"
proof -
  let ?P = "\<lambda>b. mapping_base b \<le> a \<and> a < mapping_base b + mapping_bytes b"
  have P: "?P c \<longleftrightarrow> in_binding c a 1" if "c \<in> set (mapped_bindings mm)" for c
    using that assms(1) binding_end_word [of c]
    by (auto simp: bindings_ok_def binding_ok_def in_binding_def word_le_nat_alt word_less_nat_alt)
  then obtain c where c: "find ?P (mapped_bindings mm) = Some c"
    using assms(2,3) by (cases "find ?P (mapped_bindings mm)") (auto simp: find_None_iff)
  with P have "c \<in> set (mapped_bindings mm)" "in_binding c a 1" by (auto dest: find_Some_mem)
  with assms have "c = b" by (auto intro: binding_unique)
  with c show ?thesis by (simp add: mapped_view_def)
qed

lemma mapped_view_None:
  assumes "bindings_ok rs (mapped_bindings mm)"
    and "\<forall>b\<in>set (mapped_bindings mm). \<not> in_binding b a 1"
  shows "mapped_view mm a = None"
  using assms binding_end_word
  by (fastforce simp: mapped_view_def find_None_iff bindings_ok_def binding_ok_def in_binding_def
      word_le_nat_alt word_less_nat_alt)

section \<open>Writes through a binding\<close>

lemma sparse_write_with_regions [simp]:
  "sparse_write_with m region offset len val = (m', res) \<Longrightarrow> regions m' = regions m"
  using sparse_write_with_frame by blast

lemma mapped_forward_view:
  assumes ok: "mapped_ok mm" and b: "b \<in> set (mapped_bindings mm)" "in_binding b address len"
    and w: "sparse_write_with (mapped_sparse mm) (mapping_region b) (address - mapping_base b) len val
       = (m', Ok ())"
  shows "mapped_view (mm\<lparr>mapped_sparse := m'\<rparr>) a =
    (if unat address \<le> unat a \<and> unat a < unat address + len
     then Some (val (unat a - unat address)) else mapped_view mm a)"
proof -
  let ?mm' = "mm\<lparr>mapped_sparse := m'\<rparr>" and ?bs = "mapped_bindings mm"
  have bs: "bindings_ok (regions (mapped_sparse mm)) ?bs" and sp: "sparse_ok (mapped_sparse mm)"
    using ok by (simp_all add: mapped_ok_def)
  have off: "unat (x - mapping_base c) = unat x - unat (mapping_base c)" if "in_binding c x n" for c x n
    using that by (intro unat_diff_exact) (simp add: in_binding_def word_le_nat_alt)
  show ?thesis
  proof (cases "\<exists>c\<in>set ?bs. in_binding c a 1")
    case False
    then have "\<not> (unat address \<le> unat a \<and> unat a < unat address + len)"
      using b by (auto simp: in_binding_def)
    with False show ?thesis
      using mapped_view_None [OF bs] mapped_view_None [of _ ?mm' a] bs by simp
  next
    case True
    then obtain c where c: "c \<in> set ?bs" "in_binding c a 1" by blast
    have v: "mapped_view mm a = Some (byte_state (mapped_sparse mm) (mapping_region c) (a - mapping_base c))"
      and v': "mapped_view ?mm' a = Some (byte_state m' (mapping_region c) (a - mapping_base c))"
      using mapped_view_eq [OF bs c] mapped_view_eq [of _ ?mm' c a] bs c by simp_all
    show ?thesis
    proof (cases "c = b")
      case True
      then have "unat (address - mapping_base b) = unat address - unat (mapping_base b)"
        "unat (a - mapping_base b) = unat a - unat (mapping_base b)"
        "unat (mapping_base b) \<le> unat address" "unat (mapping_base b) \<le> unat a"
        using off [OF b(2)] off [OF c(2)] b(2) c(2) by (auto simp: in_binding_def)
      then show ?thesis unfolding v v' byte_state_write [OF sp w]
        using True by (auto simp: run_keys_def)
    next
      case False
      then have "mapping_region c \<noteq> mapping_region b"
        using bs b(1) c(1) by (auto simp: bindings_ok_def distinct_map inj_on_def)
      moreover have "\<not> (unat address \<le> unat a \<and> unat a < unat address + len)"
        using False binding_unique [OF bs c(1) b(1) c(2)] b(2) by (auto simp: in_binding_def)
      ultimately show ?thesis unfolding v v' byte_state_write [OF sp w] by auto
    qed
  qed
qed

lemma mapped_forward_ok [wf_intros]:
  assumes "mapped_ok mm" and "sparse_write_with (mapped_sparse mm) region offset len val = (m', res)"
  shows "mapped_ok (mm\<lparr>mapped_sparse := m'\<rparr>)"
  using assms sparse_write_with_ok [OF _ assms(2)] by (simp add: mapped_ok_def)

lemma record_same [simp]: "mm\<lparr>mapped_sparse := mapped_sparse mm\<rparr> = mm"
  by simp

lemma mapped_write_known_at_cases:
  assumes ok: "mapped_ok mm" and w: "mapped_write_known_at mm address bs = (mm', res)"
  obtains (failed) e where "res = Err e" "mm' = mm"
  | (success) b m' where "res = Ok ()" "bs \<noteq> []" "b \<in> set (mapped_bindings mm)"
      "in_binding b address (length bs)" "mm' = mm\<lparr>mapped_sparse := m'\<rparr>"
      "sparse_write_with (mapped_sparse mm) (mapping_region b) (address - mapping_base b)
         (length bs) (\<lambda>i. Known (bs ! i)) = (m', Ok ())"
proof (cases "mapped_resolve mm address (length bs)")
  case (Inl e)
  with w show ?thesis by (intro failed [of e]) (simp_all add: mapped_write_known_at_def)
next
  case (Inr loc)
  with mapped_resolve_Ok [OF ok] obtain b where b: "bs \<noteq> []" "b \<in> set (mapped_bindings mm)"
    "in_binding b address (length bs)"
    "loc = \<lparr>resolved_region = mapping_region b, resolved_offset = address - mapping_base b\<rparr>"
    by auto
  obtain m' r where s: "sparse_write_with (mapped_sparse mm) (mapping_region b)
      (address - mapping_base b) (length bs) (\<lambda>i. Known (bs ! i)) = (m', r)" by fastforce
  with w Inr b have mm': "mm' = mm\<lparr>mapped_sparse := m'\<rparr>" and res: "res = map_err MappedMemory r"
    by (auto simp: mapped_write_known_at_def mapped_forward_def sparse_write_known_def)
  show ?thesis using s
  proof (cases rule: sparse_write_with_cases)
    case (failed e)
    with mm' res show ?thesis by (intro that(1) [of "MappedMemory e"]) simp_all
  next
    case success
    with mm' res b s show ?thesis by (intro that(2) [of b m']) simp_all
  qed
qed

lemma mapped_read_known_at_Ok:
  assumes ok: "mapped_ok mm" and r: "mapped_read_known_at reserve mm address len = Ok bs"
  shows "length bs = len \<and> (\<forall>i<len. mapped_view mm (address + word_of_nat i) = Some (Known (bs ! i)))"
proof -
  from r obtain loc where loc: "mapped_resolve mm address len = Ok loc"
    and s: "sparse_read_known reserve (mapped_sparse mm) (resolved_region loc) (resolved_offset loc) len = Ok bs"
    by (auto simp: mapped_read_known_at_def split: sum.splits)
  from mapped_resolve_Ok [OF ok] loc obtain b where b: "b \<in> set (mapped_bindings mm)"
    "in_binding b address len"
    "loc = \<lparr>resolved_region = mapping_region b, resolved_offset = address - mapping_base b\<rparr>" by auto
  from s b have k: "map Known bs = map (\<lambda>i. byte_state (mapped_sparse mm) (mapping_region b)
      (address - mapping_base b + word_of_nat i)) [0..<len]"
    by (auto simp: sparse_read_known_def read_known_loop_Ok split: sum.splits if_splits)
  have bs: "bindings_ok (regions (mapped_sparse mm)) (mapped_bindings mm)"
    using ok by (simp add: mapped_ok_def)
  have "mapped_view mm (address + word_of_nat i) = Some (Known (bs ! i))" if i: "i < len" for i
  proof -
    have "binding_end b < 2 ^ 64" using bs b(1) by (auto simp: bindings_ok_def binding_ok_def)
    with b(2) i have "unat (address + word_of_nat i) = unat address + i"
      by (intro unat_offset) (simp add: in_binding_def)
    with b(2) i have "in_binding b (address + word_of_nat i) 1" by (blast intro: in_binding_mono)
    from mapped_view_eq [OF bs b(1) this] arg_cong [OF k, of "\<lambda>xs. xs ! i"] i
      arg_cong [OF k, of length]
    show ?thesis by (simp add: algebra_simps)
  qed
  with arg_cong [OF k, of length] show ?thesis by simp
qed

section \<open>Properties\<close>

text \<open>C3. Binding is sound: when \<open>bind\<close> accepts a list of base addresses, every region is
  bound exactly once, no binding is empty, starts at address zero or wraps around the
  64-bit address space, the bindings are in ascending order and no two of them share an
  address.\<close>

theorem mapped_bind_disjoint:
  assumes "sparse_ok m" and "mapped_bind m bases = Ok mm"
  shows "mapped_sparse mm = m \<and>
    mset (map mapping_region (mapped_bindings mm)) = mset [0..<length (regions m)] \<and>
    (\<forall>b\<in>set (mapped_bindings mm). mapping_base b \<noteq> 0 \<and>
       mapping_bytes b = allocation_bytes (regions m ! mapping_region b) \<and> mapping_bytes b \<noteq> 0 \<and>
       unat (mapping_base b) + unat (mapping_bytes b) < 2 ^ 64) \<and>
    sorted_wrt (\<lambda>a b. unat (mapping_base a) + unat (mapping_bytes a) \<le> unat (mapping_base b))
      (mapped_bindings mm)"
proof -
  have m: "mapped_sparse mm = m"
    using assms(2) by (auto simp: mapped_bind_def Let_def split: if_splits sum.splits)
  have ok: "bindings_ok (regions m) (mapped_bindings mm)"
    using mapped_bind_ok [OF assms] m by (simp add: mapped_ok_def)
  then have "distinct (map mapping_region (mapped_bindings mm))"
    and "set (map mapping_region (mapped_bindings mm)) = set [0..<length (regions m)]"
    by (simp_all add: bindings_ok_def lessThan_atLeast0)
  then have "mset (map mapping_region (mapped_bindings mm)) = mset [0..<length (regions m)]"
    by (metis distinct_upt set_eq_iff_mset_eq_distinct)
  moreover have "sorted_wrt (\<lambda>a b. unat (mapping_base a) + unat (mapping_bytes a)
      \<le> unat (mapping_base b)) (mapped_bindings mm)"
    using ok by (simp add: bindings_ok_def binding_end_def)
  moreover have "\<forall>b\<in>set (mapped_bindings mm). mapping_base b \<noteq> 0 \<and>
       mapping_bytes b = allocation_bytes (regions m ! mapping_region b) \<and> mapping_bytes b \<noteq> 0 \<and>
       unat (mapping_base b) + unat (mapping_bytes b) < 2 ^ 64"
    using ok unfolding bindings_ok_def binding_ok_def binding_end_def by blast
  ultimately show ?thesis using m by blast
qed

definition demo_mapped :: mapped_memory where
  "demo_mapped = \<lparr>mapped_sparse = demo_memory, mapped_bindings =
     [\<lparr>mapping_region = 1, mapping_base = 16, mapping_bytes = 4\<rparr>,
      \<lparr>mapping_region = 0, mapping_base = 32, mapping_bytes = 3\<rparr>]\<rparr>"

lemma demo_mapped_bind: "mapped_bind demo_memory [32, 16] = Ok demo_mapped"
  by (simp add: mapped_bind_def demo_memory_def demo_mapped_def sparse_new_def region_unknown_def
      checked_add_def)

lemma demo_mapped_ok: "mapped_ok demo_mapped"
  by (rule mapped_bind_ok [OF demo_memory_ok demo_mapped_bind])

theorem mapped_bind_disjoint_witness:
  "mset (map mapping_region (mapped_bindings demo_mapped)) = {#0, 1#}"
  using mapped_bind_disjoint [OF demo_memory_ok demo_mapped_bind]
  by (simp add: demo_memory_def sparse_new_def upt_rec)

text \<open>Address resolution is exact: on a bound memory \<open>resolve\<close> succeeds precisely when
  the non-empty range lies inside one binding, that binding is unique, and the result is
  its region with the distance to its base.\<close>

theorem mapped_resolve_exact:
  assumes "mapped_ok mm"
  shows "mapped_resolve mm address len = Ok loc \<longleftrightarrow> len \<noteq> 0 \<and>
    (\<exists>!b. b \<in> set (mapped_bindings mm) \<and> unat (mapping_base b) \<le> unat address \<and>
       unat address + len \<le> unat (mapping_base b) + unat (mapping_bytes b)) \<and>
    (\<exists>b\<in>set (mapped_bindings mm). unat (mapping_base b) \<le> unat address \<and>
       unat address + len \<le> unat (mapping_base b) + unat (mapping_bytes b) \<and>
       loc = \<lparr>resolved_region = mapping_region b, resolved_offset = address - mapping_base b\<rparr>)"
proof -
  have uniq: "b = b'" if "len \<noteq> 0" "b \<in> set (mapped_bindings mm)" "b' \<in> set (mapped_bindings mm)"
    "in_binding b address len" "in_binding b' address len" for b b'
    using that assms by (intro binding_unique [of "regions (mapped_sparse mm)" "mapped_bindings mm" b b' address])
      (auto simp: mapped_ok_def in_binding_def)
  show ?thesis
    unfolding mapped_resolve_Ok [OF assms] using uniq
    unfolding in_binding_def binding_end_def by blast
qed

theorem mapped_resolve_exact_witness:
  "mapped_resolve demo_mapped 17 3 = Ok \<lparr>resolved_region = 1, resolved_offset = 1\<rparr>"
proof (subst mapped_resolve_exact [OF demo_mapped_ok], intro conjI)
  show "\<exists>!b. b \<in> set (mapped_bindings demo_mapped) \<and> unat (mapping_base b) \<le> unat (17 :: u64) \<and>
       unat (17 :: u64) + 3 \<le> unat (mapping_base b) + unat (mapping_bytes b)"
    by (rule ex1I [of _ "\<lparr>mapping_region = 1, mapping_base = 16, mapping_bytes = 4\<rparr>"])
      (auto simp: demo_mapped_def)
qed (simp_all add: demo_mapped_def)

end
