(* ===== verification/Hbm.thy ===== *)
theory Hbm
  imports Prelude
begin

text \<open>
  \<open>src/src/memory/hbm.rs\<close>: the first-fit allocator of the device memory. Its state is the
  list of spans in address order; \<open>hbm_ok\<close> says the spans tile the managed region without
  gaps, none is empty and no two neighbours are free (freed spans are always merged).
  \<open>live\<close> is the abstract view: the set of live allocations with their sizes. Host
  allocation of metadata (\<open>try_reserve\<close>) is the parameter \<open>reserve\<close>.
\<close>

section \<open>State and errors\<close>

datatype architecture = Dav2201 | Dav3510

definition default_hbm_base :: u64 where
  "default_hbm_base = 0x10000000"

definition default_hbm_bytes :: u64 where
  "default_hbm_bytes = 0x500000000"

record hbm_span =
  span_base :: u64
  span_bytes :: u64
  span_allocated :: bool

record hbm_resolved_span =
  allocation_base :: u64
  allocation_size :: u64
  allocation_offset :: u64

datatype hbm_allocation_error =
    HbmInvalidRegion u64 u64
  | HbmZeroSize
  | HbmTooLarge u64
  | HbmOutOfMemory u64
  | HbmHostAllocationFailed
  | HbmUnknownPointer u64
  | HbmAlreadyFreed u64

datatype hbm_resolve_error =
    HbmZeroLength
  | HbmRangeOverflow u64
  | HbmUnmapped u64 u64

record hbm_allocator =
  hbm_architecture :: architecture
  hbm_region_bytes :: u64
  hbm_spans :: "hbm_span list"

section \<open>Operations\<close>

definition hbm_new :: "architecture \<Rightarrow> hbm_allocator" where
  "hbm_new arch =
     \<lparr>hbm_architecture = arch, hbm_region_bytes = default_hbm_bytes,
      hbm_spans = [\<lparr>span_base = default_hbm_base, span_bytes = default_hbm_bytes,
                     span_allocated = False\<rparr>]\<rparr>"

definition hbm_with_region ::
  "architecture \<Rightarrow> u64 \<Rightarrow> u64 \<Rightarrow> hbm_allocation_error + hbm_allocator" where
  "hbm_with_region arch base nbytes =
     (if nbytes = 0 \<or> checked_add base nbytes = None then Err (HbmInvalidRegion base nbytes)
      else Ok \<lparr>hbm_architecture = arch, hbm_region_bytes = nbytes,
               hbm_spans = [\<lparr>span_base = base, span_bytes = nbytes, span_allocated = False\<rparr>]\<rparr>)"

definition insert_at :: "nat \<Rightarrow> 'a \<Rightarrow> 'a list \<Rightarrow> 'a list" where
  "insert_at i x xs = take i xs @ x # drop i xs"

definition remove_at :: "nat \<Rightarrow> 'a list \<Rightarrow> 'a list" where
  "remove_at i xs = take i xs @ drop (Suc i) xs"

definition hbm_allocate ::
  "bool \<Rightarrow> hbm_allocator \<Rightarrow> u64 \<Rightarrow> hbm_allocator \<times> (hbm_allocation_error + u64)" where
  "hbm_allocate reserve h nbytes =
     (if nbytes = 0 then (h, Err HbmZeroSize)
      else if hbm_region_bytes h < nbytes then (h, Err (HbmTooLarge nbytes))
      else case position (\<lambda>s. \<not> span_allocated s \<and> nbytes \<le> span_bytes s) (hbm_spans h) of
          None \<Rightarrow> (h, Err (HbmOutOfMemory nbytes))
        | Some index \<Rightarrow>
            let original = hbm_spans h ! index in
            if span_bytes original \<noteq> nbytes \<and> \<not> reserve then (h, Err HbmHostAllocationFailed)
            else
              let spans =
                (if span_bytes original \<noteq> nbytes
                 then insert_at (index + 1)
                   \<lparr>span_base = span_base original + nbytes,
                    span_bytes = span_bytes original - nbytes, span_allocated = False\<rparr>
                   (hbm_spans h)
                 else hbm_spans h)
              in (h\<lparr>hbm_spans := spans[index :=
                      (spans ! index)\<lparr>span_bytes := nbytes, span_allocated := True\<rparr>]\<rparr>,
                  Ok (span_base original)))"

text \<open>\<open>free\<close> clears the flag, then merges with a free predecessor, then with a free
  successor. The span list and the index move through the two merges.\<close>

definition merge_previous :: "nat \<Rightarrow> hbm_span list \<Rightarrow> nat \<times> hbm_span list" where
  "merge_previous index spans =
     (if 0 < index \<and> \<not> span_allocated (spans ! (index - 1))
      then (index - 1, remove_at index (spans[index - 1 :=
              (spans ! (index - 1))\<lparr>span_bytes :=
                 span_bytes (spans ! (index - 1)) + span_bytes (spans ! index)\<rparr>]))
      else (index, spans))"

definition merge_next :: "nat \<Rightarrow> hbm_span list \<Rightarrow> hbm_span list" where
  "merge_next index spans =
     (if index + 1 < length spans \<and> \<not> span_allocated (spans ! (index + 1))
      then remove_at (index + 1) (spans[index :=
              (spans ! index)\<lparr>span_bytes :=
                 span_bytes (spans ! index) + span_bytes (spans ! (index + 1))\<rparr>])
      else spans)"

definition hbm_free ::
  "hbm_allocator \<Rightarrow> u64 \<Rightarrow> hbm_allocator \<times> (hbm_allocation_error + unit)" where
  "hbm_free h pointer =
     (case position (\<lambda>s. span_base s = pointer) (hbm_spans h) of
        None \<Rightarrow> (h, Err (HbmUnknownPointer pointer))
      | Some index \<Rightarrow>
          if \<not> span_allocated (hbm_spans h ! index) then (h, Err (HbmAlreadyFreed pointer))
          else
            let cleared = (hbm_spans h)[index := (hbm_spans h ! index)\<lparr>span_allocated := False\<rparr>]
            in (case merge_previous index cleared of
                  (index', spans) \<Rightarrow> (h\<lparr>hbm_spans := merge_next index' spans\<rparr>, Ok ())))"

definition hbm_resolve_live ::
  "hbm_allocator \<Rightarrow> u64 \<Rightarrow> u64 \<Rightarrow> hbm_resolve_error + hbm_resolved_span" where
  "hbm_resolve_live h address nbytes =
     (if nbytes = 0 then Err HbmZeroLength
      else case checked_add address nbytes of
          None \<Rightarrow> Err (HbmRangeOverflow address)
        | Some e \<Rightarrow>
            ok_or (map_option (\<lambda>s. \<lparr>allocation_base = span_base s, allocation_size = span_bytes s,
                                    allocation_offset = address - span_base s\<rparr>)
                    (find (\<lambda>s. span_allocated s \<and> span_base s \<le> address \<and>
                               e \<le> span_base s + span_bytes s) (hbm_spans h)))
              (HbmUnmapped address e))"

section \<open>The tiling invariant\<close>

text \<open>\<open>tiles a spans e\<close>: the spans fill \<open>[a, e)\<close> in order, none of them empty.\<close>

fun tiles :: "nat \<Rightarrow> hbm_span list \<Rightarrow> nat \<Rightarrow> bool" where
  "tiles a [] e \<longleftrightarrow> a = e"
| "tiles a (s # ss) e \<longleftrightarrow>
     unat (span_base s) = a \<and> span_bytes s \<noteq> 0 \<and> tiles (a + unat (span_bytes s)) ss e"

fun merged :: "hbm_span list \<Rightarrow> bool" where
  "merged (s # t # ss) \<longleftrightarrow> (span_allocated s \<or> span_allocated t) \<and> merged (t # ss)"
| "merged _ \<longleftrightarrow> True"

definition hbm_ok_in :: "nat \<Rightarrow> nat \<Rightarrow> hbm_allocator \<Rightarrow> bool" where
  "hbm_ok_in a e h \<longleftrightarrow>
     tiles a (hbm_spans h) e \<and> merged (hbm_spans h) \<and> hbm_spans h \<noteq> [] \<and> e < 2 ^ 64 \<and>
     e = a + unat (hbm_region_bytes h)"

definition live_spans :: "hbm_span list \<Rightarrow> (u64 \<times> u64) set" where
  "live_spans ss = (\<lambda>s. (span_base s, span_bytes s)) ` {s \<in> set ss. span_allocated s}"

definition live :: "hbm_allocator \<Rightarrow> (u64 \<times> u64) set" where
  "live h = live_spans (hbm_spans h)"

definition free_bytes :: "hbm_span list \<Rightarrow> nat" where
  "free_bytes ss = sum_list (map (unat \<circ> span_bytes) (filter (Not \<circ> span_allocated) ss))"

lemma tiles_append:
  "tiles a (xs @ ys) e \<longleftrightarrow> (\<exists>m. tiles a xs m \<and> tiles m ys e)"
  by (induction xs arbitrary: a) auto

lemma tiles_le: "tiles a ss e \<Longrightarrow> a \<le> e"
  by (induction ss arbitrary: a) force+

lemma tiles_mem:
  "tiles a ss e \<Longrightarrow> s \<in> set ss \<Longrightarrow>
     a \<le> unat (span_base s) \<and> unat (span_base s) + unat (span_bytes s) \<le> e \<and> span_bytes s \<noteq> 0"
proof (induction ss arbitrary: a)
  case (Cons t ss)
  then show ?case using tiles_le [of "a + unat (span_bytes t)" ss e] by fastforce
qed simp

lemma tiles_sorted:
  "tiles a ss e \<Longrightarrow>
     sorted_wrt (\<lambda>s t. unat (span_base s) + unat (span_bytes s) \<le> unat (span_base t)) ss"
  by (induction ss arbitrary: a) (auto dest: tiles_mem)

lemma merged_Cons:
  "merged (x # xs) \<longleftrightarrow> (xs \<noteq> [] \<longrightarrow> span_allocated x \<or> span_allocated (hd xs)) \<and> merged xs"
  by (cases xs) auto

lemma merged_append:
  "merged (xs @ ys) \<longleftrightarrow> merged xs \<and> merged ys \<and>
     (xs \<noteq> [] \<longrightarrow> ys \<noteq> [] \<longrightarrow> span_allocated (last xs) \<or> span_allocated (hd ys))"
  by (induction xs) (auto simp: merged_Cons)

section \<open>Shapes of the updates\<close>

lemma insert_at_split [simp]:
  "insert_at (Suc (length ys)) x (ys @ z # zs) = ys @ z # x # zs"
  by (simp add: insert_at_def)

lemma remove_at_split [simp]: "remove_at (length ys) (ys @ z # zs) = ys @ zs"
  by (simp add: remove_at_def)

lemma remove_at_next [simp]: "remove_at (Suc (length ys)) (ys @ y # z # zs) = ys @ y # zs"
  by (simp add: remove_at_def)

definition carve :: "u64 \<Rightarrow> hbm_span \<Rightarrow> hbm_span list" where
  "carve n z = z\<lparr>span_bytes := n, span_allocated := True\<rparr> #
     (if span_bytes z \<noteq> n
      then [\<lparr>span_base = span_base z + n, span_bytes = span_bytes z - n, span_allocated = False\<rparr>]
      else [])"

lemma hbm_allocate_cases:
  assumes "hbm_allocate reserve h n = (h', res)"
  obtains (failed) e where "res = Err e" "h' = h"
      "n = 0 \<or> hbm_region_bytes h < n \<or> \<not> reserve \<or>
       (\<forall>s\<in>set (hbm_spans h). span_allocated s \<or> span_bytes s < n)"
  | (allocated) ys z zs where "res = Ok (span_base z)" "n \<noteq> 0" "n \<le> hbm_region_bytes h"
      "hbm_spans h = ys @ z # zs" "\<not> span_allocated z" "n \<le> span_bytes z"
      "\<forall>y\<in>set ys. span_allocated y \<or> span_bytes y < n"
      "h' = h\<lparr>hbm_spans := ys @ carve n z @ zs\<rparr>"
proof -
  let ?P = "\<lambda>s. \<not> span_allocated s \<and> n \<le> span_bytes s"
  consider "n = 0 \<or> hbm_region_bytes h < n" | "n \<noteq> 0" "\<not> hbm_region_bytes h < n"
    "position ?P (hbm_spans h) = None"
    | i where "n \<noteq> 0" "\<not> hbm_region_bytes h < n" "position ?P (hbm_spans h) = Some i"
    by fastforce
  then show ?thesis
  proof cases
    case 1
    with assms obtain e where "res = Err e" "h' = h"
      by (auto simp: hbm_allocate_def split: if_splits)
    with 1 show ?thesis by (intro failed) auto
  next
    case 2
    with assms show ?thesis
      by (intro failed) (auto simp: hbm_allocate_def position_None not_le)
  next
    case (3 i)
    from position_split [OF 3(3)] obtain ys z zs where sp: "hbm_spans h = ys @ z # zs"
      "length ys = i" "?P z" "\<forall>y\<in>set ys. \<not> ?P y" by blast
    have nth: "hbm_spans h ! i = z" using sp(1,2) by auto
    show ?thesis
    proof (cases "span_bytes z \<noteq> n \<and> \<not> reserve")
      case True
      with 3 nth assms show ?thesis
        by (intro failed [of HbmHostAllocationFailed]) (auto simp: hbm_allocate_def Let_def)
    next
      case False
      have "h' = h\<lparr>hbm_spans := ys @ carve n z @ zs\<rparr> \<and> res = Ok (span_base z)"
      proof (cases "span_bytes z = n")
        case True
        have "(hbm_spans h)[i := z\<lparr>span_bytes := n, span_allocated := True\<rparr>] = ys @ carve n z @ zs"
          using True sp(1,2) by (auto simp: carve_def)
        with True 3 nth assms show ?thesis by (auto simp: hbm_allocate_def Let_def)
      next
        case split: False
        let ?rest = "\<lparr>span_base = span_base z + n, span_bytes = span_bytes z - n, span_allocated = False\<rparr>"
        have ins: "insert_at (Suc i) ?rest (hbm_spans h) = ys @ z # ?rest # zs"
          using sp(1,2) by auto
        have "(ys @ z # ?rest # zs)[i := z\<lparr>span_bytes := n, span_allocated := True\<rparr>] = ys @ carve n z @ zs"
          and "(ys @ z # ?rest # zs) ! i = z"
          using split sp(2) by (auto simp: carve_def)
        with split False 3 nth ins assms show ?thesis by (auto simp: hbm_allocate_def Let_def)
      qed
      with 3 sp show ?thesis
        by (intro allocated [of z ys zs]) (auto simp: not_le not_less)
    qed
  qed
qed

definition absorb :: "hbm_span \<Rightarrow> hbm_span \<Rightarrow> hbm_span" where
  "absorb y z = y\<lparr>span_bytes := span_bytes y + span_bytes z\<rparr>"

lemma absorb_simps [simp]:
  "span_base (absorb y z) = span_base y" "span_allocated (absorb y z) = span_allocated y"
  "span_bytes (absorb y z) = span_bytes y + span_bytes z"
  by (simp_all add: absorb_def)

lemma merge_previous_split:
  "merge_previous (length ys) (ys @ z # zs) =
     (if ys \<noteq> [] \<and> \<not> span_allocated (last ys)
      then (length ys - 1, butlast ys @ absorb (last ys) z # zs)
      else (length ys, ys @ z # zs))"
  by (cases ys rule: rev_cases)
    (auto simp: merge_previous_def absorb_def nth_append list_update_append)

lemma merge_next_split:
  "merge_next (length ys) (ys @ z # zs) =
     (if zs \<noteq> [] \<and> \<not> span_allocated (hd zs) then ys @ absorb z (hd zs) # tl zs else ys @ z # zs)"
  by (cases zs) (auto simp: merge_next_def absorb_def nth_append list_update_append)

definition join_free :: "hbm_span list \<Rightarrow> hbm_span \<Rightarrow> hbm_span list \<Rightarrow> hbm_span list" where
  "join_free ys z zs =
     (let (ys', z') = (if ys \<noteq> [] \<and> \<not> span_allocated (last ys)
                       then (butlast ys, absorb (last ys) z) else (ys, z))
      in if zs \<noteq> [] \<and> \<not> span_allocated (hd zs) then ys' @ absorb z' (hd zs) # tl zs
         else ys' @ z' # zs)"

lemma hbm_free_cases:
  assumes "hbm_free h p = (h', res)"
  obtains (failed) e where "res = Err e" "h' = h"
      "\<forall>s\<in>set (hbm_spans h). span_base s \<noteq> p \<or> \<not> span_allocated s \<or>
         (\<exists>t\<in>set (hbm_spans h). span_base t = p \<and> \<not> span_allocated t)"
  | (freed) ys z zs where "res = Ok ()" "hbm_spans h = ys @ z # zs" "span_base z = p"
      "span_allocated z" "\<forall>y\<in>set ys. span_base y \<noteq> p"
      "h' = h\<lparr>hbm_spans := join_free ys (z\<lparr>span_allocated := False\<rparr>) zs\<rparr>"
proof (cases "position (\<lambda>s. span_base s = p) (hbm_spans h)")
  case None
  with assms show ?thesis by (intro failed) (auto simp: hbm_free_def position_None)
next
  case (Some i)
  from position_split [OF Some] obtain ys z zs where sp: "hbm_spans h = ys @ z # zs"
    "length ys = i" "span_base z = p" "\<forall>y\<in>set ys. span_base y \<noteq> p" by blast
  show ?thesis
  proof (cases "span_allocated z")
    case False
    with Some sp assms show ?thesis
      by (intro failed [of "HbmAlreadyFreed p"]) (auto simp: hbm_free_def)
  next
    case True
    let ?z = "z\<lparr>span_allocated := False\<rparr>"
    have upd: "(hbm_spans h)[i := (hbm_spans h ! i)\<lparr>span_allocated := False\<rparr>] = ys @ ?z # zs"
      using sp by (auto simp: nth_append)
    have "(h', res) = (h\<lparr>hbm_spans := join_free ys ?z zs\<rparr>, Ok ())"
      using assms Some sp True merge_previous_split [of ys ?z zs]
        merge_next_split [of "butlast ys" "absorb (last ys) ?z" zs] merge_next_split [of ys ?z zs]
      by (auto simp: hbm_free_def upd Let_def join_free_def)
    with sp True show ?thesis by (intro freed [of ys z zs]) simp_all
  qed
qed

section \<open>The invariant is kept\<close>

lemma hbm_new_ok [wf_intros]:
  "hbm_ok_in (unat default_hbm_base) (unat default_hbm_base + unat default_hbm_bytes) (hbm_new arch)"
  by (simp add: hbm_ok_in_def hbm_new_def default_hbm_base_def default_hbm_bytes_def)

lemma hbm_with_region_ok [wf_intros]:
  "hbm_with_region arch base n = Ok h \<Longrightarrow> hbm_ok_in (unat base) (unat base + unat n) h"
  by (auto simp: hbm_with_region_def hbm_ok_in_def checked_add_None not_le split: if_splits)

lemma tiles_carve:
  assumes "tiles a (z # zs) e" "n \<noteq> 0" "n \<le> span_bytes z" "e < 2 ^ 64"
  shows "tiles a (carve n z @ zs) e"
proof -
  have le: "unat (span_base z) + unat (span_bytes z) \<le> e" and base: "unat (span_base z) = a"
    using tiles_mem [OF assms(1), of z] assms(1) by auto
  have n: "unat n \<le> unat (span_bytes z)" using assms(3) by (simp add: word_le_nat_alt)
  have "unat (span_base z + n) = unat (span_base z) + unat n"
    using le n assms(4) by (intro unat_add_exact) simp
  moreover have "unat (span_bytes z - n) = unat (span_bytes z) - unat n"
    using assms(3) by (rule unat_diff_exact)
  ultimately show ?thesis using assms(1,2) n base by (auto simp: carve_def)
qed

lemma tiles_absorb:
  assumes "tiles a (y # z # zs) e" "e < 2 ^ 64"
  shows "tiles a (absorb y z # zs) e"
proof -
  have "unat (span_base z) + unat (span_bytes z) \<le> e" "unat (span_base z) = a + unat (span_bytes y)"
    using tiles_mem [OF assms(1), of z] assms(1) by auto
  then have eq: "unat (span_bytes y + span_bytes z) = unat (span_bytes y) + unat (span_bytes z)"
    using assms(2) by (intro unat_add_exact) simp
  then have "span_bytes y + span_bytes z \<noteq> 0"
    using assms(1) by (metis add_is_0 tiles.simps(2) unat_0 unat_eq_zero)
  with assms(1) eq show ?thesis by (simp add: add.assoc)
qed

lemma tiles_flag: "tiles a (z\<lparr>span_allocated := f\<rparr> # zs) e \<longleftrightarrow> tiles a (z # zs) e"
  by simp

lemma tiles_join:
  assumes "tiles a (ys @ z # zs) e" "e < 2 ^ 64"
  shows "tiles a (join_free ys z zs) e"
proof -
  have nxt: "tiles b (if ws \<noteq> [] \<and> \<not> span_allocated (hd ws) then absorb w (hd ws) # tl ws else w # ws) e"
    if "tiles b (w # ws) e" for b w ws
    using that tiles_absorb [OF _ assms(2), of b w "hd ws" "tl ws"] by (cases ws) auto
  show ?thesis
  proof (cases "ys \<noteq> [] \<and> \<not> span_allocated (last ys)")
    case True
    then obtain ys' y where ys: "ys = ys' @ [y]" by (cases ys rule: rev_cases) auto
    from assms obtain b where b: "tiles a ys' b" "tiles b (y # z # zs) e"
      unfolding ys by (auto simp: tiles_append)
    have "tiles b (absorb y z # zs) e" by (rule tiles_absorb [OF b(2) assms(2)])
    from nxt [OF this] b(1) True show ?thesis
      by (auto simp: join_free_def ys tiles_append simp del: tiles.simps split: if_splits)
  next
    case False
    from assms obtain b where b: "tiles a ys b" "tiles b (z # zs) e" by (auto simp: tiles_append)
    from nxt [OF b(2)] b(1) False show ?thesis
      by (auto simp: join_free_def tiles_append simp del: tiles.simps split: if_splits)
  qed
qed

lemma merged_join:
  assumes "merged ys" "merged zs" "\<not> span_allocated z"
  shows "merged (join_free ys z zs)"
  using assms
  by (cases ys rule: rev_cases; cases zs)
    (auto simp: join_free_def merged_append merged_Cons Let_def split: if_splits)

lemma hbm_allocate_ok [wf_intros]:
  assumes ok: "hbm_ok_in a e h" and "hbm_allocate reserve h n = (h', res)"
  shows "hbm_ok_in a e h'"
  using assms(2)
proof (cases rule: hbm_allocate_cases)
  case (allocated ys z zs)
  from ok obtain b where b: "tiles a ys b" "tiles b (z # zs) e" and e: "e < 2 ^ 64"
    by (auto simp: hbm_ok_in_def allocated(4) tiles_append)
  have "tiles b (carve n z @ zs) e" by (rule tiles_carve [OF b(2) allocated(2,6) e])
  moreover have "merged (ys @ carve n z @ zs)"
    using ok allocated(5) by (auto simp: hbm_ok_in_def allocated(4) merged_append merged_Cons carve_def)
  ultimately show ?thesis
    using ok b(1) by (auto simp: hbm_ok_in_def allocated(8) tiles_append carve_def)
qed (use ok in simp)

lemma hbm_free_ok [wf_intros]:
  assumes ok: "hbm_ok_in a e h" and "hbm_free h p = (h', res)"
  shows "hbm_ok_in a e h'"
  using assms(2)
proof (cases rule: hbm_free_cases)
  case (freed ys z zs)
  have "tiles a (ys @ z\<lparr>span_allocated := False\<rparr> # zs) e" "e < 2 ^ 64"
    using ok by (auto simp: hbm_ok_in_def freed(2) tiles_append)
  then have "tiles a (join_free ys (z\<lparr>span_allocated := False\<rparr>) zs) e" by (rule tiles_join)
  moreover have "merged (join_free ys (z\<lparr>span_allocated := False\<rparr>) zs)"
    using ok by (intro merged_join) (auto simp: hbm_ok_in_def freed(2) merged_append merged_Cons)
  moreover have "join_free ys (z\<lparr>span_allocated := False\<rparr>) zs \<noteq> []"
    by (auto simp: join_free_def Let_def)
  ultimately show ?thesis using ok by (simp add: hbm_ok_in_def freed(6))
qed (use ok in simp)

section \<open>The abstract view\<close>

lemma live_spans_simps [simp]:
  "live_spans [] = {}"
  "live_spans (s # ss) =
     (if span_allocated s then insert (span_base s, span_bytes s) (live_spans ss) else live_spans ss)"
  "live_spans (xs @ ys) = live_spans xs \<union> live_spans ys"
  by (auto simp: live_spans_def)

lemma free_bytes_simps [simp]:
  "free_bytes [] = 0"
  "free_bytes (s # ss) = (if span_allocated s then 0 else unat (span_bytes s)) + free_bytes ss"
  "free_bytes (xs @ ys) = free_bytes xs + free_bytes ys"
  by (auto simp: free_bytes_def)

lemma live_carve [simp]: "live_spans (carve n z) = {(span_base z, n)}"
  by (simp add: carve_def)

lemma free_carve:
  "n \<le> span_bytes z \<Longrightarrow> free_bytes (carve n z) + unat n = unat (span_bytes z)"
  by (auto simp: carve_def unat_diff_exact word_le_nat_alt)

lemma live_join: "\<not> span_allocated z \<Longrightarrow> live_spans (join_free ys z zs) = live_spans ys \<union> live_spans zs"
  by (cases ys rule: rev_cases; cases zs) (auto simp: join_free_def Let_def)

lemma free_absorb:
  assumes "tiles a (y # z # zs) e" "e < 2 ^ 64"
  shows "unat (span_bytes (absorb y z)) = unat (span_bytes y) + unat (span_bytes z)"
proof -
  have "unat (span_base z) + unat (span_bytes z) \<le> e" "unat (span_base z) = a + unat (span_bytes y)"
    using tiles_mem [OF assms(1), of z] assms(1) by auto
  with assms(2) have "unat (span_bytes y) + unat (span_bytes z) < 2 ^ 64" by simp
  then show ?thesis by (simp add: unat_add_exact)
qed

lemma free_join:
  assumes "tiles a (ys @ z # zs) e" "e < 2 ^ 64" "\<not> span_allocated z"
  shows "free_bytes (join_free ys z zs) = free_bytes ys + unat (span_bytes z) + free_bytes zs"
proof -
  have nxt: "free_bytes (if ws \<noteq> [] \<and> \<not> span_allocated (hd ws) then absorb w (hd ws) # tl ws else w # ws)
      = unat (span_bytes w) + free_bytes ws"
    if "tiles b (w # ws) e" "\<not> span_allocated w" for b w ws
    using that free_absorb [OF _ assms(2), of b w "hd ws" "tl ws"] by (cases ws) auto
  show ?thesis
  proof (cases "ys \<noteq> [] \<and> \<not> span_allocated (last ys)")
    case True
    then obtain ys' y where ys: "ys = ys' @ [y]" by (cases ys rule: rev_cases) auto
    from assms obtain b where b: "tiles b (y # z # zs) e"
      unfolding ys by (auto simp: tiles_append)
    have "tiles b (absorb y z # zs) e" by (rule tiles_absorb [OF b assms(2)])
    from nxt [OF this] free_absorb [OF b assms(2)] True show ?thesis
      by (auto simp: join_free_def ys split: if_splits)
  next
    case False
    from assms obtain b where b: "tiles b (z # zs) e" by (auto simp: tiles_append)
    from nxt [OF b assms(3)] False show ?thesis
      by (auto simp: join_free_def split: if_splits)
  qed
qed

lemma tiles_bases_distinct: "tiles a ss e \<Longrightarrow> distinct (map span_base ss)"
proof (induction ss arbitrary: a)
  case (Cons s ss)
  from Cons.prems have s: "unat (span_base s) = a" "tiles (a + unat (span_bytes s)) ss e"
    and "0 < unat (span_bytes s)" by (simp_all add: unat_gt_0)
  then have "span_base t \<noteq> span_base s" if "t \<in> set ss" for t
    using tiles_mem [OF s(2) that] by auto
  then have "span_base s \<notin> span_base ` set ss" by (metis imageE)
  with Cons.IH [OF s(2)] show ?case by simp
qed simp

lemma hbm_okD:
  assumes "hbm_ok_in a e h"
  shows "tiles a (hbm_spans h) e" "e < 2 ^ 64" "merged (hbm_spans h)"
  using assms unfolding hbm_ok_in_def by blast+

lemma live_iff:
  "(p, n) \<in> live h \<longleftrightarrow> (\<exists>s\<in>set (hbm_spans h). span_allocated s \<and> span_base s = p \<and> span_bytes s = n)"
  by (auto simp: live_def live_spans_def image_iff)

lemma tiles_pair_disjoint:
  assumes "tiles a ss e" "s \<in> set ss" "t \<in> set ss" "s \<noteq> t"
  shows "unat (span_base s) + unat (span_bytes s) \<le> unat (span_base t) \<or>
         unat (span_base t) + unat (span_bytes t) \<le> unat (span_base s)"
proof -
  from assms(2,3) obtain i j where "i < length ss" "j < length ss" "s = ss ! i" "t = ss ! j"
    by (auto simp: in_set_conv_nth)
  with assms(4) tiles_sorted [OF assms(1)] show ?thesis
    by (cases i j rule: linorder_cases) (auto simp: sorted_wrt_iff_nth_less)
qed

lemma live_disjoint:
  assumes "hbm_ok_in a e h" "(p, n) \<in> live h" "(q, k) \<in> live h"
  shows "(p, n) = (q, k) \<or> unat p + unat n \<le> unat q \<or> unat q + unat k \<le> unat p"
  using assms(2,3) tiles_pair_disjoint [OF hbm_okD(1) [OF assms(1)]] unfolding live_iff by blast

lemma live_nonempty: "hbm_ok_in a e h \<Longrightarrow> (p, n) \<in> live h \<Longrightarrow> 0 < unat n"
  using tiles_mem [OF hbm_okD(1)] by (auto simp: live_iff unat_gt_0)

section \<open>Properties\<close>

lemma hbm_allocate_spec:
  assumes ok: "hbm_ok_in a e h" and al: "hbm_allocate reserve h n = (h', res)"
  shows "hbm_ok_in a e h' \<and>
    (case res of
       Ok p \<Rightarrow> live h' = insert (p, n) (live h) \<and> n \<noteq> 0 \<and>
         a \<le> unat p \<and> unat p + unat n \<le> e \<and>
         (\<forall>(q, k)\<in>live h. unat p + unat n \<le> unat q \<or> unat q + unat k \<le> unat p) \<and>
         (\<forall>s\<in>set (hbm_spans h). \<not> span_allocated s \<longrightarrow> n \<le> span_bytes s \<longrightarrow> p \<le> span_base s) \<and>
         free_bytes (hbm_spans h') + unat n = free_bytes (hbm_spans h)
     | Err _ \<Rightarrow> h' = h \<and> (reserve \<longrightarrow> n = 0 \<or>
         (\<forall>s\<in>set (hbm_spans h). span_allocated s \<or> span_bytes s < n)))"
  using al
proof (cases rule: hbm_allocate_cases)
  case (failed er)
  have "span_bytes s \<le> hbm_region_bytes h" if "s \<in> set (hbm_spans h)" for s
    using that ok tiles_mem [of a "hbm_spans h" e s]
    by (auto simp: hbm_ok_in_def word_le_nat_alt)
  with failed ok show ?thesis by (auto intro: le_less_trans)
next
  case (allocated ys z zs)
  note t = hbm_okD(1) [OF ok]
  have z: "z \<in> set (hbm_spans h)" by (simp add: allocated(4))
  from tiles_mem [OF t z] allocated(6)
  have rng: "a \<le> unat (span_base z)" "unat (span_base z) + unat n \<le> e"
    by (auto simp: word_le_nat_alt)
  have disj: "unat (span_base z) + unat n \<le> unat q \<or> unat q + unat k \<le> unat (span_base z)"
    if qk: "(q, k) \<in> live h" for q k
  proof -
    from qk obtain s where "s \<in> set (hbm_spans h)" "span_allocated s" "span_base s = q" "span_bytes s = k"
      by (auto simp: live_iff)
    moreover from this(2) allocated(5) have "z \<noteq> s" by blast
    ultimately show ?thesis
      using tiles_pair_disjoint [OF t z, of s] allocated(6) by (auto simp: word_le_nat_alt)
  qed
  have "span_base z \<le> span_base s"
    if "s \<in> set (hbm_spans h)" "\<not> span_allocated s" "n \<le> span_bytes s" for s
  proof -
    have "s \<notin> set ys" using that allocated(7) by (auto simp: not_le [symmetric])
    then have "s = z \<or> s \<in> set zs" using that(1) allocated(4) by auto
    moreover have "unat (span_base z) \<le> unat (span_base u)" if "u \<in> set zs" for u
      using that tiles_sorted [OF t] by (force simp: allocated(4) sorted_wrt_append)
    ultimately show ?thesis by (auto simp: word_le_nat_alt)
  qed
  moreover have "live h' = insert (span_base z, n) (live h)"
    using allocated(5) by (auto simp: live_def allocated(4,8))
  moreover have "free_bytes (hbm_spans h') + unat n = free_bytes (hbm_spans h)"
    using allocated(5) free_carve [OF allocated(6)] by (simp add: allocated(4,8))
  ultimately show ?thesis
    using hbm_allocate_ok [OF ok al] allocated(1,2) rng disj by auto
qed

text \<open>C4. Allocation. On a well-formed allocator over \<open>[a, e)\<close> a successful \<open>allocate(n)\<close>
  keeps the invariant, adds exactly the block \<open>(p, n)\<close> to the live allocations, takes it
  from a free span so that it lies in the region and overlaps no live block, picks the
  lowest-addressed span that fits (first fit), and lowers the free capacity by \<open>n\<close>. A
  failure changes nothing and, when the host has memory, means that the request was empty
  or that no free span is large enough.\<close>

theorem hbm_allocate_refines:
  assumes ok: "hbm_ok_in a e h" and al: "hbm_allocate reserve h n = (h', res)"
  shows "hbm_ok_in a e h' \<and>
    (case res of
       Ok p \<Rightarrow> live h' = insert (p, n) (live h) \<and> n \<noteq> 0 \<and>
         a \<le> unat p \<and> unat p + unat n \<le> e \<and>
         (\<forall>(q, k)\<in>live h. unat p + unat n \<le> unat q \<or> unat q + unat k \<le> unat p) \<and>
         (\<forall>s\<in>set (hbm_spans h). \<not> span_allocated s \<longrightarrow> n \<le> span_bytes s \<longrightarrow> p \<le> span_base s) \<and>
         free_bytes (hbm_spans h') + unat n = free_bytes (hbm_spans h)
     | Err _ \<Rightarrow> h' = h \<and> (reserve \<longrightarrow> n = 0 \<or>
         (\<forall>s\<in>set (hbm_spans h). span_allocated s \<or> span_bytes s < n)))"
  using assms by (rule hbm_allocate_spec)

definition demo_hbm :: hbm_allocator where
  "demo_hbm = \<lparr>hbm_architecture = Dav2201, hbm_region_bytes = 64,
     hbm_spans = [\<lparr>span_base = 4096, span_bytes = 64, span_allocated = False\<rparr>]\<rparr>"

lemma demo_hbm_ok: "hbm_ok_in 4096 4160 demo_hbm"
  using hbm_with_region_ok [of Dav2201 4096 64 demo_hbm]
  by (simp add: demo_hbm_def hbm_with_region_def checked_add_def)

definition demo_hbm_32 :: hbm_allocator where
  "demo_hbm_32 = demo_hbm\<lparr>hbm_spans :=
     [\<lparr>span_base = 4096, span_bytes = 32, span_allocated = True\<rparr>,
      \<lparr>span_base = 4128, span_bytes = 32, span_allocated = False\<rparr>]\<rparr>"

lemma demo_hbm_allocate: "hbm_allocate True demo_hbm 32 = (demo_hbm_32, Ok 4096)"
  by (simp add: hbm_allocate_def demo_hbm_def demo_hbm_32_def insert_at_def)

lemma demo_hbm_32_ok: "hbm_ok_in 4096 4160 demo_hbm_32"
  by (rule hbm_allocate_ok [OF demo_hbm_ok demo_hbm_allocate])

theorem hbm_allocate_refines_witness:
  "live demo_hbm_32 = {(4096, 32)}"
  using hbm_allocate_refines [OF demo_hbm_ok demo_hbm_allocate]
  by (simp add: live_def demo_hbm_def)

lemma hbm_free_spec:
  assumes ok: "hbm_ok_in a e h" and fr: "hbm_free h p = (h', res)"
  shows "hbm_ok_in a e h' \<and>
    (case res of
       Ok _ \<Rightarrow> \<exists>n. (p, n) \<in> live h \<and> live h' = live h - {(p, n)} \<and>
         free_bytes (hbm_spans h') = free_bytes (hbm_spans h) + unat n
     | Err _ \<Rightarrow> h' = h \<and> (\<forall>n. (p, n) \<notin> live h))"
  using fr
proof (cases rule: hbm_free_cases)
  case (failed er)
  from ok have d: "distinct (map span_base (hbm_spans h))"
    by (auto simp: hbm_ok_in_def dest: tiles_bases_distinct)
  have "(p, n) \<notin> live h" for n
  proof
    assume "(p, n) \<in> live h"
    then obtain s where s: "s \<in> set (hbm_spans h)" "span_allocated s" "span_base s = p"
      by (auto simp: live_iff)
    with failed(3) obtain t where "t \<in> set (hbm_spans h)" "span_base t = p" "\<not> span_allocated t"
      by blast
    with s d show False by (auto simp: distinct_map inj_on_def)
  qed
  with failed ok show ?thesis by simp
next
  case (freed ys z zs)
  let ?z = "z\<lparr>span_allocated := False\<rparr>"
  note t = hbm_okD(1) [OF ok] and e = hbm_okD(2) [OF ok]
  have tz: "tiles a (ys @ ?z # zs) e" using t by (auto simp: freed(2) tiles_append)
  have "(p, n) \<notin> live_spans ys \<union> live_spans zs" for n
    using tiles_bases_distinct [OF t] freed(3) by (auto simp: freed(2) live_spans_def image_iff)
  then have "live h' = live h - {(p, span_bytes z)}" "(p, span_bytes z) \<in> live h"
    using freed(3,4) live_join [of ?z ys zs] by (auto simp: live_def freed(2,6))
  moreover have "free_bytes (hbm_spans h') = free_bytes (hbm_spans h) + unat (span_bytes z)"
    using free_join [OF tz e] freed(4) by (simp add: freed(2,6))
  ultimately show ?thesis using hbm_free_ok [OF ok fr] freed(1) by auto
qed

text \<open>C5. Freeing. \<open>free(p)\<close> succeeds exactly when \<open>p\<close> is the base of a live block; it then
  removes that block and no other, returns its bytes to the free capacity and keeps the
  invariant, so the freed span has been merged with both free neighbours. Any other
  pointer, in particular one that was already freed, is an error that changes nothing.\<close>

theorem hbm_free_refines:
  assumes ok: "hbm_ok_in a e h" and fr: "hbm_free h p = (h', res)"
  shows "hbm_ok_in a e h' \<and>
    (case res of
       Ok _ \<Rightarrow> \<exists>n. (p, n) \<in> live h \<and> live h' = live h - {(p, n)} \<and>
         free_bytes (hbm_spans h') = free_bytes (hbm_spans h) + unat n
     | Err _ \<Rightarrow> h' = h \<and> (\<forall>n. (p, n) \<notin> live h))"
  using assms by (rule hbm_free_spec)

theorem hbm_free_refines_witness:
  "live (fst (hbm_free demo_hbm_32 4096)) = {}"
proof -
  have f: "hbm_free demo_hbm_32 4096 = (fst (hbm_free demo_hbm_32 4096), Ok ())"
    by (simp add: hbm_free_def demo_hbm_32_def demo_hbm_def split: prod.splits)
  from hbm_free_refines [OF demo_hbm_32_ok f] show ?thesis
    by (auto simp: live_def demo_hbm_32_def demo_hbm_def)
qed

text \<open>Allocation and freeing are inverse: freeing a block right after it was allocated
  restores the span list exactly, the split that carved it included.\<close>

lemma hbm_free_after_allocate:
  assumes ok: "hbm_ok_in a e h" and al: "hbm_allocate reserve h n = (h', Ok p)"
  shows "hbm_free h' p = (h, Ok ())"
  using al
proof (cases rule: hbm_allocate_cases)
  case (allocated ys z zs)
  obtain h2 r2 where fr: "hbm_free h' p = (h2, r2)" by fastforce
  have live: "(p, n) \<in> live h'" using allocated(1) by (simp add: live_def allocated(8))
  note t' = hbm_okD(1) [OF hbm_allocate_ok [OF ok al]]
  show ?thesis using fr
  proof (cases rule: hbm_free_cases)
    case (failed er)
    from live obtain s where s: "s \<in> set (hbm_spans h')" "span_allocated s" "span_base s = p"
      by (auto simp: live_iff)
    with failed(3) obtain t where "t \<in> set (hbm_spans h')" "span_base t = p" "\<not> span_allocated t"
      by blast
    with s tiles_bases_distinct [OF t'] show ?thesis by (auto simp: distinct_map inj_on_def)
  next
    case (freed ys' z' zs')
    let ?c = "z\<lparr>span_bytes := n, span_allocated := True\<rparr>" and ?tail = "tl (carve n z) @ zs"
    have sp: "hbm_spans h' = ys @ ?c # ?tail" by (simp add: allocated(8) carve_def)
    have "span_base z = p" using allocated(1) by simp
    then have p: "span_base y \<noteq> p" if "y \<in> set ys \<union> set ?tail" for y
      using that tiles_bases_distinct [OF t'] by (auto simp: sp image_iff)
    have "ys' @ z' # zs' = ys @ ?c # ?tail" using freed(2) sp by simp
    then have eq: "ys' = ys" "z' = ?c" "zs' = ?tail"
      using split_first_unique [of ys' z' zs' ys ?c ?tail "\<lambda>s. span_base s = p"] freed(3,5) p
        \<open>span_base z = p\<close> by simp_all
    have last: "ys \<noteq> [] \<Longrightarrow> span_allocated (last ys)" and hd: "zs \<noteq> [] \<Longrightarrow> span_allocated (hd zs)"
      using ok allocated(5) by (auto simp: hbm_ok_in_def allocated(4) merged_append merged_Cons)
    have zz: "z\<lparr>span_bytes := n, span_allocated := False\<rparr> = z" if "span_bytes z = n"
      using that allocated(5) by (cases z) auto
    have "join_free ys (?c\<lparr>span_allocated := False\<rparr>) ?tail = ys @ z # zs"
      using last hd zz allocated(5)
      by (cases z) (auto simp: join_free_def Let_def carve_def absorb_def)
    then show ?thesis using fr freed(1,6) by (simp add: eq allocated(4,8))
  qed
qed simp

lemma hbm_resolve_live_spec:
  assumes ok: "hbm_ok_in a e h"
  shows "hbm_resolve_live h address n = Ok r \<longleftrightarrow> n \<noteq> 0 \<and>
    (allocation_base r, allocation_size r) \<in> live h \<and>
    unat (allocation_base r) \<le> unat address \<and>
    unat address + unat n \<le> unat (allocation_base r) + unat (allocation_size r) \<and>
    allocation_offset r = address - allocation_base r"
    (is "?lhs \<longleftrightarrow> ?rhs")
proof -
  note t = hbm_okD(1) [OF ok] and e = hbm_okD(2) [OF ok]
  have fin: "unat (span_base s + span_bytes s) = unat (span_base s) + unat (span_bytes s)
      \<and> unat (span_base s) + unat (span_bytes s) < 2 ^ 64" if "s \<in> set (hbm_spans h)" for s
    using tiles_mem [OF t that] e by (simp add: unat_add_exact)
  show ?thesis
  proof (cases "n \<noteq> 0 \<and> unat address + unat n < 2 ^ 64")
    case True
    let ?P = "\<lambda>s. span_allocated s \<and> span_base s \<le> address \<and> address + n \<le> span_base s + span_bytes s"
    have P: "?P s \<longleftrightarrow> span_allocated s \<and> unat (span_base s) \<le> unat address \<and>
        unat address + unat n \<le> unat (span_base s) + unat (span_bytes s)"
      if "s \<in> set (hbm_spans h)" for s
      using fin [OF that] True by (simp add: word_le_nat_alt unat_add_exact)
    have n0: "0 < unat n" using True by (simp add: unat_gt_0)
    have uniq: "s = u" if "s \<in> set (hbm_spans h)" "u \<in> set (hbm_spans h)" "?P s" "?P u" for s u
      using tiles_pair_disjoint [OF t that(1,2)] P [OF that(1)] P [OF that(2)] that(3,4) n0
      by fastforce
    have f: "find ?P (hbm_spans h) = Some s \<longleftrightarrow> s \<in> set (hbm_spans h) \<and> ?P s" for s
      by (rule find_unique) (rule uniq)
    have "?lhs \<longleftrightarrow> (\<exists>s. find ?P (hbm_spans h) = Some s \<and>
        r = \<lparr>allocation_base = span_base s, allocation_size = span_bytes s,
             allocation_offset = address - span_base s\<rparr>)"
      using True by (auto simp: hbm_resolve_live_def checked_add_def ok_or_Ok)
    also have "\<dots> \<longleftrightarrow> (\<exists>s\<in>set (hbm_spans h). ?P s \<and>
        r = \<lparr>allocation_base = span_base s, allocation_size = span_bytes s,
             allocation_offset = address - span_base s\<rparr>)"
      unfolding f by blast
    also have "\<dots> \<longleftrightarrow> (\<exists>s\<in>set (hbm_spans h). span_allocated s \<and>
        unat (span_base s) \<le> unat address \<and>
        unat address + unat n \<le> unat (span_base s) + unat (span_bytes s) \<and>
        r = \<lparr>allocation_base = span_base s, allocation_size = span_bytes s,
             allocation_offset = address - span_base s\<rparr>)"
      using P by blast
    also have "\<dots> \<longleftrightarrow> ?rhs"
      using True unfolding live_iff by (cases r) auto
    finally show ?thesis .
  next
    case False
    then have "\<not> ?lhs" by (auto simp: hbm_resolve_live_def checked_add_def)
    moreover have "\<not> ?rhs" using False fin by (fastforce simp: live_iff)
    ultimately show ?thesis by blast
  qed
qed

text \<open>Liveness check. \<open>resolve_live\<close> accepts exactly the non-empty ranges that lie inside
  one live allocation, and reports that allocation and the offset into it.\<close>

theorem hbm_resolve_live_exact:
  assumes ok: "hbm_ok_in a e h"
  shows "hbm_resolve_live h address n = Ok r \<longleftrightarrow> n \<noteq> 0 \<and>
    (allocation_base r, allocation_size r) \<in> live h \<and>
    unat (allocation_base r) \<le> unat address \<and>
    unat address + unat n \<le> unat (allocation_base r) + unat (allocation_size r) \<and>
    allocation_offset r = address - allocation_base r"
    (is "?lhs \<longleftrightarrow> ?rhs")
  using assms by (rule hbm_resolve_live_spec)

theorem hbm_resolve_live_exact_witness:
  "hbm_resolve_live demo_hbm_32 4100 8 =
     Ok \<lparr>allocation_base = 4096, allocation_size = 32, allocation_offset = 4\<rparr>"
  by (subst hbm_resolve_live_exact [OF demo_hbm_32_ok])
    (simp add: live_def demo_hbm_32_def demo_hbm_def)

end
