(* ===== verification/Pv_Memory.thy ===== *)
theory Pv_Memory
  imports Ordered_Map "HOL-Library.While_Combinator"
begin

text \<open>
  \<open>src/src/memory/pv_memory.rs\<close>: the paged byte store behind the device memory. Pages of
  \<open>PV_PAGE_BYTES\<close> bytes are allocated on the first write that touches them, under a page
  limit; bytes of a missing page read as the default. \<open>pv_read_byte\<close> is the abstract view:
  the chunked copy loops of \<open>read_into\<close> and \<open>write\<close> are shown to read and to update it byte
  by byte. Arithmetic on addresses wraps, as in a release build.
\<close>

unbundle bit_operations_syntax

section \<open>State\<close>

definition pv_page_bytes :: usize where
  "pv_page_bytes = 0x100000"

definition pv_page_mask :: u64 where
  "pv_page_mask = NOT (word_of_nat pv_page_bytes - 1)"

datatype pv_memory_error =
    PvRangeOverflow
  | PvPageLimit usize

record pv_page =
  page_bytes :: "u8 list"

definition pv_page_new :: "u8 \<Rightarrow> pv_page" where
  "pv_page_new default_byte = \<lparr>page_bytes = replicate pv_page_bytes default_byte\<rparr>"

record pv_memory =
  pv_default_byte :: u8
  pv_max_pages :: usize
  pv_pages :: "(u64, pv_page) btree_map"

definition pv_new :: "u8 \<Rightarrow> usize \<Rightarrow> pv_memory" where
  "pv_new default_byte max_pages =
     \<lparr>pv_default_byte = default_byte, pv_max_pages = max_pages, pv_pages = bm_empty\<rparr>"

section \<open>Operations\<close>

definition pv_read_byte :: "pv_memory \<Rightarrow> u64 \<Rightarrow> u8" where
  "pv_read_byte m address =
     (let page_base = address AND pv_page_mask;
          page_offset = unat (address - page_base)
      in case bm_get (pv_pages m) page_base of
           None \<Rightarrow> pv_default_byte m
         | Some page \<Rightarrow> page_bytes page ! page_offset)"

definition pv_check_range :: "u64 \<Rightarrow> usize \<Rightarrow> pv_memory_error + unit" where
  "pv_check_range address len =
     (if len = 0 then Ok ()
      else case u64_try_from len of
          None \<Rightarrow> Err PvRangeOverflow
        | Some n \<Rightarrow>
            (case checked_add address (n - 1) of
               None \<Rightarrow> Err PvRangeOverflow
             | Some _ \<Rightarrow> Ok ()))"

text \<open>\<open>copy_from_slice\<close> into a slice that starts at \<open>i\<close>.\<close>

definition copy_at :: "nat \<Rightarrow> 'a list \<Rightarrow> 'a list \<Rightarrow> 'a list" where
  "copy_at i xs dst = take i dst @ xs @ drop (i + length xs) dst"

text \<open>The size of the chunk that starts at address \<open>at\<close> when \<open>rest\<close> bytes are left.\<close>

definition pv_chunk :: "u64 \<Rightarrow> usize \<Rightarrow> usize" where
  "pv_chunk at rest = min (pv_page_bytes - unat (at - (at AND pv_page_mask))) rest"

lemma pv_page_mask_eq: "pv_page_mask = NOT (mask 20)"
  by (simp add: pv_page_mask_def pv_page_bytes_def mask_eq_exp_minus_1)

lemma page_split: "(a AND pv_page_mask) + take_bit 20 a = a"
proof -
  have "(a AND NOT (mask 20)) + (a AND mask 20) = (a AND NOT (mask 20)) OR (a AND mask 20)"
    by (rule disjunctive_add_eq_or) (rule bit_word_eqI, auto simp: bit_simps)
  also have "\<dots> = a" by (rule bit_word_eqI) (auto simp: bit_simps)
  finally show ?thesis by (simp add: pv_page_mask_eq take_bit_eq_mask)
qed

lemma unat_page_offset: "unat (a - (a AND pv_page_mask)) = unat a mod pv_page_bytes"
proof -
  have "a - (a AND pv_page_mask) = take_bit 20 a"
    using page_split [of a] by (metis add_diff_cancel_left')
  moreover have "unat (take_bit 20 a) = take_bit 20 (unat a)" by (rule unsigned_take_bit_eq)
  moreover have "take_bit 20 (unat a) = unat a mod 2 ^ 20" by (rule take_bit_eq_mod)
  ultimately show ?thesis by (simp add: pv_page_bytes_def)
qed

lemma page_base_le: "a AND pv_page_mask \<le> a"
  by (simp add: word_and_le2)

lemma unat_page_base: "unat (a AND pv_page_mask) = unat a div pv_page_bytes * pv_page_bytes"
proof -
  have "unat a mod pv_page_bytes = unat a - unat (a AND pv_page_mask)"
    using unat_page_offset [of a] by (simp add: unat_diff_exact page_base_le)
  moreover have "unat (a AND pv_page_mask) \<le> unat a"
    using page_base_le [of a] by (simp add: word_le_nat_alt)
  ultimately show ?thesis using div_mult_mod_eq [of "unat a" pv_page_bytes] by linarith
qed

lemma pv_chunk_pos: "0 < rest \<Longrightarrow> 0 < pv_chunk at rest"
  by (simp add: pv_chunk_def unat_page_offset pv_page_bytes_def)


lemma pv_chunk_progress:
  "finished < len \<Longrightarrow> len - (finished + pv_chunk at (len - finished)) < len - finished"
  using pv_chunk_pos [of "len - finished" at] by linarith

lemma pv_chunk_le: "pv_chunk at rest \<le> rest"
  by (simp add: pv_chunk_def)

text \<open>The copy loop of \<open>read_into\<close>; \<open>len\<close> is the length of the destination.\<close>

function pv_read_loop :: "pv_memory \<Rightarrow> u64 \<Rightarrow> usize \<Rightarrow> usize \<Rightarrow> u8 list \<Rightarrow> u8 list" where
  "pv_read_loop m address len finished destination =
     (if finished < len
      then let at = address + word_of_nat finished;
               base = at AND pv_page_mask;
               offset = unat (at - base);
               count = pv_chunk at (len - finished)
           in pv_read_loop m address len (finished + count)
                (case bm_get (pv_pages m) base of
                   Some page \<Rightarrow>
                     copy_at finished (take count (drop offset (page_bytes page))) destination
                 | None \<Rightarrow> copy_at finished (replicate count (pv_default_byte m)) destination)
      else destination)"
  by auto
termination
  by (relation "measure (\<lambda>(m, address, len, finished, destination). len - finished)")
    (auto intro: pv_chunk_progress)

declare pv_read_loop.simps [simp del]

definition pv_read_into :: "pv_memory \<Rightarrow> u64 \<Rightarrow> u8 list \<Rightarrow> pv_memory_error + u8 list" where
  "pv_read_into m address destination =
     (case pv_check_range address (length destination) of
        Err e \<Rightarrow> Err e
      | Ok _ \<Rightarrow> Ok (pv_read_loop m address (length destination) 0 destination))"

text \<open>The page budget: the loop of \<open>check_page_budget\<close> counts the missing pages from
  \<open>base\<close> to \<open>last\<close>; its state is the current base, the count so far and the result, if the
  loop has left. \<open>while_option\<close> is \<open>None\<close> for a loop that never leaves; the result is read with
  \<open>the\<close>, and \<open>pv_budget_loop_result\<close> shows that every call of the loop leaves it.\<close>

type_synonym pv_budget_state = "u64 \<times> usize \<times> (pv_memory_error + unit) option"

definition pv_budget_step :: "pv_memory \<Rightarrow> usize \<Rightarrow> u64 \<Rightarrow> pv_budget_state \<Rightarrow> pv_budget_state" where
  "pv_budget_step m available last_base = (\<lambda>(base, missing, _).
     let absent = \<not> bm_contains (pv_pages m) base;
         missing' = (if absent then missing + 1 else missing)
     in if absent \<and> available < missing'
        then (base, missing', Some (Err (PvPageLimit (pv_max_pages m))))
        else if base = last_base then (base, missing', Some (Ok ()))
        else (base + word_of_nat pv_page_bytes, missing', None))"

definition pv_budget_loop ::
  "pv_memory \<Rightarrow> usize \<Rightarrow> u64 \<Rightarrow> pv_budget_state \<Rightarrow> pv_budget_state option" where
  "pv_budget_loop m available last_base =
     while_option (\<lambda>(_, _, result). result = None) (pv_budget_step m available last_base)"

definition pv_check_page_budget :: "pv_memory \<Rightarrow> u64 \<Rightarrow> usize \<Rightarrow> pv_memory_error + unit" where
  "pv_check_page_budget m address len =
     (if len = 0 then Ok ()
      else let final_address = address + word_of_nat len - 1;
               base = address AND pv_page_mask;
               last_base = final_address AND pv_page_mask;
               available = pv_max_pages m - length (pv_pages m)
           in case the (pv_budget_loop m available last_base (base, 0, None)) of
                (_, _, result) \<Rightarrow> the result)"

function for_each_chunk ::
  "('s \<Rightarrow> u64 \<Rightarrow> usize \<Rightarrow> usize \<times> usize \<Rightarrow> 's) \<Rightarrow> u64 \<Rightarrow> usize \<Rightarrow> usize \<Rightarrow> 's \<Rightarrow> 's" where
  "for_each_chunk action address len finished this =
     (if finished < len
      then let at = address + word_of_nat finished;
               base = at AND pv_page_mask;
               offset = unat (at - base);
               count = pv_chunk at (len - finished)
           in for_each_chunk action address len (finished + count)
                (action this base offset (finished, finished + count))
      else this)"
  by auto
termination
  by (relation "measure (\<lambda>(action, address, len, finished, this). len - finished)")
    (auto intro: pv_chunk_progress)

declare for_each_chunk.simps [simp del]

definition pv_write_chunk ::
  "u8 list \<Rightarrow> pv_memory \<Rightarrow> u64 \<Rightarrow> usize \<Rightarrow> usize \<times> usize \<Rightarrow> pv_memory" where
  "pv_write_chunk source this base offset rng =
     (let page = (case bm_get (pv_pages this) base of
                    Some page \<Rightarrow> page
                  | None \<Rightarrow> pv_page_new (pv_default_byte this));
          slice = take (snd rng - fst rng) (drop (fst rng) source)
      in this\<lparr>pv_pages := bm_insert base
           (page\<lparr>page_bytes := copy_at offset slice (page_bytes page)\<rparr>) (pv_pages this)\<rparr>)"

definition pv_write ::
  "pv_memory \<Rightarrow> u64 \<Rightarrow> u8 list \<Rightarrow> pv_memory \<times> (pv_memory_error + unit)" where
  "pv_write m address source =
     (case pv_check_range address (length source) of
        Err e \<Rightarrow> (m, Err e)
      | Ok _ \<Rightarrow>
          (case pv_check_page_budget m address (length source) of
             Err e \<Rightarrow> (m, Err e)
           | Ok _ \<Rightarrow> (for_each_chunk (pv_write_chunk source) address (length source) 0 m, Ok ())))"

section \<open>Invariant\<close>

definition pv_ok :: "pv_memory \<Rightarrow> bool" where
  "pv_ok m \<longleftrightarrow> bm_ok (pv_pages m) \<and>
     (\<forall>(base, page)\<in>set (pv_pages m).
        base AND pv_page_mask = base \<and> length (page_bytes page) = pv_page_bytes)"

lemma pv_ok_new: "pv_ok (pv_new b n)"
  by (simp add: pv_ok_def pv_new_def bm_empty_def)

lemma pv_ok_page_length:
  "pv_ok m \<Longrightarrow> bm_get (pv_pages m) base = Some page \<Longrightarrow> length (page_bytes page) = pv_page_bytes"
  by (auto simp: pv_ok_def dest!: bm_get_Some_mem)

lemma length_copy_at:
  "i + length xs \<le> length dst \<Longrightarrow> length (copy_at i xs dst) = length dst"
  by (simp add: copy_at_def)

lemma nth_copy_at:
  "i + length xs \<le> length dst \<Longrightarrow> k < length dst \<Longrightarrow>
     copy_at i xs dst ! k = (if i \<le> k \<and> k < i + length xs then xs ! (k - i) else dst ! k)"
  by (auto simp: copy_at_def nth_append min_def)

lemma page_base_eq_iff:
  "a AND pv_page_mask = b AND pv_page_mask \<longleftrightarrow> unat a div pv_page_bytes = unat b div pv_page_bytes"
  by (simp add: word_unat_eq_iff unat_page_base pv_page_bytes_def)

lemma page_base_idem: "(a AND pv_page_mask) AND pv_page_mask = a AND pv_page_mask"
  by (simp add: and.assoc)

text \<open>A chunk stays in the page of its first byte.\<close>

lemma chunk_same_page:
  assumes "i < pv_chunk at rest" "unat at + i < 2 ^ 64"
  shows "(at + word_of_nat i) AND pv_page_mask = at AND pv_page_mask"
    and "unat (at + word_of_nat i) mod pv_page_bytes = unat at mod pv_page_bytes + i"
proof -
  have i: "unat at mod pv_page_bytes + i < pv_page_bytes"
    using assms(1) by (simp add: pv_chunk_def unat_page_offset) linarith
  have u: "unat (at + word_of_nat i) = unat at + i"
    using assms(2) by (intro unat_offset) simp
  show "unat (at + word_of_nat i) mod pv_page_bytes = unat at mod pv_page_bytes + i"
    unfolding u using i by (metis mod_add_left_eq mod_less)
  show "(at + word_of_nat i) AND pv_page_mask = at AND pv_page_mask"
    unfolding page_base_eq_iff u using i
    by (metis (no_types, lifting) add.assoc div_mult_mod_eq div_mult_self3 div_less add.right_neutral
        less_nat_zero_code)
qed

section \<open>Reading\<close>

lemma pv_read_chunk:
  assumes "i < pv_chunk at rest" "unat at + i < 2 ^ 64"
  shows "pv_read_byte m (at + word_of_nat i) =
     (case bm_get (pv_pages m) (at AND pv_page_mask) of
        None \<Rightarrow> pv_default_byte m
      | Some page \<Rightarrow> page_bytes page ! (unat at mod pv_page_bytes + i))"
  using chunk_same_page [OF assms] unat_page_offset [of "at + word_of_nat i"]
  by (simp add: pv_read_byte_def Let_def split: option.split)


definition pv_bytes :: "pv_memory \<Rightarrow> u64 \<Rightarrow> usize \<Rightarrow> u8 list" where
  "pv_bytes m address len = map (\<lambda>i. pv_read_byte m (address + word_of_nat i)) [0..<len]"

lemma length_pv_bytes [simp]: "length (pv_bytes m address len) = len"
  by (simp add: pv_bytes_def)

lemma nth_pv_bytes [simp]:
  "i < len \<Longrightarrow> pv_bytes m address len ! i = pv_read_byte m (address + word_of_nat i)"
  by (simp add: pv_bytes_def)

lemma pv_chunk_bytes:
  assumes ok: "pv_ok m" and fit: "unat at + pv_chunk at rest \<le> 2 ^ 64"
  shows "(case bm_get (pv_pages m) (at AND pv_page_mask) of
            Some page \<Rightarrow> take (pv_chunk at rest) (drop (unat at mod pv_page_bytes) (page_bytes page))
          | None \<Rightarrow> replicate (pv_chunk at rest) (pv_default_byte m))
       = pv_bytes m at (pv_chunk at rest)" (is "?l = ?r")
proof (rule nth_equalityI)
  have in_page: "unat at mod pv_page_bytes + pv_chunk at rest \<le> pv_page_bytes"
  proof -
    have "unat at mod pv_page_bytes < pv_page_bytes" by (simp add: pv_page_bytes_def)
    then show ?thesis by (simp add: pv_chunk_def unat_page_offset)
  qed
  show len: "length ?l = length ?r"
    using in_page by (auto simp: pv_ok_page_length [OF ok] split: option.split)
  fix i assume "i < length ?l"
  then have i: "i < pv_chunk at rest" unfolding len by simp
  with fit have "unat at + i < 2 ^ 64" by linarith
  with i in_page show "?l ! i = ?r ! i"
    by (simp add: pv_read_chunk [OF i] pv_ok_page_length [OF ok] split: option.split)
qed

lemma take_copy_at:
  "i + length xs \<le> length dst \<Longrightarrow> take (i + length xs) (copy_at i xs dst) = take i dst @ xs"
  by (simp add: copy_at_def)

lemma pv_bytes_append:
  "pv_bytes m address (a + b) = pv_bytes m address a @ pv_bytes m (address + word_of_nat a) b"
  by (rule nth_equalityI) (auto simp: nth_append add.assoc simp flip: of_nat_add)

lemma pv_read_loop_bytes:
  assumes "pv_ok m" "length destination = len" "finished \<le> len" "unat address + len \<le> 2 ^ 64"
  shows "pv_read_loop m address len finished destination =
     take finished destination @ pv_bytes m (address + word_of_nat finished) (len - finished)"
  using assms
proof (induction m address len finished destination rule: pv_read_loop.induct)
  case (1 m address len finished destination)
  show ?case
  proof (cases "finished < len")
    case False
    with "1.prems" show ?thesis by (subst pv_read_loop.simps) (simp add: pv_bytes_def)
  next
    case True
    let ?at = "address + word_of_nat finished"
    let ?count = "pv_chunk ?at (len - finished)"
    have at: "unat ?at = unat address + finished"
      using True "1.prems" by (intro unat_offset) simp
    have le: "?count \<le> len - finished" by (rule pv_chunk_le)
    have fit: "unat ?at + ?count \<le> 2 ^ 64" unfolding at using le "1.prems"(4) True by linarith
    let ?piece = "pv_bytes m ?at ?count"
    have piece: "(case bm_get (pv_pages m) (?at AND pv_page_mask) of
          Some page \<Rightarrow> copy_at finished
            (take ?count (drop (unat (?at - (?at AND pv_page_mask))) (page_bytes page))) destination
        | None \<Rightarrow> copy_at finished (replicate ?count (pv_default_byte m)) destination)
        = copy_at finished ?piece destination"
      unfolding pv_chunk_bytes [OF "1.prems"(1) fit, symmetric] unat_page_offset
      by (simp split: option.split)
    have "pv_read_loop m address len finished destination =
        pv_read_loop m address len (finished + ?count) (copy_at finished ?piece destination)"
      by (subst pv_read_loop.simps) (simp add: True Let_def piece)
    also have "\<dots> = take (finished + ?count) (copy_at finished ?piece destination) @
        pv_bytes m (address + word_of_nat (finished + ?count)) (len - (finished + ?count))"
      using "1.IH" [OF True refl refl refl refl] "1.prems" le True
      by (simp add: piece Let_def length_copy_at)
    also have "take (finished + ?count) (copy_at finished ?piece destination) =
        take finished destination @ ?piece"
      using take_copy_at [of finished ?piece destination] le True "1.prems" by simp
    also have "(take finished destination @ ?piece) @
        pv_bytes m (address + word_of_nat (finished + ?count)) (len - (finished + ?count))
        = take finished destination @ pv_bytes m ?at (?count + (len - (finished + ?count)))"
      unfolding pv_bytes_append by (simp add: add.assoc)
    finally show ?thesis using le True by simp
  qed
qed

lemma pv_check_range_Ok:
  "pv_check_range address len = Ok () \<longleftrightarrow> len = 0 \<or> unat address + len \<le> 2 ^ 64 \<and> len < 2 ^ 64"
proof (cases "len = 0 \<or> \<not> len < 2 ^ 64")
  case True
  then show ?thesis by (auto simp: pv_check_range_def u64_try_from_def)
next
  case False
  then have "unat (word_of_nat len - 1 :: u64) = len - 1"
    by (subst unat_diff_exact) (auto simp: word_le_nat_alt)
  with False show ?thesis
    by (auto simp: pv_check_range_def u64_try_from_def checked_add_def)
qed

lemma pv_check_range_cases:
  "pv_check_range address len = Ok () \<or> pv_check_range address len = Err PvRangeOverflow"
  by (auto simp: pv_check_range_def split: option.split)


section \<open>The page budget\<close>

definition page_bases :: "u64 \<Rightarrow> nat \<Rightarrow> u64 list" where
  "page_bases base n = map (\<lambda>i. base + word_of_nat (i * pv_page_bytes)) [0..<n]"

lemma page_bases_Suc:
  "page_bases base (Suc n) = base # page_bases (base + word_of_nat pv_page_bytes) n"
  unfolding page_bases_def by (simp add: upt_conv_Cons map_Suc_upt [symmetric] comp_def
      add.assoc distrib_right del: upt_Suc)

lemma while_option_rec:
  "while_option b c s = (if b s then while_option b c (c s) else Some s)"
  by (rule while_option_unfold)

lemma pv_budget_loop_result:
  assumes "missing \<le> available"
    and "unat base + n * pv_page_bytes < 2 ^ 64"
    and "last_base = base + word_of_nat (n * pv_page_bytes)"
  shows "\<exists>b k. pv_budget_loop m available last_base (base, missing, None) = Some (b, k,
     Some (if missing + length (filter (\<lambda>b. \<not> bm_contains (pv_pages m) b) (page_bases base (Suc n)))
             \<le> available then Ok () else Err (PvPageLimit (pv_max_pages m))))"
  using assms
proof (induction n arbitrary: base missing)
  case 0
  then show ?case
    unfolding pv_budget_loop_def
    by (subst while_option_rec, subst while_option_rec)
      (auto simp: pv_budget_step_def page_bases_def)
next
  case (Suc n)
  have ne: "base \<noteq> last_base"
    using offset_inject [of base 0 "Suc n * pv_page_bytes"] Suc.prems
    by (auto simp: pv_page_bytes_def)
  have next_base: "unat (base + word_of_nat pv_page_bytes) = unat base + pv_page_bytes"
    using Suc.prems(2) by (intro unat_offset) simp
  let ?step = "\<lambda>missing. pv_budget_loop m available last_base
      (base + word_of_nat pv_page_bytes, missing, None)"
  have ih: "\<exists>b k. ?step missing' = Some (b, k,
     Some (if missing' + length (filter (\<lambda>b. \<not> bm_contains (pv_pages m) b)
             (page_bases (base + word_of_nat pv_page_bytes) (Suc n)))
             \<le> available then Ok () else Err (PvPageLimit (pv_max_pages m))))"
    if "missing' \<le> available" for missing'
    using that Suc.prems(2,3) by (intro Suc.IH) (simp_all add: next_base algebra_simps)
  show ?case
    using ih [of missing] ih [of "Suc missing"] Suc.prems(1) ne
    unfolding page_bases_Suc [of base] pv_budget_loop_def
    by (subst (1) while_option_rec, cases "bm_contains (pv_pages m) base";
        cases "missing < available")
      (auto simp: pv_budget_step_def while_option_rec [where b = "\<lambda>(_, _, r). r = None" and
          s = "(_, _, Some _)"])
qed


definition touched :: "u64 \<Rightarrow> usize \<Rightarrow> u64 set" where
  "touched address len = (\<lambda>i. (address + word_of_nat i) AND pv_page_mask) ` {..<len}"

definition missing_pages :: "pv_memory \<Rightarrow> u64 \<Rightarrow> usize \<Rightarrow> nat" where
  "missing_pages m address len = card {base \<in> touched address len. \<not> bm_contains (pv_pages m) base}"

lemma page_base_of_nat:
  "a AND pv_page_mask = word_of_nat (unat a div pv_page_bytes * pv_page_bytes)"
proof -
  have "unat a div pv_page_bytes * pv_page_bytes < 2 ^ 64"
    using unat_u64_less [of a] by (simp add: le_less_trans [OF div_times_less_eq_dividend])
  then show ?thesis by (simp add: word_unat_eq_iff unat_page_base del: of_nat_mult)
qed

lemma touched_eq:
  assumes "0 < len" "unat address + len \<le> 2 ^ 64"
  shows "touched address len = (\<lambda>k. word_of_nat (k * pv_page_bytes)) `
    {unat address div pv_page_bytes .. (unat address + len - 1) div pv_page_bytes}"
proof -
  let ?P = pv_page_bytes
  have P: "0 < ?P" by (simp add: pv_page_bytes_def)
  have "(\<lambda>i. (unat address + i) div ?P) ` {..<len} =
      {unat address div ?P .. (unat address + len - 1) div ?P}"
  proof (intro equalityI subsetI)
    fix k assume "k \<in> (\<lambda>i. (unat address + i) div ?P) ` {..<len}"
    then show "k \<in> {unat address div ?P .. (unat address + len - 1) div ?P}"
      by (auto intro!: div_le_mono)
  next
    fix k assume k: "k \<in> {unat address div ?P .. (unat address + len - 1) div ?P}"
    let ?i = "max (unat address) (k * ?P) - unat address"
    have "k * ?P \<le> unat address + len - 1"
      using k by (auto intro: order_trans [OF mult_le_mono1 div_times_less_eq_dividend])
    then have i: "?i < len" using assms(1) by (auto simp: max_def)
    have "(unat address + ?i) div ?P = k"
    proof (cases "unat address \<le> k * ?P")
      case True
      with P show ?thesis by (simp add: max_def)
    next
      case False
      then have "k \<le> unat address div ?P" using P by (simp add: less_eq_div_iff_mult_less_eq)
      with k False show ?thesis by (simp add: max_def)
    qed
    with i show "k \<in> (\<lambda>i. (unat address + i) div ?P) ` {..<len}"
      by (intro rev_image_eqI [of ?i]) (simp_all only: lessThan_iff)
  qed
  moreover have "(address + word_of_nat i) AND pv_page_mask =
      word_of_nat ((unat address + i) div ?P * ?P)" if "i < len" for i
    using that assms(2) unat_offset [of address i] by (subst page_base_of_nat) simp
  then have "touched address len =
      (\<lambda>k. word_of_nat (k * ?P)) ` (\<lambda>i. (unat address + i) div ?P) ` {..<len}"
    unfolding touched_def by (auto simp: image_image)
  ultimately show ?thesis by simp
qed

lemma page_bases_props:
  assumes "unat base + n * pv_page_bytes < 2 ^ 64"
  shows "distinct (page_bases base (Suc n))"
proof -
  have "inj_on (\<lambda>i. base + word_of_nat (i * pv_page_bytes)) {0..<Suc n}"
  proof (rule inj_onI)
    fix i j
    assume ij: "i \<in> {0..<Suc n}" "j \<in> {0..<Suc n}"
      and eq: "base + word_of_nat (i * pv_page_bytes) = base + word_of_nat (j * pv_page_bytes)"
    have b: "unat base + k * pv_page_bytes < 2 ^ 64" if "k \<le> n" for k
      using assms mult_le_mono1 [OF that, of pv_page_bytes] by linarith
    from ij have "i \<le> n" "j \<le> n" by auto
    with eq offset_inject [of base "i * pv_page_bytes" "j * pv_page_bytes"] b [of i] b [of j]
    have "i * pv_page_bytes = j * pv_page_bytes" by (simp del: of_nat_mult mult_cancel2)
    then show "i = j" by (simp add: pv_page_bytes_def)
  qed
  then show ?thesis by (simp add: page_bases_def distinct_map del: upt_Suc)
qed

lemma pv_check_page_budget_result:
  assumes "pv_ok m" "pv_check_range address len = Ok ()"
  shows "pv_check_page_budget m address len =
     (if missing_pages m address len \<le> pv_max_pages m - length (pv_pages m)
      then Ok () else Err (PvPageLimit (pv_max_pages m)))
   \<and> (0 < len \<longrightarrow> pv_budget_loop m (pv_max_pages m - length (pv_pages m))
       ((address + word_of_nat len - 1) AND pv_page_mask) (address AND pv_page_mask, 0, None) \<noteq> None)"
proof (cases "len = 0")
  case True
  then show ?thesis by (simp add: pv_check_page_budget_def missing_pages_def touched_def)
next
  case False
  let ?P = pv_page_bytes
  let ?last = "address + word_of_nat len - 1"
  from False assms(2) have len: "0 < len" "unat address + len \<le> 2 ^ 64"
    by (auto simp: pv_check_range_Ok)
  have last: "?last = address + word_of_nat (len - 1)"
    using False by (simp add: of_nat_diff)
  have ul: "unat ?last = unat address + len - 1"
    unfolding last using len by (subst unat_offset) auto
  define n where "n = (unat address + len - 1) div ?P - unat address div ?P"
  have mono: "unat address div ?P \<le> (unat address + len - 1) div ?P"
    using len(1) by (intro div_le_mono) simp
  let ?base = "address AND pv_page_mask"
  have sum: "unat address div ?P * ?P + n * ?P = (unat address + len - 1) div ?P * ?P"
    unfolding n_def using mono by (simp flip: distrib_right)
  have fit: "unat ?base + n * ?P < 2 ^ 64"
    unfolding unat_page_base sum using len(2) div_times_less_eq_dividend [of "unat address + len - 1" ?P]
      len(1) by linarith
  have last_base: "?last AND pv_page_mask = ?base + word_of_nat (n * ?P)"
    unfolding page_base_of_nat [of ?last] page_base_of_nat [of address] ul
    by (simp flip: of_nat_add add: sum del: of_nat_mult)
  have "set (page_bases ?base (Suc n)) = touched address len"
  proof -
    have shift: "{unat address div ?P .. (unat address + len - 1) div ?P} =
        (\<lambda>i. unat address div ?P + i) ` {0..<Suc n}"
      unfolding n_def image_add_atLeastLessThan using mono by auto
    show ?thesis
      unfolding touched_eq [OF len] page_bases_def page_base_of_nat [of address] shift
        set_map set_upt image_image
      by (simp add: distrib_right)
  qed
  then have absent: "length (filter (\<lambda>b. \<not> bm_contains (pv_pages m) b) (page_bases ?base (Suc n)))
      = missing_pages m address len"
    unfolding missing_pages_def using page_bases_props [OF fit]
    by (subst distinct_length_filter) (auto intro: arg_cong [where f = card])
  obtain b k where "pv_budget_loop m (pv_max_pages m - length (pv_pages m)) (?last AND pv_page_mask)
      (?base, 0, None) = Some (b, k, Some
        (if missing_pages m address len \<le> pv_max_pages m - length (pv_pages m)
         then Ok () else Err (PvPageLimit (pv_max_pages m))))"
    using pv_budget_loop_result [OF le0 fit last_base, of m "pv_max_pages m - length (pv_pages m)"]
    unfolding absent by auto
  with False show ?thesis by (simp add: pv_check_page_budget_def)
qed

section \<open>Writing\<close>

lemma pv_ok_write_chunk:
  assumes "pv_ok m" "base AND pv_page_mask = base"
    and "offset + (snd rng - fst rng) \<le> pv_page_bytes" "snd rng \<le> length source"
  shows "pv_ok (pv_write_chunk source m base offset rng)"
  using assms pv_ok_page_length [OF assms(1), of base]
  by (auto simp: pv_ok_def pv_write_chunk_def Let_def length_copy_at pv_page_new_def
      dest!: mem_bm_insert split: option.splits)

lemma pv_write_chunk_fields [simp]:
  "pv_default_byte (pv_write_chunk source m base offset rng) = pv_default_byte m"
  "pv_max_pages (pv_write_chunk source m base offset rng) = pv_max_pages m"
  "bm_contains (pv_pages (pv_write_chunk source m base offset rng)) b \<longleftrightarrow>
     b = base \<or> bm_contains (pv_pages m) b"
  by (simp_all add: pv_write_chunk_def Let_def)

lemma pv_write_chunk_byte:
  assumes ok: "pv_ok m" and fit: "offset + (snd rng - fst rng) \<le> pv_page_bytes"
    and src: "snd rng \<le> length source" "fst rng \<le> snd rng"
  shows "pv_read_byte (pv_write_chunk source m base offset rng) x =
     (let o' = unat x mod pv_page_bytes in
      if x AND pv_page_mask = base \<and> offset \<le> o' \<and> o' < offset + (snd rng - fst rng)
      then source ! (fst rng + (o' - offset)) else pv_read_byte m x)"
proof -
  have o': "unat x mod pv_page_bytes < pv_page_bytes" by (simp add: pv_page_bytes_def)
  show ?thesis
    using fit src o' pv_ok_page_length [OF ok, of base]
    by (auto simp: pv_read_byte_def pv_write_chunk_def Let_def unat_page_offset nth_copy_at
        pv_page_new_def split: option.split)
qed

lemma page_window:
  fixes x a n P :: nat
  assumes "a mod P + n \<le> P"
  shows "x div P = a div P \<and> a mod P \<le> x mod P \<and> x mod P < a mod P + n \<longleftrightarrow> a \<le> x \<and> x < a + n"
    and "a \<le> x \<Longrightarrow> x < a + n \<Longrightarrow> x mod P - a mod P = x - a"
proof -
  note parts = div_mult_mod_eq [of x P] div_mult_mod_eq [of a P]
  have same: "x div P = a div P" if "a \<le> x" "x < a + n"
  proof (rule div_nat_eqI)
    show "P * (a div P) \<le> x" using that(1) parts(2) by (simp only: mult.commute)
    show "x < P * Suc (a div P)"
      using that(2) assms parts(2) unfolding mult_Suc_right mult.commute [of P] by linarith
  qed
  show "x div P = a div P \<and> a mod P \<le> x mod P \<and> x mod P < a mod P + n \<longleftrightarrow> a \<le> x \<and> x < a + n"
  proof
    assume "x div P = a div P \<and> a mod P \<le> x mod P \<and> x mod P < a mod P + n"
    then show "a \<le> x \<and> x < a + n" using parts by (metis add.assoc add_left_mono nat_add_left_cancel_less)
  next
    assume x: "a \<le> x \<and> x < a + n"
    then have q: "x div P = a div P" using same by blast
    from q x parts(1) [unfolded q] parts(2)
    show "x div P = a div P \<and> a mod P \<le> x mod P \<and> x mod P < a mod P + n"
      by (intro conjI) linarith+
  qed
  assume x: "a \<le> x" "x < a + n"
  then have q: "x div P = a div P" by (rule same)
  from parts(1) [unfolded q] parts(2) x show "x mod P - a mod P = x - a" by linarith
qed

lemma ex_window:
  assumes "\<And>i. f \<le> i \<Longrightarrow> i < f + n \<Longrightarrow> g i = c" "0 < n" "f + n \<le> (len::nat)"
  shows "(\<exists>i. f \<le> i \<and> i < len \<and> b = g i) \<longleftrightarrow>
     b = c \<or> (\<exists>i. f + n \<le> i \<and> i < len \<and> b = g i)" (is "?l \<longleftrightarrow> ?r")
proof
  assume ?l
  then obtain i where i: "f \<le> i" "i < len" "b = g i" by blast
  show ?r
  proof (cases "i < f + n")
    case True
    with i assms(1) show ?r by simp
  next
    case False
    with i have "f + n \<le> i \<and> i < len \<and> b = g i" by simp
    then show ?r by blast
  qed
next
  assume ?r
  then show ?l
  proof
    assume "b = c"
    with assms(1) [of f] assms(2,3) show ?l by (intro exI [of _ f]) simp
  qed (use assms(2) in \<open>auto intro: add_leD1\<close>)
qed

lemma pv_write_loop:
  assumes "pv_ok m" "len = length source" "finished \<le> len" "unat address + len \<le> 2 ^ 64"
  defines "m' \<equiv> for_each_chunk (pv_write_chunk source) address len finished m"
  shows "pv_ok m' \<and> pv_default_byte m' = pv_default_byte m \<and> pv_max_pages m' = pv_max_pages m \<and>
    (\<forall>x. pv_read_byte m' x =
      (if unat address + finished \<le> unat x \<and> unat x < unat address + len
       then source ! (unat x - unat address) else pv_read_byte m x)) \<and>
    (\<forall>b. bm_contains (pv_pages m') b \<longleftrightarrow> bm_contains (pv_pages m) b \<or>
      (\<exists>i. finished \<le> i \<and> i < len \<and> b = (address + word_of_nat i) AND pv_page_mask))"
  using assms(1-4) unfolding m'_def
proof (induction "len - finished" arbitrary: finished m rule: less_induct)
  case less
  show ?case
  proof (cases "finished < len")
    case False
    then show ?thesis using less.prems by (subst (1 2 3 4 5) for_each_chunk.simps) auto
  next
    case True
    let ?at = "address + word_of_nat finished"
    let ?n = "pv_chunk ?at (len - finished)"
    let ?base = "?at AND pv_page_mask"
    let ?o = "unat ?at mod pv_page_bytes"
    let ?m = "pv_write_chunk source m ?base ?o (finished, finished + ?n)"
    have at: "unat ?at = unat address + finished"
      using True less.prems by (intro unat_offset) simp
    have le: "?n \<le> len - finished" by (rule pv_chunk_le)
    have page: "?o + ?n \<le> pv_page_bytes"
    proof -
      have "?o < pv_page_bytes" by (simp add: pv_page_bytes_def)
      then show ?thesis by (simp add: pv_chunk_def unat_page_offset)
    qed
    have step: "for_each_chunk (pv_write_chunk source) address len finished m =
        for_each_chunk (pv_write_chunk source) address len (finished + ?n) ?m"
      by (subst for_each_chunk.simps) (simp add: True Let_def unat_page_offset)
    have ok: "pv_ok ?m"
      using page le True less.prems by (intro pv_ok_write_chunk) (auto simp: page_base_idem)
    have shorter: "len - (finished + ?n) < len - finished" using True by (rule pv_chunk_progress)
    note IH = less.hyps [OF shorter ok less.prems(2) _ less.prems(4)]
    have byte: "pv_read_byte ?m x =
        (if unat address + finished \<le> unat x \<and> unat x < unat address + (finished + ?n)
         then source ! (unat x - unat address) else pv_read_byte m x)" for x
    proof -
      have "x AND pv_page_mask = ?base \<and> ?o \<le> unat x mod pv_page_bytes \<and>
          unat x mod pv_page_bytes < ?o + ?n
          \<longleftrightarrow> unat ?at \<le> unat x \<and> unat x < unat ?at + ?n"
        unfolding page_base_eq_iff by (rule page_window(1) [OF page])
      moreover have "finished + (unat x mod pv_page_bytes - ?o) = unat x - unat address"
        if "unat ?at \<le> unat x" "unat x < unat ?at + ?n"
        using that page_window(2) [OF page that] at by linarith
      ultimately show ?thesis
        using page le True less.prems(2)
        by (subst pv_write_chunk_byte [OF less.prems(1)]) (auto simp: Let_def at)
    qed
    from le True have fits: "finished + ?n \<le> len" by linarith
    have dom: "(\<exists>i. finished \<le> i \<and> i < len \<and> b = (address + word_of_nat i) AND pv_page_mask) \<longleftrightarrow>
        b = ?base \<or> (\<exists>i. finished + ?n \<le> i \<and> i < len \<and> b = (address + word_of_nat i) AND pv_page_mask)"
      for b
    proof -
      have g: "(address + word_of_nat i) AND pv_page_mask = ?base"
        if "finished \<le> i" "i < finished + ?n" for i
      proof -
        from that have "i - finished < ?n" "unat ?at + (i - finished) < 2 ^ 64"
          using at le True less.prems(4) by linarith+
        from chunk_same_page(1) [OF this] that(1) show ?thesis
          by (simp add: of_nat_diff)
      qed
      have "0 < ?n" using True by (intro pv_chunk_pos) simp
      from ex_window [of finished ?n "\<lambda>i. (address + word_of_nat i) AND pv_page_mask" ?base len b,
          OF g this fits]
      show ?thesis by simp
    qed
    note IH = IH [OF fits]
    have "pv_read_byte (for_each_chunk (pv_write_chunk source) address len finished m) x =
        (if unat address + finished \<le> unat x \<and> unat x < unat address + len
         then source ! (unat x - unat address) else pv_read_byte m x)" for x
      unfolding step conjunct1 [OF conjunct2 [OF conjunct2 [OF conjunct2 [OF IH]]], rule_format] byte
      using fits by auto
    moreover note conjunct1 [OF IH] conjunct1 [OF conjunct2 [OF IH]]
      conjunct1 [OF conjunct2 [OF conjunct2 [OF IH]]]
      conjunct2 [OF conjunct2 [OF conjunct2 [OF conjunct2 [OF IH]]]]
    ultimately show ?thesis
      unfolding dom by (simp only: step pv_write_chunk_fields simp_thms disj_assoc) blast
  qed
qed


lemma pv_write_loop_pages:
  assumes "pv_ok m" "pv_check_range address (length source) = Ok ()"
  defines "m' \<equiv> for_each_chunk (pv_write_chunk source) address (length source) 0 m"
  shows "length (pv_pages m') = length (pv_pages m) + missing_pages m address (length source)"
proof -
  have fit: "source = [] \<or> unat address + length source \<le> 2 ^ 64"
    using assms(2) by (auto simp: pv_check_range_Ok)
  show ?thesis
  proof (cases "source = []")
    case True
    then show ?thesis
      unfolding m'_def by (subst for_each_chunk.simps) (simp add: missing_pages_def touched_def)
  next
    case False
    with fit have "unat address + length source \<le> 2 ^ 64" by simp
    note w = pv_write_loop [OF assms(1) refl le0 this, folded m'_def]
    let ?new = "{base \<in> touched address (length source). \<not> bm_contains (pv_pages m) base}"
    have "dom (bm_get (pv_pages m')) = dom (bm_get (pv_pages m)) \<union> ?new"
      using w by (auto simp: bm_contains_def touched_def domIff image_iff)
    moreover have "dom (bm_get (pv_pages m)) \<inter> ?new = {}" by (auto simp: bm_contains_def)
    moreover have "bm_ok (pv_pages m)" "bm_ok (pv_pages m')" using assms(1) w by (auto simp: pv_ok_def)
    moreover have "finite ?new" by (simp add: touched_def)
    ultimately show ?thesis
      by (simp add: length_bm missing_pages_def card_Un_disjoint btree.finite_dom)
  qed
qed

lemma pv_write_spec:
  assumes "pv_ok m" and "pv_write m address source = (m', r)"
  shows "pv_ok m' \<and>
    (length (pv_pages m) \<le> pv_max_pages m \<longrightarrow> length (pv_pages m') \<le> pv_max_pages m') \<and>
    (r = Ok () \<longleftrightarrow> source = [] \<or> unat address + length source \<le> 2 ^ 64 \<and> length source < 2 ^ 64 \<and>
       missing_pages m address (length source) \<le> pv_max_pages m - length (pv_pages m)) \<and>
    (r = Ok () \<longrightarrow> (\<forall>x. pv_read_byte m' x =
      (if unat address \<le> unat x \<and> unat x < unat address + length source
       then source ! (unat x - unat address) else pv_read_byte m x))) \<and>
    (r \<noteq> Ok () \<longrightarrow> m' = m) \<and>
    (source \<noteq> [] \<and> pv_check_range address (length source) = Ok () \<longrightarrow>
       pv_budget_loop m (pv_max_pages m - length (pv_pages m))
         ((address + word_of_nat (length source) - 1) AND pv_page_mask)
         (address AND pv_page_mask, 0, None) \<noteq> None)"
proof (cases "pv_check_range address (length source) = Ok ()")
  case False
  then have "pv_write m address source = (m, Err PvRangeOverflow)"
    using pv_check_range_cases [of address "length source"] by (simp add: pv_write_def)
  moreover have "source \<noteq> []" "\<not> (unat address + length source \<le> 2 ^ 64 \<and> length source < 2 ^ 64)"
    using False unfolding pv_check_range_Ok by simp_all
  moreover note False
  ultimately show ?thesis using assms by auto
next
  case True
  let ?avail = "pv_max_pages m - length (pv_pages m)"
  note budget = pv_check_page_budget_result [OF assms(1) True]
  show ?thesis
  proof (cases "missing_pages m address (length source) \<le> ?avail")
    case False
    then have "source \<noteq> []" by (auto simp: missing_pages_def touched_def)
    with False assms budget show ?thesis by (auto simp: pv_write_def True)
  next
    case enough: True
    let ?m' = "for_each_chunk (pv_write_chunk source) address (length source) 0 m"
    have w: "pv_write m address source = (?m', Ok ())"
      using budget by (simp add: pv_write_def True enough)
    have range: "source = [] \<or> unat address + length source \<le> 2 ^ 64 \<and> length source < 2 ^ 64"
      using True by (auto simp: pv_check_range_Ok)
    have loop: "pv_ok ?m' \<and> pv_max_pages ?m' = pv_max_pages m \<and> (\<forall>x. pv_read_byte ?m' x =
      (if unat address \<le> unat x \<and> unat x < unat address + length source
       then source ! (unat x - unat address) else pv_read_byte m x))"
    proof (cases "source = []")
      case True
      then show ?thesis using assms by (subst (1 2 3) for_each_chunk.simps) auto
    next
      case False
      with range pv_write_loop [OF assms(1) refl le0, of address source] show ?thesis by simp
    qed
    have "length (pv_pages ?m') = length (pv_pages m) + missing_pages m address (length source)"
      by (rule pv_write_loop_pages [OF assms(1) True])
    with conjunct1 [OF conjunct2 [OF loop]] enough have "length (pv_pages m) \<le> pv_max_pages m \<longrightarrow>
        length (pv_pages ?m') \<le> pv_max_pages ?m'" by linarith
    moreover have "m' = ?m'" "r = Ok ()" using w assms(2) by simp_all
    ultimately show ?thesis using loop range enough budget by simp
  qed
qed

lemma pv_write_Ok_bytes:
  assumes "pv_ok m" and "pv_write m address source = (m', Ok ())"
  shows "pv_ok m'"
    and "source = [] \<or> unat address + length source \<le> 2 ^ 64 \<and> length source < 2 ^ 64"
    and "pv_read_byte m' x =
      (if unat address \<le> unat x \<and> unat x < unat address + length source
       then source ! (unat x - unat address) else pv_read_byte m x)"
proof -
  note w = pv_write_spec [OF assms, THEN conjunct2, THEN conjunct2]
  show "pv_ok m'" using pv_write_spec [OF assms] by (rule conjunct1)
  show "source = [] \<or> unat address + length source \<le> 2 ^ 64 \<and> length source < 2 ^ 64"
    using conjunct1 [OF w] by auto
  show "pv_read_byte m' x =
      (if unat address \<le> unat x \<and> unat x < unat address + length source
       then source ! (unat x - unat address) else pv_read_byte m x)"
    using conjunct1 [OF conjunct2 [OF w]] by simp
qed

lemma pv_write_frame:
  assumes "pv_ok m" and "pv_write m address source = (m', r)"
  shows "pv_ok m'" and "r \<noteq> Ok () \<Longrightarrow> m' = m"
  using pv_write_spec [OF assms] by blast+

lemma pv_read_into_bytes:
  assumes "pv_ok m"
  shows "pv_read_into m address destination =
    (if destination = [] \<or> unat address + length destination \<le> 2 ^ 64 \<and> length destination < 2 ^ 64
     then Ok (pv_bytes m address (length destination)) else Err PvRangeOverflow)"
proof (cases "pv_check_range address (length destination) = Ok ()")
  case True
  then have r: "destination = [] \<or> unat address + length destination \<le> 2 ^ 64 \<and> length destination < 2 ^ 64"
    by (auto simp: pv_check_range_Ok)
  have "pv_read_loop m address (length destination) 0 destination = pv_bytes m address (length destination)"
  proof (cases "destination = []")
    case True
    then show ?thesis by (simp add: pv_read_loop.simps pv_bytes_def)
  next
    case False
    with r have "unat address + length destination \<le> 2 ^ 64" by simp
    from pv_read_loop_bytes [OF assms refl le0 this] show ?thesis by simp
  qed
  with r True show ?thesis by (simp add: pv_read_into_def)
next
  case False
  then have "pv_read_into m address destination = Err PvRangeOverflow"
    using pv_check_range_cases [of address "length destination"] by (auto simp: pv_read_into_def)
  moreover have "\<not> (destination = [] \<or>
      unat address + length destination \<le> 2 ^ 64 \<and> length destination < 2 ^ 64)"
    using False unfolding pv_check_range_Ok by simp
  ultimately show ?thesis by simp
qed

lemma pv_bytes_written:
  assumes "pv_ok m" and "pv_write m address source = (m', Ok ())"
  shows "pv_bytes m' address (length source) = source"
proof (rule nth_equalityI)
  fix i assume "i < length (pv_bytes m' address (length source))"
  then have i: "i < length source" by simp
  with pv_write_Ok_bytes(2) [OF assms] have "unat (address + word_of_nat i) = unat address + i"
    by (intro unat_offset) auto
  with i show "pv_bytes m' address (length source) ! i = source ! i"
    by (simp add: pv_write_Ok_bytes(3) [OF assms])
qed simp

lemma pv_demo_write: "\<exists>m'. pv_write (pv_new 165 2) 1048575 [3, 4, 5] = (m', Ok ())"
proof -
  have range: "pv_check_range 1048575 (length [3, 4, 5 :: u8]) = Ok ()" by (simp add: pv_check_range_Ok)
  have "pv_check_page_budget (pv_new 165 2) 1048575 (length [3, 4, 5 :: u8]) = Ok ()"
  proof -
    have "missing_pages (pv_new 165 2) 1048575 3 \<le> card (touched 1048575 3)"
      unfolding missing_pages_def by (rule card_mono) (auto simp: touched_def)
    also have "touched 1048575 3 = {0, 1048576}"
      by (subst touched_eq) (auto simp: pv_page_bytes_def atLeastAtMost_insertL [symmetric])
    also have "card {0, 1048576 :: u64} = 2" by simp
    finally have few: "missing_pages (pv_new 165 2) 1048575 (length [3, 4, 5 :: u8])
        \<le> pv_max_pages (pv_new 165 2) - length (pv_pages (pv_new 165 2))"
      by (simp add: pv_new_def bm_empty_def numeral_2_eq_2 numeral_3_eq_3)
    show ?thesis
      by (subst pv_check_page_budget_result [OF pv_ok_new]) (simp_all only: range few if_True)
  qed
  with range show ?thesis unfolding pv_write_def by (simp only: sum.case option.case) blast
qed

section \<open>Properties\<close>

text \<open>C6. The paged store implements a byte-addressed memory. A write always returns. It
  keeps the invariant and the page limit, and it succeeds exactly when the range fits the
  address space and the missing pages it touches fit the limit; then exactly the bytes of
  the range change, to the source, although they are copied page by page. A failed write
  changes nothing.\<close>

theorem pv_write_refines:
  assumes "pv_ok m" and "pv_write m address source = (m', r)"
  shows "pv_ok m' \<and>
    (length (pv_pages m) \<le> pv_max_pages m \<longrightarrow> length (pv_pages m') \<le> pv_max_pages m') \<and>
    (r = Ok () \<longleftrightarrow> source = [] \<or> unat address + length source \<le> 2 ^ 64 \<and> length source < 2 ^ 64 \<and>
       missing_pages m address (length source) \<le> pv_max_pages m - length (pv_pages m)) \<and>
    (r = Ok () \<longrightarrow> (\<forall>x. pv_read_byte m' x =
      (if unat address \<le> unat x \<and> unat x < unat address + length source
       then source ! (unat x - unat address) else pv_read_byte m x))) \<and>
    (r \<noteq> Ok () \<longrightarrow> m' = m) \<and>
    (source \<noteq> [] \<and> pv_check_range address (length source) = Ok () \<longrightarrow>
       pv_budget_loop m (pv_max_pages m - length (pv_pages m))
         ((address + word_of_nat (length source) - 1) AND pv_page_mask)
         (address AND pv_page_mask, 0, None) \<noteq> None)"
  using assms by (rule pv_write_spec)

theorem pv_write_refines_witness:
  "\<exists>m'. pv_write (pv_new 165 2) 1048575 [3, 4, 5] = (m', Ok ()) \<and> pv_ok m' \<and>
    pv_read_byte m' 1048576 = 4"
proof -
  obtain m' where w: "pv_write (pv_new 165 2) 1048575 [3, 4, 5] = (m', Ok ())"
    using pv_demo_write by blast
  have "pv_ok m' \<and> (\<forall>x. pv_read_byte m' x =
      (if unat (1048575 :: u64) \<le> unat x \<and> unat x < unat (1048575 :: u64) + length [3, 4, 5 :: u8]
       then [3, 4, 5] ! (unat x - unat (1048575 :: u64)) else pv_read_byte (pv_new 165 2) x))"
    using pv_write_refines [OF pv_ok_new w] by (elim conjE) (simp only: simp_thms)
  then have "pv_ok m' \<and> pv_read_byte m' 1048576 = [3, 4, 5] ! 1"
    by (elim conjE allE [of _ 1048576]) simp
  with w show ?thesis by auto
qed

text \<open>\<open>read_into\<close> fills the destination with the bytes of the range, whatever pages they
  lie in, and reads back what a successful \<open>write\<close> stored.\<close>

lemma pv_write_read_roundtrip:
  assumes "pv_ok m" and "pv_write m address source = (m', Ok ())"
    and "length destination = length source"
  shows "pv_read_into m' address destination = Ok source"
  using pv_write_Ok_bytes(1,2) [OF assms(1,2)] pv_bytes_written [OF assms(1,2)] assms(3)
  by (auto simp: pv_read_into_bytes pv_bytes_def)

lemma pv_write_read_roundtrip_witness:
  "\<exists>m'. pv_write (pv_new 165 2) 1048575 [3, 4, 5] = (m', Ok ()) \<and>
     pv_read_into m' 1048575 [0, 0, 0] = Ok [3, 4, 5]"
  using pv_demo_write pv_write_read_roundtrip [OF pv_ok_new, of 165 2 1048575 "[3, 4, 5]" _ "[0, 0, 0]"]
  by auto


end
