(* ===== verification/Hbm_Pv_Memory.thy ===== *)
theory Hbm_Pv_Memory
  imports Hbm Pv_Memory
begin

text \<open>
  \<open>src/src/memory/hbm_pv_memory.rs\<close>: the device memory, an allocator in front of the paged
  store. Transfers between host and device are accepted only inside one live allocation.
  The host reservation of the allocator is again the parameter \<open>reserve\<close>.
\<close>

section \<open>State and operations\<close>

datatype hbm_pv_memory_error =
    Allocation hbm_allocation_error
  | Resolve hbm_resolve_error
  | Store pv_memory_error

record hbm_pv_memory =
  hp_allocator :: hbm_allocator
  hp_store :: pv_memory

definition hp_new :: "architecture \<Rightarrow> u8 \<Rightarrow> usize \<Rightarrow> hbm_pv_memory" where
  "hp_new arch default_byte max_pages =
     \<lparr>hp_allocator = hbm_new arch, hp_store = pv_new default_byte max_pages\<rparr>"

definition hp_with_region ::
  "architecture \<Rightarrow> u64 \<Rightarrow> u64 \<Rightarrow> u8 \<Rightarrow> usize \<Rightarrow> hbm_pv_memory_error + hbm_pv_memory" where
  "hp_with_region arch base nbytes default_byte max_pages =
     (case hbm_with_region arch base nbytes of
        Err e \<Rightarrow> Err (Allocation e)
      | Ok allocator \<Rightarrow> Ok \<lparr>hp_allocator = allocator, hp_store = pv_new default_byte max_pages\<rparr>)"

definition hp_allocate ::
  "bool \<Rightarrow> hbm_pv_memory \<Rightarrow> u64 \<Rightarrow> hbm_pv_memory \<times> (hbm_pv_memory_error + u64)" where
  "hp_allocate reserve m nbytes =
     (case hbm_allocate reserve (hp_allocator m) nbytes of
        (allocator, r) \<Rightarrow> (m\<lparr>hp_allocator := allocator\<rparr>, map_err Allocation r))"

definition hp_free :: "hbm_pv_memory \<Rightarrow> u64 \<Rightarrow> hbm_pv_memory \<times> (hbm_pv_memory_error + unit)" where
  "hp_free m pointer =
     (case hbm_free (hp_allocator m) pointer of
        (allocator, r) \<Rightarrow> (m\<lparr>hp_allocator := allocator\<rparr>, map_err Allocation r))"

definition host_to_device ::
  "hbm_pv_memory \<Rightarrow> u64 \<Rightarrow> u8 list \<Rightarrow> hbm_pv_memory \<times> (hbm_pv_memory_error + unit)" where
  "host_to_device m device_address source =
     (if source = [] then (m, Ok ())
      else case hbm_resolve_live (hp_allocator m) device_address (word_of_nat (length source)) of
          Err e \<Rightarrow> (m, Err (Resolve e))
        | Ok _ \<Rightarrow>
            (case pv_write (hp_store m) device_address source of
               (store, r) \<Rightarrow> (m\<lparr>hp_store := store\<rparr>, map_err Store r)))"

definition device_to_host ::
  "hbm_pv_memory \<Rightarrow> u64 \<Rightarrow> u8 list \<Rightarrow> hbm_pv_memory_error + u8 list" where
  "device_to_host m device_address destination =
     (if destination = [] then Ok destination
      else case hbm_resolve_live (hp_allocator m) device_address (word_of_nat (length destination)) of
          Err e \<Rightarrow> Err (Resolve e)
        | Ok _ \<Rightarrow> map_err Store (pv_read_into (hp_store m) device_address destination))"

section \<open>Laws\<close>

definition hp_ok :: "hbm_pv_memory \<Rightarrow> bool" where
  "hp_ok m \<longleftrightarrow> pv_ok (hp_store m)"

lemma hp_ok_new: "hp_ok (hp_new arch b n)"
  by (simp add: hp_ok_def hp_new_def pv_ok_new)

lemma hp_ok_allocate [wf_intros]: "hp_ok m \<Longrightarrow> hp_ok (fst (hp_allocate reserve m n))"
  by (simp add: hp_ok_def hp_allocate_def split: prod.split)

lemma hp_ok_free [wf_intros]: "hp_ok m \<Longrightarrow> hp_ok (fst (hp_free m p))"
  by (simp add: hp_ok_def hp_free_def split: prod.split)

lemma host_to_device_spec:
  assumes "hp_ok m" and "host_to_device m a bs = (m', r)"
  shows "hp_ok m'" and "hp_allocator m' = hp_allocator m"
    and "r \<noteq> Ok () \<Longrightarrow> m' = m"
    and "r = Ok () \<Longrightarrow> bs = [] \<or> unat a + length bs \<le> 2 ^ 64"
    and "r = Ok () \<Longrightarrow> pv_read_byte (hp_store m') x =
      (if unat a \<le> unat x \<and> unat x < unat a + length bs then bs ! (unat x - unat a)
       else pv_read_byte (hp_store m) x)"
proof -
  have ok: "pv_ok (hp_store m)" using assms(1) by (simp add: hp_ok_def)
  consider (same) "m' = m" "r = Ok () \<longrightarrow> bs = []"
    | (written) store r' where "pv_write (hp_store m) a bs = (store, r')"
        "m' = m\<lparr>hp_store := store\<rparr>" "r = map_err Store r'"
  proof (cases "bs = [] \<or> \<not> is_ok (hbm_resolve_live (hp_allocator m) a (word_of_nat (length bs)))")
    case True
    with assms(2) show ?thesis
      by (intro same) (auto simp: host_to_device_def is_ok_def split: if_splits sum.splits)
  next
    case False
    then obtain v where v: "bs \<noteq> []"
      "hbm_resolve_live (hp_allocator m) a (word_of_nat (length bs)) = Ok v" by (auto simp: is_ok_iff)
    obtain store r' where "pv_write (hp_store m) a bs = (store, r')" by fastforce
    with assms(2) v show ?thesis by (intro written) (auto simp: host_to_device_def)
  qed
  note cases = this
  show "hp_ok m'" "hp_allocator m' = hp_allocator m"
    by (cases rule: cases; use assms(1) pv_write_frame(1) [OF ok] in \<open>simp add: hp_ok_def\<close>)+
  show "r \<noteq> Ok () \<Longrightarrow> m' = m"
  proof (cases rule: cases)
    case written
    assume "r \<noteq> Ok ()"
    with written have "r' \<noteq> Ok ()" by auto
    with pv_write_frame(2) [OF ok written(1)] written(2) show ?thesis by simp
  qed simp
  show "r = Ok () \<Longrightarrow> bs = [] \<or> unat a + length bs \<le> 2 ^ 64"
  proof (cases rule: cases)
    case written
    assume "r = Ok ()"
    with written have "r' = Ok ()" by (cases r') auto
    with pv_write_Ok_bytes(2) [OF ok] written(1) show ?thesis by auto
  qed simp
  show "r = Ok () \<Longrightarrow> pv_read_byte (hp_store m') x =
      (if unat a \<le> unat x \<and> unat x < unat a + length bs then bs ! (unat x - unat a)
       else pv_read_byte (hp_store m) x)"
  proof (cases rule: cases)
    case same
    assume "r = Ok ()"
    with same show ?thesis by auto
  next
    case written
    assume "r = Ok ()"
    with written have "pv_write (hp_store m) a bs = (store, Ok ())" by (cases r') auto
    from pv_write_Ok_bytes(3) [OF ok this] written(2) show ?thesis by simp
  qed
qed

lemma device_to_host_eq:
  assumes "hp_ok m"
  shows "device_to_host m a dst =
    (if dst = [] then Ok []
     else case hbm_resolve_live (hp_allocator m) a (word_of_nat (length dst)) of
         Err e \<Rightarrow> Err (Resolve e)
       | Ok _ \<Rightarrow>
           if unat a + length dst \<le> 2 ^ 64 \<and> length dst < 2 ^ 64
           then Ok (pv_bytes (hp_store m) a (length dst)) else Err (Store PvRangeOverflow))"
  using assms by (auto simp: device_to_host_def pv_read_into_bytes hp_ok_def split: sum.split)

lemma host_to_device_roundtrip:
  assumes "hp_ok m" and h: "host_to_device m a bs = (m', Ok ())" and "length dst = length bs"
  shows "device_to_host m' a dst = Ok bs"
proof (cases "bs = []")
  case True
  with assms show ?thesis by (simp add: device_to_host_def)
next
  case False
  then obtain v r' store where v: "hbm_resolve_live (hp_allocator m) a (word_of_nat (length bs)) = Ok v"
      and s: "pv_write (hp_store m) a bs = (store, r')" "m' = m\<lparr>hp_store := store\<rparr>"
        "Ok () = map_err Store r'"
    using h by (auto simp: host_to_device_def split: sum.splits prod.splits)
  then have w: "pv_write (hp_store m) a bs = (store, Ok ())" by (cases r') auto
  have ok: "pv_ok (hp_store m)" using assms(1) by (simp add: hp_ok_def)
  have "hp_ok m'" using host_to_device_spec(1) [OF assms(1) h] .
  then show ?thesis
    using False v s(2) assms(3) pv_write_Ok_bytes(2) [OF ok w] pv_bytes_written [OF ok w]
    by (auto simp: device_to_host_eq)
qed

lemma host_to_device_fits:
  assumes "hp_ok m" and "host_to_device m a bs = (m', Ok ())"
  shows "bs = [] \<or> unat a + length bs \<le> 2 ^ 64 \<and> length bs < 2 ^ 64"
proof (cases "bs = []")
  case False
  then obtain r' store where s: "pv_write (hp_store m) a bs = (store, r')" "Ok () = map_err Store r'"
    using assms(2) by (auto simp: host_to_device_def split: sum.splits prod.splits)
  then have "pv_write (hp_store m) a bs = (store, Ok ())" by (cases r') auto
  with pv_write_Ok_bytes(2) assms(1) show ?thesis by (simp add: hp_ok_def)
qed simp

section \<open>Properties\<close>

text \<open>C7. Host and device agree: what \<open>host_to_device\<close> stored in a live allocation,
  \<open>device_to_host\<close> delivers; once the block is freed, the same transfer is refused.\<close>

theorem host_device_roundtrip:
  assumes "hp_ok m" and "hbm_ok_in lo hi (hp_allocator m)"
    and "host_to_device m a bs = (m', Ok ())" and "bs \<noteq> []" and "length dst = length bs"
  shows "device_to_host m' a dst = Ok bs \<and>
    (\<exists>p n. (p, n) \<in> live (hp_allocator m') \<and>
       unat p \<le> unat a \<and> unat a + length bs \<le> unat p + unat n \<and>
       (case hp_free m' p of (m'', r) \<Rightarrow> r = Ok () \<and> \<not> is_ok (device_to_host m'' a dst)))"
proof -
  have al: "hp_allocator m' = hp_allocator m" by (rule host_to_device_spec(2) [OF assms(1,3)])
  note ok' = host_to_device_spec(1) [OF assms(1,3)]
  have fit: "unat a + length bs \<le> 2 ^ 64" "length bs < 2 ^ 64"
    using host_to_device_fits [OF assms(1,3)] assms(4) by auto
  then have len: "unat (word_of_nat (length bs) :: u64) = length bs" by simp
  obtain v where v: "hbm_resolve_live (hp_allocator m) a (word_of_nat (length bs)) = Ok v"
    using assms(3,4) by (auto simp: host_to_device_def split: sum.splits)
  note R = hbm_resolve_live_spec [OF assms(2)]
  from v have in_block: "(allocation_base v, allocation_size v) \<in> live (hp_allocator m)"
    "unat (allocation_base v) \<le> unat a"
    "unat a + length bs \<le> unat (allocation_base v) + unat (allocation_size v)"
    unfolding R len by simp_all
  let ?p = "allocation_base v" and ?n = "allocation_size v"
  obtain al' r where f: "hbm_free (hp_allocator m) ?p = (al', r)" by fastforce
  with hbm_free_spec [OF assms(2) f] in_block(1) obtain k where k: "r = Ok ()" "(?p, k) \<in> live (hp_allocator m)"
    "live al' = live (hp_allocator m) - {(?p, k)}" "hbm_ok_in lo hi al'"
    by (auto split: sum.splits)
  have "k = ?n" using live_disjoint [OF assms(2) k(2) in_block(1)] live_nonempty [OF assms(2) k(2)]
    live_nonempty [OF assms(2) in_block(1)] by auto
  have "\<not> is_ok (hbm_resolve_live al' a (word_of_nat (length bs)))"
  proof
    assume "is_ok (hbm_resolve_live al' a (word_of_nat (length bs)))"
    then obtain w where "hbm_resolve_live al' a (word_of_nat (length bs)) = Ok w" by (auto simp: is_ok_iff)
    then have w: "(allocation_base w, allocation_size w) \<in> live (hp_allocator m) - {(?p, k)}"
      "unat (allocation_base w) \<le> unat a"
      "unat a + length bs \<le> unat (allocation_base w) + unat (allocation_size w)"
      unfolding hbm_resolve_live_spec [OF k(4)] len k(3) by simp_all
    have "0 < length bs" using assms(4) by simp
    with live_disjoint [OF assms(2) in_block(1), of "allocation_base w" "allocation_size w"] w in_block(2,3)
      \<open>k = ?n\<close> show False by auto
  qed
  then have "\<not> is_ok (device_to_host (m'\<lparr>hp_allocator := al'\<rparr>) a dst)"
    using assms(4,5) ok' by (auto simp: device_to_host_def split: sum.splits)
  moreover have "hp_free m' ?p = (m'\<lparr>hp_allocator := al'\<rparr>, Ok ())"
    using f k(1) by (simp add: hp_free_def al)
  moreover have "device_to_host m' a dst = Ok bs"
    by (rule host_to_device_roundtrip [OF assms(1,3,5)])
  ultimately show ?thesis using in_block unfolding al by (intro conjI exI [of _ ?p] exI [of _ ?n]) simp_all
qed

definition demo_device :: hbm_pv_memory where
  "demo_device = fst (hp_allocate True (hp_new Dav2201 0 1) 16)"

lemma demo_device_eq:
  "demo_device = \<lparr>hp_allocator = \<lparr>hbm_architecture = Dav2201, hbm_region_bytes = 21474836480,
     hbm_spans = [\<lparr>span_base = 268435456, span_bytes = 16, span_allocated = True\<rparr>,
        \<lparr>span_base = 268435472, span_bytes = 21474836464, span_allocated = False\<rparr>]\<rparr>,
     hp_store = pv_new 0 1\<rparr>"
  by (simp add: demo_device_def hp_allocate_def hp_new_def hbm_new_def hbm_allocate_def
      default_hbm_base_def default_hbm_bytes_def insert_at_def)

lemma demo_device_ok: "hp_ok demo_device" "hbm_ok_in 268435456 21743271936 (hp_allocator demo_device)"
  by (simp_all add: demo_device_eq hp_ok_def pv_ok_new hbm_ok_in_def)

text \<open>A fresh store with room for one page takes a write inside one page.\<close>

lemma pv_write_one_page:
  assumes range: "pv_check_range a (length bs) = Ok ()" and page: "touched a (length bs) = {p}"
  shows "\<exists>st. pv_write (pv_new d 1) a bs = (st, Ok ())"
proof -
  have "missing_pages (pv_new d 1) a (length bs) \<le> card (touched a (length bs))"
    unfolding missing_pages_def by (rule card_mono) (auto simp: touched_def)
  then have "missing_pages (pv_new d 1) a (length bs) \<le>
      pv_max_pages (pv_new d 1) - length (pv_pages (pv_new d 1))"
    by (simp add: page pv_new_def bm_empty_def)
  with pv_check_page_budget_result [OF pv_ok_new range]
  have "pv_check_page_budget (pv_new d 1) a (length bs) = Ok ()" by simp
  with range show ?thesis by (simp add: pv_write_def)
qed

lemma demo_device_write: "\<exists>m'. host_to_device demo_device 268435460 [1, 2, 3, 4] = (m', Ok ())"
proof -
  have "pv_check_range 268435460 (length [1, 2, 3, 4 :: u8]) = Ok ()" by (simp add: pv_check_range_Ok)
  moreover have "touched 268435460 (length [1, 2, 3, 4 :: u8]) = {268435456}"
    by (subst touched_eq) (auto simp: pv_page_bytes_def)
  ultimately have "\<exists>st. pv_write (pv_new 0 1) 268435460 [1, 2, 3, 4] = (st, Ok ())" by (rule pv_write_one_page)
  then show ?thesis
    by (auto simp: host_to_device_def demo_device_eq hbm_resolve_live_def checked_add_def)
qed

theorem host_device_roundtrip_witness:
  "\<exists>m'. host_to_device demo_device 268435460 [1, 2, 3, 4] = (m', Ok ()) \<and>
     device_to_host m' 268435460 [0, 0, 0, 0] = Ok [1, 2, 3, 4]"
  using demo_device_write host_device_roundtrip [OF demo_device_ok, of 268435460 "[1, 2, 3, 4]" _ "[0, 0, 0, 0]"]
  by auto

end
