(* ===== verification/Memory_Bus.thy ===== *)
theory Memory_Bus
  imports Mapped_Memory Hbm_Pv_Memory
begin

text \<open>
  The byte bus the scalar unit runs on: the trait \<open>ScalarMemoryBus\<close> of
  \<open>src/src/sim/common/scalar/mod.rs\<close> and its two implementations in
  \<open>src/src/sim/common/scalar/bus.rs\<close>. The locale \<open>memory_bus\<close> is the contract of the
  trait: a view of the memory as readable bytes, which a successful read returns and a
  successful write updates. What a client may conclude (a load sees the last store, a
  store elsewhere does not disturb it) is proved once inside the locale and holds of both
  memories by interpretation.
\<close>

section \<open>The implementations\<close>

definition mapped_bus_read ::
  "(usize \<Rightarrow> bool) \<Rightarrow> mapped_memory \<Rightarrow> u64 \<Rightarrow> u8 list \<Rightarrow> mapped_memory \<times> (mapped_memory_error + u8 list)" where
  "mapped_bus_read reserve mm address destination =
     (case mapped_read_known_at reserve mm address (length destination) of
        Err e \<Rightarrow> (mm, Err e)
      | Ok bs \<Rightarrow> (mm, Ok bs))"

definition mapped_bus_write ::
  "mapped_memory \<Rightarrow> u64 \<Rightarrow> u8 list \<Rightarrow> mapped_memory \<times> (mapped_memory_error + unit)" where
  "mapped_bus_write mm address source = mapped_write_known_at mm address source"

definition hp_bus_read ::
  "hbm_pv_memory \<Rightarrow> u64 \<Rightarrow> u8 list \<Rightarrow> hbm_pv_memory \<times> (hbm_pv_memory_error + u8 list)" where
  "hp_bus_read m address destination =
     (if destination = [] then (m, Ok destination)
      else (m, device_to_host m address destination))"

definition hp_bus_write ::
  "hbm_pv_memory \<Rightarrow> u64 \<Rightarrow> u8 list \<Rightarrow> hbm_pv_memory \<times> (hbm_pv_memory_error + unit)" where
  "hp_bus_write m address source =
     (if source = [] then (m, Ok ()) else host_to_device m address source)"

section \<open>The contract\<close>

definition bytes_at :: "(u64 \<Rightarrow> u8 option) \<Rightarrow> u64 \<Rightarrow> u8 list \<Rightarrow> bool" where
  "bytes_at view a bs \<longleftrightarrow> (\<forall>i<length bs. view (a + word_of_nat i) = Some (bs ! i))"

definition overwritten :: "(u64 \<Rightarrow> u8 option) \<Rightarrow> u64 \<Rightarrow> u8 list \<Rightarrow> u64 \<Rightarrow> u8 option" where
  "overwritten view a bs x =
     (if unat a \<le> unat x \<and> unat x < unat a + length bs then Some (bs ! (unat x - unat a)) else view x)"

definition apart :: "u64 \<Rightarrow> nat \<Rightarrow> u64 \<Rightarrow> nat \<Rightarrow> bool" where
  "apart a m b n \<longleftrightarrow> unat a + m \<le> unat b \<or> unat b + n \<le> unat a"

locale memory_bus =
  fixes bus_read :: "'m \<Rightarrow> u64 \<Rightarrow> u8 list \<Rightarrow> 'm \<times> ('e + u8 list)"
    and bus_write :: "'m \<Rightarrow> u64 \<Rightarrow> u8 list \<Rightarrow> 'm \<times> ('e + unit)"
    and inv :: "'m \<Rightarrow> bool"
    and view :: "'m \<Rightarrow> u64 \<Rightarrow> u8 option"
  assumes read_keeps: "inv m \<Longrightarrow> bus_read m a dst = (m', r) \<Longrightarrow> m' = m"
    and read_bytes: "inv m \<Longrightarrow> bus_read m a dst = (m', Ok bs) \<Longrightarrow>
        length bs = length dst \<and> bytes_at (view m) a bs \<and> (bs = [] \<or> unat a + length bs \<le> 2 ^ 64)"
    and write_keeps: "inv m \<Longrightarrow> bus_write m a bs = (m', w) \<Longrightarrow> inv m'"
    and write_fails: "inv m \<Longrightarrow> bus_write m a bs = (m', Err e) \<Longrightarrow> m' = m"
    and write_bytes: "inv m \<Longrightarrow> bus_write m a bs = (m', Ok ()) \<Longrightarrow>
        (bs = [] \<or> unat a + length bs \<le> 2 ^ 64) \<and>
        view m' = overwritten (view m) a bs"
    and write_then_read: "inv m \<Longrightarrow> bus_write m a bs = (m', Ok ()) \<Longrightarrow> length dst = length bs \<Longrightarrow>
        snd (bus_read m' a dst) = Ok bs"
begin

lemma write_view: "inv m \<Longrightarrow> bus_write m a bs = (m', Ok ()) \<Longrightarrow> view m' x = overwritten (view m) a bs x"
  using write_bytes [of m a bs m'] by simp

lemma read_after_disjoint_write:
  assumes "inv m" and w: "bus_write m a bs = (m', Ok ())"
    and r: "bus_read m b dst = (m, Ok cs)" and r': "bus_read m' b dst = (m'', Ok cs')"
    and "apart a (length bs) b (length dst)"
  shows "cs' = cs"
proof -
  from write_keeps [OF assms(1) w] have "inv m'" .
  note R = read_bytes [OF assms(1) r] and R' = read_bytes [OF this r']
  show ?thesis
  proof (rule nth_equalityI)
    show len: "length cs' = length cs" using R R' by simp
    fix i assume i: "i < length cs'"
    then have u: "unat (b + word_of_nat i) = unat b + i"
      using R' by (intro unat_offset) auto
    have "view m' (b + word_of_nat i) = Some (cs' ! i)" using R' i by (simp add: bytes_at_def)
    moreover have "view m' (b + word_of_nat i) = view m (b + word_of_nat i)"
      using assms(5) i R' u by (auto simp: write_view [OF assms(1) w] overwritten_def apart_def)
    moreover have "view m (b + word_of_nat i) = Some (cs ! i)" using R i len by (simp add: bytes_at_def)
    ultimately show "cs' ! i = cs ! i" by simp
  qed
qed

end

section \<open>Both memories meet it\<close>

definition known_byte :: "memory_byte_state option \<Rightarrow> u8 option" where
  "known_byte s = (case s of Some (Known b) \<Rightarrow> Some b | _ \<Rightarrow> None)"

lemma known_byte_simps [simp]:
  "known_byte (Some (Known b)) = Some b" "known_byte None = None" "known_byte (Some Unknown) = None"
  by (simp_all add: known_byte_def)

definition mapped_bytes :: "mapped_memory \<Rightarrow> u64 \<Rightarrow> u8 option" where
  "mapped_bytes mm a = known_byte (mapped_view mm a)"

definition hp_bytes :: "hbm_pv_memory \<Rightarrow> u64 \<Rightarrow> u8 option" where
  "hp_bytes m a = Some (pv_read_byte (hp_store m) a)"

lemma mapped_bus_laws:
  assumes "mapped_ok mm" and "mapped_write_known_at mm a bs = (mm', res)"
  shows "mapped_ok mm'"
    and "res = Err e \<Longrightarrow> mm' = mm"
    and "res = Ok () \<Longrightarrow> bs \<noteq> [] \<and> unat a + length bs < 2 ^ 64"
    and "res = Ok () \<Longrightarrow> mapped_bytes mm' = overwritten (mapped_bytes mm) a bs"
    and "res = Ok () \<Longrightarrow> mapped_read_known_at (\<lambda>_. True) mm' a (length bs) = Ok bs"
proof -
  have sp: "sparse_ok (mapped_sparse mm)" and bs_ok: "bindings_ok (regions (mapped_sparse mm)) (mapped_bindings mm)"
    using assms(1) by (simp_all add: mapped_ok_def)
  show "mapped_ok mm'"
    using assms(2) by (cases rule: mapped_write_known_at_cases [OF assms(1)])
      (auto intro: mapped_forward_ok [OF assms(1)] assms(1))
  show "res = Err e \<Longrightarrow> mm' = mm"
    using assms(2) by (cases rule: mapped_write_known_at_cases [OF assms(1)]) auto
  assume r: "res = Ok ()"
  from assms(2) obtain b m' where b: "bs \<noteq> []" "b \<in> set (mapped_bindings mm)"
      "in_binding b a (length bs)" "mm' = mm\<lparr>mapped_sparse := m'\<rparr>"
    and w: "sparse_write_with (mapped_sparse mm) (mapping_region b) (a - mapping_base b)
         (length bs) (\<lambda>i. Known (bs ! i)) = (m', Ok ())"
    by (cases rule: mapped_write_known_at_cases [OF assms(1)]) (use r in auto)
  have "binding_end b < 2 ^ 64" using bs_ok b(2) by (auto simp: bindings_ok_def binding_ok_def)
  with b show "bs \<noteq> [] \<and> unat a + length bs < 2 ^ 64" by (simp add: in_binding_def)
  show "mapped_bytes mm' = overwritten (mapped_bytes mm) a bs"
    by (rule ext) (simp add: mapped_bytes_def overwritten_def b(4) mapped_forward_view [OF assms(1) b(2,3) w])
  have "mapped_ok mm'" unfolding b(4) by (rule mapped_forward_ok [OF assms(1) w])
  then have "mapped_resolve mm' a (length bs) =
      Ok \<lparr>resolved_region = mapping_region b, resolved_offset = a - mapping_base b\<rparr>"
    using b by (subst mapped_resolve_Ok) auto
  then show "mapped_read_known_at (\<lambda>_. True) mm' a (length bs) = Ok bs"
    using sparse_read_after_write [OF sp, of "mapping_region b" "a - mapping_base b" bs m' "\<lambda>_. True"] w b(4)
    by (simp add: mapped_read_known_at_def sparse_write_known_def)
qed

lemma mapped_bus_read_Ok:
  assumes "mapped_ok mm" and "mapped_bus_read reserve mm a dst = (mm', Ok bs)"
  shows "mm' = mm \<and> length bs = length dst \<and> bytes_at (mapped_bytes mm) a bs \<and>
    (bs = [] \<or> unat a + length bs \<le> 2 ^ 64)"
proof -
  have r: "mapped_read_known_at reserve mm a (length dst) = Ok bs" and "mm' = mm"
    using assms(2) by (auto simp: mapped_bus_read_def split: sum.splits)
  moreover have "unat a + length dst \<le> 2 ^ 64"
    using r mapped_resolve_range [of mm a "length dst"]
    by (auto simp: mapped_read_known_at_def split: sum.splits)
  ultimately show ?thesis
    using mapped_read_known_at_Ok [OF assms(1) r] by (simp add: bytes_at_def mapped_bytes_def)
qed

interpretation mapped_bus: memory_bus "mapped_bus_read (\<lambda>_. True)" mapped_bus_write mapped_ok mapped_bytes
proof unfold_locales
  fix mm mm' :: mapped_memory and a bs e dst and r :: "mapped_memory_error + u8 list" and w :: "mapped_memory_error + unit"
  assume ok: "mapped_ok mm"
  show "mapped_bus_read (\<lambda>_. True) mm a dst = (mm', r) \<Longrightarrow> mm' = mm"
    by (simp add: mapped_bus_read_def split: sum.splits)
  show "mapped_bus_read (\<lambda>_. True) mm a dst = (mm', Ok bs) \<Longrightarrow>
      length bs = length dst \<and> bytes_at (mapped_bytes mm) a bs \<and> (bs = [] \<or> unat a + length bs \<le> 2 ^ 64)"
    using mapped_bus_read_Ok [OF ok] by blast
  show "mapped_bus_write mm a bs = (mm', w) \<Longrightarrow> mapped_ok mm'"
    unfolding mapped_bus_write_def by (rule mapped_bus_laws(1) [OF ok])
  show "mapped_bus_write mm a bs = (mm', Err e) \<Longrightarrow> mm' = mm"
    unfolding mapped_bus_write_def by (rule mapped_bus_laws(2) [OF ok]) simp_all
  assume w: "mapped_bus_write mm a bs = (mm', Ok ())"
  note laws = mapped_bus_laws [OF ok w [unfolded mapped_bus_write_def]]
  show "(bs = [] \<or> unat a + length bs \<le> 2 ^ 64) \<and> mapped_bytes mm' = overwritten (mapped_bytes mm) a bs"
    using laws(3,4) by simp
  show "length dst = length bs \<Longrightarrow> snd (mapped_bus_read (\<lambda>_. True) mm' a dst) = Ok bs"
    using laws(5) by (simp add: mapped_bus_read_def)
qed

interpretation hp_bus: memory_bus hp_bus_read hp_bus_write hp_ok hp_bytes
proof unfold_locales
  fix m m' :: hbm_pv_memory and a bs e dst and r :: "hbm_pv_memory_error + u8 list" and w :: "hbm_pv_memory_error + unit"
  assume ok: "hp_ok m"
  show "hp_bus_read m a dst = (m', r) \<Longrightarrow> m' = m"
    by (simp add: hp_bus_read_def split: if_splits)
  show "hp_bus_read m a dst = (m', Ok bs) \<Longrightarrow>
      length bs = length dst \<and> bytes_at (hp_bytes m) a bs \<and> (bs = [] \<or> unat a + length bs \<le> 2 ^ 64)"
    by (auto simp: hp_bus_read_def device_to_host_eq [OF ok] bytes_at_def hp_bytes_def
        split: if_splits sum.splits)
  show "hp_bus_write m a bs = (m', w) \<Longrightarrow> hp_ok m'"
    using ok host_to_device_spec(1) [OF ok] by (auto simp: hp_bus_write_def split: if_splits)
  show "hp_bus_write m a bs = (m', Err e) \<Longrightarrow> m' = m"
    using host_to_device_spec(3) [OF ok] by (auto simp: hp_bus_write_def split: if_splits)
  assume w: "hp_bus_write m a bs = (m', Ok ())"
  show "(bs = [] \<or> unat a + length bs \<le> 2 ^ 64) \<and> hp_bytes m' = overwritten (hp_bytes m) a bs"
  proof (cases "bs = []")
    case True
    with w show ?thesis by (auto simp: hp_bus_write_def overwritten_def fun_eq_iff)
  next
    case False
    with w have h: "host_to_device m a bs = (m', Ok ())" by (simp add: hp_bus_write_def)
    from host_to_device_spec(4,5) [OF ok h] show ?thesis
      by (auto simp: hp_bytes_def overwritten_def fun_eq_iff)
  qed
  show "length dst = length bs \<Longrightarrow> snd (hp_bus_read m' a dst) = Ok bs"
    using w host_to_device_roundtrip [OF ok] by (auto simp: hp_bus_read_def hp_bus_write_def split: if_splits)
qed

section \<open>Properties\<close>

text \<open>C8. Isolation on the device memory. A store through the bus leaves the bytes that a
  load from a disjoint range delivers as they were; the same holds of a store into the
  mapped memory.\<close>

theorem device_stores_isolated:
  assumes "hp_ok m" and "hp_bus_write m a bs = (m', Ok ())"
    and "hp_bus_read m b dst = (m, Ok cs)" "hp_bus_read m' b dst = (m', Ok cs')"
    and "apart a (length bs) b (length dst)"
  shows "cs' = cs"
  using assms by (rule hp_bus.read_after_disjoint_write)

lemma demo_device_read:
  assumes "hp_ok m" "hp_allocator m = hp_allocator demo_device"
  shows "hp_bus_read m 268435464 [0, 0] = (m, Ok (pv_bytes (hp_store m) 268435464 (length [0, 0 :: u8])))"
  using assms
  by (simp add: hp_bus_read_def device_to_host_eq demo_device_eq hbm_resolve_live_def checked_add_def)

theorem device_stores_isolated_witness:
  "\<exists>m' cs. hp_bus_write demo_device 268435460 [1, 2, 3, 4] = (m', Ok ()) \<and>
     snd (hp_bus_read demo_device 268435464 [0, 0]) = Ok cs \<and>
     snd (hp_bus_read m' 268435464 [0, 0]) = Ok cs"
proof -
  obtain m' where h: "host_to_device demo_device 268435460 [1, 2, 3, 4] = (m', Ok ())"
    using demo_device_write by blast
  then have w: "hp_bus_write demo_device 268435460 [1, 2, 3, 4] = (m', Ok ())"
    by (simp add: hp_bus_write_def)
  note R = demo_device_read [OF demo_device_ok(1) refl]
    and R' = demo_device_read [OF host_to_device_spec(1,2) [OF demo_device_ok(1) h]]
  from device_stores_isolated [OF demo_device_ok(1) w R R'] w R R' show ?thesis
    by (simp add: apart_def)
qed

end
