(* ===== verification/Ub_Memory.thy ===== *)
theory Ub_Memory
  imports Mapped_Memory
begin

text \<open>
  \<open>src/src/memory/ub.rs\<close>: the unified buffer, one sparse map of byte states under a limit on
  the number of tracked bytes, and the transfers that fill it from the mapped device
  memory. \<open>ub_state\<close> is the byte view; \<open>ub_write_segments\<close> and \<open>ub_copy_segments\<close> are shown
  to be atomic updates of it, with exact result counters.
\<close>

section \<open>State\<close>

datatype ub_memory_error =
    UbRangeOverflow
  | UbTransferLimitExceeded usize usize
  | UbTrackedLimitExceeded usize
  | UbHostAllocationFailed usize
  | UbUnknownByte u64
  | UbResultSizeOverflow
  | UbSource mapped_memory_error

record ub_transfer_result =
  segment_count :: usize
  transfer_bytes :: usize
  known_bytes :: usize
  unknown_bytes :: usize

record ub_memory =
  ub_bytes :: "(u64, memory_byte_state) btree_map"
  ub_max_tracked :: usize
  ub_max_transfer :: usize

definition ub_new :: "usize \<Rightarrow> usize \<Rightarrow> ub_memory" where
  "ub_new max_tracked max_transfer =
     \<lparr>ub_bytes = bm_empty, ub_max_tracked = max_tracked, ub_max_transfer = max_transfer\<rparr>"

section \<open>Operations\<close>

definition ub_check_range :: "ub_memory \<Rightarrow> u64 \<Rightarrow> usize \<Rightarrow> ub_memory_error + unit" where
  "ub_check_range u address len =
     (if ub_max_transfer u < len then Err (UbTransferLimitExceeded len (ub_max_transfer u))
      else case u64_try_from len of
          None \<Rightarrow> Err UbRangeOverflow
        | Some n \<Rightarrow>
            (case checked_add address n of
               None \<Rightarrow> Err UbRangeOverflow
             | Some _ \<Rightarrow> Ok ()))"

definition ub_state :: "ub_memory \<Rightarrow> u64 \<Rightarrow> memory_byte_state" where
  "ub_state u a = (case bm_get (ub_bytes u) a of Some s \<Rightarrow> s | None \<Rightarrow> Unknown)"

definition ub_read_states ::
  "(usize \<Rightarrow> bool) \<Rightarrow> ub_memory \<Rightarrow> u64 \<Rightarrow> usize \<Rightarrow> ub_memory_error + memory_byte_state list" where
  "ub_read_states reserve u address len =
     (case ub_check_range u address len of
        Err e \<Rightarrow> Err e
      | Ok _ \<Rightarrow>
          if \<not> reserve len then Err (UbHostAllocationFailed len)
          else Ok (map (\<lambda>offset. ub_state u (address + word_of_nat offset)) [0..<len]))"

fun ub_read_known_loop :: "ub_memory \<Rightarrow> u64 \<Rightarrow> usize list \<Rightarrow> ub_memory_error + u8 list" where
  "ub_read_known_loop u address [] = Ok []"
| "ub_read_known_loop u address (offset # rest) =
     (let at = address + word_of_nat offset in
      case bm_get (ub_bytes u) at of
        Some (Known v) \<Rightarrow>
          (case ub_read_known_loop u address rest of
             Err e \<Rightarrow> Err e
           | Ok vs \<Rightarrow> Ok (v # vs))
      | _ \<Rightarrow> Err (UbUnknownByte at))"

definition ub_read_known ::
  "(usize \<Rightarrow> bool) \<Rightarrow> ub_memory \<Rightarrow> u64 \<Rightarrow> usize \<Rightarrow> ub_memory_error + u8 list" where
  "ub_read_known reserve u address len =
     (case ub_check_range u address len of
        Err e \<Rightarrow> Err e
      | Ok _ \<Rightarrow>
          if \<not> reserve len then Err (UbHostAllocationFailed len)
          else ub_read_known_loop u address [0..<len])"

definition ub_within_limit :: "ub_memory \<Rightarrow> usize \<Rightarrow> bool" where
  "ub_within_limit u new =
     (case usize_checked_add (length (ub_bytes u)) new of
        None \<Rightarrow> False
      | Some n \<Rightarrow> \<not> ub_max_tracked u < n)"

definition ub_write_states ::
  "ub_memory \<Rightarrow> u64 \<Rightarrow> memory_byte_state list \<Rightarrow> ub_memory \<times> (ub_memory_error + unit)" where
  "ub_write_states u address states =
     (case ub_check_range u address (length states) of
        Err e \<Rightarrow> (u, Err e)
      | Ok _ \<Rightarrow>
          (let new = length (filter (\<lambda>offset. \<not> bm_contains (ub_bytes u) (address + word_of_nat offset))
                       [0..<length states])
           in if \<not> ub_within_limit u new then (u, Err (UbTrackedLimitExceeded (ub_max_tracked u)))
              else (u\<lparr>ub_bytes := insert_run address (length states) (\<lambda>offset. states ! offset)
                        (ub_bytes u)\<rparr>, Ok ())))"

type_synonym ub_segment = "u64 \<times> memory_byte_state list"

fun ub_scan_segments ::
  "ub_memory \<Rightarrow> ub_segment list \<Rightarrow> u64 btree_set \<Rightarrow> ub_memory_error + u64 btree_set" where
  "ub_scan_segments u [] newly = Ok newly"
| "ub_scan_segments u ((address, states) # rest) newly =
     (case ub_check_range u address (length states) of
        Err e \<Rightarrow> Err e
      | Ok _ \<Rightarrow> ub_scan_segments u rest
          (fold (\<lambda>offset s. let at = address + word_of_nat offset in
                            if bm_contains (ub_bytes u) at then s else bs_insert at s)
             [0..<length states] newly))"

fun ub_insert_segments ::
  "ub_segment list \<Rightarrow> (u64, memory_byte_state) btree_map \<Rightarrow> (u64, memory_byte_state) btree_map" where
  "ub_insert_segments [] m = m"
| "ub_insert_segments ((address, states) # rest) m =
     ub_insert_segments rest (insert_run address (length states) (\<lambda>offset. states ! offset) m)"

definition ub_write_segments ::
  "ub_memory \<Rightarrow> ub_segment list \<Rightarrow> ub_memory \<times> (ub_memory_error + unit)" where
  "ub_write_segments u segments =
     (case ub_scan_segments u segments [] of
        Err e \<Rightarrow> (u, Err e)
      | Ok newly \<Rightarrow>
          if \<not> ub_within_limit u (length newly)
          then (u, Err (UbTrackedLimitExceeded (ub_max_tracked u)))
          else (u\<lparr>ub_bytes := ub_insert_segments segments (ub_bytes u)\<rparr>, Ok ()))"

definition ub_copy_from_hbm ::
  "(usize \<Rightarrow> bool) \<Rightarrow> ub_memory \<Rightarrow> mapped_memory \<Rightarrow> u64 \<Rightarrow> u64 \<Rightarrow> usize
     \<Rightarrow> ub_memory \<times> (ub_memory_error + unit)" where
  "ub_copy_from_hbm reserve u source source_address destination_address len =
     (case ub_check_range u destination_address len of
        Err e \<Rightarrow> (u, Err e)
      | Ok _ \<Rightarrow>
          (case mapped_read_states_at reserve source source_address len of
             Err e \<Rightarrow> (u, Err (UbSource e))
           | Ok states \<Rightarrow> ub_write_states u destination_address states))"

definition is_known :: "memory_byte_state \<Rightarrow> bool" where
  "is_known s = (case s of Known _ \<Rightarrow> True | Unknown \<Rightarrow> False)"

text \<open>The loop of \<open>copy_segments\<close>: it reads every source range and counts, without writing.\<close>

fun ub_collect ::
  "(usize \<Rightarrow> bool) \<Rightarrow> ub_memory \<Rightarrow> mapped_memory \<Rightarrow> (u64 \<times> u64 \<times> usize) list
     \<Rightarrow> ub_transfer_result \<Rightarrow> ub_segment list
     \<Rightarrow> ub_memory_error + ub_transfer_result \<times> ub_segment list" where
  "ub_collect reserve u source [] result writes = Ok (result, writes)"
| "ub_collect reserve u source ((source_address, destination_address, len) # rest) result writes =
     (case ub_check_range u destination_address len of
        Err e \<Rightarrow> Err e
      | Ok _ \<Rightarrow>
      (case mapped_read_states_at reserve source source_address len of
         Err e \<Rightarrow> Err (UbSource e)
       | Ok states \<Rightarrow>
      (case usize_checked_add (segment_count result) 1 of
         None \<Rightarrow> Err UbResultSizeOverflow
       | Some segs \<Rightarrow>
      (case usize_checked_add (transfer_bytes result) len of
         None \<Rightarrow> Err UbResultSizeOverflow
       | Some moved \<Rightarrow>
      (case usize_checked_add (known_bytes result) (length (filter is_known states)) of
         None \<Rightarrow> Err UbResultSizeOverflow
       | Some known \<Rightarrow>
           ub_collect reserve u source rest
             (result\<lparr>segment_count := segs, transfer_bytes := moved, known_bytes := known\<rparr>)
             (writes @ [(destination_address, states)]))))))"

definition ub_copy_segments ::
  "(usize \<Rightarrow> bool) \<Rightarrow> ub_memory \<Rightarrow> mapped_memory \<Rightarrow> (u64 \<times> u64 \<times> usize) list
     \<Rightarrow> ub_memory \<times> (ub_memory_error + ub_transfer_result)" where
  "ub_copy_segments reserve u source segments =
     (case ub_collect reserve u source segments
             \<lparr>segment_count = 0, transfer_bytes = 0, known_bytes = 0, unknown_bytes = 0\<rparr> [] of
        Err e \<Rightarrow> (u, Err e)
      | Ok (result, writes) \<Rightarrow>
          let result' = result\<lparr>unknown_bytes := transfer_bytes result - known_bytes result\<rparr> in
          (case ub_write_segments u writes of
             (u', Err e) \<Rightarrow> (u', Err e)
           | (u', Ok _) \<Rightarrow> (u', Ok result')))"

section \<open>Invariant and byte view\<close>

definition ub_ok :: "ub_memory \<Rightarrow> bool" where
  "ub_ok u \<longleftrightarrow> bm_ok (ub_bytes u) \<and> length (ub_bytes u) \<le> ub_max_tracked u \<and> ub_max_tracked u < 2 ^ 64"

definition ub_update :: "ub_segment \<Rightarrow> (u64 \<Rightarrow> memory_byte_state) \<Rightarrow> u64 \<Rightarrow> memory_byte_state" where
  "ub_update seg view a =
     (case seg of (address, states) \<Rightarrow>
        if unat address \<le> unat a \<and> unat a < unat address + length states
        then states ! (unat a - unat address) else view a)"

definition ub_seg_keys :: "ub_segment list \<Rightarrow> u64 set" where
  "ub_seg_keys segs = (\<Union>(address, states)\<in>set segs. run_keys address (length states))"

lemma ub_seg_keys_simps [simp]:
  "ub_seg_keys [] = {}"
  "ub_seg_keys ((address, states) # segs) = run_keys address (length states) \<union> ub_seg_keys segs"
  by (simp_all add: ub_seg_keys_def)

lemma ub_check_range_Ok:
  "ub_check_range u address len = Ok x \<longleftrightarrow> len \<le> ub_max_transfer u \<and> unat address + len < 2 ^ 64"
proof (cases "len < 2 ^ 64")
  case True
  then show ?thesis by (auto simp: ub_check_range_def u64_try_from_def checked_add_def)
next
  case False
  then show ?thesis by (auto simp: ub_check_range_def u64_try_from_def)
qed

lemma ub_within_limit_iff:
  "ub_max_tracked u < 2 ^ 64 \<Longrightarrow>
     ub_within_limit u new \<longleftrightarrow> length (ub_bytes u) + new \<le> ub_max_tracked u"
  by (auto simp: ub_within_limit_def usize_checked_add_def)

definition ub_fits :: "ub_memory \<Rightarrow> ub_segment \<Rightarrow> bool" where
  "ub_fits u seg = (case seg of (address, states) \<Rightarrow>
     length states \<le> ub_max_transfer u \<and> unat address + length states < 2 ^ 64)"

lemma ub_fits_all:
  "(\<forall>(a, st)\<in>set segs. length st \<le> ub_max_transfer u \<and> unat a + length st < 2 ^ 64)
     = (\<forall>seg\<in>set segs. ub_fits u seg)"
  by (simp add: ub_fits_def)

lemma ub_scan_Ok:
  assumes "ub_scan_segments u segs newly = Ok res" and "bm_ok newly"
  shows "(\<forall>seg\<in>set segs. ub_fits u seg) \<and> bm_ok res \<and>
    (\<forall>k. bs_member res k \<longleftrightarrow> bs_member newly k \<or> k \<in> ub_seg_keys segs - dom (bm_get (ub_bytes u)))"
  using assms
proof (induction u segs newly rule: ub_scan_segments.induct)
  case (2 u address states rest newly)
  let ?step = "\<lambda>offset s. let at = address + word_of_nat offset in
                 if bm_contains (ub_bytes u) at then s else bs_insert at s"
  from 2(2) obtain x where x: "ub_check_range u address (length states) = Ok x"
    by (auto split: sum.splits)
  then have fits: "length states \<le> ub_max_transfer u" "unat address + length states < 2 ^ 64"
    by (simp_all add: ub_check_range_Ok)
  have mem: "bs_member (fold ?step is s) k \<longleftrightarrow> bs_member s k \<or>
      k \<in> (\<lambda>i. address + word_of_nat i) ` set is - dom (bm_get (ub_bytes u))" for "is" s k
    by (induction "is" arbitrary: s) (auto simp: bm_contains_def Let_def)
  have ok: "bm_ok s \<Longrightarrow> bm_ok (fold ?step is s)" for "is" s
    by (induction "is" arbitrary: s) (auto simp: Let_def)
  have keys: "(\<lambda>i. address + word_of_nat i) ` set [0..<length states] = run_keys address (length states)"
    using run_keys_image [OF fits(2)] by (simp add: lessThan_atLeast0)
  from 2(1) [OF x _ ok [OF 2(3)]] 2(2) x fits show ?case
    unfolding mem keys by (auto simp: ub_fits_def)
qed simp

lemma ub_scan_total:
  "\<forall>seg\<in>set segs. ub_fits u seg \<Longrightarrow> \<exists>res. ub_scan_segments u segs newly = Ok res"
proof (induction u segs newly rule: ub_scan_segments.induct)
  case (2 u address states rest newly)
  then have "ub_check_range u address (length states) = Ok ()"
    by (simp add: ub_check_range_Ok ub_fits_def)
  with 2 show ?case by simp
qed simp

lemma ub_insert_segments_dom:
  "\<forall>seg\<in>set segs. ub_fits u seg \<Longrightarrow>
     dom (bm_get (ub_insert_segments segs m)) = dom (bm_get m) \<union> ub_seg_keys segs"
  by (induction segs m rule: ub_insert_segments.induct) (auto simp: ub_fits_def insert_run_keys)

lemma ub_insert_segments_ok: "bm_ok m \<Longrightarrow> bm_ok (ub_insert_segments segs m)"
  by (induction segs m rule: ub_insert_segments.induct) (auto intro: insert_run_ok)

lemma ub_insert_segments_view:
  "\<forall>seg\<in>set segs. ub_fits u seg \<Longrightarrow>
     ub_state (u\<lparr>ub_bytes := ub_insert_segments segs m\<rparr>) = fold ub_update segs (ub_state (u\<lparr>ub_bytes := m\<rparr>))"
proof (induction segs m rule: ub_insert_segments.induct)
  case (2 address states rest m)
  then have "ub_state (u\<lparr>ub_bytes := insert_run address (length states) (\<lambda>i. states ! i) m\<rparr>)
      = ub_update (address, states) (ub_state (u\<lparr>ub_bytes := m\<rparr>))"
    by (auto simp: fun_eq_iff ub_state_def ub_update_def ub_fits_def insert_run_get run_keys_def)
  with 2 show ?case by simp
qed simp

lemma ub_write_segments_Ok:
  assumes "ub_ok u"
  shows "ub_write_segments u segs = (u', Ok ()) \<longleftrightarrow>
    (\<forall>seg\<in>set segs. ub_fits u seg) \<and>
    card (dom (bm_get (ub_bytes u)) \<union> ub_seg_keys segs) \<le> ub_max_tracked u \<and>
    u' = u\<lparr>ub_bytes := ub_insert_segments segs (ub_bytes u)\<rparr>"
proof (cases "ub_scan_segments u segs []")
  case (Inl e)
  then have "\<not> (\<forall>seg\<in>set segs. ub_fits u seg)"
    using ub_scan_total [of segs u "[]"] by auto
  with Inl show ?thesis by (auto simp: ub_write_segments_def)
next
  case (Inr newly)
  let ?D = "dom (bm_get (ub_bytes u))"
  note scan = ub_scan_Ok [OF Inr bm_ok_Nil]
  then have fit: "\<forall>seg\<in>set segs. ub_fits u seg" and ok: "bm_ok newly"
    and keys: "{k. bs_member newly k} = ub_seg_keys segs - ?D" by auto
  have fin: "finite (ub_seg_keys segs - ?D)" unfolding keys [symmetric] bs_member_elements by simp
  have "card (?D \<union> ub_seg_keys segs) = card (?D \<union> (ub_seg_keys segs - ?D))" by simp
  also have "\<dots> = card ?D + card (ub_seg_keys segs - ?D)"
    by (rule card_Un_disjoint) (auto simp: fin btree.finite_dom)
  also have "card ?D = length (ub_bytes u)" using assms by (simp add: ub_ok_def length_bm)
  also have "card (ub_seg_keys segs - ?D) = length newly"
    using bs_length [OF ok] by (simp add: keys)
  finally have card: "card (?D \<union> ub_seg_keys segs) = length (ub_bytes u) + length newly" .
  have "ub_max_tracked u < 2 ^ 64" using assms by (simp add: ub_ok_def)
  from ub_within_limit_iff [OF this] show ?thesis
    using Inr fit by (auto simp: ub_write_segments_def card)
qed

lemma ub_write_segments_ok [wf_intros]:
  assumes "ub_ok u" and "ub_write_segments u segs = (u', res)"
  shows "ub_ok u'"
proof (cases "res = Ok ()")
  case True
  with assms ub_write_segments_Ok [OF assms(1)]
  have fit: "\<forall>seg\<in>set segs. ub_fits u seg"
    and card: "card (dom (bm_get (ub_bytes u)) \<union> ub_seg_keys segs) \<le> ub_max_tracked u"
    and u': "u' = u\<lparr>ub_bytes := ub_insert_segments segs (ub_bytes u)\<rparr>" by auto
  from assms(1) have ok: "bm_ok (ub_insert_segments segs (ub_bytes u))"
    by (auto simp: ub_ok_def intro: ub_insert_segments_ok)
  with card assms(1) show ?thesis
    by (simp add: u' ub_ok_def length_bm ub_insert_segments_dom [OF fit])
next
  case False
  with assms(2) have "u' = u"
    by (auto simp: ub_write_segments_def split: sum.splits if_splits)
  with assms(1) show ?thesis by simp
qed

lemma ub_write_segments_fails:
  "ub_write_segments u segs = (u', Err e) \<Longrightarrow> u' = u"
  by (auto simp: ub_write_segments_def split: sum.splits if_splits)

lemma ub_write_states_single:
  assumes "ub_ok u"
  shows "ub_write_states u address states = ub_write_segments u [(address, states)]"
proof (cases "ub_check_range u address (length states)")
  case (Inl e)
  then show ?thesis by (simp add: ub_write_states_def ub_write_segments_def)
next
  case (Inr x)
  then have fit: "unat address + length states < 2 ^ 64" by (simp add: ub_check_range_Ok)
  obtain newly where scan: "ub_scan_segments u [(address, states)] [] = Ok newly"
    using Inr by simp
  note s = ub_scan_Ok [OF scan bm_ok_Nil]
  then have "{k. bs_member newly k} = run_keys address (length states) - dom (bm_get (ub_bytes u))"
    by auto
  with s bs_length [of newly] have "length newly =
      length (filter (\<lambda>offset. \<not> bm_contains (ub_bytes u) (address + word_of_nat offset)) [0..<length states])"
    by (simp add: new_run_card [OF fit])
  with Inr scan show ?thesis
    by (simp add: ub_write_states_def ub_write_segments_def del: ub_scan_segments.simps split: sum.split)
qed

lemma ub_write_states_ok [wf_intros]:
  "ub_ok u \<Longrightarrow> ub_write_states u address states = (u', res) \<Longrightarrow> ub_ok u'"
  by (simp add: ub_write_states_single ub_write_segments_ok)

section \<open>Transfers\<close>

definition reads_segment ::
  "(usize \<Rightarrow> bool) \<Rightarrow> mapped_memory \<Rightarrow> u64 \<times> u64 \<times> usize \<Rightarrow> memory_byte_state list \<Rightarrow> bool" where
  "reads_segment reserve source seg sts =
     (case seg of (s, d, n) \<Rightarrow> mapped_read_states_at reserve source s n = Ok sts)"

lemma reads_segment_simp [simp]:
  "reads_segment reserve source (s, d, n) sts \<longleftrightarrow> mapped_read_states_at reserve source s n = Ok sts"
  by (simp add: reads_segment_def)

lemma ub_collect_Ok:
  assumes "ub_collect reserve u source segs result writes = Ok (result', writes')"
  shows "\<exists>stss. list_all2 (reads_segment reserve source) segs stss \<and>
    writes' = writes @ zip (map (\<lambda>(s, d, n). d) segs) stss \<and>
    segment_count result' = segment_count result + length segs \<and>
    transfer_bytes result' = transfer_bytes result + sum_list (map (\<lambda>(s, d, n). n) segs) \<and>
    known_bytes result' = known_bytes result + sum_list (map (length \<circ> filter is_known) stss) \<and>
    unknown_bytes result' = unknown_bytes result"
  using assms
proof (induction reserve u source segs result writes rule: ub_collect.induct)
  case (1 reserve u source result writes)
  then show ?case by (intro exI [of _ "[]"]) auto
next
  case (2 reserve u source s d n rest result writes)
  from 2(2) obtain x states a b c where
    read: "ub_check_range u d n = Ok x" "mapped_read_states_at reserve source s n = Ok states"
      "usize_checked_add (segment_count result) 1 = Some a"
      "usize_checked_add (transfer_bytes result) n = Some b"
      "usize_checked_add (known_bytes result) (length (filter is_known states)) = Some c"
    by (auto split: sum.splits option.splits)
  with 2(2) have tail: "ub_collect reserve u source rest
      (result\<lparr>segment_count := a, transfer_bytes := b, known_bytes := c\<rparr>) (writes @ [(d, states)])
      = Ok (result', writes')" by simp
  from 2(1) [OF read tail] obtain stss where
    "list_all2 (reads_segment reserve source) rest stss"
    "writes' = (writes @ [(d, states)]) @ zip (map (\<lambda>(s, d, n). d) rest) stss"
    "segment_count result' = a + length rest"
    "transfer_bytes result' = b + sum_list (map (\<lambda>(s, d, n). n) rest)"
    "known_bytes result' = c + sum_list (map (length \<circ> filter is_known) stss)"
    "unknown_bytes result' = unknown_bytes result" by (auto simp del: map_map comp_apply)
  with read show ?case
    by (intro exI [of _ "states # stss"]) (simp add: usize_checked_add_Some comp_def)
qed

lemma mapped_read_states_length:
  "mapped_read_states_at reserve source s n = Ok sts \<Longrightarrow> length sts = n"
  by (auto simp: mapped_read_states_at_def sparse_read_states_def split: sum.splits if_splits)

lemma known_le_bytes:
  "list_all2 (reads_segment reserve source) segs stss \<Longrightarrow>
     sum_list (map (length \<circ> filter is_known) stss) \<le> sum_list (map (\<lambda>(s, d, n). n) segs)"
proof (induction rule: list_all2_induct)
  case (Cons x xs y ys)
  then have "length (filter is_known y) \<le> (case x of (s, d, n) \<Rightarrow> n)"
    using length_filter_le [of is_known y] mapped_read_states_length by (cases x) (fastforce simp: reads_segment_def)
  with Cons show ?case by (cases x) simp
qed simp

section \<open>Properties\<close>

text \<open>C9. Writing a batch of segments is atomic and is the last-writer-wins update of the byte
  view. It succeeds exactly when every segment is within the transfer limit and ends below
  \<open>2 ^ 64\<close>, and the bytes tracked already together with all the bytes of the batch, each
  address counted once, are within the limit on tracked bytes. On success the states are
  those of the segments applied in order; on an error nothing changes. A single write is the
  batch of one.\<close>

theorem ub_write_segments_refines:
  assumes "ub_ok u" and "ub_write_segments u segs = (u', res)"
  shows "ub_ok u'
    \<and> (res = Ok () \<longleftrightarrow>
         (\<forall>(a, st)\<in>set segs. length st \<le> ub_max_transfer u \<and> unat a + length st < 2 ^ 64) \<and>
         card (dom (bm_get (ub_bytes u)) \<union> (\<Union>(a, st)\<in>set segs. run_keys a (length st)))
           \<le> ub_max_tracked u)
    \<and> (case res of Ok _ \<Rightarrow> ub_state u' = fold ub_update segs (ub_state u)
                | Err _ \<Rightarrow> u' = u)
    \<and> ub_write_states u address states = ub_write_segments u [(address, states)]"
proof (intro conjI)
  note Ok = ub_write_segments_Ok [OF assms(1), of segs, folded ub_fits_all, unfolded ub_seg_keys_def]
  show "ub_ok u'" by (rule ub_write_segments_ok [OF assms])
  show "res = Ok () \<longleftrightarrow>
         (\<forall>(a, st)\<in>set segs. length st \<le> ub_max_transfer u \<and> unat a + length st < 2 ^ 64) \<and>
         card (dom (bm_get (ub_bytes u)) \<union> (\<Union>(a, st)\<in>set segs. run_keys a (length st)))
           \<le> ub_max_tracked u"
    using assms(2) Ok [of u'] Ok [of "u\<lparr>ub_bytes := ub_insert_segments segs (ub_bytes u)\<rparr>"] by auto
  show "case res of Ok _ \<Rightarrow> ub_state u' = fold ub_update segs (ub_state u) | Err _ \<Rightarrow> u' = u"
  proof (cases res)
    case (Inl e)
    with assms ub_write_segments_fails [of u segs u' e] show ?thesis by simp
  next
    case (Inr x)
    with assms ub_write_segments_Ok [OF assms(1)] have "\<forall>seg\<in>set segs. ub_fits u seg"
      "u' = u\<lparr>ub_bytes := ub_insert_segments segs (ub_bytes u)\<rparr>" by simp_all
    with ub_insert_segments_view [of segs u "ub_bytes u"] Inr assms(1) show ?thesis by simp
  qed
  show "ub_write_states u address states = ub_write_segments u [(address, states)]"
    by (rule ub_write_states_single [OF assms(1)])
qed

definition demo_ub :: ub_memory where
  "demo_ub = ub_new 4 4"

lemma demo_ub_ok: "ub_ok demo_ub"
  by (simp add: demo_ub_def ub_new_def ub_ok_def bm_empty_def)

lemma demo_ub_write:
  "ub_write_segments demo_ub [(8, [Known 1, Known 2]), (9, [Known 3])] =
     (demo_ub\<lparr>ub_bytes := [(8, Known 1), (9, Known 3)]\<rparr>, Ok ())"
  by (simp add: ub_write_segments_def demo_ub_def ub_new_def bm_empty_def ub_check_range_def
      u64_try_from_def checked_add_def ub_within_limit_def usize_checked_add_def insert_run_def
      bm_contains_def bs_insert_def Let_def upt_rec)

theorem ub_write_segments_refines_witness:
  "ub_state (demo_ub\<lparr>ub_bytes := [(8, Known 1), (9, Known 3)]\<rparr>) 9 = Known 3"
  using ub_write_segments_refines [OF demo_ub_ok demo_ub_write] by (simp add: ub_update_def)

text \<open>A transfer from the mapped memory is all or nothing: every source range is read from
  the memory as it is before any write, the destination is updated to the states read, in
  segment order, and the result counts exactly the segments, the bytes, the known bytes and
  the unknown ones. On an error the buffer is unchanged.\<close>

theorem ub_copy_segments_exact:
  assumes "ub_ok u" and "ub_copy_segments reserve u source segs = (u', res)"
  shows "ub_ok u' \<and> (case res of
     Err _ \<Rightarrow> u' = u
   | Ok r \<Rightarrow> \<exists>stss. list_all2 (reads_segment reserve source) segs stss \<and>
       ub_state u' = fold ub_update (zip (map (\<lambda>(s, d, n). d) segs) stss) (ub_state u) \<and>
       segment_count r = length segs \<and> transfer_bytes r = sum_list (map length stss) \<and>
       known_bytes r = sum_list (map (length \<circ> filter is_known) stss) \<and>
       known_bytes r + unknown_bytes r = transfer_bytes r)"
proof (cases "ub_collect reserve u source segs
      \<lparr>segment_count = 0, transfer_bytes = 0, known_bytes = 0, unknown_bytes = 0\<rparr> []")
  case (Inl e)
  with assms show ?thesis by (auto simp: ub_copy_segments_def)
next
  case (Inr rw)
  obtain result writes where rw: "rw = (result, writes)" by fastforce
  from ub_collect_Ok [OF Inr [unfolded rw]] obtain stss where
    reads: "list_all2 (reads_segment reserve source) segs stss"
    and w: "writes = zip (map (\<lambda>(s, d, n). d) segs) stss"
    and counts: "segment_count result = length segs"
      "transfer_bytes result = sum_list (map (\<lambda>(s, d, n). n) segs)"
      "known_bytes result = sum_list (map (length \<circ> filter is_known) stss)" by auto
  have total: "sum_list (map (\<lambda>(s, d, n). n) segs) = sum_list (map length stss)"
    using reads by (induction rule: list_all2_induct)
      (auto simp: reads_segment_def dest: mapped_read_states_length)
  obtain u2 r2 where uw: "ub_write_segments u writes = (u2, r2)" by fastforce
  note ok = ub_write_segments_ok [OF assms(1) uw]
  show ?thesis
  proof (cases r2)
    case (Inl e)
    with assms Inr rw uw ub_write_segments_fails [of u writes u2 e] show ?thesis
      by (auto simp: ub_copy_segments_def)
  next
    case (Inr x)
    with uw ub_write_segments_Ok [OF assms(1)] have "\<forall>seg\<in>set writes. ub_fits u seg"
      "u2 = u\<lparr>ub_bytes := ub_insert_segments writes (ub_bytes u)\<rparr>" by simp_all
    with ub_insert_segments_view [of writes u "ub_bytes u"]
    have view: "ub_state u2 = fold ub_update writes (ub_state u)" by simp
    have "u' = u2" "res = Ok (result\<lparr>unknown_bytes := transfer_bytes result - known_bytes result\<rparr>)"
      using assms(2) \<open>ub_collect _ _ _ _ _ _ = Inr rw\<close> rw uw Inr
      by (auto simp: ub_copy_segments_def Let_def)
    with ok reads view counts w total known_le_bytes [OF reads] show ?thesis by auto
  qed
qed

lemma demo_ub_copy:
  "ub_copy_segments (\<lambda>_. True) demo_ub demo_mapped [(33, 0, 2), (17, 1, 1)] =
     (demo_ub\<lparr>ub_bytes := [(0, Known 2), (1, Unknown)]\<rparr>,
      Ok \<lparr>segment_count = 2, transfer_bytes = 3, known_bytes = 2, unknown_bytes = 1\<rparr>)"
  by (simp add: ub_copy_segments_def ub_write_segments_def demo_ub_def ub_new_def bm_empty_def
      ub_check_range_def u64_try_from_def checked_add_def ub_within_limit_def usize_checked_add_def
      insert_run_def bm_contains_def bs_insert_def Let_def upt_rec mapped_read_states_at_def
      mapped_resolve_def demo_mapped_def binding_covers_def sparse_read_states_def check_range_def
      demo_memory_def sparse_new_def region_unknown_def byte_state_def prefix_state_def
      usize_try_from_def is_known_def)

theorem ub_copy_segments_exact_witness:
  "ub_ok (demo_ub\<lparr>ub_bytes := [(0, Known 2), (1, Unknown)]\<rparr>)"
  using ub_copy_segments_exact [OF demo_ub_ok demo_ub_copy] by blast

end
