(* ===== verification/Rust_Std.thy ===== *)
theory Rust_Std
  imports Prelude "HOL-Library.Signed_Division"
begin

text \<open>
  The integer methods of the Rust standard library that the scalar unit calls, on words: an
  \<open>i64\<close> is a \<open>u64\<close> read with \<open>sint\<close>. A panic of the source (an index out of bounds, an
  \<open>unreachable!\<close>) is the value \<open>Panic\<close> of \<open>fault\<close>, beside the errors the code returns.
\<close>

unbundle bit_operations_syntax

section \<open>Errors and panics\<close>

datatype 'e fault = Fail 'e | Panic

definition and_then :: "'e + 'a \<Rightarrow> ('a \<Rightarrow> 'e + 'b) \<Rightarrow> 'e + 'b" where
  "and_then r f = (case r of Inl e \<Rightarrow> Err e | Inr v \<Rightarrow> f v)"

lemma and_then_simps [simp]: "and_then (Err e) f = Err e" "and_then (Ok v) f = f v"
  by (simp_all add: and_then_def)

lemma and_then_Ok: "and_then r f = Ok y \<longleftrightarrow> (\<exists>x. r = Ok x \<and> f x = Ok y)"
  by (cases r) auto

lemma and_then_Err: "and_then r f = Err e \<longleftrightarrow> r = Err e \<or> (\<exists>x. r = Ok x \<and> f x = Err e)"
  by (cases r) auto

section \<open>Bit fields\<close>

text \<open>\<open>(word >> shift) & mask\<close> and the test \<open>word & mask != 0\<close>.\<close>

definition field :: "'w::len word \<Rightarrow> nat \<Rightarrow> 'w word \<Rightarrow> 'w word" where
  "field word shift m = drop_bit shift word AND m"

definition test :: "'w::len word \<Rightarrow> 'w word \<Rightarrow> bool" where
  "test word m \<longleftrightarrow> word AND m \<noteq> 0"

section \<open>Counting bits\<close>

definition count_ones :: "'w::len word \<Rightarrow> nat" where
  "count_ones w = length (filter (bit w) [0..<LENGTH('w)])"

definition count_zeros :: "'w::len word \<Rightarrow> nat" where
  "count_zeros w = count_ones (NOT w)"

definition trailing_zeros :: "'w::len word \<Rightarrow> nat" where
  "trailing_zeros w =
     (case position (bit w) [0..<LENGTH('w)] of Some i \<Rightarrow> i | None \<Rightarrow> LENGTH('w))"

definition trailing_ones :: "'w::len word \<Rightarrow> nat" where
  "trailing_ones w = trailing_zeros (NOT w)"

definition leading_zeros :: "'w::len word \<Rightarrow> nat" where
  "leading_zeros w =
     (case position (bit w) (rev [0..<LENGTH('w)]) of Some i \<Rightarrow> i | None \<Rightarrow> LENGTH('w))"

definition leading_ones :: "'w::len word \<Rightarrow> nat" where
  "leading_ones w = leading_zeros (NOT w)"

lemma trailing_zeros_full: "trailing_zeros w = LENGTH('w) \<longleftrightarrow> w = 0" for w :: "'w::len word"
  by (auto simp: trailing_zeros_def position_None position_Some split: option.splits)
    (auto intro!: bit_word_eqI)

lemma trailing_zeros_spec:
  fixes w :: "'w::len word"
  assumes "w \<noteq> 0"
  shows "trailing_zeros w < LENGTH('w) \<and> bit w (trailing_zeros w) \<and>
    (\<forall>j<trailing_zeros w. \<not> bit w j)"
proof -
  have "position (bit w) [0..<LENGTH('w)] \<noteq> None"
    using assms by (auto simp: position_None intro!: bit_word_eqI)
  then obtain i where p: "position (bit w) [0..<LENGTH('w)] = Some i" by blast
  then have "trailing_zeros w = i" by (simp add: trailing_zeros_def)
  with p [unfolded position_Some] show ?thesis by auto
qed

lemma leading_zeros_spec:
  fixes w :: "'w::len word"
  shows "leading_zeros w \<le> LENGTH('w) \<and> (\<forall>j<LENGTH('w). LENGTH('w) - leading_zeros w \<le> j \<longrightarrow> \<not> bit w j) \<and>
    (leading_zeros w < LENGTH('w) \<longrightarrow> bit w (LENGTH('w) - 1 - leading_zeros w))"
proof (cases "position (bit w) (rev [0..<LENGTH('w)])")
  case None
  then have "leading_zeros w = LENGTH('w)" by (simp add: leading_zeros_def)
  with None [unfolded position_None] show ?thesis by simp
next
  case (Some i)
  then have l: "leading_zeros w = i" by (simp add: leading_zeros_def)
  from Some [unfolded position_Some] have i: "i < LENGTH('w)" "bit w (LENGTH('w) - 1 - i)"
    and below: "\<And>k. k < i \<Longrightarrow> \<not> bit w (LENGTH('w) - 1 - k)"
    by (auto simp: rev_nth)
  have "\<not> bit w j" if "j < LENGTH('w)" "LENGTH('w) - i \<le> j" for j
    using below [of "LENGTH('w) - 1 - j"] that i(1) by simp
  with i l show ?thesis by simp
qed

section \<open>Arithmetic on signed words\<close>

definition i64_min :: u64 where
  "i64_min = push_bit 63 1"

definition i64_max :: u64 where
  "i64_max = NOT i64_min"

definition overflows :: "int \<Rightarrow> bool" where
  "overflows i \<longleftrightarrow> i < - (2 ^ 63) \<or> 2 ^ 63 \<le> i"

definition overflowing_add :: "u64 \<Rightarrow> u64 \<Rightarrow> u64 \<times> bool" where
  "overflowing_add a b = (a + b, overflows (sint a + sint b))"

definition overflowing_sub :: "u64 \<Rightarrow> u64 \<Rightarrow> u64 \<times> bool" where
  "overflowing_sub a b = (a - b, overflows (sint a - sint b))"

definition overflowing_mul :: "u64 \<Rightarrow> u64 \<Rightarrow> u64 \<times> bool" where
  "overflowing_mul a b = (a * b, overflows (sint a * sint b))"

text \<open>\<open>i64 / i64\<close> and \<open>i64 % i64\<close>, which truncate towards zero, on the operands for which they
  are defined.\<close>

definition i64_div :: "u64 \<Rightarrow> u64 \<Rightarrow> u64" where
  "i64_div a b = word_of_int (sint a sdiv sint b)"

definition i64_rem :: "u64 \<Rightarrow> u64 \<Rightarrow> u64" where
  "i64_rem a b = word_of_int (sint a smod sint b)"

definition checked_div :: "u64 \<Rightarrow> u64 \<Rightarrow> u64 option" where
  "checked_div a b = (if b = 0 then None else Some (a div b))"

definition checked_rem :: "u64 \<Rightarrow> u64 \<Rightarrow> u64 option" where
  "checked_rem a b = (if b = 0 then None else Some (a mod b))"

definition unsigned_abs :: "u64 \<Rightarrow> u64" where
  "unsigned_abs a = (if sint a < 0 then - a else a)"

fun isqrt_nat :: "nat \<Rightarrow> nat" where
  "isqrt_nat n =
     (if n = 0 then 0
      else let r = 2 * isqrt_nat (n div 4) in if (r + 1) * (r + 1) \<le> n then r + 1 else r)"

declare isqrt_nat.simps [simp del]

definition isqrt :: "u64 \<Rightarrow> u64" where
  "isqrt w = word_of_nat (isqrt_nat (unat w))"

lemma sint_range64: "- (2 ^ 63) \<le> sint (w :: u64) \<and> sint w < 2 ^ 63"
  using sint_ge [of w] sint_lt [of w] by simp

lemma sint_of_int64: "\<not> overflows i \<Longrightarrow> sint (word_of_int i :: u64) = i"
  by (simp add: overflows_def signed_of_int signed_take_bit_int_eq_self)

lemma overflowing_add_exact:
  "overflowing_add a b = (v, False) \<Longrightarrow> sint v = sint a + sint b"
proof -
  assume "overflowing_add a b = (v, False)"
  then have v: "v = word_of_int (sint a + sint b)" "\<not> overflows (sint a + sint b)"
    by (auto simp: overflowing_add_def)
  from sint_of_int64 [OF v(2)] show ?thesis unfolding v(1) .
qed

lemma overflowing_sub_exact:
  "overflowing_sub a b = (v, False) \<Longrightarrow> sint v = sint a - sint b"
proof -
  assume "overflowing_sub a b = (v, False)"
  then have v: "v = word_of_int (sint a - sint b)" "\<not> overflows (sint a - sint b)"
    by (auto simp: overflowing_sub_def)
  from sint_of_int64 [OF v(2)] show ?thesis unfolding v(1) .
qed

lemma overflowing_mul_exact:
  "overflowing_mul a b = (v, False) \<Longrightarrow> sint v = sint a * sint b"
proof -
  assume "overflowing_mul a b = (v, False)"
  then have v: "v = word_of_int (sint a * sint b)" "\<not> overflows (sint a * sint b)"
    by (auto simp: overflowing_mul_def)
  from sint_of_int64 [OF v(2)] show ?thesis unfolding v(1) .
qed

lemma isqrt_nat_spec: "isqrt_nat n * isqrt_nat n \<le> n \<and> n < (isqrt_nat n + 1) * (isqrt_nat n + 1)"
proof (induction n rule: isqrt_nat.induct)
  case (1 n)
  show ?case
  proof (cases "n = 0")
    case True
    then show ?thesis by (simp add: isqrt_nat.simps)
  next
    case False
    let ?q = "isqrt_nat (n div 4)"
    from 1 [OF False] have q: "?q * ?q \<le> n div 4" "n div 4 < (?q + 1) * (?q + 1)" by blast+
    then have lo: "(2 * ?q) * (2 * ?q) \<le> n" and hi: "n < (2 * ?q + 2) * (2 * ?q + 2)"
      by (simp_all add: algebra_simps) linarith+
    show ?thesis
      using lo hi False by (subst (1 2 3 4) isqrt_nat.simps) (auto simp: Let_def algebra_simps)
  qed
qed

section \<open>Little-endian bytes\<close>

definition to_le_bytes :: "u64 \<Rightarrow> u8 list" where
  "to_le_bytes w = map (\<lambda>i. ucast (drop_bit (8 * i) w)) [0..<8]"

fun from_le_bytes :: "u8 list \<Rightarrow> u64" where
  "from_le_bytes [] = 0"
| "from_le_bytes (b # bs) = ucast b OR push_bit 8 (from_le_bytes bs)"

lemma length_to_le_bytes [simp]: "length (to_le_bytes w) = 8"
  by (simp add: to_le_bytes_def)

lemma bit_from_le_bytes:
  "bit (from_le_bytes bs) k \<longleftrightarrow> k < 64 \<and> k div 8 < length bs \<and> bit (bs ! (k div 8)) (k mod 8)"
proof (induction bs arbitrary: k)
  case (Cons b bs)
  show ?case
  proof (cases "k < 8")
    case True
    then show ?thesis by (auto simp: bit_simps)
  next
    case False
    then have "k div 8 = Suc ((k - 8) div 8)" "k mod 8 = (k - 8) mod 8"
      by (simp_all add: le_div_geq le_mod_geq)
    with False Cons [of "k - 8"] show ?thesis
      by (auto simp: bit_simps dest: bit_imp_le_length)
  qed
qed simp

lemma from_to_le_bytes:
  assumes "n \<le> 8"
  shows "from_le_bytes (take n (to_le_bytes w) @ replicate (8 - n) 0) = take_bit (8 * n) w"
proof (rule bit_word_eqI)
  fix k assume "k < LENGTH(64)"
  then have k: "k < 64" by simp
  have "(take n (to_le_bytes w) @ replicate (8 - n) 0) ! (k div 8) =
      (if k div 8 < n then ucast (drop_bit (8 * (k div 8)) w) else 0)"
    using assms k by (auto simp: nth_append to_le_bytes_def)
  moreover have "8 * (k div 8) + k mod 8 = k" by simp
  moreover have "k div 8 < n \<longleftrightarrow> k < 8 * n" by linarith
  ultimately show "bit (from_le_bytes (take n (to_le_bytes w) @ replicate (8 - n) 0)) k =
      bit (take_bit (8 * n) w) k"
    using assms k by (auto simp: bit_from_le_bytes bit_simps)
qed

section \<open>Negation, complement and sign extension\<close>

lemma sint_minus_one: "sint y = - 1 \<longleftrightarrow> y = - 1" for y :: u64
  by (metis sint_n1 signed_word_eqI)

lemma sint_i64_min: "sint i64_min = - (2 ^ 63)"
  by (simp add: i64_min_def)

lemma sint_neg64:
  fixes x :: u64
  shows "x \<noteq> i64_min \<Longrightarrow> sint (- x) = - sint x" and "overflows (- sint x) \<longleftrightarrow> x = i64_min"
proof -
  have m: "sint x = - (2 ^ 63) \<longleftrightarrow> x = i64_min" using sint_i64_min by (metis signed_word_eqI)
  then show o: "overflows (- sint x) \<longleftrightarrow> x = i64_min"
    using sint_range64 [of x] by (auto simp: overflows_def)
  assume "x \<noteq> i64_min"
  then have "sint (word_of_int (- sint x) :: u64) = - sint x" using o by (intro sint_of_int64) simp
  then show "sint (- x) = - sint x" by simp
qed

lemma uint_nonneg64: "0 \<le> sint x \<Longrightarrow> uint x = sint x" for x :: u64
  using sint_range64 [of x] by (simp add: uint_sint take_bit_int_eq_self)

lemma uint_neg64: "sint x < 0 \<Longrightarrow> uint (- x) = - sint x" for x :: u64
proof -
  assume "sint x < 0"
  then have "uint (word_of_int (- sint x) :: u64) = - sint x"
    using sint_range64 [of x] by (simp add: uint_word_of_int del: of_int_minus of_int_sint)
  then show ?thesis by simp
qed

lemma uint_unsigned_abs: "uint (unsigned_abs x) = \<bar>sint x\<bar>"
  using uint_nonneg64 [of x] uint_neg64 [of x] by (auto simp: unsigned_abs_def)

lemma sint_not64: "sint (NOT x) = - sint x - 1" for x :: u64
  using sint_range64 [of x]
  by (simp add: signed_not_eq not_int_def signed_take_bit_int_eq_self)

lemma sign_extend64:
  fixes x :: u64
  assumes "0 < w" "w \<le> 64"
  shows "sint (signed_drop_bit (64 - w) (push_bit (64 - w) x)) = signed_take_bit (w - 1) (sint x)"
proof (rule bit_eqI)
  fix k
  obtain n where n: "w = Suc n" "n \<le> 63" using assms by (cases w) auto
  show "bit (sint (signed_drop_bit (64 - w) (push_bit (64 - w) x))) k =
     bit (signed_take_bit (w - 1) (sint x)) k"
    using n by (cases "k = n"; cases "n = 63") (auto simp: bit_simps min_def not_less)
qed

end
