(* ===== verification/Scalar_Isa.thy ===== *)
theory Scalar_Isa
  imports Rust_Std Hbm
begin

text \<open>
  \<open>src/src/isa/class.rs\<close> and \<open>src/src/isa/scalar.rs\<close>: the instruction class of a 32-bit
  word and the decoder of the scalar instructions. The arms of \<open>from_word\<close> are definitions
  of their own, tried in the order of the source; register numbers are \<open>u8\<close>, signed offsets
  words of their width. \<open>instr_ok\<close> bounds every decoded field.
\<close>

section \<open>Instruction classes\<close>

datatype aic_class =
    AicScalar | AicFlowControl | AicMemoryTransfer | AicVector | AicFixp | AicCube
  | AicUnregistered u8

definition aic_from_word :: "u32 \<Rightarrow> aic_class" where
  "aic_from_word word =
     (let k = (ucast (drop_bit 29 word) :: u8) in
      if k = 0 then AicScalar
      else if k = 2 then AicFlowControl
      else if k = 3 then AicMemoryTransfer
      else if k = 4 then AicVector
      else if k = 6 then AicFixp
      else if k = 7 then AicCube
      else AicUnregistered k)"

section \<open>Instructions\<close>

type_synonym i8 = "8 word"
type_synonym i16 = "16 word"

datatype scalar_bit_count_operation = Zeros | Ones | LeadingZeros | LeadingSignBits

datatype scalar_key8_operation = AddImmediate | MultiplyImmediate | SubtractImmediate | DcPreload

datatype scalar_key0_operation =
    Key0Add | Key0Subtract | Key0Multiply | Key0MultiplyAdd | Key0Divide | Key0Remainder
  | Key0Minimum | Key0Maximum | Key0And | Key0Or | Key0Xor

datatype scalar_key7_operation = MoveImmediate | MoveKeep

datatype scalar_load_store_operation = Load | StoreOp

datatype scalar_store_immediate_value = ImmZero | ImmOne | ImmOnes

record scalar_address_effect =
  effect_address :: u64
  effect_updated_base :: "u64 option"

record scalar_direct_biu_route =
  route_address :: u64
  route_bit_24_set :: bool
  route_outside_local_window :: bool

datatype zero_extend_width = ZeroExtU8 | ZeroExtU16 | ZeroExtU32

fun zero_extend_mask :: "zero_extend_width \<Rightarrow> u64" where
  "zero_extend_mask ZeroExtU8 = 0xff"
| "zero_extend_mask ZeroExtU16 = 0xffff"
| "zero_extend_mask ZeroExtU32 = 0xffffffff"

text \<open>The fields of each constructor are in the order of the source.\<close>

datatype (plugins only: size) scalar_instruction =
    ScalarIndexedStore u8 u8 u8 u8 bool
  | ScalarIndexedLoad u8 u8 u8 u8 bool
  | ScalarIndexedImmediateStore u8 u8 u8 scalar_store_immediate_value bool
  | ScalarPairLoad u8 u8 u8 u8 u8 i8 bool
  | ScalarPairStore u8 u8 u8 u8 u8 i8
  | ScalarLoadStoreImmediate scalar_load_store_operation u8 u8 u8 u8 i16 bool "bool option"
  | ScalarStoreImmediate u8 u8 i16 bool scalar_store_immediate_value
  | ScalarKey0 scalar_key0_operation u8 u8 u8 u8
  | ScalarCompare u8 u8 u8 u8
  | ScalarCompareRegister u8 u8 u8 u8 u8
  | ScalarCompareImmediate u8 u8 u16
  | ScalarSelect u8 u8 u8 u8
  | ScalarMoveX8Immediate u8 u16
  | ScalarKey2MoveRegister u8 u8 u8
  | ScalarKey2Negate u8 u8 u8
  | ScalarKey2Absolute u8 u8 u8
  | ScalarKey2IntegerSqrt u8 u8 u8
  | ScalarKey2BitwiseNot u8 u8 u8
  | ScalarKey2MoveFromSpr u8 u16
  | ScalarKey2MoveToSpr u16 u8
  | ScalarKey2ZeroExtend zero_extend_width u8 u8
  | ScalarKey2SignExtend u8 u8 u8
  | ScalarKey2ShiftLeft u8 u8 "u8 option" u8
  | ScalarKey2ShiftRight u8 u8 "u8 option" u8
  | ScalarKey2FindFirst u8 u8 bool
  | ScalarKey2BitCount scalar_bit_count_operation u8 u8
  | ScalarKey2Insert u8 u8 u8 u8
  | ScalarKey2InsertImmediate u8 u8 u8 bool
  | ScalarKey2BitSet u8 u8 bool
  | ScalarKey7 scalar_key7_operation u8 u16 "u8 option"
  | ScalarKey8 scalar_key8_operation "u8 option" u8 u16

definition direct_biu_route :: "scalar_address_effect \<Rightarrow> u64 \<Rightarrow> scalar_direct_biu_route option" where
  "direct_biu_route effect local_window_base =
     (let window_mask = 0x1fffffe000000;
          bit_24_set = test (effect_address effect) 0x1000000;
          outside = effect_address effect AND window_mask \<noteq> local_window_base AND window_mask
      in if bit_24_set \<or> outside
         then Some \<lparr>route_address = effect_address effect, route_bit_24_set = bit_24_set,
                    route_outside_local_window = outside\<rparr>
         else None)"

definition address_effect :: "scalar_instruction \<Rightarrow> u64 \<Rightarrow> scalar_address_effect option" where
  "address_effect i base =
     (case i of
        ScalarLoadStoreImmediate _ _ _ _ _ signed_offset post_index _ \<Rightarrow>
          let adjusted = base + scast signed_offset in
          Some (if post_index then \<lparr>effect_address = base, effect_updated_base = Some adjusted\<rparr>
                else \<lparr>effect_address = adjusted, effect_updated_base = None\<rparr>)
      | _ \<Rightarrow> None)"

section \<open>Decoding\<close>

definition reg5 :: "u32 \<Rightarrow> nat \<Rightarrow> u8" where
  "reg5 word shift = ucast (field word shift 0x1f)"

definition width_field :: "u32 \<Rightarrow> u8" where
  "width_field word = push_bit (unat (field word 22 3)) 1"

definition dtype_bits :: "u32 \<Rightarrow> u8" where
  "dtype_bits word = ucast (field word 22 3)"

definition opcode :: "u32 \<Rightarrow> u32" where
  "opcode word = field word 24 0x1f"

definition key2_op :: "u32 \<Rightarrow> u32" where
  "key2_op word = field word 7 0x1f"

record c220_scalar_device_load =
  device_destination_register :: u8
  device_base_register :: u8
  device_width_bytes :: u8
  device_offset_bytes :: i16

definition device_load_decode :: "u32 \<Rightarrow> c220_scalar_device_load option" where
  "device_load_decode word =
     (if drop_bit 29 word \<noteq> 0 \<or> field word 25 0xf \<noteq> 13 then None
      else Some \<lparr>device_destination_register = reg5 word 17, device_base_register = reg5 word 12,
                 device_width_bytes = width_field word,
                 device_offset_bytes = signed_drop_bit 4 (push_bit 4 (ucast word))\<rparr>)"

definition load_store_hint ::
  "u32 \<Rightarrow> scalar_load_store_operation \<Rightarrow> bool \<Rightarrow> bool option \<Rightarrow> scalar_instruction" where
  "load_store_hint word operation post_index sign_extend =
     (let raw_offset = (ucast (word AND 0xfff) :: i16) in
      ScalarLoadStoreImmediate operation (dtype_bits word) (width_field word) (reg5 word 17)
        (reg5 word 12) (if test raw_offset 0x800 then raw_offset - 4096 else raw_offset)
        post_index sign_extend)"

text \<open>The three register fields of \<open>key-0\<close> words; the C220 extends each by one bit.\<close>

definition key0_registers :: "architecture \<Rightarrow> u32 \<Rightarrow> u8 \<times> u8 \<times> u8" where
  "key0_registers arch word =
     (if arch = Dav2201
      then (reg5 word 17 OR ucast (drop_bit 1 word AND 0x20),
            reg5 word 12 OR ucast (word AND 0x20),
            reg5 word 7 OR ucast (push_bit 1 word AND 0x20))
      else (reg5 word 17, reg5 word 12, reg5 word 7))"

definition key2_registers :: "architecture \<Rightarrow> u32 \<Rightarrow> u8 \<times> u8" where
  "key2_registers arch word =
     (if arch = Dav2201
      then (reg5 word 17 OR ucast (drop_bit 1 word AND 0x20), reg5 word 12 OR ucast (word AND 0x20))
      else (reg5 word 17, reg5 word 12))"

definition indexed_register :: "u32 \<Rightarrow> nat \<Rightarrow> u32 \<Rightarrow> nat \<Rightarrow> u8" where
  "indexed_register word shift m up = ucast (field word shift 0x1f OR push_bit up (word AND m))"

definition decode_indexed_store :: "u32 \<Rightarrow> scalar_instruction" where
  "decode_indexed_store word =
     ScalarIndexedStore (width_field word) (indexed_register word 17 4 3)
       (indexed_register word 12 2 4) (indexed_register word 7 1 5) (test word 8)"

definition decode_indexed_load :: "u32 \<Rightarrow> scalar_instruction" where
  "decode_indexed_load word =
     ScalarIndexedLoad (width_field word) (indexed_register word 17 4 3)
       (indexed_register word 12 2 4) (indexed_register word 7 1 5) (test word 8)"

definition decode_indexed_immediate_store :: "architecture \<Rightarrow> u32 \<Rightarrow> scalar_instruction" where
  "decode_indexed_immediate_store arch word =
     ScalarIndexedImmediateStore (width_field word) (reg5 word 12) (reg5 word 7)
       (if word AND 3 = 0 then ImmZero else if word AND 3 = 1 then ImmOne else ImmOnes)
       (arch = Dav2201 \<and> test word 4)"

definition decode_pair :: "architecture \<Rightarrow> u32 \<Rightarrow> scalar_instruction" where
  "decode_pair arch word =
     (let raw_offset = (ucast (field word 1 0x3f) :: i8);
          signed_offset = (if test raw_offset 0x20 then raw_offset - 64 else raw_offset)
      in if word AND 1 = 0
         then ScalarPairLoad (dtype_bits word) (width_field word) (reg5 word 17) (reg5 word 7)
                (reg5 word 12) signed_offset (arch = Dav3510 \<and> test word (push_bit 24 1))
         else ScalarPairStore (dtype_bits word) (width_field word) (reg5 word 17) (reg5 word 7)
                (reg5 word 12) signed_offset)"

definition decode_store_immediate :: "u32 \<Rightarrow> scalar_instruction option" where
  "decode_store_immediate word =
     (let v = word AND 3 in
      if v = 3 then None
      else let raw_offset = (ucast ((drop_bit 10 word AND 0xf80) OR (drop_bit 5 word AND 0x7f)) :: i16)
      in Some (ScalarStoreImmediate (width_field word) (reg5 word 12)
           (if test raw_offset 0x800 then raw_offset - 4096 else raw_offset) (test word 4)
           (if v = 0 then ImmZero else if v = 1 then ImmOne else ImmOnes)))"

definition decode_load_store_3510 :: "u32 \<Rightarrow> scalar_instruction" where
  "decode_load_store_3510 word =
     (let load = opcode word = 28 \<or> opcode word = 31 in
      load_store_hint word (if load then Load else StoreOp)
        (if load then test word (push_bit 25 1) else test word (push_bit 28 1))
        (if load then Some (test word (push_bit 24 1)) else None))"

definition key0_operation :: "u32 \<Rightarrow> scalar_key0_operation option" where
  "key0_operation k =
     (if k = 1 then Some Key0Add
      else if k = 2 then Some Key0Subtract
      else if k = 3 then Some Key0Multiply
      else if k = 4 then Some Key0MultiplyAdd
      else if k = 5 then Some Key0Divide
      else if k = 6 then Some Key0Remainder
      else if k = 7 then Some Key0Maximum
      else if k = 8 then Some Key0Minimum
      else if k = 10 then Some Key0And
      else if k = 11 then Some Key0Or
      else if k = 12 then Some Key0Xor
      else None)"

definition decode_key0 :: "architecture \<Rightarrow> u32 \<Rightarrow> scalar_instruction option" where
  "decode_key0 arch word =
     (case key0_registers arch word of (d, a, b) \<Rightarrow>
        if word AND 0xf = 9 then Some (ScalarSelect (dtype_bits word) d a b)
        else if word AND 0xf = 14
        then Some (ScalarCompare (dtype_bits word) (ucast (field word 4 7)) (reg5 word 12) (reg5 word 7))
        else if word AND 0xf = 15
        then Some (ScalarCompareRegister (dtype_bits word) (ucast (field word 4 7)) (reg5 word 17)
               (reg5 word 12) (reg5 word 7))
        else map_option (\<lambda>operation. ScalarKey0 operation (dtype_bits word) d a b)
               (key0_operation (word AND 0xf)))"

definition decode_shift :: "(u8 \<Rightarrow> u8 \<Rightarrow> u8 option \<Rightarrow> u8 \<Rightarrow> scalar_instruction) \<Rightarrow> u32 \<Rightarrow> scalar_instruction" where
  "decode_shift c word =
     c (dtype_bits word) (reg5 word 17) (if test word 0x40 then Some (reg5 word 12) else None)
       (ucast (word AND 0x3f))"

definition decode_bit_count :: "u32 \<Rightarrow> scalar_instruction option" where
  "decode_bit_count word =
     (let extended_mask = (if key2_op word = 6 then 0x30 else 0x60) in
      if test word extended_mask then None
      else Some (ScalarKey2BitCount
        (if key2_op word = 6 \<and> test word 0x40 then Ones
         else if key2_op word = 6 then Zeros
         else if key2_op word = 9 then LeadingZeros
         else LeadingSignBits)
        (reg5 word 17) (reg5 word 12)))"

definition decode_move_from_spr :: "architecture \<Rightarrow> u32 \<Rightarrow> scalar_instruction" where
  "decode_move_from_spr arch word =
     (let high_bit = (if arch = Dav3510 then push_bit 7 (word AND 1) else 0) in
      ScalarKey2MoveFromSpr (reg5 word 17)
        (ucast (high_bit OR (drop_bit 17 word AND 0x60) OR (drop_bit 12 word AND 0x1f))))"

definition decode_move_to_spr :: "architecture \<Rightarrow> u32 \<Rightarrow> scalar_instruction" where
  "decode_move_to_spr arch word =
     ScalarKey2MoveToSpr
       (if arch = Dav2201 then ucast (field word 17 0x7f)
        else ucast (push_bit 7 (word AND 1) OR field word 17 0x7f))
       (if arch = Dav2201 then reg5 word 12 OR ucast (word AND 0x20) else reg5 word 12)"

definition decode_extend :: "architecture \<Rightarrow> u32 \<Rightarrow> bool \<Rightarrow> scalar_instruction option" where
  "decode_extend arch word signed_extend =
     (let w = field word 22 3 in
      case key2_registers arch word of (d, s) \<Rightarrow>
      if w = 3 then None
      else if signed_extend
      then Some (ScalarKey2SignExtend (if w = 0 then 8 else if w = 1 then 16 else 32) d s)
      else Some (ScalarKey2ZeroExtend
                   (if w = 0 then ZeroExtU8 else if w = 1 then ZeroExtU16 else ZeroExtU32) d s))"

definition decode_insert_immediate :: "u32 \<Rightarrow> scalar_instruction" where
  "decode_insert_immediate word =
     ScalarKey2InsertImmediate (reg5 word 17)
       (ucast ((drop_bit 17 word AND 0x20) OR (drop_bit 12 word AND 0x1f))) (ucast word)
       (test word 0x800000)"

definition decode_insert :: "u32 \<Rightarrow> scalar_instruction" where
  "decode_insert word =
     ScalarKey2Insert (reg5 word 17) (reg5 word 12)
       (ucast ((drop_bit 18 word AND 0x30) OR (drop_bit 5 word AND 0xf)))
       (ucast ((word AND 0x1f) + 1))"

text \<open>The \<open>key-2\<close> words, the arms on \<open>(word >> 7) & 0x1f\<close> in the order of the source.\<close>

definition decode_key2 :: "architecture \<Rightarrow> u32 \<Rightarrow> scalar_instruction option" where
  "decode_key2 arch word =
     (let k = key2_op word; dt = dtype_bits word in
      case key2_registers arch word of (d, s) \<Rightarrow>
      if k = 0 then Some (ScalarKey2IntegerSqrt dt d s)
      else if k = 1 then Some (ScalarKey2Negate dt d s)
      else if k = 2 then Some (ScalarKey2Absolute dt d s)
      else if k = 3 then Some (ScalarKey2BitwiseNot dt d s)
      else if k = 4 then Some (decode_shift ScalarKey2ShiftLeft word)
      else if k = 5 then Some (decode_shift ScalarKey2ShiftRight word)
      else if (arch = Dav3510 \<or> word AND 0x30 = 0) \<and> k = 7
      then Some (ScalarKey2FindFirst (reg5 word 17) (reg5 word 12) (test word 0x40))
      else if arch = Dav2201 \<and> (k = 6 \<or> k = 9 \<or> k = 10) then decode_bit_count word
      else if k = 8 \<and> (arch = Dav3510 \<or> word AND 0x30 = 0)
      then Some (ScalarKey2BitSet (reg5 word 17) (reg5 word 12) (test word 0x40))
      else if k = 16 then Some (ScalarKey2MoveRegister dt d s)
      else if k = 17 then Some (decode_move_from_spr arch word)
      else if k = 18 then Some (decode_move_to_spr arch word)
      else if k = 19 then decode_extend arch word True
      else if k = 20 then decode_extend arch word False
      else if k = 22 \<or> k = 23 then Some (decode_insert_immediate word)
      else if 24 \<le> k \<and> k \<le> 27 then Some (decode_insert word)
      else None)"

definition decode_key7 :: "u32 \<Rightarrow> scalar_instruction" where
  "decode_key7 word =
     (let move_keep = test word (push_bit 16 1) in
      ScalarKey7 (if move_keep then MoveKeep else MoveImmediate) (reg5 word 17)
        (ucast (word AND 0xffff)) (if move_keep then Some (ucast (field word 22 3)) else None))"

definition decode_key8 :: "u32 \<Rightarrow> scalar_instruction" where
  "decode_key8 word =
     (let variant = (ucast (field word 22 3) :: u8) in
      ScalarKey8
        (if variant = 0 then AddImmediate else if variant = 1 then MultiplyImmediate
         else if variant = 2 then SubtractImmediate else DcPreload)
        (if variant = 3 then None else Some (reg5 word 17))
        (ucast (field word 12 (if variant = 3 then 0x3f else 0x1f)))
        (ucast (word AND 0xfff)))"

definition from_word :: "architecture \<Rightarrow> u32 \<Rightarrow> scalar_instruction option" where
  "from_word arch word =
     (if aic_from_word word \<noteq> AicScalar then None
      else if arch = Dav2201 \<and> device_load_decode word \<noteq> None
      then Some (load_store_hint word Load False (Some False))
      else if arch = Dav2201 \<and> opcode word = 1 \<and> word AND 0x70 = 0x20
      then Some (decode_indexed_store word)
      else if opcode word = 1 \<and> word AND (if arch = Dav2201 then 0x70 else 0x7f) = 0
      then Some (decode_indexed_load word)
      else if opcode word = 14 \<and> (arch = Dav2201 \<or> word AND 0x7c = 0) \<and> word AND 3 \<noteq> 3
      then Some (decode_indexed_immediate_store arch word)
      else if arch = Dav2201 \<and> opcode word = 9 \<or>
              arch = Dav3510 \<and> (opcode word = 9 \<or> opcode word = 12 \<or> opcode word = 13)
      then Some (decode_pair arch word)
      else if arch = Dav2201 \<and> (opcode word = 3 \<or> opcode word = 19 \<or> opcode word = 4 \<or> opcode word = 20)
      then Some (load_store_hint word
             (if opcode word = 3 \<or> opcode word = 19 then Load else StoreOp)
             (test word (push_bit 28 1)) None)
      else if opcode word = 15 then decode_store_immediate word
      else if arch = Dav3510 \<and> (opcode word = 28 \<or> opcode word = 31 \<or> opcode word = 3 \<or> opcode word = 19)
      then Some (decode_load_store_3510 word)
      else if opcode word = 16 then Some (ScalarMoveX8Immediate (reg5 word 17) (ucast word))
      else if opcode word = 10
      then Some (ScalarCompareImmediate (ucast (field word 22 7)) (reg5 word 12) (ucast (word AND 0xfff)))
      else if opcode word = 0 then decode_key0 arch word
      else if opcode word = 2 then decode_key2 arch word
      else if opcode word = 7 then Some (decode_key7 word)
      else if opcode word = 8 then Some (decode_key8 word)
      else None)"

section \<open>Well-formed instructions\<close>

text \<open>Registers lie below the limit, which is 32, or 64 where a C220 field has six bits;
  access widths are powers of two up to eight bytes.\<close>

definition reg_ok :: "nat \<Rightarrow> u8 \<Rightarrow> bool" where
  "reg_ok n r \<longleftrightarrow> unat r < n"

definition width_ok :: "u8 \<Rightarrow> bool" where
  "width_ok w \<longleftrightarrow> w = 1 \<or> w = 2 \<or> w = 4 \<or> w = 8"

definition wide :: "architecture \<Rightarrow> nat" where
  "wide arch = (if arch = Dav2201 then 64 else 32)"

fun instr_ok :: "architecture \<Rightarrow> scalar_instruction \<Rightarrow> bool" where
  "instr_ok arch (ScalarIndexedStore w s b x _) \<longleftrightarrow>
     arch = Dav2201 \<and> width_ok w \<and> reg_ok 64 s \<and> reg_ok 64 b \<and> reg_ok 64 x"
| "instr_ok arch (ScalarIndexedLoad w d b x post) \<longleftrightarrow>
     width_ok w \<and> reg_ok (wide arch) d \<and> reg_ok (wide arch) b \<and> reg_ok (wide arch) x \<and>
     (post \<longrightarrow> arch = Dav2201)"
| "instr_ok arch (ScalarIndexedImmediateStore w b x _ post) \<longleftrightarrow>
     width_ok w \<and> reg_ok 32 b \<and> reg_ok 32 x \<and> (post \<longrightarrow> arch = Dav2201)"
| "instr_ok arch (ScalarPairLoad dt w a b base off ext) \<longleftrightarrow>
     unat dt < 4 \<and> width_ok w \<and> reg_ok 32 a \<and> reg_ok 32 b \<and> reg_ok 32 base \<and>
     - 32 \<le> sint off \<and> sint off < 32 \<and> (ext \<longrightarrow> arch = Dav3510)"
| "instr_ok arch (ScalarPairStore dt w a b base off) \<longleftrightarrow>
     unat dt < 4 \<and> width_ok w \<and> reg_ok 32 a \<and> reg_ok 32 b \<and> reg_ok 32 base \<and>
     - 32 \<le> sint off \<and> sint off < 32"
| "instr_ok arch (ScalarLoadStoreImmediate _ dt w d base off _ _) \<longleftrightarrow>
     unat dt < 4 \<and> width_ok w \<and> reg_ok 32 d \<and> reg_ok 32 base \<and>
     - 2048 \<le> sint off \<and> sint off < 2048"
| "instr_ok arch (ScalarStoreImmediate w base off _ _) \<longleftrightarrow>
     width_ok w \<and> reg_ok 32 base \<and> - 2048 \<le> sint off \<and> sint off < 2048"
| "instr_ok arch (ScalarKey0 _ dt d a b) \<longleftrightarrow>
     unat dt < 4 \<and> reg_ok (wide arch) d \<and> reg_ok (wide arch) a \<and> reg_ok (wide arch) b"
| "instr_ok arch (ScalarCompare dt c a b) \<longleftrightarrow> unat dt < 4 \<and> unat c < 8 \<and> reg_ok 32 a \<and> reg_ok 32 b"
| "instr_ok arch (ScalarCompareRegister dt c d a b) \<longleftrightarrow>
     unat dt < 4 \<and> unat c < 8 \<and> reg_ok 32 d \<and> reg_ok 32 a \<and> reg_ok 32 b"
| "instr_ok arch (ScalarCompareImmediate c a imm) \<longleftrightarrow> unat c < 8 \<and> reg_ok 32 a \<and> unat imm < 4096"
| "instr_ok arch (ScalarSelect dt d a b) \<longleftrightarrow>
     unat dt < 4 \<and> reg_ok (wide arch) d \<and> reg_ok (wide arch) a \<and> reg_ok (wide arch) b"
| "instr_ok arch (ScalarMoveX8Immediate d _) \<longleftrightarrow> reg_ok 32 d"
| "instr_ok arch (ScalarKey2MoveRegister dt d s) \<longleftrightarrow> unat dt < 4 \<and> reg_ok (wide arch) d \<and> reg_ok (wide arch) s"
| "instr_ok arch (ScalarKey2Negate dt d s) \<longleftrightarrow> unat dt < 4 \<and> reg_ok (wide arch) d \<and> reg_ok (wide arch) s"
| "instr_ok arch (ScalarKey2Absolute dt d s) \<longleftrightarrow> unat dt < 4 \<and> reg_ok (wide arch) d \<and> reg_ok (wide arch) s"
| "instr_ok arch (ScalarKey2IntegerSqrt dt d s) \<longleftrightarrow> unat dt < 4 \<and> reg_ok (wide arch) d \<and> reg_ok (wide arch) s"
| "instr_ok arch (ScalarKey2BitwiseNot dt d s) \<longleftrightarrow> unat dt < 4 \<and> reg_ok (wide arch) d \<and> reg_ok (wide arch) s"
| "instr_ok arch (ScalarKey2MoveFromSpr d spr) \<longleftrightarrow> reg_ok 32 d \<and> unat spr < (if arch = Dav3510 then 256 else 128)"
| "instr_ok arch (ScalarKey2MoveToSpr spr s) \<longleftrightarrow>
     unat spr < (if arch = Dav3510 then 256 else 128) \<and> reg_ok (wide arch) s"
| "instr_ok arch (ScalarKey2ZeroExtend _ d s) \<longleftrightarrow> reg_ok (wide arch) d \<and> reg_ok (wide arch) s"
| "instr_ok arch (ScalarKey2SignExtend w d s) \<longleftrightarrow>
     (w = 8 \<or> w = 16 \<or> w = 32) \<and> reg_ok (wide arch) d \<and> reg_ok (wide arch) s"
| "instr_ok arch (ScalarKey2ShiftLeft dt d c imm) \<longleftrightarrow>
     unat dt < 4 \<and> reg_ok 32 d \<and> (\<forall>r. c = Some r \<longrightarrow> reg_ok 32 r) \<and> unat imm < 64"
| "instr_ok arch (ScalarKey2ShiftRight dt d c imm) \<longleftrightarrow>
     unat dt < 4 \<and> reg_ok 32 d \<and> (\<forall>r. c = Some r \<longrightarrow> reg_ok 32 r) \<and> unat imm < 64"
| "instr_ok arch (ScalarKey2FindFirst d s _) \<longleftrightarrow> reg_ok 32 d \<and> reg_ok 32 s"
| "instr_ok arch (ScalarKey2BitCount _ d s) \<longleftrightarrow> arch = Dav2201 \<and> reg_ok 32 d \<and> reg_ok 32 s"
| "instr_ok arch (ScalarKey2Insert d s lsb w) \<longleftrightarrow>
     reg_ok 32 d \<and> reg_ok 32 s \<and> unat lsb < 64 \<and> 0 < unat w \<and> unat w \<le> 32"
| "instr_ok arch (ScalarKey2InsertImmediate d pos _ _) \<longleftrightarrow> reg_ok 32 d \<and> unat pos < 64"
| "instr_ok arch (ScalarKey2BitSet d s _) \<longleftrightarrow> reg_ok 32 d \<and> reg_ok 32 s"
| "instr_ok arch (ScalarKey7 operation d _ lane) \<longleftrightarrow>
     reg_ok 32 d \<and> (operation = MoveKeep \<longleftrightarrow> lane \<noteq> None) \<and> (\<forall>l. lane = Some l \<longrightarrow> unat l < 4)"
| "instr_ok arch (ScalarKey8 operation d s imm) \<longleftrightarrow>
     (d = None \<longleftrightarrow> operation = DcPreload) \<and> (\<forall>r. d = Some r \<longrightarrow> reg_ok 32 r) \<and>
     reg_ok (if d = None then 64 else 32) s \<and> unat imm < 4096"


section \<open>Bounds of the fields\<close>

lemma unat_and_le: "unat (x AND m) \<le> unat m" for x m :: "'w::len word"
  using word_and_le1 [of x m] by (simp add: word_le_nat_alt)

lemma unat_ucast_le: "unat (ucast (x :: 'w::len word) :: 'v::len word) \<le> unat x"
  by (simp add: unsigned_ucast_eq take_bit_eq_mod)

lemma unat_ucast_and: "unat (ucast (x AND m) :: 'v::len word) \<le> unat m" for x m :: "'w::len word"
  by (rule order_trans [OF unat_ucast_le unat_and_le])

lemma unat_field_le: "unat (field w s m) \<le> unat m"
  unfolding field_def by (rule unat_and_le)

lemma unat_ucast_field: "unat (ucast (field w s m) :: 'v::len word) \<le> unat m"
  unfolding field_def by (rule unat_ucast_and)

lemma take_bit_small: "take_bit n x = x \<longleftrightarrow> unat x < 2 ^ n" for x :: "'w::len word"
proof -
  have "take_bit n x = x \<longleftrightarrow> take_bit n (unat x) = unat x"
    by (simp add: word_unat_eq_iff unsigned_take_bit_eq)
  also have "\<dots> \<longleftrightarrow> unat x < 2 ^ n" by (rule take_bit_nat_eq_self_iff)
  finally show ?thesis .
qed

lemma or_less_exp: "unat x < 2 ^ n \<Longrightarrow> unat y < 2 ^ n \<Longrightarrow> unat (x OR y) < 2 ^ n"
  for x y :: "'w::len word"
  unfolding take_bit_small [symmetric] by (simp add: take_bit_or)

lemma reg5_ok [simp]: "reg_ok 32 (reg5 w s)"
  using unat_ucast_field [of w s 31, where 'v = 8] by (simp add: reg_ok_def reg5_def)

lemma reg_ok_mono: "reg_ok n r \<Longrightarrow> n \<le> m \<Longrightarrow> reg_ok m r"
  by (simp add: reg_ok_def)

lemma reg_ok_wide: "reg_ok 32 r \<Longrightarrow> reg_ok (wide arch) r"
  by (auto simp: wide_def elim: reg_ok_mono)

lemma reg_ok_or: "reg_ok 64 x \<Longrightarrow> reg_ok 64 y \<Longrightarrow> reg_ok 64 (x OR y)"
  using or_less_exp [of x 6 y] by (simp add: reg_ok_def)

lemma reg_ok_and20: "reg_ok 64 (ucast (x AND 0x20))" for x :: u32
  unfolding reg_ok_def by (rule le_less_trans [OF unat_ucast_and]) simp

lemma width_field_ok [simp]: "width_ok (width_field word)"
proof -
  have "unat (field word 22 3) \<le> 3" using unat_field_le [of word 22 3] by simp
  then have "unat (field word 22 3) \<in> {0, 1, 2, 3}" by auto
  then show ?thesis by (auto simp: width_ok_def width_field_def)
qed

lemma dtype_bits_less [simp]: "unat (dtype_bits word) < 4"
  using unat_ucast_field [of word 22 3, where 'v = 8] by (simp add: dtype_bits_def)

lemma key2_registers_ok:
  "key2_registers arch word = (d, s) \<Longrightarrow> reg_ok (wide arch) d \<and> reg_ok (wide arch) s"
  by (auto simp: key2_registers_def wide_def split: if_splits
      intro!: reg_ok_or reg_ok_and20 reg_ok_mono [OF reg5_ok])

lemma key0_registers_ok:
  "key0_registers arch word = (d, a, b) \<Longrightarrow>
     reg_ok (wide arch) d \<and> reg_ok (wide arch) a \<and> reg_ok (wide arch) b"
  by (auto simp: key0_registers_def wide_def split: if_splits
      intro!: reg_ok_or reg_ok_and20 reg_ok_mono [OF reg5_ok])

text \<open>The \<open>n\<close>-bit two's complement offsets.\<close>

lemma bit_top_field:
  fixes r :: "'w::len word"
  assumes "unat r < 2 ^ Suc n"
  shows "bit r n \<longleftrightarrow> 2 ^ n \<le> unat r"
proof -
  have "bit r n \<longleftrightarrow> bit (unat r) n" by (simp add: bit_unsigned_iff exp_eq_zero_iff bit_imp_le_length)
  also have "\<dots> \<longleftrightarrow> odd (unat r div 2 ^ n)" by (simp add: bit_iff_odd)
  also have "\<dots> \<longleftrightarrow> 2 ^ n \<le> unat r"
  proof (cases "2 ^ n \<le> unat r")
    case True
    have "unat r div 2 ^ n = 1"
      using True assms by (intro div_nat_eqI) simp_all
    with True show ?thesis by simp
  qed simp
  finally show ?thesis .
qed

lemma test_exp: "test r (push_bit n 1) \<longleftrightarrow> bit r n" for r :: "'w::len word"
  by (simp add: test_def bit_iff_and_push_bit_not_eq_0)

lemma sint_word_of_int:
  "- (2 ^ (LENGTH('w) - 1)) \<le> i \<Longrightarrow> i < 2 ^ (LENGTH('w) - 1) \<Longrightarrow> sint (word_of_int i :: 'w::len word) = i"
  by (simp add: signed_of_int signed_take_bit_int_eq_self)

lemma sint_small:
  fixes r :: "'w::len word"
  assumes "uint r < 2 ^ (LENGTH('w) - 1)"
  shows "sint r = uint r"
proof -
  have "- (2 ^ (LENGTH('w) - 1)) \<le> uint r"
    using uint_ge_0 [of r] zero_le_power [of "2 :: int" "LENGTH('w) - 1"] by linarith
  from sint_word_of_int [OF this assms] show ?thesis by simp
qed

lemma offset6_range:
  fixes r :: i8
  assumes "unat r < 64"
  shows "- 32 \<le> sint (if test r 32 then r - 64 else r) \<and>
    sint (if test r 32 then r - 64 else r) < 32"
proof (cases "32 \<le> unat r")
  case True
  have "test r 32" using bit_top_field [of r 5] test_exp [of r 5] True assms by simp
  moreover have "sint (r - 64) = uint r - 64"
  proof -
    have "r - 64 = word_of_int (uint r - 64)" by simp
    moreover have "32 \<le> uint r" "uint r < 64" using True assms unfolding unat_eq_nat_uint by arith+
    ultimately show ?thesis using sint_word_of_int [of "uint r - 64", where 'w = 8] by simp
  qed
  moreover have "32 \<le> uint r" "uint r < 64" using True assms unfolding unat_eq_nat_uint by arith+
  ultimately show ?thesis using True assms by simp
next
  case False
  have "\<not> test r 32" using bit_top_field [of r 5] test_exp [of r 5] False assms by simp
  moreover have "uint r < 32" using False unfolding unat_eq_nat_uint by arith
  ultimately show ?thesis by (simp add: sint_small order_trans [OF _ uint_ge_0])
qed

lemma offset12_range:
  fixes r :: i16
  assumes "unat r < 4096"
  shows "- 2048 \<le> sint (if test r 2048 then r - 4096 else r) \<and>
    sint (if test r 2048 then r - 4096 else r) < 2048"
proof (cases "2048 \<le> unat r")
  case True
  have "test r 2048" using bit_top_field [of r 11] test_exp [of r 11] True assms by simp
  moreover have "sint (r - 4096) = uint r - 4096"
  proof -
    have "r - 4096 = word_of_int (uint r - 4096)" by simp
    moreover have "2048 \<le> uint r" "uint r < 4096" using True assms unfolding unat_eq_nat_uint by arith+
    ultimately show ?thesis using sint_word_of_int [of "uint r - 4096", where 'w = 16] by simp
  qed
  moreover have "2048 \<le> uint r" "uint r < 4096" using True assms unfolding unat_eq_nat_uint by arith+
  ultimately show ?thesis using True assms by simp
next
  case False
  have "\<not> test r 2048" using bit_top_field [of r 11] test_exp [of r 11] False assms by simp
  moreover have "uint r < 2048" using False unfolding unat_eq_nat_uint by arith
  ultimately show ?thesis by (simp add: sint_small order_trans [OF _ uint_ge_0])
qed

section \<open>Every arm decodes well-formed instructions\<close>

lemma load_store_hint_ok: "instr_ok arch (load_store_hint word operation post ext)"
proof -
  have "unat (ucast (word AND 0xfff) :: i16) < 4096"
    by (rule le_less_trans [OF unat_ucast_and]) simp
  from offset12_range [OF this] show ?thesis by (simp add: load_store_hint_def Let_def)
qed

lemma decode_pair_ok: "instr_ok arch (decode_pair arch word)"
proof -
  have "unat (ucast (field word 1 0x3f) :: i8) < 64"
    by (rule le_less_trans [OF unat_ucast_field]) simp
  from offset6_range [OF this] show ?thesis
    by (cases "word AND 1 = 0") (simp_all only: decode_pair_def Let_def if_True if_False instr_ok.simps
        simp_thms dtype_bits_less width_field_ok reg5_ok, blast)
qed

lemma decode_store_immediate_ok: "decode_store_immediate word = Some i \<Longrightarrow> instr_ok arch i"
proof -
  let ?x = "(drop_bit 10 word AND 0xf80) OR (drop_bit 5 word AND 0x7f)"
  have "unat ?x < 2 ^ 12"
    by (rule or_less_exp; rule le_less_trans [OF unat_and_le]; simp)
  then have "unat (ucast ?x :: i16) < 4096"
    by (intro le_less_trans [OF unat_ucast_le]) simp
  from offset12_range [OF this] show "decode_store_immediate word = Some i \<Longrightarrow> instr_ok arch i"
    by (auto simp: decode_store_immediate_def Let_def split: if_splits)
qed

lemma indexed_register_ok:
  assumes "unat (push_bit up (word AND m)) < 64"
  shows "reg_ok 64 (indexed_register word shift m up)"
proof -
  have "unat (field word shift 0x1f) < 2 ^ 6" by (rule le_less_trans [OF unat_field_le]) simp
  with assms have "unat (field word shift 0x1f OR push_bit up (word AND m)) < 2 ^ 6"
    by (intro or_less_exp) simp_all
  then show ?thesis
    unfolding reg_ok_def indexed_register_def by (intro le_less_trans [OF unat_ucast_le]) simp
qed

lemma and_exp_cases: "word AND push_bit n 1 = (if bit word n then push_bit n 1 else 0)"
  for word :: "'w::len word"
  by (rule bit_word_eqI) (auto simp: bit_simps)

lemma indexed_bits [simp]:
  fixes word :: u32
  shows "unat (push_bit 3 (word AND 4)) < 64" "unat (push_bit 4 (word AND 2)) < 64"
    "unat (push_bit 5 (word AND 1)) < 64"
  using and_exp_cases [of word 2] and_exp_cases [of word 1] and_exp_cases [of word 0]
  by (simp_all split: if_splits)

lemma indexed_registers_ok [simp]:
  "reg_ok 64 (indexed_register word 17 4 3)" "reg_ok 64 (indexed_register word 12 2 4)"
  "reg_ok 64 (indexed_register word 7 1 5)"
  by (rule indexed_register_ok [OF indexed_bits(1)] indexed_register_ok [OF indexed_bits(2)]
      indexed_register_ok [OF indexed_bits(3)])+

lemma indexed_register_zero:
  "word AND m = 0 \<Longrightarrow> reg_ok 32 (indexed_register word shift m up)"
  using reg5_ok [of word shift] by (simp add: indexed_register_def reg5_def)

text \<open>On the other architecture the extension bits and the post-index bit are zero.\<close>

lemma and_zero_sub: "word AND m = 0 \<Longrightarrow> m AND k = k \<Longrightarrow> word AND k = 0" for word m k :: u32
  using and.assoc [of word m k] by simp

lemma decode_indexed_load_ok:
  assumes "word AND (if arch = Dav2201 then 0x70 else 0x7f) = 0"
  shows "instr_ok arch (decode_indexed_load word)"
proof (cases "arch = Dav2201")
  case True
  then show ?thesis by (simp add: decode_indexed_load_def wide_def)
next
  case False
  with assms have z: "word AND 0x7f = 0" by simp
  have "word AND 4 = 0" "word AND 2 = 0" "word AND 1 = 0" "word AND 8 = 0"
    by (rule and_zero_sub [OF z], simp)+
  with False show ?thesis
    by (simp add: decode_indexed_load_def wide_def indexed_register_zero test_def)
qed

lemma decode_key0_ok: "decode_key0 arch word = Some i \<Longrightarrow> instr_ok arch i"
proof -
  obtain d a b where r: "key0_registers arch word = (d, a, b)" by (cases "key0_registers arch word")
  have "unat (ucast (field word 4 7) :: u8) < 8" by (rule le_less_trans [OF unat_ucast_field]) simp
  with key0_registers_ok [OF r] r show "decode_key0 arch word = Some i \<Longrightarrow> instr_ok arch i"
    by (auto simp: decode_key0_def split: if_splits)
qed

lemma decode_bit_count_ok: "arch = Dav2201 \<Longrightarrow> decode_bit_count word = Some i \<Longrightarrow> instr_ok arch i"
  by (auto simp: decode_bit_count_def Let_def split: if_splits)

lemma decode_shift_ok:
  "instr_ok arch (decode_shift ScalarKey2ShiftLeft word)"
  "instr_ok arch (decode_shift ScalarKey2ShiftRight word)"
proof -
  have "unat (ucast (word AND 0x3f) :: u8) < 64" by (rule le_less_trans [OF unat_ucast_and]) simp
  then show "instr_ok arch (decode_shift ScalarKey2ShiftLeft word)"
    "instr_ok arch (decode_shift ScalarKey2ShiftRight word)"
    by (auto simp: decode_shift_def)
qed

lemma push_and_one: "unat (push_bit 7 (word AND 1)) < 2 ^ 8" for word :: u32
  using and_exp_cases [of word 0] by (simp split: if_splits)

lemma decode_spr_ok:
  "instr_ok arch (decode_move_from_spr arch word)" "instr_ok arch (decode_move_to_spr arch word)"
proof -
  have lo: "unat (drop_bit 17 word AND 0x60 OR drop_bit 12 word AND 0x1f) < 2 ^ 7"
    by (rule or_less_exp; rule le_less_trans [OF unat_and_le]; simp)
  have hi: "unat (field word 17 0x7f) < 2 ^ 7" by (rule le_less_trans [OF unat_field_le]) simp
  have up: "unat x < 2 ^ 7 \<Longrightarrow> unat (push_bit 7 (word AND 1) OR x) < 2 ^ 8" for x
    by (rule or_less_exp [OF push_and_one]) simp
  have "unat (ucast x :: u16) < n" if "unat (x :: u32) < n" for x n
    by (rule le_less_trans [OF unat_ucast_le that])
  note U = this
  show "instr_ok arch (decode_move_from_spr arch word)"
    using U [OF lo] U [OF up [OF lo]] by (cases arch) (simp_all add: decode_move_from_spr_def or.assoc)
  show "instr_ok arch (decode_move_to_spr arch word)"
    using U [OF hi] U [OF up [OF hi]]
    by (cases arch) (simp_all add: decode_move_to_spr_def wide_def reg_ok_or reg_ok_and20 reg_ok_mono [OF reg5_ok])
qed

lemma decode_extend_ok: "decode_extend arch word b = Some i \<Longrightarrow> instr_ok arch i"
  using key2_registers_ok [of arch word] by (auto simp: decode_extend_def Let_def split: if_splits prod.splits)

lemma decode_insert_ok:
  "instr_ok arch (decode_insert word)" "instr_ok arch (decode_insert_immediate word)"
proof -
  have "unat (drop_bit 18 word AND 0x30 OR drop_bit 5 word AND 0xf) < 2 ^ 6"
    by (rule or_less_exp; rule le_less_trans [OF unat_and_le]; simp)
  then have lsb: "unat (ucast (drop_bit 18 word AND 0x30 OR drop_bit 5 word AND 0xf) :: u8) < 64"
    by (intro le_less_trans [OF unat_ucast_le]) simp
  have "unat (drop_bit 17 word AND 0x20 OR drop_bit 12 word AND 0x1f) < 2 ^ 6"
    by (rule or_less_exp; rule le_less_trans [OF unat_and_le]; simp)
  then have pos: "unat (ucast (drop_bit 17 word AND 0x20 OR drop_bit 12 word AND 0x1f) :: u8) < 64"
    by (intro le_less_trans [OF unat_ucast_le]) simp
  have "unat (word AND 0x1f) \<le> 31" using unat_and_le [of word "0x1f"] by simp
  then have "unat ((word AND 0x1f) + 1) = unat (word AND 0x1f) + 1"
    by (subst unat_add_exact) simp_all
  then have w: "unat (ucast ((word AND 0x1f) + 1) :: u8) = unat (word AND 0x1f) + 1"
    using \<open>unat (word AND 0x1f) \<le> 31\<close> by (simp add: unsigned_ucast_eq take_bit_eq_mod)
  show "instr_ok arch (decode_insert word)"
    using lsb w \<open>unat (word AND 0x1f) \<le> 31\<close> by (simp add: decode_insert_def)
  show "instr_ok arch (decode_insert_immediate word)"
    using pos by (simp add: decode_insert_immediate_def)
qed

lemma decode_key2_ok: "decode_key2 arch word = Some i \<Longrightarrow> instr_ok arch i"
  using key2_registers_ok [of arch word] decode_bit_count_ok [of arch word]
    decode_extend_ok [of arch word] decode_shift_ok [of arch word] decode_spr_ok [of arch word]
    decode_insert_ok [of arch word]
  by (auto simp: decode_key2_def Let_def split: if_splits prod.splits)

lemma decode_key7_ok: "instr_ok arch (decode_key7 word)"
proof -
  have "unat (ucast (field word 22 3) :: u8) < 4" by (rule le_less_trans [OF unat_ucast_field]) simp
  then show ?thesis by (simp add: decode_key7_def Let_def)
qed

lemma decode_key8_ok: "instr_ok arch (decode_key8 word)"
proof -
  let ?v = "ucast (field word 22 3) :: u8"
  have v: "unat ?v \<le> 3" using unat_ucast_field [of word 22 3, where 'v = 8] by simp
  then have "unat ?v \<in> {0, 1, 2, 3}" by auto
  then have cases: "?v \<in> {0, 1, 2, 3}" by (auto simp: word_unat_eq_iff)
  have imm: "unat (ucast (word AND 0xfff) :: u16) < 4096" by (rule le_less_trans [OF unat_ucast_and]) simp
  have "unat (ucast (field word 12 0x3f) :: u8) < 64" by (rule le_less_trans [OF unat_ucast_field]) simp
  with cases imm reg5_ok [of word 12] reg5_ok [of word 17] show ?thesis
    by (auto simp: decode_key8_def Let_def reg_ok_def reg5_def)
qed

lemma from_word_ok: "from_word arch word = Some i \<Longrightarrow> instr_ok arch i"
proof -
  have cimm: "unat (ucast (field word 22 7) :: u8) < 8" by (rule le_less_trans [OF unat_ucast_field]) simp
  have imm: "unat (ucast (word AND 0xfff) :: u16) < 4096" by (rule le_less_trans [OF unat_ucast_and]) simp
  show "from_word arch word = Some i \<Longrightarrow> instr_ok arch i"
    unfolding from_word_def
    using cimm imm
    by (auto simp: load_store_hint_ok decode_indexed_load_ok decode_pair_ok decode_store_immediate_ok
        decode_load_store_3510_def Let_def decode_key0_ok decode_key2_ok decode_key7_ok decode_key8_ok
        decode_indexed_store_def decode_indexed_immediate_store_def split: if_split_asm)
qed

lemmas decode_eval = from_word_def aic_from_word_def opcode_def field_def test_def device_load_decode_def
  decode_key8_def decode_key7_def reg5_def Let_def

section \<open>Properties\<close>

text \<open>C10. Every word decodes to a well-formed instruction or to none: register numbers are
  below 32, or below 64 in the extended fields of the C220; access widths are 1, 2, 4 or 8
  bytes; signed offsets lie in the range of their field; post-indexed register addressing
  and the bit counts exist on the C220 only; a half-word lane is present exactly for
  \<open>MOVK\<close>; and an insertion is 1 to 32 bits wide.\<close>

theorem from_word_wf:
  assumes "from_word arch word = Some i"
  shows "instr_ok arch i"
  using assms by (rule from_word_ok)

lemma demo_add_immediate:
  "from_word Dav3510 0x08021001 = Some (ScalarKey8 AddImmediate (Some 1) 1 1)"
  by (simp add: decode_eval)

theorem from_word_wf_witness: "instr_ok Dav3510 (ScalarKey8 AddImmediate (Some 1) 1 1)"
  by (rule from_word_wf [OF demo_add_immediate])

end
