(* ===== verification/Flow_Isa.thy ===== *)
theory Flow_Isa
  imports Scalar_Isa
begin

text \<open>
  \<open>src/src/isa/flow.rs\<close>: decoding and resolution of the flow-control words. Jump targets
  wrap around the 64-bit address space; a register offset is a 46-bit two's complement word
  count. An \<open>f32\<close> comparison is a comparison of the bit patterns: \<open>f32_key\<close> is the order of
  the non-NaN values, in which the two zeros are equal. Indexing the register file is
  checked, an index outside it is a \<open>Panic\<close>.
\<close>

section \<open>Data\<close>

datatype jump_offset_source = JumpImmediate u16 | JumpRegister u8

record unconditional_jump =
  uj_architecture :: architecture
  uj_word :: u32
  uj_offset_source :: jump_offset_source

record conditional_jump =
  cj_architecture :: architecture
  cj_word :: u32
  cj_offset_source :: jump_offset_source

record jump_target =
  jt_pc :: u64
  jt_word :: u32
  jt_source_register :: "u8 option"
  jt_source_value :: "u64 option"
  jt_effective_offset_words :: u64
  jt_target_pc :: u64

record flow_nop =
  nop_pc :: u64
  nop_word :: u32
  nop_target_pc :: u64

record flow_end =
  end_pc :: u64
  end_word :: u32
  end_sequential_pc :: u64

record dcci_instruction =
  dci_architecture :: architecture
  dci_word :: u32
  dci_source_register :: u8
  dci_entire_cache :: bool
  dci_operation_field :: u8

record dcci_step =
  dcs_pc :: u64
  dcs_word :: u32
  dcs_source_register :: u8
  dcs_source_value :: u64
  dcs_entire_cache :: bool
  dcs_operation_field :: u8
  dcs_effective_address :: u64

record dsb_step =
  dsb_pc :: u64
  dsb_word :: u32
  dsb_scope_field :: u8

datatype pipeline_barrier_scope =
    BarrierVector | BarrierCube | BarrierMte1 | BarrierMte2 | BarrierMte3 | BarrierFix | BarrierAll

record pipeline_barrier_step =
  pb_pc :: u64
  pb_word :: u32
  pb_scope :: pipeline_barrier_scope

datatype flag_operation = FlagSet | FlagWait

datatype flag_id_source = FlagImmediate u8 | FlagRegister u8

record flag_instruction =
  fi_architecture :: architecture
  fi_word :: u32
  fi_operation :: flag_operation
  fi_source_pipe_code :: u8
  fi_trigger_pipe_code :: u8
  fi_id_source :: flag_id_source

record flag_step =
  fs_pc :: u64
  fs_instruction :: flag_instruction
  fs_flag_id :: u32
  fs_source_value :: "u64 option"

record conditional_jump_target =
  ct_pc :: u64
  ct_word :: u32
  ct_condition_flag :: u64
  ct_branch_taken :: bool
  ct_fallthrough_pc :: u64
  ct_taken_target :: jump_target
  ct_target_pc :: u64

datatype jump_compare_operand = OperandImmediate u8 | OperandRegister u8

datatype jump_compare_offset = OffsetImmediate u16 | OffsetRegister u8

record jump_compare =
  jc_architecture :: architecture
  jc_word :: u32
  jc_dtype_field :: u8
  jc_condition_field :: u8
  jc_first_source_register :: u8
  jc_second_operand :: jump_compare_operand
  jc_offset_source :: jump_compare_offset

record jump_compare_target =
  jct_pc :: u64
  jct_word :: u32
  jct_dtype_field :: u8
  jct_condition_field :: u8
  jct_first_source_register :: u8
  jct_first_source_value :: u64
  jct_second_source_register :: "u8 option"
  jct_second_source_value :: u64
  jct_branch_taken :: bool
  jct_fallthrough_pc :: u64
  jct_taken_target :: jump_target
  jct_target_pc :: u64
  jct_spr11_value :: u64

datatype jump_compare_error = UnsupportedDtype u8 | UnsupportedCondition u8

section \<open>Register access\<close>

text \<open>\<open>xregs[usize::from(index)]\<close>.\<close>

definition xreg_at :: "u64 list \<Rightarrow> u8 \<Rightarrow> 'e fault + u64" where
  "xreg_at xregs index = (if unat index < length xregs then Ok (xregs ! unat index) else Err Panic)"

section \<open>Decoding\<close>

definition flow_end_decode :: "u64 \<Rightarrow> u32 \<Rightarrow> flow_end option" where
  "flow_end_decode pc word =
     (if aic_from_word word \<noteq> AicFlowControl \<or> field word 21 0xf \<noteq> 11 then None
      else Some \<lparr>end_pc = pc, end_word = word, end_sequential_pc = pc + 4\<rparr>)"

definition barrier_decode :: "architecture \<Rightarrow> u64 \<Rightarrow> u32 \<Rightarrow> pipeline_barrier_step option" where
  "barrier_decode arch pc word =
     map_option (\<lambda>scope. \<lparr>pb_pc = pc, pb_word = word, pb_scope = scope\<rparr>)
       (if arch = Dav2201 \<and> word = 0x40e00400 then Some BarrierVector
        else if arch = Dav2201 \<and> word = 0x40e00800 then Some BarrierCube
        else if arch = Dav2201 \<and> word = 0x40e00c00 then Some BarrierMte1
        else if arch = Dav2201 \<and> word = 0x40e01000 then Some BarrierMte2
        else if arch = Dav2201 \<and> word = 0x40e01400 then Some BarrierMte3
        else if arch = Dav2201 \<and> word = 0x40e02800 then Some BarrierFix
        else if word = 0x40e01800 then Some BarrierAll
        else None)"

definition flag_decode :: "architecture \<Rightarrow> u32 \<Rightarrow> flag_instruction option" where
  "flag_decode arch word =
     (if aic_from_word word \<noteq> AicFlowControl \<or> test word 0x02000000 then None
      else map_option (\<lambda>operation.
          \<lparr>fi_architecture = arch, fi_word = word, fi_operation = operation,
           fi_source_pipe_code = ucast (field word 10 0xf),
           fi_trigger_pipe_code = ucast (field word 7 7 OR push_bit 3 (field word 14 1)),
           fi_id_source =
             (if test word 0x00020000 then FlagRegister (ucast (field word 2 0x1f))
              else FlagImmediate (ucast (push_bit 2 (field word 18 1) OR (word AND 3))))\<rparr>)
        (if field word 21 0xf = 5 then Some FlagSet
         else if field word 21 0xf = 6 then Some FlagWait
         else None))"

definition flag_resolve :: "flag_instruction \<Rightarrow> u64 \<Rightarrow> u64 list \<Rightarrow> 'e fault + flag_step" where
  "flag_resolve f pc xregs =
     (case fi_id_source f of
        FlagImmediate i \<Rightarrow>
          Ok \<lparr>fs_pc = pc, fs_instruction = f, fs_flag_id = ucast i, fs_source_value = None\<rparr>
      | FlagRegister index \<Rightarrow> and_then (xreg_at xregs index) (\<lambda>v.
          Ok \<lparr>fs_pc = pc, fs_instruction = f, fs_flag_id = ucast v, fs_source_value = Some v\<rparr>))"

definition dsb_decode :: "u64 \<Rightarrow> u32 \<Rightarrow> dsb_step option" where
  "dsb_decode pc word =
     (if aic_from_word word \<noteq> AicFlowControl \<or> field word 21 0xf \<noteq> 14 then None
      else Some \<lparr>dsb_pc = pc, dsb_word = word, dsb_scope_field = ucast (field word 16 7)\<rparr>)"

definition dcci_decode :: "architecture \<Rightarrow> u32 \<Rightarrow> dcci_instruction option" where
  "dcci_decode arch word =
     (if aic_from_word word \<noteq> AicFlowControl \<or> field word 25 0xf = 1 \<or> field word 21 0xf \<noteq> 1 \<or>
         field word 18 7 \<noteq> 3 then None
      else Some \<lparr>dci_architecture = arch, dci_word = word, dci_source_register = reg5 word 12,
                 dci_entire_cache = test word 0x20000, dci_operation_field = ucast (word AND 3)\<rparr>)"

definition dcci_resolve :: "dcci_instruction \<Rightarrow> u64 \<Rightarrow> u64 list \<Rightarrow> 'e fault + dcci_step" where
  "dcci_resolve i pc xregs =
     and_then (xreg_at xregs (dci_source_register i)) (\<lambda>v.
       Ok \<lparr>dcs_pc = pc, dcs_word = dci_word i, dcs_source_register = dci_source_register i,
           dcs_source_value = v, dcs_entire_cache = dci_entire_cache i,
           dcs_operation_field = dci_operation_field i,
           dcs_effective_address = (if dci_entire_cache i then 0 else v)\<rparr>)"

definition flow_nop_decode :: "architecture \<Rightarrow> u64 \<Rightarrow> u32 \<Rightarrow> flow_nop option" where
  "flow_nop_decode arch pc word =
     (if aic_from_word word \<noteq> AicFlowControl \<or> field word 27 3 = 1 \<or> field word 21 0xf \<noteq> 10 then None
      else Some \<lparr>nop_pc = pc, nop_word = word, nop_target_pc = pc + 4\<rparr>)"

definition decode_offset_source :: "u32 \<Rightarrow> jump_offset_source" where
  "decode_offset_source word =
     (if test word 0x20000 then JumpRegister (reg5 word 12) else JumpImmediate (ucast word))"

definition unconditional_decode :: "architecture \<Rightarrow> u32 \<Rightarrow> unconditional_jump option" where
  "unconditional_decode arch word =
     (if aic_from_word word \<noteq> AicFlowControl \<or> field word 20 0x1f \<noteq> 0 \<or> field word 25 0xf \<noteq> 0 then None
      else Some \<lparr>uj_architecture = arch, uj_word = word, uj_offset_source = decode_offset_source word\<rparr>)"

definition conditional_decode :: "architecture \<Rightarrow> u32 \<Rightarrow> conditional_jump option" where
  "conditional_decode arch word =
     (if aic_from_word word \<noteq> AicFlowControl \<or> field word 20 0x1f \<noteq> 2 \<or> field word 18 7 \<noteq> 0 \<or>
         field word 25 0xf \<noteq> 0 then None
      else Some \<lparr>cj_architecture = arch, cj_word = word, cj_offset_source = decode_offset_source word\<rparr>)"

definition jump_compare_decode :: "architecture \<Rightarrow> u32 \<Rightarrow> jump_compare option" where
  "jump_compare_decode arch word =
     (if word AND 0xf8000000 \<noteq> 0x48000000 then None
      else Some
        \<lparr>jc_architecture = arch, jc_word = word, jc_dtype_field = ucast (field word 25 3),
         jc_condition_field = ucast (field word 18 7),
         jc_first_source_register = ucast (push_bit 1 (field word 21 0xf) OR field word 15 1),
         jc_second_operand =
           (if test word 0x10000 then OperandRegister (ucast (word AND 0x1f))
            else OperandImmediate (ucast (word AND 0x1f))),
         jc_offset_source =
           (if test word 0x20000 then OffsetRegister (reg5 word 5)
            else OffsetImmediate (ucast (field word 5 0x3ff)))\<rparr>)"

section \<open>Resolution\<close>

text \<open>The extension of a register offset: bit 45 is its sign.\<close>

definition extend_offset :: "u64 \<Rightarrow> u64" where
  "extend_offset v = (if test v (push_bit 45 1) then v OR 0xffffc00000000000 else v)"

definition target_of :: "u64 \<Rightarrow> u32 \<Rightarrow> u8 option \<Rightarrow> u64 option \<Rightarrow> u64 \<Rightarrow> jump_target" where
  "target_of pc word register v offset_words =
     \<lparr>jt_pc = pc, jt_word = word, jt_source_register = register, jt_source_value = v,
      jt_effective_offset_words = offset_words, jt_target_pc = pc + offset_words * 4\<rparr>"

definition resolve_offset ::
  "u64 \<Rightarrow> u32 \<Rightarrow> jump_offset_source \<Rightarrow> u64 list \<Rightarrow> 'e fault + jump_target" where
  "resolve_offset pc word src xregs =
     (case src of
        JumpImmediate encoded_words \<Rightarrow> Ok (target_of pc word None None (scast encoded_words))
      | JumpRegister index \<Rightarrow> and_then (xreg_at xregs index) (\<lambda>v.
          Ok (target_of pc word (Some index) (Some v) (extend_offset v))))"

definition resolve_compare_offset ::
  "u64 \<Rightarrow> u32 \<Rightarrow> jump_compare_offset \<Rightarrow> u64 list \<Rightarrow> 'e fault + jump_target" where
  "resolve_compare_offset pc word src xregs =
     (case src of
        OffsetImmediate encoded_words \<Rightarrow>
          Ok (target_of pc word None None
            (if test encoded_words 0x200 then ucast encoded_words - 1024 else ucast encoded_words))
      | OffsetRegister index \<Rightarrow> and_then (xreg_at xregs index) (\<lambda>v.
          Ok (target_of pc word (Some index) (Some v) (extend_offset v))))"

definition unconditional_resolve :: "unconditional_jump \<Rightarrow> u64 \<Rightarrow> u64 list \<Rightarrow> 'e fault + jump_target" where
  "unconditional_resolve j pc xregs = resolve_offset pc (uj_word j) (uj_offset_source j) xregs"

definition conditional_resolve ::
  "conditional_jump \<Rightarrow> u64 \<Rightarrow> u64 list \<Rightarrow> u64 \<Rightarrow> 'e fault + conditional_jump_target" where
  "conditional_resolve j pc xregs condition_flag =
     and_then (resolve_offset pc (cj_word j) (cj_offset_source j) xregs) (\<lambda>taken_target.
       let fallthrough_pc = pc + 4;
           branch_taken = (condition_flag \<noteq> 0)
       in Ok \<lparr>ct_pc = pc, ct_word = cj_word j, ct_condition_flag = condition_flag,
              ct_branch_taken = branch_taken, ct_fallthrough_pc = fallthrough_pc,
              ct_taken_target = taken_target,
              ct_target_pc = (if branch_taken then jt_target_pc taken_target else fallthrough_pc)\<rparr>)"

section \<open>Comparison\<close>

definition compare_values :: "'a::linorder \<Rightarrow> 'a \<Rightarrow> u8 \<Rightarrow> 'e fault + bool" where
  "compare_values x y condition =
     (if condition = 0 then Ok (x = y)
      else if condition = 1 then Ok (x \<noteq> y)
      else if condition = 2 then Ok (x < y)
      else if condition = 3 then Ok (x > y)
      else if condition = 4 then Ok (x \<ge> y)
      else if condition = 5 then Ok (x \<le> y)
      else Err Panic)"

text \<open>\<open>f32::from_bits\<close>: the magnitude is the low 31 bits, NaNs lie above infinity.\<close>

definition f32_magnitude :: "u32 \<Rightarrow> u32" where
  "f32_magnitude b = b AND 0x7fffffff"

definition f32_is_nan :: "u32 \<Rightarrow> bool" where
  "f32_is_nan b \<longleftrightarrow> 0x7f800000 < f32_magnitude b"

definition f32_key :: "u32 \<Rightarrow> int" where
  "f32_key b = (if bit b 31 then - uint (f32_magnitude b) else uint (f32_magnitude b))"

definition jump_compare_taken :: "u8 \<Rightarrow> u8 \<Rightarrow> u64 \<Rightarrow> u64 \<Rightarrow> 'e fault + bool" where
  "jump_compare_taken dtype condition x y =
     (if dtype = 0 then compare_values (sint x) (sint y) condition
      else if dtype = 1 then compare_values x y condition
      else if dtype = 2
      then (let a = ucast x; b = ucast y in
            if \<not> f32_is_nan a \<and> \<not> f32_is_nan b then compare_values (f32_key a) (f32_key b) condition
            else Ok False)
      else Err Panic)"

definition jump_compare_evaluate ::
  "jump_compare \<Rightarrow> u64 \<Rightarrow> u64 list \<Rightarrow> jump_compare_error fault + jump_compare_target" where
  "jump_compare_evaluate j pc xregs =
     (if \<not> (jc_dtype_field j = 0 \<or> jc_dtype_field j = 1 \<or> jc_dtype_field j = 2)
      then Err (Fail (UnsupportedDtype (jc_dtype_field j)))
      else if 5 < jc_condition_field j then Err (Fail (UnsupportedCondition (jc_condition_field j)))
      else and_then (xreg_at xregs (jc_first_source_register j)) (\<lambda>first_value.
        and_then (case jc_second_operand j of
            OperandImmediate encoded \<Rightarrow>
              Ok (None, if test encoded 0x10 then ucast encoded - 32 else ucast encoded)
          | OperandRegister index \<Rightarrow> and_then (xreg_at xregs index) (\<lambda>v. Ok (Some index, v)))
        (\<lambda>(second_register, second_value).
        and_then (jump_compare_taken (jc_dtype_field j) (jc_condition_field j) first_value second_value)
        (\<lambda>branch_taken.
        and_then (resolve_compare_offset pc (jc_word j) (jc_offset_source j) xregs) (\<lambda>taken_target.
          let fallthrough_pc = pc + 4 in
          Ok \<lparr>jct_pc = pc, jct_word = jc_word j, jct_dtype_field = jc_dtype_field j,
              jct_condition_field = jc_condition_field j,
              jct_first_source_register = jc_first_source_register j,
              jct_first_source_value = first_value, jct_second_source_register = second_register,
              jct_second_source_value = second_value, jct_branch_taken = branch_taken,
              jct_fallthrough_pc = fallthrough_pc, jct_taken_target = taken_target,
              jct_target_pc = (if branch_taken then jt_target_pc taken_target else fallthrough_pc),
              jct_spr11_value = (if branch_taken then 1 else 0)\<rparr>)))))"

end
