(* ===== verification/Scalar_Machine.thy ===== *)
theory Scalar_Machine
  imports Flow_Isa
begin

text \<open>
  The register side of the scalar unit: the state of \<open>ScalarMachine\<close> in
  \<open>src/src/sim/common/scalar/mod.rs\<close>, the immediate arithmetic of
  \<open>src/src/sim/common/scalar/alu.rs\<close> and \<open>execute_word\<close> of
  \<open>src/src/sim/common/scalar/integer.rs\<close>. Each match arm of \<open>execute_word\<close> is a definition
  that yields the destination, the operands and the new value; \<open>execute_word\<close> commits it.
  Indexing the register file outside its 32 registers is a \<open>Panic\<close>, the checked accesses
  report \<open>UnsupportedWord\<close>.
\<close>

section \<open>State\<close>

definition x_register_count :: nat where
  "x_register_count = 32"

definition spr_capacity :: nat where
  "spr_capacity = 243"

record scalar_machine =
  sm_architecture :: architecture
  sm_xregs :: "u64 list"
  sm_c220_xreg32 :: u64
  sm_spr2 :: u64
  sm_spr_values :: "u64 option list"
  sm_model_time :: "u64 option"

record scalar_step =
  ss_pc :: u64
  ss_word :: u32
  ss_destination_register :: u8
  ss_prior_destination_value :: u64
  ss_source_register :: "u8 option"
  ss_source_value :: "u64 option"
  ss_second_source_register :: "u8 option"
  ss_second_source_value :: "u64 option"
  ss_value :: u64
  ss_signed_overflow :: bool
  ss_prior_spr2 :: u64
  ss_spr2 :: u64

datatype scalar_integer_error = UnsupportedHint | ImmediateOutOfRange u16

datatype scalar_machine_error =
    RegisterOutOfRange u8
  | SprRegisterOutOfRange u16
  | SprValueUnavailable u64 u16
  | ModelTimeUnavailable u64
  | UnsupportedWord u64 u32
  | Arithmetic scalar_integer_error
  | CompareError jump_compare_error

definition machine_new :: "architecture \<Rightarrow> u64 list \<Rightarrow> u64 \<Rightarrow> scalar_machine" where
  "machine_new arch xregs spr2 =
     \<lparr>sm_architecture = arch, sm_xregs = xregs, sm_c220_xreg32 = 0, sm_spr2 = spr2,
      sm_spr_values = replicate spr_capacity None, sm_model_time = None\<rparr>"

text \<open>\<open>slots[i..j]\<close> filled from a function of the index inside the slice, and single slots.\<close>

definition fill_range :: "nat \<Rightarrow> nat \<Rightarrow> (nat \<Rightarrow> 'a) \<Rightarrow> 'a list \<Rightarrow> 'a list" where
  "fill_range i j f xs = fold (\<lambda>k ys. ys[i + k := f k]) [0..<j - i] xs"

definition fill_slots :: "nat list \<Rightarrow> 'a \<Rightarrow> 'a list \<Rightarrow> 'a list" where
  "fill_slots is v xs = fold (\<lambda>i ys. ys[i := v]) is xs"

definition initial_sprs :: "architecture \<Rightarrow> u64 option list \<Rightarrow> u64 option list" where
  "initial_sprs arch values =
     (case arch of
        Dav2201 \<Rightarrow>
          let s1 = fill_range 0 187 (\<lambda>_. Some 0) values;
              s2 = fill_range 111 175 (\<lambda>index. Some (word_of_nat index)) s1;
              s3 = fill_slots [100, 101, 104, 105, 181, 182, 183, 184, 185, 186] (Some (- 1)) s2
          in s3[55 := Some 15360, 58 := Some 0x10000]
      | Dav3510 \<Rightarrow>
          let s1 = fill_range 0 spr_capacity (\<lambda>_. Some 0) values;
              s2 = fill_range 164 228 (\<lambda>index. Some (word_of_nat index)) s1;
              s3 = fill_slots [152, 153, 156, 157, 234, 235, 236, 237, 238, 239] (Some (- 1)) s2;
              s4 = fill_slots [105, 109, 112, 115] (Some 0x200001) s3;
              s5 = s4[3 := Some 0x1000000000000008, 20 := Some 784, 58 := Some 0x10000,
                      90 := Some 36, 104 := Some 0x10000, 241 := Some 0x2000, 242 := Some 4]
          in fill_slots [67, 68, 73] None s5)"

definition from_pem_initial_state :: "architecture \<Rightarrow> scalar_machine" where
  "from_pem_initial_state arch =
     (let machine = machine_new arch (replicate x_register_count 0) 0
      in machine\<lparr>sm_spr_values := initial_sprs arch (sm_spr_values machine)\<rparr>)"

section \<open>Registers\<close>

definition xreg_value :: "scalar_machine \<Rightarrow> u8 \<Rightarrow> u64 option" where
  "xreg_value sm register =
     (if register = 32 \<and> sm_architecture sm = Dav2201 then Some (sm_c220_xreg32 sm)
      else if unat register < length (sm_xregs sm) then Some (sm_xregs sm ! unat register)
      else None)"

definition set_xreg ::
  "scalar_machine \<Rightarrow> u8 \<Rightarrow> u64 \<Rightarrow> scalar_machine \<times> (scalar_machine_error fault + unit)" where
  "set_xreg sm register v =
     (if register = 32 \<and> sm_architecture sm = Dav2201 then (sm\<lparr>sm_c220_xreg32 := v\<rparr>, Ok ())
      else if unat register < length (sm_xregs sm)
      then (sm\<lparr>sm_xregs := (sm_xregs sm)[unat register := v]\<rparr>, Ok ())
      else (sm, Err (Fail (RegisterOutOfRange register))))"

definition write_existing_xreg :: "scalar_machine \<Rightarrow> u8 \<Rightarrow> u64 \<Rightarrow> scalar_machine \<times> bool" where
  "write_existing_xreg sm register v =
     (case set_xreg sm register v of (sm', r) \<Rightarrow> (sm', is_ok r))"

definition spr_limit :: "architecture \<Rightarrow> nat" where
  "spr_limit arch = (case arch of Dav2201 \<Rightarrow> 187 | Dav3510 \<Rightarrow> spr_capacity)"

definition spr_value :: "scalar_machine \<Rightarrow> u16 \<Rightarrow> u64 option" where
  "spr_value sm index =
     (if index = 2 then Some (sm_spr2 sm)
      else if unat index < length (sm_spr_values sm) then sm_spr_values sm ! unat index
      else None)"

definition set_spr_value ::
  "scalar_machine \<Rightarrow> u16 \<Rightarrow> u64 \<Rightarrow> scalar_machine \<times> (scalar_machine_error fault + unit)" where
  "set_spr_value sm index v =
     (if unat index < length (sm_spr_values sm) \<and> unat index < spr_limit (sm_architecture sm)
      then (let sm' = sm\<lparr>sm_spr_values := (sm_spr_values sm)[unat index := Some v]\<rparr>
            in (if index = 2 then sm'\<lparr>sm_spr2 := v\<rparr> else sm', Ok ()))
      else (sm, Err (Fail (SprRegisterOutOfRange index))))"

definition set_model_time :: "scalar_machine \<Rightarrow> u64 \<Rightarrow> scalar_machine" where
  "set_model_time sm ticks = sm\<lparr>sm_model_time := Some ticks\<rparr>"

section \<open>Immediate arithmetic\<close>

record scalar_integer_outcome =
  sio_destination_register :: u8
  sio_value :: u64
  sio_signed_overflow :: bool
  sio_spr2 :: u64

definition update_overflow_spr2 :: "u64 \<Rightarrow> u64 \<Rightarrow> bool \<Rightarrow> u64" where
  "update_overflow_spr2 prior_spr2 pc signed_overflow =
     (if signed_overflow
      then (prior_spr2 AND 0xffffffffff00ffff) OR push_bit 16 (drop_bit 2 pc AND 0xff) OR 0x10
      else prior_spr2)"

definition update_neg_overflow_spr2 :: "architecture \<Rightarrow> u64 \<Rightarrow> u64 \<Rightarrow> bool \<Rightarrow> u64" where
  "update_neg_overflow_spr2 arch prior_spr2 pc signed_overflow =
     (if \<not> signed_overflow then prior_spr2
      else let pc_byte = push_bit 16 (drop_bit 2 pc AND 0xff) in
        case arch of
          Dav2201 \<Rightarrow> (prior_spr2 AND 0xffffffffff00ffff) OR pc_byte OR 8
        | Dav3510 \<Rightarrow> (prior_spr2 AND 0xfffffffffffff007) OR pc_byte OR 8)"

definition evaluate_integer_immediate ::
  "scalar_instruction \<Rightarrow> u64 \<Rightarrow> u64 \<Rightarrow> u64 \<Rightarrow> scalar_integer_error + scalar_integer_outcome" where
  "evaluate_integer_immediate hint source_value pc prior_spr2 =
     (case hint of
        ScalarKey8 operation (Some destination) _ encoded \<Rightarrow>
          if 0xfff < encoded then Err (ImmediateOutOfRange encoded)
          else
            (case (case operation of
                AddImmediate \<Rightarrow> Some (overflowing_add source_value (ucast encoded))
              | SubtractImmediate \<Rightarrow> Some (overflowing_sub source_value (ucast encoded))
              | MultiplyImmediate \<Rightarrow> Some (overflowing_mul source_value
                    (if test encoded 0x800 then ucast encoded - 0x1000 else ucast encoded))
              | DcPreload \<Rightarrow> None) of
               None \<Rightarrow> Err UnsupportedHint
             | Some (v, signed_overflow) \<Rightarrow>
                 Ok \<lparr>sio_destination_register = destination, sio_value = v,
                     sio_signed_overflow = signed_overflow,
                     sio_spr2 = update_overflow_spr2 prior_spr2 pc signed_overflow\<rparr>)
      | _ \<Rightarrow> Err UnsupportedHint)"

section \<open>The arms of execute\_word\<close>

type_synonym machine_result = "scalar_machine_error fault"

record reg_outcome =
  ro_destination :: u8
  ro_source_register :: "u8 option"
  ro_source_value :: "u64 option"
  ro_second_register :: "u8 option"
  ro_second_value :: "u64 option"
  ro_value :: u64
  ro_overflow :: bool
  ro_spr2 :: u64

definition unsupported :: "u64 \<Rightarrow> u32 \<Rightarrow> machine_result + 'a" where
  "unsupported pc word = Err (Fail (UnsupportedWord pc word))"

text \<open>\<open>self.xregs.get(r)\<close> with the early return of \<open>UnsupportedWord\<close>.\<close>

definition xreg_get :: "scalar_machine \<Rightarrow> u64 \<Rightarrow> u32 \<Rightarrow> u8 \<Rightarrow> machine_result + u64" where
  "xreg_get sm pc word r =
     (if unat r < length (sm_xregs sm) then Ok (sm_xregs sm ! unat r) else unsupported pc word)"

text \<open>An outcome with one source operand and no overflow.\<close>

definition unary :: "scalar_machine \<Rightarrow> u8 \<Rightarrow> u8 \<Rightarrow> u64 \<Rightarrow> u64 \<Rightarrow> reg_outcome" where
  "unary sm d s source_value v =
     \<lparr>ro_destination = d, ro_source_register = Some s, ro_source_value = Some source_value,
      ro_second_register = None, ro_second_value = None, ro_value = v, ro_overflow = False,
      ro_spr2 = sm_spr2 sm\<rparr>"

definition key0_value ::
  "scalar_key0_operation \<Rightarrow> u8 \<Rightarrow> u64 \<Rightarrow> u64 \<Rightarrow> u64 \<Rightarrow> (u64 \<times> bool) option" where
  "key0_value operation dtype prior x y =
     (case operation of
        Key0Add \<Rightarrow> if dtype = 0 then Some (overflowing_add x y) else None
      | Key0Subtract \<Rightarrow> if dtype = 0 then Some (overflowing_sub x y) else None
      | Key0Multiply \<Rightarrow> if dtype = 0 then Some (overflowing_mul x y) else None
      | Key0MultiplyAdd \<Rightarrow>
          if dtype = 0
          then (case overflowing_mul x y of (product, multiply_overflow) \<Rightarrow>
                case overflowing_add prior product of (v, add_overflow) \<Rightarrow>
                  Some (v, multiply_overflow \<or> add_overflow))
          else None
      | Key0Divide \<Rightarrow>
          if dtype = 0
          then Some (if y = 0 then (if sint x < 0 then i64_min else i64_max)
                     else if x = i64_min \<and> y = - 1 then i64_min
                     else i64_div x y, False)
          else if dtype = 1
          then Some (case checked_div x y of Some q \<Rightarrow> q | None \<Rightarrow> - 1, False)
          else None
      | Key0Remainder \<Rightarrow>
          if dtype = 0
          then Some (if y = 0 then x
                     else if x = i64_min \<and> y = - 1 then 0
                     else i64_rem x y, False)
          else if dtype = 1
          then Some (case checked_rem x y of Some r \<Rightarrow> r | None \<Rightarrow> x, False)
          else None
      | Key0Minimum \<Rightarrow> if dtype = 0 then Some (if sint y < sint x then y else x, False) else None
      | Key0Maximum \<Rightarrow> if dtype = 0 then Some (if sint x < sint y then y else x, False) else None
      | Key0And \<Rightarrow> if dtype = 3 then Some (x AND y, False) else None
      | Key0Or \<Rightarrow> if dtype = 3 then Some (x OR y, False) else None
      | Key0Xor \<Rightarrow> if dtype = 3 then Some (x XOR y, False) else None)"

definition exec_key0 ::
  "scalar_machine \<Rightarrow> u64 \<Rightarrow> u32 \<Rightarrow> scalar_key0_operation \<Rightarrow> u8 \<Rightarrow> u8 \<Rightarrow> u8 \<Rightarrow> u8
     \<Rightarrow> machine_result + reg_outcome" where
  "exec_key0 sm pc word operation dtype d a b =
     and_then (xreg_get sm pc word a) (\<lambda>x.
     and_then (xreg_get sm pc word b) (\<lambda>y.
     and_then (xreg_get sm pc word d) (\<lambda>prior.
       (case key0_value operation dtype prior x y of
          None \<Rightarrow> unsupported pc word
        | Some (v, signed_overflow) \<Rightarrow>
            Ok \<lparr>ro_destination = d, ro_source_register = Some a, ro_source_value = Some x,
                ro_second_register = Some b, ro_second_value = Some y, ro_value = v,
                ro_overflow = signed_overflow,
                ro_spr2 = update_overflow_spr2 (sm_spr2 sm) pc signed_overflow\<rparr>))))"

text \<open>The shift count: the low six bits of a register, or the immediate.\<close>

definition shift_operand ::
  "scalar_machine \<Rightarrow> u8 option \<Rightarrow> u8 \<Rightarrow> machine_result + u8 option \<times> u64 option \<times> nat" where
  "shift_operand sm count_register encoded =
     (case count_register of
        Some register \<Rightarrow> and_then (xreg_at (sm_xregs sm) register) (\<lambda>v.
          Ok (Some register, Some v, unat (v AND 0x3f)))
      | None \<Rightarrow> Ok (None, None, unat encoded))"

definition exec_shift_left ::
  "scalar_machine \<Rightarrow> u64 \<Rightarrow> u32 \<Rightarrow> u8 \<Rightarrow> u8 \<Rightarrow> u8 option \<Rightarrow> u8 \<Rightarrow> machine_result + reg_outcome" where
  "exec_shift_left sm pc word dtype d count_register encoded =
     (if dtype \<noteq> 3 then unsupported pc word
      else and_then (xreg_at (sm_xregs sm) d) (\<lambda>prior.
           and_then (shift_operand sm count_register encoded) (\<lambda>(r2, v2, shift).
             Ok \<lparr>ro_destination = d, ro_source_register = Some d, ro_source_value = Some prior,
                 ro_second_register = r2, ro_second_value = v2, ro_value = push_bit shift prior,
                 ro_overflow = False, ro_spr2 = sm_spr2 sm\<rparr>)))"

definition exec_shift_right ::
  "scalar_machine \<Rightarrow> u64 \<Rightarrow> u32 \<Rightarrow> u8 \<Rightarrow> u8 \<Rightarrow> u8 option \<Rightarrow> u8 \<Rightarrow> machine_result + reg_outcome" where
  "exec_shift_right sm pc word dtype d count_register encoded =
     (if \<not> (dtype = 0 \<or> dtype = 1) then unsupported pc word
      else and_then (xreg_at (sm_xregs sm) d) (\<lambda>prior.
           and_then (shift_operand sm count_register encoded) (\<lambda>(r2, v2, shift).
             Ok \<lparr>ro_destination = d, ro_source_register = Some d, ro_source_value = Some prior,
                 ro_second_register = r2, ro_second_value = v2,
                 ro_value = (if dtype = 0 then signed_drop_bit shift prior else drop_bit shift prior),
                 ro_overflow = False, ro_spr2 = sm_spr2 sm\<rparr>)))"

definition bit_count_value :: "scalar_bit_count_operation \<Rightarrow> u64 \<Rightarrow> u64" where
  "bit_count_value operation v =
     (case operation of
        Zeros \<Rightarrow> word_of_nat (count_zeros v)
      | Ones \<Rightarrow> word_of_nat (count_ones v)
      | LeadingZeros \<Rightarrow> word_of_nat (leading_zeros v)
      | LeadingSignBits \<Rightarrow>
          if v = 0 \<or> v = - 1 then - 1
          else if drop_bit 63 v \<noteq> 0 then word_of_nat (leading_ones v - 1)
          else word_of_nat (leading_zeros v - 1))"

definition exec_bit_count ::
  "scalar_machine \<Rightarrow> scalar_bit_count_operation \<Rightarrow> u8 \<Rightarrow> u8 \<Rightarrow> machine_result + reg_outcome" where
  "exec_bit_count sm operation d s =
     and_then (xreg_at (sm_xregs sm) s) (\<lambda>v. Ok (unary sm d s v (bit_count_value operation v)))"

definition find_first_value :: "bool \<Rightarrow> u64 \<Rightarrow> u64" where
  "find_first_value find_set v =
     (let index = (if find_set then trailing_zeros v else trailing_ones v)
      in if index = 64 then - 1 else word_of_nat index)"

definition exec_find_first :: "scalar_machine \<Rightarrow> u8 \<Rightarrow> u8 \<Rightarrow> bool \<Rightarrow> machine_result + reg_outcome" where
  "exec_find_first sm d s find_set =
     and_then (xreg_at (sm_xregs sm) s) (\<lambda>v. Ok (unary sm d s v (find_first_value find_set v)))"

text \<open>The arms that read a checked source, check the destination and write a function of the
  source.\<close>

definition exec_unary ::
  "scalar_machine \<Rightarrow> u64 \<Rightarrow> u32 \<Rightarrow> u8 \<Rightarrow> u8 \<Rightarrow> (u64 \<Rightarrow> u64) \<Rightarrow> machine_result + reg_outcome" where
  "exec_unary sm pc word d s f =
     and_then (xreg_get sm pc word s) (\<lambda>v.
     and_then (xreg_get sm pc word d) (\<lambda>_. Ok (unary sm d s v (f v))))"

definition exec_move_register ::
  "scalar_machine \<Rightarrow> u64 \<Rightarrow> u32 \<Rightarrow> u8 \<Rightarrow> u8 \<Rightarrow> machine_result + reg_outcome" where
  "exec_move_register sm pc word d s = exec_unary sm pc word d s (\<lambda>v. v)"

definition exec_negate ::
  "scalar_machine \<Rightarrow> u64 \<Rightarrow> u32 \<Rightarrow> u8 \<Rightarrow> u8 \<Rightarrow> u8 \<Rightarrow> machine_result + reg_outcome" where
  "exec_negate sm pc word dtype d s =
     (if dtype \<noteq> 0 then unsupported pc word
      else and_then (xreg_get sm pc word s) (\<lambda>v.
           and_then (xreg_get sm pc word d) (\<lambda>_.
             let signed_overflow = (v = i64_min) in
             Ok ((unary sm d s v (- v))\<lparr>ro_overflow := signed_overflow,
               ro_spr2 := update_neg_overflow_spr2 (sm_architecture sm) (sm_spr2 sm) pc signed_overflow\<rparr>))))"

definition exec_absolute ::
  "scalar_machine \<Rightarrow> u64 \<Rightarrow> u32 \<Rightarrow> u8 \<Rightarrow> u8 \<Rightarrow> u8 \<Rightarrow> machine_result + reg_outcome" where
  "exec_absolute sm pc word dtype d s =
     (if dtype \<noteq> 0 then unsupported pc word
      else exec_unary sm pc word d s (\<lambda>v. if sint v < 0 then - v else v))"

definition exec_integer_sqrt ::
  "scalar_machine \<Rightarrow> u64 \<Rightarrow> u32 \<Rightarrow> u8 \<Rightarrow> u8 \<Rightarrow> u8 \<Rightarrow> machine_result + reg_outcome" where
  "exec_integer_sqrt sm pc word dtype d s =
     (if dtype \<noteq> 0 then unsupported pc word
      else exec_unary sm pc word d s (\<lambda>v. isqrt (unsigned_abs v)))"

definition exec_bitwise_not ::
  "scalar_machine \<Rightarrow> u64 \<Rightarrow> u32 \<Rightarrow> u8 \<Rightarrow> u8 \<Rightarrow> u8 \<Rightarrow> machine_result + reg_outcome" where
  "exec_bitwise_not sm pc word dtype d s =
     (if dtype \<noteq> 3 then unsupported pc word else exec_unary sm pc word d s (\<lambda>v. NOT v))"

definition exec_zero_extend ::
  "scalar_machine \<Rightarrow> u64 \<Rightarrow> u32 \<Rightarrow> zero_extend_width \<Rightarrow> u8 \<Rightarrow> u8 \<Rightarrow> machine_result + reg_outcome" where
  "exec_zero_extend sm pc word width d s =
     exec_unary sm pc word d s (\<lambda>v. v AND zero_extend_mask width)"

definition exec_sign_extend ::
  "scalar_machine \<Rightarrow> u64 \<Rightarrow> u32 \<Rightarrow> u8 \<Rightarrow> u8 \<Rightarrow> u8 \<Rightarrow> machine_result + reg_outcome" where
  "exec_sign_extend sm pc word width_bits d s =
     (let shift = 64 - unat width_bits in
      exec_unary sm pc word d s (\<lambda>v. signed_drop_bit shift (push_bit shift v)))"

text \<open>The insertions replace a field of the destination.\<close>

definition insert_field :: "u64 \<Rightarrow> nat \<Rightarrow> nat \<Rightarrow> u64 \<Rightarrow> u64" where
  "insert_field prior pos width v =
     (let m = push_bit pos (push_bit width 1 - 1)
      in (prior AND NOT m) OR (push_bit pos v AND m))"

definition exec_insert ::
  "scalar_machine \<Rightarrow> u64 \<Rightarrow> u32 \<Rightarrow> u8 \<Rightarrow> u8 \<Rightarrow> u8 \<Rightarrow> u8 \<Rightarrow> machine_result + reg_outcome" where
  "exec_insert sm pc word d s lsb width_bits =
     and_then (xreg_get sm pc word s) (\<lambda>v.
     and_then (xreg_get sm pc word d) (\<lambda>prior.
       if 64 < unat lsb + unat width_bits then unsupported pc word
       else Ok (unary sm d s v (insert_field prior (unat lsb) (unat width_bits) v))))"

definition exec_insert_immediate ::
  "scalar_machine \<Rightarrow> u64 \<Rightarrow> u32 \<Rightarrow> u8 \<Rightarrow> u8 \<Rightarrow> u8 \<Rightarrow> bool \<Rightarrow> machine_result + reg_outcome" where
  "exec_insert_immediate sm pc word d pos immediate extended =
     and_then (xreg_get sm pc word d) (\<lambda>prior.
       let width = (if extended then 8 else max (8 - leading_zeros immediate) 1) in
       if 64 < unat pos + width then unsupported pc word
       else Ok (unary sm d d prior (insert_field prior (unat pos) width (ucast immediate))))"

definition exec_bit_set ::
  "scalar_machine \<Rightarrow> u64 \<Rightarrow> u32 \<Rightarrow> u8 \<Rightarrow> u8 \<Rightarrow> bool \<Rightarrow> machine_result + reg_outcome" where
  "exec_bit_set sm pc word d s sets =
     and_then (xreg_get sm pc word s) (\<lambda>v.
     and_then (xreg_get sm pc word d) (\<lambda>prior.
       let m = push_bit (unat (v AND 63)) 1 in
       Ok (unary sm d s v (if sets then prior OR m else prior AND NOT m))))"

definition exec_key7 ::
  "scalar_machine \<Rightarrow> scalar_key7_operation \<Rightarrow> u8 \<Rightarrow> u16 \<Rightarrow> u8 option \<Rightarrow> machine_result + reg_outcome" where
  "exec_key7 sm operation d encoded halfword_lane =
     and_then (xreg_at (sm_xregs sm) d) (\<lambda>prior.
       and_then (case operation of
           MoveImmediate \<Rightarrow> Ok (ucast encoded)
         | MoveKeep \<Rightarrow>
             (case halfword_lane of
                None \<Rightarrow> Err Panic
              | Some lane \<Rightarrow>
                  let shift = unat lane * 16 in
                  Ok ((prior AND NOT (push_bit shift 0xffff)) OR push_bit shift (ucast encoded))))
       (\<lambda>v. let keep = (operation = MoveKeep) in
         Ok \<lparr>ro_destination = d, ro_source_register = (if keep then Some d else None),
             ro_source_value = (if keep then Some prior else None), ro_second_register = None,
             ro_second_value = None, ro_value = v, ro_overflow = False, ro_spr2 = sm_spr2 sm\<rparr>))"

definition exec_key8 ::
  "scalar_machine \<Rightarrow> u64 \<Rightarrow> scalar_instruction \<Rightarrow> u8 \<Rightarrow> machine_result + reg_outcome" where
  "exec_key8 sm pc hint s =
     and_then (xreg_at (sm_xregs sm) s) (\<lambda>v.
     and_then (map_err (\<lambda>e. Fail (Arithmetic e)) (evaluate_integer_immediate hint v pc (sm_spr2 sm)))
     (\<lambda>result.
       Ok \<lparr>ro_destination = sio_destination_register result, ro_source_register = Some s,
           ro_source_value = Some v, ro_second_register = None, ro_second_value = None,
           ro_value = sio_value result, ro_overflow = sio_signed_overflow result,
           ro_spr2 = sio_spr2 result\<rparr>))"

definition exec_hint :: "scalar_machine \<Rightarrow> u64 \<Rightarrow> u32 \<Rightarrow> scalar_instruction \<Rightarrow> machine_result + reg_outcome" where
  "exec_hint sm pc word hint =
     (case hint of
        ScalarMoveX8Immediate d encoded \<Rightarrow>
          Ok \<lparr>ro_destination = d, ro_source_register = None, ro_source_value = None,
              ro_second_register = None, ro_second_value = None, ro_value = ucast encoded * 8,
              ro_overflow = False, ro_spr2 = sm_spr2 sm\<rparr>
      | ScalarKey0 operation dtype d a b \<Rightarrow> exec_key0 sm pc word operation dtype d a b
      | ScalarKey2ShiftLeft dtype d c encoded \<Rightarrow> exec_shift_left sm pc word dtype d c encoded
      | ScalarKey2ShiftRight dtype d c encoded \<Rightarrow> exec_shift_right sm pc word dtype d c encoded
      | ScalarKey2BitCount operation d s \<Rightarrow> exec_bit_count sm operation d s
      | ScalarKey2FindFirst d s find_set \<Rightarrow> exec_find_first sm d s find_set
      | ScalarKey2MoveRegister _ d s \<Rightarrow> exec_move_register sm pc word d s
      | ScalarKey2Negate dtype d s \<Rightarrow> exec_negate sm pc word dtype d s
      | ScalarKey2Absolute dtype d s \<Rightarrow> exec_absolute sm pc word dtype d s
      | ScalarKey2IntegerSqrt dtype d s \<Rightarrow> exec_integer_sqrt sm pc word dtype d s
      | ScalarKey2BitwiseNot dtype d s \<Rightarrow> exec_bitwise_not sm pc word dtype d s
      | ScalarKey2ZeroExtend width d s \<Rightarrow> exec_zero_extend sm pc word width d s
      | ScalarKey2SignExtend width_bits d s \<Rightarrow> exec_sign_extend sm pc word width_bits d s
      | ScalarKey2Insert d s lsb width_bits \<Rightarrow> exec_insert sm pc word d s lsb width_bits
      | ScalarKey2InsertImmediate d pos immediate extended \<Rightarrow>
          exec_insert_immediate sm pc word d pos immediate extended
      | ScalarKey2BitSet d s sets \<Rightarrow> exec_bit_set sm pc word d s sets
      | ScalarKey7 operation d encoded lane \<Rightarrow> exec_key7 sm operation d encoded lane
      | ScalarKey8 _ (Some _) s _ \<Rightarrow> exec_key8 sm pc hint s
      | _ \<Rightarrow> unsupported pc word)"

definition execute_word ::
  "scalar_machine \<Rightarrow> u64 \<Rightarrow> u32 \<Rightarrow> scalar_machine \<times> (machine_result + scalar_step)" where
  "execute_word sm pc word =
     (case and_then (ok_or (from_word (sm_architecture sm) word) (Fail (UnsupportedWord pc word)))
             (\<lambda>hint. and_then (exec_hint sm pc word hint) (\<lambda>out.
                and_then (xreg_at (sm_xregs sm) (ro_destination out)) (\<lambda>prior. Ok (out, prior)))) of
        Err e \<Rightarrow> (sm, Err e)
      | Ok (out, prior) \<Rightarrow>
          (sm\<lparr>sm_xregs := (sm_xregs sm)[unat (ro_destination out) := ro_value out],
              sm_spr2 := ro_spr2 out\<rparr>,
           Ok \<lparr>ss_pc = pc, ss_word = word, ss_destination_register = ro_destination out,
               ss_prior_destination_value = prior, ss_source_register = ro_source_register out,
               ss_source_value = ro_source_value out,
               ss_second_source_register = ro_second_register out,
               ss_second_source_value = ro_second_value out, ss_value = ro_value out,
               ss_signed_overflow = ro_overflow out, ss_prior_spr2 = sm_spr2 sm,
               ss_spr2 = ro_spr2 out\<rparr>))"

section \<open>Arithmetic of the key-0 operations\<close>

lemma sdiv_in_range:
  fixes x y :: u64
  assumes "y \<noteq> 0" "\<not> (x = i64_min \<and> y = - 1)"
  shows "\<not> overflows (sint x sdiv sint y)"
proof
  assume o: "overflows (sint x sdiv sint y)"
  have r: "sint x sdiv sint y \<in> {- \<bar>sint x\<bar>..\<bar>sint x\<bar>}" by (rule sdiv_int_range)
  have "- (2 ^ 63) \<le> sint x" "sint x < 2 ^ 63" using sint_range64 [of x] by auto
  moreover have "sint x sdiv sint y < - (2 ^ 63) \<or> 2 ^ 63 \<le> sint x sdiv sint y"
    using o by (auto simp: overflows_def)
  moreover have "- \<bar>sint x\<bar> \<le> sint x sdiv sint y" "sint x sdiv sint y \<le> \<bar>sint x\<bar>"
    using r by auto
  ultimately have q: "sint x = - (2 ^ 63)" "sint x sdiv sint y = - sint x"
    by linarith+
  then have "sint y = - 1" using int_sdiv_negated_is_minus1 [of "sint x" "sint y"] by simp
  moreover have "x = i64_min" using q(1) sint_i64_min by (metis signed_word_eqI)
  ultimately show False using assms(2) sint_minus_one [of y] by blast
qed

lemma smod_in_range: "y \<noteq> 0 \<Longrightarrow> \<not> overflows (sint x smod sint y)" for x y :: u64
proof -
  assume "y \<noteq> 0"
  then have "sint y \<noteq> 0" by (simp add: signed_eq_0_iff)
  with smod_int_range [of "sint y" "sint x"] sint_range64 [of y] show ?thesis
    by (auto simp: overflows_def)
qed

definition key0_supported :: "scalar_key0_operation \<Rightarrow> u8 \<Rightarrow> bool" where
  "key0_supported operation dtype \<longleftrightarrow>
     dtype \<in> set (case operation of
        Key0Divide \<Rightarrow> [0, 1] | Key0Remainder \<Rightarrow> [0, 1]
      | Key0And \<Rightarrow> [3] | Key0Or \<Rightarrow> [3] | Key0Xor \<Rightarrow> [3] | _ \<Rightarrow> [0])"

text \<open>The result \<open>v\<close> and the overflow flag \<open>ov\<close> that the operands \<open>x\<close>, \<open>y\<close> and the prior
  destination must give, over the integers. A signed result that overflows is the exact one
  modulo \<open>2 ^ 64\<close>.\<close>

definition key0_signed :: "int \<Rightarrow> u64 \<Rightarrow> bool \<Rightarrow> bool" where
  "key0_signed exact v ov \<longleftrightarrow>
     v = word_of_int exact \<and> (ov \<longleftrightarrow> overflows exact) \<and> (\<not> ov \<longrightarrow> sint v = exact)"

definition key0_exact :: "scalar_key0_operation \<Rightarrow> u8 \<Rightarrow> u64 \<Rightarrow> u64 \<Rightarrow> u64 \<Rightarrow> u64 \<Rightarrow> bool \<Rightarrow> bool" where
  "key0_exact operation dtype prior x y v ov \<longleftrightarrow>
     (case operation of
        Key0Add \<Rightarrow> key0_signed (sint x + sint y) v ov
      | Key0Subtract \<Rightarrow> key0_signed (sint x - sint y) v ov
      | Key0Multiply \<Rightarrow> key0_signed (sint x * sint y) v ov
      | Key0MultiplyAdd \<Rightarrow>
          v = word_of_int (sint prior + sint x * sint y) \<and>
          (ov \<longleftrightarrow> overflows (sint x * sint y) \<or> overflows (sint prior + sint x * sint y)) \<and>
          (\<not> ov \<longrightarrow> sint v = sint prior + sint x * sint y)
      | Key0Divide \<Rightarrow> \<not> ov \<and>
          (if dtype = 0
           then sint v = (if sint y = 0 then (if sint x < 0 then - (2 ^ 63) else 2 ^ 63 - 1)
                          else if sint x sdiv sint y = 2 ^ 63 then - (2 ^ 63)
                          else sint x sdiv sint y)
           else unat v = (if unat y = 0 then 2 ^ 64 - 1 else unat x div unat y))
      | Key0Remainder \<Rightarrow> \<not> ov \<and>
          (if dtype = 0 then sint v = (if sint y = 0 then sint x else sint x smod sint y)
           else unat v = (if unat y = 0 then unat x else unat x mod unat y))
      | Key0Minimum \<Rightarrow> \<not> ov \<and> sint v = min (sint x) (sint y)
      | Key0Maximum \<Rightarrow> \<not> ov \<and> sint v = max (sint x) (sint y)
      | Key0And \<Rightarrow> \<not> ov \<and> (\<forall>k. bit v k \<longleftrightarrow> bit x k \<and> bit y k)
      | Key0Or \<Rightarrow> \<not> ov \<and> (\<forall>k. bit v k \<longleftrightarrow> bit x k \<or> bit y k)
      | Key0Xor \<Rightarrow> \<not> ov \<and> (\<forall>k. bit v k \<longleftrightarrow> bit x k \<noteq> bit y k))"

lemma key0_signed_overflowing:
  "overflowing_add x y = (v, ov) \<Longrightarrow> key0_signed (sint x + sint y) v ov"
  "overflowing_sub x y = (v, ov) \<Longrightarrow> key0_signed (sint x - sint y) v ov"
  "overflowing_mul x y = (v, ov) \<Longrightarrow> key0_signed (sint x * sint y) v ov"
  using overflowing_add_exact [of x y v] overflowing_sub_exact [of x y v] overflowing_mul_exact [of x y v]
  by (auto simp: key0_signed_def overflowing_add_def overflowing_sub_def overflowing_mul_def)

lemma key0_madd:
  assumes "overflowing_mul x y = (p, o1)" and "overflowing_add prior p = (v, o2)"
  shows "v = word_of_int (sint prior + sint x * sint y) \<and>
    (o1 \<or> o2 \<longleftrightarrow> overflows (sint x * sint y) \<or> overflows (sint prior + sint x * sint y)) \<and>
    (\<not> (o1 \<or> o2) \<longrightarrow> sint v = sint prior + sint x * sint y)"
proof -
  have m: "key0_signed (sint x * sint y) p o1" and a: "key0_signed (sint prior + sint p) v o2"
    using assms by (simp_all add: key0_signed_overflowing)
  have "v = prior + x * y"
    using assms by (simp add: overflowing_add_def overflowing_mul_def)
  moreover have "(word_of_int (sint prior + sint x * sint y) :: u64) = prior + x * y" by simp
  ultimately show ?thesis using m a by (auto simp: key0_signed_def)
qed

lemma key0_divide:
  "sint (if y = 0 then (if sint x < 0 then i64_min else i64_max)
         else if x = i64_min \<and> y = - 1 then i64_min else i64_div x y)
     = (if sint y = 0 then (if sint x < 0 then - (2 ^ 63) else 2 ^ 63 - 1)
        else if sint x sdiv sint y = 2 ^ 63 then - (2 ^ 63) else sint x sdiv sint y)"
  for x y :: u64
proof -
  have max: "sint i64_max = 2 ^ 63 - 1" by (simp add: i64_max_def i64_min_def)
  have fit: "sint (i64_div x y) = sint x sdiv sint y \<and> sint x sdiv sint y \<noteq> 2 ^ 63"
    if "y \<noteq> 0" "\<not> (x = i64_min \<and> y = - 1)"
    unfolding i64_div_def using sint_of_int64 [OF sdiv_in_range [OF that]] sdiv_in_range [OF that]
    by (auto simp: overflows_def)
  have top: "sint x sdiv sint y = 2 ^ 63" if "x = i64_min" "y = - 1"
    using that by (simp add: sint_i64_min)
  have zero: "sint y = 0 \<longleftrightarrow> y = 0" by (simp add: signed_eq_0_iff)
  show ?thesis using fit top max zero by (auto simp: sint_i64_min)
qed

lemma key0_value_supported:
  "key0_value operation dtype prior x y = None \<longleftrightarrow> \<not> key0_supported operation dtype"
  by (cases operation) (auto simp: key0_value_def key0_supported_def split: prod.splits)

lemma key0_value_exact:
  assumes "key0_value operation dtype prior x y = Some (v, ov)"
  shows "key0_exact operation dtype prior x y v ov"
proof (cases operation)
  case Key0MultiplyAdd
  then obtain p o1 o2 where "overflowing_mul x y = (p, o1)" "overflowing_add prior p = (v, o2)"
    "ov = (o1 \<or> o2)"
    using assms by (auto simp: key0_value_def split: if_splits prod.splits)
  with Key0MultiplyAdd key0_madd [of x y p o1 prior v o2] show ?thesis
    by (simp only: key0_exact_def scalar_key0_operation.case) blast
next
  case Key0Divide
  show ?thesis
  proof (cases "dtype = 0")
    case True
    with Key0Divide assms key0_divide [of y x] show ?thesis
      by (simp only: key0_exact_def key0_value_def scalar_key0_operation.case if_True
          option.inject prod.inject) auto
  next
    case False
    with Key0Divide assms show ?thesis
      by (auto simp: key0_exact_def key0_value_def checked_div_def unat_div_distrib unat_eq_zero
          unsigned_minus_1_eq_mask mask_eq_exp_minus_1
          split: if_splits)
  qed
next
  case Key0Remainder
  have "sint (i64_rem x y) = sint x smod sint y" if "y \<noteq> 0"
    unfolding i64_rem_def by (rule sint_of_int64 [OF smod_in_range [OF that]])
  moreover have "sint x smod sint y = 0" if "y = - 1"
    using that by (simp add: smod_int_alt_def)
  ultimately show ?thesis
    using Key0Remainder assms signed_eq_0_iff [of y]
    by (auto simp: key0_exact_def key0_value_def checked_rem_def unat_mod_distrib unat_eq_zero
        split: if_splits)
qed (use assms in \<open>auto simp: key0_exact_def key0_value_def bit_simps split: if_splits
      dest: bit_imp_le_length intro: key0_signed_overflowing\<close>)

section \<open>Bit-field operations\<close>

lemma bit_insert_field:
  assumes "pos + width \<le> 64"
  shows "bit (insert_field prior pos width v) k \<longleftrightarrow>
     (if pos \<le> k \<and> k < pos + width then bit v (k - pos) else bit prior k)"
proof -
  have "push_bit width 1 - 1 = (mask width :: u64)" by (simp add: mask_eq_exp_minus_1)
  then show ?thesis
    using assms by (cases "k < 64")
      (auto simp: insert_field_def Let_def bit_simps dest: bit_imp_le_length)
qed

lemma isqrt_floor:
  "unat (isqrt w) * unat (isqrt w) \<le> unat w \<and> unat w < (unat (isqrt w) + 1) * (unat (isqrt w) + 1)"
proof -
  have "isqrt_nat (unat w) \<le> isqrt_nat (unat w) * isqrt_nat (unat w)" by simp
  also have "\<dots> \<le> unat w" using isqrt_nat_spec [of "unat w"] by simp
  also have "\<dots> < 2 ^ 64" using unat_u64_less [of w] by simp
  finally have "isqrt_nat (unat w) < 2 ^ 64" .
  then have "unat (isqrt w) = isqrt_nat (unat w)" by (simp add: isqrt_def)
  with isqrt_nat_spec [of "unat w"] show ?thesis by simp
qed

section \<open>Execution keeps the machine well-formed\<close>

definition sm_ok :: "scalar_machine \<Rightarrow> bool" where
  "sm_ok sm \<longleftrightarrow> length (sm_xregs sm) = x_register_count \<and> length (sm_spr_values sm) = spr_capacity"

lemmas exec_defs = exec_key0_def exec_shift_left_def exec_shift_right_def exec_bit_count_def
  exec_find_first_def exec_move_register_def exec_unary_def exec_negate_def exec_absolute_def
  exec_integer_sqrt_def exec_bitwise_not_def exec_zero_extend_def exec_sign_extend_def
  exec_insert_def exec_insert_immediate_def exec_bit_set_def exec_key7_def exec_key8_def
  shift_operand_def unary_def xreg_get_def xreg_at_def unsupported_def Let_def

lemma evaluate_immediate_spr2:
  "evaluate_integer_immediate (ScalarKey8 operation (Some d) s imm) v pc spr2 = Ok out \<Longrightarrow>
     sio_destination_register out = d \<and> (\<not> sio_signed_overflow out \<longrightarrow> sio_spr2 out = spr2)"
  by (auto simp: evaluate_integer_immediate_def update_overflow_spr2_def
      split: if_splits scalar_key8_operation.splits prod.splits option.splits)

lemma exec_hint_safe:
  assumes "length (sm_xregs sm) = 32" and "instr_ok (sm_architecture sm) hint"
  shows "(case exec_hint sm pc word hint of
     Err e \<Rightarrow> e \<noteq> Panic
   | Ok out \<Rightarrow> unat (ro_destination out) < 32 \<and> (\<not> ro_overflow out \<longrightarrow> ro_spr2 out = sm_spr2 sm))"
proof (cases hint)
  case (ScalarKey8 operation d s imm)
  show ?thesis
  proof (cases d)
    case (Some r)
    with assms ScalarKey8 show ?thesis
      using evaluate_immediate_spr2 [of operation r s imm]
      by (auto simp: exec_hint_def exec_key8_def xreg_at_def reg_ok_def map_err_def and_then_def
          split: sum.splits)
  qed (simp add: exec_hint_def ScalarKey8 unsupported_def)
qed (use assms in \<open>auto simp: exec_hint_def exec_defs reg_ok_def update_overflow_spr2_def
      update_neg_overflow_spr2_def and_then_def split: sum.splits option.splits if_splits
      scalar_key7_operation.splits\<close>)

section \<open>The initial machine\<close>

lemma length_fill_range [simp]: "length (fill_range i j f xs) = length xs"
proof -
  have "length (fold (\<lambda>k ys. ys[i + k := f k]) ks ys) = length ys" for ks :: "nat list" and ys
    by (induction ks arbitrary: ys) simp_all
  then show ?thesis by (simp add: fill_range_def)
qed

lemma length_fill_slots [simp]: "length (fill_slots is v xs) = length xs"
  unfolding fill_slots_def by (induction "is" arbitrary: xs) simp_all

lemma nth_fill_range:
  assumes "k < length xs"
  shows "fill_range i j f xs ! k = (if i \<le> k \<and> k < j then f (k - i) else xs ! k)"
proof -
  have "fold (\<lambda>k ys. ys[i + k := f k]) [0..<n] xs ! k = (if i \<le> k \<and> k < i + n then f (k - i) else xs ! k) \<and>
      length (fold (\<lambda>k ys. ys[i + k := f k]) [0..<n] xs) = length xs" for n
    using assms by (induction n) (auto simp: nth_list_update less_Suc_eq)
  then show ?thesis by (auto simp: fill_range_def)
qed

lemma nth_fill_slots:
  "k < length xs \<Longrightarrow> fill_slots is v xs ! k = (if k \<in> set is then v else xs ! k)"
  unfolding fill_slots_def by (induction "is" arbitrary: xs) (auto simp: nth_list_update)

lemma initial_machine_ok: "sm_ok (from_pem_initial_state arch)"
  by (cases arch) (simp_all add: sm_ok_def from_pem_initial_state_def machine_new_def initial_sprs_def Let_def)

lemma initial_machine_spr11: "spr_value (from_pem_initial_state arch) 11 = Some 0"
  by (cases arch) (simp_all add: spr_value_def from_pem_initial_state_def machine_new_def initial_sprs_def Let_def
      nth_fill_slots nth_fill_range spr_capacity_def)

section \<open>Execution of one word\<close>

lemma execute_word_outcomes:
  "(\<exists>e. execute_word sm pc word = (sm, Err e)) \<or>
   (\<exists>hint out. from_word (sm_architecture sm) word = Some hint \<and>
      exec_hint sm pc word hint = Ok out \<and> unat (ro_destination out) < length (sm_xregs sm) \<and>
      execute_word sm pc word =
        (sm\<lparr>sm_xregs := (sm_xregs sm)[unat (ro_destination out) := ro_value out],
            sm_spr2 := ro_spr2 out\<rparr>,
         Ok \<lparr>ss_pc = pc, ss_word = word, ss_destination_register = ro_destination out,
             ss_prior_destination_value = sm_xregs sm ! unat (ro_destination out),
             ss_source_register = ro_source_register out, ss_source_value = ro_source_value out,
             ss_second_source_register = ro_second_register out,
             ss_second_source_value = ro_second_value out, ss_value = ro_value out,
             ss_signed_overflow = ro_overflow out, ss_prior_spr2 = sm_spr2 sm,
             ss_spr2 = ro_spr2 out\<rparr>))"
  by (auto simp: execute_word_def and_then_def ok_or_def xreg_at_def split: option.splits sum.splits)

lemma exec_hint_no_panic:
  assumes "sm_ok sm" "from_word (sm_architecture sm) word = Some hint"
  shows "exec_hint sm pc word hint \<noteq> Err Panic"
    and "exec_hint sm pc word hint = Ok out \<Longrightarrow>
      unat (ro_destination out) < 32 \<and> (\<not> ro_overflow out \<longrightarrow> ro_spr2 out = sm_spr2 sm)"
  using exec_hint_safe [of sm hint pc word] assms from_word_ok [OF assms(2)]
  by (auto simp: sm_ok_def x_register_count_def split: sum.splits)

lemma execute_word_no_panic:
  assumes "sm_ok sm"
  shows "snd (execute_word sm pc word) \<noteq> Err Panic"
  using exec_hint_no_panic [OF assms, of word _ pc] assms
  by (auto simp: execute_word_def and_then_def ok_or_def xreg_at_def sm_ok_def x_register_count_def
      split: option.splits sum.splits)

text \<open>C11. On a well-formed register file, executing any 32-bit word never panics: every register
  index that the decoder can produce for an executed arm is inside the 32 registers. An error leaves
  the machine as it was. A success writes exactly one general register and the overflow word
  \<open>SPR2\<close>; it reports the register, its prior value and its new value, keeps every other
  register and the rest of the machine, and leaves \<open>SPR2\<close> alone unless the operation
  overflowed.\<close>

theorem execute_word_frame:
  assumes "sm_ok sm"
  shows "case execute_word sm pc word of
      (sm', Err e) \<Rightarrow> sm' = sm \<and> e \<noteq> Panic
    | (sm', Ok step) \<Rightarrow>
        sm_ok sm' \<and>
        sm' = sm\<lparr>sm_xregs := (sm_xregs sm)[unat (ss_destination_register step) := ss_value step],
                 sm_spr2 := ss_spr2 step\<rparr> \<and>
        unat (ss_destination_register step) < x_register_count \<and>
        ss_prior_destination_value step = sm_xregs sm ! unat (ss_destination_register step) \<and>
        (\<not> ss_signed_overflow step \<longrightarrow> sm_spr2 sm' = sm_spr2 sm)"
  using execute_word_outcomes [of sm pc word] execute_word_no_panic [OF assms, of pc word]
    exec_hint_no_panic [OF assms] assms
  by (fastforce simp: sm_ok_def x_register_count_def)

definition demo_machine :: scalar_machine where
  "demo_machine = (machine_new Dav2201 (replicate 32 0) 0)"

theorem execute_word_frame_witness:
  "sm_ok demo_machine \<and> snd (execute_word demo_machine 0x100 0) \<noteq> Err Panic"
proof
  show ok: "sm_ok demo_machine"
    by (simp add: sm_ok_def demo_machine_def machine_new_def x_register_count_def)
  show "snd (execute_word demo_machine 0x100 0) \<noteq> Err Panic"
    using execute_word_frame [OF ok, of "0x100" 0] by (auto split: prod.splits sum.splits)
qed


section \<open>Results of the arithmetic and bit-field arms\<close>

lemma execute_word_ok:
  assumes "from_word (sm_architecture sm) word = Some hint" "execute_word sm pc word = (sm', Ok step)"
  obtains out where "exec_hint sm pc word hint = Ok out"
    "unat (ro_destination out) < length (sm_xregs sm)"
    "ss_value step = ro_value out" "ss_signed_overflow step = ro_overflow out"
    "sm_xregs sm' = (sm_xregs sm)[unat (ro_destination out) := ro_value out]"
    "sm_spr2 sm' = ro_spr2 out"
  using execute_word_outcomes [of sm pc word] assms by auto

lemma xreg_get_ok:
  "xreg_get sm pc word r = Ok v \<longleftrightarrow> unat r < length (sm_xregs sm) \<and> v = sm_xregs sm ! unat r"
  by (auto simp: xreg_get_def unsupported_def)

lemma and_then_ok: "and_then r f = Ok v \<longleftrightarrow> (\<exists>x. r = Ok x \<and> f x = Ok v)"
  by (auto simp: and_then_def split: sum.splits)

definition key0_executes :: "scalar_key0_operation \<Rightarrow> u8 \<Rightarrow> u8 list \<Rightarrow> bool" where
  "key0_executes operation dtype rs \<longleftrightarrow>
     key0_supported operation dtype \<and> (\<forall>r\<in>set rs. unat r < x_register_count)"

lemma exec_key0_cases:
  assumes "sm_ok sm"
  shows "case exec_key0 sm pc word operation dtype d a b of
      Err e \<Rightarrow> \<not> key0_executes operation dtype [d, a, b] \<and> e = Fail (UnsupportedWord pc word)
    | Ok out \<Rightarrow> key0_executes operation dtype [d, a, b] \<and> ro_destination out = d \<and>
        key0_exact operation dtype (sm_xregs sm ! unat d) (sm_xregs sm ! unat a)
          (sm_xregs sm ! unat b) (ro_value out) (ro_overflow out)"
proof (cases "key0_value operation dtype (sm_xregs sm ! unat d) (sm_xregs sm ! unat a) (sm_xregs sm ! unat b)")
  case None
  then have "\<not> key0_supported operation dtype"
    using key0_value_supported [of operation dtype "sm_xregs sm ! unat d" "sm_xregs sm ! unat a"
        "sm_xregs sm ! unat b"] by simp
  with None assms show ?thesis
    by (auto simp: exec_key0_def and_then_def xreg_get_def unsupported_def key0_executes_def)
next
  case (Some vo)
  then have "key0_supported operation dtype"
    using key0_value_supported [of operation dtype "sm_xregs sm ! unat d" "sm_xregs sm ! unat a"
        "sm_xregs sm ! unat b"] by simp
  with Some assms key0_value_exact [of operation dtype "sm_xregs sm ! unat d" "sm_xregs sm ! unat a"
      "sm_xregs sm ! unat b" "fst vo" "snd vo"] show ?thesis
    by (cases vo) (auto simp: exec_key0_def and_then_def xreg_get_def unsupported_def sm_ok_def
        key0_executes_def)
qed

text \<open>C12. The three-register arithmetic is the arithmetic of the signed or unsigned integers that
  the registers hold. Addition, subtraction and multiplication write the exact signed result
  modulo \<open>2 ^ 64\<close> and flag overflow precisely when the exact result leaves the 64-bit range;
  multiply-add does so too, and flags precisely when the exact product or the exact sum leaves the
  range. Division truncates towards zero and the remainder has the sign of the dividend, in both
  readings, and neither flags anything: a zero divisor gives the extreme value of the dividend's
  sign (all ones when unsigned) and leaves the dividend as the remainder, and the one signed
  quotient that does not fit, \<open>2 ^ 63\<close>, wraps to \<open>- 2 ^ 63\<close>. Minimum, maximum and the logical
  operations are those of the operands. The result is stored in the destination. The word executes
  exactly when the operation supports the data type and the three registers exist (the decoder of
  one architecture produces numbers up to 63), and is otherwise refused with \<open>UnsupportedWord\<close>,
  the machine unchanged.\<close>

theorem key0_arithmetic_exact:
  assumes "sm_ok sm"
    and "from_word (sm_architecture sm) word = Some (ScalarKey0 operation dtype d a b)"
  shows "case execute_word sm pc word of
      (sm', Err e) \<Rightarrow>
        \<not> key0_executes operation dtype [d, a, b] \<and> e = Fail (UnsupportedWord pc word) \<and> sm' = sm
    | (sm', Ok step) \<Rightarrow> key0_executes operation dtype [d, a, b] \<and>
        key0_exact operation dtype (sm_xregs sm ! unat d) (sm_xregs sm ! unat a)
          (sm_xregs sm ! unat b) (ss_value step) (ss_signed_overflow step) \<and>
        sm_xregs sm' = (sm_xregs sm)[unat d := ss_value step]"
  using exec_key0_cases [OF assms(1), where pc = pc and word = word and operation = operation
      and dtype = dtype and d = d and a = a and b = b] assms
  by (auto simp: execute_word_def exec_hint_def ok_or_def and_then_def xreg_at_def sm_ok_def
      key0_executes_def split: sum.splits)

text \<open>A machine whose register 2 holds the largest positive value; adding it to itself overflows.\<close>

definition full_machine :: scalar_machine where
  "full_machine = machine_new Dav3510 ((replicate 32 0)[2 := i64_max, 3 := 1]) 0"

lemma demo_key0: "from_word Dav3510 0x00022181 = Some (ScalarKey0 Key0Add 0 1 2 3)"
  by (simp add: decode_eval decode_key0_def key0_registers_def key0_operation_def dtype_bits_def)

lemma full_machine_add:
  "\<exists>sm' step. execute_word full_machine 0x40 0x00022181 = (sm', Ok step) \<and> ss_value step = i64_min \<and>
     ss_signed_overflow step \<and> ss_spr2 step = 0x100010"
  by (simp add: execute_word_def full_machine_def machine_new_def demo_key0 and_then_def ok_or_def
      exec_hint_def exec_key0_def xreg_get_def xreg_at_def key0_value_def overflowing_add_def
      update_overflow_spr2_def i64_max_def i64_min_def overflows_def)

theorem key0_arithmetic_exact_witness:
  "\<exists>step. snd (execute_word full_machine 0x40 0x00022181) = Ok step \<and> ss_value step = i64_min \<and>
     key0_exact Key0Add 0 0 i64_max 1 (ss_value step) (ss_signed_overflow step)"
proof -
  obtain sm' step where e: "execute_word full_machine 0x40 0x00022181 = (sm', Ok step)"
    and v: "ss_value step = i64_min" using full_machine_add by blast
  have d: "from_word (sm_architecture full_machine) 0x00022181 = Some (ScalarKey0 Key0Add 0 1 2 3)"
    by (simp add: full_machine_def machine_new_def demo_key0)
  have ok: "sm_ok full_machine" by (simp add: full_machine_def machine_new_def sm_ok_def x_register_count_def)
  show ?thesis using key0_arithmetic_exact [OF ok d, of "0x40"] e v
    by (simp add: full_machine_def machine_new_def)
qed

text \<open>The insertions replace exactly the addressed field: bit \<open>k\<close> of the result is bit
  \<open>k - lsb\<close> of the source inside the field and the old bit of the destination outside it, and a
  field that would cross bit 63 is refused with \<open>UnsupportedWord\<close>.\<close>

theorem insert_replaces_field:
  assumes "from_word (sm_architecture sm) word = Some (ScalarKey2Insert d s lsb width_bits)"
    and "sm_ok sm"
  shows "case snd (execute_word sm pc word) of
      Err e \<Rightarrow> 64 < unat lsb + unat width_bits \<and> e = Fail (UnsupportedWord pc word)
    | Ok step \<Rightarrow> unat lsb + unat width_bits \<le> 64 \<and>
        (\<forall>k. bit (ss_value step) k \<longleftrightarrow>
           (if unat lsb \<le> k \<and> k < unat lsb + unat width_bits
            then bit (sm_xregs sm ! unat s) (k - unat lsb) else bit (sm_xregs sm ! unat d) k))"
  using assms from_word_ok [OF assms(1)]
  by (auto simp: execute_word_def exec_hint_def exec_insert_def and_then_def ok_or_def xreg_get_def
      xreg_at_def unsupported_def unary_def sm_ok_def x_register_count_def reg_ok_def bit_insert_field)

lemma demo_insert: "from_word Dav3510 0x02022c87 = Some (ScalarKey2Insert 1 2 4 8)"
  by (simp add: decode_eval decode_key2_def key2_op_def key2_registers_def dtype_bits_def decode_insert_def)

theorem insert_replaces_field_witness:
  "case snd (execute_word full_machine 0 0x02022c87) of
     Err e \<Rightarrow> False | Ok step \<Rightarrow> bit (ss_value step) 5 \<and> \<not> bit (ss_value step) 3"
proof -
  have "from_word (sm_architecture full_machine) 0x02022c87 = Some (ScalarKey2Insert 1 2 4 8)"
    "sm_ok full_machine"
    by (simp_all add: full_machine_def machine_new_def demo_insert sm_ok_def x_register_count_def)
  from insert_replaces_field [OF this, of 0] show ?thesis
    by (auto simp: full_machine_def machine_new_def i64_max_def i64_min_def bit_simps split: sum.splits)
qed

section \<open>Results of the unary arms\<close>

fun zero_extend_bits :: "zero_extend_width \<Rightarrow> nat" where
  "zero_extend_bits ZeroExtU8 = 8"
| "zero_extend_bits ZeroExtU16 = 16"
| "zero_extend_bits ZeroExtU32 = 32"

definition unary_exact :: "scalar_instruction \<Rightarrow> u64 list \<Rightarrow> u64 \<Rightarrow> bool \<Rightarrow> bool" where
  "unary_exact hint xregs v ov \<longleftrightarrow>
     (case hint of
        ScalarKey2Negate _ _ s \<Rightarrow> let x = xregs ! unat s in
          (ov \<longleftrightarrow> overflows (- sint x)) \<and> (\<not> ov \<longrightarrow> sint v = - sint x)
      | ScalarKey2Absolute _ _ s \<Rightarrow> let x = xregs ! unat s in
          \<not> ov \<and> uint v = \<bar>sint x\<bar>
      | ScalarKey2IntegerSqrt _ _ s \<Rightarrow> let x = xregs ! unat s in
          \<not> ov \<and> (uint v)\<^sup>2 \<le> \<bar>sint x\<bar> \<and> \<bar>sint x\<bar> < (uint v + 1)\<^sup>2
      | ScalarKey2BitwiseNot _ _ s \<Rightarrow> let x = xregs ! unat s in
          \<not> ov \<and> sint v = - sint x - 1
      | ScalarKey2ZeroExtend width _ s \<Rightarrow> let x = xregs ! unat s in
          \<not> ov \<and> unat v = unat x mod 2 ^ zero_extend_bits width
      | ScalarKey2SignExtend w _ s \<Rightarrow> let x = xregs ! unat s in
          \<not> ov \<and> sint v = signed_take_bit (unat w - 1) (sint x)
      | _ \<Rightarrow> True)"

lemma uint_isqrt:
  fixes w :: u64
  shows "(uint (isqrt w))\<^sup>2 \<le> uint w \<and> uint w < (uint (isqrt w) + 1)\<^sup>2"
proof -
  let ?r = "unat (isqrt w)"
  have "int (?r * ?r) \<le> int (unat w)" "int (unat w) < int ((?r + 1) * (?r + 1))"
    using isqrt_floor [of w] by (simp_all only: of_nat_le_iff of_nat_less_iff)
  then show ?thesis unfolding power2_eq_square uint_nat by (simp only: of_nat_mult of_nat_add of_nat_1)
qed

lemma uint_isqrt_abs:
  "(uint (isqrt (unsigned_abs x)))\<^sup>2 \<le> \<bar>sint x\<bar>"
  "\<bar>sint x\<bar> < (uint (isqrt (unsigned_abs x)) + 1)\<^sup>2"
  using uint_isqrt [of "unsigned_abs x"] by (simp_all add: uint_unsigned_abs)

lemma unat_zero_extend:
  "unat (x AND zero_extend_mask width) = unat x mod 2 ^ zero_extend_bits width"
proof -
  have "zero_extend_mask width = mask (zero_extend_bits width)"
    by (cases width) (simp_all add: mask_eq_exp_minus_1)
  then have "unat (x AND zero_extend_mask width) = take_bit (zero_extend_bits width) (unat x)"
    by (simp add: unsigned_take_bit_eq flip: take_bit_eq_mask)
  then show ?thesis by (simp add: take_bit_eq_mod)
qed

lemmas sign_extend_widths =
  sign_extend64 [of 8, simplified] sign_extend64 [of 16, simplified] sign_extend64 [of 32, simplified]

text \<open>C13. The unary operations compute their mathematical functions. Negation is exact and flags
  exactly the most negative value; the absolute value is exact as an unsigned number, the most
  negative value included; the integer square root is the floor of the root of the magnitude; the
  complement is \<open>- x - 1\<close>; zero and sign extension keep the value of the low bits, unsigned and
  signed.\<close>

theorem unary_results_exact:
  assumes "from_word (sm_architecture sm) word = Some hint"
    and "execute_word sm pc word = (sm', Ok step)"
  shows "unary_exact hint (sm_xregs sm) (ss_value step) (ss_signed_overflow step)"
proof -
  obtain out where "exec_hint sm pc word hint = Ok out"
    "ss_value step = ro_value out" "ss_signed_overflow step = ro_overflow out"
    using execute_word_ok [OF assms] by metis
  then show ?thesis
    using from_word_ok [OF assms(1)] uint_nonneg64 uint_neg64
    by (auto simp: Let_def uint_isqrt_abs unary_exact_def exec_hint_def exec_negate_def exec_absolute_def
      exec_integer_sqrt_def exec_bitwise_not_def exec_zero_extend_def exec_sign_extend_def
      exec_unary_def unary_def and_then_ok xreg_get_ok unsupported_def sint_neg64 sint_not64
      unat_zero_extend sign_extend_widths
      split: scalar_instruction.split if_splits)
qed

lemma demo_negate: "from_word Dav3510 0x02022080 = Some (ScalarKey2Negate 0 1 2)"
  by (simp add: decode_eval decode_key2_def key2_op_def key2_registers_def dtype_bits_def)

lemma full_machine_negate:
  "\<exists>sm' step. execute_word full_machine 0x40 0x02022080 = (sm', Ok step) \<and> ss_value step = - i64_max \<and>
     \<not> ss_signed_overflow step"
  by (simp add: execute_word_def full_machine_def machine_new_def demo_negate and_then_def ok_or_def
      exec_hint_def exec_negate_def unary_def xreg_get_def xreg_at_def i64_max_def i64_min_def)

theorem unary_results_exact_witness:
  "sint (- i64_max) = - sint i64_max \<and>
     unary_exact (ScalarKey2Negate 0 1 2) (sm_xregs full_machine) (- i64_max) False"
proof -
  obtain sm' step where e: "execute_word full_machine 0x40 0x02022080 = (sm', Ok step)"
    and v: "ss_value step = - i64_max" "\<not> ss_signed_overflow step" using full_machine_negate by blast
  have d: "from_word (sm_architecture full_machine) 0x02022080 = Some (ScalarKey2Negate 0 1 2)"
    by (simp add: full_machine_def machine_new_def demo_negate)
  show ?thesis using unary_results_exact [OF d e] v
    by (simp add: i64_max_def i64_min_def)
qed

end
