(* ===== verification/Scalar_Memory.thy ===== *)
theory Scalar_Memory
  imports Memory_Bus Scalar_Machine
begin

text \<open>
  The loads and stores of the scalar unit: \<open>src/src/sim/common/scalar/memory.rs\<close>. Each
  operation decodes the word, computes the effective address, runs the bus and commits the
  registers only after the bus has succeeded. The bus is a record of the operations of the trait
  \<open>ScalarMemoryBus\<close> (\<open>src/src/sim/common/scalar/mod.rs\<close>) on a state of any type;
  \<open>memory_only\<close> fills in the default methods of the trait. The effect of a load, a store and a
  pair of them is proved for every bus that meets the contract \<open>memory_bus\<close>.
\<close>

section \<open>The bus\<close>

record ('m, 'e) scalar_memory_bus =
  sb_read :: "'m \<Rightarrow> u64 \<Rightarrow> u8 list \<Rightarrow> 'm \<times> ('e + u8 list)"
  sb_write :: "'m \<Rightarrow> u64 \<Rightarrow> u8 list \<Rightarrow> 'm \<times> ('e + unit)"
  sb_maintain_data_cache :: "'m \<Rightarrow> dcci_step \<Rightarrow> 'm \<times> ('e + bool)"
  sb_synchronize_pipeline :: "'m \<Rightarrow> dsb_step \<Rightarrow> 'm \<times> ('e + bool)"
  sb_synchronize_barrier :: "'m \<Rightarrow> pipeline_barrier_step \<Rightarrow> 'm \<times> ('e + bool)"

definition memory_only ::
  "('m \<Rightarrow> u64 \<Rightarrow> u8 list \<Rightarrow> 'm \<times> ('e + u8 list)) \<Rightarrow> ('m \<Rightarrow> u64 \<Rightarrow> u8 list \<Rightarrow> 'm \<times> ('e + unit))
     \<Rightarrow> ('m, 'e) scalar_memory_bus" where
  "memory_only rd wr =
     \<lparr>sb_read = rd, sb_write = wr,
      sb_maintain_data_cache = (\<lambda>m _. (m, Ok False)),
      sb_synchronize_pipeline = (\<lambda>m _. (m, Ok False)),
      sb_synchronize_barrier = (\<lambda>m _. (m, Ok False))\<rparr>"

section \<open>Outcomes\<close>

record scalar_memory_step =
  ms_pc :: u64
  ms_word :: u32
  ms_operation :: scalar_load_store_operation
  ms_effective_address :: u64
  ms_width_bytes :: u8
  ms_data_register :: u8
  ms_prior_data_value :: u64
  ms_data_value :: u64
  ms_base_register :: u8
  ms_prior_base_value :: u64
  ms_updated_base :: "u64 option"
  ms_bytes :: "u8 list"
  ms_sign_extension_requested :: bool

record scalar_indexed_store_step =
  xs_pc :: u64
  xs_word :: u32
  xs_effective_address :: u64
  xs_width_bytes :: u8
  xs_source_register :: u8
  xs_value :: u64
  xs_base_register :: u8
  xs_base_value :: u64
  xs_updated_base :: "u64 option"
  xs_offset_register :: u8
  xs_offset_value :: u64
  xs_bytes :: "u8 list"

record scalar_indexed_load_step =
  xl_pc :: u64
  xl_word :: u32
  xl_effective_address :: u64
  xl_width_bytes :: u8
  xl_destination_register :: u8
  xl_prior_destination_value :: u64
  xl_value :: u64
  xl_base_register :: u8
  xl_base_value :: u64
  xl_updated_base :: "u64 option"
  xl_offset_register :: u8
  xl_offset_value :: u64
  xl_bytes :: "u8 list"

record scalar_indexed_immediate_store_step =
  xi_pc :: u64
  xi_word :: u32
  xi_effective_address :: u64
  xi_width_bytes :: u8
  xi_base_register :: u8
  xi_base_value :: u64
  xi_updated_base :: "u64 option"
  xi_offset_register :: u8
  xi_offset_value :: u64
  xi_value :: scalar_store_immediate_value
  xi_bytes :: "u8 list"

record scalar_immediate_store_step =
  is_pc :: u64
  is_word :: u32
  is_effective_address :: u64
  is_width_bytes :: u8
  is_base_register :: u8
  is_prior_base_value :: u64
  is_updated_base :: "u64 option"
  is_value :: scalar_store_immediate_value
  is_bytes :: "u8 list"

record scalar_pair_load_step =
  pl_pc :: u64
  pl_word :: u32
  pl_first_address :: u64
  pl_second_address :: u64
  pl_width_bytes :: u8
  pl_base_register :: u8
  pl_base_value :: u64
  pl_first_destination_register :: u8
  pl_first_prior_value :: u64
  pl_first_value :: u64
  pl_first_bytes :: "u8 list"
  pl_second_destination_register :: u8
  pl_second_prior_value :: u64
  pl_second_value :: u64
  pl_second_bytes :: "u8 list"
  pl_sign_extension_requested :: bool

record scalar_pair_store_step =
  ps_pc :: u64
  ps_word :: u32
  ps_first_address :: u64
  ps_second_address :: u64
  ps_width_bytes :: u8
  ps_base_register :: u8
  ps_base_value :: u64
  ps_first_source_register :: u8
  ps_first_value :: u64
  ps_first_bytes :: "u8 list"
  ps_second_source_register :: u8
  ps_second_value :: u64
  ps_second_bytes :: "u8 list"

datatype 'e scalar_memory_error =
    MemoryUnsupportedWord u64 u32
  | AliasedPostIndex u64 u32 u8
  | Backend 'e

type_synonym ('m, 'e, 'a) memory_run =
  "scalar_machine \<times> 'm \<times> ('e scalar_memory_error fault + 'a)"

section \<open>Helpers of the operations\<close>

text \<open>\<open>let mut bytes = [0_u8; 8]\<close>, of which the bus fills the first \<open>width\<close>.\<close>

definition zero_bytes :: "u8 list" where
  "zero_bytes = replicate 8 0"

definition bus_load ::
  "('m, 'e) scalar_memory_bus \<Rightarrow> 'm \<Rightarrow> u64 \<Rightarrow> u8 \<Rightarrow> 'm \<times> ('e scalar_memory_error fault + u8 list)" where
  "bus_load bus m address width =
     (case sb_read bus m address (take (unat width) zero_bytes) of
        (m', Err e) \<Rightarrow> (m', Err (Fail (Backend e)))
      | (m', Ok filled) \<Rightarrow> (m', Ok (filled @ drop (unat width) zero_bytes)))"

definition bus_store ::
  "('m, 'e) scalar_memory_bus \<Rightarrow> 'm \<Rightarrow> u64 \<Rightarrow> u8 \<Rightarrow> u8 list \<Rightarrow> 'm \<times> ('e scalar_memory_error fault + unit)" where
  "bus_store bus m address width bytes =
     (case sb_write bus m address (take (unat width) bytes) of
        (m', Err e) \<Rightarrow> (m', Err (Fail (Backend e)))
      | (m', Ok _) \<Rightarrow> (m', Ok ()))"

text \<open>\<open>bytes[..width].copy_from_slice(&value.to_le_bytes()[..width])\<close>.\<close>

definition store_bytes :: "u8 \<Rightarrow> u64 \<Rightarrow> u8 list" where
  "store_bytes width v = take (unat width) (to_le_bytes v) @ drop (unat width) zero_bytes"

definition immediate_bytes :: "scalar_store_immediate_value \<Rightarrow> u8 list" where
  "immediate_bytes v =
     (case v of ImmZero \<Rightarrow> zero_bytes | ImmOne \<Rightarrow> zero_bytes[0 := 1] | ImmOnes \<Rightarrow> replicate 8 0xff)"

text \<open>A loaded value: the bytes in little-endian order, sign-extended on request.\<close>

definition loaded_value :: "bool \<Rightarrow> u8 \<Rightarrow> u8 list \<Rightarrow> u64" where
  "loaded_value sign_extend width bytes =
     (let raw = from_le_bytes bytes in
      if sign_extend then let bits = unat width * 8 in
        signed_drop_bit (64 - bits) (push_bit (64 - bits) raw)
      else raw)"

definition set_register :: "scalar_machine \<Rightarrow> u8 \<Rightarrow> u64 \<Rightarrow> scalar_machine" where
  "set_register sm register v = sm\<lparr>sm_xregs := (sm_xregs sm)[unat register := v]\<rparr>"

definition set_base :: "scalar_machine \<Rightarrow> u8 \<Rightarrow> u64 option \<Rightarrow> scalar_machine" where
  "set_base sm register updated =
     (case updated of Some v \<Rightarrow> set_register sm register v | None \<Rightarrow> sm)"

section \<open>The operations\<close>

definition execute_memory_word ::
  "('m, 'e) scalar_memory_bus \<Rightarrow> scalar_machine \<Rightarrow> 'm \<Rightarrow> u64 \<Rightarrow> u32
     \<Rightarrow> ('m, 'e, scalar_memory_step) memory_run" where
  "execute_memory_word bus sm m pc word =
     (case from_word (sm_architecture sm) word of
        Some (ScalarLoadStoreImmediate operation dt width data base off post_index sign_extend) \<Rightarrow>
          if sm_architecture sm \<noteq> Dav2201 \<and> post_index \<and> operation = Load \<and> data = base
          then (sm, m, Err (Fail (AliasedPostIndex pc word data)))
          else
            (case and_then (xreg_at (sm_xregs sm) base) (\<lambda>prior_base.
                  and_then (xreg_at (sm_xregs sm) data) (\<lambda>prior_data.
                    case address_effect (ScalarLoadStoreImmediate operation dt width data base off
                                            post_index sign_extend) prior_base of
                      None \<Rightarrow> Err Panic
                    | Some effect \<Rightarrow> Ok (prior_base, prior_data, effect))) of
               Err e \<Rightarrow> (sm, m, Err e)
             | Ok (prior_base, prior_data, effect) \<Rightarrow>
                 let sign_requested = (sign_extend = Some True \<and> width < 8);
                     step = (\<lambda>bytes v. \<lparr>ms_pc = pc, ms_word = word, ms_operation = operation,
                       ms_effective_address = effect_address effect, ms_width_bytes = width,
                       ms_data_register = data, ms_prior_data_value = prior_data,
                       ms_data_value = v, ms_base_register = base,
                       ms_prior_base_value = prior_base,
                       ms_updated_base = effect_updated_base effect, ms_bytes = bytes,
                       ms_sign_extension_requested = sign_requested\<rparr>);
                     sm_based = set_base sm base (effect_updated_base effect)
                 in (case operation of
                      Load \<Rightarrow>
                        (case bus_load bus m (effect_address effect) width of
                           (m', Err e) \<Rightarrow> (sm, m', Err e)
                         | (m', Ok bytes) \<Rightarrow>
                             let v = loaded_value sign_requested width bytes
                             in (set_register sm_based data v, m', Ok (step bytes v)))
                    | StoreOp \<Rightarrow>
                        let bytes = store_bytes width prior_data in
                        (case bus_store bus m (effect_address effect) width bytes of
                           (m', Err e) \<Rightarrow> (sm, m', Err e)
                         | (m', Ok _) \<Rightarrow> (sm_based, m', Ok (step bytes prior_data)))))
      | _ \<Rightarrow> (sm, m, Err (Fail (MemoryUnsupportedWord pc word))))"

text \<open>\<open>self.xreg_value(r).unwrap_or(0)\<close> and the address of the indexed forms.\<close>

definition xreg_or_zero :: "scalar_machine \<Rightarrow> u8 \<Rightarrow> u64" where
  "xreg_or_zero sm r = (case xreg_value sm r of Some v \<Rightarrow> v | None \<Rightarrow> 0)"

definition indexed_address :: "u64 \<Rightarrow> u64 \<Rightarrow> u8 \<Rightarrow> u64" where
  "indexed_address base_value offset_value width = base_value + offset_value * ucast width"

text \<open>\<open>if let Some(updated_base) = updated_base { self.write_existing_xreg(..) }\<close>.\<close>

definition write_base :: "scalar_machine \<Rightarrow> u8 \<Rightarrow> u64 option \<Rightarrow> scalar_machine" where
  "write_base sm register updated =
     (case updated of Some v \<Rightarrow> fst (write_existing_xreg sm register v) | None \<Rightarrow> sm)"

definition execute_indexed_store_word ::
  "('m, 'e) scalar_memory_bus \<Rightarrow> scalar_machine \<Rightarrow> 'm \<Rightarrow> u64 \<Rightarrow> u32
     \<Rightarrow> ('m, 'e, scalar_indexed_store_step) memory_run" where
  "execute_indexed_store_word bus sm m pc word =
     (case from_word (sm_architecture sm) word of
        Some (ScalarIndexedStore width source base offset post_index) \<Rightarrow>
          let v = xreg_or_zero sm source;
              base_value = xreg_or_zero sm base;
              offset_value = xreg_or_zero sm offset;
              indexed = indexed_address base_value offset_value width;
              effective = (if post_index then base_value else indexed);
              updated_base = (if post_index then Some indexed else None);
              bytes = to_le_bytes v
          in (case bus_store bus m effective width bytes of
                (m', Err e) \<Rightarrow> (sm, m', Err e)
              | (m', Ok _) \<Rightarrow>
                  (write_base sm base updated_base, m',
                   Ok \<lparr>xs_pc = pc, xs_word = word, xs_effective_address = effective,
                       xs_width_bytes = width, xs_source_register = source, xs_value = v,
                       xs_base_register = base, xs_base_value = base_value,
                       xs_updated_base = updated_base, xs_offset_register = offset,
                       xs_offset_value = offset_value, xs_bytes = bytes\<rparr>))
      | _ \<Rightarrow> (sm, m, Err (Fail (MemoryUnsupportedWord pc word))))"

definition execute_indexed_load_word ::
  "('m, 'e) scalar_memory_bus \<Rightarrow> scalar_machine \<Rightarrow> 'm \<Rightarrow> u64 \<Rightarrow> u32
     \<Rightarrow> ('m, 'e, scalar_indexed_load_step) memory_run" where
  "execute_indexed_load_word bus sm m pc word =
     (case from_word (sm_architecture sm) word of
        Some (ScalarIndexedLoad width destination base offset post_index) \<Rightarrow>
          let base_value = xreg_or_zero sm base;
              offset_value = xreg_or_zero sm offset;
              indexed = indexed_address base_value offset_value width;
              effective = (if post_index then base_value else indexed);
              updated_base = (if post_index then Some indexed else None)
          in (case bus_load bus m effective width of
                (m', Err e) \<Rightarrow> (sm, m', Err e)
              | (m', Ok bytes) \<Rightarrow>
                  let v = from_le_bytes bytes;
                      prior = xreg_or_zero sm destination
                  in (fst (write_existing_xreg (write_base sm base updated_base) destination v), m',
                      Ok \<lparr>xl_pc = pc, xl_word = word, xl_effective_address = effective,
                          xl_width_bytes = width, xl_destination_register = destination,
                          xl_prior_destination_value = prior, xl_value = v,
                          xl_base_register = base, xl_base_value = base_value,
                          xl_updated_base = updated_base, xl_offset_register = offset,
                          xl_offset_value = offset_value, xl_bytes = bytes\<rparr>))
      | _ \<Rightarrow> (sm, m, Err (Fail (MemoryUnsupportedWord pc word))))"

definition execute_indexed_immediate_store_word ::
  "('m, 'e) scalar_memory_bus \<Rightarrow> scalar_machine \<Rightarrow> 'm \<Rightarrow> u64 \<Rightarrow> u32
     \<Rightarrow> ('m, 'e, scalar_indexed_immediate_store_step) memory_run" where
  "execute_indexed_immediate_store_word bus sm m pc word =
     (case from_word (sm_architecture sm) word of
        Some (ScalarIndexedImmediateStore width base offset v post_index) \<Rightarrow>
          (case and_then (xreg_at (sm_xregs sm) base) (\<lambda>base_value.
                and_then (xreg_at (sm_xregs sm) offset) (\<lambda>offset_value.
                  Ok (base_value, offset_value))) of
             Err e \<Rightarrow> (sm, m, Err e)
           | Ok (base_value, offset_value) \<Rightarrow>
               let indexed = indexed_address base_value offset_value width;
                   effective = (if post_index then base_value else indexed);
                   updated_base = (if post_index then Some indexed else None);
                   bytes = immediate_bytes v
               in (case bus_store bus m effective width bytes of
                     (m', Err e) \<Rightarrow> (sm, m', Err e)
                   | (m', Ok _) \<Rightarrow>
                       (set_base sm base updated_base, m',
                        Ok \<lparr>xi_pc = pc, xi_word = word, xi_effective_address = effective,
                            xi_width_bytes = width, xi_base_register = base,
                            xi_base_value = base_value, xi_updated_base = updated_base,
                            xi_offset_register = offset, xi_offset_value = offset_value,
                            xi_value = v, xi_bytes = bytes\<rparr>)))
      | _ \<Rightarrow> (sm, m, Err (Fail (MemoryUnsupportedWord pc word))))"

definition execute_immediate_store_word ::
  "('m, 'e) scalar_memory_bus \<Rightarrow> scalar_machine \<Rightarrow> 'm \<Rightarrow> u64 \<Rightarrow> u32
     \<Rightarrow> ('m, 'e, scalar_immediate_store_step) memory_run" where
  "execute_immediate_store_word bus sm m pc word =
     (case from_word (sm_architecture sm) word of
        Some (ScalarStoreImmediate width base off post_index v) \<Rightarrow>
          if post_index \<and> sm_architecture sm \<noteq> Dav2201
          then (sm, m, Err (Fail (MemoryUnsupportedWord pc word)))
          else
            (case xreg_at (sm_xregs sm) base of
               Err e \<Rightarrow> (sm, m, Err e)
             | Ok prior_base \<Rightarrow>
                 let adjusted = prior_base + scast off;
                     effective = (if post_index then prior_base else adjusted);
                     updated_base = (if post_index then Some adjusted else None);
                     bytes = immediate_bytes v
                 in (case bus_store bus m effective width bytes of
                       (m', Err e) \<Rightarrow> (sm, m', Err e)
                     | (m', Ok _) \<Rightarrow>
                         (set_base sm base updated_base, m',
                          Ok \<lparr>is_pc = pc, is_word = word, is_effective_address = effective,
                              is_width_bytes = width, is_base_register = base,
                              is_prior_base_value = prior_base, is_updated_base = updated_base,
                              is_value = v, is_bytes = bytes\<rparr>)))
      | _ \<Rightarrow> (sm, m, Err (Fail (MemoryUnsupportedWord pc word))))"

definition execute_pair_load_word ::
  "('m, 'e) scalar_memory_bus \<Rightarrow> scalar_machine \<Rightarrow> 'm \<Rightarrow> u64 \<Rightarrow> u32
     \<Rightarrow> ('m, 'e, scalar_pair_load_step) memory_run" where
  "execute_pair_load_word bus sm m pc word =
     (case from_word (sm_architecture sm) word of
        Some (ScalarPairLoad dt width first second base off sign_extend) \<Rightarrow>
          (case and_then (xreg_at (sm_xregs sm) base) (\<lambda>base_value.
                and_then (xreg_at (sm_xregs sm) first) (\<lambda>first_prior.
                and_then (xreg_at (sm_xregs sm) second) (\<lambda>second_prior.
                  Ok (base_value, first_prior, second_prior)))) of
             Err e \<Rightarrow> (sm, m, Err e)
           | Ok (base_value, first_prior, second_prior) \<Rightarrow>
               let first_address = base_value + scast off;
                   second_address = first_address + ucast width;
                   sign_requested = (sign_extend \<and> width < 8)
               in (case bus_load bus m first_address width of
                     (m1, Err e) \<Rightarrow> (sm, m1, Err e)
                   | (m1, Ok first_bytes) \<Rightarrow>
                     (case bus_load bus m1 second_address width of
                        (m2, Err e) \<Rightarrow> (sm, m2, Err e)
                      | (m2, Ok second_bytes) \<Rightarrow>
                          let first_value = loaded_value sign_requested width first_bytes;
                              second_value = loaded_value sign_requested width second_bytes;
                              sm' = (if sm_architecture sm = Dav2201
                                     then set_register (set_register sm second second_value) first first_value
                                     else set_register (set_register sm first first_value) second second_value)
                          in (sm', m2,
                              Ok \<lparr>pl_pc = pc, pl_word = word, pl_first_address = first_address,
                                  pl_second_address = second_address, pl_width_bytes = width,
                                  pl_base_register = base, pl_base_value = base_value,
                                  pl_first_destination_register = first,
                                  pl_first_prior_value = first_prior,
                                  pl_first_value = first_value, pl_first_bytes = first_bytes,
                                  pl_second_destination_register = second,
                                  pl_second_prior_value = second_prior,
                                  pl_second_value = second_value, pl_second_bytes = second_bytes,
                                  pl_sign_extension_requested = sign_requested\<rparr>))))
      | _ \<Rightarrow> (sm, m, Err (Fail (MemoryUnsupportedWord pc word))))"

definition execute_pair_store_word ::
  "('m, 'e) scalar_memory_bus \<Rightarrow> scalar_machine \<Rightarrow> 'm \<Rightarrow> u64 \<Rightarrow> u32
     \<Rightarrow> ('m, 'e, scalar_pair_store_step) memory_run" where
  "execute_pair_store_word bus sm m pc word =
     (case from_word (sm_architecture sm) word of
        Some (ScalarPairStore dt width first second base off) \<Rightarrow>
          (case and_then (xreg_at (sm_xregs sm) base) (\<lambda>base_value.
                and_then (xreg_at (sm_xregs sm) first) (\<lambda>first_value.
                and_then (xreg_at (sm_xregs sm) second) (\<lambda>second_value.
                  Ok (base_value, first_value, second_value)))) of
             Err e \<Rightarrow> (sm, m, Err e)
           | Ok (base_value, first_value, second_value) \<Rightarrow>
               let first_address = base_value + scast off;
                   second_address = first_address + ucast width;
                   first_bytes = store_bytes width first_value;
                   second_bytes = store_bytes width second_value
               in (case bus_store bus m first_address width first_bytes of
                     (m1, Err e) \<Rightarrow> (sm, m1, Err e)
                   | (m1, Ok _) \<Rightarrow>
                     (case bus_store bus m1 second_address width second_bytes of
                        (m2, Err e) \<Rightarrow> (sm, m2, Err e)
                      | (m2, Ok _) \<Rightarrow>
                          (sm, m2,
                           Ok \<lparr>ps_pc = pc, ps_word = word, ps_first_address = first_address,
                               ps_second_address = second_address, ps_width_bytes = width,
                               ps_base_register = base, ps_base_value = base_value,
                               ps_first_source_register = first, ps_first_value = first_value,
                               ps_first_bytes = first_bytes, ps_second_source_register = second,
                               ps_second_value = second_value, ps_second_bytes = second_bytes\<rparr>))))
      | _ \<Rightarrow> (sm, m, Err (Fail (MemoryUnsupportedWord pc word))))"

section \<open>Registers after a run\<close>

text \<open>A run either fails without a panic and leaves the machine alone, or changes general
  registers only.\<close>

definition regs_only :: "scalar_machine \<Rightarrow> scalar_machine \<Rightarrow> bool" where
  "regs_only sm sm' \<longleftrightarrow> length (sm_xregs sm') = length (sm_xregs sm) \<and>
     sm' = sm\<lparr>sm_xregs := sm_xregs sm', sm_c220_xreg32 := sm_c220_xreg32 sm'\<rparr>"

definition run_safe :: "scalar_machine \<Rightarrow> ('m, 'e, 'a) memory_run \<Rightarrow> bool" where
  "run_safe sm r \<longleftrightarrow>
     (case r of (sm', m', Err e) \<Rightarrow> sm' = sm \<and> e \<noteq> Panic | (sm', m', Ok _) \<Rightarrow> regs_only sm sm')"

lemma run_safe_simps [simp]:
  "run_safe sm (sm', m', Err e) \<longleftrightarrow> sm' = sm \<and> e \<noteq> Panic"
  "run_safe sm (sm', m', Ok v) \<longleftrightarrow> regs_only sm sm'"
  by (simp_all add: run_safe_def)

lemma regs_only_refl [simp]: "regs_only sm sm"
  by (simp add: regs_only_def)

lemma regs_only_set_register [simp]: "regs_only sm sm' \<Longrightarrow> regs_only sm (set_register sm' r v)"
  by (cases sm; cases sm') (auto simp: regs_only_def set_register_def)

lemma regs_only_set_base [simp]: "regs_only sm sm' \<Longrightarrow> regs_only sm (set_base sm' r u)"
  by (simp add: set_base_def split: option.split)

lemma regs_only_write [simp]: "regs_only sm sm' \<Longrightarrow> regs_only sm (fst (write_existing_xreg sm' r v))"
  by (cases sm; cases sm') (auto simp: regs_only_def write_existing_xreg_def set_xreg_def)

lemma regs_only_write_base [simp]: "regs_only sm sm' \<Longrightarrow> regs_only sm (write_base sm' r u)"
  by (simp add: write_base_def split: option.split)

lemma regs_only_ok: "regs_only sm sm' \<Longrightarrow> sm_ok sm' = sm_ok sm"
  by (cases sm; cases sm') (auto simp: regs_only_def sm_ok_def)

lemma xreg_at_ok: "sm_ok sm \<Longrightarrow> reg_ok 32 r \<Longrightarrow> xreg_at (sm_xregs sm) r = Ok (sm_xregs sm ! unat r)"
  by (simp add: xreg_at_def sm_ok_def x_register_count_def reg_ok_def)

lemma bus_load_no_panic: "bus_load bus m a w = (m', Err e) \<Longrightarrow> e \<noteq> Panic"
  by (auto simp: bus_load_def split: prod.splits sum.splits)

lemma bus_store_no_panic: "bus_store bus m a w bs = (m', Err e) \<Longrightarrow> e \<noteq> Panic"
  by (auto simp: bus_store_def split: prod.splits sum.splits)

lemmas decoded_ok = from_word_ok [of "sm_architecture _"]

lemma run_safe_memory_word: "sm_ok sm \<Longrightarrow> run_safe sm (execute_memory_word bus sm m pc word)"
  unfolding execute_memory_word_def
  by (auto simp: Let_def xreg_at_ok address_effect_def dest: decoded_ok bus_load_no_panic bus_store_no_panic
      split: option.split scalar_instruction.split sum.split prod.split scalar_load_store_operation.split)

lemma run_safe_indexed_store: "run_safe sm (execute_indexed_store_word bus sm m pc word)"
  unfolding execute_indexed_store_word_def
  by (auto simp: Let_def dest: bus_store_no_panic
      split: option.split scalar_instruction.split sum.split prod.split)

lemma run_safe_indexed_load: "run_safe sm (execute_indexed_load_word bus sm m pc word)"
  unfolding execute_indexed_load_word_def
  by (auto simp: Let_def dest: bus_load_no_panic
      split: option.split scalar_instruction.split sum.split prod.split)

lemma run_safe_indexed_immediate_store:
  "sm_ok sm \<Longrightarrow> run_safe sm (execute_indexed_immediate_store_word bus sm m pc word)"
  unfolding execute_indexed_immediate_store_word_def
  by (auto simp: Let_def xreg_at_ok dest: decoded_ok bus_store_no_panic
      split: option.split scalar_instruction.split sum.split prod.split)

lemma run_safe_immediate_store:
  "sm_ok sm \<Longrightarrow> run_safe sm (execute_immediate_store_word bus sm m pc word)"
  unfolding execute_immediate_store_word_def
  by (auto simp: Let_def xreg_at_ok dest: decoded_ok bus_store_no_panic
      split: option.split scalar_instruction.split sum.split prod.split)

lemma run_safe_pair_load: "sm_ok sm \<Longrightarrow> run_safe sm (execute_pair_load_word bus sm m pc word)"
  unfolding execute_pair_load_word_def
  by (auto simp: Let_def xreg_at_ok dest: decoded_ok bus_load_no_panic
      split: option.split scalar_instruction.split sum.split prod.split)

lemma run_safe_pair_store: "sm_ok sm \<Longrightarrow> run_safe sm (execute_pair_store_word bus sm m pc word)"
  unfolding execute_pair_store_word_def
  by (auto simp: Let_def xreg_at_ok dest: decoded_ok bus_store_no_panic
      split: option.split scalar_instruction.split sum.split prod.split)

section \<open>What a store writes a load reads\<close>

lemma width_ok_le: "width_ok w \<Longrightarrow> unat w \<in> {1, 2, 4, 8}"
  by (auto simp: width_ok_def)

lemma loaded_stored:
  assumes "width_ok w"
  shows "loaded_value sign w (store_bytes w v) =
    (if sign then word_of_int (signed_take_bit (8 * unat w - 1) (sint v)) else take_bit (8 * unat w) v)"
proof -
  have w: "0 < unat w" "unat w \<le> 8" using width_ok_le [OF assms] by auto
  have raw: "from_le_bytes (store_bytes w v) = take_bit (8 * unat w) v"
    using from_to_le_bytes [of "unat w" v] w(2) by (simp add: store_bytes_def zero_bytes_def)
  have "sint (signed_drop_bit (64 - 8 * unat w) (push_bit (64 - 8 * unat w) (take_bit (8 * unat w) v))) =
      signed_take_bit (8 * unat w - 1) (sint (take_bit (8 * unat w) v))"
    using w by (intro sign_extend64) auto
  also have "\<dots> = signed_take_bit (8 * unat w - 1) (sint v)"
    using w by (intro bit_eqI) (auto simp: bit_simps min_def)
  finally have s: "sint (signed_drop_bit (64 - 8 * unat w)
        (push_bit (64 - 8 * unat w) (take_bit (8 * unat w) v))) = signed_take_bit (8 * unat w - 1) (sint v)" .
  have "signed_drop_bit (64 - 8 * unat w) (push_bit (64 - 8 * unat w) (take_bit (8 * unat w) v)) =
      word_of_int (signed_take_bit (8 * unat w - 1) (sint v))"
    unfolding s [symmetric] by simp
  with raw show ?thesis by (simp add: loaded_value_def Let_def mult.commute [of _ 8])
qed

context memory_bus
begin

lemma load_after_store:
  assumes "inv m" "width_ok w"
    and "bus_store (memory_only bus_read bus_write) m a w (store_bytes w v) = (m', Ok ())"
  shows "bus_load (memory_only bus_read bus_write) m' a w = (m', Ok (store_bytes w v))"
proof -
  have w: "unat w \<le> 8" using width_ok_le [OF assms(2)] by auto
  let ?bs = "take (unat w) (store_bytes w v)"
  have st: "bus_write m a ?bs = (m', Ok ())"
    using assms(3) by (auto simp: bus_store_def memory_only_def split: prod.splits sum.splits)
  have len: "length (take (unat w) zero_bytes) = length ?bs"
    using w by (simp add: store_bytes_def zero_bytes_def)
  obtain m'' r where r: "bus_read m' a (take (unat w) zero_bytes) = (m'', r)" by (cases "bus_read m' a (take (unat w) zero_bytes)")
  have "r = Ok ?bs" using write_then_read [OF assms(1) st len] r by simp
  moreover have "m'' = m'" using read_keeps [OF write_keeps [OF assms(1) st] r] .
  moreover have "?bs @ drop (unat w) zero_bytes = store_bytes w v"
    using w by (simp add: store_bytes_def)
  ultimately show ?thesis using r by (simp add: bus_load_def memory_only_def)
qed

end

definition memory_machine :: scalar_machine where
  "memory_machine = machine_new Dav3510 ((replicate 32 0)[1 := 0x04030201, 2 := 268435460]) 0"

lemma memory_machine_simps [simp]:
  "sm_ok memory_machine" "sm_architecture memory_machine = Dav3510"
  "sm_xregs memory_machine ! 1 = 0x04030201" "sm_xregs memory_machine ! Suc 0 = 0x04030201"
  "sm_xregs memory_machine ! 2 = 268435460"
  by (simp_all add: memory_machine_def machine_new_def sm_ok_def x_register_count_def)

lemma demo_store: "from_word Dav3510 0x03822000 =
    Some (ScalarLoadStoreImmediate StoreOp 2 4 1 2 0 False None)"
  by (simp add: decode_eval decode_load_store_3510_def load_store_hint_def dtype_bits_def width_field_def)

lemma demo_load: "from_word Dav3510 0x1c862000 =
    Some (ScalarLoadStoreImmediate Load 2 4 3 2 0 False (Some False))"
  by (simp add: decode_eval decode_load_store_3510_def load_store_hint_def dtype_bits_def width_field_def)

lemma demo_stored:
  "\<exists>m' st. execute_memory_word (memory_only hp_bus_read hp_bus_write) memory_machine demo_device 0 0x03822000 =
     (memory_machine, m', Ok st) \<and> ms_effective_address st = 268435460"
proof -
  obtain m' where "host_to_device demo_device 268435460 [1, 2, 3, 4] = (m', Ok ())"
    using demo_device_write by blast
  moreover have "take 4 (store_bytes 4 0x04030201) = [1, 2, 3, 4]"
    by (simp add: store_bytes_def to_le_bytes_def zero_bytes_def upt_rec)
  ultimately show ?thesis
    by (simp add: execute_memory_word_def demo_store xreg_at_ok reg_ok_def address_effect_def
        set_base_def bus_store_def memory_only_def hp_bus_write_def Let_def)
qed

end
