(* ===== verification/Scalar_Exec.thy ===== *)
theory Scalar_Exec
  imports Scalar_Memory
begin

text \<open>
  The rest of \<open>src/src/sim/common/scalar/mod.rs\<close> and
  \<open>src/src/sim/common/scalar/stepper.rs\<close>: comparison, selection, special registers,
  cache hints and flow control, the dispatch \<open>execute_instruction\<close> over all of them, and the
  stepper that owns the program counter. An instruction either completes or leaves the machine
  as it was; the stepper never loses its place; and what a store writes a later load reads, in
  every form of the single accesses (\<open>store_effect\<close> and \<open>load_effect\<close> say what each form does).
\<close>

section \<open>Outcomes\<close>

record scalar_spr_step =
  sw_pc :: u64
  sw_word :: u32
  sw_destination_spr :: u16
  sw_prior_destination_value :: "u64 option"
  sw_source_register :: "u8 option"
  sw_source_value :: u64
  sw_value :: u64

datatype scalar_spr_read_source = RegisterSnapshot | ProgramCounter | ModelTime

record scalar_spr_read_step =
  sr_pc :: u64
  sr_word :: u32
  sr_destination_register :: u8
  sr_prior_destination_value :: u64
  sr_source_spr :: u16
  sr_source :: scalar_spr_read_source
  sr_source_value :: u64
  sr_value :: u64

record scalar_cache_hint_step =
  ch_pc :: u64
  ch_word :: u32
  ch_source_register :: u8
  ch_source_value :: u64
  ch_encoded_immediate :: u16
  ch_effective_address :: u64
  ch_requested_bytes :: u8

record scalar_compare_step =
  cs_pc :: u64
  cs_word :: u32
  cs_dtype_field :: u8
  cs_condition_field :: u8
  cs_first_source_register :: u8
  cs_first_source_value :: u64
  cs_second_source_register :: u8
  cs_second_source_value :: u64
  cs_prior_spr11 :: "u64 option"
  cs_spr11 :: u64

record scalar_compare_register_step =
  cr_pc :: u64
  cr_word :: u32
  cr_dtype_field :: u8
  cr_condition_field :: u8
  cr_destination_register :: u8
  cr_prior_destination_value :: u64
  cr_first_source_register :: u8
  cr_first_source_value :: u64
  cr_second_source_register :: u8
  cr_second_source_value :: u64
  cr_value :: u64

record scalar_compare_immediate_step =
  ci_pc :: u64
  ci_word :: u32
  ci_condition_field :: u8
  ci_source_register :: u8
  ci_source_value :: u64
  ci_encoded_immediate :: u16
  ci_signed_immediate :: i16
  ci_prior_spr11 :: "u64 option"
  ci_spr11 :: u64

record scalar_select_step =
  sel_pc :: u64
  sel_word :: u32
  sel_dtype_field :: u8
  sel_condition_flag :: u64
  sel_destination_register :: u8
  sel_prior_destination_value :: u64
  sel_first_source_register :: u8
  sel_first_source_value :: u64
  sel_second_source_register :: u8
  sel_second_source_value :: u64
  sel_value :: u64

datatype (plugins only: size) scalar_flow_step =
    FlowNopStep flow_nop
  | FlowEndStep flow_end
  | FlowJumpStep jump_target
  | FlowConditionalStep conditional_jump_target
  | FlowCompareStep jump_compare_target

definition target_pc :: "scalar_flow_step \<Rightarrow> u64" where
  "target_pc s =
     (case s of
        FlowNopStep t \<Rightarrow> nop_target_pc t
      | FlowEndStep t \<Rightarrow> end_sequential_pc t
      | FlowJumpStep t \<Rightarrow> jt_target_pc t
      | FlowConditionalStep t \<Rightarrow> ct_target_pc t
      | FlowCompareStep t \<Rightarrow> jct_target_pc t)"

datatype (plugins only: size) scalar_instruction_step =
    StepRegister scalar_step
  | StepSprRead scalar_spr_read_step
  | StepSprWrite scalar_spr_step
  | StepMemory scalar_memory_step
  | StepImmediateStore scalar_immediate_store_step
  | StepPairLoad scalar_pair_load_step
  | StepPairStore scalar_pair_store_step
  | StepIndexedLoad scalar_indexed_load_step
  | StepIndexedStore scalar_indexed_store_step
  | StepIndexedImmediateStore scalar_indexed_immediate_store_step
  | StepFlow scalar_flow_step
  | StepCacheHint scalar_cache_hint_step
  | StepCompare scalar_compare_step
  | StepCompareRegister scalar_compare_register_step
  | StepCompareImmediate scalar_compare_immediate_step
  | StepSelect scalar_select_step
  | StepDcci dcci_step
  | StepDsb dsb_step
  | StepBarrier pipeline_barrier_step

datatype (plugins only: size) 'e scalar_instruction_error =
    ScalarError scalar_machine_error
  | MemoryError "'e scalar_memory_error"
  | CacheMaintenanceUnsupported u64 u32
  | CacheBackend 'e
  | SynchronizationUnsupported u64 u32
  | SynchronizationBackend 'e
  | ProgramEnded u64

section \<open>Comparison and selection\<close>

definition evaluate_integer_compare :: "u8 \<Rightarrow> u8 \<Rightarrow> u64 \<Rightarrow> u64 \<Rightarrow> (machine_result + bool) option" where
  "evaluate_integer_compare dtype condition x y =
     (if 5 < condition then None
      else if dtype = 0 then Some (compare_values (sint x) (sint y) condition)
      else if dtype = 1 then Some (compare_values x y condition)
      else None)"

text \<open>\<open>.ok_or(UnsupportedWord)?\<close> on a comparison, whose own \<open>unreachable!\<close> is a panic.\<close>

definition compared :: "u64 \<Rightarrow> u32 \<Rightarrow> (machine_result + bool) option \<Rightarrow> machine_result + u64" where
  "compared pc word r =
     (case r of None \<Rightarrow> unsupported pc word | Some c \<Rightarrow> and_then c (\<lambda>b. Ok (if b then 1 else 0)))"

definition execute_compare_word ::
  "scalar_machine \<Rightarrow> u64 \<Rightarrow> u32 \<Rightarrow> scalar_machine \<times> (machine_result + scalar_compare_step)" where
  "execute_compare_word sm pc word =
     (case from_word (sm_architecture sm) word of
        Some (ScalarCompare dtype condition first second) \<Rightarrow>
          (case and_then (xreg_at (sm_xregs sm) first) (\<lambda>x.
                and_then (xreg_at (sm_xregs sm) second) (\<lambda>y.
                and_then (compared pc word (evaluate_integer_compare dtype condition x y)) (\<lambda>spr11.
                  Ok (x, y, spr11)))) of
             Err e \<Rightarrow> (sm, Err e)
           | Ok (x, y, spr11) \<Rightarrow>
               (case set_spr_value sm 11 spr11 of
                  (sm', Err e) \<Rightarrow> (sm', Err e)
                | (sm', Ok _) \<Rightarrow>
                    (sm', Ok \<lparr>cs_pc = pc, cs_word = word, cs_dtype_field = dtype,
                              cs_condition_field = condition, cs_first_source_register = first,
                              cs_first_source_value = x, cs_second_source_register = second,
                              cs_second_source_value = y, cs_prior_spr11 = spr_value sm 11,
                              cs_spr11 = spr11\<rparr>)))
      | _ \<Rightarrow> (sm, unsupported pc word))"

definition execute_compare_register_word ::
  "scalar_machine \<Rightarrow> u64 \<Rightarrow> u32 \<Rightarrow> scalar_machine \<times> (machine_result + scalar_compare_register_step)" where
  "execute_compare_register_word sm pc word =
     (case from_word (sm_architecture sm) word of
        Some (ScalarCompareRegister dtype condition destination first second) \<Rightarrow>
          (case and_then (xreg_at (sm_xregs sm) first) (\<lambda>x.
                and_then (xreg_at (sm_xregs sm) second) (\<lambda>y.
                and_then (compared pc word (evaluate_integer_compare dtype condition x y)) (\<lambda>v.
                and_then (xreg_at (sm_xregs sm) destination) (\<lambda>prior.
                  Ok (x, y, v, prior))))) of
             Err e \<Rightarrow> (sm, Err e)
           | Ok (x, y, v, prior) \<Rightarrow>
               (set_register sm destination v,
                Ok \<lparr>cr_pc = pc, cr_word = word, cr_dtype_field = dtype,
                    cr_condition_field = condition, cr_destination_register = destination,
                    cr_prior_destination_value = prior, cr_first_source_register = first,
                    cr_first_source_value = x, cr_second_source_register = second,
                    cr_second_source_value = y, cr_value = v\<rparr>))
      | _ \<Rightarrow> (sm, unsupported pc word))"

definition execute_compare_immediate_word ::
  "scalar_machine \<Rightarrow> u64 \<Rightarrow> u32 \<Rightarrow> scalar_machine \<times> (machine_result + scalar_compare_immediate_step)" where
  "execute_compare_immediate_word sm pc word =
     (case from_word (sm_architecture sm) word of
        Some (ScalarCompareImmediate condition source encoded) \<Rightarrow>
          if 5 < condition then (sm, unsupported pc word)
          else
            (let signed_immediate = (if test encoded 0x800 then ucast encoded - 4096 else ucast encoded) :: i16
             in case and_then (xreg_at (sm_xregs sm) source) (\<lambda>v.
                     and_then (compare_values (sint v) (sint signed_immediate) condition) (\<lambda>b.
                       Ok (v, if b then 1 else 0))) of
                  Err e \<Rightarrow> (sm, Err e)
                | Ok (v, spr11) \<Rightarrow>
                    (case set_spr_value sm 11 spr11 of
                       (sm', Err e) \<Rightarrow> (sm', Err e)
                     | (sm', Ok _) \<Rightarrow>
                         (sm', Ok \<lparr>ci_pc = pc, ci_word = word, ci_condition_field = condition,
                                   ci_source_register = source, ci_source_value = v,
                                   ci_encoded_immediate = encoded,
                                   ci_signed_immediate = signed_immediate,
                                   ci_prior_spr11 = spr_value sm 11, ci_spr11 = spr11\<rparr>)))
      | _ \<Rightarrow> (sm, unsupported pc word))"

definition execute_select_word ::
  "scalar_machine \<Rightarrow> u64 \<Rightarrow> u32 \<Rightarrow> scalar_machine \<times> (machine_result + scalar_select_step)" where
  "execute_select_word sm pc word =
     (case from_word (sm_architecture sm) word of
        Some (ScalarSelect dtype destination first second) \<Rightarrow>
          (case and_then (ok_or (spr_value sm 11) (Fail (SprValueUnavailable pc 11))) (\<lambda>flag.
                and_then (xreg_at (sm_xregs sm) first) (\<lambda>x.
                and_then (xreg_at (sm_xregs sm) second) (\<lambda>y.
                and_then (xreg_at (sm_xregs sm) destination) (\<lambda>prior.
                  Ok (flag, x, y, prior))))) of
             Err e \<Rightarrow> (sm, Err e)
           | Ok (flag, x, y, prior) \<Rightarrow>
               let v = (if flag \<noteq> 0 then x else y)
               in (set_register sm destination v,
                   Ok \<lparr>sel_pc = pc, sel_word = word, sel_dtype_field = dtype,
                       sel_condition_flag = flag, sel_destination_register = destination,
                       sel_prior_destination_value = prior, sel_first_source_register = first,
                       sel_first_source_value = x, sel_second_source_register = second,
                       sel_second_source_value = y, sel_value = v\<rparr>))
      | _ \<Rightarrow> (sm, unsupported pc word))"

section \<open>Special registers\<close>

definition execute_spr_read_word ::
  "scalar_machine \<Rightarrow> u64 \<Rightarrow> u32 \<Rightarrow> scalar_machine \<times> (machine_result + scalar_spr_read_step)" where
  "execute_spr_read_word sm pc word =
     (case from_word (sm_architecture sm) word of
        Some (ScalarKey2MoveFromSpr destination spr) \<Rightarrow>
          if spr_limit (sm_architecture sm) \<le> unat spr
          then (sm, Err (Fail (SprRegisterOutOfRange spr)))
          else
            (case and_then
                (if spr = 0 then Ok (ProgramCounter, pc)
                 else if sm_architecture sm = Dav3510 \<and> spr = 72
                 then and_then (ok_or (sm_model_time sm) (Fail (ModelTimeUnavailable pc)))
                        (\<lambda>t. Ok (ModelTime, t))
                 else and_then (ok_or (spr_value sm spr) (Fail (SprValueUnavailable pc spr)))
                        (\<lambda>v. Ok (RegisterSnapshot, v)))
                (\<lambda>(source, source_value).
                  and_then (xreg_at (sm_xregs sm) destination) (\<lambda>prior. Ok (source, source_value, prior))) of
               Err e \<Rightarrow> (sm, Err e)
             | Ok (source, source_value, prior) \<Rightarrow>
                 let v = (if sm_architecture sm = Dav2201 \<and> spr = 7 then source_value AND NOT 1
                          else source_value)
                 in (set_register sm destination v,
                     Ok \<lparr>sr_pc = pc, sr_word = word, sr_destination_register = destination,
                         sr_prior_destination_value = prior, sr_source_spr = spr,
                         sr_source = source, sr_source_value = source_value, sr_value = v\<rparr>))
      | _ \<Rightarrow> (sm, unsupported pc word))"

definition spr_write_mask :: "architecture \<Rightarrow> u16 \<Rightarrow> u64 option" where
  "spr_write_mask arch spr =
     (if spr = 3 \<or> arch = Dav3510 \<and> (spr = 105 \<or> spr = 112) then Some (- 1)
      else if arch = Dav3510 \<and> spr = 11 then Some 1
      else if arch = Dav3510 \<and> spr = 90 then Some 0xff
      else None)"

definition execute_spr_word ::
  "scalar_machine \<Rightarrow> u64 \<Rightarrow> u32 \<Rightarrow> scalar_machine \<times> (machine_result + scalar_spr_step)" where
  "execute_spr_word sm pc word =
     (case from_word (sm_architecture sm) word of
        Some (ScalarKey2MoveToSpr spr source) \<Rightarrow>
          (case and_then (ok_or (spr_write_mask (sm_architecture sm) spr) (Fail (UnsupportedWord pc word))) (\<lambda>m.
                and_then (xreg_get sm pc word source) (\<lambda>source_value.
                  if unat spr < length (sm_spr_values sm) then Ok (m, source_value) else Err Panic)) of
             Err e \<Rightarrow> (sm, Err e)
           | Ok (m, source_value) \<Rightarrow>
               let v = source_value AND m
               in (sm\<lparr>sm_spr_values := (sm_spr_values sm)[unat spr := Some v]\<rparr>,
                   Ok \<lparr>sw_pc = pc, sw_word = word, sw_destination_spr = spr,
                       sw_prior_destination_value = sm_spr_values sm ! unat spr,
                       sw_source_register = Some source, sw_source_value = source_value,
                       sw_value = v\<rparr>))
      | _ \<Rightarrow> (sm, unsupported pc word))"

section \<open>Flow control and cache hints\<close>

text \<open>The conversion of an error by \<open>?\<close>; a panic stays a panic.\<close>

definition map_fail :: "('e \<Rightarrow> 'f) \<Rightarrow> 'e fault + 'a \<Rightarrow> 'f fault + 'a" where
  "map_fail f r = map_err (\<lambda>e. case e of Fail x \<Rightarrow> Fail (f x) | Panic \<Rightarrow> Panic) r"

definition execute_jump_compare_word ::
  "scalar_machine \<Rightarrow> u64 \<Rightarrow> u32 \<Rightarrow> scalar_machine \<times> (machine_result + jump_compare_target)" where
  "execute_jump_compare_word sm pc word =
     (case and_then (ok_or (jump_compare_decode (sm_architecture sm) word) (Fail (UnsupportedWord pc word)))
             (\<lambda>jump. map_fail CompareError (jump_compare_evaluate jump pc (sm_xregs sm))) of
        Err e \<Rightarrow> (sm, Err e)
      | Ok target \<Rightarrow>
          (case set_spr_value sm 11 (jct_spr11_value target) of
             (sm', Err e) \<Rightarrow> (sm', Err e)
           | (sm', Ok _) \<Rightarrow> (sm', Ok target)))"

definition execute_cache_hint_word ::
  "scalar_machine \<Rightarrow> u64 \<Rightarrow> u32 \<Rightarrow> machine_result + scalar_cache_hint_step" where
  "execute_cache_hint_word sm pc word =
     (case from_word (sm_architecture sm) word of
        Some (ScalarKey8 DcPreload None source encoded) \<Rightarrow>
          and_then (xreg_at (sm_xregs sm) source) (\<lambda>v.
            Ok \<lparr>ch_pc = pc, ch_word = word, ch_source_register = source, ch_source_value = v,
                ch_encoded_immediate = encoded, ch_effective_address = v + ucast encoded,
                ch_requested_bytes = 64\<rparr>)
      | _ \<Rightarrow> unsupported pc word)"

definition execute_flow_word ::
  "scalar_machine \<Rightarrow> u64 \<Rightarrow> u32 \<Rightarrow> scalar_machine \<times> (machine_result + scalar_flow_step)" where
  "execute_flow_word sm pc word =
     (case flow_end_decode pc word of
        Some e \<Rightarrow> (sm, Ok (FlowEndStep e))
      | None \<Rightarrow>
     (case flow_nop_decode (sm_architecture sm) pc word of
        Some n \<Rightarrow> (sm, Ok (FlowNopStep n))
      | None \<Rightarrow>
     (case unconditional_decode (sm_architecture sm) word of
        Some jump \<Rightarrow> (sm, and_then (unconditional_resolve jump pc (sm_xregs sm)) (\<lambda>t. Ok (FlowJumpStep t)))
      | None \<Rightarrow>
     (case conditional_decode (sm_architecture sm) word of
        Some jump \<Rightarrow>
          (sm, and_then (if 11 < length (sm_spr_values sm) then Ok (sm_spr_values sm ! 11) else Err Panic)
             (\<lambda>slot. and_then (ok_or slot (Fail (SprValueUnavailable pc 11))) (\<lambda>condition.
                and_then (conditional_resolve jump pc (sm_xregs sm) condition) (\<lambda>t.
                  Ok (FlowConditionalStep t)))))
      | None \<Rightarrow>
          if jump_compare_decode (sm_architecture sm) word \<noteq> None
          then (case execute_jump_compare_word sm pc word of
                  (sm', r) \<Rightarrow> (sm', and_then r (\<lambda>t. Ok (FlowCompareStep t))))
          else (sm, unsupported pc word)))))"

section \<open>Dispatch\<close>

type_synonym ('m, 'e) instruction_run =
  "scalar_machine \<times> 'm \<times> ('e scalar_instruction_error fault + scalar_instruction_step)"

text \<open>The machine operations and the memory operations as instruction runs.\<close>

definition machine_step ::
  "(('a \<Rightarrow> scalar_instruction_step)) \<Rightarrow> 'm \<Rightarrow> scalar_machine \<times> (machine_result + 'a) \<Rightarrow> ('m, 'e) instruction_run" where
  "machine_step wrap m run =
     (case run of (sm', r) \<Rightarrow> (sm', m, and_then (map_fail ScalarError r) (\<lambda>v. Ok (wrap v))))"

definition memory_step ::
  "('a \<Rightarrow> scalar_instruction_step) \<Rightarrow> ('m, 'e, 'a) memory_run \<Rightarrow> ('m, 'e) instruction_run" where
  "memory_step wrap run =
     (case run of (sm', m', r) \<Rightarrow> (sm', m', and_then (map_fail MemoryError r) (\<lambda>v. Ok (wrap v))))"

text \<open>A synchronisation the backend answers with \<open>Ok(false)\<close> is reported as unsupported.\<close>

definition synchronize ::
  "scalar_machine \<Rightarrow> 'm \<times> ('e + bool) \<Rightarrow> ('e \<Rightarrow> 'e scalar_instruction_error) \<Rightarrow>
    'e scalar_instruction_error \<Rightarrow> scalar_instruction_step \<Rightarrow> ('m, 'e) instruction_run" where
  "synchronize sm r backend declined step =
     (case r of
        (m', Err e) \<Rightarrow> (sm, m', Err (Fail (backend e)))
      | (m', Ok supported) \<Rightarrow> (sm, m', if supported then Ok step else Err (Fail declined)))"

definition execute_flow_instruction ::
  "('m, 'e) scalar_memory_bus \<Rightarrow> scalar_machine \<Rightarrow> 'm \<Rightarrow> u64 \<Rightarrow> u32 \<Rightarrow> ('m, 'e) instruction_run" where
  "execute_flow_instruction bus sm m pc word =
     (case barrier_decode (sm_architecture sm) pc word of
        Some step \<Rightarrow>
          synchronize sm (sb_synchronize_barrier bus m step) SynchronizationBackend
            (SynchronizationUnsupported pc word) (StepBarrier step)
      | None \<Rightarrow>
     (case dcci_decode (sm_architecture sm) word of
        Some instruction \<Rightarrow>
          (case dcci_resolve instruction pc (sm_xregs sm) of
             Err e \<Rightarrow> (sm, m, Err e)
           | Ok step \<Rightarrow>
               synchronize sm (sb_maintain_data_cache bus m step) CacheBackend
                 (CacheMaintenanceUnsupported pc word) (StepDcci step))
      | None \<Rightarrow>
     (case dsb_decode pc word of
        Some step \<Rightarrow>
          synchronize sm (sb_synchronize_pipeline bus m step) SynchronizationBackend
            (SynchronizationUnsupported pc word) (StepDsb step)
      | None \<Rightarrow> machine_step StepFlow m (execute_flow_word sm pc word))))"

definition execute_instruction ::
  "('m, 'e) scalar_memory_bus \<Rightarrow> scalar_machine \<Rightarrow> 'm \<Rightarrow> u64 \<Rightarrow> u32 \<Rightarrow> ('m, 'e) instruction_run" where
  "execute_instruction bus sm m pc word =
     (if aic_from_word word = AicFlowControl then execute_flow_instruction bus sm m pc word
      else case from_word (sm_architecture sm) word of
        Some (ScalarCompare _ _ _ _) \<Rightarrow> machine_step StepCompare m (execute_compare_word sm pc word)
      | Some (ScalarCompareRegister _ _ _ _ _) \<Rightarrow>
          machine_step StepCompareRegister m (execute_compare_register_word sm pc word)
      | Some (ScalarCompareImmediate _ _ _) \<Rightarrow>
          machine_step StepCompareImmediate m (execute_compare_immediate_word sm pc word)
      | Some (ScalarSelect _ _ _ _) \<Rightarrow> machine_step StepSelect m (execute_select_word sm pc word)
      | Some (ScalarPairLoad _ _ _ _ _ _ _) \<Rightarrow> memory_step StepPairLoad (execute_pair_load_word bus sm m pc word)
      | Some (ScalarPairStore _ _ _ _ _ _) \<Rightarrow> memory_step StepPairStore (execute_pair_store_word bus sm m pc word)
      | Some (ScalarIndexedLoad _ _ _ _ _) \<Rightarrow>
          memory_step StepIndexedLoad (execute_indexed_load_word bus sm m pc word)
      | Some (ScalarIndexedStore _ _ _ _ _) \<Rightarrow>
          memory_step StepIndexedStore (execute_indexed_store_word bus sm m pc word)
      | Some (ScalarIndexedImmediateStore _ _ _ _ _) \<Rightarrow>
          memory_step StepIndexedImmediateStore (execute_indexed_immediate_store_word bus sm m pc word)
      | Some (ScalarKey8 DcPreload _ _ _) \<Rightarrow>
          machine_step StepCacheHint m (sm, execute_cache_hint_word sm pc word)
      | Some (ScalarLoadStoreImmediate _ _ _ _ _ _ _ _) \<Rightarrow>
          memory_step StepMemory (execute_memory_word bus sm m pc word)
      | Some (ScalarStoreImmediate _ _ _ _ _) \<Rightarrow>
          memory_step StepImmediateStore (execute_immediate_store_word bus sm m pc word)
      | Some (ScalarKey2MoveFromSpr _ _) \<Rightarrow> machine_step StepSprRead m (execute_spr_read_word sm pc word)
      | Some (ScalarKey2MoveToSpr _ _) \<Rightarrow> machine_step StepSprWrite m (execute_spr_word sm pc word)
      | _ \<Rightarrow> machine_step StepRegister m (execute_word sm pc word))"

section \<open>The stepper\<close>

record scalar_stepper =
  st_machine :: scalar_machine
  st_pc :: u64
  st_halted :: bool

record scalar_program_step =
  sps_pc :: u64
  sps_word :: u32
  sps_next_pc :: u64
  sps_instruction :: scalar_instruction_step
  sps_halted_after :: bool

definition stepper_new :: "scalar_machine \<Rightarrow> u64 \<Rightarrow> scalar_stepper" where
  "stepper_new machine entry_pc = \<lparr>st_machine = machine, st_pc = entry_pc, st_halted = False\<rparr>"

definition advance_sequential :: "scalar_stepper \<Rightarrow> scalar_stepper" where
  "advance_sequential st = st\<lparr>st_pc := st_pc st + 4\<rparr>"

definition step_word ::
  "('m, 'e) scalar_memory_bus \<Rightarrow> scalar_stepper \<Rightarrow> 'm \<Rightarrow> u32
     \<Rightarrow> scalar_stepper \<times> 'm \<times> ('e scalar_instruction_error fault + scalar_program_step)" where
  "step_word bus st m word =
     (let pc = st_pc st in
      if st_halted st then (st, m, Err (Fail (ProgramEnded pc)))
      else case execute_instruction bus (st_machine st) m pc word of
        (sm', m', Err e) \<Rightarrow> (st\<lparr>st_machine := sm'\<rparr>, m', Err e)
      | (sm', m', Ok instruction) \<Rightarrow>
          let halted_after = (case instruction of StepFlow (FlowEndStep _) \<Rightarrow> True | _ \<Rightarrow> False);
              next_pc = (case instruction of StepFlow flow \<Rightarrow> target_pc flow | _ \<Rightarrow> pc + 4)
          in (\<lparr>st_machine = sm', st_pc = next_pc, st_halted = halted_after\<rparr>, m',
              Ok \<lparr>sps_pc = pc, sps_word = word, sps_next_pc = next_pc,
                  sps_instruction = instruction, sps_halted_after = halted_after\<rparr>))"

section \<open>Decoded flow instructions stay inside the register file\<close>

lemma dcci_resolve_ok:
  assumes "length xregs = 32" "dcci_decode arch word = Some i"
  shows "\<exists>step. dcci_resolve i pc xregs = Ok step"
  using assms reg5_ok [of word 12]
  by (auto simp: dcci_decode_def dcci_resolve_def xreg_at_def reg_ok_def split: if_splits)

lemma resolve_offset_ok: "length xregs = 32 \<Longrightarrow> \<exists>t. resolve_offset pc word (decode_offset_source word') xregs = Ok t"
  using reg5_ok [of word' 12]
  by (auto simp: decode_offset_source_def resolve_offset_def xreg_at_def reg_ok_def)

lemma unconditional_resolve_ok:
  assumes "length xregs = 32" "unconditional_decode arch word = Some j"
  shows "\<exists>t. unconditional_resolve j pc xregs = Ok t"
  using assms resolve_offset_ok [OF assms(1)]
  by (auto simp: unconditional_decode_def unconditional_resolve_def split: if_splits)

lemma conditional_resolve_ok:
  assumes "length xregs = 32" "conditional_decode arch word = Some j"
  shows "\<exists>t. (conditional_resolve j pc xregs c :: 'e fault + conditional_jump_target) = Ok t"
proof -
  obtain t where "resolve_offset pc word (decode_offset_source word) xregs = (Ok t :: 'e fault + jump_target)"
    using resolve_offset_ok [OF assms(1)] by blast
  with assms(2) show ?thesis
    by (auto simp: conditional_decode_def conditional_resolve_def Let_def split: if_splits)
qed

lemma compare_values_ok: "condition \<le> 5 \<Longrightarrow> \<exists>b. compare_values x y condition = Ok b"
  for x y :: "'a::linorder"
proof -
  assume "condition \<le> 5"
  then have "unat condition \<in> {0, 1, 2, 3, 4, 5}" by (auto simp: word_le_nat_alt)
  then have "condition \<in> {0, 1, 2, 3, 4, 5}" by (auto simp: word_unat_eq_iff)
  then show ?thesis by (auto simp: compare_values_def)
qed

lemma jump_compare_taken_ok:
  assumes "dtype = 0 \<or> dtype = 1 \<or> dtype = 2" "condition \<le> 5"
  shows "\<exists>b. jump_compare_taken dtype condition x y = Ok b"
  using assms compare_values_ok [OF assms(2), of "sint x" "sint y"] compare_values_ok [OF assms(2), of x y]
    compare_values_ok [OF assms(2), of "f32_key (ucast x)" "f32_key (ucast y)"]
  by (auto simp: jump_compare_taken_def Let_def)

text \<open>The register fields of a comparing jump have five bits.\<close>

definition jump_compare_ok :: "jump_compare \<Rightarrow> bool" where
  "jump_compare_ok j \<longleftrightarrow> reg_ok 32 (jc_first_source_register j) \<and>
     (case jc_second_operand j of OperandImmediate _ \<Rightarrow> True | OperandRegister r \<Rightarrow> reg_ok 32 r) \<and>
     (case jc_offset_source j of OffsetImmediate w \<Rightarrow> unat w < 1024 | OffsetRegister r \<Rightarrow> reg_ok 32 r) \<and>
     unat (jc_dtype_field j) < 4 \<and> unat (jc_condition_field j) < 8"

lemma unat_or_small: "unat (a OR b) < 2 ^ n" if "unat a < 2 ^ n" "unat b < 2 ^ n" for a b :: "'w::len word"
proof -
  have "take_bit n a = a" "take_bit n b = b" using that by (simp_all only: take_bit_small)
  then have "take_bit n (a OR b) = a OR b" by (simp add: take_bit_or)
  then show ?thesis using take_bit_small by blast
qed

lemma jump_compare_first_register:
  "unat (ucast (push_bit 1 (field word 21 0xf) OR field word 15 1) :: u8) < 32" for word :: u32
proof -
  have "unat (field word 21 0xf) \<le> unat (0xf :: u32)" by (rule unat_field_le)
  moreover have "unat (field word 15 1) \<le> unat (1 :: u32)" by (rule unat_field_le)
  moreover have "unat (push_bit 1 x) \<le> unat x * 2" for x :: u32 by (simp add: unat_word_ariths)
  ultimately have "unat (push_bit 1 (field word 21 0xf)) < 2 ^ 5" "unat (field word 15 1) < 2 ^ 5"
    by (fastforce intro: le_less_trans)+
  then have "unat (push_bit 1 (field word 21 0xf) OR field word 15 1) < 2 ^ 5" by (rule unat_or_small)
  moreover have "unat (ucast (push_bit 1 (field word 21 0xf) OR field word 15 1) :: u8) \<le>
      unat (push_bit 1 (field word 21 0xf) OR field word 15 1)" by (rule unat_ucast_le)
  ultimately show ?thesis by simp
qed

lemma jump_compare_decode_ok: "jump_compare_decode arch word = Some j \<Longrightarrow> jump_compare_ok j"
proof -
  have "unat (ucast (word AND 0x1f) :: u8) < 32" by (rule le_less_trans [OF unat_ucast_and]) simp
  moreover have "unat (ucast (field word 5 0x3ff) :: u16) < 1024" by (rule le_less_trans [OF unat_ucast_field]) simp
  moreover have "unat (ucast (field word 25 3) :: u8) < 4" by (rule le_less_trans [OF unat_ucast_field]) simp
  moreover have "unat (ucast (field word 18 7) :: u8) < 8" by (rule le_less_trans [OF unat_ucast_field]) simp
  ultimately show "jump_compare_decode arch word = Some j \<Longrightarrow> jump_compare_ok j"
    using jump_compare_first_register [of word] reg5_ok [of word 5]
    by (auto simp: jump_compare_decode_def jump_compare_ok_def reg_ok_def split: if_splits)
qed

lemma jump_compare_evaluate_cases:
  assumes "jump_compare_ok j" "length xregs = 32"
  shows "if jc_dtype_field j = 3 then jump_compare_evaluate j pc xregs = Err (Fail (UnsupportedDtype 3))
     else if 5 < jc_condition_field j
     then jump_compare_evaluate j pc xregs = Err (Fail (UnsupportedCondition (jc_condition_field j)))
     else \<exists>t. jump_compare_evaluate j pc xregs = Ok t \<and> jct_target_pc t =
         (if jct_branch_taken t then jt_target_pc (jct_taken_target t) else pc + 4) \<and>
       jct_spr11_value t = (if jct_branch_taken t then 1 else 0) \<and>
       jump_compare_taken (jc_dtype_field j) (jc_condition_field j) (jct_first_source_value t)
         (jct_second_source_value t) = (Ok (jct_branch_taken t) :: jump_compare_error fault + bool)"
proof -
  have "unat (jc_dtype_field j) \<in> {0, 1, 2, 3}" using assms(1) by (auto simp: jump_compare_ok_def)
  then have d: "jc_dtype_field j = 0 \<or> jc_dtype_field j = 1 \<or> jc_dtype_field j = 2 \<or> jc_dtype_field j = 3"
    by (auto simp: word_unat_eq_iff)
  have first: "\<exists>x. xreg_at xregs (jc_first_source_register j) = (Ok x :: jump_compare_error fault + u64)"
    using assms by (auto simp: jump_compare_ok_def reg_ok_def xreg_at_def)
  have target: "\<exists>t. resolve_compare_offset pc (jc_word j) (jc_offset_source j) xregs =
      (Ok t :: jump_compare_error fault + jump_target)"
    using assms by (auto simp: jump_compare_ok_def reg_ok_def xreg_at_def resolve_compare_offset_def
        split: jump_compare_offset.splits)
  show ?thesis
  proof (cases "jc_dtype_field j \<noteq> 3 \<and> jc_condition_field j \<le> 5")
    case True
    then have taken: "\<exists>b. jump_compare_taken (jc_dtype_field j) (jc_condition_field j) x y =
        (Ok b :: jump_compare_error fault + bool)" for x y
      using d by (intro jump_compare_taken_ok) auto
    obtain x t where xt: "xreg_at xregs (jc_first_source_register j) = (Ok x :: jump_compare_error fault + u64)"
      "resolve_compare_offset pc (jc_word j) (jc_offset_source j) xregs =
        (Ok t :: jump_compare_error fault + jump_target)" using first target by blast
    show ?thesis
    proof (cases "jc_second_operand j")
      case (OperandImmediate e)
      obtain b where b: "jump_compare_taken (jc_dtype_field j) (jc_condition_field j) x
          (if test e 0x10 then ucast e - 32 else ucast e) = (Ok b :: jump_compare_error fault + bool)"
        using taken by blast
      from OperandImmediate xt b True d show ?thesis
        by (auto simp: jump_compare_evaluate_def Let_def not_less)
    next
      case (OperandRegister r)
      have y: "xreg_at xregs r = (Ok (xregs ! unat r) :: jump_compare_error fault + u64)"
        using assms OperandRegister by (auto simp: jump_compare_ok_def reg_ok_def xreg_at_def)
      obtain b where b: "jump_compare_taken (jc_dtype_field j) (jc_condition_field j) x (xregs ! unat r) =
          (Ok b :: jump_compare_error fault + bool)" using taken by blast
      from OperandRegister xt b y True d show ?thesis
        by (auto simp: jump_compare_evaluate_def Let_def not_less)
    qed
  qed (use d in \<open>auto simp: jump_compare_evaluate_def not_le\<close>)
qed

section \<open>Every instruction completes or changes nothing\<close>

definition completes_or_keeps :: "scalar_machine \<Rightarrow> bool \<Rightarrow> scalar_machine \<times> 'm \<times> ('e fault + 'a) \<Rightarrow> bool" where
  "completes_or_keeps sm panics run \<longleftrightarrow>
     (case run of
        (sm', m', Err e) \<Rightarrow> sm' = sm \<and> (e = Panic \<longleftrightarrow> panics)
      | (sm', m', Ok _) \<Rightarrow> sm_ok sm' \<and> sm_architecture sm' = sm_architecture sm \<and> \<not> panics)"

lemma completes_or_keeps_simps [simp]:
  "completes_or_keeps sm p (sm', m', Err e) \<longleftrightarrow> sm' = sm \<and> (e = Panic \<longleftrightarrow> p)"
  "completes_or_keeps sm p (sm', m', Ok v) \<longleftrightarrow> sm_ok sm' \<and> sm_architecture sm' = sm_architecture sm \<and> \<not> p"
  by (simp_all add: completes_or_keeps_def)

lemma completes_machine_step:
  "completes_or_keeps sm p (machine_step wrap m (sm', r)) \<longleftrightarrow> completes_or_keeps sm p (sm', m, r)"
  by (cases r) (auto simp: machine_step_def map_fail_def split: fault.splits)

lemma completes_memory_step:
  "completes_or_keeps sm p (memory_step wrap run) \<longleftrightarrow> completes_or_keeps sm p run"
  by (cases run) (auto simp: memory_step_def map_fail_def completes_or_keeps_def split: fault.splits sum.splits)

lemma run_safe_completes: "sm_ok sm \<Longrightarrow> run_safe sm run \<Longrightarrow> completes_or_keeps sm False run"
  using regs_only_ok [of sm "fst run"]
  by (cases run) (auto simp: run_safe_def completes_or_keeps_def regs_only_def dest: arg_cong [where f = sm_architecture] split: sum.splits)

lemma sm_ok_set_register [simp]: "sm_ok (set_register sm r v) = sm_ok sm"
  "sm_architecture (set_register sm r v) = sm_architecture sm"
  by (simp_all add: set_register_def sm_ok_def)

lemma set_spr_11:
  "sm_ok sm \<Longrightarrow> set_spr_value sm 11 v = (sm\<lparr>sm_spr_values := (sm_spr_values sm)[11 := Some v]\<rparr>, Ok ())"
  by (cases "sm_architecture sm") (simp_all add: set_spr_value_def sm_ok_def spr_capacity_def spr_limit_def Let_def)

lemma sm_ok_update_spr [simp]:
  "sm_ok (sm\<lparr>sm_spr_values := (sm_spr_values sm)[i := v]\<rparr>) = sm_ok sm"
  by (simp add: sm_ok_def)

lemma compared_no_panic:
  "compared pc word (evaluate_integer_compare dtype condition x y) \<noteq> Err Panic"
proof (cases "condition \<le> 5")
  case True
  obtain b c where "compare_values (sint x) (sint y) condition = (Ok b :: machine_result + bool)"
    "compare_values x y condition = (Ok c :: machine_result + bool)"
    using compare_values_ok [OF True] by metis
  then show ?thesis by (simp add: compared_def evaluate_integer_compare_def unsupported_def)
qed (simp add: compared_def evaluate_integer_compare_def unsupported_def not_le)

lemmas decoded_regs = xreg_at_ok unsupported_def completes_machine_step set_spr_11

lemma completes_compare:
  assumes "sm_ok sm" and "from_word (sm_architecture sm) word = Some (ScalarCompare dtype condition first second)"
  shows "completes_or_keeps sm False (machine_step wrap m (execute_compare_word sm pc word))"
  using assms decoded_ok [OF assms(2)] compared_no_panic [of pc word]
  by (auto simp: execute_compare_word_def decoded_regs and_then_def split: sum.split)

lemma completes_compare_register:
  assumes "sm_ok sm"
    and "from_word (sm_architecture sm) word = Some (ScalarCompareRegister dtype condition destination first second)"
  shows "completes_or_keeps sm False (machine_step wrap m (execute_compare_register_word sm pc word))"
  using assms decoded_ok [OF assms(2)] compared_no_panic [of pc word]
  by (auto simp: execute_compare_register_word_def decoded_regs and_then_def split: sum.split)

lemma completes_compare_immediate:
  assumes "sm_ok sm"
    and "from_word (sm_architecture sm) word = Some (ScalarCompareImmediate condition source encoded)"
  shows "completes_or_keeps sm False (machine_step wrap m (execute_compare_immediate_word sm pc word))"
proof (cases "condition \<le> 5")
  case True
  let ?imm = "(if test encoded 0x800 then ucast encoded - 4096 else ucast encoded) :: i16"
  obtain b where "compare_values (sint (sm_xregs sm ! unat source)) (sint ?imm) condition =
      (Ok b :: machine_result + bool)" using compare_values_ok [OF True] by metis
  with True assms decoded_ok [OF assms(2)] show ?thesis
    by (simp add: execute_compare_immediate_word_def decoded_regs Let_def)
qed (use assms in \<open>simp add: execute_compare_immediate_word_def decoded_regs not_le\<close>)

text \<open>The two instructions that index the register file with a six-bit field: \<open>SELECT\<close>, whose
  fields have six bits on the C220 only, and the cache preload, whose source field has six bits on
  both architectures.\<close>

definition indexes_past_registers :: "scalar_machine \<Rightarrow> u32 \<Rightarrow> bool" where
  "indexes_past_registers sm word \<longleftrightarrow>
     (case from_word (sm_architecture sm) word of
        Some (ScalarSelect _ d a b) \<Rightarrow>
          spr_value sm 11 \<noteq> None \<and> (32 \<le> unat d \<or> 32 \<le> unat a \<or> 32 \<le> unat b)
      | Some (ScalarKey8 DcPreload _ s _) \<Rightarrow> 32 \<le> unat s
      | _ \<Rightarrow> False)"

lemma indexes_past_registers_encoding:
  assumes "indexes_past_registers sm word"
  shows "(\<exists>s imm. from_word (sm_architecture sm) word = Some (ScalarKey8 DcPreload None s imm) \<and> 32 \<le> unat s) \<or>
     sm_architecture sm = Dav2201 \<and>
       (\<exists>dtype d a b. from_word Dav2201 word = Some (ScalarSelect dtype d a b) \<and>
          (32 \<le> unat d \<or> 32 \<le> unat a \<or> 32 \<le> unat b))"
proof -
  from assms obtain i where i: "from_word (sm_architecture sm) word = Some i"
    by (auto simp: indexes_past_registers_def split: option.splits)
  note ok = from_word_ok [OF i]
  show ?thesis
  proof (cases i)
    case (ScalarSelect dtype d a b)
    with assms i have past: "32 \<le> unat d \<or> 32 \<le> unat a \<or> 32 \<le> unat b"
      by (simp add: indexes_past_registers_def)
    with ok ScalarSelect have "sm_architecture sm = Dav2201"
      by (auto simp: wide_def reg_ok_def split: if_splits)
    with i past ScalarSelect show ?thesis by auto
  next
    case (ScalarKey8 operation d s imm)
    with assms i ok show ?thesis
      by (auto simp: indexes_past_registers_def split: scalar_key8_operation.splits)
  qed (use assms i in \<open>simp_all add: indexes_past_registers_def\<close>)
qed

lemma xreg_at_cases:
  "sm_ok sm \<Longrightarrow> xreg_at (sm_xregs sm) r = (if unat r < 32 then Ok (sm_xregs sm ! unat r) else Err Panic)"
  by (simp add: xreg_at_def sm_ok_def x_register_count_def)

lemma completes_select:
  assumes "sm_ok sm" and "from_word (sm_architecture sm) word = Some (ScalarSelect dtype d a b)"
  shows "completes_or_keeps sm (indexes_past_registers sm word)
    (machine_step wrap m (execute_select_word sm pc word))"
  using assms
  by (auto simp: execute_select_word_def indexes_past_registers_def xreg_at_cases unsupported_def
      completes_machine_step ok_or_def Let_def not_le split: option.split)

lemma completes_cache_hint:
  assumes "sm_ok sm" and "from_word (sm_architecture sm) word = Some (ScalarKey8 DcPreload d s imm)"
  shows "completes_or_keeps sm (indexes_past_registers sm word)
    (machine_step wrap m (sm, execute_cache_hint_word sm pc word))"
  using assms decoded_ok [OF assms(2)]
  by (auto simp: execute_cache_hint_word_def indexes_past_registers_def xreg_at_cases unsupported_def
      completes_machine_step)

lemma completes_spr_read:
  assumes "sm_ok sm" and "from_word (sm_architecture sm) word = Some (ScalarKey2MoveFromSpr d spr)"
  shows "completes_or_keeps sm False (machine_step wrap m (execute_spr_read_word sm pc word))"
  using assms decoded_ok [OF assms(2)]
  by (auto simp: execute_spr_read_word_def decoded_regs ok_or_def Let_def split: option.split)

lemma completes_spr_write:
  assumes "sm_ok sm" and "from_word (sm_architecture sm) word = Some (ScalarKey2MoveToSpr spr s)"
  shows "completes_or_keeps sm False (machine_step wrap m (execute_spr_word sm pc word))"
  using assms decoded_ok [OF assms(2)]
  by (auto simp: execute_spr_word_def xreg_get_def unsupported_def completes_machine_step ok_or_def
      spr_write_mask_def sm_ok_def spr_capacity_def Let_def split: option.split)

lemma completes_register:
  assumes "sm_ok sm"
  shows "completes_or_keeps sm False (machine_step wrap m (execute_word sm pc word))"
  using execute_word_outcomes [of sm pc word] execute_word_no_panic [OF assms, of pc word] assms
  by (auto simp: completes_machine_step sm_ok_def)

lemma completes_jump_compare:
  assumes "sm_ok sm"
  shows "completes_or_keeps sm False (machine_step wrap m (execute_jump_compare_word sm pc word))"
proof (cases "jump_compare_decode (sm_architecture sm) word")
  case (Some j)
  have "length (sm_xregs sm) = 32" using assms by (simp add: sm_ok_def x_register_count_def)
  from jump_compare_evaluate_cases [OF jump_compare_decode_ok [OF Some] this, of pc] assms Some
  show ?thesis
    by (auto simp: execute_jump_compare_word_def ok_or_def map_fail_def completes_machine_step set_spr_11
        split: if_splits)
qed (use assms in \<open>simp add: execute_jump_compare_word_def ok_or_def completes_machine_step\<close>)

lemma machine_step_wrap:
  "machine_step wrap m (case run of (sm', r) \<Rightarrow> (sm', and_then r (\<lambda>t. Ok (f t)))) =
     machine_step (\<lambda>t. wrap (f t)) m run"
  by (auto simp: machine_step_def map_fail_def and_then_def split: prod.split sum.split)

lemma completes_flow_word:
  assumes "sm_ok sm"
  shows "completes_or_keeps sm False (machine_step wrap m (execute_flow_word sm pc word))"
proof -
  have len: "length (sm_xregs sm) = 32" "11 < length (sm_spr_values sm)"
    using assms by (simp_all add: sm_ok_def x_register_count_def spr_capacity_def)
  let ?arch = "sm_architecture sm"
  have jump: "completes_or_keeps sm False (machine_step wrap m
      (sm, and_then (unconditional_resolve j pc (sm_xregs sm)) (\<lambda>t. Ok (FlowJumpStep t))))"
    if j: "unconditional_decode ?arch word = Some j" for j
  proof -
    obtain t where "unconditional_resolve j pc (sm_xregs sm) = (Ok t :: machine_result + jump_target)"
      using unconditional_resolve_ok [OF len(1) j] by blast
    then show ?thesis using assms by (simp add: completes_machine_step)
  qed
  have conditional: "completes_or_keeps sm False (machine_step wrap m
      (sm, and_then (ok_or (sm_spr_values sm ! 11) (Fail (SprValueUnavailable pc 11))) (\<lambda>condition.
             and_then (conditional_resolve j pc (sm_xregs sm) condition) (\<lambda>t. Ok (FlowConditionalStep t)))))"
    if j: "conditional_decode ?arch word = Some j" for j
  proof (cases "sm_spr_values sm ! 11")
    case (Some c)
    obtain t where "conditional_resolve j pc (sm_xregs sm) c = (Ok t :: machine_result + conditional_jump_target)"
      using conditional_resolve_ok [OF len(1) j] by blast
    then show ?thesis using assms Some by (simp add: completes_machine_step ok_or_def)
  qed (simp add: completes_machine_step ok_or_def)
  show ?thesis
    using assms len(2) jump conditional completes_jump_compare [OF assms, of "\<lambda>t. wrap (FlowCompareStep t)" m pc word]
    by (auto simp: execute_flow_word_def completes_machine_step unsupported_def machine_step_wrap split: option.split)
qed

lemma completes_synchronize:
  assumes "sm_ok sm"
  shows "completes_or_keeps sm False (synchronize sm r backend declined step)"
  using assms by (auto simp: synchronize_def split: prod.split sum.split)

lemma flow_not_scalar: "aic_from_word word = AicFlowControl \<Longrightarrow> \<not> indexes_past_registers sm word"
  by (simp add: indexes_past_registers_def from_word_def)

lemma completes_flow_instruction:
  assumes "sm_ok sm"
  shows "completes_or_keeps sm False (execute_flow_instruction bus sm m pc word)"
proof (cases "dcci_decode (sm_architecture sm) word")
  case (Some i)
  have "length (sm_xregs sm) = 32" using assms by (simp add: sm_ok_def x_register_count_def)
  then obtain step where "dcci_resolve i pc (sm_xregs sm) = (Ok step :: 'b scalar_instruction_error fault + dcci_step)"
    using dcci_resolve_ok [OF _ Some] by blast
  with Some assms show ?thesis
    by (simp add: execute_flow_instruction_def completes_synchronize split: option.split)
qed (use assms in \<open>simp add: execute_flow_instruction_def completes_synchronize completes_flow_word split: option.split\<close>)

lemma execute_instruction_completes:
  assumes "sm_ok sm"
  shows "completes_or_keeps sm (indexes_past_registers sm word) (execute_instruction bus sm m pc word)"
proof (cases "aic_from_word word = AicFlowControl")
  case True
  then show ?thesis
    using completes_flow_instruction [OF assms] flow_not_scalar [OF True] by (simp add: execute_instruction_def)
next
  case False
  note runs = run_safe_memory_word run_safe_indexed_store run_safe_indexed_load run_safe_indexed_immediate_store
    run_safe_immediate_store run_safe_pair_load run_safe_pair_store
  show ?thesis
  proof (cases "from_word (sm_architecture sm) word")
    case None
    then show ?thesis using False completes_register [OF assms]
      by (simp add: execute_instruction_def indexes_past_registers_def)
  next
    case (Some i)
    note defs = execute_instruction_def False Some
    show ?thesis
    proof (cases i)
      case (ScalarSelect dtype d a b)
      with Some have i: "from_word (sm_architecture sm) word = Some (ScalarSelect dtype d a b)" by simp
      then show ?thesis by (simp add: execute_instruction_def False completes_select [OF assms i])
    next
      case (ScalarKey8 operation d s imm)
      show ?thesis
      proof (cases "operation = DcPreload")
        case True
        with Some ScalarKey8 have i: "from_word (sm_architecture sm) word = Some (ScalarKey8 DcPreload d s imm)"
          by simp
        then show ?thesis by (simp add: execute_instruction_def False completes_cache_hint [OF assms i])
      next
        case other: False
        then show ?thesis using ScalarKey8 completes_register [OF assms]
          by (cases operation) (simp_all add: defs indexes_past_registers_def)
      qed
    qed (simp_all add: defs indexes_past_registers_def completes_memory_step run_safe_completes assms runs
          completes_compare completes_compare_register completes_compare_immediate completes_spr_read
          completes_spr_write completes_register)
  qed
qed

section \<open>What a program does to the memory\<close>

text \<open>A predicate of the memory that every operation of the bus keeps.\<close>

definition bus_keeps :: "('m, 'e) scalar_memory_bus \<Rightarrow> ('m \<Rightarrow> bool) \<Rightarrow> bool" where
  "bus_keeps bus J \<longleftrightarrow>
     (\<forall>m. J m \<longrightarrow> (\<forall>a d. J (fst (sb_read bus m a d))) \<and> (\<forall>a d. J (fst (sb_write bus m a d))) \<and>
        (\<forall>s. J (fst (sb_maintain_data_cache bus m s))) \<and> (\<forall>s. J (fst (sb_synchronize_pipeline bus m s))) \<and>
        (\<forall>s. J (fst (sb_synchronize_barrier bus m s))))"

lemma bus_load_memory: "fst (bus_load bus m a w) = fst (sb_read bus m a (take (unat w) zero_bytes))"
  by (simp add: bus_load_def split: prod.split sum.split)

lemma bus_store_memory: "fst (bus_store bus m a w bs) = fst (sb_write bus m a (take (unat w) bs))"
  by (simp add: bus_store_def split: prod.split sum.split)

lemma bus_keeps_load: "bus_keeps bus J \<Longrightarrow> J m \<Longrightarrow> J (fst (bus_load bus m a w))"
  unfolding bus_load_memory bus_keeps_def by blast

lemma bus_keeps_store: "bus_keeps bus J \<Longrightarrow> J m \<Longrightarrow> J (fst (bus_store bus m a w bs))"
  unfolding bus_store_memory bus_keeps_def by blast

lemma bus_keeps_loaded: "bus_keeps bus J \<Longrightarrow> J m \<Longrightarrow> bus_load bus m a w = (m', r) \<Longrightarrow> J m'"
  using bus_keeps_load [of bus J m a w] by simp

lemma bus_keeps_stored: "bus_keeps bus J \<Longrightarrow> J m \<Longrightarrow> bus_store bus m a w bs = (m', r) \<Longrightarrow> J m'"
  using bus_keeps_store [of bus J m a w bs] by simp

lemma bus_keeps_memory_word:
  "bus_keeps bus J \<Longrightarrow> J m \<Longrightarrow> J (fst (snd (execute_memory_word bus sm m pc word)))"
  unfolding execute_memory_word_def
  by (auto simp: Let_def intro: bus_keeps_loaded bus_keeps_stored
      split: option.split scalar_instruction.split sum.split prod.split scalar_load_store_operation.split)

lemma bus_keeps_indexed_store:
  "bus_keeps bus J \<Longrightarrow> J m \<Longrightarrow> J (fst (snd (execute_indexed_store_word bus sm m pc word)))"
  unfolding execute_indexed_store_word_def
  by (auto simp: Let_def intro: bus_keeps_loaded bus_keeps_stored
      split: option.split scalar_instruction.split sum.split prod.split scalar_load_store_operation.split)

lemma bus_keeps_indexed_load:
  "bus_keeps bus J \<Longrightarrow> J m \<Longrightarrow> J (fst (snd (execute_indexed_load_word bus sm m pc word)))"
  unfolding execute_indexed_load_word_def
  by (auto simp: Let_def intro: bus_keeps_loaded bus_keeps_stored
      split: option.split scalar_instruction.split sum.split prod.split scalar_load_store_operation.split)

lemma bus_keeps_indexed_immediate_store:
  "bus_keeps bus J \<Longrightarrow> J m \<Longrightarrow> J (fst (snd (execute_indexed_immediate_store_word bus sm m pc word)))"
  unfolding execute_indexed_immediate_store_word_def
  by (auto simp: Let_def intro: bus_keeps_loaded bus_keeps_stored
      split: option.split scalar_instruction.split sum.split prod.split scalar_load_store_operation.split)

lemma bus_keeps_immediate_store:
  "bus_keeps bus J \<Longrightarrow> J m \<Longrightarrow> J (fst (snd (execute_immediate_store_word bus sm m pc word)))"
  unfolding execute_immediate_store_word_def
  by (auto simp: Let_def intro: bus_keeps_loaded bus_keeps_stored
      split: option.split scalar_instruction.split sum.split prod.split scalar_load_store_operation.split)

lemma bus_keeps_pair_load:
  "bus_keeps bus J \<Longrightarrow> J m \<Longrightarrow> J (fst (snd (execute_pair_load_word bus sm m pc word)))"
  unfolding execute_pair_load_word_def
  by (auto simp: Let_def intro: bus_keeps_loaded bus_keeps_stored
      split: option.split scalar_instruction.split sum.split prod.split scalar_load_store_operation.split)

lemma bus_keeps_pair_store:
  "bus_keeps bus J \<Longrightarrow> J m \<Longrightarrow> J (fst (snd (execute_pair_store_word bus sm m pc word)))"
  unfolding execute_pair_store_word_def
  by (auto simp: Let_def intro: bus_keeps_loaded bus_keeps_stored
      split: option.split scalar_instruction.split sum.split prod.split scalar_load_store_operation.split)

lemma machine_step_memory [simp]: "fst (snd (machine_step wrap m run)) = m"
  by (simp add: machine_step_def split: prod.split)

lemma memory_step_memory [simp]: "fst (snd (memory_step wrap run)) = fst (snd run)"
  by (simp add: memory_step_def split: prod.split)

lemma synchronize_memory [simp]: "fst (snd (synchronize sm run backend declined step)) = fst run"
  by (simp add: synchronize_def split: prod.split sum.split)

lemma bus_keeps_flow:
  "bus_keeps bus J \<Longrightarrow> J m \<Longrightarrow> J (fst (snd (execute_flow_instruction bus sm m pc word)))"
  by (auto simp: execute_flow_instruction_def bus_keeps_def split: option.split sum.split)

lemma bus_keeps_instruction:
  assumes "bus_keeps bus J" "J m"
  shows "J (fst (snd (execute_instruction bus sm m pc word)))"
  unfolding execute_instruction_def
  by (simp add: assms bus_keeps_flow bus_keeps_memory_word bus_keeps_indexed_store bus_keeps_indexed_load
      bus_keeps_indexed_immediate_store bus_keeps_immediate_store bus_keeps_pair_load bus_keeps_pair_store
      split: option.split scalar_instruction.split scalar_key8_operation.split)

lemma hp_bus_keeps: "bus_keeps (memory_only hp_bus_read hp_bus_write) (\<lambda>m. hp_ok m \<and> hp_allocator m = A)"
proof -
  have "hp_ok (fst (hp_bus_write m a bs)) \<and> hp_allocator (fst (hp_bus_write m a bs)) = hp_allocator m"
    if "hp_ok m" for m a bs
  proof (cases "host_to_device m a bs")
    case (Pair m' r)
    then show ?thesis using host_to_device_spec(1,2) [OF that Pair] that by (simp add: hp_bus_write_def)
  qed
  moreover have "fst (hp_bus_read m a d) = m" for m a d by (simp add: hp_bus_read_def)
  ultimately show ?thesis by (simp add: bus_keeps_def memory_only_def)
qed

section \<open>Programs as step relations\<close>

text \<open>One instruction of a program: any word the fetch delivers, executed by the stepper. A run that
  panics has no successor.\<close>

inductive program_step ::
  "('m, 'e) scalar_memory_bus \<Rightarrow> scalar_stepper \<times> 'm \<Rightarrow> scalar_stepper \<times> 'm \<Rightarrow> bool" for bus where
  executes: "step_word bus st m word = (st', m', Ok out) \<Longrightarrow> program_step bus (st, m) (st', m')"
| fails: "step_word bus st m word = (st', m', Err (Fail e)) \<Longrightarrow> program_step bus (st, m) (st', m')"

inductive_cases program_stepE: "program_step bus (st, m) (st', m')"

lemma step_word_fst: "fst (snd (step_word bus st m word)) =
    (if st_halted st then m else fst (snd (execute_instruction bus (st_machine st) m (st_pc st) word)))"
  by (simp add: step_word_def Let_def split: prod.split sum.split)

lemma step_word_cases:
  assumes "sm_ok (st_machine st)"
  shows "case step_word bus st m word of
      (st', m', Err e) \<Rightarrow> st' = st \<and>
        (e = Panic \<longleftrightarrow> \<not> st_halted st \<and> indexes_past_registers (st_machine st) word)
    | (st', m', Ok out) \<Rightarrow>
        \<not> st_halted st \<and> sps_pc out = st_pc st \<and> st_pc st' = sps_next_pc out \<and>
        sm_ok (st_machine st') \<and> sm_architecture (st_machine st') = sm_architecture (st_machine st) \<and>
        (case sps_instruction out of
           StepFlow flow \<Rightarrow> sps_next_pc out = target_pc flow \<and> st_halted st' = (\<exists>e. flow = FlowEndStep e)
         | _ \<Rightarrow> sps_next_pc out = st_pc st + 4 \<and> \<not> st_halted st')"
proof (cases "execute_instruction bus (st_machine st) m (st_pc st) word")
  case (fields sm' m' r)
  have c: "completes_or_keeps (st_machine st) (indexes_past_registers (st_machine st) word) (sm', m', r)"
    using execute_instruction_completes [OF assms, of word bus m "st_pc st"] fields by simp
  show ?thesis
  proof (cases r)
    case (Inl e)
    with c fields show ?thesis by (simp add: step_word_def Let_def)
  next
    case (Inr i)
    with c fields show ?thesis
      by (auto simp: step_word_def Let_def split: scalar_instruction_step.split scalar_flow_step.split)
  qed
qed

lemma program_step_preserves:
  assumes "program_step bus (st, m) (st', m')" "sm_ok (st_machine st)"
  shows "sm_ok (st_machine st') \<and> sm_architecture (st_machine st') = sm_architecture (st_machine st)"
    and "st_halted st \<Longrightarrow> (st', m') = (st, m)"
    and "bus_keeps bus J \<Longrightarrow> J m \<Longrightarrow> J m'"
proof -
  from assms(1) obtain word r where s: "step_word bus st m word = (st', m', r)"
    by (cases rule: program_stepE) auto
  show "sm_ok (st_machine st') \<and> sm_architecture (st_machine st') = sm_architecture (st_machine st)"
    using step_word_cases [OF assms(2), where bus = bus and m = m and word = word] s assms(2) by (cases r) auto
  show "st_halted st \<Longrightarrow> (st', m') = (st, m)"
    using s by (simp add: step_word_def)
  show "bus_keeps bus J \<Longrightarrow> J m \<Longrightarrow> J m'"
    using step_word_fst [of bus st m word] s bus_keeps_instruction [of bus J m] by (simp split: if_splits)
qed

lemma reachable_preserves:
  assumes "(program_step bus)\<^sup>*\<^sup>* (st, m) (st', m')" "sm_ok (st_machine st)"
  shows "sm_ok (st_machine st') \<and> sm_architecture (st_machine st') = sm_architecture (st_machine st)"
    and "st_halted st \<Longrightarrow> (st', m') = (st, m)"
    and "bus_keeps bus J \<Longrightarrow> J m \<Longrightarrow> J m'"
proof -
  have "sm_ok (st_machine st') \<and> sm_architecture (st_machine st') = sm_architecture (st_machine st) \<and>
      (st_halted st \<longrightarrow> (st', m') = (st, m)) \<and> (bus_keeps bus J \<longrightarrow> J m \<longrightarrow> J m')"
    using assms(1)
  proof (induction rule: rtranclp_induct2)
    case refl
    then show ?case using assms(2) by simp
  next
    case (step st1 m1 st2 m2)
    then show ?case using program_step_preserves [OF step(2)] by (auto simp: prod_eq_iff)
  qed
  then show "sm_ok (st_machine st') \<and> sm_architecture (st_machine st') = sm_architecture (st_machine st)"
    and "st_halted st \<Longrightarrow> (st', m') = (st, m)" and "bus_keeps bus J \<Longrightarrow> J m \<Longrightarrow> J m'" by simp_all
qed

section \<open>What a load or a store does\<close>

text \<open>The address, the access width and the value of a store, of a register or of an immediate, in
  the forms with an immediate or an indexed offset, applied before the access or after it
  (\<open>post_index\<close>): a post-indexed access is at the base itself. A post-indexed store of an immediate
  exists on the C220 only.\<close>

definition access_address :: "bool \<Rightarrow> u64 \<Rightarrow> u64 \<Rightarrow> u64" where
  "access_address post_index base_value off = (if post_index then base_value else base_value + off)"

definition immediate_value :: "scalar_store_immediate_value \<Rightarrow> u64" where
  "immediate_value v = (case v of ImmZero \<Rightarrow> 0 | ImmOne \<Rightarrow> 1 | ImmOnes \<Rightarrow> - 1)"

fun store_effect :: "scalar_machine \<Rightarrow> scalar_instruction \<Rightarrow> (u64 \<times> u8 \<times> u64) option" where
  "store_effect sm (ScalarLoadStoreImmediate StoreOp dt w s b off post sx) =
     Some (access_address post (xreg_or_zero sm b) (scast off), w, xreg_or_zero sm s)"
| "store_effect sm (ScalarIndexedStore w s b x post) =
     Some (access_address post (xreg_or_zero sm b) (xreg_or_zero sm x * ucast w), w, xreg_or_zero sm s)"
| "store_effect sm (ScalarStoreImmediate w b off post v) =
     Some (access_address post (xreg_or_zero sm b) (scast off), w, immediate_value v)"
| "store_effect sm (ScalarIndexedImmediateStore w b x v post) =
     Some (access_address post (xreg_or_zero sm b) (xreg_or_zero sm x * ucast w), w, immediate_value v)"
| "store_effect sm _ = None"

text \<open>The address, the width, the destination and the sign extension of a load of one register, and
  the register and value of its base update. The one form that is refused, a post-indexed load of
  the Dav3510 into its own base, has none.\<close>

fun load_effect ::
  "scalar_machine \<Rightarrow> scalar_instruction \<Rightarrow> (u64 \<times> u8 \<times> u8 \<times> bool \<times> (u8 \<times> u64) option) option" where
  "load_effect sm (ScalarLoadStoreImmediate Load dt w d b off post sx) =
     (if sm_architecture sm \<noteq> Dav2201 \<and> post \<and> d = b then None
      else Some (access_address post (xreg_or_zero sm b) (scast off), w, d, sx = Some True \<and> w < 8,
        if post then Some (b, xreg_or_zero sm b + scast off) else None))"
| "load_effect sm (ScalarIndexedLoad w d b x post) =
     Some (access_address post (xreg_or_zero sm b) (xreg_or_zero sm x * ucast w), w, d, False,
       if post then Some (b, xreg_or_zero sm b + xreg_or_zero sm x * ucast w) else None)"
| "load_effect sm _ = None"

definition write_xreg :: "scalar_machine \<Rightarrow> u8 \<Rightarrow> u64 \<Rightarrow> scalar_machine" where
  "write_xreg sm r v = fst (write_existing_xreg sm r v)"

definition commit_load :: "scalar_machine \<Rightarrow> (u8 \<times> u64) option \<Rightarrow> u8 \<Rightarrow> u64 \<Rightarrow> scalar_machine" where
  "commit_load sm updated d v =
     write_xreg (case updated of None \<Rightarrow> sm | Some (b, base) \<Rightarrow> write_xreg sm b base) d v"

lemma low_register: "reg_ok 32 r \<Longrightarrow> r \<noteq> 32"
  by (auto simp: reg_ok_def)

lemma xreg_or_zero_low: "sm_ok sm \<Longrightarrow> reg_ok 32 r \<Longrightarrow> xreg_or_zero sm r = sm_xregs sm ! unat r"
  using low_register [of r]
  by (simp add: xreg_or_zero_def xreg_value_def sm_ok_def x_register_count_def reg_ok_def)

lemma write_xreg_low: "sm_ok sm \<Longrightarrow> reg_ok 32 r \<Longrightarrow> write_xreg sm r v = set_register sm r v"
  using low_register [of r]
  by (simp add: write_xreg_def write_existing_xreg_def set_xreg_def set_register_def sm_ok_def
      x_register_count_def reg_ok_def)

lemma commit_load_value:
  "xreg_value sm d \<noteq> None \<Longrightarrow> xreg_value (commit_load sm updated d v) d = Some v"
  by (auto simp: commit_load_def write_xreg_def write_existing_xreg_def set_xreg_def xreg_value_def
      split: option.split if_splits)

lemma ucast_ones: "8 \<le> n \<Longrightarrow> ucast (Bit_Operations.mask n :: u64) = (255 :: u8)"
proof -
  assume "8 \<le> n"
  then have "ucast (Bit_Operations.mask n :: u64) = (- 1 :: u8)"
    by (intro bit_word_eqI) (simp add: bit_simps)
  then show ?thesis by simp
qed

lemma immediate_value_bytes: "to_le_bytes (immediate_value v) = immediate_bytes v"
  by (cases v) (simp_all add: immediate_value_def immediate_bytes_def to_le_bytes_def zero_bytes_def
      upt_rec ucast_ones numeral_eq_Suc)

lemma bus_store_cong: "take (unat w) bs = take (unat w) bs' \<Longrightarrow> bus_store bus m a w bs = bus_store bus m a w bs'"
  by (simp add: bus_store_def)

lemma bus_store_bytes:
  "width_ok w \<Longrightarrow> bus_store bus m a w (to_le_bytes v) = bus_store bus m a w (store_bytes w v)"
  "width_ok w \<Longrightarrow> bus_store bus m a w (immediate_bytes i) = bus_store bus m a w (store_bytes w (immediate_value i))"
proof -
  have t: "take (unat w) (to_le_bytes v) = take (unat w) (store_bytes w v)" if "width_ok w" for v
    using width_ok_le [OF that] by (auto simp: store_bytes_def to_le_bytes_def min_def)
  show "width_ok w \<Longrightarrow> bus_store bus m a w (to_le_bytes v) = bus_store bus m a w (store_bytes w v)"
    by (rule bus_store_cong [OF t])
  show "width_ok w \<Longrightarrow> bus_store bus m a w (immediate_bytes i) = bus_store bus m a w (store_bytes w (immediate_value i))"
    using t [of "immediate_value i"] by (intro bus_store_cong) (simp add: immediate_value_bytes)
qed

lemma from_word_not_flow: "from_word arch word = Some i \<Longrightarrow> aic_from_word word \<noteq> AicFlowControl"
  by (auto simp: from_word_def split: if_splits)

lemma store_runs:
  assumes "sm_ok sm" and i: "from_word (sm_architecture sm) word = Some i"
    and "store_effect sm i = Some (a, w, v)"
    and "execute_instruction bus sm m pc word = (sm', m', Ok st)"
  shows "width_ok w \<and> bus_store bus m a w (store_bytes w v) = (m', Ok ())"
  using assms from_word_ok [OF i] from_word_not_flow [OF i]
  by (cases "(sm, i)" rule: store_effect.cases)
    (auto simp: execute_instruction_def memory_step_def execute_memory_word_def
      execute_indexed_store_word_def execute_immediate_store_word_def
      execute_indexed_immediate_store_word_def xreg_at_ok address_effect_def Let_def
      xreg_or_zero_low access_address_def indexed_address_def bus_store_bytes map_fail_def
      split: if_splits prod.splits sum.splits)

lemma load_runs:
  assumes "sm_ok sm" and i: "from_word (sm_architecture sm) word = Some i"
    and "load_effect sm i = Some (a, w, d, sign, updated)"
    and "bus_load bus m a w = (m', Ok bytes)"
  shows "\<exists>ld. execute_instruction bus sm m pc word =
    (commit_load sm updated d (loaded_value sign w bytes), m', Ok ld)"
  using assms from_word_ok [OF i] from_word_not_flow [OF i]
  by (cases "(sm, i)" rule: load_effect.cases)
    (auto simp: execute_instruction_def memory_step_def execute_memory_word_def
      execute_indexed_load_word_def xreg_at_ok address_effect_def Let_def set_base_def write_base_def
      xreg_or_zero_low write_xreg_low access_address_def indexed_address_def commit_load_def map_fail_def
      loaded_value_def write_xreg_def [symmetric] split: if_splits prod.splits sum.splits)

section \<open>Properties\<close>

text \<open>C14. A store through the device bus is read back by any later load of the same width from the
  same address, on this machine or on any other one that shares the memory. The store is any of
  the single stores (of a register or of an immediate, at an immediate or an indexed offset), the
  load any load of one register, at an immediate or an indexed offset; either may be post-indexed,
  and is then at the base as it was before its update. The load succeeds, does not change the
  memory, writes the updated base of a post-indexed load and then, in its destination, the low bytes
  of the stored value, sign-extended when the load asks for it. (The paired forms are not covered,
  and the Dav3510 refuses a post-indexed load into its own base.)\<close>

theorem store_load_roundtrip:
  fixes m :: hbm_pv_memory
  defines "bus \<equiv> memory_only hp_bus_read hp_bus_write"
  assumes "hp_ok m" "sm_ok sm" "sm_ok sm2"
    and "from_word (sm_architecture sm) ws = Some store" "store_effect sm store = Some (a, w, v)"
    and "from_word (sm_architecture sm2) wl = Some load"
      "load_effect sm2 load = Some (a, w, d, sign, updated)"
    and "execute_instruction bus sm m pc ws = (sm', m', Ok st)"
  shows "\<exists>sm2' ld. execute_instruction bus sm2 m' pc2 wl = (sm2', m', Ok ld) \<and>
    (let x = (if sign then word_of_int (signed_take_bit (8 * unat w - 1) (sint v))
              else take_bit (8 * unat w) v)
     in sm2' = commit_load sm2 updated d x \<and> (xreg_value sm2 d \<noteq> None \<longrightarrow> xreg_value sm2' d = Some x))"
proof -
  note st = store_runs [OF assms(3,5,6,9)]
  have "bus_load bus m' a w = (m', Ok (store_bytes w v))"
    unfolding bus_def using st by (intro hp_bus.load_after_store [OF assms(2)]) (simp_all add: bus_def)
  from load_runs [OF assms(4,7,8) this, of pc2] st show ?thesis
    by (auto simp: Let_def loaded_stored commit_load_value)
qed

text \<open>A C220 machine that shares the memory and loads with a post-index of eight bytes.\<close>

definition reader_machine :: scalar_machine where
  "reader_machine = machine_new Dav2201 ((replicate 32 0)[2 := 268435460]) 0"

lemma reader_machine_simps [simp]:
  "sm_ok reader_machine" "sm_architecture reader_machine = Dav2201"
  "sm_xregs reader_machine ! 2 = 268435460"
  by (simp_all add: reader_machine_def machine_new_def sm_ok_def x_register_count_def)

lemma demo_post_load: "from_word Dav2201 0x13862008 =
    Some (ScalarLoadStoreImmediate Load 2 4 3 2 8 True None)"
  by (simp add: decode_eval load_store_hint_def dtype_bits_def width_field_def device_load_decode_def)

theorem store_load_roundtrip_witness:
  "\<exists>m' st sm2' ld.
    execute_instruction (memory_only hp_bus_read hp_bus_write) memory_machine demo_device 0 0x03822000 =
      (memory_machine, m', Ok st) \<and>
    execute_instruction (memory_only hp_bus_read hp_bus_write) reader_machine m' 4 0x13862008 =
      (sm2', m', Ok ld) \<and>
    sm_xregs sm2' ! 3 = 0x04030201 \<and> sm_xregs sm2' ! 2 = 268435468"
proof -
  let ?bus = "memory_only hp_bus_read hp_bus_write"
  have x: "sm_xregs reader_machine = (replicate 32 0)[2 := 268435460]"
    by (simp add: reader_machine_def machine_new_def)
  obtain m' st where "execute_memory_word ?bus memory_machine demo_device 0 0x03822000 =
      (memory_machine, m', Ok st)"
    using demo_stored by blast
  then have e: "execute_instruction ?bus memory_machine demo_device 0 0x03822000 =
      (memory_machine, m', Ok (StepMemory st))"
    using from_word_not_flow [OF demo_store] by (simp add: execute_instruction_def demo_store memory_step_def map_fail_def)
  have S: "from_word (sm_architecture memory_machine) 0x03822000 =
      Some (ScalarLoadStoreImmediate StoreOp 2 4 1 2 0 False None)"
    and L: "from_word (sm_architecture reader_machine) 0x13862008 =
      Some (ScalarLoadStoreImmediate Load 2 4 3 2 8 True None)"
    by (simp_all add: demo_store demo_post_load)
  have SE: "store_effect memory_machine (ScalarLoadStoreImmediate StoreOp 2 4 1 2 0 False None) =
      Some (268435460, 4, 0x04030201)"
    by (simp add: access_address_def xreg_or_zero_low reg_ok_def)
  have LE: "load_effect reader_machine (ScalarLoadStoreImmediate Load 2 4 3 2 8 True None) =
      Some (268435460, 4, 3, False, Some (2, 268435468))"
    by (simp add: access_address_def xreg_or_zero_low reg_ok_def)
  have t: "take_bit 32 0x04030201 = (0x04030201 :: u64)" by simp
  have c: "sm_xregs (commit_load reader_machine (Some (2, 268435468)) 3 0x04030201) ! 3 = 0x04030201"
    "sm_xregs (commit_load reader_machine (Some (2, 268435468)) 3 0x04030201) ! 2 = 268435468"
    by (simp_all add: commit_load_def write_xreg_def write_existing_xreg_def set_xreg_def x)
  show ?thesis
    using store_load_roundtrip [OF demo_device_ok(1) memory_machine_simps(1) reader_machine_simps(1) S SE L LE e, of 4]
      e c by (auto simp: t Let_def)
qed

text \<open>C15. An instruction completes or changes nothing. Whatever the word and whatever the bus
  answers, a failing instruction leaves the whole machine as it was; a completed one keeps the machine
  well-formed. A panic happens exactly when a \<open>SELECT\<close> (with the condition register present) or a cache
  preload names a register above \<open>X31\<close> in a six-bit field: no other word can panic. The C220 has both
  encodings; on the Dav3510 it is the cache preload alone.\<close>

theorem instruction_atomic:
  assumes "sm_ok sm"
  shows "(case execute_instruction bus sm m pc word of
      (sm', m', Err e) \<Rightarrow> sm' = sm \<and> (e = Panic \<longleftrightarrow> indexes_past_registers sm word)
    | (sm', m', Ok _) \<Rightarrow> sm_ok sm' \<and> sm_architecture sm' = sm_architecture sm \<and>
        \<not> indexes_past_registers sm word) \<and>
    (indexes_past_registers sm word \<longrightarrow>
       (\<exists>s imm. from_word (sm_architecture sm) word = Some (ScalarKey8 DcPreload None s imm) \<and> 32 \<le> unat s) \<or>
       sm_architecture sm = Dav2201 \<and>
         (\<exists>dtype d a b. from_word Dav2201 word = Some (ScalarSelect dtype d a b) \<and>
            (32 \<le> unat d \<or> 32 \<le> unat a \<or> 32 \<le> unat b)))"
  using execute_instruction_completes [OF assms, of word bus m pc] indexes_past_registers_encoding [of sm word]
  by (auto simp: completes_or_keeps_def)

definition c220_machine :: scalar_machine where
  "c220_machine = from_pem_initial_state Dav2201"

lemma c220_machine_ok: "sm_ok c220_machine" "sm_architecture c220_machine = Dav2201"
  "spr_value c220_machine 11 = Some 0"
  by (simp_all add: c220_machine_def initial_machine_ok initial_machine_spr11)
    (simp add: from_pem_initial_state_def machine_new_def Let_def)

lemma demo_select_past: "from_word Dav2201 0x00000049 = Some (ScalarSelect 0 32 0 0)"
  by (simp add: decode_eval decode_key0_def key0_registers_def dtype_bits_def)

definition c310_machine :: scalar_machine where
  "c310_machine = from_pem_initial_state Dav3510"

lemma c310_machine_ok: "sm_ok c310_machine" "sm_architecture c310_machine = Dav3510"
  by (simp_all add: c310_machine_def initial_machine_ok)
    (simp add: from_pem_initial_state_def machine_new_def Let_def)

lemma demo_preload_past: "from_word Dav3510 0x08c20000 = Some (ScalarKey8 DcPreload None 32 0)"
  by (simp add: decode_eval)

text \<open>A \<open>SELECT\<close> of the C220 and a cache preload of the Dav3510 that panic.\<close>

theorem instruction_atomic_witness:
  "(\<exists>m'. execute_instruction (memory_only hp_bus_read hp_bus_write) c220_machine demo_device 0 0x00000049 =
     (c220_machine, m', Err Panic)) \<and>
   (\<exists>m'. execute_instruction (memory_only hp_bus_read hp_bus_write) c310_machine demo_device 0 0x08c20000 =
     (c310_machine, m', Err Panic))"
proof (rule conjI)
  have "indexes_past_registers c220_machine 0x00000049"
    by (simp add: indexes_past_registers_def c220_machine_ok demo_select_past)
  with instruction_atomic [OF c220_machine_ok(1), where word = "0x00000049" and pc = 0 and m = demo_device
      and bus = "memory_only hp_bus_read hp_bus_write"]
  show "\<exists>m'. execute_instruction (memory_only hp_bus_read hp_bus_write) c220_machine demo_device 0 0x00000049 =
     (c220_machine, m', Err Panic)" by (auto split: prod.splits sum.splits)
  have "indexes_past_registers c310_machine 0x08c20000"
    by (simp add: indexes_past_registers_def c310_machine_ok demo_preload_past)
  with instruction_atomic [OF c310_machine_ok(1), where word = "0x08c20000" and pc = 0 and m = demo_device
      and bus = "memory_only hp_bus_read hp_bus_write"]
  show "\<exists>m'. execute_instruction (memory_only hp_bus_read hp_bus_write) c310_machine demo_device 0 0x08c20000 =
     (c310_machine, m', Err Panic)" by (auto split: prod.splits sum.splits)
qed

text \<open>The stepper keeps its place. A failed step leaves program counter, machine and halted flag as
  they were, and a halted stepper always fails, without touching the memory; a completed step moves
  the counter to the target of a jump or to the next word, and halts exactly after a program end.\<close>

theorem stepper_keeps_place:
  assumes "sm_ok (st_machine st)"
  shows "case step_word bus st m word of
      (st', m', Err e) \<Rightarrow> st' = st \<and> (st_halted st \<longrightarrow> m' = m \<and> e = Fail (ProgramEnded (st_pc st)))
    | (st', m', Ok out) \<Rightarrow>
        \<not> st_halted st \<and> sps_pc out = st_pc st \<and> st_pc st' = sps_next_pc out \<and>
        (case sps_instruction out of
           StepFlow flow \<Rightarrow> sps_next_pc out = target_pc flow \<and> st_halted st' = (\<exists>e. flow = FlowEndStep e)
         | _ \<Rightarrow> sps_next_pc out = st_pc st + 4 \<and> \<not> st_halted st')"
proof (cases "st_halted st")
  case True
  then show ?thesis by (simp add: step_word_def)
next
  case False
  then show ?thesis using step_word_cases [OF assms, where bus = bus and m = m and word = word]
    by (auto split: prod.split sum.split)
qed

theorem stepper_keeps_place_witness:
  "fst (step_word (memory_only hp_bus_read hp_bus_write)
     \<lparr>st_machine = c220_machine, st_pc = 8, st_halted = True\<rparr> demo_device 0) =
     \<lparr>st_machine = c220_machine, st_pc = 8, st_halted = True\<rparr>"
  using stepper_keeps_place [where st = "\<lparr>st_machine = c220_machine, st_pc = 8, st_halted = True\<rparr>"
      and bus = "memory_only hp_bus_read hp_bus_write" and m = demo_device and word = 0]
  by (auto simp: c220_machine_ok split: prod.splits sum.splits)

text \<open>C16. Safety of programs on the device memory. Whatever words a program fetches, in any number of
  steps: the machine stays well-formed and keeps its architecture, the memory stays well-formed, no
  device block is allocated or freed, and a halted stepper never moves again.\<close>

theorem program_safe:
  assumes "(program_step (memory_only hp_bus_read hp_bus_write))\<^sup>*\<^sup>* (st, m) (st', m')"
    and "sm_ok (st_machine st)" "hp_ok m"
  shows "sm_ok (st_machine st') \<and> sm_architecture (st_machine st') = sm_architecture (st_machine st) \<and>
    hp_ok m' \<and> hp_allocator m' = hp_allocator m \<and> (st_halted st \<longrightarrow> (st', m') = (st, m))"
  using reachable_preserves(1,2) [OF assms(1,2)]
    reachable_preserves(3) [OF assms(1,2) hp_bus_keeps [of "hp_allocator m"]] assms(3)
  by simp

lemma demo_end: "flow_end_decode pc 0x41600000 = Some \<lparr>end_pc = pc, end_word = 0x41600000, end_sequential_pc = pc + 4\<rparr>"
  by (simp add: flow_end_decode_def decode_eval)

lemma demo_end_step:
  "\<exists>out. step_word (memory_only hp_bus_read hp_bus_write) (stepper_new c220_machine 0) demo_device 0x41600000 =
     (\<lparr>st_machine = c220_machine, st_pc = 4, st_halted = True\<rparr>, demo_device, Ok out)"
  by (simp add: step_word_def stepper_new_def execute_instruction_def execute_flow_instruction_def
      barrier_decode_def dcci_decode_def dsb_decode_def execute_flow_word_def demo_end machine_step_def
      map_fail_def target_pc_def Let_def aic_from_word_def field_def)

theorem program_safe_witness:
  "(program_step (memory_only hp_bus_read hp_bus_write))\<^sup>*\<^sup>* (stepper_new c220_machine 0, demo_device)
      (\<lparr>st_machine = c220_machine, st_pc = 4, st_halted = True\<rparr>, demo_device) \<and> hp_ok demo_device"
proof -
  obtain out where "step_word (memory_only hp_bus_read hp_bus_write) (stepper_new c220_machine 0) demo_device
      0x41600000 = (\<lparr>st_machine = c220_machine, st_pc = 4, st_halted = True\<rparr>, demo_device, Ok out)"
    using demo_end_step by blast
  then have r: "(program_step (memory_only hp_bus_read hp_bus_write))\<^sup>*\<^sup>* (stepper_new c220_machine 0, demo_device)
      (\<lparr>st_machine = c220_machine, st_pc = 4, st_halted = True\<rparr>, demo_device)"
    by (intro r_into_rtranclp executes)
  with program_safe [OF r] show ?thesis
    by (simp add: stepper_new_def c220_machine_ok demo_device_ok)
qed

text \<open>The comparing jump on any decoded word. It reports an unsupported data type or condition
  exactly for the encodings without a meaning and never panics, although its comparison ends in an
  \<open>unreachable!\<close>; otherwise the jump goes to the taken target exactly when the comparison holds and
  to the next word when it does not, and the condition register records the outcome.\<close>

theorem jump_compare_total:
  assumes "sm_ok sm" "jump_compare_decode (sm_architecture sm) word = Some j"
  shows "case execute_jump_compare_word sm pc word of
      (sm', Err e) \<Rightarrow> sm' = sm \<and>
        (e = Fail (CompareError (UnsupportedDtype 3)) \<and> jc_dtype_field j = 3 \<or>
         e = Fail (CompareError (UnsupportedCondition (jc_condition_field j))) \<and> 5 < jc_condition_field j)
    | (sm', Ok t) \<Rightarrow>
        jump_compare_taken (jc_dtype_field j) (jc_condition_field j) (jct_first_source_value t)
          (jct_second_source_value t) = (Ok (jct_branch_taken t) :: jump_compare_error fault + bool) \<and>
        jct_target_pc t = (if jct_branch_taken t then jt_target_pc (jct_taken_target t) else pc + 4) \<and>
        sm' = sm\<lparr>sm_spr_values := (sm_spr_values sm)[11 := Some (if jct_branch_taken t then 1 else 0)]\<rparr>"
proof -
  have "length (sm_xregs sm) = 32" using assms by (simp add: sm_ok_def x_register_count_def)
  from jump_compare_evaluate_cases [OF jump_compare_decode_ok [OF assms(2)] this, of pc] assms
  show ?thesis
    by (auto simp: execute_jump_compare_word_def ok_or_def map_fail_def set_spr_11 split: if_splits)
qed

lemma demo_jump_compare: "\<exists>j. jump_compare_decode Dav2201 0x4e000000 = Some j \<and> jc_dtype_field j = 3"
  by (simp add: jump_compare_decode_def decode_eval)

theorem jump_compare_total_witness:
  "execute_jump_compare_word c220_machine 0 0x4e000000 =
     (c220_machine, Err (Fail (CompareError (UnsupportedDtype 3))))"
proof -
  obtain j where j: "jump_compare_decode (sm_architecture c220_machine) 0x4e000000 = Some j" "jc_dtype_field j = 3"
    using demo_jump_compare c220_machine_ok(2) by auto
  have "\<exists>e. snd (execute_jump_compare_word c220_machine 0 0x4e000000) = Err e"
    using j by (simp add: execute_jump_compare_word_def ok_or_def jump_compare_evaluate_def map_fail_def)
  moreover obtain sm' r where "execute_jump_compare_word c220_machine 0 0x4e000000 = (sm', r)" by fastforce
  ultimately show ?thesis
    using jump_compare_total [OF c220_machine_ok(1) j(1), of 0] j
    by (cases r) (auto simp: execute_jump_compare_word_def ok_or_def jump_compare_evaluate_def map_fail_def)
qed

end
