(* ===== verification/Event_Dispatcher.thy ===== *)
theory Event_Dispatcher
  imports Ordered_Map Rust_Std
begin

text \<open>
  The serial event kernel of the simulator, \<open>src/src/sim/common/event.rs\<close>. Events queue in
  FIFO order under their tick; a delivery walks the subscribers of one event and hands out the
  callbacks of the processes that may run. The loop of \<open>next_callback\<close> is one definition per
  branch (\<open>deliver\<close>, \<open>take_event\<close>) and terminates because every round consumes a subscriber or
  a queued event. Identifiers are the indices that the source wraps; indexing out of range is a
  panic.
\<close>

section \<open>State\<close>

record process_state =
  pst_enabled :: bool
  pst_repeat_in_tick :: bool
  pst_last_run :: "u64 option"

record 'c process =
  pr_state :: process_state
  pr_callback :: 'c

record 'c invocation =
  inv_tick :: u64
  inv_event :: nat
  inv_process :: nat
  inv_callback :: 'c

datatype event_error = TimeReversed u64 u64 | PendingEvents u64 | TimeOverflow

record event =
  ev_enabled :: bool
  ev_triggered_at :: "u64 option"
  ev_subscribers :: "nat list"

record delivery =
  dl_event :: nat
  dl_next_subscriber :: nat
  dl_subscriber_count :: nat

record 'c event_dispatcher =
  ed_tick :: u64
  ed_events :: "event list"
  ed_processes :: "'c process list"
  ed_pending :: "(u64, nat list) btree_map"
  ed_delivery :: "delivery option"

definition dispatcher_new :: "u64 \<Rightarrow> 'c event_dispatcher" where
  "dispatcher_new tick =
     \<lparr>ed_tick = tick, ed_events = [], ed_processes = [], ed_pending = bm_empty, ed_delivery = None\<rparr>"

section \<open>Topology\<close>

definition add_event :: "'c event_dispatcher \<Rightarrow> 'c event_dispatcher \<times> nat" where
  "add_event d =
     (d\<lparr>ed_events := ed_events d @ [\<lparr>ev_enabled = True, ev_triggered_at = None, ev_subscribers = []\<rparr>]\<rparr>,
      length (ed_events d))"

definition add_process :: "'c event_dispatcher \<Rightarrow> 'c \<Rightarrow> bool \<Rightarrow> 'c event_dispatcher \<times> nat" where
  "add_process d callback repeat_in_tick =
     (d\<lparr>ed_processes := ed_processes d @
          [\<lparr>pr_state = \<lparr>pst_enabled = True, pst_repeat_in_tick = repeat_in_tick, pst_last_run = None\<rparr>,
            pr_callback = callback\<rparr>]\<rparr>,
      length (ed_processes d))"

definition subscribe ::
  "'c event_dispatcher \<Rightarrow> nat \<Rightarrow> nat \<Rightarrow> 'c event_dispatcher \<times> (event_error fault + unit)" where
  "subscribe d event process =
     (if \<not> (process < length (ed_processes d) \<and> event < length (ed_events d)) then (d, Err Panic)
      else let e = ed_events d ! event in
        if process \<in> set (ev_subscribers e) then (d, Ok ())
        else (d\<lparr>ed_events := (ed_events d)[event := e\<lparr>ev_subscribers := ev_subscribers e @ [process]\<rparr>]\<rparr>,
              Ok ()))"

definition set_process_enabled ::
  "'c event_dispatcher \<Rightarrow> nat \<Rightarrow> bool \<Rightarrow> 'c event_dispatcher \<times> (event_error fault + unit)" where
  "set_process_enabled d process enabled =
     (if process < length (ed_processes d)
      then let p = ed_processes d ! process in
        (d\<lparr>ed_processes := (ed_processes d)
             [process := p\<lparr>pr_state := (pr_state p)\<lparr>pst_enabled := enabled\<rparr>\<rparr>]\<rparr>, Ok ())
      else (d, Err Panic))"

definition set_event_enabled ::
  "'c event_dispatcher \<Rightarrow> nat \<Rightarrow> bool \<Rightarrow> 'c event_dispatcher \<times> (event_error fault + unit)" where
  "set_event_enabled d event enabled =
     (if event < length (ed_events d)
      then (d\<lparr>ed_events := (ed_events d)[event := (ed_events d ! event)\<lparr>ev_enabled := enabled\<rparr>]\<rparr>, Ok ())
      else (d, Err Panic))"

definition triggered :: "'c event_dispatcher \<Rightarrow> nat \<Rightarrow> event_error fault + bool" where
  "triggered d event =
     (if event < length (ed_events d)
      then Ok (ev_triggered_at (ed_events d ! event) = Some (ed_tick d)) else Err Panic)"

section \<open>Notification\<close>

definition notify_at ::
  "'c event_dispatcher \<Rightarrow> nat \<Rightarrow> u64 \<Rightarrow> 'c event_dispatcher \<times> (event_error fault + bool)" where
  "notify_at d event tick =
     (if \<not> event < length (ed_events d) then (d, Err Panic)
      else if tick < ed_tick d then (d, Ok False)
      else let queue = (case bm_get (ed_pending d) tick of Some q \<Rightarrow> q | None \<Rightarrow> [])
        in (d\<lparr>ed_pending := bm_insert tick (queue @ [event]) (ed_pending d)\<rparr>, Ok True))"

definition notify_after ::
  "'c event_dispatcher \<Rightarrow> nat \<Rightarrow> u64 \<Rightarrow> 'c event_dispatcher \<times> (event_error fault + unit)" where
  "notify_after d event delay =
     (case checked_add (ed_tick d) delay of
        None \<Rightarrow> (d, Err (Fail TimeOverflow))
      | Some tick \<Rightarrow>
          (case notify_at d event tick of (d', r) \<Rightarrow> (d', and_then r (\<lambda>_. Ok ()))))"

definition cancel :: "'c event_dispatcher \<Rightarrow> nat \<Rightarrow> 'c event_dispatcher \<times> nat" where
  "cancel d event =
     (let kept = map (\<lambda>(tick, queue). (tick, filter (\<lambda>candidate. candidate \<noteq> event) queue)) (ed_pending d)
      in (d\<lparr>ed_pending := filter (\<lambda>(_, queue). queue \<noteq> []) kept\<rparr>,
          sum_list (map (\<lambda>(_, queue). length queue - length (filter (\<lambda>candidate. candidate \<noteq> event) queue))
            (ed_pending d))))"

definition pending_notifications :: "'c event_dispatcher \<Rightarrow> (u64 \<times> nat) list" where
  "pending_notifications d =
     concat (map (\<lambda>(tick, events). map (\<lambda>event. (tick, event)) events) (ed_pending d))"

definition next_event_tick :: "'c event_dispatcher \<Rightarrow> u64 option" where
  "next_event_tick d =
     (case ed_delivery d of
        Some _ \<Rightarrow> Some (ed_tick d)
      | None \<Rightarrow> (case ed_pending d of (tick, _) # _ \<Rightarrow> Some tick | [] \<Rightarrow> None))"

section \<open>Time\<close>

definition check_advance_to :: "'c event_dispatcher \<Rightarrow> u64 \<Rightarrow> event_error + unit" where
  "check_advance_to d tick =
     (if tick < ed_tick d then Err (TimeReversed (ed_tick d) tick)
      else case next_event_tick d of
        Some pending \<Rightarrow> if pending < tick then Err (PendingEvents pending) else Ok ()
      | None \<Rightarrow> Ok ())"

definition advance_to :: "'c event_dispatcher \<Rightarrow> u64 \<Rightarrow> 'c event_dispatcher \<times> (event_error + unit)" where
  "advance_to d tick =
     (case check_advance_to d tick of
        Err e \<Rightarrow> (d, Err e)
      | Ok _ \<Rightarrow> (d\<lparr>ed_tick := tick\<rparr>, Ok ()))"

section \<open>Delivery\<close>

text \<open>A round of the loop goes on, or returns.\<close>

datatype 'r round = Continue | Return 'r

definition may_run :: "u64 \<Rightarrow> process_state \<Rightarrow> bool" where
  "may_run tick st \<longleftrightarrow>
     \<not> (\<not> pst_enabled st \<or> (\<not> pst_repeat_in_tick st \<and> pst_last_run st = Some tick))"

definition deliver ::
  "'c event_dispatcher \<Rightarrow> delivery \<Rightarrow>
     'c event_dispatcher \<times> (event_error fault + 'c invocation option) round" where
  "deliver d dl =
     (if \<not> (dl_event dl < length (ed_events d) \<and>
            dl_next_subscriber dl < length (ev_subscribers (ed_events d ! dl_event dl)))
      then (d, Return (Err Panic))
      else
        let i = ev_subscribers (ed_events d ! dl_event dl) ! dl_next_subscriber dl;
            d' = d\<lparr>ed_delivery := Some (dl\<lparr>dl_next_subscriber := dl_next_subscriber dl + 1\<rparr>)\<rparr>
        in if \<not> i < length (ed_processes d) then (d', Return (Err Panic))
           else let p = ed_processes d ! i in
             if \<not> may_run (ed_tick d) (pr_state p) then (d', Continue)
             else
               (d'\<lparr>ed_processes := (ed_processes d)
                    [i := p\<lparr>pr_state := (pr_state p)\<lparr>pst_last_run := Some (ed_tick d)\<rparr>\<rparr>]\<rparr>,
                Return (Ok (Some \<lparr>inv_tick = ed_tick d, inv_event = dl_event dl, inv_process = i,
                                  inv_callback = pr_callback p\<rparr>))))"

definition take_event ::
  "'c event_dispatcher \<Rightarrow> 'c event_dispatcher \<times> (event_error fault + 'c invocation option) round" where
  "take_event d =
     (case bm_get (ed_pending d) (ed_tick d) of
        None \<Rightarrow> (d, Return (Ok None))
      | Some [] \<Rightarrow> (d, Return (Err Panic))
      | Some (i # queue) \<Rightarrow>
          let d' = d\<lparr>ed_pending := (if queue = [] then bm_remove (ed_tick d) (ed_pending d)
                                   else bm_insert (ed_tick d) queue (ed_pending d))\<rparr>
          in if \<not> i < length (ed_events d) then (d', Return (Err Panic))
             else let e = ed_events d ! i in
               if ev_enabled e
               then (d'\<lparr>ed_events := (ed_events d)[i := e\<lparr>ev_triggered_at := Some (ed_tick d)\<rparr>],
                        ed_delivery := Some \<lparr>dl_event = i, dl_next_subscriber = 0,
                                             dl_subscriber_count = length (ev_subscribers e)\<rparr>\<rparr>,
                     Continue)
               else (d', Continue))"

definition callback_round ::
  "'c event_dispatcher \<Rightarrow> 'c event_dispatcher \<times> (event_error fault + 'c invocation option) round" where
  "callback_round d =
     (case ed_delivery d of
        Some dl \<Rightarrow>
          if dl_next_subscriber dl < dl_subscriber_count dl then deliver d dl
          else take_event (d\<lparr>ed_delivery := None\<rparr>)
      | None \<Rightarrow> take_event d)"

definition queued :: "'c event_dispatcher \<Rightarrow> nat list" where
  "queued d = (case bm_get (ed_pending d) (ed_tick d) of Some q \<Rightarrow> q | None \<Rightarrow> [])"

definition subscribers_left :: "'c event_dispatcher \<Rightarrow> nat" where
  "subscribers_left d =
     (case ed_delivery d of Some dl \<Rightarrow> dl_subscriber_count dl - dl_next_subscriber dl | None \<Rightarrow> 0)"

definition rounds_left :: "('c event_dispatcher \<times> 'c event_dispatcher) set" where
  "rounds_left = measures [\<lambda>d. length (queued d), subscribers_left]"

lemma callback_round_decreases:
  "callback_round d = (d', Continue) \<Longrightarrow> (d', d) \<in> rounds_left"
  by (auto simp: callback_round_def deliver_def take_event_def Let_def rounds_left_def queued_def
      subscribers_left_def split: option.splits if_splits list.splits)

function next_callback ::
  "'c event_dispatcher \<Rightarrow> 'c event_dispatcher \<times> (event_error fault + 'c invocation option)" where
  "next_callback d =
     (case callback_round d of
        (d', Return r) \<Rightarrow> (d', r)
      | (d', Continue) \<Rightarrow> next_callback d')"
  by auto
termination
  by (relation rounds_left) (simp add: rounds_left_def, rule callback_round_decreases, simp)

declare next_callback.simps [simp del]

section \<open>The invariant\<close>

text \<open>Queues are in tick order, non-empty, not in the past and hold known events; subscribers are known
  processes without repetition; a delivery stays inside the subscribers of its event; no process ran
  in the future.\<close>

definition pending_ok :: "'c event_dispatcher \<Rightarrow> bool" where
  "pending_ok d \<longleftrightarrow> bm_ok (ed_pending d) \<and>
     (\<forall>(tick, queue)\<in>set (ed_pending d). ed_tick d \<le> tick \<and> queue \<noteq> [] \<and>
        (\<forall>i\<in>set queue. i < length (ed_events d)))"

definition topology_ok :: "'c event_dispatcher \<Rightarrow> bool" where
  "topology_ok d \<longleftrightarrow>
     (\<forall>e\<in>set (ed_events d). distinct (ev_subscribers e) \<and>
        (\<forall>i\<in>set (ev_subscribers e). i < length (ed_processes d)))"

definition delivery_ok :: "'c event_dispatcher \<Rightarrow> bool" where
  "delivery_ok d \<longleftrightarrow>
     (case ed_delivery d of
        None \<Rightarrow> True
      | Some dl \<Rightarrow> dl_event dl < length (ed_events d) \<and>
          dl_next_subscriber dl \<le> dl_subscriber_count dl \<and>
          dl_subscriber_count dl \<le> length (ev_subscribers (ed_events d ! dl_event dl)))"

definition runs_ok :: "'c event_dispatcher \<Rightarrow> bool" where
  "runs_ok d \<longleftrightarrow> (\<forall>p\<in>set (ed_processes d). \<forall>t. pst_last_run (pr_state p) = Some t \<longrightarrow> t \<le> ed_tick d)"

definition dispatcher_ok :: "'c event_dispatcher \<Rightarrow> bool" where
  "dispatcher_ok d \<longleftrightarrow> pending_ok d \<and> topology_ok d \<and> delivery_ok d \<and> runs_ok d"

lemmas dispatcher_defs = dispatcher_ok_def pending_ok_def topology_ok_def delivery_ok_def runs_ok_def

lemma dispatcher_ok_new: "dispatcher_ok (dispatcher_new tick)"
  by (simp add: dispatcher_defs dispatcher_new_def bm_empty_def)

lemma dispatcher_ok_add_event: "dispatcher_ok d \<Longrightarrow> dispatcher_ok (fst (add_event d))"
  by (force simp: dispatcher_defs add_event_def nth_append split: option.splits)

lemma dispatcher_ok_add_process: "dispatcher_ok d \<Longrightarrow> dispatcher_ok (fst (add_process d c r))"
  by (force simp: dispatcher_defs add_process_def split: option.splits)

lemma topology_ok_event_update:
  assumes "topology_ok d" "i < length (ed_events d)"
    and "distinct (ev_subscribers e)" "\<forall>p\<in>set (ev_subscribers e). p < length (ed_processes d)"
  shows "topology_ok (d\<lparr>ed_events := (ed_events d)[i := e]\<rparr>)"
  using assms by (auto simp: topology_ok_def dest!: mem_update)

lemma dispatcher_ok_subscribe: "dispatcher_ok d \<Longrightarrow> dispatcher_ok (fst (subscribe d i p))"
proof -
  assume ok: "dispatcher_ok d"
  show ?thesis
  proof (cases "p < length (ed_processes d) \<and> i < length (ed_events d) \<and>
      p \<notin> set (ev_subscribers (ed_events d ! i))")
    case True
    let ?e = "(ed_events d ! i)\<lparr>ev_subscribers := ev_subscribers (ed_events d ! i) @ [p]\<rparr>"
    have "topology_ok (d\<lparr>ed_events := (ed_events d)[i := ?e]\<rparr>)"
      using ok True by (intro topology_ok_event_update) (auto simp: dispatcher_ok_def topology_ok_def)
    moreover have "pending_ok (d\<lparr>ed_events := (ed_events d)[i := ?e]\<rparr>)"
      "delivery_ok (d\<lparr>ed_events := (ed_events d)[i := ?e]\<rparr>)" "runs_ok (d\<lparr>ed_events := (ed_events d)[i := ?e]\<rparr>)"
      using ok True by (auto simp: dispatcher_defs nth_list_update split: option.splits)
    ultimately show ?thesis using True by (simp add: subscribe_def dispatcher_ok_def Let_def)
  qed (use ok in \<open>auto simp: subscribe_def Let_def\<close>)
qed

lemma runs_ok_process_update:
  "runs_ok d \<Longrightarrow> (\<forall>t. pst_last_run (pr_state p) = Some t \<longrightarrow> t \<le> ed_tick d) \<Longrightarrow>
     runs_ok (d\<lparr>ed_processes := (ed_processes d)[i := p]\<rparr>)"
  by (auto simp: runs_ok_def dest!: mem_update)

lemma dispatcher_ok_process_update:
  "dispatcher_ok d \<Longrightarrow> (\<forall>t. pst_last_run (pr_state p) = Some t \<longrightarrow> t \<le> ed_tick d) \<Longrightarrow>
     dispatcher_ok (d\<lparr>ed_processes := (ed_processes d)[i := p]\<rparr>)"
  using runs_ok_process_update [of d p i] by (auto simp: dispatcher_defs split: option.splits)

lemma dispatcher_ok_set_process_enabled: "dispatcher_ok d \<Longrightarrow> dispatcher_ok (fst (set_process_enabled d p b))"
proof (cases "p < length (ed_processes d)")
  assume ok: "dispatcher_ok d"
  case True
  let ?p = "(ed_processes d ! p)\<lparr>pr_state := (pr_state (ed_processes d ! p))\<lparr>pst_enabled := b\<rparr>\<rparr>"
  have "\<forall>t. pst_last_run (pr_state ?p) = Some t \<longrightarrow> t \<le> ed_tick d"
    using ok True by (auto simp: dispatcher_ok_def runs_ok_def)
  from dispatcher_ok_process_update [OF ok this, of p] True show ?thesis
    by (simp add: set_process_enabled_def Let_def)
qed (simp add: set_process_enabled_def)

lemma delivery_ok_event_update:
  assumes "delivery_ok d" "i < length (ed_events d)" "ev_subscribers e = ev_subscribers (ed_events d ! i)"
  shows "delivery_ok (d\<lparr>ed_events := (ed_events d)[i := e]\<rparr>)"
  using assms by (auto simp: delivery_ok_def nth_list_update split: option.splits)

lemma dispatcher_ok_event_update:
  assumes "dispatcher_ok d" "i < length (ed_events d)" "ev_subscribers e = ev_subscribers (ed_events d ! i)"
  shows "dispatcher_ok (d\<lparr>ed_events := (ed_events d)[i := e]\<rparr>)"
proof -
  have "distinct (ev_subscribers e)" "\<forall>p\<in>set (ev_subscribers e). p < length (ed_processes d)"
    using assms by (auto simp: dispatcher_ok_def topology_ok_def)
  with assms delivery_ok_event_update [of d i e] topology_ok_event_update [of d i e] show ?thesis
    by (simp add: dispatcher_ok_def pending_ok_def runs_ok_def)
qed

lemma dispatcher_ok_set_event_enabled: "dispatcher_ok d \<Longrightarrow> dispatcher_ok (fst (set_event_enabled d i b))"
  by (simp add: set_event_enabled_def dispatcher_ok_event_update)

lemma pending_queue:
  "pending_ok d \<Longrightarrow> bm_get (ed_pending d) tick = Some q \<Longrightarrow>
     ed_tick d \<le> tick \<and> q \<noteq> [] \<and> (\<forall>i\<in>set q. i < length (ed_events d))"
  by (drule bm_get_Some_mem) (auto simp: pending_ok_def)

lemma pending_ok_insert:
  "pending_ok d \<Longrightarrow> ed_tick d \<le> tick \<Longrightarrow> q \<noteq> [] \<Longrightarrow> \<forall>i\<in>set q. i < length (ed_events d) \<Longrightarrow>
     pending_ok (d\<lparr>ed_pending := bm_insert tick q (ed_pending d)\<rparr>)"
  by (auto simp: pending_ok_def dest!: mem_bm_insert)

lemma pending_ok_remove: "pending_ok d \<Longrightarrow> pending_ok (d\<lparr>ed_pending := bm_remove tick (ed_pending d)\<rparr>)"
  by (auto simp: pending_ok_def bm_remove_def [of tick] bm_ok_remove [unfolded bm_remove_def])

lemma dispatcher_ok_pending:
  "dispatcher_ok d \<Longrightarrow> pending_ok (d\<lparr>ed_pending := m\<rparr>) \<Longrightarrow> dispatcher_ok (d\<lparr>ed_pending := m\<rparr>)"
  by (simp add: dispatcher_ok_def topology_ok_def delivery_ok_def runs_ok_def split: option.splits)

lemma dispatcher_ok_notify_at: "dispatcher_ok d \<Longrightarrow> dispatcher_ok (fst (notify_at d i tick))"
proof -
  assume ok: "dispatcher_ok d"
  then have p: "pending_ok d" by (simp add: dispatcher_ok_def)
  show ?thesis
  proof (cases "i < length (ed_events d) \<and> ed_tick d \<le> tick")
    case True
    let ?q = "case bm_get (ed_pending d) tick of Some q \<Rightarrow> q | None \<Rightarrow> []"
    have "\<forall>j\<in>set (?q @ [i]). j < length (ed_events d)"
      using pending_queue [OF p, of tick] True by (cases "bm_get (ed_pending d) tick") auto
    with True have "pending_ok (d\<lparr>ed_pending := bm_insert tick (?q @ [i]) (ed_pending d)\<rparr>)"
      by (intro pending_ok_insert [OF p]) auto
    with True show ?thesis using dispatcher_ok_pending [OF ok] by (auto simp: notify_at_def Let_def dest: leD)
  qed (use ok in \<open>auto simp: notify_at_def\<close>)
qed

lemma dispatcher_ok_notify_after: "dispatcher_ok d \<Longrightarrow> dispatcher_ok (fst (notify_after d i delay))"
proof (cases "checked_add (ed_tick d) delay")
  case (Some tick)
  assume "dispatcher_ok d"
  from dispatcher_ok_notify_at [OF this, of i tick] Some show ?thesis
    by (cases "notify_at d i tick") (simp add: notify_after_def)
qed (simp add: notify_after_def)

lemma bm_ok_filter: "bm_ok m \<Longrightarrow> bm_ok (filter P m)"
  by (induction m) auto

lemma bm_ok_map_values: "bm_ok m \<Longrightarrow> bm_ok (map (\<lambda>(k, v). (k, f v)) m)"
  by (simp add: bm_ok_def case_prod_beta comp_def)

lemma dispatcher_ok_cancel: "dispatcher_ok d \<Longrightarrow> dispatcher_ok (fst (cancel d i))"
proof -
  assume ok: "dispatcher_ok d"
  have "pending_ok (fst (cancel d i))"
    using ok by (auto simp: dispatcher_ok_def pending_ok_def cancel_def Let_def intro!: bm_ok_filter bm_ok_map_values)
  with ok show ?thesis
    by (simp add: dispatcher_ok_def topology_ok_def delivery_ok_def runs_ok_def cancel_def Let_def split: option.splits)
qed

text \<open>Time advances over idle ticks only, so nothing that is queued falls behind.\<close>

lemma next_event_tick_less:
  assumes "pending_ok d"
  shows "(\<exists>t. next_event_tick d = Some t \<and> t < tick) \<longleftrightarrow>
    (if ed_delivery d = None then (\<exists>(t, q)\<in>set (ed_pending d). t < tick) else ed_tick d < tick)"
proof (cases "ed_pending d")
  case (Cons e m)
  then show ?thesis using assms
    by (cases e) (auto simp: next_event_tick_def pending_ok_def split: option.splits intro: less_trans)
qed (auto simp: next_event_tick_def split: option.splits)

lemma advance_to_ok:
  assumes "dispatcher_ok d" "advance_to d tick = (d', r)"
  shows "r = Ok () \<longleftrightarrow> ed_tick d \<le> tick \<and> (ed_delivery d = None \<or> tick = ed_tick d) \<and>
          (\<forall>(t, q)\<in>set (ed_pending d). tick \<le> t)" (is "_ \<longleftrightarrow> ?idle")
    and "d' = (if r = Ok () then d\<lparr>ed_tick := tick\<rparr> else d)" and "dispatcher_ok d'"
proof -
  have p: "pending_ok d" using assms(1) by (simp add: dispatcher_ok_def)
  have "r = Ok () \<longleftrightarrow> \<not> tick < ed_tick d \<and> \<not> (\<exists>t. next_event_tick d = Some t \<and> t < tick)"
    using assms(2) by (auto simp: advance_to_def check_advance_to_def split: option.splits if_splits sum.splits)
  also have "\<dots> \<longleftrightarrow> ?idle"
    using p unfolding next_event_tick_less [OF p] by (auto simp: pending_ok_def not_less case_prod_beta)
  finally show r: "r = Ok () \<longleftrightarrow> ?idle" .
  show d': "d' = (if r = Ok () then d\<lparr>ed_tick := tick\<rparr> else d)"
    using assms(2) by (auto simp: advance_to_def split: sum.splits)
  show "dispatcher_ok d'"
    using r d' assms(1) by (auto simp: dispatcher_defs split: option.splits)
qed

section \<open>Rounds\<close>

lemma topology_subscriber:
  assumes "topology_ok d" "i < length (ed_events d)" "k < length (ev_subscribers (ed_events d ! i))"
  shows "ev_subscribers (ed_events d ! i) ! k < length (ed_processes d)"
  using assms(1) nth_mem [OF assms(2)] nth_mem [OF assms(3)] unfolding topology_ok_def by fast

lemma deliver_ok:
  assumes "dispatcher_ok d" "ed_delivery d = Some dl" "dl_next_subscriber dl < dl_subscriber_count dl"
    and "deliver d dl = (d', c)"
  shows "dispatcher_ok d' \<and> ed_tick d' = ed_tick d \<and> c \<noteq> Return (Err Panic) \<and> c \<noteq> Return (Ok None)"
proof -
  let ?e = "ed_events d ! dl_event dl"
  let ?i = "ev_subscribers ?e ! dl_next_subscriber dl"
  let ?d = "d\<lparr>ed_delivery := Some (dl\<lparr>dl_next_subscriber := dl_next_subscriber dl + 1\<rparr>)\<rparr>"
  have e: "dl_event dl < length (ed_events d)" "dl_next_subscriber dl < length (ev_subscribers ?e)"
    using assms(1-3) by (auto simp: dispatcher_ok_def delivery_ok_def)
  then have i: "?i < length (ed_processes d)" using assms(1) by (simp add: topology_subscriber dispatcher_ok_def)
  have d: "dispatcher_ok ?d" using assms(1-3) by (auto simp: dispatcher_defs)
  have "dispatcher_ok (?d\<lparr>ed_processes := (ed_processes ?d)[?i := p]\<rparr>)"
    if "pst_last_run (pr_state p) = Some (ed_tick d)" for p
    by (rule dispatcher_ok_process_update [OF d]) (simp add: that)
  with assms(4) e i d show ?thesis
    by (auto simp: deliver_def Let_def split: if_splits)
qed

lemma take_event_ok:
  assumes "dispatcher_ok d" "ed_delivery d = None" "take_event d = (d', c)"
  shows "dispatcher_ok d' \<and> ed_tick d' = ed_tick d \<and> c \<noteq> Return (Err Panic) \<and>
    (c = Return (Ok None) \<longrightarrow> d' = d \<and> bm_get (ed_pending d) (ed_tick d) = None)"
proof (cases "bm_get (ed_pending d) (ed_tick d)")
  case None
  with assms show ?thesis by (auto simp: take_event_def)
next
  case (Some q)
  have p: "pending_ok d" using assms(1) by (simp add: dispatcher_ok_def)
  note q = pending_queue [OF p Some]
  then obtain i queue where iq: "q = i # queue" by (cases q) auto
  let ?m = "if queue = [] then bm_remove (ed_tick d) (ed_pending d) else bm_insert (ed_tick d) queue (ed_pending d)"
  let ?d = "d\<lparr>ed_pending := ?m\<rparr>"
  let ?e = "(ed_events d ! i)\<lparr>ev_triggered_at := Some (ed_tick d)\<rparr>"
  have "pending_ok ?d" using q iq pending_ok_remove [OF p] pending_ok_insert [OF p, of "ed_tick d" queue] by auto
  then have d: "dispatcher_ok ?d" by (rule dispatcher_ok_pending [OF assms(1)])
  have "dispatcher_ok (?d\<lparr>ed_events := (ed_events ?d)[i := ?e]\<rparr>)"
    by (rule dispatcher_ok_event_update [OF d]) (use q iq in simp_all)
  then have "dispatcher_ok (?d\<lparr>ed_events := (ed_events d)[i := ?e], ed_delivery :=
      Some \<lparr>dl_event = i, dl_next_subscriber = 0, dl_subscriber_count = length (ev_subscribers (ed_events d ! i))\<rparr>\<rparr>)"
    using q iq by (simp add: dispatcher_ok_def pending_ok_def topology_ok_def runs_ok_def delivery_ok_def)
  with assms(3) Some iq q d show ?thesis by (auto simp: take_event_def Let_def split: if_splits)
qed

lemma callback_round_ok:
  assumes "dispatcher_ok d" "callback_round d = (d', c)"
  shows "dispatcher_ok d' \<and> ed_tick d' = ed_tick d \<and> c \<noteq> Return (Err Panic) \<and>
    (c = Return (Ok None) \<longrightarrow> ed_delivery d' = None \<and> bm_get (ed_pending d') (ed_tick d') = None)"
proof -
  have none: "dispatcher_ok (d\<lparr>ed_delivery := None\<rparr>)" using assms(1) by (simp add: dispatcher_defs)
  show ?thesis
  proof (cases "ed_delivery d")
    case None
    then have "take_event d = (d', c)" using assms(2) by (simp add: callback_round_def)
    from take_event_ok [OF assms(1) None this] None show ?thesis by auto
  next
    case (Some dl)
    show ?thesis
    proof (cases "dl_next_subscriber dl < dl_subscriber_count dl")
      case True
      then have "deliver d dl = (d', c)" using assms(2) Some by (simp add: callback_round_def)
      from deliver_ok [OF assms(1) Some True this] show ?thesis by simp
    next
      case False
      then have "take_event (d\<lparr>ed_delivery := None\<rparr>) = (d', c)" using assms(2) Some by (simp add: callback_round_def)
      from take_event_ok [OF none _ this] show ?thesis by auto
    qed
  qed
qed

lemma next_callback_ok:
  assumes "dispatcher_ok d" "next_callback d = (d', r)"
  shows "dispatcher_ok d' \<and> ed_tick d' = ed_tick d \<and> r \<noteq> Err Panic \<and>
    (r = Ok None \<longrightarrow> ed_delivery d' = None \<and> bm_get (ed_pending d') (ed_tick d') = None)"
  using assms
proof (induction d rule: next_callback.induct)
  case (1 d)
  obtain d1 c where c: "callback_round d = (d1, c)" by fastforce
  note ok = callback_round_ok [OF 1(2) c]
  show ?case
  proof (cases c)
    case Continue
    with 1(3) c have "next_callback d1 = (d', r)" by (simp add: next_callback.simps [of d])
    with 1(1) [OF c [symmetric] Continue] ok show ?thesis by auto
  next
    case (Return x)
    with 1(3) c ok show ?thesis by (auto simp: next_callback.simps [of d])
  qed
qed

section \<open>Runs\<close>

text \<open>What the owner of a dispatcher does between callbacks, and the callbacks themselves. A run
  collects the invocations in order; time does not advance inside it.\<close>

inductive run :: "'c event_dispatcher \<Rightarrow> 'c invocation list \<Rightarrow> 'c event_dispatcher \<Rightarrow> bool" where
  start: "run d [] d"
| notify: "run d is d' \<Longrightarrow> run d is (fst (notify_at d' event tick))"
| notify_later: "run d is d' \<Longrightarrow> run d is (fst (notify_after d' event delay))"
| cancels: "run d is d' \<Longrightarrow> run d is (fst (cancel d' event))"
| enable_event: "run d is d' \<Longrightarrow> run d is (fst (set_event_enabled d' event enabled))"
| enable_process: "run d is d' \<Longrightarrow> run d is (fst (set_process_enabled d' process enabled))"
| idle: "run d is d' \<Longrightarrow> next_callback d' = (d'', Ok None) \<Longrightarrow> run d is d''"
| call: "run d is d' \<Longrightarrow> next_callback d' = (d'', Ok (Some i)) \<Longrightarrow> run d (is @ [i]) d''"

text \<open>The flags of a process that a run can change.\<close>

definition same_processes :: "'c event_dispatcher \<Rightarrow> 'c event_dispatcher \<Rightarrow> bool" where
  "same_processes d d' \<longleftrightarrow> length (ed_processes d') = length (ed_processes d) \<and>
     (\<forall>p<length (ed_processes d).
        pst_repeat_in_tick (pr_state (ed_processes d' ! p)) = pst_repeat_in_tick (pr_state (ed_processes d ! p)) \<and>
        pst_last_run (pr_state (ed_processes d' ! p)) = pst_last_run (pr_state (ed_processes d ! p)))"

lemma same_processes_refl [simp]: "same_processes d d"
  by (simp add: same_processes_def)

lemma same_processes_trans: "same_processes d1 d2 \<Longrightarrow> same_processes d2 d3 \<Longrightarrow> same_processes d1 d3"
  by (simp add: same_processes_def)

lemma same_processes_update [simp]:
  "same_processes d (d'\<lparr>ed_pending := m\<rparr>) = same_processes d d'"
  "same_processes d (d'\<lparr>ed_events := es\<rparr>) = same_processes d d'"
  "same_processes d (d'\<lparr>ed_delivery := dl\<rparr>) = same_processes d d'"
  by (simp_all add: same_processes_def)

lemma same_processes_ops:
  "same_processes d (fst (notify_at d event tick))" "same_processes d (fst (notify_after d event delay))"
  "same_processes d (fst (cancel d event))" "same_processes d (fst (set_event_enabled d event enabled))"
  "same_processes d (fst (set_process_enabled d process enabled))"
  by (auto simp: notify_at_def notify_after_def cancel_def set_event_enabled_def set_process_enabled_def Let_def
      same_processes_def nth_list_update split: option.split)

lemmas processes_length_ops = same_processes_ops [unfolded same_processes_def, THEN conjunct1]

lemma tick_ops:
  "ed_tick (fst (notify_at d event tick)) = ed_tick d" "ed_tick (fst (notify_after d event delay)) = ed_tick d"
  "ed_tick (fst (cancel d event)) = ed_tick d" "ed_tick (fst (set_event_enabled d event enabled)) = ed_tick d"
  "ed_tick (fst (set_process_enabled d process enabled)) = ed_tick d"
  by (auto simp: notify_at_def notify_after_def cancel_def set_event_enabled_def set_process_enabled_def Let_def
      split: option.split)

text \<open>A round changes no process, except that a delivered one has now run at this tick.\<close>

definition ran_now :: "'c event_dispatcher \<Rightarrow> nat \<Rightarrow> bool" where
  "ran_now d p \<longleftrightarrow> pst_last_run (pr_state (ed_processes d ! p)) = Some (ed_tick d)"

definition repeats :: "'c event_dispatcher \<Rightarrow> nat \<Rightarrow> bool" where
  "repeats d p \<longleftrightarrow> pst_repeat_in_tick (pr_state (ed_processes d ! p))"

definition invokes :: "'c event_dispatcher \<Rightarrow> 'c invocation \<Rightarrow> 'c event_dispatcher \<Rightarrow> bool" where
  "invokes d i d' \<longleftrightarrow>
     inv_process i < length (ed_processes d) \<and> inv_tick i = ed_tick d \<and>
     inv_callback i = pr_callback (ed_processes d ! inv_process i) \<and>
     may_run (ed_tick d) (pr_state (ed_processes d ! inv_process i)) \<and>
     length (ed_processes d') = length (ed_processes d) \<and>
     (\<forall>p<length (ed_processes d). repeats d' p = repeats d p \<and>
        (ran_now d' p \<longleftrightarrow> ran_now d p \<or> p = inv_process i))"

lemma take_event_processes: "take_event d = (d', c) \<Longrightarrow> ed_processes d' = ed_processes d \<and> ed_tick d' = ed_tick d"
  by (auto simp: take_event_def Let_def split: option.splits list.splits if_splits)

lemma take_event_no_invocation: "take_event d \<noteq> (d', Return (Ok (Some i)))"
  by (auto simp: take_event_def Let_def split: option.splits list.splits if_splits)

lemma deliver_processes:
  assumes "deliver d dl = (d', c)"
  shows "ed_tick d' = ed_tick d \<and> (case c of Return (Ok (Some i)) \<Rightarrow> invokes d i d' | _ \<Rightarrow> ed_processes d' = ed_processes d)"
  using assms
  by (auto simp: deliver_def Let_def invokes_def repeats_def ran_now_def nth_list_update split: if_splits)

lemma callback_round_processes:
  assumes "callback_round d = (d', c)"
  shows "ed_tick d' = ed_tick d \<and> (case c of Return (Ok (Some i)) \<Rightarrow> invokes d i d' | _ \<Rightarrow> ed_processes d' = ed_processes d)"
  using assms
  by (auto simp: callback_round_def take_event_no_invocation split: option.splits if_splits round.splits sum.splits
      dest: take_event_processes deliver_processes)

lemma invokes_cong: "ed_processes d1 = ed_processes d \<Longrightarrow> ed_tick d1 = ed_tick d \<Longrightarrow> invokes d1 i d' = invokes d i d'"
  by (simp add: invokes_def repeats_def ran_now_def)

lemma next_callback_processes:
  assumes "next_callback d = (d', r)"
  shows "ed_tick d' = ed_tick d \<and> (case r of Ok (Some i) \<Rightarrow> invokes d i d' | _ \<Rightarrow> ed_processes d' = ed_processes d)"
  using assms
proof (induction d rule: next_callback.induct)
  case (1 d)
  obtain d1 c where c: "callback_round d = (d1, c)" by fastforce
  note round = callback_round_processes [OF c]
  show ?case
  proof (cases c)
    case Continue
    with 1(2) c have "next_callback d1 = (d', r)" by (simp add: next_callback.simps [of d])
    with 1(1) [OF c [symmetric] Continue] round Continue invokes_cong [of d1 d] show ?thesis
      by (auto split: sum.splits option.splits)
  next
    case (Return x)
    with 1(2) c round show ?thesis by (auto simp: next_callback.simps [of d])
  qed
qed

abbreviation invocations_of :: "nat \<Rightarrow> 'c invocation list \<Rightarrow> nat" where
  "invocations_of p is \<equiv> length (filter (\<lambda>i. inv_process i = p) is)"

lemma run_invocations:
  assumes "run d is d'" "p < length (ed_processes d)" "\<not> repeats d p"
  shows "length (ed_processes d') = length (ed_processes d) \<and> ed_tick d' = ed_tick d \<and> \<not> repeats d' p \<and>
    invocations_of p is + (if ran_now d p then 1 else 0) = (if ran_now d' p then 1 else 0)"
  using assms
proof (induction rule: run.induct)
  case (call d "is" d' d'' i)
  then show ?case using next_callback_processes [OF call.hyps(2)]
    by (auto simp: invokes_def may_run_def repeats_def ran_now_def split: if_splits)
next
  case (idle d "is" d' d'')
  then show ?case using next_callback_processes [OF idle.hyps(2)] by (simp add: repeats_def ran_now_def)
qed (simp_all, (metis (no_types, lifting) same_processes_def same_processes_ops tick_ops repeats_def ran_now_def)+)

lemma run_known_processes:
  assumes "run d is d'"
  shows "length (ed_processes d') = length (ed_processes d) \<and> (\<forall>i\<in>set is. inv_process i < length (ed_processes d))"
  using assms
proof (induction rule: run.induct)
  case (call d "is" d' d'' i)
  then show ?case using next_callback_processes [OF call.hyps(2)] by (auto simp: invokes_def)
next
  case (idle d "is" d' d'')
  then show ?case using next_callback_processes [OF idle.hyps(2)] by simp
qed (simp_all add: processes_length_ops)

section \<open>The drained tick\<close>

text \<open>What an owner without side effects sees: callbacks until there is none. The schedule of a
  dispatcher lists the event and subscriber pairs that the tick still owes, in order, and
  \<open>serve\<close> says which of them are invoked.\<close>

lemma next_callback_decreases: "next_callback d = (d', Ok (Some i)) \<Longrightarrow> (d', d) \<in> rounds_left"
proof (induction d rule: next_callback.induct)
  case (1 d)
  have trans: "trans (rounds_left :: ('c event_dispatcher \<times> 'c event_dispatcher) set)"
    by (auto simp: rounds_left_def trans_def)
  obtain d1 c where c: "callback_round d = (d1, c)" by fastforce
  show ?case
  proof (cases c)
    case Continue
    with 1(2) c have "next_callback d1 = (d', Ok (Some i))" by (simp add: next_callback.simps [of d])
    with 1(1) [OF c [symmetric] Continue] have "(d', d1) \<in> rounds_left" .
    with callback_round_decreases c Continue show ?thesis by (blast intro: transD [OF trans])
  next
    case (Return x)
    with 1(2) c have "callback_round d = (d', Return (Ok (Some i)))" by (simp add: next_callback.simps [of d])
    then show ?thesis
      by (auto simp: callback_round_def deliver_def Let_def rounds_left_def queued_def subscribers_left_def
          take_event_no_invocation split: option.splits if_splits)
  qed
qed

function drain :: "'c event_dispatcher \<Rightarrow> 'c event_dispatcher \<times> 'c invocation list" where
  "drain d =
     (case next_callback d of
        (d', Ok (Some i)) \<Rightarrow> (case drain d' of (d'', is) \<Rightarrow> (d'', i # is))
      | (d', _) \<Rightarrow> (d', []))"
  by auto
termination
  by (relation rounds_left) (simp add: rounds_left_def, auto dest: next_callback_decreases [OF sym])

declare drain.simps [simp del]

definition owed :: "event list \<Rightarrow> nat \<Rightarrow> (nat \<times> nat) list" where
  "owed es i = (if ev_enabled (es ! i) then map (Pair i) (ev_subscribers (es ! i)) else [])"

definition schedule :: "'c event_dispatcher \<Rightarrow> (nat \<times> nat) list" where
  "schedule d =
     (case ed_delivery d of
        None \<Rightarrow> []
      | Some dl \<Rightarrow> map (Pair (dl_event dl))
          (drop (dl_next_subscriber dl) (take (dl_subscriber_count dl) (ev_subscribers (ed_events d ! dl_event dl))))) @
     concat (map (owed (ed_events d)) (queued d))"

fun serve :: "u64 \<Rightarrow> 'c process list \<Rightarrow> (nat \<times> nat) list \<Rightarrow> 'c invocation list" where
  "serve tick ps [] = []"
| "serve tick ps ((e, i) # rest) =
     (let p = ps ! i in
      if may_run tick (pr_state p)
      then \<lparr>inv_tick = tick, inv_event = e, inv_process = i, inv_callback = pr_callback p\<rparr> #
           serve tick (ps[i := p\<lparr>pr_state := (pr_state p)\<lparr>pst_last_run := Some tick\<rparr>\<rparr>]) rest
      else serve tick ps rest)"

abbreviation served :: "'c event_dispatcher \<Rightarrow> 'c invocation list" where
  "served d \<equiv> serve (ed_tick d) (ed_processes d) (schedule d)"

lemma schedule_events_update:
  "ev_enabled e = ev_enabled (es ! i) \<Longrightarrow> ev_subscribers e = ev_subscribers (es ! i) \<Longrightarrow>
     schedule (d\<lparr>ed_events := es[i := e], ed_delivery := dl\<rparr>) = schedule (d\<lparr>ed_events := es, ed_delivery := dl\<rparr>)"
proof -
  assume e: "ev_enabled e = ev_enabled (es ! i)" "ev_subscribers e = ev_subscribers (es ! i)"
  have "ev_enabled (es[i := e] ! j) = ev_enabled (es ! j) \<and> ev_subscribers (es[i := e] ! j) = ev_subscribers (es ! j)" for j
    using e by (cases "i < length es") (auto simp: nth_list_update list_update_beyond)
  then have "owed (es[i := e]) j = owed es j" for j by (simp add: owed_def)
  then have "owed (es[i := e]) = owed es" by blast
  with e show ?thesis by (cases "i < length es")
    (auto simp: schedule_def queued_def nth_list_update list_update_beyond split: option.splits)
qed

lemma take_event_schedule:
  assumes "dispatcher_ok d" "ed_delivery d = None" "take_event d = (d', c)"
  shows "ed_processes d' = ed_processes d \<and> ed_tick d' = ed_tick d \<and>
    (c = Continue \<and> schedule d' = schedule d \<or> c = Return (Ok None) \<and> schedule d = [])"
proof (cases "bm_get (ed_pending d) (ed_tick d)")
  case None
  with assms show ?thesis by (auto simp: take_event_def schedule_def queued_def)
next
  case (Some q)
  have p: "pending_ok d" using assms(1) by (simp add: dispatcher_ok_def)
  note q = pending_queue [OF p Some]
  then obtain i queue where iq: "q = i # queue" by (cases q) auto
  let ?m = "if queue = [] then bm_remove (ed_tick d) (ed_pending d) else bm_insert (ed_tick d) queue (ed_pending d)"
  let ?e = "ed_events d ! i"
  let ?dl = "\<lparr>dl_event = i, dl_next_subscriber = 0, dl_subscriber_count = length (ev_subscribers ?e)\<rparr>"
  have get: "(case bm_get ?m (ed_tick d) of Some q \<Rightarrow> q | None \<Rightarrow> []) = queue"
    using p by (simp add: pending_ok_def)
  have trig: "schedule (d\<lparr>ed_pending := ?m, ed_events := (ed_events d)[i := ?e\<lparr>ev_triggered_at := t\<rparr>], ed_delivery := Some ?dl\<rparr>)
      = schedule (d\<lparr>ed_pending := ?m, ed_delivery := Some ?dl\<rparr>)" for t
    using schedule_events_update [where e = "?e\<lparr>ev_triggered_at := t\<rparr>" and es = "ed_events d" and i = i and d = "d\<lparr>ed_pending := ?m\<rparr>"]
    by (simp split del: if_split)
  show ?thesis
  proof (cases "ev_enabled ?e")
    case True
    with assms(3) Some iq q have "d' = d\<lparr>ed_pending := ?m, ed_events := (ed_events d)[i := ?e\<lparr>ev_triggered_at := Some (ed_tick d)\<rparr>],
        ed_delivery := Some ?dl\<rparr> \<and> c = Continue" by (auto simp: take_event_def Let_def)
    moreover have "schedule (d\<lparr>ed_pending := ?m, ed_delivery := Some ?dl\<rparr>) = schedule d"
      using get True assms(2) Some iq by (simp add: schedule_def queued_def owed_def)
    ultimately show ?thesis using trig by simp
  next
    case False
    with assms(3) Some iq q have "d' = d\<lparr>ed_pending := ?m\<rparr> \<and> c = Continue" by (auto simp: take_event_def Let_def)
    moreover have "schedule (d\<lparr>ed_pending := ?m\<rparr>) = schedule d"
      using get False assms(2) Some iq by (simp add: schedule_def queued_def owed_def)
    ultimately show ?thesis by simp
  qed
qed

lemma deliver_schedule:
  assumes "dispatcher_ok d" "ed_delivery d = Some dl" "dl_next_subscriber dl < dl_subscriber_count dl"
    and "deliver d dl = (d', c)"
  shows "c = Continue \<and> served d' = served d \<or> (\<exists>i. c = Return (Ok (Some i)) \<and> served d = i # served d')"
proof -
  let ?subs = "ev_subscribers (ed_events d ! dl_event dl)"
  let ?i = "?subs ! dl_next_subscriber dl"
  let ?d = "d\<lparr>ed_delivery := Some (dl\<lparr>dl_next_subscriber := dl_next_subscriber dl + 1\<rparr>)\<rparr>"
  have e: "dl_event dl < length (ed_events d)" "dl_next_subscriber dl < length ?subs"
    "dl_next_subscriber dl < length (take (dl_subscriber_count dl) ?subs)"
    using assms(1-3) by (auto simp: dispatcher_ok_def delivery_ok_def)
  then have i: "?i < length (ed_processes d)" using assms(1) by (simp add: topology_subscriber dispatcher_ok_def)
  have sched: "schedule d = (dl_event dl, ?i) # schedule ?d"
    using assms(2,3) e(3) Cons_nth_drop_Suc [OF e(3), symmetric]
    by (simp add: schedule_def queued_def)
  have same: "schedule (?d\<lparr>ed_processes := ps\<rparr>) = schedule ?d" for ps by (simp add: schedule_def queued_def)
  show ?thesis using assms(4) e i sched same
    by (auto simp: deliver_def Let_def split: if_splits)
qed

lemma callback_round_served:
  assumes "dispatcher_ok d" "callback_round d = (d', c)"
  shows "c = Continue \<and> served d' = served d \<or> c = Return (Ok None) \<and> served d = [] \<or>
    (\<exists>i. c = Return (Ok (Some i)) \<and> served d = i # served d')"
proof (cases "ed_delivery d")
  case None
  then have "take_event d = (d', c)" using assms(2) by (simp add: callback_round_def)
  from take_event_schedule [OF assms(1) None this] show ?thesis by auto
next
  case (Some dl)
  show ?thesis
  proof (cases "dl_next_subscriber dl < dl_subscriber_count dl")
    case True
    then have "deliver d dl = (d', c)" using assms(2) Some by (simp add: callback_round_def)
    from deliver_schedule [OF assms(1) Some True this] show ?thesis by blast
  next
    case False
    have none: "dispatcher_ok (d\<lparr>ed_delivery := None\<rparr>)" using assms(1) by (simp add: dispatcher_defs)
    from False have "take_event (d\<lparr>ed_delivery := None\<rparr>) = (d', c)" using assms(2) Some by (simp add: callback_round_def)
    moreover have "schedule (d\<lparr>ed_delivery := None\<rparr>) = schedule d"
      using False Some by (simp add: schedule_def queued_def)
    ultimately show ?thesis using take_event_schedule [OF none, of d' c] by auto
  qed
qed

lemma next_callback_served:
  assumes "dispatcher_ok d" "next_callback d = (d', r)"
  shows "r = Ok None \<and> served d = [] \<or> (\<exists>i. r = Ok (Some i) \<and> served d = i # served d')"
  using assms
proof (induction d rule: next_callback.induct)
  case (1 d)
  obtain d1 c where c: "callback_round d = (d1, c)" by fastforce
  note round = callback_round_served [OF 1(2) c] callback_round_ok [OF 1(2) c]
  show ?case
  proof (cases c)
    case Continue
    with 1(3) c have "next_callback d1 = (d', r)" by (simp add: next_callback.simps [of d])
    with 1(1) [OF c [symmetric] Continue] round Continue show ?thesis by auto
  next
    case (Return x)
    with 1(3) c round show ?thesis by (auto simp: next_callback.simps [of d])
  qed
qed

text \<open>An operation panics exactly on a handle that the dispatcher did not hand out.\<close>

lemma panic_iff:
  "snd (subscribe d event process) = Err Panic \<longleftrightarrow>
     \<not> (event < length (ed_events d) \<and> process < length (ed_processes d))"
  "snd (set_process_enabled d process enabled) = Err Panic \<longleftrightarrow> \<not> process < length (ed_processes d)"
  "snd (set_event_enabled d event enabled) = Err Panic \<longleftrightarrow> \<not> event < length (ed_events d)"
  "triggered d event = Err Panic \<longleftrightarrow> \<not> event < length (ed_events d)"
  "snd (notify_at d event tick) = Err Panic \<longleftrightarrow> \<not> event < length (ed_events d)"
  "snd (notify_after d event delay) = Err Panic \<longleftrightarrow>
     \<not> event < length (ed_events d) \<and> unat (ed_tick d) + unat delay < 2 ^ 64"
  by (auto simp: subscribe_def set_process_enabled_def set_event_enabled_def triggered_def notify_at_def
      notify_after_def checked_add_def and_then_def Let_def split: option.split)

section \<open>Claims\<close>

text \<open>C17. Within one tick, whatever its owner does between callbacks - notifying, cancelling, enabling
  and disabling - a process that does not ask to repeat is invoked at most once, and not at all when
  it already ran at this tick.\<close>
theorem dispatch_once:
  assumes "run d is d'" "\<not> repeats d p"
  shows "invocations_of p is \<le> (if ran_now d p then 0 else 1)"
proof (cases "p < length (ed_processes d)")
  case True
  from run_invocations [OF assms(1) True assms(2)] show ?thesis by (auto split: if_splits)
next
  case False
  with run_known_processes [OF assms(1)] have "filter (\<lambda>i. inv_process i = p) is = []"
    by (auto simp: filter_empty_conv)
  then show ?thesis by simp
qed

text \<open>C18. Draining a tick invokes exactly what the queue owes, in order: the rest of the delivery in
  progress, then for every queued event in FIFO order the subscribers it has if it is enabled, each
  subject to its process being enabled and not having run. The drain leaves nothing for this tick.\<close>
theorem drain_serves_schedule:
  assumes "dispatcher_ok d"
  shows "snd (drain d) = serve (ed_tick d) (ed_processes d) (schedule d)
    \<and> next_event_tick (fst (drain d)) \<noteq> Some (ed_tick d) \<and> dispatcher_ok (fst (drain d))"
  using assms
proof (induction d rule: drain.induct)
  case (1 d)
  obtain d1 r where r: "next_callback d = (d1, r)" by fastforce
  note served = next_callback_served [OF 1(2) r] next_callback_ok [OF 1(2) r]
  show ?case
  proof (cases "r = Ok None")
    case True
    then have "next_event_tick d1 \<noteq> Some (ed_tick d)"
      using served by (auto simp: next_event_tick_def split: list.splits)
    with True served r show ?thesis by (simp add: drain.simps [of d])
  next
    case False
    then obtain i where i: "r = Ok (Some i)" using served by auto
    with 1(1) [OF r [symmetric]] served r show ?thesis by (auto simp: drain.simps [of d] split: prod.splits)
  qed
qed

text \<open>C19. A dispatcher in its invariant panics only on a handle that it did not hand out: the search for
  the next callback never does, and subscribing, enabling, querying and notifying do exactly when the
  event or the process is unknown (a delayed notification reports an overflowing time first). Once
  the dispatcher reports no callback, its time can advance to a tick exactly when that tick is not
  in the past and no notification is queued before it. Every one of these operations keeps the
  invariant.\<close>
theorem idle_dispatcher_advances:
  assumes "dispatcher_ok d" "next_callback d = (d', r)"
  shows "r \<noteq> Err Panic \<and> dispatcher_ok d' \<and>
    (r = Ok None \<longrightarrow> (\<forall>tick. snd (advance_to d' tick) = Ok () \<longleftrightarrow>
       ed_tick d \<le> tick \<and> (\<forall>(t, queue)\<in>set (ed_pending d'). tick \<le> t))) \<and>
    (snd (subscribe d event process) = Err Panic \<longleftrightarrow>
       \<not> (event < length (ed_events d) \<and> process < length (ed_processes d))) \<and>
    (snd (set_process_enabled d process enabled) = Err Panic \<longleftrightarrow> \<not> process < length (ed_processes d)) \<and>
    (snd (set_event_enabled d event enabled) = Err Panic \<longleftrightarrow> \<not> event < length (ed_events d)) \<and>
    (triggered d event = Err Panic \<longleftrightarrow> \<not> event < length (ed_events d)) \<and>
    (snd (notify_at d event tick) = Err Panic \<longleftrightarrow> \<not> event < length (ed_events d)) \<and>
    (snd (notify_after d event delay) = Err Panic \<longleftrightarrow>
       \<not> event < length (ed_events d) \<and> unat (ed_tick d) + unat delay < 2 ^ 64) \<and>
    (\<forall>d''\<in>{fst (add_event d), fst (add_process d callback repeat_in_tick), fst (subscribe d event process),
         fst (set_process_enabled d process enabled), fst (set_event_enabled d event enabled),
         fst (notify_at d event tick), fst (notify_after d event delay), fst (cancel d event),
         fst (advance_to d tick)}. dispatcher_ok d'')"
proof (intro conjI)
  note ok = next_callback_ok [OF assms]
  show "r \<noteq> Err Panic" "dispatcher_ok d'" using ok by simp_all
  have "snd (advance_to d' tick) = Ok () \<longleftrightarrow> ed_tick d \<le> tick \<and> (\<forall>(t, queue)\<in>set (ed_pending d'). tick \<le> t)"
    if "r = Ok None" for tick
    using ok that advance_to_ok(1) [of d' tick "fst (advance_to d' tick)" "snd (advance_to d' tick)"] by auto
  then show "r = Ok None \<longrightarrow> (\<forall>tick. snd (advance_to d' tick) = Ok () \<longleftrightarrow>
       ed_tick d \<le> tick \<and> (\<forall>(t, queue)\<in>set (ed_pending d'). tick \<le> t))" by blast
  show "\<forall>d''\<in>{fst (add_event d), fst (add_process d callback repeat_in_tick), fst (subscribe d event process),
         fst (set_process_enabled d process enabled), fst (set_event_enabled d event enabled),
         fst (notify_at d event tick), fst (notify_after d event delay), fst (cancel d event),
         fst (advance_to d tick)}. dispatcher_ok d''"
    using assms(1) advance_to_ok(3) [OF assms(1) prod.collapse [symmetric], of tick]
    by (simp add: dispatcher_ok_add_event dispatcher_ok_add_process dispatcher_ok_subscribe
        dispatcher_ok_set_process_enabled dispatcher_ok_set_event_enabled dispatcher_ok_notify_at
        dispatcher_ok_notify_after dispatcher_ok_cancel)
qed (auto simp: panic_iff)

section \<open>Witnesses\<close>

text \<open>Two events, three subscriptions; the clock process repeats, the other does not.\<close>

definition sample_dispatcher :: "nat event_dispatcher" where
  "sample_dispatcher =
     (let d = dispatcher_new 5; d = fst (add_event d); d = fst (add_event d);
          d = fst (add_process d 70 True); d = fst (add_process d 71 False);
          d = fst (subscribe d 0 0); d = fst (subscribe d 0 1); d = fst (subscribe d 1 1);
          d = fst (notify_at d 0 5); d = fst (notify_at d 1 5)
      in fst (notify_at d 0 9))"

lemma sample_dispatcher_ok: "dispatcher_ok sample_dispatcher"
  unfolding sample_dispatcher_def Let_def
  by (intro dispatcher_ok_notify_at dispatcher_ok_subscribe dispatcher_ok_add_process dispatcher_ok_add_event
      dispatcher_ok_new)

lemmas round_defs = callback_round_def take_event_def deliver_def may_run_def Let_def bm_get_def bm_remove_def

lemma next_callback_round:
  "next_callback d =
     (case snd (callback_round d) of
        Return r \<Rightarrow> (fst (callback_round d), r)
      | Continue \<Rightarrow> next_callback (fst (callback_round d)))"
  by (cases "callback_round d") (simp add: next_callback.simps [of d] split: round.split)

lemma sample_dispatcher_state:
  "sample_dispatcher =
     \<lparr>ed_tick = 5,
      ed_events = [\<lparr>ev_enabled = True, ev_triggered_at = None, ev_subscribers = [0, 1]\<rparr>,
        \<lparr>ev_enabled = True, ev_triggered_at = None, ev_subscribers = [1]\<rparr>],
      ed_processes = [\<lparr>pr_state = \<lparr>pst_enabled = True, pst_repeat_in_tick = True, pst_last_run = None\<rparr>, pr_callback = 70\<rparr>,
        \<lparr>pr_state = \<lparr>pst_enabled = True, pst_repeat_in_tick = False, pst_last_run = None\<rparr>, pr_callback = 71\<rparr>],
      ed_pending = [(5, [0, 1]), (9, [0])], ed_delivery = None\<rparr>"
  by code_simp

definition sample_call :: "nat event_dispatcher" where
  "sample_call = fst (next_callback (fst (next_callback sample_dispatcher)))"

lemma sample_calls:
  "snd (next_callback sample_dispatcher) = Ok (Some \<lparr>inv_tick = 5, inv_event = 0, inv_process = 0, inv_callback = 70\<rparr>)"
  "snd (next_callback (fst (next_callback sample_dispatcher))) =
     Ok (Some \<lparr>inv_tick = 5, inv_event = 0, inv_process = 1, inv_callback = 71\<rparr>)"
  by (simp_all add: sample_dispatcher_state next_callback_round round_defs)

lemma sample_run:
  "run sample_dispatcher
     [\<lparr>inv_tick = 5, inv_event = 0, inv_process = 0, inv_callback = 70\<rparr>,
      \<lparr>inv_tick = 5, inv_event = 0, inv_process = 1, inv_callback = 71\<rparr>] sample_call"
proof -
  let ?i = "\<lparr>inv_tick = 5, inv_event = 0, inv_process = 0, inv_callback = 70 :: nat\<rparr>"
  have "run sample_dispatcher ([] @ [?i]) (fst (next_callback sample_dispatcher))"
    by (rule run.call [OF run.start]) (simp add: prod_eq_iff sample_calls)
  then have "run sample_dispatcher (([] @ [?i]) @ [\<lparr>inv_tick = 5, inv_event = 0, inv_process = 1, inv_callback = 71\<rparr>])
      sample_call"
    by (rule run.call) (simp add: prod_eq_iff sample_calls sample_call_def)
  then show ?thesis by simp
qed

text \<open>The process that does not repeat subscribes to both events of the tick and is served once.\<close>
theorem dispatch_once_witness:
  "(\<exists>is d'. run sample_dispatcher is d' \<and> is \<noteq> [] \<and> invocations_of 1 is \<le> 1) \<and> \<not> repeats sample_dispatcher 1"
proof -
  have not: "\<not> repeats sample_dispatcher 1" "\<not> ran_now sample_dispatcher 1"
    by (simp_all add: repeats_def ran_now_def sample_dispatcher_state)
  from dispatch_once [OF sample_run not(1)] not sample_run show ?thesis by auto
qed

theorem drain_serves_schedule_witness:
  "dispatcher_ok sample_dispatcher \<and> next_event_tick (fst (drain sample_dispatcher)) \<noteq> Some 5 \<and>
   snd (drain sample_dispatcher) = serve 5 (ed_processes sample_dispatcher) [(0, 0), (0, 1), (1, 1)]"
proof -
  have "ed_tick sample_dispatcher = 5" "schedule sample_dispatcher = [(0, 0), (0, 1), (1, 1)]"
    by (simp_all add: sample_dispatcher_state schedule_def queued_def owed_def bm_get_def)
  with drain_serves_schedule [OF sample_dispatcher_ok] sample_dispatcher_ok show ?thesis by simp
qed

theorem idle_dispatcher_advances_witness:
  "snd (advance_to (fst (next_callback (dispatcher_new 3 :: nat event_dispatcher))) 8) = Ok ()"
proof -
  have d: "next_callback (dispatcher_new 3 :: nat event_dispatcher) = (dispatcher_new 3, Ok None)"
    by (simp add: dispatcher_new_def bm_empty_def next_callback_round round_defs)
  from idle_dispatcher_advances [OF dispatcher_ok_new d] show ?thesis
    unfolding d by (simp add: dispatcher_new_def bm_empty_def)
qed

end
