(* ===== verification/Hardware_Flag_Isa.thy ===== *)
theory Hardware_Flag_Isa
  imports Flow_Isa
begin

text \<open>
  The synchronisation instructions of the C220: \<open>src/src/isa/c220/hflag.rs\<close> (set and wait of the
  hardware flags between the matrix pipes), \<open>src/src/isa/c220/control.rs\<close> (cross-core set, device
  flag wait, the vector control group) and the payload of \<open>src/src/sim/c220/sync/cross_core.rs\<close>.
  The lemmas show which routes a decoded flag instruction can name and that its event is one of four.
\<close>

section \<open>Control instructions\<close>

definition special_flow_form :: "u32 \<Rightarrow> u8 option" where
  "special_flow_form word =
     (if drop_bit 29 word \<noteq> 2 \<or> field word 27 3 = 1 \<or> field word 21 15 \<noteq> 15 then None
      else Some (ucast (field word 18 7)))"

record set_cross_core =
  scc_word :: u32
  scc_source_register :: u8
  scc_pipe_code :: u8

definition set_cross_core_decode :: "u32 \<Rightarrow> set_cross_core option" where
  "set_cross_core_decode word =
     (if special_flow_form word \<notin> {Some 4, Some 5} then None
      else Some \<lparr>scc_word = word, scc_source_register = ucast (field word 2 31),
                 scc_pipe_code = ucast (field word 10 15)\<rparr>)"

datatype device_flag_source = DeviceFlagRegister u8 | DeviceFlagImmediate u8

record wait_device_flag =
  wdf_word :: u32
  wdf_source :: device_flag_source

definition wait_device_flag_decode :: "u32 \<Rightarrow> wait_device_flag option" where
  "wait_device_flag_decode word =
     map_option (\<lambda>source. \<lparr>wdf_word = word, wdf_source = source\<rparr>)
       (if special_flow_form word = Some 1 then Some (DeviceFlagRegister (ucast (word AND 31)))
        else if special_flow_form word = Some 3 then Some (DeviceFlagImmediate (ucast word))
        else None)"

datatype control_element = ElementByte | ElementHalf | ElementWord

datatype vector_control_operation =
    ScMerge control_element
  | ScSplit control_element
  | Padding control_element
  | Scatter control_element
  | L0cLockSet
  | L0cLockRelease
  | Shuffle control_element
  | BlockDescriptor u8

definition vector_control_decode :: "u32 \<Rightarrow> vector_control_operation option" where
  "vector_control_decode word =
     (if word AND 0xffc00000 = 0x80c00000 then Some (BlockDescriptor (ucast (field word 7 0xf)))
      else let w = word AND 0xffc0007f in
        if w = 0x80000001 then Some (ScMerge ElementByte)
        else if w = 0x80000009 then Some (ScMerge ElementHalf)
        else if w = 0x80000002 then Some (ScSplit ElementByte)
        else if w = 0x8000000a then Some (ScSplit ElementHalf)
        else if w = 0x80000022 then Some (Padding ElementHalf)
        else if w = 0x8000002a then Some (Padding ElementWord)
        else if w = 0x80000062 then Some (Scatter ElementHalf)
        else if w = 0x8000006a then Some (Scatter ElementWord)
        else if w = 0x80000012 then Some L0cLockSet
        else if w = 0x8000001a then Some L0cLockRelease
        else if w = 0x80000007 then Some (Shuffle ElementByte)
        else if w = 0x8000000f then Some (Shuffle ElementHalf)
        else if w = 0x80000017 then Some (Shuffle ElementWord)
        else None)"

record device_sync =
  ds_value :: u64
  ds_mode :: u8
  ds_flag_id :: u8

definition device_sync_from_value :: "u64 \<Rightarrow> device_sync" where
  "device_sync_from_value value =
     \<lparr>ds_value = value, ds_mode = ucast (field value 4 3), ds_flag_id = ucast (field value 8 15)\<rparr>"

section \<open>Hardware flags\<close>

datatype hardware_flag_operation = HfSet | HfWait

datatype hardware_event_source = EventImmediate u8 | EventRegister u8

datatype hardware_flag_source_pipe = PipeCube | PipeMte1 | PipeFix

datatype matrix_memory = L0a | L0b | L0c | BiasTable

record hardware_flag_instruction =
  hf_word :: u32
  hf_operation :: hardware_flag_operation
  hf_event_source :: hardware_event_source
  hf_source_pipe :: hardware_flag_source_pipe
  hf_destination_pipe_code :: u8
  hf_memory :: matrix_memory
  hf_trigger :: bool

record hardware_flag_step =
  hs_pc :: u64
  hs_instruction :: hardware_flag_instruction
  hs_event_id :: u32
  hs_source_value :: "u64 option"

datatype hardware_flag_error = InvalidEventId u64

definition execution_pipe_code :: "hardware_flag_instruction \<Rightarrow> u8" where
  "execution_pipe_code f =
     (case hf_operation f of
        HfWait \<Rightarrow> hf_destination_pipe_code f
      | HfSet \<Rightarrow> (case hf_source_pipe f of PipeCube \<Rightarrow> 2 | PipeMte1 \<Rightarrow> 3 | PipeFix \<Rightarrow> 10))"

definition flag_source_pipe :: "u32 \<Rightarrow> hardware_flag_source_pipe option" where
  "flag_source_pipe word =
     (let code = field word 10 0xf in
      if code = 2 then Some PipeCube else if code = 3 then Some PipeMte1
      else if code = 10 then Some PipeFix else None)"

definition flag_memory :: "u32 \<Rightarrow> matrix_memory option" where
  "flag_memory word =
     (let code = field word 15 7 in
      if code = 1 then Some L0a else if code = 2 then Some L0b else if code = 3 then Some L0c
      else if code = 5 then Some BiasTable else None)"

fun flag_route :: "hardware_flag_source_pipe \<Rightarrow> u8 \<Rightarrow> matrix_memory \<Rightarrow> bool" where
  "flag_route PipeMte1 destination memory = (destination = 2 \<and> memory \<in> {L0a, L0b, BiasTable})"
| "flag_route PipeFix destination memory = (destination = 2 \<and> memory = L0c)"
| "flag_route PipeCube destination memory =
     (destination = 3 \<and> memory \<in> {L0a, L0b, BiasTable} \<or> destination = 10 \<and> memory = L0c)"

definition hardware_flag_decode :: "u32 \<Rightarrow> hardware_flag_instruction option" where
  "hardware_flag_decode word =
     (if special_flow_form word \<notin> {Some 0, Some 2, Some 6, Some 7} then None
      else
        let form = field word 5 3;
            operation = (if form AND 1 = 0 then HfSet else HfWait);
            event_source = (if form AND 2 = 0 then EventImmediate (ucast (word AND 3))
                            else EventRegister (ucast (word AND 0x1f)));
            destination = ucast (field word 7 7 OR push_bit 3 (field word 14 1))
        in case flag_source_pipe word of
             None \<Rightarrow> None
           | Some source_pipe \<Rightarrow>
               (case flag_memory word of
                  None \<Rightarrow> None
                | Some memory \<Rightarrow>
                    if flag_route source_pipe destination memory
                    then Some \<lparr>hf_word = word, hf_operation = operation,
                               hf_event_source = event_source, hf_source_pipe = source_pipe,
                               hf_destination_pipe_code = destination, hf_memory = memory,
                               hf_trigger = test word (push_bit 19 1)\<rparr>
                    else None))"

definition hardware_flag_resolve ::
  "hardware_flag_instruction \<Rightarrow> u64 \<Rightarrow> u64 list \<Rightarrow> hardware_flag_error fault + hardware_flag_step" where
  "hardware_flag_resolve f pc xregs =
     and_then
       (case hf_event_source f of
          EventImmediate event_id \<Rightarrow> Ok (ucast event_id, None)
        | EventRegister index \<Rightarrow> and_then (xreg_at xregs index) (\<lambda>value.
            if unat value < 2 ^ 32 then Ok (ucast value, Some value)
            else Err (Fail (InvalidEventId value))))
       (\<lambda>(event_id :: u32, source_value).
         if event_id > 3 then Err (Fail (InvalidEventId (ucast event_id)))
         else Ok \<lparr>hs_pc = pc, hs_instruction = f, hs_event_id = event_id, hs_source_value = source_value\<rparr>)"

section \<open>What a decoded flag can be\<close>

lemma reg5_index: "unat (ucast (w AND 0x1f :: u32) :: u8) < 32"
proof -
  have "w AND 0x1f = take_bit 5 w" by (simp add: take_bit_eq_mask mask_eq_exp_minus_1)
  then have "unat (w AND 0x1f) = take_bit 5 (unat w)" by (simp add: unsigned_take_bit_eq)
  then have "unat (w AND 0x1f) < 32" by (simp add: take_bit_eq_mod)
  then show ?thesis
    by (simp add: unsigned_ucast_eq) (meson le_less_trans take_bit_nat_less_eq_self)
qed

lemma hardware_flag_decode_route:
  "hardware_flag_decode word = Some f \<Longrightarrow>
     flag_route (hf_source_pipe f) (hf_destination_pipe_code f) (hf_memory f) \<and> hf_word f = word"
  by (auto simp: hardware_flag_decode_def Let_def split: if_splits option.splits)

lemma hardware_flag_decode_register:
  assumes "hardware_flag_decode word = Some f" "hf_event_source f = EventRegister index"
  shows "unat index < 32"
  using assms reg5_index [of word]
  by (auto simp: hardware_flag_decode_def Let_def split: if_splits option.splits)

lemma hardware_flag_resolve_event:
  assumes "hardware_flag_resolve f pc xregs = Ok s"
  shows "hs_instruction s = f \<and> hs_pc s = pc \<and> hs_event_id s \<le> 3"
  using assms by (auto simp: hardware_flag_resolve_def and_then_Ok split: if_splits hardware_event_source.splits)

lemma hardware_flag_resolve_no_panic:
  assumes "hardware_flag_decode word = Some f" "length xregs = 32"
  shows "hardware_flag_resolve f pc xregs \<noteq> Err Panic"
proof (cases "hf_event_source f")
  case (EventRegister index)
  then show ?thesis using hardware_flag_decode_register [OF assms(1) EventRegister] assms(2)
    by (simp add: hardware_flag_resolve_def xreg_at_def)
qed (simp add: hardware_flag_resolve_def)

end
