(* ===== verification/Hardware_Flags.thy ===== *)
theory Hardware_Flags
  imports Ordered_Map Hardware_Flag_Isa
begin

text \<open>
  The hardware flag counters of a C220 core: \<open>src/src/sim/c220/sync.rs\<close> and its Cube part
  \<open>src/src/sim/c220/sync/cube.rs\<close>. A set is admitted, waits for a notification and then becomes a
  visible token of its counter; a wait consumes a token. Cube sets are held until a checkpoint of an
  older instruction releases them. The fixed-size arrays of queues are lists whose index is checked,
  so that a missing queue is a panic; the loops of \<open>release_cube_sets\<close> and \<open>advance_to\<close> terminate
  because each round pops a queued set or moves the next notification forward.
\<close>

section \<open>State\<close>

definition hardware_flag_almost_full :: u8 where
  "hardware_flag_almost_full = 32"

definition hardware_flag_capacity :: u8 where
  "hardware_flag_capacity = 63"

record flag_counter_snapshot =
  sn_visible :: u8
  sn_pending :: nat
  sn_almost_full :: bool

record hardware_flag_event =
  he_step :: hardware_flag_step
  he_timestamp :: u64

definition capture_mte :: "hardware_flag_step \<Rightarrow> u64 \<Rightarrow> hardware_flag_event" where
  "capture_mte step tick = \<lparr>he_step = step, he_timestamp = ucast (ucast tick :: u32)\<rparr>"

record hardware_flag_delivery =
  hd_admitted_tick :: u64
  hd_timestamp :: u64
  hd_destination_pipe_code :: u8
  hd_memory :: matrix_memory
  hd_event_id :: u32

text \<open>A key orders by destination pipe, memory code and event, as the derived order does.\<close>

type_synonym flag_key = "u8 \<times> u8 \<times> u32"

definition memory_code :: "matrix_memory \<Rightarrow> u8" where
  "memory_code m = (case m of L0a \<Rightarrow> 1 | L0b \<Rightarrow> 2 | L0c \<Rightarrow> 3 | BiasTable \<Rightarrow> 5)"

definition key_from_step :: "hardware_flag_step \<Rightarrow> flag_key" where
  "key_from_step step =
     (hf_destination_pipe_code (hs_instruction step), memory_code (hf_memory (hs_instruction step)),
      hs_event_id step)"

record pending_flag =
  pf_admitted_tick :: u64
  pf_event :: hardware_flag_event
  pf_key :: flag_key

record queued_cube_flag =
  qc_instruction_id :: u64
  qc_step :: hardware_flag_step

record queued_mte_flag =
  qm_instruction_id :: u64
  qm_event :: hardware_flag_event

record cube_checkpoint =
  cp_tick :: u64
  cp_instruction_id :: u64

record flag_state =
  fl_now :: u64
  fl_counters :: "(flag_key, u8) btree_map"
  fl_pending_sets :: "pending_flag list"
  fl_notifications :: "u64 btree_set"
  fl_cube_waits :: "queued_cube_flag list"
  fl_cube_sets :: "queued_cube_flag list list"
  fl_cube_checkpoints :: "cube_checkpoint list list"
  fl_mte_flags :: "queued_mte_flag list"
  fl_saturated_sets :: u64

definition flag_state_default :: flag_state where
  "flag_state_default =
     \<lparr>fl_now = 0, fl_counters = bm_empty, fl_pending_sets = [], fl_notifications = bm_empty,
      fl_cube_waits = [], fl_cube_sets = replicate 3 [], fl_cube_checkpoints = replicate 4 [],
      fl_mte_flags = [], fl_saturated_sets = 0\<rparr>"

datatype flag_timing_error =
    UnsupportedDestination matrix_memory u8
  | FlagTimeOverflow
  | FlagTimeReversed u64 u64
  | OperationMismatch
  | AlmostFull u32 u8
  | MissingToken u32
  | InstructionOrder

definition visibility_ticks :: "matrix_memory \<Rightarrow> u8 \<Rightarrow> flag_timing_error + u64" where
  "visibility_ticks memory destination =
     (if memory \<in> {L0a, L0b, L0c} \<and> destination = 2 \<or> memory = BiasTable \<and> destination = 3 then Ok 1
      else if memory \<in> {L0a, L0b} \<and> 3 \<le> destination \<and> destination \<le> 5 \<or>
              memory = L0c \<and> destination = 10 \<or> memory = BiasTable \<and> destination = 2 then Ok 2
      else Err (UnsupportedDestination memory destination))"

section \<open>Counters\<close>

definition key_count :: "flag_state \<Rightarrow> flag_key \<Rightarrow> u8" where
  "key_count s key = (case bm_get (fl_counters s) key of Some c \<Rightarrow> c | None \<Rightarrow> 0)"

definition flag_count :: "flag_state \<Rightarrow> u8 \<Rightarrow> matrix_memory \<Rightarrow> u32 \<Rightarrow> u8" where
  "flag_count s destination memory event_id = key_count s (destination, memory_code memory, event_id)"

definition counter_snapshot :: "flag_state \<Rightarrow> u8 \<Rightarrow> matrix_memory \<Rightarrow> u32 \<Rightarrow> flag_counter_snapshot" where
  "counter_snapshot s destination memory event_id =
     (let key = (destination, memory_code memory, event_id); visible = key_count s key
      in \<lparr>sn_visible = visible,
          sn_pending = length (filter (\<lambda>set. pf_key set = key) (fl_pending_sets s)),
          sn_almost_full = hardware_flag_almost_full \<le> visible\<rparr>)"

definition consume_wait ::
  "flag_state \<Rightarrow> hardware_flag_step \<Rightarrow> flag_state \<times> (flag_timing_error fault + unit)" where
  "consume_wait s step =
     (if hf_operation (hs_instruction step) \<noteq> HfWait then (s, Err (Fail OperationMismatch))
      else let key = key_from_step step in
        case bm_get (fl_counters s) key of
          None \<Rightarrow> (s, Err (Fail (MissingToken (hs_event_id step))))
        | Some counter \<Rightarrow>
            if counter = 0 then (s, Err (Fail (MissingToken (hs_event_id step))))
            else if counter - 1 = 0 then (s\<lparr>fl_counters := bm_remove key (fl_counters s)\<rparr>, Ok ())
            else (s\<lparr>fl_counters := bm_insert key (counter - 1) (fl_counters s)\<rparr>, Ok ()))"

section \<open>MTE flags\<close>

definition same_mte_flag :: "hardware_flag_step \<Rightarrow> queued_mte_flag \<Rightarrow> bool" where
  "same_mte_flag step pending \<longleftrightarrow>
     hf_memory (hs_instruction (he_step (qm_event pending))) = hf_memory (hs_instruction step) \<and>
     hf_operation (hs_instruction (he_step (qm_event pending))) = hf_operation (hs_instruction step) \<and>
     hs_event_id (he_step (qm_event pending)) = hs_event_id step"

definition enqueue_mte_flag ::
  "flag_state \<Rightarrow> u64 \<Rightarrow> hardware_flag_step \<Rightarrow> u64 \<Rightarrow> flag_state \<times> (flag_timing_error fault + unit)" where
  "enqueue_mte_flag s instruction_id step tick =
     (if hf_trigger (hs_instruction step) then (s, Err (Fail OperationMismatch))
      else if list_ex (same_mte_flag step) (fl_mte_flags s) then (s, Ok ())
      else (s\<lparr>fl_mte_flags := fl_mte_flags s @
               [\<lparr>qm_instruction_id = instruction_id, qm_event = capture_mte step tick\<rparr>]\<rparr>, Ok ()))"

definition pending_mte_flags :: "flag_state \<Rightarrow> hardware_flag_event list" where
  "pending_mte_flags s = map qm_event (fl_mte_flags s)"

definition pending_mte_set_count :: "flag_state \<Rightarrow> nat" where
  "pending_mte_set_count s =
     length (filter (\<lambda>event. hf_operation (hs_instruction (he_step event)) = HfSet) (pending_mte_flags s))"

definition take_mte_flags ::
  "flag_state \<Rightarrow> u64 \<Rightarrow> matrix_memory \<Rightarrow> flag_state \<times> hardware_flag_event list" where
  "take_mte_flags s instruction_id memory =
     (let attached = (\<lambda>pending. qm_instruction_id pending < instruction_id \<and>
            hf_memory (hs_instruction (he_step (qm_event pending))) = memory)
      in (s\<lparr>fl_mte_flags := filter (\<lambda>pending. \<not> attached pending) (fl_mte_flags s)\<rparr>,
          map qm_event (filter attached (fl_mte_flags s))))"

section \<open>Sets\<close>

definition schedule_event ::
  "flag_state \<Rightarrow> hardware_flag_event \<Rightarrow> u64 \<Rightarrow> flag_state \<times> (flag_timing_error fault + u64)" where
  "schedule_event s event checkpoint_tick =
     (let step = he_step event; key = key_from_step step; count = key_count s key;
          delay = (if he_timestamp event = 0
                   then visibility_ticks (hf_memory (hs_instruction step))
                          (hf_destination_pipe_code (hs_instruction step))
                   else Ok 1)
      in if hf_operation (hs_instruction step) \<noteq> HfSet then (s, Err (Fail OperationMismatch))
         else if checkpoint_tick < fl_now s
         then (s, Err (Fail (FlagTimeReversed checkpoint_tick (fl_now s))))
         else if hardware_flag_almost_full \<le> count
         then (s, Err (Fail (AlmostFull (hs_event_id step) count)))
         else case delay of
           Err e \<Rightarrow> (s, Err (Fail e))
         | Ok delay \<Rightarrow>
             (case checked_add checkpoint_tick delay of
                None \<Rightarrow> (s, Err (Fail FlagTimeOverflow))
              | Some notification \<Rightarrow>
                  let event = (if he_timestamp event = 0 then event\<lparr>he_timestamp := notification\<rparr> else event)
                  in (s\<lparr>fl_pending_sets := fl_pending_sets s @
                          [\<lparr>pf_admitted_tick = checkpoint_tick, pf_event = event, pf_key = key\<rparr>],
                        fl_notifications := bs_insert notification (fl_notifications s)\<rparr>,
                      Ok notification)))"

definition schedule_set ::
  "flag_state \<Rightarrow> hardware_flag_step \<Rightarrow> u64 \<Rightarrow> flag_state \<times> (flag_timing_error fault + u64)" where
  "schedule_set s step checkpoint_tick =
     schedule_event s \<lparr>he_step = step, he_timestamp = 0\<rparr> checkpoint_tick"

text \<open>\<open>deliver_at\<close> walks the admitted sets once, removing the due ones in place.\<close>

definition due :: "u64 \<Rightarrow> pending_flag \<Rightarrow> bool" where
  "due tick pending \<longleftrightarrow> pf_admitted_tick pending \<le> tick \<and> he_timestamp (pf_event pending) \<le> tick"

definition deliver_token ::
  "flag_key \<Rightarrow> (flag_key, u8) btree_map \<times> u64 \<Rightarrow> (flag_key, u8) btree_map \<times> u64" where
  "deliver_token key = (\<lambda>(counters, saturated).
     let counter = (case bm_get counters key of Some c \<Rightarrow> c | None \<Rightarrow> 0)
     in if hardware_flag_capacity \<le> counter
        then (bm_insert key counter counters, saturating_add saturated 1)
        else (bm_insert key (counter + 1) counters, saturated))"

fun deliver_pending ::
  "u64 \<Rightarrow> pending_flag list \<Rightarrow> (flag_key, u8) btree_map \<times> u64 \<Rightarrow>
     pending_flag list \<times> (flag_key, u8) btree_map \<times> u64" where
  "deliver_pending tick [] c = ([], c)"
| "deliver_pending tick (p # ps) c =
     (if due tick p then deliver_pending tick ps (deliver_token (pf_key p) c)
      else case deliver_pending tick ps c of (kept, c') \<Rightarrow> (p # kept, c'))"

definition deliver_at :: "flag_state \<Rightarrow> u64 \<Rightarrow> flag_state" where
  "deliver_at s tick =
     (case deliver_pending tick (fl_pending_sets s) (fl_counters s, fl_saturated_sets s) of
        (kept, counters, saturated) \<Rightarrow>
          s\<lparr>fl_counters := counters, fl_pending_sets := kept, fl_saturated_sets := saturated\<rparr>)"

section \<open>Cube sets and checkpoints\<close>

record cube_flag_stages =
  st_read_buffers :: u32
  st_bias :: u32
  st_write_buffer :: u32

definition cube_flag_stages_default :: cube_flag_stages where
  "cube_flag_stages_default = \<lparr>st_read_buffers = 3, st_bias = 3, st_write_buffer = 14\<rparr>"

datatype cube_flag_checkpoint = ReadBuffers | Bias | WriteBuffer | UnitFlagRetry

definition checkpoint_queue :: "cube_flag_checkpoint \<Rightarrow> nat" where
  "checkpoint_queue kind =
     (case kind of ReadBuffers \<Rightarrow> 0 | Bias \<Rightarrow> 1 | WriteBuffer \<Rightarrow> 2 | UnitFlagRetry \<Rightarrow> 3)"

definition pending_cube_set_count :: "flag_state \<Rightarrow> nat" where
  "pending_cube_set_count s = sum_list (map length (fl_cube_sets s))"

definition pending_cube_checkpoints :: "flag_state \<Rightarrow> (cube_flag_checkpoint \<times> u64 \<times> u64) list" where
  "pending_cube_checkpoints s =
     concat (map (\<lambda>(kind, queue). map (\<lambda>point. (kind, cp_instruction_id point, cp_tick point)) queue)
       (zip [ReadBuffers, Bias, WriteBuffer, UnitFlagRetry] (fl_cube_checkpoints s)))"

definition newer_than_last :: "u64 \<Rightarrow> queued_cube_flag list \<Rightarrow> bool" where
  "newer_than_last instruction_id queue \<longleftrightarrow>
     \<not> (queue \<noteq> [] \<and> instruction_id \<le> qc_instruction_id (last queue))"

definition enqueue_cube_set ::
  "flag_state \<Rightarrow> u64 \<Rightarrow> hardware_flag_step \<Rightarrow> flag_state \<times> (flag_timing_error fault + unit)" where
  "enqueue_cube_set s instruction_id step =
     (let queue = (if hf_destination_pipe_code (hs_instruction step) = 10 then 2
                   else if hf_memory (hs_instruction step) = BiasTable then 1 else 0)
      in if hf_operation (hs_instruction step) \<noteq> HfSet \<or> hf_trigger (hs_instruction step)
         then (s, Err (Fail OperationMismatch))
         else if \<not> queue < length (fl_cube_sets s) then (s, Err Panic)
         else if \<not> newer_than_last instruction_id (fl_cube_sets s ! queue)
         then (s, Err (Fail InstructionOrder))
         else (s\<lparr>fl_cube_sets := (fl_cube_sets s)[queue := fl_cube_sets s ! queue @
                   [\<lparr>qc_instruction_id = instruction_id, qc_step = step\<rparr>]]\<rparr>, Ok ()))"

definition enqueue_cube_checkpoint ::
  "flag_state \<Rightarrow> cube_flag_checkpoint \<Rightarrow> u64 \<Rightarrow> u64 \<Rightarrow> u32 \<Rightarrow>
     flag_state \<times> (flag_timing_error fault + unit)" where
  "enqueue_cube_checkpoint s kind instruction_id tick delay =
     (case checked_add tick (ucast delay) of
        None \<Rightarrow> (s, Err (Fail FlagTimeOverflow))
      | Some tick \<Rightarrow>
          let queue = checkpoint_queue kind in
          if \<not> queue < length (fl_cube_checkpoints s) then (s, Err Panic)
          else (s\<lparr>fl_cube_checkpoints := (fl_cube_checkpoints s)[queue := fl_cube_checkpoints s ! queue @
                    [\<lparr>cp_tick = tick, cp_instruction_id = instruction_id\<rparr>]]\<rparr>, Ok ()))"

lemma schedule_event_frame:
  assumes "schedule_event s e t = (s', r)"
  shows "fl_cube_sets s' = fl_cube_sets s \<and> fl_cube_checkpoints s' = fl_cube_checkpoints s \<and>
    fl_cube_waits s' = fl_cube_waits s \<and> fl_mte_flags s' = fl_mte_flags s \<and> fl_now s' = fl_now s \<and>
    fl_counters s' = fl_counters s \<and> fl_saturated_sets s' = fl_saturated_sets s"
  using assms by (auto simp: schedule_event_def Let_def split: if_splits option.splits sum.splits)

function release_cube_sets ::
  "nat \<Rightarrow> u64 \<Rightarrow> u64 \<Rightarrow> flag_state \<Rightarrow> flag_state \<times> (flag_timing_error fault + bool)" where
  "release_cube_sets queue instruction_id tick s =
     (if \<not> queue < length (fl_cube_sets s) then (s, Err Panic)
      else case fl_cube_sets s ! queue of
        [] \<Rightarrow> (s, Ok True)
      | pending # rest \<Rightarrow>
          if qc_instruction_id pending < instruction_id
          then case schedule_set s (qc_step pending) tick of
              (s', Ok _) \<Rightarrow>
                release_cube_sets queue instruction_id tick
                  (s'\<lparr>fl_cube_sets := (fl_cube_sets s')[queue := rest]\<rparr>)
            | (s', Err (Fail (AlmostFull _ _))) \<Rightarrow> (s', Ok False)
            | (s', Err e) \<Rightarrow> (s', Err e)
          else (s, Ok True))"
  by pat_completeness auto
termination
  by (relation "measure (\<lambda>(queue, _, _, s). length (fl_cube_sets s ! queue))")
    (auto simp: schedule_set_def dest!: schedule_event_frame [OF sym])

declare release_cube_sets.simps [simp del]

definition check_cube_unit_flag_set ::
  "flag_state \<Rightarrow> u64 \<Rightarrow> u64 \<Rightarrow> flag_state \<times> (flag_timing_error fault + unit)" where
  "check_cube_unit_flag_set s instruction_id tick =
     (case release_cube_sets 2 instruction_id tick s of
        (s', Err e) \<Rightarrow> (s', Err e)
      | (s', Ok released) \<Rightarrow>
          if \<not> released then enqueue_cube_checkpoint s' UnitFlagRetry instruction_id tick 1
          else (s', Ok ()))"

text \<open>One turn of the loop over the checkpoint queues.\<close>

definition postpone_head ::
  "nat \<Rightarrow> u64 \<Rightarrow> flag_state \<Rightarrow> flag_state \<times> (flag_timing_error fault + unit)" where
  "postpone_head queue tick s =
     (case fl_cube_checkpoints s ! queue of
        [] \<Rightarrow> (s, Ok ())
      | head # rest \<Rightarrow>
          (case checked_add tick 1 of
             None \<Rightarrow> (s, Err (Fail FlagTimeOverflow))
           | Some next_tick \<Rightarrow>
               (s\<lparr>fl_cube_checkpoints := (fl_cube_checkpoints s)
                    [queue := head\<lparr>cp_tick := max (cp_tick head) next_tick\<rparr> # rest]\<rparr>, Ok ())))"

definition advance_checkpoint ::
  "nat \<Rightarrow> u64 \<Rightarrow> flag_state \<Rightarrow> flag_state \<times> (flag_timing_error fault + unit)" where
  "advance_checkpoint queue tick s =
     (if \<not> queue < length (fl_cube_checkpoints s) then (s, Err Panic)
      else case fl_cube_checkpoints s ! queue of
        [] \<Rightarrow> (s, Ok ())
      | head # _ \<Rightarrow>
          if \<not> cp_tick head \<le> tick then (s, Ok ())
          else case release_cube_sets (min queue 2) (cp_instruction_id head) tick s of
              (s', Err e) \<Rightarrow> (s', Err e)
            | (s', Ok released) \<Rightarrow>
                postpone_head queue tick
                  (if released
                   then s'\<lparr>fl_cube_checkpoints := (fl_cube_checkpoints s')[queue := tl (fl_cube_checkpoints s' ! queue)]\<rparr>
                   else s'))"

fun advance_queues ::
  "nat list \<Rightarrow> u64 \<Rightarrow> flag_state \<Rightarrow> flag_state \<times> (flag_timing_error fault + unit)" where
  "advance_queues [] tick s = (s, Ok ())"
| "advance_queues (queue # queues) tick s =
     (case advance_checkpoint queue tick s of
        (s', Err e) \<Rightarrow> (s', Err e)
      | (s', Ok _) \<Rightarrow> advance_queues queues tick s')"

definition advance_cube_checkpoints ::
  "u64 \<Rightarrow> flag_state \<Rightarrow> flag_state \<times> (flag_timing_error fault + unit)" where
  "advance_cube_checkpoints = advance_queues [0, 1, 2, 3]"

section \<open>Time\<close>

definition min_of :: "u64 list \<Rightarrow> u64 option" where
  "min_of ts = (case ts of [] \<Rightarrow> None | t # ts \<Rightarrow> Some (fold min ts t))"

definition checkpoint_heads :: "flag_state \<Rightarrow> u64 list" where
  "checkpoint_heads s = map (\<lambda>queue. cp_tick (hd queue)) (filter (\<lambda>queue. queue \<noteq> []) (fl_cube_checkpoints s))"

definition next_notification_tick :: "flag_state \<Rightarrow> u64 option" where
  "next_notification_tick s =
     min_of ((case min_of (bs_elements (fl_notifications s)) of Some t \<Rightarrow> [t] | None \<Rightarrow> []) @ checkpoint_heads s)"

lemma min_of_Nil [simp]: "min_of [] = None"
  by (simp add: min_of_def)

lemma min_of_None: "min_of ts = None \<longleftrightarrow> ts = []"
  by (cases ts) (simp_all add: min_of_def)

lemma min_of_Some: "min_of ts = Some t \<longleftrightarrow> t \<in> set ts \<and> (\<forall>u\<in>set ts. t \<le> u)"
proof (cases ts)
  case (Cons a as)
  have "fold min as a = Min (set (a # as))" by (simp only: Min.set_eq_fold)
  moreover have "t = Min (set (a # as)) \<longleftrightarrow> t \<in> set (a # as) \<and> (\<forall>u\<in>set (a # as). t \<le> u)"
    by (metis List.finite_set Min_eqI Min_in Min_le list.distinct(1) set_empty)
  ultimately show ?thesis using Cons by (auto simp: min_of_def)
qed (simp add: min_of_def)

text \<open>All the ticks at which something is to be done.\<close>

definition wake_ticks :: "flag_state \<Rightarrow> u64 set" where
  "wake_ticks s = set (bs_elements (fl_notifications s)) \<union> set (checkpoint_heads s)"

lemma next_notification_Some:
  "next_notification_tick s = Some t \<longleftrightarrow> t \<in> wake_ticks s \<and> (\<forall>u\<in>wake_ticks s. t \<le> u)"
proof (cases "min_of (bs_elements (fl_notifications s))")
  case None
  then show ?thesis by (simp add: next_notification_tick_def min_of_Some wake_ticks_def min_of_None)
next
  case (Some m)
  then have m: "m \<in> set (bs_elements (fl_notifications s))" "\<forall>u\<in>set (bs_elements (fl_notifications s)). m \<le> u"
    by (simp_all add: min_of_Some)
  have "next_notification_tick s = Some t \<longleftrightarrow> t \<in> insert m (set (checkpoint_heads s)) \<and>
      (\<forall>u\<in>insert m (set (checkpoint_heads s)). t \<le> u)"
    by (simp add: next_notification_tick_def min_of_Some Some)
  also have "\<dots> \<longleftrightarrow> t \<in> wake_ticks s \<and> (\<forall>u\<in>wake_ticks s. t \<le> u)"
    using m unfolding wake_ticks_def by (auto intro: order_trans antisym)
  finally show ?thesis .
qed

lemma next_notification_None: "next_notification_tick s = None \<longleftrightarrow> wake_ticks s = {}"
  by (auto simp: next_notification_tick_def wake_ticks_def min_of_None split: option.splits)

text \<open>What admitting sets at a tick may change: the queues of held sets, the admitted sets, and
  notifications after the tick.\<close>

definition admits :: "u64 \<Rightarrow> flag_state \<Rightarrow> flag_state \<Rightarrow> bool" where
  "admits tick s s' \<longleftrightarrow>
     length (fl_cube_checkpoints s') = length (fl_cube_checkpoints s) \<and> fl_cube_waits s' = fl_cube_waits s \<and>
     fl_mte_flags s' = fl_mte_flags s \<and> fl_now s' = fl_now s \<and> fl_counters s' = fl_counters s \<and>
     fl_saturated_sets s' = fl_saturated_sets s \<and> length (fl_cube_sets s') = length (fl_cube_sets s) \<and>
     (\<forall>t. bs_member (fl_notifications s) t \<longrightarrow> bs_member (fl_notifications s') t) \<and>
     (\<forall>t. bs_member (fl_notifications s') t \<longrightarrow> bs_member (fl_notifications s) t \<or> tick < t) \<and>
     (\<forall>p\<in>set (fl_pending_sets s'). p \<in> set (fl_pending_sets s) \<or> tick < he_timestamp (pf_event p)) \<and>
     (\<forall>p\<in>set (fl_pending_sets s). p \<in> set (fl_pending_sets s'))"

lemma admits_refl [simp]: "admits tick s s"
  by (simp add: admits_def)

lemma admits_trans: "admits tick s1 s2 \<Longrightarrow> admits tick s2 s3 \<Longrightarrow> admits tick s1 s3"
  unfolding admits_def by (elim conjE, intro conjI) (simp; fail | blast)+

lemma admits_set_queue [simp]:
  "admits tick s (s'\<lparr>fl_cube_sets := (fl_cube_sets s')[q := x]\<rparr>) = admits tick s s'"
  "length ys = length (fl_cube_checkpoints s') \<Longrightarrow> admits tick s (s'\<lparr>fl_cube_checkpoints := ys\<rparr>) = admits tick s s'"
  by (simp_all add: admits_def)

lemma visibility_positive: "visibility_ticks m d = Ok delay \<Longrightarrow> delay \<noteq> 0 \<and> delay \<le> 2"
  by (auto simp: visibility_ticks_def split: if_splits)

lemma schedule_event_Ok:
  assumes "schedule_event s e t = (s', Ok n)"
  shows "t < n" "bs_member (fl_notifications s') n" "fl_now s \<le> t"
    and "\<exists>ts. fl_pending_sets s' = fl_pending_sets s @
            [\<lparr>pf_admitted_tick = t, pf_event = e\<lparr>he_timestamp := ts\<rparr>, pf_key = key_from_step (he_step e)\<rparr>] \<and>
          ts = (if he_timestamp e = 0 then n else he_timestamp e)"
    and "fl_notifications s' = bs_insert n (fl_notifications s)"
    and "hf_operation (hs_instruction (he_step e)) = HfSet"
  using assms
  by (auto simp: schedule_event_def Let_def not_less split: if_splits option.splits sum.splits
      dest!: visibility_positive dest: checked_add_less)

lemma schedule_event_Err: "schedule_event s e t = (s', Err r) \<Longrightarrow> s' = s \<and> r \<noteq> Panic"
  by (auto simp: schedule_event_def Let_def split: if_splits option.splits sum.splits)

lemma schedule_set_admits:
  assumes "schedule_set s step t = (s', r)"
  shows "admits t s s'"
proof (cases r)
  case (Inl e)
  with assms show ?thesis by (auto simp: schedule_set_def dest: schedule_event_Err)
next
  case (Inr n)
  with assms have e: "schedule_event s \<lparr>he_step = step, he_timestamp = 0\<rparr> t = (s', Ok n)" by (simp add: schedule_set_def)
  from schedule_event_Ok [OF e] schedule_event_frame [OF e] show ?thesis by (auto simp: admits_def)
qed

lemma release_cube_sets_cases:
  assumes "release_cube_sets q i tick s = (s', r)"
  obtains (empty) "s' = s" "r = Err Panic \<and> \<not> q < length (fl_cube_sets s) \<or>
      r = Ok True \<and> q < length (fl_cube_sets s) \<and>
        (\<forall>p rest. fl_cube_sets s ! q = p # rest \<longrightarrow> i \<le> qc_instruction_id p)"
  | (stuck) p rest e where "q < length (fl_cube_sets s)" "fl_cube_sets s ! q = p # rest" "qc_instruction_id p < i"
      "schedule_set s (qc_step p) tick = (s', Err e)"
      "r = (case e of Fail (AlmostFull _ _) \<Rightarrow> Ok False | _ \<Rightarrow> Err e)"
  | (pop) p rest s1 n where "q < length (fl_cube_sets s)" "fl_cube_sets s ! q = p # rest" "qc_instruction_id p < i"
      "schedule_set s (qc_step p) tick = (s1, Ok n)"
      "release_cube_sets q i tick (s1\<lparr>fl_cube_sets := (fl_cube_sets s1)[q := rest]\<rparr>) = (s', r)"
proof (cases "q < length (fl_cube_sets s) \<and> fl_cube_sets s ! q \<noteq> [] \<and>
      qc_instruction_id (hd (fl_cube_sets s ! q)) < i")
  case True
  then obtain p rest where p: "fl_cube_sets s ! q = p # rest" "qc_instruction_id p < i"
    by (cases "fl_cube_sets s ! q") auto
  obtain s1 r1 where s1: "schedule_set s (qc_step p) tick = (s1, r1)" by fastforce
  show thesis
  proof (cases r1)
    case (Inr n)
    with assms True p s1 show thesis by (intro pop [of p rest s1 n]) (auto simp: release_cube_sets.simps [of q i tick s])
  next
    case (Inl e)
    with assms True p s1 have "s' = s1 \<and> r = (case e of Fail (AlmostFull _ _) \<Rightarrow> Ok False | _ \<Rightarrow> Err e)"
      by (auto simp: release_cube_sets.simps [of q i tick s] split: fault.splits flag_timing_error.splits)
    with True p s1 Inl show thesis by (intro stuck [of p rest e]) auto
  qed
next
  case False
  with assms show thesis
    by (intro empty) (auto simp: release_cube_sets.simps [of q i tick s] split: list.splits if_splits)
qed

text \<open>Induction over the sets that are popped: a reflexive and transitive relation that holds for an
  admission with its pop holds for the whole release.\<close>

lemma release_induct:
  assumes "release_cube_sets q i tick s = (s', r)"
    and refl: "\<And>s. R s s" and trans: "\<And>s1 s2 s3. R s1 s2 \<Longrightarrow> R s2 s3 \<Longrightarrow> R s1 s3"
    and pop: "\<And>s s1 p rest n. q < length (fl_cube_sets s) \<Longrightarrow> fl_cube_sets s ! q = p # rest \<Longrightarrow>
      schedule_set s (qc_step p) tick = (s1, Ok n) \<Longrightarrow> R s (s1\<lparr>fl_cube_sets := (fl_cube_sets s1)[q := rest]\<rparr>)"
  shows "R s s'"
  using assms(1)
proof (induction "length (fl_cube_sets s ! q)" arbitrary: s rule: less_induct)
  case less
  from less(2) show ?case
  proof (cases rule: release_cube_sets_cases)
    case (pop p rest s1 n)
    have "fl_cube_sets s1 = fl_cube_sets s" using pop(4) by (auto simp: schedule_set_def dest: schedule_event_frame)
    with pop(1,2) less(1) [OF _ pop(5)] assms(4) [OF pop(1,2,4)] show ?thesis by (auto intro: trans)
  qed (auto simp: schedule_set_def refl dest!: schedule_event_Err)
qed

lemma release_admits:
  assumes "release_cube_sets q i tick s = (s', r)"
  shows "admits tick s s' \<and> fl_cube_checkpoints s' = fl_cube_checkpoints s"
  by (rule release_induct [OF assms])
    (auto simp: schedule_set_def intro: admits_trans schedule_set_admits [unfolded schedule_set_def] dest: schedule_event_frame)

text \<open>A queue that was advanced has its next checkpoint in the future.\<close>

definition head_after :: "u64 \<Rightarrow> cube_checkpoint list \<Rightarrow> bool" where
  "head_after tick queue \<longleftrightarrow> (\<forall>head rest. queue = head # rest \<longrightarrow> tick < cp_tick head)"

lemma postpone_head_Ok:
  assumes "postpone_head q tick s = (s', Ok u)" "q < length (fl_cube_checkpoints s)"
  shows "head_after tick (fl_cube_checkpoints s' ! q)"
    and "\<exists>x. s' = s\<lparr>fl_cube_checkpoints := (fl_cube_checkpoints s)[q := x]\<rparr>"
proof -
  have "tick < max a b" if "checked_add tick 1 = Some b" for a b
    using checked_add_less [OF that] by (simp add: less_max_iff_disj)
  then show "head_after tick (fl_cube_checkpoints s' ! q)"
    using assms by (auto simp: postpone_head_def head_after_def split: list.splits option.splits)
  show "\<exists>x. s' = s\<lparr>fl_cube_checkpoints := (fl_cube_checkpoints s)[q := x]\<rparr>"
  proof (cases "fl_cube_checkpoints s ! q")
    case Nil
    then have same: "(fl_cube_checkpoints s)[q := []] = fl_cube_checkpoints s" by (metis list_update_id)
    then have "s' = s\<lparr>fl_cube_checkpoints := (fl_cube_checkpoints s)[q := []]\<rparr>"
      unfolding same using assms Nil by (simp add: postpone_head_def)
    then show ?thesis by blast
  qed (use assms in \<open>auto simp: postpone_head_def split: option.splits\<close>)
qed

lemma advance_checkpoint_Ok:
  assumes "advance_checkpoint q tick s = (s', Ok u)"
  shows "q < length (fl_cube_checkpoints s)" "head_after tick (fl_cube_checkpoints s' ! q)" "admits tick s s'"
    and "fl_cube_checkpoints s' = (fl_cube_checkpoints s)[q := fl_cube_checkpoints s' ! q]"
proof -
  show q: "q < length (fl_cube_checkpoints s)" using assms by (auto simp: advance_checkpoint_def split: if_splits)
  have "head_after tick (fl_cube_checkpoints s' ! q) \<and> admits tick s s' \<and>
      fl_cube_checkpoints s' = (fl_cube_checkpoints s)[q := fl_cube_checkpoints s' ! q]"
  proof (cases "fl_cube_checkpoints s ! q = [] \<or> tick < cp_tick (hd (fl_cube_checkpoints s ! q))")
    case True
    then have "s' = s" using assms q by (auto simp: advance_checkpoint_def split: list.splits if_splits)
    with True show ?thesis by (auto simp: head_after_def)
  next
    case False
    then obtain h rest where h: "fl_cube_checkpoints s ! q = h # rest" "cp_tick h \<le> tick"
      by (cases "fl_cube_checkpoints s ! q") auto
    obtain s1 r1 where s1: "release_cube_sets (min q 2) (cp_instruction_id h) tick s = (s1, r1)" by fastforce
    note a = release_admits [OF s1]
    from assms q h s1 obtain released where r1: "r1 = Ok released"
      by (cases r1) (auto simp: advance_checkpoint_def)
    let ?s2 = "if released then s1\<lparr>fl_cube_checkpoints := (fl_cube_checkpoints s1)[q := tl (fl_cube_checkpoints s1 ! q)]\<rparr> else s1"
    have p: "postpone_head q tick ?s2 = (s', Ok u)" using assms q h s1 r1 by (simp add: advance_checkpoint_def)
    have q2: "q < length (fl_cube_checkpoints ?s2)" using a q by simp
    from postpone_head_Ok(2) [OF p q2] obtain x where "s' = ?s2\<lparr>fl_cube_checkpoints := (fl_cube_checkpoints ?s2)[q := x]\<rparr>" by blast
    with postpone_head_Ok(1) [OF p q2] a q show ?thesis by auto
  qed
  then show "head_after tick (fl_cube_checkpoints s' ! q)" "admits tick s s'"
    "fl_cube_checkpoints s' = (fl_cube_checkpoints s)[q := fl_cube_checkpoints s' ! q]" by blast+
qed

lemma advance_queues_Ok:
  assumes "advance_queues qs tick s = (s', Ok u)" "distinct qs"
  shows "admits tick s s' \<and> (\<forall>q\<in>set qs. q < length (fl_cube_checkpoints s) \<and> head_after tick (fl_cube_checkpoints s' ! q)) \<and>
    (\<forall>q. q \<notin> set qs \<longrightarrow> fl_cube_checkpoints s' ! q = fl_cube_checkpoints s ! q)"
  using assms
proof (induction qs arbitrary: s)
  case (Cons q qs)
  from Cons.prems obtain s1 v where s1: "advance_checkpoint q tick s = (s1, Ok v)" "advance_queues qs tick s1 = (s', Ok u)"
    by (auto split: prod.splits sum.splits)
  note q = advance_checkpoint_Ok [OF s1(1)]
  have other: "fl_cube_checkpoints s1 ! j = fl_cube_checkpoints s ! j" if "j \<noteq> q" for j
    using q(4) that by (metis nth_list_update_neq)
  from Cons.IH [OF s1(2)] Cons.prems(2) q other show ?case by (auto simp: admits_def intro: admits_trans)
qed simp

lemma head_after_heads:
  "(\<forall>t\<in>set (checkpoint_heads s). tick < t) \<longleftrightarrow> (\<forall>q<length (fl_cube_checkpoints s). head_after tick (fl_cube_checkpoints s ! q))"
proof -
  have "(\<forall>t\<in>set (checkpoint_heads s). tick < t) \<longleftrightarrow> (\<forall>queue\<in>set (fl_cube_checkpoints s). head_after tick queue)"
    by (auto simp: checkpoint_heads_def head_after_def neq_Nil_conv)
  also have "\<dots> \<longleftrightarrow> (\<forall>q<length (fl_cube_checkpoints s). head_after tick (fl_cube_checkpoints s ! q))"
    by (simp add: all_set_conv_all_nth)
  finally show ?thesis .
qed

definition notification_round ::
  "u64 \<Rightarrow> flag_state \<Rightarrow> flag_state \<times> (flag_timing_error fault + unit)" where
  "notification_round notification s =
     advance_cube_checkpoints notification
       (if bs_member (fl_notifications s) notification
        then deliver_at (s\<lparr>fl_notifications := bs_remove notification (fl_notifications s)\<rparr>) notification
        else s)"

text \<open>The array of checkpoint queues has four entries.\<close>

definition four_queues :: "flag_state \<Rightarrow> bool" where
  "four_queues s \<longleftrightarrow> length (fl_cube_checkpoints s) = 4"

lemma deliver_at_frame [simp]:
  "fl_notifications (deliver_at s t) = fl_notifications s" "fl_cube_checkpoints (deliver_at s t) = fl_cube_checkpoints s"
  "fl_cube_sets (deliver_at s t) = fl_cube_sets s" "fl_cube_waits (deliver_at s t) = fl_cube_waits s"
  "fl_mte_flags (deliver_at s t) = fl_mte_flags s" "fl_now (deliver_at s t) = fl_now s"
  by (simp_all add: deliver_at_def split: prod.splits)

lemma notification_round_progress:
  assumes "next_notification_tick s = Some n" "notification_round n s = (s', Ok u)" "four_queues s"
  shows "\<forall>t\<in>wake_ticks s'. n < t" "four_queues s'"
proof -
  let ?s1 = "if bs_member (fl_notifications s) n
    then deliver_at (s\<lparr>fl_notifications := bs_remove n (fl_notifications s)\<rparr>) n else s"
  have adv: "advance_queues [0, 1, 2, 3] n ?s1 = (s', Ok u)"
    using assms(2) unfolding notification_round_def advance_cube_checkpoints_def .
  have four: "length (fl_cube_checkpoints ?s1) = 4" using assms(3) by (simp add: four_queues_def)
  from advance_queues_Ok [OF adv] have a: "admits n ?s1 s'"
    and heads: "\<And>q. q \<in> {0, 1, 2, 3} \<Longrightarrow> head_after n (fl_cube_checkpoints s' ! q)" by auto
  from a four show four': "four_queues s'" by (simp add: admits_def four_queues_def)
  have "head_after n (fl_cube_checkpoints s' ! q)" if "q < length (fl_cube_checkpoints s')" for q
  proof -
    from that four' have "q \<in> {0, 1, 2, 3}" by (auto simp: four_queues_def)
    then show ?thesis by (rule heads)
  qed
  then have "\<forall>t\<in>set (checkpoint_heads s'). n < t" by (simp add: head_after_heads)
  moreover have "n < t" if "t \<in> set (bs_elements (fl_notifications s'))" for t
  proof -
    from that a have "bs_member (fl_notifications ?s1) t \<or> n < t" by (auto simp: admits_def bs_member_elements)
    moreover have "n \<le> t \<and> t \<noteq> n" if "bs_member (fl_notifications ?s1) t"
      using that assms(1) by (auto simp: next_notification_Some wake_ticks_def bs_member_elements [symmetric] split: if_splits)
    ultimately show ?thesis by auto
  qed
  ultimately show "\<forall>t\<in>wake_ticks s'. n < t" by (auto simp: wake_ticks_def)
qed

definition notification_rounds :: "((u64 \<times> flag_state) \<times> (u64 \<times> flag_state)) set" where
  "notification_rounds = measure (\<lambda>(tick, s). case next_notification_tick s of
     Some n \<Rightarrow> if n \<le> tick then Suc (unat tick - unat n) else 0 | None \<Rightarrow> 0)"

lemma notification_round_decreases:
  assumes "next_notification_tick s = Some n" "n \<le> tick" "length (fl_cube_checkpoints s) = 4"
    and "(s', Ok u) = notification_round n s"
  shows "((tick, s'), (tick, s)) \<in> notification_rounds"
proof (cases "next_notification_tick s'")
  case (Some m)
  have "\<forall>t\<in>wake_ticks s'. n < t"
    using assms notification_round_progress(1) [of s n s' u] by (simp add: four_queues_def)
  with Some have "n < m" by (simp add: next_notification_Some)
  then have "unat n < unat m" by (simp add: word_less_nat_alt)
  moreover have "unat n \<le> unat tick" using assms(2) by (simp add: word_le_nat_alt)
  ultimately show ?thesis using assms(1,2) Some by (auto simp: notification_rounds_def word_le_nat_alt)
qed (use assms in \<open>simp add: notification_rounds_def\<close>)

text \<open>The loop of \<open>advance_to\<close>; the test of the number of queues stands for the type of the array.\<close>

function advance_notifications ::
  "u64 \<Rightarrow> flag_state \<Rightarrow> flag_state \<times> (flag_timing_error fault + unit)" where
  "advance_notifications tick s =
     (if length (fl_cube_checkpoints s) \<noteq> 4 then (s, Err Panic)
      else case next_notification_tick s of
        None \<Rightarrow> (s, Ok ())
      | Some notification \<Rightarrow>
          if notification \<le> tick
          then case notification_round notification s of
              (s', Err e) \<Rightarrow> (s', Err e)
            | (s', Ok _) \<Rightarrow> advance_notifications tick s'
          else (s, Ok ()))"
  by auto
termination
  by (relation notification_rounds) (simp add: notification_rounds_def, auto intro: notification_round_decreases)

declare advance_notifications.simps [simp del]

definition flag_advance_to :: "u64 \<Rightarrow> flag_state \<Rightarrow> flag_state \<times> (flag_timing_error fault + unit)" where
  "flag_advance_to tick s =
     (if tick < fl_now s then (s, Err (Fail (FlagTimeReversed tick (fl_now s))))
      else case advance_notifications tick s of
        (s', Err e) \<Rightarrow> (s', Err e)
      | (s', Ok _) \<Rightarrow> (s'\<lparr>fl_now := tick\<rparr>, Ok ()))"

section \<open>Waits\<close>

definition pending_deliveries :: "flag_state \<Rightarrow> hardware_flag_delivery list" where
  "pending_deliveries s =
     map (\<lambda>pending. \<lparr>hd_admitted_tick = pf_admitted_tick pending,
            hd_timestamp = he_timestamp (pf_event pending),
            hd_destination_pipe_code = fst (pf_key pending),
            hd_memory = hf_memory (hs_instruction (he_step (pf_event pending))),
            hd_event_id = snd (snd (pf_key pending))\<rparr>) (fl_pending_sets s)"

definition first_notification :: "flag_state \<Rightarrow> pending_flag \<Rightarrow> u64 option" where
  "first_notification s pending =
     find (\<lambda>t. max (pf_admitted_tick pending) (he_timestamp (pf_event pending)) \<le> t)
       (bs_elements (fl_notifications s))"

definition next_delivery_tick :: "flag_state \<Rightarrow> flag_key \<Rightarrow> u64 option" where
  "next_delivery_tick s key =
     min_of (List.map_filter (first_notification s)
       (filter (\<lambda>pending. pf_key pending = key) (fl_pending_sets s)))"

definition enqueue_cube_wait ::
  "flag_state \<Rightarrow> u64 \<Rightarrow> hardware_flag_step \<Rightarrow> flag_state \<times> (flag_timing_error fault + unit)" where
  "enqueue_cube_wait s instruction_id step =
     (if hf_operation (hs_instruction step) \<noteq> HfWait then (s, Err (Fail OperationMismatch))
      else if \<not> newer_than_last instruction_id (fl_cube_waits s) then (s, Err (Fail InstructionOrder))
      else (s\<lparr>fl_cube_waits := fl_cube_waits s @
               [\<lparr>qc_instruction_id = instruction_id, qc_step = step\<rparr>]\<rparr>, Ok ()))"

lemma consume_wait_waits [simp]: "fl_cube_waits (fst (consume_wait s step)) = fl_cube_waits s"
  by (simp add: consume_wait_def Let_def split: option.splits)

function gate_waits ::
  "u64 \<Rightarrow> u64 \<Rightarrow> flag_state \<Rightarrow> flag_state \<times> (flag_timing_error fault + u64 option)" where
  "gate_waits tick instruction_id s =
     (case fl_cube_waits s of
        [] \<Rightarrow> (s, Ok None)
      | wait # rest \<Rightarrow>
          if \<not> qc_instruction_id wait < instruction_id then (s, Ok None)
          else if key_count s (key_from_step (qc_step wait)) = 0
          then case next_delivery_tick s (key_from_step (qc_step wait)) of
              Some resume \<Rightarrow> (s, Ok (Some resume))
            | None \<Rightarrow>
                (case checked_add tick 1 of
                   None \<Rightarrow> (s, Err (Fail FlagTimeOverflow))
                 | Some resume \<Rightarrow> (s, Ok (Some resume)))
          else case consume_wait s (qc_step wait) of
              (s', Err e) \<Rightarrow> (s', Err e)
            | (s', Ok _) \<Rightarrow> gate_waits tick instruction_id (s'\<lparr>fl_cube_waits := tl (fl_cube_waits s')\<rparr>))"
  by auto
termination
  by (relation "measure (\<lambda>(_, _, s). length (fl_cube_waits s))", simp)
    (metis (no_types, lifting) case_prod_conv consume_wait_waits fst_conv in_measure length_Cons lessI list.sel(3)
      flag_state.select_convs(5) flag_state.surjective flag_state.update_convs(5))

declare gate_waits.simps [simp del]

definition gate_cube_instruction ::
  "flag_state \<Rightarrow> u64 \<Rightarrow> u64 \<Rightarrow> flag_state \<times> (flag_timing_error fault + u64 option)" where
  "gate_cube_instruction s tick instruction_id =
     (case flag_advance_to tick s of
        (s', Err e) \<Rightarrow> (s', Err e)
      | (s', Ok _) \<Rightarrow> gate_waits tick instruction_id s')"

definition pending_cube_wait_count :: "flag_state \<Rightarrow> nat" where
  "pending_cube_wait_count s = length (fl_cube_waits s)"

definition has_pending_cube_flag :: "flag_state \<Rightarrow> hardware_flag_step \<Rightarrow> bool" where
  "has_pending_cube_flag s step =
     list_ex (\<lambda>pending.
         hf_source_pipe (hs_instruction (qc_step pending)) = hf_source_pipe (hs_instruction step) \<and>
         key_from_step (qc_step pending) = key_from_step step)
       (fl_cube_waits s @ concat (fl_cube_sets s))"

definition wait_ready_tick :: "flag_state \<Rightarrow> hardware_flag_step \<Rightarrow> flag_timing_error fault + u64 option" where
  "wait_ready_tick s step =
     (if hf_operation (hs_instruction step) \<noteq> HfWait then Err (Fail OperationMismatch)
      else if key_count s (key_from_step step) \<noteq> 0 then Ok (Some (fl_now s))
      else Ok (next_delivery_tick s (key_from_step step)))"

section \<open>The invariant\<close>

text \<open>A flag that can be admitted: a set whose memory and destination have a visibility delay.\<close>

definition flag_supported :: "hardware_flag_step \<Rightarrow> bool" where
  "flag_supported step \<longleftrightarrow> hf_operation (hs_instruction step) = HfSet \<and>
     is_ok (visibility_ticks (hf_memory (hs_instruction step)) (hf_destination_pipe_code (hs_instruction step)))"

definition counters_ok :: "(flag_key, u8) btree_map \<Rightarrow> bool" where
  "counters_ok m \<longleftrightarrow> bm_ok m \<and> (\<forall>(key, c)\<in>set m. 0 < c \<and> c \<le> hardware_flag_capacity)"

definition ordered_queue :: "queued_cube_flag list \<Rightarrow> bool" where
  "ordered_queue queue \<longleftrightarrow> sorted_wrt (<) (map qc_instruction_id queue)"

definition sets_ok :: "flag_state \<Rightarrow> bool" where
  "sets_ok s \<longleftrightarrow> length (fl_cube_sets s) = 3 \<and>
     (\<forall>queue\<in>set (fl_cube_sets s). ordered_queue queue \<and> (\<forall>p\<in>set queue. flag_supported (qc_step p)))"

definition waits_ok :: "flag_state \<Rightarrow> bool" where
  "waits_ok s \<longleftrightarrow> ordered_queue (fl_cube_waits s) \<and>
     (\<forall>p\<in>set (fl_cube_waits s). hf_operation (hs_instruction (qc_step p)) = HfWait)"

definition flags_ok :: "flag_state \<Rightarrow> bool" where
  "flags_ok s \<longleftrightarrow> counters_ok (fl_counters s) \<and> sets_ok s \<and> waits_ok s \<and> four_queues s \<and>
     (\<forall>t\<in>wake_ticks s. fl_now s \<le> t) \<and>
     (\<forall>p\<in>set (fl_pending_sets s). pf_key p = key_from_step (he_step (pf_event p)))"

lemma flags_ok_default: "flags_ok flag_state_default"
  by (simp add: flags_ok_def counters_ok_def sets_ok_def waits_ok_def four_queues_def wake_ticks_def ordered_queue_def
      flag_state_default_def bs_elements_def bm_empty_def checkpoint_heads_def numeral_eq_Suc)

lemma key_count_bounded: "counters_ok (fl_counters s) \<Longrightarrow> key_count s key \<le> hardware_flag_capacity"
  by (auto simp: counters_ok_def key_count_def hardware_flag_capacity_def split: option.splits dest: bm_get_Some_mem)

lemma counters_ok_insert:
  "counters_ok m \<Longrightarrow> 0 < c \<Longrightarrow> c \<le> hardware_flag_capacity \<Longrightarrow> counters_ok (bm_insert key c m)"
  by (auto simp: counters_ok_def dest!: mem_bm_insert)

lemma counters_ok_remove: "counters_ok m \<Longrightarrow> counters_ok (bm_remove key m)"
  unfolding counters_ok_def by (simp add: bm_ok_remove) (auto simp: bm_remove_def)

lemma counters_ok_consume:
  "counters_ok (fl_counters s) \<Longrightarrow> counters_ok (fl_counters (fst (consume_wait s step)))"
proof (cases "bm_get (fl_counters s) (key_from_step step)")
  case (Some c)
  assume ok: "counters_ok (fl_counters s)"
  with Some have "c \<le> hardware_flag_capacity" by (auto simp: counters_ok_def dest: bm_get_Some_mem)
  then have "c - 1 \<le> hardware_flag_capacity" if "c \<noteq> 0" using that by (simp add: word_le_nat_alt unat_minus_one)
  moreover have "0 < c - 1 \<longleftrightarrow> c - 1 \<noteq> 0" by (simp add: word_gt_0)
  ultimately have c: "c - 1 \<le> hardware_flag_capacity" "0 < c - 1 \<longleftrightarrow> c - 1 \<noteq> 0" if "c \<noteq> 0" using that by auto
  with ok Some show ?thesis
    by (auto simp: consume_wait_def Let_def counters_ok_remove intro!: counters_ok_insert simp del: word_neq_0_conv)
qed (simp add: consume_wait_def Let_def)

text \<open>The number of tokens: visible, admitted, held and discarded.\<close>

definition counter_sum :: "(flag_key, u8) btree_map \<Rightarrow> nat" where
  "counter_sum m = sum_list (map (\<lambda>(_, c). unat c) m)"

definition token_total :: "flag_state \<Rightarrow> nat" where
  "token_total s = counter_sum (fl_counters s) + length (fl_pending_sets s) + pending_cube_set_count s +
     unat (fl_saturated_sets s)"

lemma counter_sum_insert:
  "bm_ok m \<Longrightarrow> counter_sum (bm_insert key c m) + (case bm_get m key of Some d \<Rightarrow> unat d | None \<Rightarrow> 0) =
     counter_sum m + unat c"
proof (induction m)
  case (Cons e m)
  obtain k d where e: "e = (k, d)" by fastforce
  have none: "bm_get m key = None" if "key < k"
  proof (rule ccontr)
    assume "bm_get m key \<noteq> None"
    then obtain x where "(key, x) \<in> set m" by (auto dest: bm_get_Some_mem)
    with Cons.prems e that show False by (auto simp: bm_ok_def)
  qed
  have "bm_ok m" using Cons.prems by (cases e) (simp add: bm_ok_def)
  with Cons.IH e none show ?case by (auto simp: counter_sum_def)
qed (simp add: counter_sum_def)

lemma deliver_token_ok:
  assumes "counters_ok m" "unat saturated + 1 < 2 ^ 64" "deliver_token key (m, saturated) = (m', saturated')"
  shows "counters_ok m' \<and> counter_sum m' + unat saturated' = counter_sum m + unat saturated + 1 \<and>
    unat saturated \<le> unat saturated'"
proof -
  let ?c = "case bm_get m key of Some c \<Rightarrow> c | None \<Rightarrow> 0"
  have bound: "?c \<le> hardware_flag_capacity" using assms(1)
    by (auto simp: counters_ok_def hardware_flag_capacity_def split: option.splits dest: bm_get_Some_mem)
  have old: "(case bm_get m key of Some d \<Rightarrow> unat d | None \<Rightarrow> 0) = unat ?c" by (simp split: option.splits)
  have sum: "counter_sum (bm_insert key c m) + unat ?c = counter_sum m + unat c" for c
    using counter_sum_insert [of m key c] assms(1) unfolding old by (simp add: counters_ok_def)
  show ?thesis
  proof (cases "hardware_flag_capacity \<le> ?c")
    case True
    then have "?c = hardware_flag_capacity" using bound by simp
    with assms True sum [of ?c] show ?thesis
      by (auto simp: deliver_token_def Let_def saturating_add_def unat_add_exact hardware_flag_capacity_def
          intro!: counters_ok_insert)
  next
    case False
    then have c: "unat ?c < 63" by (simp add: hardware_flag_capacity_def word_le_nat_alt)
    then have "unat (?c + 1) = unat ?c + 1" by (simp add: unat_add_exact)
    with assms False sum [of "?c + 1"] c show ?thesis
      by (auto simp: deliver_token_def Let_def hardware_flag_capacity_def word_le_nat_alt word_less_nat_alt
          intro!: counters_ok_insert)
  qed
qed

lemma deliver_pending_ok:
  assumes "deliver_pending tick ps (m, saturated) = (kept, m', saturated')" "counters_ok m"
    and "unat saturated + length ps < 2 ^ 64"
  shows "counters_ok m' \<and> counter_sum m' + length kept + unat saturated' = counter_sum m + length ps + unat saturated \<and>
    kept = filter (\<lambda>p. \<not> due tick p) ps"
  using assms
proof (induction ps arbitrary: m saturated kept)
  case (Cons p ps)
  show ?case
  proof (cases "due tick p")
    case True
    obtain m1 sat1 where d: "deliver_token (pf_key p) (m, saturated) = (m1, sat1)" by fastforce
    from deliver_token_ok [OF Cons.prems(2) _ d] Cons.prems(3)
    have one: "counters_ok m1" "counter_sum m1 + unat sat1 = counter_sum m + unat saturated + 1" by auto
    have "unat sat1 \<le> unat saturated + 1"
      using d Cons.prems(3) by (auto simp: deliver_token_def Let_def saturating_add_def unat_add_exact split: if_splits)
    with Cons.IH [of m1 sat1 kept] Cons.prems True d one show ?thesis by auto
  next
    case False
    then show ?thesis using Cons.IH [of m saturated] Cons.prems by (auto split: prod.splits)
  qed
qed simp

text \<open>Key by key: the sets that a core holds for a key, those and the admitted ones that wait for it, and
  how they become visible. Every set that stops waiting for a key makes one token of that key
  visible, up to the capacity of the counter, and only a held set is admitted.\<close>

definition held_sets :: "flag_state \<Rightarrow> flag_key \<Rightarrow> nat" where
  "held_sets s key = length (filter (\<lambda>p. key_from_step (qc_step p) = key) (concat (fl_cube_sets s)))"

definition waiting_sets :: "flag_state \<Rightarrow> flag_key \<Rightarrow> nat" where
  "waiting_sets s key = length (filter (\<lambda>p. pf_key p = key) (fl_pending_sets s)) + held_sets s key"

definition delivers :: "flag_state \<Rightarrow> flag_state \<Rightarrow> bool" where
  "delivers s s' \<longleftrightarrow> (\<forall>key. held_sets s' key \<le> held_sets s key \<and> waiting_sets s' key \<le> waiting_sets s key \<and>
     unat (key_count s' key) = min 63 (unat (key_count s key) + (waiting_sets s key - waiting_sets s' key)) \<and>
     (held_sets s key = 0 \<longrightarrow> (\<forall>p\<in>set (fl_pending_sets s'). pf_key p = key \<longrightarrow> p \<in> set (fl_pending_sets s))))"

lemma delivers_trans: "delivers s1 s2 \<Longrightarrow> delivers s2 s3 \<Longrightarrow> delivers s1 s3"
  unfolding delivers_def
proof (intro allI)
  fix key
  assume a: "\<forall>key. held_sets s2 key \<le> held_sets s1 key \<and> waiting_sets s2 key \<le> waiting_sets s1 key \<and>
     unat (key_count s2 key) = min 63 (unat (key_count s1 key) + (waiting_sets s1 key - waiting_sets s2 key)) \<and>
     (held_sets s1 key = 0 \<longrightarrow> (\<forall>p\<in>set (fl_pending_sets s2). pf_key p = key \<longrightarrow> p \<in> set (fl_pending_sets s1)))"
    and b: "\<forall>key. held_sets s3 key \<le> held_sets s2 key \<and> waiting_sets s3 key \<le> waiting_sets s2 key \<and>
     unat (key_count s3 key) = min 63 (unat (key_count s2 key) + (waiting_sets s2 key - waiting_sets s3 key)) \<and>
     (held_sets s2 key = 0 \<longrightarrow> (\<forall>p\<in>set (fl_pending_sets s3). pf_key p = key \<longrightarrow> p \<in> set (fl_pending_sets s2)))"
  from a [rule_format, of key] b [rule_format, of key]
  show "held_sets s3 key \<le> held_sets s1 key \<and> waiting_sets s3 key \<le> waiting_sets s1 key \<and>
     unat (key_count s3 key) = min 63 (unat (key_count s1 key) + (waiting_sets s1 key - waiting_sets s3 key)) \<and>
     (held_sets s1 key = 0 \<longrightarrow> (\<forall>p\<in>set (fl_pending_sets s3). pf_key p = key \<longrightarrow> p \<in> set (fl_pending_sets s1)))"
    by (intro conjI) (simp_all add: min_def split: if_splits)
qed

lemma delivers_cong:
  "fl_cube_sets t' = fl_cube_sets s' \<Longrightarrow> fl_pending_sets t' = fl_pending_sets s' \<Longrightarrow>
     fl_counters t' = fl_counters s' \<Longrightarrow> delivers s t' = delivers s s'"
  by (simp add: delivers_def held_sets_def waiting_sets_def key_count_def)

definition token_count :: "(flag_key, u8) btree_map \<Rightarrow> flag_key \<Rightarrow> nat" where
  "token_count m key = (case bm_get m key of Some c \<Rightarrow> unat c | None \<Rightarrow> 0)"

lemma token_count_bounded: "counters_ok m \<Longrightarrow> token_count m key \<le> 63"
  by (auto simp: counters_ok_def token_count_def hardware_flag_capacity_def word_le_nat_alt split: option.splits
      dest: bm_get_Some_mem)

lemma key_count_tokens: "unat (key_count s key) = token_count (fl_counters s) key"
  by (simp add: key_count_def token_count_def split: option.split)

lemma deliver_token_count:
  assumes "counters_ok m" "deliver_token key (m, saturated) = (m', saturated')"
  shows "token_count m' key' = (if key' = key then min 63 (token_count m key + 1) else token_count m key')"
proof -
  let ?c = "case bm_get m key of Some c \<Rightarrow> c | None \<Rightarrow> 0"
  have c: "unat ?c = token_count m key" by (simp add: token_count_def split: option.split)
  have b: "token_count m key \<le> 63" by (rule token_count_bounded [OF assms(1)])
  show ?thesis
  proof (cases "hardware_flag_capacity \<le> ?c")
    case True
    then have "token_count m key = 63" using b c by (simp add: hardware_flag_capacity_def word_le_nat_alt)
    moreover have "m' = bm_insert key ?c m" using assms(2) True by (simp add: deliver_token_def Let_def)
    ultimately show ?thesis using c by (simp add: token_count_def)
  next
    case False
    then have less: "token_count m key < 63" using c by (simp add: hardware_flag_capacity_def word_le_nat_alt)
    then have "unat (?c + 1) = token_count m key + 1" using c by (simp add: unat_add_exact)
    moreover have "m' = bm_insert key (?c + 1) m" using assms(2) False by (simp add: deliver_token_def Let_def)
    ultimately show ?thesis using less by (simp add: token_count_def)
  qed
qed

lemma deliver_pending_count:
  assumes "deliver_pending tick ps (m, saturated) = (kept, m', saturated')" "counters_ok m"
    and "unat saturated + length ps < 2 ^ 64"
  shows "token_count m' key = min 63 (token_count m key + length (filter (\<lambda>p. due tick p \<and> pf_key p = key) ps))"
  using assms
proof (induction ps arbitrary: m saturated kept)
  case Nil
  then show ?case using token_count_bounded [of m key] by (simp add: min_def)
next
  case (Cons p ps)
  show ?case
  proof (cases "due tick p")
    case True
    obtain m1 sat1 where d: "deliver_token (pf_key p) (m, saturated) = (m1, sat1)" by fastforce
    from deliver_token_ok [OF Cons.prems(2) _ d] Cons.prems(3) have one: "counters_ok m1" by auto
    have "unat sat1 \<le> unat saturated + 1"
      using d Cons.prems(3) by (auto simp: deliver_token_def Let_def saturating_add_def unat_add_exact split: if_splits)
    with Cons.IH [of m1 sat1 kept] Cons.prems True d one deliver_token_count [OF Cons.prems(2) d, of key]
    show ?thesis by (auto simp: min_def)
  next
    case False
    then show ?thesis using Cons.IH [of m saturated] Cons.prems by (auto split: prod.splits)
  qed
qed

text \<open>What a step of the loop keeps at a tick: everything in the invariant but the wake ticks, and the
  tokens, key by key and in total.\<close>

definition core_ok :: "flag_state \<Rightarrow> bool" where
  "core_ok s \<longleftrightarrow> counters_ok (fl_counters s) \<and> sets_ok s \<and> waits_ok s \<and> four_queues s \<and> token_total s < 2 ^ 64 \<and>
     (\<forall>p\<in>set (fl_pending_sets s). pf_key p = key_from_step (he_step (pf_event p)))"

definition keeps_tokens :: "flag_state \<Rightarrow> flag_state \<Rightarrow> bool" where
  "keeps_tokens s s' \<longleftrightarrow> (core_ok s \<longrightarrow> core_ok s' \<and> token_total s' = token_total s \<and> delivers s s')"

lemma delivers_refl: "core_ok s \<Longrightarrow> delivers s s"
  using token_count_bounded [of "fl_counters s"] by (simp add: delivers_def core_ok_def key_count_tokens)

lemma keeps_tokens_refl [simp]: "keeps_tokens s s"
  by (simp add: keeps_tokens_def delivers_refl)

lemma keeps_tokens_trans: "keeps_tokens s1 s2 \<Longrightarrow> keeps_tokens s2 s3 \<Longrightarrow> keeps_tokens s1 s3"
  using delivers_trans by (auto simp: keeps_tokens_def)

lemma core_ok_cong:
  "fl_cube_sets t = fl_cube_sets s \<Longrightarrow> fl_pending_sets t = fl_pending_sets s \<Longrightarrow> fl_counters t = fl_counters s \<Longrightarrow>
     fl_cube_waits t = fl_cube_waits s \<Longrightarrow> length (fl_cube_checkpoints t) = length (fl_cube_checkpoints s) \<Longrightarrow>
     fl_saturated_sets t = fl_saturated_sets s \<Longrightarrow> core_ok t = core_ok s \<and> token_total t = token_total s"
  by (simp add: core_ok_def sets_ok_def waits_ok_def four_queues_def token_total_def pending_cube_set_count_def)

lemma keeps_tokens_notifications [simp]: "keeps_tokens s (s'\<lparr>fl_notifications := ns\<rparr>) = keeps_tokens s s'"
  using core_ok_cong [of "s'\<lparr>fl_notifications := ns\<rparr>" s'] delivers_cong [of "s'\<lparr>fl_notifications := ns\<rparr>" s']
  by (simp add: keeps_tokens_def)

lemma keeps_tokens_checkpoints [simp]:
  "length ys = length (fl_cube_checkpoints s') \<Longrightarrow> keeps_tokens s (s'\<lparr>fl_cube_checkpoints := ys\<rparr>) = keeps_tokens s s'"
  using core_ok_cong [of "s'\<lparr>fl_cube_checkpoints := ys\<rparr>" s'] delivers_cong [of "s'\<lparr>fl_cube_checkpoints := ys\<rparr>" s']
  by (simp add: keeps_tokens_def)

lemma length_filter_split:
  "length (filter P xs) = length (filter (\<lambda>x. Q x \<and> P x) xs) + length (filter P (filter (\<lambda>x. \<not> Q x) xs))"
  by (induction xs) auto

lemma deliver_at_keeps: "keeps_tokens s (deliver_at s tick)"
proof -
  obtain kept m sat where d: "deliver_pending tick (fl_pending_sets s) (fl_counters s, fl_saturated_sets s) = (kept, m, sat)"
    by (cases "deliver_pending tick (fl_pending_sets s) (fl_counters s, fl_saturated_sets s)") auto
  show ?thesis
  proof (unfold keeps_tokens_def, rule impI)
    assume core: "core_ok s"
    then have c: "counters_ok (fl_counters s)" "unat (fl_saturated_sets s) + length (fl_pending_sets s) < 2 ^ 64"
      by (simp_all add: core_ok_def token_total_def)
    note ok = deliver_pending_ok [OF d c]
    have s': "deliver_at s tick = s\<lparr>fl_counters := m, fl_pending_sets := filter (\<lambda>p. \<not> due tick p) (fl_pending_sets s),
        fl_saturated_sets := sat\<rparr>" using d ok by (simp add: deliver_at_def)
    have "waiting_sets s key = waiting_sets (deliver_at s tick) key +
        length (filter (\<lambda>p. due tick p \<and> pf_key p = key) (fl_pending_sets s))" for key
      using length_filter_split [of "\<lambda>p. pf_key p = key" "fl_pending_sets s" "due tick"]
      by (simp add: s' waiting_sets_def held_sets_def)
    then have "delivers s (deliver_at s tick)"
      using deliver_pending_count [OF d c] by (simp add: delivers_def key_count_tokens) (simp add: s' held_sets_def)
    with ok core d show "core_ok (deliver_at s tick) \<and> token_total (deliver_at s tick) = token_total s \<and>
        delivers s (deliver_at s tick)"
      by (auto simp: core_ok_def deliver_at_def token_total_def pending_cube_set_count_def sets_ok_def waits_ok_def four_queues_def)
  qed
qed

lemma sum_list_update:
  "i < length xs \<Longrightarrow> sum_list (xs[i := y]) + xs ! i = sum_list xs + y" for xs :: "nat list"
  by (induction xs arbitrary: i) (auto split: nat.splits)

lemma held_sets_sum:
  "held_sets s key = sum_list (map (\<lambda>queue. length (filter (\<lambda>p. key_from_step (qc_step p) = key) queue)) (fl_cube_sets s))"
  by (simp add: held_sets_def filter_concat length_concat o_def)

lemma release_pop_keeps:
  assumes "q < length (fl_cube_sets s)" "fl_cube_sets s ! q = p # rest" "schedule_set s (qc_step p) tick = (s1, Ok n)"
  shows "keeps_tokens s (s1\<lparr>fl_cube_sets := (fl_cube_sets s1)[q := rest]\<rparr>)"
proof -
  let ?s = "s1\<lparr>fl_cube_sets := (fl_cube_sets s1)[q := rest]\<rparr>"
  from assms(3) have e: "schedule_event s \<lparr>he_step = qc_step p, he_timestamp = 0\<rparr> tick = (s1, Ok n)"
    by (simp add: schedule_set_def)
  note f = schedule_event_frame [OF e] and p = schedule_event_Ok(4) [OF e]
  have "sum_list ((map length (fl_cube_sets s))[q := length rest]) + length (p # rest) =
      sum_list (map length (fl_cube_sets s)) + length rest"
    using sum_list_update [of q "map length (fl_cube_sets s)" "length rest"] assms(1,2) by simp
  then have count: "pending_cube_set_count ?s + 1 = pending_cube_set_count s"
    using f by (simp add: pending_cube_set_count_def map_update)
  have held: "held_sets ?s key + (if key_from_step (qc_step p) = key then 1 else 0) = held_sets s key" for key
    using sum_list_update [of q "map (\<lambda>queue. length (filter (\<lambda>p. key_from_step (qc_step p) = key) queue)) (fl_cube_sets s)"
        "length (filter (\<lambda>p. key_from_step (qc_step p) = key) rest)"] assms(1,2) f
    by (simp add: held_sets_sum map_update split: if_splits)
  have wait: "waiting_sets ?s key = waiting_sets s key" for key
    using p held [of key] by (auto simp: waiting_sets_def split: if_splits)
  have "fl_cube_sets s ! q \<in> set (fl_cube_sets s)" using assms(1) by simp
  then have sets: "sets_ok s \<Longrightarrow> sets_ok ?s"
    using f assms(2) by (force simp: sets_ok_def ordered_queue_def dest!: mem_update)
  have "delivers s ?s" if "core_ok s"
  proof -
    have "held_sets ?s key \<le> held_sets s key" for key using held [of key] by simp
    moreover have "key_count ?s key = key_count s key" for key using f by (simp add: key_count_def)
    moreover have "p' \<in> set (fl_pending_sets s)"
      if "held_sets s (pf_key p') = 0" "p' \<in> set (fl_pending_sets ?s)" for p'
      using that p held [of "pf_key p'"] by (auto split: if_splits)
    ultimately show ?thesis
      using wait token_count_bounded [of "fl_counters s"] that
      by (auto simp: delivers_def core_ok_def key_count_tokens)
  qed
  with p count sets f show ?thesis
    by (auto simp: keeps_tokens_def core_ok_def token_total_def four_queues_def waits_ok_def)
qed

lemma release_keeps: "release_cube_sets q i tick s = (s', r) \<Longrightarrow> keeps_tokens s s'"
  by (rule release_induct) (auto intro: keeps_tokens_trans release_pop_keeps)

lemma postpone_head_keeps:
  "keeps_tokens s (fst (postpone_head q tick s))"
  by (simp add: postpone_head_def split: list.splits option.splits)

lemma advance_checkpoint_keeps: "keeps_tokens s (fst (advance_checkpoint q tick s))"
proof -
  obtain s1 r where s1: "release_cube_sets (min q 2) (cp_instruction_id (hd (fl_cube_checkpoints s ! q))) tick s = (s1, r)"
    by fastforce
  have k: "keeps_tokens s s2 \<Longrightarrow> keeps_tokens s (fst (postpone_head q tick s2))" for s2
    by (rule keeps_tokens_trans [OF _ postpone_head_keeps])
  show ?thesis using release_keeps [OF s1] s1 k
    by (auto simp: advance_checkpoint_def split: list.splits sum.splits)
qed

lemma advance_queues_keeps: "keeps_tokens s (fst (advance_queues qs tick s))"
proof (induction qs arbitrary: s)
  case (Cons q qs)
  obtain s1 r where s1: "advance_checkpoint q tick s = (s1, r)" by fastforce
  with advance_checkpoint_keeps [of s q tick] have "keeps_tokens s s1" by simp
  with Cons.IH [of s1] s1 show ?case by (auto split: sum.splits intro: keeps_tokens_trans)
qed simp

lemma notification_round_keeps: "keeps_tokens s (fst (notification_round n s))"
proof -
  have "keeps_tokens s (if bs_member (fl_notifications s) n
      then deliver_at (s\<lparr>fl_notifications := bs_remove n (fl_notifications s)\<rparr>) n else s)"
    using deliver_at_keeps [of "s\<lparr>fl_notifications := bs_remove n (fl_notifications s)\<rparr>" n]
    by (auto intro: keeps_tokens_trans [of _ "s\<lparr>fl_notifications := bs_remove n (fl_notifications s)\<rparr>"])
  then show ?thesis unfolding notification_round_def advance_cube_checkpoints_def
    by (rule keeps_tokens_trans [OF _ advance_queues_keeps])
qed

lemma advance_notifications_keeps: "keeps_tokens s (fst (advance_notifications tick s))"
proof (induction tick s rule: advance_notifications.induct)
  case (1 tick s)
  show ?case
  proof (cases "\<exists>n s1 u. next_notification_tick s = Some n \<and> n \<le> tick \<and> length (fl_cube_checkpoints s) = 4 \<and>
      notification_round n s = (s1, Ok u)")
    case True
    then obtain n s1 u where n: "next_notification_tick s = Some n" "n \<le> tick" "length (fl_cube_checkpoints s) = 4"
      "notification_round n s = (s1, Ok u)" by blast
    have "keeps_tokens s1 (fst (advance_notifications tick s1))" using 1 n by auto
    with notification_round_keeps [of s n] n show ?thesis
      by (auto simp: advance_notifications.simps [of tick s] intro: keeps_tokens_trans)
  next
    case False
    have "keeps_tokens s s1" if "notification_round n s = (s1, r)" for n s1 r
      using notification_round_keeps [of s n] that by simp
    with False show ?thesis
      by (auto simp: advance_notifications.simps [of tick s] split: option.splits prod.splits sum.splits)
  qed
qed

section \<open>Time advances\<close>

lemma schedule_set_total:
  assumes "flag_supported step" "fl_now s \<le> t" "unat t + 2 < 2 ^ 64" "schedule_set s step t = (s', Err e)"
  shows "\<exists>i c. e = Fail (AlmostFull i c)"
proof -
  obtain delay where d: "visibility_ticks (hf_memory (hs_instruction step)) (hf_destination_pipe_code (hs_instruction step)) = Ok delay"
    using assms(1) by (auto simp: flag_supported_def is_ok_def split: sum.splits)
  from visibility_positive [OF this] have "unat delay \<le> 2" by (simp add: word_le_nat_alt)
  with assms(3) have "checked_add t delay = Some (t + delay)" by (simp add: checked_add_def)
  with assms d show ?thesis
    by (auto simp: schedule_set_def schedule_event_def Let_def flag_supported_def split: if_splits)
qed

lemma release_total:
  assumes "release_cube_sets q i t s = (s', r)" "q < length (fl_cube_sets s)"
    and "\<forall>p\<in>set (fl_cube_sets s ! q). flag_supported (qc_step p)" "fl_now s \<le> t" "unat t + 2 < 2 ^ 64"
  shows "\<exists>b. r = Ok b"
  using assms
proof (induction "length (fl_cube_sets s ! q)" arbitrary: s rule: less_induct)
  case less
  from less(2) show ?case
  proof (cases rule: release_cube_sets_cases)
    case empty
    with less.prems(2) show ?thesis by auto
  next
    case (stuck p rest e)
    with schedule_set_total [OF _ less.prems(4,5) stuck(4)] less.prems(3) show ?thesis by auto
  next
    case (pop p rest s1 n)
    have f: "fl_cube_sets s1 = fl_cube_sets s" "fl_now s1 = fl_now s"
      using pop(4) by (auto simp: schedule_set_def dest: schedule_event_frame)
    show ?thesis by (rule less.hyps [OF _ pop(5)]) (use f pop(1,2) less.prems in simp_all)
  qed
qed

lemma sets_ok_queue:
  "sets_ok s \<Longrightarrow> q < 3 \<Longrightarrow> q < length (fl_cube_sets s) \<and> (\<forall>p\<in>set (fl_cube_sets s ! q). flag_supported (qc_step p))"
  by (metis nth_mem sets_ok_def)

lemma postpone_head_total: "unat tick + 2 < 2 ^ 64 \<Longrightarrow> \<exists>u. snd (postpone_head q tick s) = Ok u"
  by (simp add: postpone_head_def checked_add_def split: list.split)

lemma advance_checkpoint_total:
  assumes "sets_ok s" "four_queues s" "q < 4" "fl_now s \<le> tick" "unat tick + 2 < 2 ^ 64"
  shows "\<exists>u. snd (advance_checkpoint q tick s) = Ok u"
proof (cases "fl_cube_checkpoints s ! q")
  case Nil
  then show ?thesis using assms by (simp add: advance_checkpoint_def four_queues_def)
next
  case (Cons h rest)
  obtain s1 r where s1: "release_cube_sets (min q 2) (cp_instruction_id h) tick s = (s1, r)" by fastforce
  have "min q 2 < 3" by simp
  from release_total [OF s1 _ _ assms(4,5)] sets_ok_queue [OF assms(1) this] obtain b where "r = Ok b" by blast
  with s1 Cons assms postpone_head_total [OF assms(5)] show ?thesis
    by (simp add: advance_checkpoint_def four_queues_def)
qed

lemma advance_queues_total:
  assumes "core_ok s" "\<forall>q\<in>set qs. q < 4" "fl_now s \<le> tick" "unat tick + 2 < 2 ^ 64"
  shows "\<exists>u. snd (advance_queues qs tick s) = Ok u"
  using assms
proof (induction qs arbitrary: s)
  case (Cons q qs)
  obtain s1 r where s1: "advance_checkpoint q tick s = (s1, r)" by fastforce
  from advance_checkpoint_total [of s q tick] Cons.prems s1 obtain u where u: "r = Ok u"
    by (auto simp: core_ok_def)
  have "core_ok s1" using advance_checkpoint_keeps [of s q tick] s1 Cons.prems(1) by (simp add: keeps_tokens_def)
  moreover have "fl_now s1 = fl_now s" using advance_checkpoint_Ok(3) s1 u by (auto simp: admits_def)
  ultimately show ?case using Cons s1 u by simp
qed simp

lemma notification_round_total:
  assumes "core_ok s" "fl_now s \<le> n" "unat n + 2 < 2 ^ 64"
  shows "\<exists>s' u. notification_round n s = (s', Ok u) \<and> core_ok s' \<and> fl_now s' = fl_now s"
proof -
  let ?s = "if bs_member (fl_notifications s) n
    then deliver_at (s\<lparr>fl_notifications := bs_remove n (fl_notifications s)\<rparr>) n else s"
  have ok: "core_ok ?s" using assms(1) deliver_at_keeps [of "s\<lparr>fl_notifications := bs_remove n (fl_notifications s)\<rparr>" n]
      keeps_tokens_notifications [where s = s and s' = s and ns = "bs_remove n (fl_notifications s)"] by (simp add: keeps_tokens_def)
  obtain s' r where s': "notification_round n s = (s', r)" by fastforce
  then have adv: "advance_queues [0, 1, 2, 3] n ?s = (s', r)"
    unfolding notification_round_def advance_cube_checkpoints_def .
  from advance_queues_total [OF ok, of "[0, 1, 2, 3]" n] assms(2,3) adv obtain u where u: "r = Ok u" by auto
  with advance_queues_Ok [of "[0, 1, 2, 3]" n ?s s' u] adv have "fl_now s' = fl_now s" by (auto simp: admits_def)
  moreover have "core_ok s'" using notification_round_keeps [of s n] s' assms(1) by (simp add: keeps_tokens_def)
  ultimately show ?thesis using s' u by blast
qed

lemma advance_notifications_total:
  assumes "core_ok s" "\<forall>t\<in>wake_ticks s. fl_now s \<le> t" "unat tick + 2 < 2 ^ 64"
  shows "\<exists>s'. advance_notifications tick s = (s', Ok ()) \<and> core_ok s' \<and> fl_now s' = fl_now s \<and>
    (\<forall>t\<in>wake_ticks s'. tick < t)"
  using assms
proof (induction tick s rule: advance_notifications.induct)
  case (1 tick s)
  have four: "length (fl_cube_checkpoints s) = 4" using 1(2) by (simp add: core_ok_def four_queues_def)
  show ?case
  proof (cases "next_notification_tick s")
    case None
    then have "wake_ticks s = {}" by (simp add: next_notification_None)
    with None four 1(2) show ?thesis by (simp add: advance_notifications.simps [of tick s])
  next
    case (Some n)
    show ?thesis
    proof (cases "n \<le> tick")
      case False
      have "\<forall>t\<in>wake_ticks s. tick < t" using Some False by (auto simp: next_notification_Some not_le intro: less_le_trans)
      with four 1(2) Some False show ?thesis by (simp add: advance_notifications.simps [of tick s])
    next
      case True
      have now: "fl_now s \<le> n" using Some 1(3) by (simp add: next_notification_Some)
      have "unat n + 2 < 2 ^ 64" using True 1(4) by (simp add: word_le_nat_alt)
      from notification_round_total [OF 1(2) now this] obtain s1 u where s1: "notification_round n s = (s1, Ok u)"
        "core_ok s1" "fl_now s1 = fl_now s" by blast
      have "\<forall>t\<in>wake_ticks s1. n < t" using notification_round_progress(1) [OF Some s1(1)] four by (simp add: four_queues_def)
      then have "\<forall>t\<in>wake_ticks s1. fl_now s1 \<le> t" using now s1(3) by force
      from 1(1) [OF _ Some True s1(1) [symmetric] refl s1(2) this 1(4)] s1 four Some True show ?thesis
        by (simp add: advance_notifications.simps [of tick s])
    qed
  qed
qed

lemma flags_core: "flags_ok s \<Longrightarrow> token_total s < 2 ^ 64 \<Longrightarrow> core_ok s"
  by (simp add: flags_ok_def core_ok_def)

lemma flag_advance_total:
  assumes "flags_ok s" "token_total s < 2 ^ 64" "fl_now s \<le> tick" "unat tick + 2 < 2 ^ 64"
  shows "\<exists>s'. flag_advance_to tick s = (s', Ok ()) \<and> fl_now s' = tick \<and> flags_ok s' \<and> (\<forall>t\<in>wake_ticks s'. tick < t)"
proof -
  have "\<forall>t\<in>wake_ticks s. fl_now s \<le> t" using assms(1) by (simp add: flags_ok_def)
  from advance_notifications_total [OF flags_core [OF assms(1,2)] this assms(4)]
  obtain s' where s': "advance_notifications tick s = (s', Ok ())" "core_ok s'" "\<forall>t\<in>wake_ticks s'. tick < t" by blast
  have w: "wake_ticks (s'\<lparr>fl_now := tick\<rparr>) = wake_ticks s'" by (simp add: wake_ticks_def checkpoint_heads_def)
  then have "flags_ok (s'\<lparr>fl_now := tick\<rparr>)"
    using s'(2,3) by (auto simp: flags_ok_def core_ok_def sets_ok_def waits_ok_def four_queues_def less_imp_le)
  with w show ?thesis using s' assms(3) by (simp add: flag_advance_to_def)
qed

section \<open>Delivery\<close>

lemma deliver_pending_kept: "deliver_pending tick ps c = (kept, c') \<Longrightarrow> kept = filter (\<lambda>p. \<not> due tick p) ps"
  by (induction ps arbitrary: c kept) (auto split: if_splits prod.splits)

lemma deliver_at_pending [simp]: "fl_pending_sets (deliver_at s tick) = filter (\<lambda>p. \<not> due tick p) (fl_pending_sets s)"
  by (auto simp: deliver_at_def dest: deliver_pending_kept split: prod.split)

text \<open>A notification is still to come, or it came, and nothing that was due at it is left.\<close>

definition notified :: "u64 \<Rightarrow> flag_state \<Rightarrow> bool" where
  "notified n s \<longleftrightarrow> bs_member (fl_notifications s) n \<or>
     (\<forall>p\<in>set (fl_pending_sets s). \<not> due n p) \<and> (\<forall>t\<in>wake_ticks s. n < t)"

lemma notification_round_notified:
  assumes "next_notification_tick s = Some m" "notification_round m s = (s', Ok u)" "four_queues s" "notified n s"
  shows "notified n s'"
proof -
  let ?s = "if bs_member (fl_notifications s) m
    then deliver_at (s\<lparr>fl_notifications := bs_remove m (fl_notifications s)\<rparr>) m else s"
  have adv: "advance_queues [0, 1, 2, 3] m ?s = (s', Ok u)"
    using assms(2) unfolding notification_round_def advance_cube_checkpoints_def .
  from advance_queues_Ok [OF adv] have a: "admits m ?s s'" by simp
  note wake = notification_round_progress(1) [OF assms(1,2,3)]
  define S where "S = ?s"
  have pending: "p \<in> set (fl_pending_sets S) \<or> m < he_timestamp (pf_event p)" if "p \<in> set (fl_pending_sets s')" for p
    using a that by (auto simp: admits_def S_def)
  consider (later) "bs_member (fl_notifications s) n" "m \<noteq> n" | (now) "bs_member (fl_notifications s) n" "m = n"
    | (past) "\<forall>p\<in>set (fl_pending_sets s). \<not> due n p" "\<forall>t\<in>wake_ticks s. n < t"
    using assms(4) by (auto simp: notified_def)
  then show ?thesis
  proof cases
    case later
    then have "bs_member (fl_notifications ?s) n" by simp
    with a show ?thesis by (auto simp: admits_def notified_def)
  next
    case now
    then have "\<forall>p\<in>set (fl_pending_sets S). \<not> due n p" by (simp add: S_def)
    then have "\<not> due n p" if "p \<in> set (fl_pending_sets s')" for p
      using pending [OF that] now(2) by (auto simp: due_def not_le)
    with wake now(2) show ?thesis by (simp add: notified_def)
  next
    case past
    have m: "n < m" using assms(1) past(2) by (auto simp: next_notification_Some)
    have "\<forall>p\<in>set (fl_pending_sets S). \<not> due n p" using past(1) by (simp add: S_def)
    then have "\<not> due n p" if "p \<in> set (fl_pending_sets s')" for p
      using pending [OF that] m by (auto simp: due_def not_le intro: less_trans)
    with wake m show ?thesis by (auto simp: notified_def intro: less_trans)
  qed
qed

lemma advance_notifications_notified:
  assumes "advance_notifications tick s = (s', Ok u)" "notified n s" "four_queues s" "n \<le> tick"
  shows "\<forall>p\<in>set (fl_pending_sets s'). \<not> due n p"
  using assms
proof (induction tick s rule: advance_notifications.induct)
  case (1 tick s)
  have four: "length (fl_cube_checkpoints s) = 4" using 1(4) by (simp add: four_queues_def)
  show ?case
  proof (cases "\<exists>m. next_notification_tick s = Some m \<and> m \<le> tick")
    case False
    with 1(2) four have "s' = s" by (auto simp: advance_notifications.simps [of tick s] split: option.splits)
    moreover have "\<not> bs_member (fl_notifications s) n"
    proof
      assume "bs_member (fl_notifications s) n"
      then have n: "n \<in> wake_ticks s" by (simp add: wake_ticks_def bs_member_elements)
      then obtain m where "next_notification_tick s = Some m" using next_notification_None [of s] by (cases "next_notification_tick s") auto
      with n False 1(5) show False by (auto simp: next_notification_Some intro: order_trans)
    qed
    ultimately show ?thesis using 1(3) by (auto simp: notified_def)
  next
    case True
    then obtain m where m: "next_notification_tick s = Some m" "m \<le> tick" by blast
    obtain s1 r where s1: "notification_round m s = (s1, r)" by fastforce
    with 1(2) m four obtain v where v: "r = Ok v" by (cases r) (auto simp: advance_notifications.simps [of tick s])
    have "advance_notifications tick s1 = (s', Ok u)"
      using 1(2) m four s1 v by (simp add: advance_notifications.simps [of tick s])
    moreover have "notified n s1" "four_queues s1"
      using notification_round_notified [OF m(1) _ 1(4,3)] notification_round_progress(2) [OF m(1) _ 1(4)] s1 v by auto
    ultimately show ?thesis using 1(1) [OF _ m s1 [symmetric]] four v 1(5) by auto
  qed
qed

section \<open>Gates\<close>

lemma consume_wait_Ok:
  assumes "hf_operation (hs_instruction step) = HfWait" "key_count s (key_from_step step) \<noteq> 0"
  shows "\<exists>m. consume_wait s step = (s\<lparr>fl_counters := m\<rparr>, Ok ()) \<and>
    (\<forall>key. unat (key_count s key) = unat (key_count (s\<lparr>fl_counters := m\<rparr>) key) + (if key = key_from_step step then 1 else 0))"
proof -
  let ?key = "key_from_step step"
  obtain c where c: "bm_get (fl_counters s) ?key = Some c" "c \<noteq> 0"
    using assms(2) by (auto simp: key_count_def split: option.splits)
  then have "unat c = unat (c - 1) + 1" by (simp add: unat_minus_one) (metis Suc_pred unat_gt_0)
  with c assms(1) show ?thesis
    by (cases "c - 1 = 0") (auto simp: consume_wait_def Let_def key_count_def intro!: exI)
qed

definition older_waits :: "u64 \<Rightarrow> flag_state \<Rightarrow> queued_cube_flag list" where
  "older_waits instruction_id s = takeWhile (\<lambda>wait. qc_instruction_id wait < instruction_id) (fl_cube_waits s)"

definition waits_on :: "flag_key \<Rightarrow> queued_cube_flag list \<Rightarrow> nat" where
  "waits_on key ws = length (filter (\<lambda>wait. key_from_step (qc_step wait) = key) ws)"

text \<open>Consumed waits take their token and leave the queue, in order.\<close>

definition same_but_waits :: "flag_state \<Rightarrow> flag_state \<Rightarrow> bool" where
  "same_but_waits s s' \<longleftrightarrow> s'\<lparr>fl_counters := [], fl_cube_waits := []\<rparr> = s\<lparr>fl_counters := [], fl_cube_waits := []\<rparr>"

definition consumes :: "queued_cube_flag list \<Rightarrow> flag_state \<Rightarrow> flag_state \<Rightarrow> bool" where
  "consumes ws s s' \<longleftrightarrow> fl_cube_waits s = ws @ fl_cube_waits s' \<and>
     (\<forall>key. unat (key_count s key) = unat (key_count s' key) + waits_on key ws) \<and>
     same_but_waits s s'"

lemma consumes_refl [simp]: "consumes [] s s"
  by (simp add: consumes_def waits_on_def same_but_waits_def)

lemma waits_on_append: "waits_on key (v @ w) = waits_on key v + waits_on key w"
  by (simp add: waits_on_def)

lemma consumes_trans: "consumes v s1 s2 \<Longrightarrow> consumes w s2 s3 \<Longrightarrow> consumes (v @ w) s1 s3"
  by (auto simp: consumes_def waits_on_append same_but_waits_def)

lemma gate_waits_result:
  assumes "gate_waits tick i s = (s', r)" "waits_ok s"
  shows "\<exists>ws. consumes ws s s' \<and> (\<forall>w\<in>set ws. qc_instruction_id w < i) \<and>
    (r = Ok None \<and> (\<forall>w rest. fl_cube_waits s' = w # rest \<longrightarrow> i \<le> qc_instruction_id w) \<or>
     (\<exists>w rest. fl_cube_waits s' = w # rest \<and> qc_instruction_id w < i \<and> key_count s' (key_from_step (qc_step w)) = 0 \<and>
        (case next_delivery_tick s' (key_from_step (qc_step w)) of
           Some t \<Rightarrow> r = Ok (Some t)
         | None \<Rightarrow> r = map_sum (\<lambda>_. Fail FlagTimeOverflow) Some (ok_or (checked_add tick 1) ()))))"
  using assms
proof (induction tick i s rule: gate_waits.induct)
  case (1 tick i s)
  show ?case
  proof (cases "fl_cube_waits s")
    case Nil
    with 1(2) show ?thesis by (intro exI [of _ "[]"]) (simp add: gate_waits.simps [of tick i s])
  next
    case (Cons w rest)
    show ?thesis
    proof (cases "qc_instruction_id w < i \<and> key_count s (key_from_step (qc_step w)) \<noteq> 0")
      case False
      with 1(2) Cons show ?thesis
        by (intro exI [of _ "[]"])
          (auto simp: gate_waits.simps [of tick i s] ok_or_def not_less split: if_splits option.splits)
    next
      case True
      have "hf_operation (hs_instruction (qc_step w)) = HfWait" using 1(3) Cons by (simp add: waits_ok_def)
      from consume_wait_Ok [OF this] True obtain m where m: "consume_wait s (qc_step w) = (s\<lparr>fl_counters := m\<rparr>, Ok ())"
        "\<And>key. unat (key_count s key) = unat (key_count (s\<lparr>fl_counters := m\<rparr>) key) + (if key = key_from_step (qc_step w) then 1 else 0)"
        by blast
      let ?s = "s\<lparr>fl_counters := m, fl_cube_waits := rest\<rparr>"
      have "gate_waits tick i ?s = (s', r)"
        using 1(2) Cons True m(1) by (simp add: gate_waits.simps [of tick i s])
      moreover have "waits_ok ?s" using 1(3) Cons by (simp add: waits_ok_def ordered_queue_def)
      ultimately obtain ws where ws: "consumes ws ?s s'" "\<forall>w\<in>set ws. qc_instruction_id w < i"
        and r: "r = Ok None \<and> (\<forall>w rest. fl_cube_waits s' = w # rest \<longrightarrow> i \<le> qc_instruction_id w) \<or>
         (\<exists>w rest. fl_cube_waits s' = w # rest \<and> qc_instruction_id w < i \<and> key_count s' (key_from_step (qc_step w)) = 0 \<and>
            (case next_delivery_tick s' (key_from_step (qc_step w)) of
               Some t \<Rightarrow> r = Ok (Some t)
             | None \<Rightarrow> r = map_sum (\<lambda>_. Fail FlagTimeOverflow) Some (ok_or (checked_add tick 1) ())))"
        using 1(1) [OF Cons _ _ m(1) [symmetric] refl] True Cons by auto
      have "key_count ?s key = key_count (s\<lparr>fl_counters := m\<rparr>) key" for key by (simp add: key_count_def)
      then have "consumes [w] s ?s" using m(2) Cons by (auto simp: consumes_def waits_on_def same_but_waits_def)
      from consumes_trans [OF this ws(1)] ws(2) r True show ?thesis by (intro exI [of _ "w # ws"]) simp
    qed
  qed
qed

lemma find_mem: "find P xs = Some x \<Longrightarrow> x \<in> set xs"
  by (auto simp: find_Some_iff)

lemma set_map_filter: "y \<in> set (List.map_filter f xs) \<longleftrightarrow> (\<exists>x\<in>set xs. f x = Some y)"
  by (force simp: List.map_filter_def)

lemma next_delivery_tick_wake:
  assumes "next_delivery_tick s key = Some t"
  shows "t \<in> wake_ticks s"
proof -
  from assms obtain p where "first_notification s p = Some t"
    unfolding next_delivery_tick_def min_of_Some set_map_filter by blast
  then show ?thesis unfolding first_notification_def by (auto simp: wake_ticks_def dest: find_mem)
qed

lemma consumes_all:
  assumes "consumes ws s s'" "\<forall>w\<in>set ws. qc_instruction_id w < i"
    and "\<forall>w rest. fl_cube_waits s' = w # rest \<longrightarrow> i \<le> qc_instruction_id w"
  shows "ws = older_waits i s"
proof -
  have "takeWhile (\<lambda>w. qc_instruction_id w < i) (fl_cube_waits s') = []"
    using assms(3) by (cases "fl_cube_waits s'") auto
  with assms(1,2) show ?thesis by (simp add: older_waits_def consumes_def takeWhile_append2)
qed

section \<open>Reachable states\<close>

text \<open>The operations the core performs on its flags. A held set is one the decoder admits and a
  checkpoint is not in the past; time advances while its ticks are representable.\<close>

inductive flag_step :: "flag_state \<Rightarrow> flag_state \<Rightarrow> bool" where
  mte_flag: "flag_step s (fst (enqueue_mte_flag s i step tick))"
| take_flags: "flag_step s (fst (take_mte_flags s i memory))"
| cube_set: "is_ok (visibility_ticks (hf_memory (hs_instruction step)) (hf_destination_pipe_code (hs_instruction step))) \<Longrightarrow>
    flag_step s (fst (enqueue_cube_set s i step))"
| cube_wait: "flag_step s (fst (enqueue_cube_wait s i step))"
| checkpoint: "fl_now s \<le> tick \<Longrightarrow> flag_step s (fst (enqueue_cube_checkpoint s kind i tick delay))"
| unit_flag: "fl_now s \<le> tick \<Longrightarrow> token_total s < 2 ^ 64 \<Longrightarrow> flag_step s (fst (check_cube_unit_flag_set s i tick))"
| schedule: "flag_step s (fst (schedule_event s event tick))"
| consume: "flag_step s (fst (consume_wait s step))"
| advance: "token_total s < 2 ^ 64 \<Longrightarrow> unat tick + 2 < 2 ^ 64 \<Longrightarrow> flag_step s (fst (flag_advance_to tick s))"
| gate: "token_total s < 2 ^ 64 \<Longrightarrow> unat tick + 2 < 2 ^ 64 \<Longrightarrow> flag_step s (fst (gate_cube_instruction s tick i))"

lemmas wake_defs = wake_ticks_def checkpoint_heads_def

lemma wake_ticks_other [simp]:
  "wake_ticks (s\<lparr>fl_counters := m\<rparr>) = wake_ticks s" "wake_ticks (s\<lparr>fl_mte_flags := f\<rparr>) = wake_ticks s"
  "wake_ticks (s\<lparr>fl_cube_waits := w\<rparr>) = wake_ticks s" "wake_ticks (s\<lparr>fl_cube_sets := q\<rparr>) = wake_ticks s"
  "wake_ticks (s\<lparr>fl_pending_sets := p\<rparr>) = wake_ticks s" "wake_ticks (s\<lparr>fl_now := t\<rparr>) = wake_ticks s"
  by (simp_all add: wake_defs)

lemma wake_ticks_mem:
  "t \<in> wake_ticks s \<longleftrightarrow> bs_member (fl_notifications s) t \<or> (\<exists>queue\<in>set (fl_cube_checkpoints s). queue \<noteq> [] \<and> t = cp_tick (hd queue))"
  by (auto simp: wake_defs bs_member_elements)

lemma flags_ok_mte: "flags_ok s \<Longrightarrow> flags_ok (s\<lparr>fl_mte_flags := f\<rparr>)"
  by (simp add: flags_ok_def sets_ok_def waits_ok_def four_queues_def)

lemma flags_ok_sets: "flags_ok s \<Longrightarrow> sets_ok (s\<lparr>fl_cube_sets := q\<rparr>) \<Longrightarrow> flags_ok (s\<lparr>fl_cube_sets := q\<rparr>)"
  by (simp add: flags_ok_def waits_ok_def four_queues_def)

lemma flags_ok_waits: "flags_ok s \<Longrightarrow> waits_ok (s\<lparr>fl_cube_waits := w\<rparr>) \<Longrightarrow> flags_ok (s\<lparr>fl_cube_waits := w\<rparr>)"
  by (simp add: flags_ok_def sets_ok_def four_queues_def)

lemma flags_ok_counters: "flags_ok s \<Longrightarrow> counters_ok m \<Longrightarrow> flags_ok (s\<lparr>fl_counters := m\<rparr>)"
  by (simp add: flags_ok_def sets_ok_def waits_ok_def four_queues_def)

lemma ordered_queue_snoc:
  assumes "ordered_queue queue" "newer_than_last i queue" "qc_instruction_id p = i"
  shows "ordered_queue (queue @ [p])"
proof -
  have "qc_instruction_id x < i" if x: "x \<in> set queue" for x
  proof -
    obtain ys y where split: "queue = ys @ [y]" using x by (cases queue rule: rev_cases) auto
    then have "qc_instruction_id x \<le> qc_instruction_id y"
      using assms(1) x by (auto simp: ordered_queue_def sorted_wrt_append intro: less_imp_le)
    with assms(2) split show ?thesis by (auto simp: newer_than_last_def)
  qed
  with assms show ?thesis by (auto simp: ordered_queue_def sorted_wrt_append)
qed

lemma flags_ok_enqueue_set:
  assumes "flags_ok s" "is_ok (visibility_ticks (hf_memory (hs_instruction step)) (hf_destination_pipe_code (hs_instruction step)))"
  shows "flags_ok (fst (enqueue_cube_set s i step))"
proof -
  have sets: "sets_ok s" using assms(1) by (simp add: flags_ok_def)
  have "sets_ok (s\<lparr>fl_cube_sets := (fl_cube_sets s)[q := fl_cube_sets s ! q @ [\<lparr>qc_instruction_id = i, qc_step = step\<rparr>]]\<rparr>)"
    if q: "q < length (fl_cube_sets s)" "newer_than_last i (fl_cube_sets s ! q)" "flag_supported step" for q
  proof -
    have "fl_cube_sets s ! q \<in> set (fl_cube_sets s)" using q(1) by simp
    with sets have "ordered_queue (fl_cube_sets s ! q)" "\<forall>p\<in>set (fl_cube_sets s ! q). flag_supported (qc_step p)"
      by (auto simp: sets_ok_def)
    with q ordered_queue_snoc [OF this(1) q(2)] sets show ?thesis
      by (auto simp: sets_ok_def dest!: mem_update)
  qed
  then show ?thesis using assms flags_ok_sets [OF assms(1)]
    by (auto simp: enqueue_cube_set_def Let_def flag_supported_def)
qed

lemma flags_ok_enqueue_wait: "flags_ok s \<Longrightarrow> flags_ok (fst (enqueue_cube_wait s i step))"
proof -
  assume ok: "flags_ok s"
  then have w: "waits_ok s" by (simp add: flags_ok_def)
  show ?thesis
    using ok w flags_ok_waits [OF ok]
      ordered_queue_snoc [of "fl_cube_waits s" i "\<lparr>qc_instruction_id = i, qc_step = step\<rparr>"]
    by (auto simp: enqueue_cube_wait_def waits_ok_def)
qed

lemma flags_ok_checkpoint:
  assumes "flags_ok s" "fl_now s \<le> tick"
  shows "flags_ok (fst (enqueue_cube_checkpoint s kind i tick delay))"
proof (cases "checked_add tick (ucast delay)")
  case (Some t)
  let ?q = "checkpoint_queue kind"
  let ?s = "s\<lparr>fl_cube_checkpoints := (fl_cube_checkpoints s)[?q := fl_cube_checkpoints s ! ?q @ [\<lparr>cp_tick = t, cp_instruction_id = i\<rparr>]]\<rparr>"
  have "fl_now s \<le> t" using assms(2) checked_add_le [OF Some] by simp
  moreover have "?q < length (fl_cube_checkpoints s)"
    using assms(1) by (cases kind) (simp_all add: flags_ok_def four_queues_def checkpoint_queue_def)
  moreover have "fl_now s \<le> u" if "u \<in> wake_ticks s" for u using assms(1) that by (simp add: flags_ok_def)
  moreover have "u \<in> wake_ticks s \<or> u = t" if "u \<in> wake_ticks ?s" for u
    using that nth_mem [OF calculation(2)]
    by (auto simp: wake_ticks_mem hd_append split: if_splits dest!: mem_update)
  ultimately have "flags_ok ?s"
    using assms(1) by (fastforce simp: flags_ok_def sets_ok_def waits_ok_def four_queues_def)
  then show ?thesis using Some assms(1) by (simp add: enqueue_cube_checkpoint_def Let_def)
qed (use assms in \<open>simp add: enqueue_cube_checkpoint_def\<close>)

lemma flags_ok_schedule: "flags_ok s \<Longrightarrow> flags_ok (fst (schedule_event s e tick))"
proof -
  assume ok: "flags_ok s"
  obtain s' r where s': "schedule_event s e tick = (s', r)" by fastforce
  show ?thesis
  proof (cases r)
    case (Inr n)
    with s' have e: "schedule_event s e tick = (s', Ok n)" by simp
    note f = schedule_event_frame [OF e] and n = schedule_event_Ok [OF e]
    have "t \<in> wake_ticks s \<or> t = n" if "t \<in> wake_ticks s'" for t using that f n(5) by (auto simp: wake_ticks_mem)
    moreover have "fl_now s \<le> n" using n(1,3) by simp
    ultimately have "fl_now s \<le> t" if "t \<in> wake_ticks s'" for t using ok that by (auto simp: flags_ok_def)
    then show ?thesis using ok f n(4) s'
      by (auto simp: flags_ok_def sets_ok_def waits_ok_def four_queues_def)
  next
    case (Inl a)
    with s' have "s' = s" by (simp add: schedule_event_Err)
    with ok s' show ?thesis by simp
  qed
qed

lemma flags_ok_release:
  assumes "flags_ok s" "token_total s < 2 ^ 64" "fl_now s \<le> tick" "release_cube_sets q i tick s = (s', r)"
  shows "flags_ok s' \<and> fl_now s' = fl_now s"
proof -
  note a = release_admits [OF assms(4)]
  have "core_ok s'" using release_keeps [OF assms(4)] flags_core [OF assms(1,2)] by (simp add: keeps_tokens_def)
  moreover have "t \<in> wake_ticks s \<or> tick < t" if "t \<in> wake_ticks s'" for t
    using that a by (auto simp: wake_ticks_mem admits_def)
  then have "fl_now s \<le> t" if "t \<in> wake_ticks s'" for t
    using that assms(1,3) by (force simp: flags_ok_def)
  ultimately show ?thesis using a by (simp add: flags_ok_def core_ok_def admits_def)
qed

lemma flags_ok_unit_flag:
  assumes "flags_ok s" "token_total s < 2 ^ 64" "fl_now s \<le> tick"
  shows "flags_ok (fst (check_cube_unit_flag_set s i tick))"
proof -
  obtain s' r where s': "release_cube_sets 2 i tick s = (s', r)" by fastforce
  from flags_ok_release [OF assms s'] s' flags_ok_checkpoint [of s' tick UnitFlagRetry i 1] assms(3) show ?thesis
    by (auto simp: check_cube_unit_flag_set_def split: sum.splits)
qed

lemma flags_ok_advance:
  "flags_ok s \<Longrightarrow> token_total s < 2 ^ 64 \<Longrightarrow> unat tick + 2 < 2 ^ 64 \<Longrightarrow> flags_ok (fst (flag_advance_to tick s))"
proof (cases "fl_now s \<le> tick")
  case True
  assume "flags_ok s" "token_total s < 2 ^ 64" "unat tick + 2 < 2 ^ 64"
  from flag_advance_total [OF this(1,2) True this(3)] show ?thesis by auto
qed (simp add: flag_advance_to_def not_le)

lemma flags_ok_consumes:
  assumes "flags_ok s" "consumes ws s s'" "counters_ok (fl_counters s')"
  shows "flags_ok s'"
proof -
  from assms(2) have "s' = s\<lparr>fl_counters := fl_counters s', fl_cube_waits := fl_cube_waits s'\<rparr>"
    by (cases s; cases s') (simp add: consumes_def same_but_waits_def)
  moreover have "waits_ok (s\<lparr>fl_counters := fl_counters s', fl_cube_waits := fl_cube_waits s'\<rparr>)"
    using assms(1,2) by (auto simp: flags_ok_def waits_ok_def consumes_def ordered_queue_def sorted_wrt_append)
  ultimately show ?thesis
    using flags_ok_waits [OF flags_ok_counters [OF assms(1,3)], of "fl_cube_waits s'"] by simp
qed

lemma gate_waits_counters:
  "gate_waits tick i s = (s', r) \<Longrightarrow> counters_ok (fl_counters s) \<Longrightarrow> counters_ok (fl_counters s')"
proof (induction tick i s rule: gate_waits.induct)
  case (1 tick i s)
  show ?case
  proof (cases "\<exists>w rest s1 u. fl_cube_waits s = w # rest \<and> qc_instruction_id w < i \<and>
      key_count s (key_from_step (qc_step w)) \<noteq> 0 \<and> consume_wait s (qc_step w) = (s1, Ok u)")
    case True
    then obtain w rest s1 u where w: "fl_cube_waits s = w # rest" "qc_instruction_id w < i"
      "key_count s (key_from_step (qc_step w)) \<noteq> 0" "consume_wait s (qc_step w) = (s1, Ok u)" by blast
    have "gate_waits tick i (s1\<lparr>fl_cube_waits := tl (fl_cube_waits s1)\<rparr>) = (s', r)"
      using 1(2) w by (simp add: gate_waits.simps [of tick i s])
    moreover have "counters_ok (fl_counters s1)" using counters_ok_consume [OF 1(3), of "qc_step w"] w(4) by simp
    ultimately show ?thesis using 1(1) [OF w(1) _ w(3) w(4) [symmetric]] w(2) by simp
  next
    case False
    have "counters_ok (fl_counters s1)" if "consume_wait s step = (s1, x)" for step s1 x
      using counters_ok_consume [OF 1(3), of step] that by simp
    with False 1(2,3) show ?thesis
      by (auto simp: gate_waits.simps [of tick i s] split: list.splits if_splits option.splits prod.splits sum.splits)
  qed
qed

lemma gate_waits_ok:
  assumes "flags_ok s" "gate_waits tick i s = (s', r)"
  shows "flags_ok s'"
proof -
  have "waits_ok s" "counters_ok (fl_counters s)" using assms(1) by (simp_all add: flags_ok_def)
  with gate_waits_result [OF assms(2)] gate_waits_counters [OF assms(2)] flags_ok_consumes [OF assms(1)] show ?thesis by blast
qed

lemma flag_step_ok: "flag_step s s' \<Longrightarrow> flags_ok s \<Longrightarrow> flags_ok s'"
proof (induction rule: flag_step.induct)
  case (gate s tick i)
  have "flags_ok (fst (gate_waits tick i s1))" if "flags_ok s1" for s1
    using gate_waits_ok [OF that, of tick i] by (cases "gate_waits tick i s1") simp
  with gate flags_ok_advance [of s tick] show ?case
    by (auto simp: gate_cube_instruction_def split: prod.splits sum.splits)
next
  case (consume s step)
  then have c: "counters_ok (fl_counters (fst (consume_wait s step)))" by (simp add: flags_ok_def counters_ok_consume)
  have "fst (consume_wait s step) = s\<lparr>fl_counters := fl_counters (fst (consume_wait s step))\<rparr>"
    by (simp add: consume_wait_def Let_def split: option.splits)
  then show ?case using flags_ok_counters [OF consume c] by simp
qed (auto simp: enqueue_mte_flag_def take_mte_flags_def Let_def flags_ok_mte flags_ok_enqueue_set flags_ok_enqueue_wait
    flags_ok_checkpoint flags_ok_schedule flags_ok_unit_flag flags_ok_advance)

section \<open>The course of a scheduled set\<close>

lemma schedule_event_delay:
  assumes "schedule_event s e t = (s', Ok n)"
  shows "\<exists>delay stamp. (if he_timestamp e = 0
     then visibility_ticks (hf_memory (hs_instruction (he_step e)))
            (hf_destination_pipe_code (hs_instruction (he_step e))) = Ok delay \<and> stamp = n
     else delay = 1 \<and> stamp = he_timestamp e) \<and> unat n = unat t + unat delay"
  using assms
  by (auto simp: schedule_event_def Let_def checked_add_Some unat_add_exact split: if_splits option.splits sum.splits)

text \<open>A set that is not due at a tick is still pending there.\<close>

lemma notification_round_undue:
  assumes "notification_round m s = (s', Ok u)" "p \<in> set (fl_pending_sets s)" "\<not> due m p"
  shows "p \<in> set (fl_pending_sets s')"
proof -
  let ?s = "if bs_member (fl_notifications s) m
    then deliver_at (s\<lparr>fl_notifications := bs_remove m (fl_notifications s)\<rparr>) m else s"
  have adv: "advance_queues [0, 1, 2, 3] m ?s = (s', Ok u)"
    using assms(1) unfolding notification_round_def advance_cube_checkpoints_def .
  have "p \<in> set (fl_pending_sets ?s)" using assms(2,3) by simp
  with advance_queues_Ok [OF adv] show ?thesis by (auto simp: admits_def)
qed

lemma advance_notifications_undue:
  assumes "advance_notifications tick s = (s', Ok u)" "p \<in> set (fl_pending_sets s)" "\<not> due tick p"
  shows "p \<in> set (fl_pending_sets s')"
  using assms
proof (induction tick s rule: advance_notifications.induct)
  case (1 tick s)
  have four: "length (fl_cube_checkpoints s) = 4"
    using 1(2) by (auto simp: advance_notifications.simps [of tick s] split: if_splits)
  show ?case
  proof (cases "\<exists>m. next_notification_tick s = Some m \<and> m \<le> tick")
    case False
    with 1(2,3) four show ?thesis by (auto simp: advance_notifications.simps [of tick s] split: option.splits)
  next
    case True
    then obtain m where m: "next_notification_tick s = Some m" "m \<le> tick" by blast
    obtain s1 r where s1: "notification_round m s = (s1, r)" by fastforce
    with 1(2) m four obtain v where v: "r = Ok v" by (cases r) (auto simp: advance_notifications.simps [of tick s])
    have "advance_notifications tick s1 = (s', Ok u)"
      using 1(2) m four s1 v by (simp add: advance_notifications.simps [of tick s])
    moreover have "\<not> due m p" using 1(4) m(2) by (auto simp: due_def intro: order_trans)
    then have "p \<in> set (fl_pending_sets s1)" using notification_round_undue [of m s s1 v p] s1 v 1(3) by simp
    ultimately show ?thesis using 1(1) [OF _ m s1 [symmetric]] four v 1(4) by auto
  qed
qed

lemma scheduled_advance:
  assumes "flags_ok s" "token_total s + 1 < 2 ^ 64"
    and "schedule_event s event checkpoint_tick = (s1, Ok n)" "flag_advance_to tick s1 = (s2, Ok ())"
    and pend: "fl_pending_sets s1 = fl_pending_sets s @ [p]"
  defines "key \<equiv> key_from_step (he_step event)"
  shows "(\<not> due tick p \<longrightarrow> p \<in> set (fl_pending_sets s2) \<and>
       (waiting_sets s key = 0 \<longrightarrow> key_count s2 key = key_count s key)) \<and>
    (\<forall>t. bs_member (fl_notifications s1) t \<and> due t p \<and> t \<le> tick \<longrightarrow> p \<notin> set (fl_pending_sets s2) \<and>
       (waiting_sets s key = 0 \<longrightarrow> unat (key_count s2 key) = unat (key_count s key) + 1))"
proof -
  note f = schedule_event_frame [OF assms(3)]
  have p: "pf_key p = key" using schedule_event_Ok(4) [OF assms(3)] pend by (auto simp: key_def)
  have ok1: "flags_ok s1" using flags_ok_schedule [OF assms(1), of event checkpoint_tick] assms(3) by simp
  have core: "core_ok s1" by (rule flags_core [OF ok1])
      (use assms(2) f pend in \<open>simp add: token_total_def pending_cube_set_count_def\<close>)
  obtain s3 where s3: "advance_notifications tick s1 = (s3, Ok ())" "s2 = s3\<lparr>fl_now := tick\<rparr>"
    using assms(4) by (auto simp: flag_advance_to_def split: if_splits prod.splits sum.splits)
  have "delivers s1 s3" using advance_notifications_keeps [of s1 tick] core s3(1) by (simp add: keeps_tokens_def)
  then have "delivers s1 s2" using delivers_cong [of s2 s3 s1] s3(2) by simp
  note D = this [unfolded delivers_def, THEN spec [of _ key]]
  have c: "key_count s1 key = key_count s key" using f by (simp add: key_count_def)
  have few: "unat (key_count s key) < 32"
    using assms(3) by (auto simp: schedule_event_def Let_def hardware_flag_almost_full_def key_def not_le word_less_nat_alt
        split: if_splits)
  have w1: "waiting_sets s1 key = 1" "held_sets s1 key = 0" if "waiting_sets s key = 0"
    using that f pend p by (simp_all add: waiting_sets_def held_sets_def)
  have undue: "p \<in> set (fl_pending_sets s2)" if "\<not> due tick p"
    using advance_notifications_undue [OF s3(1) _ that] pend s3(2) by simp
  have same: "key_count s2 key = key_count s key" if "waiting_sets s key = 0" "p \<in> set (fl_pending_sets s2)"
  proof -
    have "filter (\<lambda>q. pf_key q = key) (fl_pending_sets s2) \<noteq> []" using that(2) p by (auto simp: filter_empty_conv)
    then have "1 \<le> waiting_sets s2 key" by (simp add: waiting_sets_def Suc_le_eq)
    moreover have "unat (key_count s2 key) = min 63 (unat (key_count s1 key) + (waiting_sets s1 key - waiting_sets s2 key))"
      using D by simp
    ultimately have "unat (key_count s2 key) = unat (key_count s key)" using w1(1) [OF that(1)] c few by simp
    then show ?thesis by (simp add: word_unat_eq_iff)
  qed
  have gone: "p \<notin> set (fl_pending_sets s2)" if "bs_member (fl_notifications s1) t" "due t p" "t \<le> tick" for t
    using advance_notifications_notified [OF s3(1) _ _ that(3)] ok1 that s3(2) by (auto simp: notified_def flags_ok_def)
  have one: "unat (key_count s2 key) = unat (key_count s key) + 1"
    if "waiting_sets s key = 0" "p \<notin> set (fl_pending_sets s2)"
  proof -
    have none: "\<forall>q\<in>set (fl_pending_sets s). pf_key q \<noteq> key" using that(1) by (auto simp: waiting_sets_def filter_empty_conv)
    have "\<forall>q\<in>set (fl_pending_sets s2). pf_key q = key \<longrightarrow> q \<in> set (fl_pending_sets s1)" "held_sets s2 key \<le> 0"
      using D w1(2) [OF that(1)] by simp_all
    then have "waiting_sets s2 key = 0"
      using none that(2) pend by (auto simp: waiting_sets_def filter_empty_conv)
    with D w1(1) [OF that(1)] c few show ?thesis by simp
  qed
  show ?thesis using undue same gone one by blast
qed

section \<open>Claims\<close>

text \<open>A flag instruction that decodes resolves against 32 registers without a panic, to one of four
  events, and a decoded set can always be admitted by the counters: its memory and destination have a
  visibility delay.\<close>
theorem decoded_flag_supported:
  assumes "hardware_flag_decode word = Some f" "length xregs = 32"
  shows "hardware_flag_resolve f pc xregs \<noteq> Err Panic \<and>
    (\<forall>step. hardware_flag_resolve f pc xregs = Ok step \<longrightarrow> hs_event_id step \<le> 3 \<and>
       visibility_ticks (hf_memory (hs_instruction step)) (hf_destination_pipe_code (hs_instruction step)) \<in> {Ok 1, Ok 2})"
proof -
  have "visibility_ticks (hf_memory f) (hf_destination_pipe_code f) \<in> {Ok 1, Ok 2}"
    using hardware_flag_decode_route [OF assms(1)]
    by (cases "hf_source_pipe f") (auto simp: visibility_ticks_def)
  with hardware_flag_resolve_no_panic [OF assms] show ?thesis
    by (auto dest: hardware_flag_resolve_event)
qed

text \<open>C20. Whatever a core does with its flags, no counter exceeds the capacity of 63, the held sets and
  waits stay in instruction order and nothing is scheduled in the past.\<close>
theorem reachable_flags_bounded:
  assumes "flag_step\<^sup>*\<^sup>* flag_state_default s"
  shows "flags_ok s \<and> flag_count s destination memory event_id \<le> 63"
proof -
  from assms have ok: "flags_ok s"
    by (induction rule: rtranclp_induct) (auto intro: flags_ok_default flag_step_ok)
  then have "counters_ok (fl_counters s)" by (simp add: flags_ok_def)
  with ok key_count_bounded show ?thesis by (auto simp: flag_count_def hardware_flag_capacity_def)
qed

text \<open>Time always advances: from a state in its invariant the clock reaches every later tick that
  leaves room for a notification delay, with no error and no panic, and nothing scheduled up to that
  tick is left behind.\<close>
theorem flag_time_advances:
  assumes "flags_ok s" "token_total s < 2 ^ 64" "fl_now s \<le> tick" "unat tick + 2 < 2 ^ 64"
  shows "\<exists>s'. flag_advance_to tick s = (s', Ok ()) \<and> fl_now s' = tick \<and> flags_ok s' \<and>
    (\<forall>t. next_notification_tick s' = Some t \<longrightarrow> tick < t)"
proof -
  from flag_advance_total [OF assms] obtain s' where "flag_advance_to tick s = (s', Ok ())" "fl_now s' = tick" "flags_ok s'"
    "\<forall>t\<in>wake_ticks s'. tick < t" by blast
  then show ?thesis by (auto simp: next_notification_Some)
qed

text \<open>C21. Advancing the clock delivers tokens to their own counters and loses none but those that find
  their counter full. Key by key, the sets that stop waiting, admitted or held, become visible tokens
  of that key, up to the capacity of 63; no key gains a waiting set. The visible, waiting and
  discarded sets of all keys together are as many as before, so the discarded ones are counted
  exactly. All of it also holds when the advance fails.\<close>
theorem tokens_conserved:
  assumes "flags_ok s" "token_total s < 2 ^ 64"
  shows "(let s' = fst (flag_advance_to tick s) in
    (\<forall>key. waiting_sets s' key \<le> waiting_sets s key \<and>
       unat (key_count s' key) = min 63 (unat (key_count s key) + (waiting_sets s key - waiting_sets s' key))) \<and>
    token_total s' = token_total s)"
proof -
  let ?s1 = "fst (advance_notifications tick s)"
  have "delivers s ?s1" "delivers s s" "token_total ?s1 = token_total s"
    using advance_notifications_keeps [of s tick] flags_core [OF assms] delivers_refl by (simp_all add: keeps_tokens_def)
  moreover have "fst (flag_advance_to tick s) = s \<or> (\<exists>t. fst (flag_advance_to tick s) = ?s1\<lparr>fl_now := t\<rparr>) \<or>
      fst (flag_advance_to tick s) = ?s1"
    by (auto simp: flag_advance_to_def split: prod.split sum.split)
  moreover have "delivers s (?s1\<lparr>fl_now := t\<rparr>) = delivers s ?s1" "token_total (?s1\<lparr>fl_now := t\<rparr>) = token_total ?s1" for t
    by (rule delivers_cong; simp) (simp add: token_total_def pending_cube_set_count_def)
  ultimately have "delivers s (fst (flag_advance_to tick s)) \<and> token_total (fst (flag_advance_to tick s)) = token_total s"
    by auto
  then show ?thesis by (simp add: delivers_def Let_def)
qed

text \<open>C22. What the scheduling of a set promises. It appends the set with its key, its admission tick and
  its timestamp, and arms the notification it reports: the visibility delay of the memory and
  destination after the admission for a set without a timestamp, which then becomes its timestamp,
  and the next tick for a set that carries one. The clock never delivers the set before its admission
  and its timestamp, and once it has reached an armed notification that is at or after both, the
  set is delivered. For a set without a timestamp its own notification is such a one, so it is
  delivered exactly there; a set whose timestamp is later than its notification stays pending beyond
  it, until a notification that reaches the timestamp. When no other set of its key waits, the counter of the key holds what it held before
  the delivery and one token more from then on.\<close>
theorem delivered_at_notification:
  assumes "flags_ok s" "token_total s + 1 < 2 ^ 64"
    and "schedule_event s event checkpoint_tick = (s1, Ok n)" "flag_advance_to tick s1 = (s2, Ok ())"
  shows "\<exists>delay stamp.
    (if he_timestamp event = 0
     then visibility_ticks (hf_memory (hs_instruction (he_step event)))
            (hf_destination_pipe_code (hs_instruction (he_step event))) = Ok delay \<and> stamp = n
     else delay = 1 \<and> stamp = he_timestamp event) \<and>
    unat n = unat checkpoint_tick + unat delay \<and> bs_member (fl_notifications s1) n \<and>
    (let key = key_from_step (he_step event);
         set = \<lparr>pf_admitted_tick = checkpoint_tick, pf_event = event\<lparr>he_timestamp := stamp\<rparr>, pf_key = key\<rparr>;
         ready = max checkpoint_tick stamp
     in fl_pending_sets s1 = fl_pending_sets s @ [set] \<and>
        (he_timestamp event = 0 \<longrightarrow> ready = n) \<and>
        (tick < ready \<longrightarrow> set \<in> List.set (fl_pending_sets s2) \<and>
           (waiting_sets s key = 0 \<longrightarrow> key_count s2 key = key_count s key)) \<and>
        (\<forall>t. bs_member (fl_notifications s1) t \<and> ready \<le> t \<and> t \<le> tick \<longrightarrow>
           set \<notin> List.set (fl_pending_sets s2) \<and>
           (waiting_sets s key = 0 \<longrightarrow> unat (key_count s2 key) = unat (key_count s key) + 1)))"
proof -
  obtain delay stamp where d: "if he_timestamp event = 0
     then visibility_ticks (hf_memory (hs_instruction (he_step event)))
            (hf_destination_pipe_code (hs_instruction (he_step event))) = Ok delay \<and> stamp = n
     else delay = 1 \<and> stamp = he_timestamp event" "unat n = unat checkpoint_tick + unat delay"
    using schedule_event_delay [OF assms(3)] by blast
  define key where "key = key_from_step (he_step event)"
  define p where "p = \<lparr>pf_admitted_tick = checkpoint_tick, pf_event = event\<lparr>he_timestamp := stamp\<rparr>, pf_key = key\<rparr>"
  define ready where "ready = max checkpoint_tick stamp"
  have pend: "fl_pending_sets s1 = fl_pending_sets s @ [p]" and n: "bs_member (fl_notifications s1) n" "checkpoint_tick < n"
    using schedule_event_Ok [OF assms(3)] d(1) by (auto simp: p_def key_def split: if_splits)
  have due: "due t p \<longleftrightarrow> ready \<le> t" for t by (auto simp: due_def p_def ready_def)
  note s2 = scheduled_advance [OF assms(1-4) pend, folded key_def]
  have ready: "he_timestamp event = 0 \<longrightarrow> ready = n" using d(1) n(2) by (auto simp: ready_def max_def split: if_splits)
  show ?thesis
    by (rule exI [of _ delay], rule exI [of _ stamp])
      (use d n pend s2 ready in \<open>simp add: Let_def p_def [symmetric] key_def [symmetric] ready_def [symmetric] due not_le\<close>)
qed

text \<open>C23. The gate of a Cube instruction at a tick either opens, having consumed one token for each
  older wait and no other, or names a later tick to retry at while the oldest remaining wait is older
  than the instruction and has no token. It never fails.\<close>
theorem cube_gate:
  assumes "flags_ok s" "token_total s < 2 ^ 64" "fl_now s \<le> tick" "unat tick + 2 < 2 ^ 64"
  shows "\<exists>s1 s' r. flag_advance_to tick s = (s1, Ok ()) \<and> gate_cube_instruction s tick i = (s', Ok r) \<and>
    (case r of
       None \<Rightarrow> fl_cube_waits s1 = older_waits i s1 @ fl_cube_waits s' \<and>
         (\<forall>key. unat (key_count s1 key) = unat (key_count s' key) + waits_on key (older_waits i s1))
     | Some resume \<Rightarrow> tick < resume \<and>
         (\<exists>w rest. fl_cube_waits s' = w # rest \<and> qc_instruction_id w < i \<and> key_count s' (key_from_step (qc_step w)) = 0))"
proof -
  from flag_advance_total [OF assms] obtain s1 where s1: "flag_advance_to tick s = (s1, Ok ())" "flags_ok s1"
    "\<forall>t\<in>wake_ticks s1. tick < t" by blast
  obtain s' x where x: "gate_waits tick i s1 = (s', x)" by fastforce
  have "waits_ok s1" using s1(2) by (simp add: flags_ok_def)
  from gate_waits_result [OF x this] obtain ws where c: "consumes ws s1 s'" "\<forall>w\<in>set ws. qc_instruction_id w < i" and
    r: "x = Ok None \<and> (\<forall>w rest. fl_cube_waits s' = w # rest \<longrightarrow> i \<le> qc_instruction_id w) \<or>
     (\<exists>w rest. fl_cube_waits s' = w # rest \<and> qc_instruction_id w < i \<and> key_count s' (key_from_step (qc_step w)) = 0 \<and>
        (case next_delivery_tick s' (key_from_step (qc_step w)) of
           Some t \<Rightarrow> x = Ok (Some t)
         | None \<Rightarrow> x = map_sum (\<lambda>_. Fail FlagTimeOverflow) Some (ok_or (checked_add tick 1) ())))" by blast
  have gate: "gate_cube_instruction s tick i = (s', x)" using s1(1) x by (simp add: gate_cube_instruction_def)
  have add: "checked_add tick 1 = Some (tick + 1)" using assms(4) by (simp add: checked_add_def)
  have "wake_ticks s' = wake_ticks s1"
    using c(1) unfolding consumes_def same_but_waits_def by (metis wake_ticks_other(1,3))
  then have later: "tick < t" if "next_delivery_tick s' key = Some t" for key t
    using s1(3) next_delivery_tick_wake [OF that] by simp
  from r show ?thesis
  proof (elim disjE exE conjE)
    assume "x = Ok None" "\<forall>w rest. fl_cube_waits s' = w # rest \<longrightarrow> i \<le> qc_instruction_id w"
    with s1(1) gate c consumes_all [OF c] show ?thesis by (intro exI [of _ s1] exI [of _ s'] exI [of _ None]) (simp add: consumes_def)
  next
    fix w rest
    assume w: "fl_cube_waits s' = w # rest" "qc_instruction_id w < i" "key_count s' (key_from_step (qc_step w)) = 0"
      "case next_delivery_tick s' (key_from_step (qc_step w)) of
         Some t \<Rightarrow> x = Ok (Some t)
       | None \<Rightarrow> x = map_sum (\<lambda>_. Fail FlagTimeOverflow) Some (ok_or (checked_add tick 1) ())"
    have "\<exists>t. x = Ok (Some t) \<and> tick < t"
      using w(4) later checked_add_less [OF add] add by (auto simp: ok_or_def split: option.splits)
    with s1(1) gate w show ?thesis by auto
  qed
qed

section \<open>Witnesses\<close>

text \<open>The set of the Cube unit towards the fix pipe for L0c, and the wait for it.\<close>

definition sample_flag :: hardware_flag_instruction where
  "sample_flag =
     \<lparr>hf_word = 0x41e1c900, hf_operation = HfSet, hf_event_source = EventImmediate 0, hf_source_pipe = PipeCube,
      hf_destination_pipe_code = 10, hf_memory = L0c, hf_trigger = False\<rparr>"

definition sample_set :: hardware_flag_step where
  "sample_set = \<lparr>hs_pc = 0, hs_instruction = sample_flag, hs_event_id = 0, hs_source_value = None\<rparr>"

definition sample_wait :: hardware_flag_step where
  "sample_wait = sample_set\<lparr>hs_instruction := sample_flag\<lparr>hf_operation := HfWait\<rparr>\<rparr>"

text \<open>A set scheduled at tick 3 and a wait of instruction 7.\<close>

definition sample_flags :: flag_state where
  "sample_flags = fst (enqueue_cube_wait (fst (schedule_set flag_state_default sample_set 3)) 7 sample_wait)"

lemma sample_flags_ok: "flags_ok sample_flags"
  by (simp add: sample_flags_def schedule_set_def flags_ok_enqueue_wait flags_ok_schedule flags_ok_default)

lemmas schedule_defs = schedule_set_def schedule_event_def key_count_def checked_add_def visibility_ticks_def
  hardware_flag_almost_full_def

lemma sample_flags_state:
  "sample_flags = flag_state_default
     \<lparr>fl_pending_sets := [\<lparr>pf_admitted_tick = 3, pf_event = \<lparr>he_step = sample_set, he_timestamp = 5\<rparr>,
        pf_key = (10, 3, 0)\<rparr>], fl_notifications := [(5, ())],
      fl_cube_waits := [\<lparr>qc_instruction_id = 7, qc_step = sample_wait\<rparr>]\<rparr>"
  by (simp add: sample_flags_def schedule_defs enqueue_cube_wait_def newer_than_last_def token_total_def
      pending_cube_set_count_def counter_sum_def sample_set_def sample_wait_def sample_flag_def flag_state_default_def
      bm_empty_def key_from_step_def memory_code_def bs_insert_def Let_def)

lemma sample_flags_totals: "token_total sample_flags = 1" "fl_now sample_flags = 0"
  by (simp_all add: sample_flags_state flag_state_default_def token_total_def pending_cube_set_count_def counter_sum_def
      bm_empty_def)

theorem decoded_flag_supported_witness:
  "hardware_flag_decode 0x41e1c900 = Some sample_flag \<and>
   hardware_flag_resolve sample_flag 0 (replicate 32 0) \<noteq> Err Panic"
proof -
  have "hardware_flag_decode 0x41e1c900 = Some sample_flag" by code_simp
  with decoded_flag_supported [OF this, of "replicate 32 0" 0] show ?thesis by simp
qed

theorem reachable_flags_bounded_witness:
  "\<exists>s. flag_step\<^sup>*\<^sup>* flag_state_default s \<and> fl_pending_sets s \<noteq> [] \<and> flag_count s 10 L0c 0 \<le> 63"
proof -
  let ?s = "fst (schedule_event flag_state_default \<lparr>he_step = sample_set, he_timestamp = 0\<rparr> 3)"
  have s: "flag_step\<^sup>*\<^sup>* flag_state_default ?s" by (intro r_into_rtranclp flag_step.schedule)
  moreover have "fl_pending_sets ?s \<noteq> []"
    by (simp add: schedule_defs sample_set_def sample_flag_def flag_state_default_def bm_empty_def Let_def)
  ultimately show ?thesis using reachable_flags_bounded [OF s] by blast
qed

theorem flag_time_advances_witness:
  "\<exists>s'. flag_advance_to 9 sample_flags = (s', Ok ()) \<and> fl_now s' = 9 \<and> flags_ok s'"
  using flag_time_advances [OF sample_flags_ok, of 9] by (auto simp: sample_flags_totals)

theorem tokens_conserved_witness:
  "waiting_sets sample_flags (10, 3, 0) = 1 \<and> token_total (fst (flag_advance_to 9 sample_flags)) = 1 \<and>
   unat (key_count (fst (flag_advance_to 9 sample_flags)) (10, 3, 0)) =
     1 - waiting_sets (fst (flag_advance_to 9 sample_flags)) (10, 3, 0)"
proof -
  have "waiting_sets sample_flags (10, 3, 0) = 1" "key_count sample_flags (10, 3, 0) = 0"
    by (simp_all add: sample_flags_state flag_state_default_def waiting_sets_def held_sets_def key_count_def bm_empty_def
        numeral_eq_Suc)
  with tokens_conserved [OF sample_flags_ok, of 9] show ?thesis
    by (auto simp: sample_flags_totals Let_def dest: spec [of _ "(10, 3, 0)"])
qed

text \<open>A set of event 1 is scheduled beside the one of event 0: it waits at tick 5 and is visible at tick 6.\<close>

theorem delivered_at_notification_witness:
  "\<exists>s1 s2 s3. schedule_event sample_flags \<lparr>he_step = sample_set\<lparr>hs_event_id := 1\<rparr>, he_timestamp = 0\<rparr> 4 = (s1, Ok 6) \<and>
     flag_advance_to 5 s1 = (s2, Ok ()) \<and> key_count s2 (10, 3, 1) = 0 \<and>
     flag_advance_to 6 s1 = (s3, Ok ()) \<and> unat (key_count s3 (10, 3, 1)) = 1"
proof -
  let ?e = "\<lparr>he_step = sample_set\<lparr>hs_event_id := 1\<rparr>, he_timestamp = 0\<rparr>"
  let ?s = "fst (schedule_event sample_flags ?e 4)"
  have snd: "snd (schedule_event sample_flags ?e 4) = Ok 6" "token_total ?s = 2" "fl_now ?s = 0"
    "bs_member (fl_notifications ?s) 6"
    by (simp_all add: sample_flags_state schedule_defs token_total_def sample_set_def sample_flag_def flag_state_default_def
        bm_empty_def Let_def counter_sum_def pending_cube_set_count_def bs_insert_def bs_member_def bm_contains_def bm_get_def
        key_from_step_def memory_code_def)
  then have s1: "schedule_event sample_flags ?e 4 = (?s, Ok 6)" by (simp add: prod_eq_iff)
  have w: "waiting_sets sample_flags (10, 3, 1) = 0" "key_count sample_flags (10, 3, 1) = 0"
    by (simp_all add: sample_flags_state flag_state_default_def waiting_sets_def held_sets_def key_count_def bm_empty_def
        numeral_eq_Suc)
  have key: "key_from_step (sample_set\<lparr>hs_event_id := 1\<rparr>) = (10, 3, 1)"
    by (simp add: key_from_step_def sample_set_def sample_flag_def memory_code_def)
  have ok: "flags_ok ?s" by (rule flags_ok_schedule [OF sample_flags_ok])
  obtain s2 where s2: "flag_advance_to 5 ?s = (s2, Ok ())" using flag_advance_total [OF ok, of 5] by (auto simp: snd)
  obtain s3 where s3: "flag_advance_to 6 ?s = (s3, Ok ())" using flag_advance_total [OF ok, of 6] by (auto simp: snd)
  have t: "token_total sample_flags + 1 < 2 ^ 64" by (simp add: sample_flags_totals)
  from delivered_at_notification [OF sample_flags_ok t s1 s2] w key have "key_count s2 (10, 3, 1) = 0"
    by (auto simp: Let_def)
  moreover from delivered_at_notification [OF sample_flags_ok t s1 s3] w key snd(4)
  have "unat (key_count s3 (10, 3, 1)) = 1" by (auto simp: Let_def)
  ultimately show ?thesis using s1 s2 s3 by blast
qed

theorem cube_gate_witness:
  "\<exists>s' r. gate_cube_instruction sample_flags 2 8 = (s', Ok r)"
  using cube_gate [OF sample_flags_ok, of 2 8] by (auto simp: sample_flags_totals)

end
