(* ===== verification/Device_Flags.thy ===== *)
theory Device_Flags
  imports Ordered_Map Rust_Std
begin

text \<open>
  Two small clocks of a C220 core: the credits of the cross-core notifications,
  \<open>src/src/sim/c220/sync/device_flags.rs\<close>, and the issue clock that admits one instruction per tick,
  \<open>src/src/sim/c220/schedule.rs\<close>. The lemmas follow a trace of operations: credits are received
  minus granted, and issue ticks strictly increase.
\<close>

section \<open>Device flags\<close>

record device_flag_state =
  df_counters :: "(u8, u32) btree_map"
  df_blocked :: bool
  df_waiting_for :: "u32 option"

record device_flag_delivery =
  dv_flag_id :: u8
  dv_count :: u32
  dv_overflow :: bool
  dv_dispatch_unblocked :: bool

definition device_flags_default :: device_flag_state where
  "device_flags_default = \<lparr>df_counters = bm_empty, df_blocked = False, df_waiting_for = None\<rparr>"

definition flag_u8 :: "u32 \<Rightarrow> u8 option" where
  "flag_u8 flag_id = (if unat flag_id < 256 then Some (ucast flag_id) else None)"

definition credit :: "device_flag_state \<Rightarrow> u8 \<Rightarrow> u32" where
  "credit s flag_id = (case bm_get (df_counters s) flag_id of Some count \<Rightarrow> count | None \<Rightarrow> 0)"

definition device_flag_count :: "device_flag_state \<Rightarrow> u32 \<Rightarrow> u32" where
  "device_flag_count s flag_id = (case flag_u8 flag_id of Some flag_id \<Rightarrow> credit s flag_id | None \<Rightarrow> 0)"

definition receive_flag :: "device_flag_state \<Rightarrow> u8 \<Rightarrow> device_flag_state \<times> device_flag_delivery" where
  "receive_flag s flag_id =
     (let count = credit s flag_id + 1; overflow = 15 < count
      in (s\<lparr>df_counters := bm_insert flag_id count (df_counters s),
            df_blocked := df_blocked s \<and> overflow\<rparr>,
          \<lparr>dv_flag_id = flag_id, dv_count = count, dv_overflow = overflow,
           dv_dispatch_unblocked = (df_blocked s \<and> \<not> overflow)\<rparr>))"

definition try_wait_flag :: "device_flag_state \<Rightarrow> u32 \<Rightarrow> device_flag_state \<times> bool" where
  "try_wait_flag s flag_id =
     (case Option.bind (flag_u8 flag_id) (\<lambda>i. map_option (Pair i) (bm_get (df_counters s) i)) of
        Some (i, count) \<Rightarrow>
          if count \<noteq> 0
          then (s\<lparr>df_counters := bm_insert i (count - 1) (df_counters s), df_blocked := False,
                  df_waiting_for := None\<rparr>, True)
          else (s\<lparr>df_blocked := True, df_waiting_for := Some flag_id\<rparr>, False)
      | None \<Rightarrow> (s\<lparr>df_blocked := True, df_waiting_for := Some flag_id\<rparr>, False))"

definition reset_counters :: "device_flag_state \<Rightarrow> device_flag_state" where
  "reset_counters s = s\<lparr>df_counters := bm_empty\<rparr>"

definition all_consumed :: "device_flag_state \<Rightarrow> bool" where
  "all_consumed s = list_all (\<lambda>(_, count). count = 0) (df_counters s)"

text \<open>A trace of deliveries and waits, and the state with the waits' answers in order.\<close>

datatype device_event = Receive u8 | Wait u32

fun device_run :: "device_flag_state \<Rightarrow> device_event list \<Rightarrow> device_flag_state \<times> bool list" where
  "device_run s [] = (s, [])"
| "device_run s (Receive i # es) = device_run (fst (receive_flag s i)) es"
| "device_run s (Wait f # es) =
     (case try_wait_flag s f of (s', granted) \<Rightarrow>
        (case device_run s' es of (s'', answers) \<Rightarrow> (s'', granted # answers)))"

text \<open>The reference: a wait is granted as long as more was received than granted.\<close>

fun grants :: "(u8 \<Rightarrow> nat) \<Rightarrow> device_event list \<Rightarrow> bool list" where
  "grants c [] = []"
| "grants c (Receive i # es) = grants (c(i := c i + 1)) es"
| "grants c (Wait f # es) =
     (case flag_u8 f of
        Some i \<Rightarrow> if 0 < c i then True # grants (c(i := c i - 1)) es else False # grants c es
      | None \<Rightarrow> False # grants c es)"

lemma credit_receive [simp]: "credit (fst (receive_flag s i)) j = (if j = i then credit s i + 1 else credit s j)"
  by (simp add: receive_flag_def credit_def Let_def)

lemma try_wait_flag_cases:
  "try_wait_flag s f =
     (case flag_u8 f of
        Some i \<Rightarrow> if credit s i \<noteq> 0
          then (s\<lparr>df_counters := bm_insert i (credit s i - 1) (df_counters s), df_blocked := False, df_waiting_for := None\<rparr>, True)
          else (s\<lparr>df_blocked := True, df_waiting_for := Some f\<rparr>, False)
      | None \<Rightarrow> (s\<lparr>df_blocked := True, df_waiting_for := Some f\<rparr>, False))"
  by (auto simp: try_wait_flag_def credit_def split: option.splits)

lemma credit_update [simp]:
  "credit (s\<lparr>df_blocked := b, df_waiting_for := w\<rparr>) j = credit s j"
  "credit (s\<lparr>df_counters := bm_insert i c (df_counters s)\<rparr>) j =
     (if j = i then c else credit s j)"
  by (simp_all add: credit_def)

lemma device_run_grants:
  assumes "\<forall>i. unat (credit s i) = c i" "\<forall>i. c i + length es < 2 ^ 32"
  shows "snd (device_run s es) = grants c es"
  using assms
proof (induction es arbitrary: s c)
  case (Cons e es)
  show ?case
  proof (cases e)
    case (Receive i)
    have "c i + 1 < 2 ^ 32" using Cons.prems(2) by (auto dest: spec [of _ i])
    then have "unat (credit s i + 1) = c i + 1" using Cons.prems(1) by (subst unat_add_exact) simp_all
    moreover have "(c(i := c i + 1)) j + length es < 2 ^ 32" for j
      using Cons.prems(2) [rule_format, of i] Cons.prems(2) [rule_format, of j] by simp
    then have "\<forall>j. (c(i := c i + 1)) j + length es < 2 ^ 32" by blast
    ultimately show ?thesis using Cons.IH [of "fst (receive_flag s i)" "c(i := c i + 1)"] Cons.prems(1) Receive
      by (simp add: fun_upd_def)
  next
    case (Wait f)
    have less: "\<forall>j. c j + length es < 2 ^ 32"
    proof
      fix j
      from Cons.prems(2) [rule_format, of j] show "c j + length es < 2 ^ 32" by simp
    qed
    show ?thesis
    proof (cases "\<exists>i. flag_u8 f = Some i \<and> 0 < c i")
      case True
      then obtain i where i: "flag_u8 f = Some i" "0 < c i" by blast
      then have nz: "credit s i \<noteq> 0" using Cons.prems(1) by (metis less_irrefl unat_0)
      then have dec: "unat (credit s i - 1) = c i - 1" using Cons.prems(1) by (simp add: unat_minus_one)
      have "c i - 1 + length es < 2 ^ 32" using less by (metis add_less_mono1 diff_le_self le_less_trans add_le_mono1)
      with less have dec_less: "\<forall>j. (c(i := c i - 1)) j + length es < 2 ^ 32" by simp
      let ?s = "s\<lparr>df_counters := bm_insert i (credit s i - 1) (df_counters s), df_blocked := False, df_waiting_for := None\<rparr>"
      have "snd (device_run ?s es) = grants (c(i := c i - 1)) es"
        using dec Cons.prems(1) dec_less by (intro Cons.IH) simp_all
      with Wait i nz show ?thesis by (cases "device_run ?s es") (simp add: try_wait_flag_cases)
    next
      case False
      then have "\<forall>i. flag_u8 f = Some i \<longrightarrow> credit s i = 0" using Cons.prems(1) by (metis neq0_conv unat_eq_zero)
      then have refused: "try_wait_flag s f = (s\<lparr>df_blocked := True, df_waiting_for := Some f\<rparr>, False)"
        by (auto simp: try_wait_flag_cases split: option.splits)
      have "snd (device_run (s\<lparr>df_blocked := True, df_waiting_for := Some f\<rparr>) es) = grants c es"
        using Cons.prems(1) less by (intro Cons.IH) simp_all
      with Wait False refused show ?thesis by (auto split: prod.splits option.splits)
    qed
  qed
qed simp

section \<open>The issue clock\<close>

datatype stall_cause =
    InstructionRate
  | ScalarDependency | LsuDependency
  | Mte1IssueRate | Mte1IssueQueueFull | Mte1CommandQueueFull | Mte1OutstandingLimit | Mte1Dependency | Mte1Barrier
  | Mte2Barrier | MtePhysicalDependency | HardwareFlagDependency | PipelineEventDependency | DeviceFlagDependency
  | Mte2IssueRate | Mte2IssueQueueFull | Mte2CommandQueueFull | Mte2OutstandingLimit | Mte2Dependency
  | Mte3IssueRate | Mte3QueueFull | Mte3IssueQueueFull | Mte3OutstandingLimit | Mte3Barrier | Mte3Dependency
  | VectorDependency | VectorIssueQueueFull | VectorReceptionQueueFull | VectorOutstandingLimit | VectorBarrier
  | CubeDependency | CubeIssueQueueFull | CubeOutstandingLimit | CubeBarrier
  | FixpDependency | FixpIssueQueueFull | FixpCommandQueueFull | FixpOutstandingLimit | FixpBarrier

record stall =
  sl_tick :: u64
  sl_pc :: u64
  sl_resume_tick :: u64
  sl_cause :: stall_cause

datatype schedule_error = ScheduleTimeReversed u64 u64 | ScheduleTimeOverflow

record issue_clock =
  ic_last_tick :: "u64 option"
  ic_next_instruction_tick :: u64

definition issue_clock_default :: issue_clock where
  "issue_clock_default = \<lparr>ic_last_tick = None, ic_next_instruction_tick = 0\<rparr>"

definition observe :: "issue_clock \<Rightarrow> u64 \<Rightarrow> u64 \<Rightarrow> issue_clock \<times> (schedule_error + stall option)" where
  "observe c tick pc =
     (case (case ic_last_tick c of Some previous \<Rightarrow> if tick < previous then Some previous else None | None \<Rightarrow> None) of
        Some previous \<Rightarrow> (c, Err (ScheduleTimeReversed tick previous))
      | None \<Rightarrow>
          (c\<lparr>ic_last_tick := Some tick\<rparr>,
           Ok (if tick < ic_next_instruction_tick c
               then Some \<lparr>sl_tick = tick, sl_pc = pc, sl_resume_tick = ic_next_instruction_tick c, sl_cause = InstructionRate\<rparr>
               else None)))"

definition finish_issue :: "issue_clock \<Rightarrow> u64 \<Rightarrow> issue_clock \<times> (schedule_error + unit)" where
  "finish_issue c tick =
     (case checked_add tick 1 of
        None \<Rightarrow> (c, Err ScheduleTimeOverflow)
      | Some next \<Rightarrow> (c\<lparr>ic_next_instruction_tick := next\<rparr>, Ok ()))"

text \<open>A core observes ticks and finishes an instruction only at a tick that it may issue at.\<close>

inductive issues :: "u64 list \<Rightarrow> issue_clock \<Rightarrow> bool" where
  fresh: "issues [] issue_clock_default"
| look: "issues ts c \<Longrightarrow> issues ts (fst (observe c tick pc))"
| issue: "issues ts c \<Longrightarrow> observe c tick pc = (c', Ok None) \<Longrightarrow> finish_issue c' tick = (c'', Ok ()) \<Longrightarrow>
    issues (ts @ [tick]) c''"

lemma observe_next [simp]: "ic_next_instruction_tick (fst (observe c tick pc)) = ic_next_instruction_tick c"
  by (simp add: observe_def split: option.splits)

lemma issues_increase:
  "issues ts c \<Longrightarrow> sorted_wrt (<) ts \<and> (\<forall>t\<in>set ts. t < ic_next_instruction_tick c)"
proof (induction rule: issues.induct)
  case (issue ts c tick pc c' c'')
  have c': "ic_next_instruction_tick c' = ic_next_instruction_tick c" "\<not> tick < ic_next_instruction_tick c"
    using issue(2) by (auto simp: observe_def split: option.splits if_splits)
  obtain n where n: "checked_add tick 1 = Some n" "c'' = c'\<lparr>ic_next_instruction_tick := n\<rparr>"
    using issue(3) by (auto simp: finish_issue_def split: option.splits)
  then have "tick < n" by (simp add: checked_add_less)
  moreover have "t < tick" if "t \<in> set ts" for t using issue.IH that c' by auto
  ultimately show ?case using issue.IH n by (auto simp: sorted_wrt_append intro: less_trans)
qed (simp_all add: issue_clock_default_def)

section \<open>Claims\<close>

text \<open>C24. From a fresh state, over any trace of fewer than 2^32 deliveries and waits, a wait is answered
  exactly as by a counter of credits: granted when its flag was received more often than granted,
  refused for a flag number beyond a byte.\<close>
theorem device_flags_grant_credits:
  assumes "length events < 2 ^ 32"
  shows "snd (device_run device_flags_default events) = grants (\<lambda>_. 0) events"
  using assms by (intro device_run_grants) (simp_all add: device_flags_default_def credit_def)

text \<open>A core issues at most one instruction in a tick: the ticks at which instructions finish
  strictly increase, and at every tick up to the last the clock reports a stall that ends right after it.\<close>
theorem one_issue_per_tick:
  assumes "issues (ts @ [last_tick]) c" "observe c tick pc = (c', Ok r)" "tick \<le> last_tick"
  shows "sorted_wrt (<) (ts @ [last_tick]) \<and> (\<exists>s. r = Some s \<and> last_tick < sl_resume_tick s \<and> sl_cause s = InstructionRate)"
proof -
  note inc = issues_increase [OF assms(1)]
  then have "last_tick < ic_next_instruction_tick c" by simp
  with assms(2,3) inc show ?thesis by (auto simp: observe_def split: option.splits if_splits)
qed

theorem device_flags_grant_credits_witness:
  "snd (device_run device_flags_default [Wait 3, Receive 3, Wait 3, Wait 3, Wait 300]) = [False, True, False, False]"
  using device_flags_grant_credits [of "[Wait 3, Receive 3, Wait 3, Wait 3, Wait 300]"]
  by (simp add: flag_u8_def)

theorem one_issue_per_tick_witness:
  "\<exists>c c' r. issues [4] c \<and> observe c 4 0 = (c', Ok r) \<and> r \<noteq> None"
proof -
  let ?c = "issue_clock_default\<lparr>ic_last_tick := Some 4, ic_next_instruction_tick := 5\<rparr>"
  have "issues ([] @ [4]) ?c"
    by (rule issues.issue [OF issues.fresh, of 4 0 "issue_clock_default\<lparr>ic_last_tick := Some 4\<rparr>"])
      (simp_all add: observe_def finish_issue_def issue_clock_default_def checked_add_def)
  moreover obtain c' r where "observe ?c 4 0 = (c', Ok r)" by (simp add: observe_def)
  ultimately show ?thesis using one_issue_per_tick [of "[]" 4 ?c 4 0 c' r] by auto
qed

end
