(* ===== verification/Queue_Map.thy ===== *)
theory Queue_Map
  imports Ordered_Map "HOL-Library.Multiset"
begin

text \<open>
  Ordered maps whose values are queues, \<open>BTreeMap<K, VecDeque<V>>\<close>, as the synchronisation and timing components
  keep their scheduled items: the bucket of a key, and the multiset of all the items, with what inserting and
  removing buckets does to it.
\<close>

text \<open>\<open>entry(k).or_default()\<close> on a map of queues.\<close>

definition bucket :: "('k, 'v list) btree_map \<Rightarrow> 'k \<Rightarrow> 'v list" where
  "bucket m k = (case bm_get m k of Some vs \<Rightarrow> vs | None \<Rightarrow> [])"

definition bucket_extend :: "'k::linorder \<Rightarrow> 'v list \<Rightarrow> ('k, 'v list) btree_map \<Rightarrow> ('k, 'v list) btree_map" where
  "bucket_extend k vs m = bm_insert k (bucket m k @ vs) m"

definition bucket_total :: "('v \<Rightarrow> 'a) \<Rightarrow> ('k, 'v list) btree_map \<Rightarrow> 'a multiset" where
  "bucket_total f m = mset (concat (map (map f \<circ> snd) m))"

lemma bucket_total_simps [simp]:
  "bucket_total f [] = {#}" "bucket_total f ((k, vs) # m) = image_mset f (mset vs) + bucket_total f m"
  by (simp_all add: bucket_total_def)

lemma bm_Cons_fresh: "bm_ok ((k', v) # m) \<Longrightarrow> k \<le> k' \<Longrightarrow> bm_get m k = None"
proof (rule ccontr)
  assume ok: "bm_ok ((k', v) # m)" and k: "k \<le> k'" and "bm_get m k \<noteq> None"
  then obtain x where "(k, x) \<in> set m" by (auto dest: bm_get_Some_mem)
  with ok have "k' < k" by (force simp: bm_ok_def)
  with k show False by simp
qed

lemma bm_Cons_ok: "bm_ok (e # m) \<Longrightarrow> bm_ok m"
  by (simp add: bm_ok_def)

lemma bucket_total_insert:
  "bm_ok m \<Longrightarrow> bucket_total f (bm_insert k vs m) + image_mset f (mset (bucket m k)) = bucket_total f m + image_mset f (mset vs)"
proof (induction m)
  case (Cons e m)
  obtain k' v where e: "e = (k', v)" by fastforce
  have none: "k \<le> k' \<Longrightarrow> bm_get m k = None" using bm_Cons_fresh [of k' v m k] Cons.prems e by simp
  have ih: "bucket_total f (bm_insert k vs m) + image_mset f (mset (bucket m k)) = bucket_total f m + image_mset f (mset vs)"
    using Cons.IH bm_Cons_ok [OF Cons.prems] .
  consider "k < k'" | "k = k'" | "k' < k" by fastforce
  then show ?case
  proof cases
    case 3
    then show ?thesis using ih e by (auto simp: bucket_def ac_simps)
  qed (use none e in \<open>auto simp: bucket_def ac_simps\<close>)
qed (simp add: bucket_def)

lemma bm_remove_fresh: "bm_get m k = None \<Longrightarrow> bm_remove k m = m"
  by (induction m) (auto simp: bm_remove_def split: if_splits)

lemma bm_remove_Cons [simp]: "bm_remove k ((k', v) # m) = (if k' = k then bm_remove k m else (k', v) # bm_remove k m)"
  by (simp add: bm_remove_def)

lemma bucket_total_remove:
  "bm_ok m \<Longrightarrow> bucket_total f (bm_remove k m) + image_mset f (mset (bucket m k)) = bucket_total f m"
proof (induction m)
  case (Cons e m)
  obtain k' v where e: "e = (k', v)" by fastforce
  have "bm_get m k' = None" using bm_Cons_fresh [of k' v m k'] Cons.prems e by simp
  with Cons.IH [OF bm_Cons_ok [OF Cons.prems]] e show ?case
    by (cases "k = k'") (auto simp: bucket_def bm_remove_fresh ac_simps)
qed (simp add: bucket_def bm_remove_def)

lemma bucket_total_extend [simp]:
  "bm_ok m \<Longrightarrow> bucket_total f (bucket_extend k vs m) = bucket_total f m + image_mset f (mset vs)"
  using bucket_total_insert [of m f k "bucket m k @ vs"] by (simp add: bucket_extend_def ac_simps)

lemma bucket_extend_ok [simp]: "bm_ok m \<Longrightarrow> bm_ok (bucket_extend k vs m)"
  by (simp add: bucket_extend_def bm_ok_insert)

end
