(* ===== verification/Pipeline_Events.thy ===== *)
theory Pipeline_Events
  imports Queue_Map Flow_Isa
begin

text \<open>
  The ordinary events between the pipelines of a C220 core,
  \<open>src/src/sim/c220/sync/pipeline_events.rs\<close>: a set is published at once or deferred until the
  instruction before it retires, and a wait consumes the first published event of its route and flag.
  The lemmas show that the events set, ready, deferred and consumed balance, and that a route serves
  its events of one flag in the order of publication.
\<close>

section \<open>State\<close>

record pipeline_event =
  pe_instruction_id :: u64
  pe_step :: flag_step
  pe_received_tick :: u64
  pe_published_tick :: u64

record deferred_event =
  de_instruction_id :: u64
  de_step :: flag_step
  de_received_tick :: u64
  de_predecessor :: u64

record event_consumption =
  ec_instruction_id :: u64
  ec_step :: flag_step
  ec_tick :: u64
  ec_event :: pipeline_event

record pipeline_events =
  pl_ready :: "(u8 \<times> u8, pipeline_event list) btree_map"
  pl_deferred :: "(u8 \<times> u64, deferred_event list) btree_map"
  pl_publications :: "pipeline_event list"
  pl_consumptions :: "event_consumption list"

definition pipeline_events_default :: pipeline_events where
  "pipeline_events_default =
     \<lparr>pl_ready = bm_empty, pl_deferred = bm_empty, pl_publications = [], pl_consumptions = []\<rparr>"

definition event_route :: "flag_step \<Rightarrow> u8 \<times> u8" where
  "event_route step = (fi_source_pipe_code (fs_instruction step), fi_trigger_pipe_code (fs_instruction step))"

section \<open>Operations\<close>

definition begin_advance :: "pipeline_events \<Rightarrow> pipeline_events" where
  "begin_advance s = s\<lparr>pl_publications := [], pl_consumptions := []\<rparr>"

definition ready_events :: "pipeline_events \<Rightarrow> u8 \<Rightarrow> u8 \<Rightarrow> pipeline_event list" where
  "ready_events s source destination = bucket (pl_ready s) (source, destination)"

definition pending_events :: "pipeline_events \<Rightarrow> deferred_event list" where
  "pending_events s = concat (map snd (pl_deferred s))"

definition publish :: "pipeline_event \<Rightarrow> pipeline_events \<Rightarrow> pipeline_events" where
  "publish e s =
     s\<lparr>pl_ready := bm_insert (event_route (pe_step e)) (bucket (pl_ready s) (event_route (pe_step e)) @ [e]) (pl_ready s),
       pl_publications := pl_publications s @ [e]\<rparr>"

definition set_event :: "pipeline_events \<Rightarrow> u64 \<Rightarrow> flag_step \<Rightarrow> u64 option \<Rightarrow> u64 \<Rightarrow> pipeline_events" where
  "set_event s instruction_id step predecessor tick =
     (case predecessor of
        Some predecessor \<Rightarrow>
          let key = (fi_source_pipe_code (fs_instruction step), predecessor)
          in s\<lparr>pl_deferred := bm_insert key
                 (bucket (pl_deferred s) key @
                   [\<lparr>de_instruction_id = instruction_id, de_step = step, de_received_tick = tick,
                     de_predecessor = predecessor\<rparr>]) (pl_deferred s)\<rparr>
      | None \<Rightarrow>
          publish \<lparr>pe_instruction_id = instruction_id, pe_step = step, pe_received_tick = tick,
                   pe_published_tick = tick\<rparr> s)"

definition publish_deferred :: "u64 \<Rightarrow> deferred_event \<Rightarrow> pipeline_events \<Rightarrow> pipeline_events" where
  "publish_deferred tick e =
     publish \<lparr>pe_instruction_id = de_instruction_id e, pe_step = de_step e,
              pe_received_tick = de_received_tick e, pe_published_tick = tick\<rparr>"

definition retire :: "pipeline_events \<Rightarrow> u8 \<Rightarrow> u64 \<Rightarrow> u64 \<Rightarrow> pipeline_events" where
  "retire s source instruction_id tick =
     (case bm_get (pl_deferred s) (source, instruction_id) of
        None \<Rightarrow> s
      | Some events \<Rightarrow>
          fold (publish_deferred tick) events
            (s\<lparr>pl_deferred := bm_remove (source, instruction_id) (pl_deferred s)\<rparr>))"

text \<open>\<open>position\<close> followed by \<open>remove\<close>: the first match and the list without it.\<close>

fun remove_first :: "('a \<Rightarrow> bool) \<Rightarrow> 'a list \<Rightarrow> ('a \<times> 'a list) option" where
  "remove_first p [] = None"
| "remove_first p (x # xs) =
     (if p x then Some (x, xs) else map_option (\<lambda>(y, ys). (y, x # ys)) (remove_first p xs))"

definition consume_event ::
  "pipeline_events \<Rightarrow> u64 \<Rightarrow> flag_step \<Rightarrow> u64 \<Rightarrow> pipeline_events \<times> pipeline_event option" where
  "consume_event s instruction_id step tick =
     (let route = event_route step in
      case bm_get (pl_ready s) route of
        None \<Rightarrow> (s, None)
      | Some events \<Rightarrow>
          (case remove_first (\<lambda>e. fs_flag_id (pe_step e) = fs_flag_id step) events of
             None \<Rightarrow> (s, None)
           | Some (e, rest) \<Rightarrow>
               (s\<lparr>pl_ready := (if rest = [] then bm_remove route (pl_ready s) else bm_insert route rest (pl_ready s)),
                  pl_consumptions := pl_consumptions s @
                    [\<lparr>ec_instruction_id = instruction_id, ec_step = step, ec_tick = tick, ec_event = e\<rparr>]\<rparr>,
                Some e)))"

lemma remove_first_Some:
  "remove_first p xs = Some (x, ys) \<Longrightarrow> \<exists>us vs. xs = us @ x # vs \<and> ys = us @ vs \<and> p x \<and> (\<forall>u\<in>set us. \<not> p u)"
proof (induction xs arbitrary: ys)
  case (Cons a xs)
  show ?case
  proof (cases "p a")
    case True
    with Cons.prems have "a # xs = [] @ x # xs \<and> ys = [] @ xs \<and> p x \<and> (\<forall>u\<in>set []. \<not> p u)" by simp
    then show ?thesis by blast
  next
    case False
    with Cons.prems obtain zs where zs: "remove_first p xs = Some (x, zs)" "ys = a # zs" by auto
    from Cons.IH [OF zs(1)] obtain us vs where "xs = us @ x # vs" "zs = us @ vs" "p x" "\<forall>u\<in>set us. \<not> p u" by blast
    then have "a # xs = (a # us) @ x # vs \<and> ys = (a # us) @ vs \<and> p x \<and> (\<forall>u\<in>set (a # us). \<not> p u)"
      using zs(2) False by simp
    then show ?thesis by blast
  qed
qed simp

lemma remove_first_None: "remove_first p xs = None \<longleftrightarrow> (\<forall>x\<in>set xs. \<not> p x)"
  by (induction xs) auto

section \<open>Balance\<close>

text \<open>An event is known by the instruction that set it and its step.\<close>

type_synonym event_id = "u64 \<times> flag_step"

definition published_id :: "pipeline_event \<Rightarrow> event_id" where
  "published_id e = (pe_instruction_id e, pe_step e)"

definition deferred_id :: "deferred_event \<Rightarrow> event_id" where
  "deferred_id e = (de_instruction_id e, de_step e)"

definition live_events :: "pipeline_events \<Rightarrow> event_id multiset" where
  "live_events s = bucket_total published_id (pl_ready s) + bucket_total deferred_id (pl_deferred s)"

definition events_ok :: "pipeline_events \<Rightarrow> bool" where
  "events_ok s \<longleftrightarrow> bm_ok (pl_ready s) \<and> bm_ok (pl_deferred s) \<and>
     (\<forall>(route, es)\<in>set (pl_ready s). es \<noteq> [] \<and> (\<forall>e\<in>set es. event_route (pe_step e) = route))"

lemma events_ok_default: "events_ok pipeline_events_default"
  by (simp add: events_ok_def pipeline_events_default_def bm_empty_def)

lemma events_ok_bucket:
  "events_ok s \<Longrightarrow> e \<in> set (bucket (pl_ready s) route) \<Longrightarrow> event_route (pe_step e) = route"
proof -
  assume ok: "events_ok s" and e: "e \<in> set (bucket (pl_ready s) route)"
  then obtain es where "bm_get (pl_ready s) route = Some es" "e \<in> set es"
    by (cases "bm_get (pl_ready s) route") (auto simp: bucket_def)
  with ok show ?thesis by (auto simp: events_ok_def dest!: bm_get_Some_mem)
qed

lemma publish_ok: "events_ok s \<Longrightarrow> events_ok (publish e s)"
  using events_ok_bucket [of s _ "event_route (pe_step e)"]
  by (auto simp: publish_def events_ok_def dest!: mem_bm_insert)

lemma publish_live: "events_ok s \<Longrightarrow> live_events (publish e s) = live_events s + {#published_id e#}"
proof -
  assume "events_ok s"
  then have "bm_ok (pl_ready s)" by (simp add: events_ok_def)
  from bucket_total_insert [OF this, of published_id "event_route (pe_step e)"
      "bucket (pl_ready s) (event_route (pe_step e)) @ [e]"]
  show ?thesis by (simp add: live_events_def publish_def ac_simps)
qed

lemma publish_deferred_fold:
  "events_ok s \<Longrightarrow> events_ok (fold (publish_deferred tick) es s) \<and>
     live_events (fold (publish_deferred tick) es s) = live_events s + image_mset deferred_id (mset es)"
  by (induction es arbitrary: s)
    (auto simp: publish_deferred_def publish_ok publish_live published_id_def deferred_id_def)

lemma set_event_balance:
  assumes "events_ok s"
  shows "events_ok (set_event s i step predecessor tick) \<and>
    live_events (set_event s i step predecessor tick) = live_events s + {#(i, step)#}"
proof (cases predecessor)
  case None
  with assms show ?thesis by (simp add: set_event_def publish_ok publish_live published_id_def)
next
  case (Some p)
  let ?key = "(fi_source_pipe_code (fs_instruction step), p)"
  let ?e = "\<lparr>de_instruction_id = i, de_step = step, de_received_tick = tick, de_predecessor = p\<rparr>"
  have "bm_ok (pl_deferred s)" using assms by (simp add: events_ok_def)
  from bucket_total_insert [OF this, of deferred_id ?key "bucket (pl_deferred s) ?key @ [?e]"] assms Some
  show ?thesis by (simp add: set_event_def live_events_def events_ok_def deferred_id_def Let_def ac_simps)
qed

lemma retire_balance:
  assumes "events_ok s"
  shows "events_ok (retire s source i tick) \<and> live_events (retire s source i tick) = live_events s"
proof (cases "bm_get (pl_deferred s) (source, i)")
  case None
  with assms show ?thesis by (simp add: retire_def)
next
  case (Some es)
  let ?s = "s\<lparr>pl_deferred := bm_remove (source, i) (pl_deferred s)\<rparr>"
  have ok: "events_ok ?s" using assms by (simp add: events_ok_def bm_ok_remove)
  have "bm_ok (pl_deferred s)" using assms by (simp add: events_ok_def)
  from bucket_total_remove [OF this, of deferred_id "(source, i)"] Some
  have "live_events ?s + image_mset deferred_id (mset es) = live_events s"
    by (simp add: live_events_def bucket_def ac_simps)
  with publish_deferred_fold [OF ok, of tick es] Some show ?thesis by (simp add: retire_def)
qed

lemma consume_event_balance:
  assumes "events_ok s" "consume_event s i step tick = (s', r)"
  shows "events_ok s' \<and>
    (case r of
       None \<Rightarrow> s' = s \<and> (\<forall>e\<in>set (bucket (pl_ready s) (event_route step)). fs_flag_id (pe_step e) \<noteq> fs_flag_id step)
     | Some e \<Rightarrow> live_events s = live_events s' + {#published_id e#} \<and>
         event_route (pe_step e) = event_route step \<and> fs_flag_id (pe_step e) = fs_flag_id step \<and>
         (\<exists>us vs. bucket (pl_ready s) (event_route step) = us @ e # vs \<and>
            bucket (pl_ready s') (event_route step) = us @ vs \<and> (\<forall>u\<in>set us. fs_flag_id (pe_step u) \<noteq> fs_flag_id step)))"
proof (cases "remove_first (\<lambda>e. fs_flag_id (pe_step e) = fs_flag_id step) (bucket (pl_ready s) (event_route step))")
  case None
  with assms have "s' = s \<and> r = None"
    by (auto simp: consume_event_def bucket_def Let_def split: option.splits)
  with None assms(1) show ?thesis by (simp add: remove_first_None)
next
  case (Some x)
  obtain e rest where x: "x = (e, rest)" by fastforce
  let ?route = "event_route step"
  from remove_first_Some [OF Some [unfolded x]] obtain us vs where uv: "bucket (pl_ready s) ?route = us @ e # vs" "rest = us @ vs"
    "fs_flag_id (pe_step e) = fs_flag_id step" "\<forall>u\<in>set us. fs_flag_id (pe_step u) \<noteq> fs_flag_id step"
    by blast
  then have get: "bm_get (pl_ready s) ?route = Some (us @ e # vs)"
    by (cases "bm_get (pl_ready s) ?route") (auto simp: bucket_def)
  define m where "m = (if rest = [] then bm_remove ?route (pl_ready s) else bm_insert ?route rest (pl_ready s))"
  have s': "s' = s\<lparr>pl_ready := m, pl_consumptions := pl_consumptions s @
      [\<lparr>ec_instruction_id = i, ec_step = step, ec_tick = tick, ec_event = e\<rparr>]\<rparr>" "r = Some e"
    using assms(2) Some x get by (simp_all add: consume_event_def bucket_def Let_def m_def)
  have ready: "bm_ok (pl_ready s)" using assms(1) by (simp add: events_ok_def)
  have route: "event_route (pe_step u) = ?route" if "u \<in> set (us @ e # vs)" for u
    using events_ok_bucket [OF assms(1), of u ?route] that uv(1) by simp
  have "bm_ok m" using ready by (simp add: bm_ok_remove m_def)
  moreover have "es \<noteq> [] \<and> (\<forall>u\<in>set es. event_route (pe_step u) = k)" if "(k, es) \<in> set m" for k es
  proof -
    from that have "(k, es) \<in> set (pl_ready s) \<or> k = ?route \<and> es = us @ vs \<and> es \<noteq> []"
      using uv(2) mem_bm_insert [of "(k, es)" ?route rest "pl_ready s"]
      by (auto simp: bm_remove_def m_def split: if_splits)
    then show ?thesis
    proof
      assume "(k, es) \<in> set (pl_ready s)"
      with assms(1) show ?thesis unfolding events_ok_def by blast
    next
      assume "k = ?route \<and> es = us @ vs \<and> es \<noteq> []"
      with route show ?thesis by auto
    qed
  qed
  ultimately have "events_ok s'" using assms(1) unfolding events_ok_def s'(1) by simp fast
  moreover have "bucket_total published_id m + {#published_id e#} = bucket_total published_id (pl_ready s)"
  proof (cases "rest = []")
    case True
    with bucket_total_remove [OF ready, of published_id ?route] uv show ?thesis by (simp add: m_def)
  next
    case False
    with bucket_total_insert [OF ready, of published_id ?route rest] uv show ?thesis by (auto simp: m_def ac_simps)
  qed
  moreover have "bucket m ?route = us @ vs" using uv(2) by (auto simp: bucket_def m_def)
  ultimately show ?thesis using s' uv route by (simp add: live_events_def ac_simps) blast
qed

section \<open>Runs\<close>

text \<open>The operations of a core on its events, beside what an observer writes down about them and nothing
  else: the events set, the events published, each list in the order in which it happened, the
  events that still wait for a retirement, in the order in which they were set, and the events consumed. A
  retirement publishes the events that wait for it, first set first.\<close>

definition deferred_key :: "deferred_event \<Rightarrow> u8 \<times> u64" where
  "deferred_key e = (fi_source_pipe_code (fs_instruction (de_step e)), de_predecessor e)"

definition published_at :: "u64 \<Rightarrow> deferred_event \<Rightarrow> pipeline_event" where
  "published_at tick e =
     \<lparr>pe_instruction_id = de_instruction_id e, pe_step = de_step e, pe_received_tick = de_received_tick e,
      pe_published_tick = tick\<rparr>"

inductive event_run ::
  "event_id list \<Rightarrow> pipeline_event list \<Rightarrow> deferred_event list \<Rightarrow> pipeline_event list \<Rightarrow> pipeline_events \<Rightarrow> bool" where
  start: "event_run [] [] [] [] pipeline_events_default"
| set: "event_run sets pubs defs uses s \<Longrightarrow>
    event_run (sets @ [(i, step)])
      (pubs @ [\<lparr>pe_instruction_id = i, pe_step = step, pe_received_tick = tick, pe_published_tick = tick\<rparr>]) defs uses
      (set_event s i step None tick)"
| postpone: "event_run sets pubs defs uses s \<Longrightarrow>
    event_run (sets @ [(i, step)]) pubs
      (defs @ [\<lparr>de_instruction_id = i, de_step = step, de_received_tick = tick, de_predecessor = p\<rparr>]) uses
      (set_event s i step (Some p) tick)"
| retires: "event_run sets pubs defs uses s \<Longrightarrow>
    event_run sets (pubs @ map (published_at tick) (filter (\<lambda>d. deferred_key d = (source, i)) defs))
      (filter (\<lambda>d. deferred_key d \<noteq> (source, i)) defs) uses (retire s source i tick)"
| next_tick: "event_run sets pubs defs uses s \<Longrightarrow> event_run sets pubs defs uses (begin_advance s)"
| consume: "event_run sets pubs defs uses s \<Longrightarrow> consume_event s i step tick = (s', Some e) \<Longrightarrow>
    event_run sets pubs defs (uses @ [e]) s'"

lemma event_run_balance:
  "event_run sets pubs defs uses s \<Longrightarrow> events_ok s \<and> mset sets = live_events s + mset (map published_id uses)"
proof (induction rule: event_run.induct)
  case start
  show ?case using events_ok_default by (simp add: live_events_def) (simp add: pipeline_events_default_def bm_empty_def)
next
  case (set sets pubs defs uses s i step tick)
  then show ?case using set_event_balance [of s i step None tick] by simp
next
  case (postpone sets pubs defs uses s i step tick p)
  then show ?case using set_event_balance [of s i step "Some p" tick] by simp
next
  case (retires sets pubs defs uses s tick source i)
  then show ?case using retire_balance [of s source i tick] by simp
next
  case (next_tick sets pubs defs uses s)
  then show ?case by (simp add: begin_advance_def events_ok_def live_events_def)
next
  case (consume sets pubs defs uses s i step tick s' e)
  then show ?case using consume_event_balance [of s i step tick s' "Some e"] by simp
qed

section \<open>Order\<close>

text \<open>On one route, the events of one flag.\<close>

definition on_channel :: "u8 \<times> u8 \<Rightarrow> u32 \<Rightarrow> pipeline_event \<Rightarrow> bool" where
  "on_channel route flag e \<longleftrightarrow> event_route (pe_step e) = route \<and> fs_flag_id (pe_step e) = flag"

definition has_flag :: "u32 \<Rightarrow> pipeline_event \<Rightarrow> bool" where
  "has_flag flag e \<longleftrightarrow> fs_flag_id (pe_step e) = flag"

text \<open>The ready events of a channel are the published ones that are not consumed, in the order of
  publication, and the deferred ones of a key stand in the order of their sets.\<close>

definition in_order :: "pipeline_event list \<Rightarrow> deferred_event list \<Rightarrow> pipeline_event list \<Rightarrow> pipeline_events \<Rightarrow> bool" where
  "in_order pubs defs uses s \<longleftrightarrow>
     (\<forall>key. bucket (pl_deferred s) key = filter (\<lambda>d. deferred_key d = key) defs) \<and>
     (\<forall>route flag. filter (on_channel route flag) pubs =
        filter (on_channel route flag) uses @ filter (has_flag flag) (bucket (pl_ready s) route))"

lemma in_orderD:
  "in_order pubs defs uses s \<Longrightarrow> bucket (pl_deferred s) key = filter (\<lambda>d. deferred_key d = key) defs"
  "in_order pubs defs uses s \<Longrightarrow> filter (on_channel route flag) pubs =
     filter (on_channel route flag) uses @ filter (has_flag flag) (bucket (pl_ready s) route)"
  unfolding in_order_def by blast+

lemma bucket_publish:
  "bucket (pl_ready (publish e s)) route = bucket (pl_ready s) route @ (if event_route (pe_step e) = route then [e] else [])"
  "pl_deferred (publish e s) = pl_deferred s"
  by (simp_all add: publish_def bucket_def)

lemma publish_in_order: "in_order pubs defs uses s \<Longrightarrow> in_order (pubs @ [e]) defs uses (publish e s)"
  unfolding in_order_def
  by (simp add: bucket_publish on_channel_def has_flag_def)

lemma publish_deferred_in_order:
  "in_order pubs defs uses s \<Longrightarrow> in_order (pubs @ map (published_at tick) es) defs uses (fold (publish_deferred tick) es s)"
proof (induction es arbitrary: pubs s)
  case (Cons d es)
  from Cons.IH [OF publish_in_order [OF Cons.prems, of "published_at tick d"]] show ?case
    by (simp add: publish_deferred_def published_at_def)
qed simp

lemma consume_other_route:
  assumes "consume_event s i step tick = (s', Some e)" "route \<noteq> event_route step"
  shows "bucket (pl_ready s') route = bucket (pl_ready s) route"
  using assms by (auto simp: consume_event_def bucket_def Let_def split: option.splits if_splits)

lemma consume_deferred: "consume_event s i step tick = (s', r) \<Longrightarrow> pl_deferred s' = pl_deferred s"
  by (auto simp: consume_event_def Let_def split: option.splits)

lemma consume_in_order:
  assumes "in_order pubs defs uses s" "events_ok s" "consume_event s i step tick = (s', Some e)"
  shows "in_order pubs defs (uses @ [e]) s'"
proof -
  from consume_event_balance [OF assms(2,3)] obtain us vs where
    e: "event_route (pe_step e) = event_route step" "fs_flag_id (pe_step e) = fs_flag_id step" and
    uv: "bucket (pl_ready s) (event_route step) = us @ e # vs" "bucket (pl_ready s') (event_route step) = us @ vs"
    "\<forall>u\<in>set us. fs_flag_id (pe_step u) \<noteq> fs_flag_id step" by auto
  have us: "filter (has_flag (fs_flag_id step)) us = []" using uv(3) by (auto simp: filter_empty_conv has_flag_def)
  have "filter (on_channel route flag) pubs =
      filter (on_channel route flag) (uses @ [e]) @ filter (has_flag flag) (bucket (pl_ready s') route)" for route flag
  proof (cases "route = event_route step")
    case True
    have "filter (on_channel route flag) pubs = filter (on_channel route flag) uses @ filter (has_flag flag) (us @ e # vs)"
      using in_orderD(2) [OF assms(1), of route flag] uv(1) True by simp
    then show ?thesis using True e uv(2) us by (auto simp: on_channel_def has_flag_def)
  next
    case False
    then have "\<not> on_channel route flag e" using e by (simp add: on_channel_def)
    then show ?thesis using in_orderD(2) [OF assms(1), of route flag] consume_other_route [OF assms(3) False] by simp
  qed
  with assms(1) consume_deferred [OF assms(3)] show ?thesis by (simp add: in_order_def)
qed

lemma retire_in_order:
  assumes "in_order pubs defs uses s"
  shows "in_order (pubs @ map (published_at tick) (filter (\<lambda>d. deferred_key d = (source, i)) defs))
    (filter (\<lambda>d. deferred_key d \<noteq> (source, i)) defs) uses (retire s source i tick)"
proof (cases "bm_get (pl_deferred s) (source, i)")
  case None
  then have "bucket (pl_deferred s) (source, i) = []" by (simp add: bucket_def)
  with assms have "filter (\<lambda>d. deferred_key d = (source, i)) defs = []" by (simp add: in_order_def)
  then have "filter (\<lambda>d. deferred_key d \<noteq> (source, i)) defs = defs"
    by (auto simp: filter_empty_conv filter_id_conv)
  with None assms \<open>filter (\<lambda>d. deferred_key d = (source, i)) defs = []\<close> show ?thesis by (simp add: retire_def)
next
  case (Some es)
  let ?s = "s\<lparr>pl_deferred := bm_remove (source, i) (pl_deferred s)\<rparr>"
  have "bucket (pl_deferred s) (source, i) = es" using Some by (simp add: bucket_def)
  with assms have es: "es = filter (\<lambda>d. deferred_key d = (source, i)) defs" by (simp add: in_order_def)
  have "bucket (pl_deferred ?s) key = filter (\<lambda>d. deferred_key d = key) (filter (\<lambda>d. deferred_key d \<noteq> (source, i)) defs)" for key
  proof (cases "key = (source, i)")
    case True
    then show ?thesis by (simp add: bucket_def)
  next
    case False
    then have "filter (\<lambda>d. deferred_key d = key) (filter (\<lambda>d. deferred_key d \<noteq> (source, i)) defs) =
        filter (\<lambda>d. deferred_key d = key) defs" by (auto intro: filter_cong)
    moreover have "bucket (pl_deferred ?s) key = bucket (pl_deferred s) key" using False by (simp add: bucket_def)
    ultimately show ?thesis using in_orderD(1) [OF assms, of key] by simp
  qed
  then have "in_order pubs (filter (\<lambda>d. deferred_key d \<noteq> (source, i)) defs) uses ?s"
    using assms by (simp add: in_order_def)
  from publish_deferred_in_order [OF this, of tick es] Some es show ?thesis by (simp add: retire_def)
qed

lemma event_run_in_order: "event_run sets pubs defs uses s \<Longrightarrow> in_order pubs defs uses s"
proof (induction rule: event_run.induct)
  case start
  show ?case by (simp add: in_order_def pipeline_events_default_def bucket_def bm_empty_def)
next
  case (set sets pubs defs uses s i step tick)
  from publish_in_order [OF set.IH] show ?case by (simp add: set_event_def)
next
  case (postpone sets pubs defs uses s i step tick p)
  then show ?case by (auto simp: in_order_def set_event_def bucket_def Let_def deferred_key_def)
next
  case (retires sets pubs defs uses s tick source i)
  from retire_in_order [OF retires.IH] show ?case .
next
  case (next_tick sets pubs defs uses s)
  then show ?case by (simp add: in_order_def begin_advance_def)
next
  case (consume sets pubs defs uses s i step tick s' e)
  then show ?case using event_run_balance by (blast intro: consume_in_order)
qed

section \<open>Claims\<close>

text \<open>C25. No event between pipelines is lost, invented or consumed twice, and events are consumed in the
  order of their publication. Over any run the events set are exactly those consumed, those ready and
  those still deferred; the events published on a route with a flag, in the order of publication, are
  those consumed followed by those ready; and a wait consumes the one that was published first among
  those not yet consumed, or finds that all are consumed and changes nothing.\<close>
theorem pipeline_events_balance:
  assumes "event_run sets pubs defs uses s" "consume_event s i step tick = (s', r)"
  shows "mset sets = live_events s + mset (map published_id uses) \<and>
    (\<forall>source destination flag. filter (on_channel (source, destination) flag) pubs =
       filter (on_channel (source, destination) flag) uses @
       filter (has_flag flag) (ready_events s source destination)) \<and>
    (let channel = on_channel (event_route step) (fs_flag_id step) in
     case r of
       None \<Rightarrow> s' = s \<and> filter channel pubs = filter channel uses
     | Some e \<Rightarrow> live_events s = live_events s' + {#published_id e#} \<and>
         (\<exists>rest. filter channel pubs = filter channel uses @ e # rest) \<and>
         filter channel pubs = filter channel (uses @ [e]) @
           filter (has_flag (fs_flag_id step)) (ready_events s' (fst (event_route step)) (snd (event_route step))))"
proof -
  note run = event_run_balance [OF assms(1)] and order = event_run_in_order [OF assms(1)]
  then have ok: "events_ok s" by simp
  note c = consume_event_balance [OF ok assms(2)]
  have channel: "filter (on_channel route flag) pubs =
      filter (on_channel route flag) uses @ filter (has_flag flag) (bucket (pl_ready s) route)" for route flag
    by (rule in_orderD(2) [OF order])
  show ?thesis
  proof (cases r)
    case None
    with c have "filter (has_flag (fs_flag_id step)) (bucket (pl_ready s) (event_route step)) = []"
      by (auto simp: filter_empty_conv has_flag_def)
    with None c run channel show ?thesis by (simp add: ready_events_def)
  next
    case (Some e)
    have order': "in_order pubs defs (uses @ [e]) s'" using consume_in_order [OF order ok] assms(2) Some by simp
    have e: "on_channel (event_route step) (fs_flag_id step) e" using c Some by (auto simp: on_channel_def)
    from order' have "filter (on_channel (event_route step) (fs_flag_id step)) pubs =
        filter (on_channel (event_route step) (fs_flag_id step)) (uses @ [e]) @
        filter (has_flag (fs_flag_id step)) (bucket (pl_ready s') (event_route step))"
      unfolding in_order_def by blast
    with Some c run channel e show ?thesis by (simp add: ready_events_def)
  qed
qed

definition sample_event_step :: "u32 \<Rightarrow> flag_step" where
  "sample_event_step flag_id =
     \<lparr>fs_pc = 0, fs_instruction = \<lparr>fi_architecture = Dav2201, fi_word = 0, fi_operation = FlagSet, fi_source_pipe_code = 1,
        fi_trigger_pipe_code = 2, fi_id_source = FlagImmediate 0\<rparr>, fs_flag_id = flag_id, fs_source_value = None\<rparr>"

text \<open>Two events of flag 5 are published around one of flag 3; a wait for flag 5 takes the older one.\<close>

theorem pipeline_events_balance_witness:
  "\<exists>s s' e. event_run [(4, sample_event_step 5), (6, sample_event_step 3), (8, sample_event_step 5)]
       (map (\<lambda>(i, flag, tick). \<lparr>pe_instruction_id = i, pe_step = sample_event_step flag, pe_received_tick = tick,
          pe_published_tick = tick\<rparr>) [(4, 5, 1), (6, 3, 2), (8, 5, 3)]) [] [] s \<and>
     consume_event s 9 (sample_event_step 5) 12 = (s', Some e) \<and> pe_instruction_id e = 4"
proof -
  let ?pubs = "map (\<lambda>(i, flag, tick). \<lparr>pe_instruction_id = i, pe_step = sample_event_step flag, pe_received_tick = tick,
          pe_published_tick = tick\<rparr>) [(4, 5, 1), (6, 3, 2), (8, 5, 3)]"
  let ?s = "set_event (set_event (set_event pipeline_events_default 4 (sample_event_step 5) None 1)
      6 (sample_event_step 3) None 2) 8 (sample_event_step 5) None 3"
  have run: "event_run [(4, sample_event_step 5), (6, sample_event_step 3), (8, sample_event_step 5)] ?pubs [] [] ?s"
    using event_run.set [OF event_run.set [OF event_run.set [OF event_run.start, of 4 "sample_event_step 5" 1],
        of 6 "sample_event_step 3" 2], of 8 "sample_event_step 5" 3] by simp
  obtain s' r where c: "consume_event ?s 9 (sample_event_step 5) 12 = (s', r)" by fastforce
  have flags: "fs_flag_id (sample_event_step f) = f" "event_route (sample_event_step f) = (1, 2)" for f
    by (simp_all add: sample_event_step_def event_route_def)
  from pipeline_events_balance [OF run c] have "\<exists>e. r = Some e \<and> pe_instruction_id e = 4"
    by (cases r) (auto simp: Let_def on_channel_def flags)
  with run c show ?thesis by blast
qed

end
