(* ===== verification/Device_Elf.thy ===== *)
theory Device_Elf
  imports Rust_Std
begin

text \<open>
  The parser of device binaries, \<open>src/src/image/elf.rs\<close>: an ELF64 file as a list of bytes, its section
  table, the span of bytes to load and the kernels its symbol tables name. Every index that the source
  writes with brackets is \<open>index_at\<close>, which panics out of range, so that the lemmas can show that no
  file makes the parser panic; every range that it hands out lies in the file.
\<close>

section \<open>Bytes\<close>

definition index_at :: "'a list \<Rightarrow> nat \<Rightarrow> 'e fault + 'a" where
  "index_at xs i = (if i < length xs then Ok (xs ! i) else Err Panic)"

definition get_range :: "'a list \<Rightarrow> nat \<Rightarrow> nat \<Rightarrow> 'a list option" where
  "get_range xs start stop = (if start \<le> stop \<and> stop \<le> length xs then Some (take (stop - start) (drop start xs)) else None)"

definition chunks_exact :: "nat \<Rightarrow> 'a list \<Rightarrow> 'a list list" where
  "chunks_exact n xs = map (\<lambda>i. take n (drop (i * n) xs)) [0..<length xs div n]"

text \<open>\<open>collect::<Result<Vec<_>, _>>()\<close> and a loop that pushes results: the first error ends it.\<close>

fun collect_results :: "('a \<Rightarrow> 'e + 'b) \<Rightarrow> 'a list \<Rightarrow> 'e + 'b list" where
  "collect_results f [] = Ok []"
| "collect_results f (x # xs) = and_then (f x) (\<lambda>y. and_then (collect_results f xs) (\<lambda>ys. Ok (y # ys)))"

text \<open>A string is the list of its UTF-8 bytes. \<open>String::from_utf8_lossy\<close> keeps the characters that decode
  and replaces every maximal ill-formed prefix by U+FFFD.\<close>

definition continuation :: "u8 list \<Rightarrow> nat \<Rightarrow> bool" where
  "continuation bytes i \<longleftrightarrow> i < length bytes \<and> 0x80 \<le> bytes ! i \<and> bytes ! i \<le> 0xbf"

definition second_byte :: "u8 \<Rightarrow> u8 list \<Rightarrow> bool" where
  "second_byte lead rest \<longleftrightarrow> continuation rest 0 \<and>
     (lead = 0xe0 \<longrightarrow> 0xa0 \<le> rest ! 0) \<and> (lead = 0xed \<longrightarrow> rest ! 0 \<le> 0x9f) \<and>
     (lead = 0xf0 \<longrightarrow> 0x90 \<le> rest ! 0) \<and> (lead = 0xf4 \<longrightarrow> rest ! 0 \<le> 0x8f)"

text \<open>The length of the first character or ill-formed prefix, less one, and whether it is a character.\<close>

definition utf8_extent :: "u8 \<Rightarrow> u8 list \<Rightarrow> nat \<times> bool" where
  "utf8_extent lead rest =
     (if lead < 0x80 then (0, True)
      else if 0xc2 \<le> lead \<and> lead \<le> 0xdf then if continuation rest 0 then (1, True) else (0, False)
      else if 0xe0 \<le> lead \<and> lead \<le> 0xef then
        if \<not> second_byte lead rest then (0, False)
        else if continuation rest 1 then (2, True) else (1, False)
      else if 0xf0 \<le> lead \<and> lead \<le> 0xf4 then
        if \<not> second_byte lead rest then (0, False)
        else if \<not> continuation rest 1 then (1, False)
        else if continuation rest 2 then (3, True) else (2, False)
      else (0, False))"

function from_utf8_lossy :: "u8 list \<Rightarrow> u8 list" where
  "from_utf8_lossy [] = []"
| "from_utf8_lossy (lead # rest) =
     (case utf8_extent lead rest of (n, valid) \<Rightarrow>
        (if valid then lead # take n rest else [0xef, 0xbf, 0xbd]) @ from_utf8_lossy (drop n rest))"
  by pat_completeness auto
termination
  by (relation "measure length") auto

section \<open>Data\<close>

record device_elf_header =
  eh_file_type :: u16
  eh_machine :: u16
  eh_flags :: u32
  eh_section_count :: u16

record device_kernel_summary =
  ks_name :: "u8 list"
  ks_section :: "u8 list"
  ks_section_virtual_address :: u64
  ks_section_file_offset :: u64
  ks_section_byte_count :: u64
  ks_virtual_address :: u64
  ks_file_offset :: u64
  ks_byte_count :: u64

record device_kernel =
  dk_summary :: device_kernel_summary
  dk_bytes :: "u8 list"

record device_load_image =
  li_file_offset :: u64
  li_bytes :: "u8 list"

record section_header =
  sh_name_offset :: u32
  sh_section_type :: u32
  sh_flags :: u64
  sh_address :: u64
  sh_file_offset :: u64
  sh_byte_count :: u64
  sh_link :: u32
  sh_entry_size :: u64

record device_elf =
  elf_bytes :: "u8 list"
  elf_header :: device_elf_header
  elf_sections :: "section_header list"
  elf_section_names :: "u8 list list"

datatype device_elf_error =
    TooShort
  | UnsupportedFormat
  | UnsupportedFileType u16
  | UnexpectedMachine u16
  | UnsupportedSectionTable
  | OutOfBounds
  | RangeOverflow
  | InvalidStringTable
  | InvalidSymbolTable
  | InvalidKernelRange
  | DeviceAddressOverflow
  | NonlinearKernelCopyMapping
  | KernelOutsideLoadImage
  | UnalignedInstructionAddress u64
  | NoLoadImage
  | UnorderedLoadImageSections
  | AmbiguousZeroOffsetLoadImage
  | UnalignedKernelSize u64
  | KernelNotFound "u8 list"
  | AmbiguousKernel "u8 list"

type_synonym 'a elf_result = "device_elf_error fault + 'a"

definition fail_or :: "'a option \<Rightarrow> 'e \<Rightarrow> 'e fault + 'a" where
  "fail_or x e = ok_or x (Fail e)"

definition checked_sub :: "u64 \<Rightarrow> u64 \<Rightarrow> u64 option" where
  "checked_sub a b = (if b \<le> a then Some (a - b) else None)"

definition device_address :: "device_kernel_summary \<Rightarrow> u64 \<Rightarrow> u64 elf_result" where
  "device_address k image_base = fail_or (checked_add image_base (ks_virtual_address k)) DeviceAddressOverflow"

section \<open>Readers\<close>

definition checked_slice :: "u8 list \<Rightarrow> u64 \<Rightarrow> u64 \<Rightarrow> u8 list elf_result" where
  "checked_slice bytes offset len =
     and_then (fail_or (usize_checked_add (unat offset) (unat len)) RangeOverflow) (\<lambda>stop.
       fail_or (get_range bytes (unat offset) stop) OutOfBounds)"

definition read_c_string :: "u8 list \<Rightarrow> u32 \<Rightarrow> u8 list elf_result" where
  "read_c_string bytes offset =
     and_then (fail_or (get_range bytes (unat offset) (length bytes)) InvalidStringTable) (\<lambda>rest.
       and_then (fail_or (position (\<lambda>b. b = 0) rest) InvalidStringTable) (\<lambda>len. Ok (take len rest)))"

definition read_u16 :: "u8 list \<Rightarrow> nat \<Rightarrow> u16 elf_result" where
  "read_u16 bytes offset =
     and_then (fail_or (get_range bytes offset (offset + 2)) OutOfBounds) (\<lambda>field. Ok (ucast (from_le_bytes field)))"

definition read_u32 :: "u8 list \<Rightarrow> nat \<Rightarrow> u32 elf_result" where
  "read_u32 bytes offset =
     and_then (fail_or (get_range bytes offset (offset + 4)) OutOfBounds) (\<lambda>field. Ok (ucast (from_le_bytes field)))"

definition read_u64 :: "u8 list \<Rightarrow> nat \<Rightarrow> u64 elf_result" where
  "read_u64 bytes offset =
     and_then (fail_or (get_range bytes offset (offset + 8)) OutOfBounds) (\<lambda>field. Ok (from_le_bytes field))"

definition kernel_words :: "device_kernel \<Rightarrow> (u64 \<times> u32) list" where
  "kernel_words k =
     map (\<lambda>(index, chunk). (ks_virtual_address (dk_summary k) + word_of_nat index * 4, ucast (from_le_bytes chunk)))
       (List.enumerate 0 (chunks_exact 4 (dk_bytes k)))"

section \<open>Parsing\<close>

definition read_section_header :: "u8 list \<Rightarrow> section_header elf_result" where
  "read_section_header r =
     and_then (read_u32 r 0) (\<lambda>name_offset. and_then (read_u32 r 4) (\<lambda>section_type.
     and_then (read_u64 r 8) (\<lambda>flags. and_then (read_u64 r 16) (\<lambda>address.
     and_then (read_u64 r 24) (\<lambda>file_offset. and_then (read_u64 r 32) (\<lambda>byte_count.
     and_then (read_u32 r 40) (\<lambda>link. and_then (read_u64 r 56) (\<lambda>entry_size.
       Ok \<lparr>sh_name_offset = name_offset, sh_section_type = section_type, sh_flags = flags, sh_address = address,
           sh_file_offset = file_offset, sh_byte_count = byte_count, sh_link = link,
           sh_entry_size = entry_size\<rparr>))))))))"

definition read_section :: "u8 list \<Rightarrow> u64 \<Rightarrow> nat \<Rightarrow> section_header elf_result" where
  "read_section bytes table_offset index =
     and_then (fail_or (checked_add table_offset (word_of_nat index * 64)) RangeOverflow) (\<lambda>offset.
     and_then (checked_slice bytes offset 64) read_section_header)"

definition elf_parse :: "u8 list \<Rightarrow> device_elf elf_result" where
  "elf_parse bytes =
     (if length bytes < 64 then Err (Fail TooShort)
      else if take 4 bytes \<noteq> [0x7f, 0x45, 0x4c, 0x46] then Err (Fail UnsupportedFormat) else
     and_then (index_at bytes 4) (\<lambda>class. and_then (index_at bytes 5) (\<lambda>endian. and_then (index_at bytes 6) (\<lambda>ident.
      if class \<noteq> 2 \<or> endian \<noteq> 1 \<or> ident \<noteq> 1 then Err (Fail UnsupportedFormat) else
     and_then (read_u32 bytes 20) (\<lambda>version. if version \<noteq> 1 then Err (Fail UnsupportedFormat) else
     and_then (read_u16 bytes 52) (\<lambda>header_size. if unat header_size \<noteq> 64 then Err (Fail UnsupportedFormat) else
     and_then (read_u16 bytes 16) (\<lambda>file_type.
      if file_type \<noteq> 1 \<and> file_type \<noteq> 2 then Err (Fail (UnsupportedFileType file_type)) else
     and_then (read_u16 bytes 18) (\<lambda>machine.
      if machine \<noteq> 0x1029 then Err (Fail (UnexpectedMachine machine)) else
     and_then (read_u64 bytes 40) (\<lambda>section_table_offset.
     and_then (read_u32 bytes 48) (\<lambda>flags.
     and_then (read_u16 bytes 58) (\<lambda>section_header_size.
     and_then (read_u16 bytes 60) (\<lambda>section_count.
     and_then (read_u16 bytes 62) (\<lambda>section_names_index.
      if unat section_header_size \<noteq> 64 \<or> section_count = 0 \<or> section_names_index = - 1 \<or>
         section_count \<le> section_names_index then Err (Fail UnsupportedSectionTable) else
     and_then (checked_slice bytes section_table_offset (ucast section_count * 64)) (\<lambda>_.
     and_then (collect_results (read_section bytes section_table_offset) [0..<unat section_count]) (\<lambda>sections.
     and_then (index_at sections (unat section_names_index)) (\<lambda>names_section.
      if sh_section_type names_section \<noteq> 3 then Err (Fail InvalidStringTable) else
     and_then (checked_slice bytes (sh_file_offset names_section) (sh_byte_count names_section)) (\<lambda>names.
     and_then (collect_results (\<lambda>section.
         and_then (read_c_string names (sh_name_offset section)) (\<lambda>s. Ok (from_utf8_lossy s))) sections) (\<lambda>section_names.
       Ok \<lparr>elf_bytes = bytes,
           elf_header = \<lparr>eh_file_type = file_type, eh_machine = machine, eh_flags = flags,
                         eh_section_count = section_count\<rparr>,
           elf_sections = sections, elf_section_names = section_names\<rparr>))))))))))))))))))"

section \<open>The load image\<close>

fun load_span ::
  "section_header list \<Rightarrow> u64 option \<Rightarrow> (u64 \<times> u64) option \<Rightarrow> (u64 option \<times> (u64 \<times> u64) option) elf_result" where
  "load_span [] first latest = Ok (first, latest)"
| "load_span (section # rest) first latest =
     (if sh_flags section AND 2 = 0 \<or> sh_byte_count section = 0 then load_span rest first latest
      else if first = Some 0 then Err (Fail AmbiguousZeroOffsetLoadImage)
      else and_then (fail_or (checked_add (sh_file_offset section) (sh_byte_count section)) RangeOverflow) (\<lambda>stop.
        if (case latest of
              Some (previous_offset, previous_end) \<Rightarrow> sh_file_offset section < previous_offset \<or> stop < previous_end
            | None \<Rightarrow> False)
        then Err (Fail UnorderedLoadImageSections)
        else load_span rest (if first = None then Some (sh_file_offset section) else first)
               (Some (sh_file_offset section, stop))))"

definition load_image :: "device_elf \<Rightarrow> device_load_image elf_result" where
  "load_image elf =
     and_then (load_span (elf_sections elf) None None) (\<lambda>(first, latest).
     and_then (fail_or first NoLoadImage) (\<lambda>file_offset.
     and_then (ok_or latest Panic) (\<lambda>(_, stop).
     and_then (fail_or (checked_sub stop file_offset) UnorderedLoadImageSections) (\<lambda>byte_count.
     and_then (checked_slice (elf_bytes elf) file_offset byte_count) (\<lambda>bytes.
       Ok \<lparr>li_file_offset = file_offset, li_bytes = bytes\<rparr>)))))"

section \<open>Kernels\<close>

text \<open>One symbol: skipped (None), refused, or a kernel.\<close>

definition symbol_kernel ::
  "device_elf \<Rightarrow> u8 list \<Rightarrow> u8 list \<Rightarrow> device_kernel_summary option elf_result" where
  "symbol_kernel elf string_bytes symbol =
     and_then (index_at symbol 4) (\<lambda>info. if info AND 0xf \<noteq> 2 then Ok None else
     and_then (read_u32 symbol 0) (\<lambda>name_offset. if name_offset = 0 then Ok None else
     and_then (read_u16 symbol 6) (\<lambda>index.
      if \<not> unat index < length (elf_sections elf) then Ok None
      else let code = elf_sections elf ! unat index in
        if sh_section_type code \<noteq> 1 \<or> sh_flags code AND 4 = 0 then Ok None else
     and_then (read_u64 symbol 16) (\<lambda>byte_count. if byte_count = 0 then Ok None else
     and_then (read_u64 symbol 8) (\<lambda>virtual_address.
     and_then (fail_or (checked_add virtual_address byte_count) RangeOverflow) (\<lambda>_.
     and_then (fail_or (checked_sub virtual_address (sh_address code)) InvalidKernelRange) (\<lambda>relative.
     and_then (fail_or (checked_add relative byte_count) RangeOverflow) (\<lambda>relative_end.
      if sh_byte_count code < relative_end then Err (Fail InvalidKernelRange) else
     and_then (fail_or (checked_add (sh_file_offset code) relative) RangeOverflow) (\<lambda>file_offset.
     and_then (checked_slice (elf_bytes elf) file_offset byte_count) (\<lambda>_.
     and_then (read_c_string string_bytes name_offset) (\<lambda>name_bytes.
     and_then (index_at (elf_section_names elf) (unat index)) (\<lambda>section_name.
       Ok (Some \<lparr>ks_name = from_utf8_lossy name_bytes, ks_section = section_name,
                 ks_section_virtual_address = sh_address code, ks_section_file_offset = sh_file_offset code,
                 ks_section_byte_count = sh_byte_count code, ks_virtual_address = virtual_address,
                 ks_file_offset = file_offset, ks_byte_count = byte_count\<rparr>)))))))))))))"

definition section_kernels :: "device_elf \<Rightarrow> section_header \<Rightarrow> device_kernel_summary option list elf_result" where
  "section_kernels elf section =
     (if sh_section_type section \<noteq> 2 then Ok []
      else if sh_entry_size section \<noteq> 24 \<or> sh_byte_count section mod 24 \<noteq> 0 then Err (Fail InvalidSymbolTable)
      else if \<not> unat (sh_link section) < length (elf_sections elf) then Err (Fail InvalidSymbolTable)
      else let strings = elf_sections elf ! unat (sh_link section) in
        if sh_section_type strings \<noteq> 3 then Err (Fail InvalidSymbolTable) else
     and_then (checked_slice (elf_bytes elf) (sh_file_offset strings) (sh_byte_count strings)) (\<lambda>string_bytes.
     and_then (checked_slice (elf_bytes elf) (sh_file_offset section) (sh_byte_count section)) (\<lambda>symbol_bytes.
       collect_results (symbol_kernel elf string_bytes) (chunks_exact 24 symbol_bytes))))"

definition kernels :: "device_elf \<Rightarrow> device_kernel_summary list elf_result" where
  "kernels elf =
     and_then (collect_results (section_kernels elf) (elf_sections elf)) (\<lambda>found.
       Ok (List.map_filter (\<lambda>k. k) (concat found)))"

definition elf_kernel :: "device_elf \<Rightarrow> u8 list \<Rightarrow> device_kernel elf_result" where
  "elf_kernel elf name =
     and_then (kernels elf) (\<lambda>all.
       case filter (\<lambda>k. ks_name k = name) all of
         [] \<Rightarrow> Err (Fail (KernelNotFound name))
       | _ # _ # _ \<Rightarrow> Err (Fail (AmbiguousKernel name))
       | [summary] \<Rightarrow>
           if ks_byte_count summary mod 4 \<noteq> 0 then Err (Fail (UnalignedKernelSize (ks_byte_count summary)))
           else and_then (checked_slice (elf_bytes elf) (ks_file_offset summary) (ks_byte_count summary)) (\<lambda>bytes.
             Ok \<lparr>dk_summary = summary, dk_bytes = bytes\<rparr>))"

definition outside_image :: "'a elf_result \<Rightarrow> 'a elf_result" where
  "outside_image r = map_err (\<lambda>_. Fail KernelOutsideLoadImage) r"

definition loadable_kernel :: "device_elf \<Rightarrow> u8 list \<Rightarrow> device_kernel_summary elf_result" where
  "loadable_kernel elf name =
     and_then (load_image elf) (\<lambda>image.
     and_then (elf_kernel elf name) (\<lambda>kernel. let k = dk_summary kernel in
      if ks_virtual_address k mod 4 \<noteq> 0 then Err (Fail (UnalignedInstructionAddress (ks_virtual_address k))) else
     and_then (fail_or (checked_sub (ks_file_offset k) (li_file_offset image)) NonlinearKernelCopyMapping) (\<lambda>offset.
      if offset \<noteq> ks_virtual_address k then Err (Fail NonlinearKernelCopyMapping) else
     and_then (fail_or (checked_sub (ks_section_file_offset k) (li_file_offset image)) NonlinearKernelCopyMapping) (\<lambda>section_offset.
      if section_offset \<noteq> ks_section_virtual_address k then Err (Fail NonlinearKernelCopyMapping) else
     and_then (outside_image (checked_slice (li_bytes image) section_offset (ks_section_byte_count k))) (\<lambda>_.
     and_then (outside_image (checked_slice (li_bytes image) offset (ks_byte_count k))) (\<lambda>_.
       Ok k))))))"

section \<open>Ranges stay in the file\<close>

lemma fail_or_simps [simp]: "fail_or (Some x) e = Ok x" "fail_or None e = Err (Fail e)"
  by (simp_all add: fail_or_def)

lemma fail_or_Ok: "fail_or x e = Ok v \<longleftrightarrow> x = Some v"
  by (cases x) auto

definition panic_free :: "'e fault + 'a \<Rightarrow> bool" where
  "panic_free r \<longleftrightarrow> r \<noteq> Err Panic"

named_theorems no_panic \<open>results that are not a panic\<close>

lemma panic_free_simps [no_panic]: "panic_free (Ok x)" "panic_free (Err (Fail e))" "panic_free (fail_or y e)"
  by (cases y; simp add: panic_free_def)+

lemma panic_free_and_then [no_panic]:
  "panic_free r \<Longrightarrow> (\<And>x. r = Ok x \<Longrightarrow> panic_free (f x)) \<Longrightarrow> panic_free (and_then r f)"
  by (cases r) (auto simp: panic_free_def)

lemma panic_free_if [no_panic]:
  "(b \<Longrightarrow> panic_free x) \<Longrightarrow> (\<not> b \<Longrightarrow> panic_free y) \<Longrightarrow> panic_free (if b then x else y)"
  by simp

lemma get_range_Some: "get_range xs a b = Some ys \<longleftrightarrow> a \<le> b \<and> b \<le> length xs \<and> ys = take (b - a) (drop a xs)"
  by (auto simp: get_range_def)

lemma checked_slice_Ok:
  "checked_slice bytes offset n = Ok ys \<longleftrightarrow>
     unat offset + unat n \<le> length bytes \<and> unat offset + unat n < 2 ^ 64 \<and> ys = take (unat n) (drop (unat offset) bytes)"
  by (auto simp: checked_slice_def and_then_Ok fail_or_Ok get_range_Some usize_checked_add_Some)

lemma checked_slice_length: "checked_slice bytes offset n = Ok ys \<Longrightarrow> length ys = unat n"
  by (auto simp: checked_slice_Ok)

lemma readers_no_panic [no_panic]:
  "panic_free (checked_slice bytes a n)" "panic_free (read_c_string bytes i)"
  "panic_free (read_u16 bytes j)" "panic_free (read_u32 bytes j)" "panic_free (read_u64 bytes j)"
  unfolding checked_slice_def read_c_string_def read_u16_def read_u32_def read_u64_def by (intro no_panic)+

lemma index_at_no_panic: "i < length xs \<Longrightarrow> panic_free (index_at xs i)"
  by (simp add: index_at_def panic_free_def)

lemma collect_results_no_panic:
  "(\<And>x. x \<in> set xs \<Longrightarrow> panic_free (f x)) \<Longrightarrow> panic_free (collect_results f xs)"
  by (induction xs) (simp_all add: no_panic)

lemma collect_results_Ok:
  "collect_results f xs = Ok ys \<longleftrightarrow> list_all2 (\<lambda>x y. f x = Ok y) xs ys"
proof (induction xs arbitrary: ys)
  case (Cons x xs)
  then show ?case by (cases ys) (auto simp: and_then_Ok)
qed (auto simp: eq_commute)

lemma collect_results_length: "collect_results f xs = Ok ys \<Longrightarrow> length ys = length xs"
  by (auto simp: collect_results_Ok dest: list_all2_lengthD)

lemma collect_results_mem: "collect_results f xs = Ok ys \<Longrightarrow> y \<in> set ys \<Longrightarrow> \<exists>x\<in>set xs. f x = Ok y"
  by (fastforce simp: collect_results_Ok list_all2_conv_all_nth in_set_conv_nth)

lemma chunks_exact_length: "chunk \<in> set (chunks_exact n xs) \<Longrightarrow> length chunk = n"
proof -
  assume "chunk \<in> set (chunks_exact n xs)"
  then obtain i where i: "i < length xs div n" "chunk = take n (drop (i * n) xs)" by (auto simp: chunks_exact_def)
  then have "Suc i * n \<le> length xs div n * n" by (intro mult_le_mono1) simp
  also have "\<dots> \<le> length xs" by (rule div_times_less_eq_dividend)
  finally show ?thesis using i(2) by simp
qed

lemma read_section_no_panic [no_panic]: "panic_free (read_section bytes t i)"
  unfolding read_section_def read_section_header_def by (intro no_panic)

lemma elf_parse_no_panic: "panic_free (elf_parse bytes)"
  unfolding elf_parse_def
  by (intro no_panic collect_results_no_panic index_at_no_panic)
    (auto simp: not_le word_less_nat_alt dest!: collect_results_length)

text \<open>What a parsed file is: its sections and their names come in equal number.\<close>

definition elf_ok :: "device_elf \<Rightarrow> bool" where
  "elf_ok elf \<longleftrightarrow> length (elf_section_names elf) = length (elf_sections elf)"

lemma elf_parse_Ok: "elf_parse bytes = Ok elf \<Longrightarrow> elf_ok elf \<and> elf_bytes elf = bytes"
  by (auto simp: elf_parse_def and_then_Ok elf_ok_def dest!: collect_results_length split: if_splits)

lemma checked_sub_Some: "checked_sub a b = Some c \<longleftrightarrow> b \<le> a \<and> unat c = unat a - unat b"
  by (auto simp: checked_sub_def unat_sub intro: word_unat_eq_iff [THEN iffD2])

lemma checked_add_sum:
  "checked_add a b = Some c \<longleftrightarrow> unat a + unat b < 2 ^ 64 \<and> unat c = unat a + unat b"
  for a b c :: u64
  by (auto simp: checked_add_Some unat_add_exact word_unat_eq_iff)

lemma symbol_kernel_no_panic:
  "elf_ok elf \<Longrightarrow> length symbol = 24 \<Longrightarrow> panic_free (symbol_kernel elf strings symbol)"
  unfolding symbol_kernel_def Let_def by (intro no_panic index_at_no_panic) (auto simp: elf_ok_def)

lemma section_kernels_no_panic: "elf_ok elf \<Longrightarrow> panic_free (section_kernels elf section)"
  unfolding section_kernels_def Let_def
  by (intro no_panic collect_results_no_panic symbol_kernel_no_panic) (auto dest: chunks_exact_length)

lemma kernels_no_panic: "elf_ok elf \<Longrightarrow> panic_free (kernels elf)"
  unfolding kernels_def by (intro no_panic collect_results_no_panic section_kernels_no_panic)

text \<open>A kernel that the symbol table names: a nonempty range of an executable section, and of the file.\<close>

definition kernel_in_section :: "device_elf \<Rightarrow> device_kernel_summary \<Rightarrow> section_header \<Rightarrow> bool" where
  "kernel_in_section elf k code \<longleftrightarrow>
     code \<in> set (elf_sections elf) \<and> sh_section_type code = 1 \<and> sh_flags code AND 4 \<noteq> 0 \<and>
     ks_section_virtual_address k = sh_address code \<and> ks_section_file_offset k = sh_file_offset code \<and>
     ks_section_byte_count k = sh_byte_count code \<and> ks_byte_count k \<noteq> 0 \<and>
     unat (ks_virtual_address k) + unat (ks_byte_count k) < 2 ^ 64 \<and>
     (\<exists>relative. unat (ks_virtual_address k) = unat (sh_address code) + relative \<and>
        unat (ks_file_offset k) = unat (sh_file_offset code) + relative \<and>
        relative + unat (ks_byte_count k) \<le> unat (sh_byte_count code)) \<and>
     unat (ks_file_offset k) + unat (ks_byte_count k) \<le> length (elf_bytes elf)"

lemma kernel_range:
  "a \<le> v \<Longrightarrow> stop = start + v - a \<Longrightarrow> v + n - a \<le> c \<Longrightarrow>
     \<exists>r. v = a + r \<and> stop = start + r \<and> r + n \<le> c" for a v stop start n c :: nat
  by (rule exI [of _ "v - a"]) arith

lemma symbol_kernel_Ok:
  "symbol_kernel elf strings symbol = Ok (Some k) \<Longrightarrow> \<exists>code. kernel_in_section elf k code"
  unfolding symbol_kernel_def Let_def
  by (clarsimp simp: and_then_Ok fail_or_Ok checked_slice_Ok checked_sub_Some checked_add_sum split: if_splits,
      rule exI, unfold kernel_in_section_def, intro conjI, erule nth_mem)
    (auto simp: word_le_nat_alt not_less intro!: kernel_range)

lemma kernels_Ok:
  assumes "kernels elf = Ok ks" and "k \<in> set ks"
  shows "\<exists>code. kernel_in_section elf k code"
proof -
  obtain found where found: "collect_results (section_kernels elf) (elf_sections elf) = Ok found"
    and ks: "ks = List.map_filter (\<lambda>k. k) (concat found)"
    using assms(1) by (auto simp: kernels_def and_then_Ok)
  obtain group where "group \<in> set found" and k: "Some k \<in> set group"
    using assms(2) ks by (auto simp: List.map_filter_def)
  then obtain sec where sec: "section_kernels elf sec = Ok group"
    using collect_results_mem [OF found] by blast
  have "group \<noteq> []" using k by auto
  then obtain strings symbols where "collect_results (symbol_kernel elf strings) symbols = Ok group"
    using sec by (auto simp: section_kernels_def Let_def and_then_Ok split: if_splits)
  then show ?thesis using collect_results_mem [OF _ k] symbol_kernel_Ok by blast
qed

lemma elf_kernel_cases:
  assumes "elf_kernel elf name = Ok found"
  obtains ks k where "kernels elf = Ok ks" "filter (\<lambda>k. ks_name k = name) ks = [k]"
    "ks_byte_count k mod 4 = 0" "dk_summary found = k"
    "checked_slice (elf_bytes elf) (ks_file_offset k) (ks_byte_count k) = Ok (dk_bytes found)"
proof -
  obtain ks where ks: "kernels elf = Ok ks" and found: "(case filter (\<lambda>k. ks_name k = name) ks of
         [] \<Rightarrow> Err (Fail (KernelNotFound name))
       | _ # _ # _ \<Rightarrow> Err (Fail (AmbiguousKernel name))
       | [summary] \<Rightarrow>
           if ks_byte_count summary mod 4 \<noteq> 0 then Err (Fail (UnalignedKernelSize (ks_byte_count summary)))
           else and_then (checked_slice (elf_bytes elf) (ks_file_offset summary) (ks_byte_count summary)) (\<lambda>bytes.
             Ok \<lparr>dk_summary = summary, dk_bytes = bytes\<rparr>)) = Ok found"
    using assms by (auto simp: elf_kernel_def and_then_Ok)
  then obtain k where k: "filter (\<lambda>k. ks_name k = name) ks = [k]" by (auto split: list.splits)
  with found have "ks_byte_count k mod 4 = 0 \<and> dk_summary found = k \<and>
    checked_slice (elf_bytes elf) (ks_file_offset k) (ks_byte_count k) = Ok (dk_bytes found)"
    by (auto simp: and_then_Ok split: if_splits)
  then show thesis by (intro that [OF ks k]) simp_all
qed

lemma elf_kernel_Ok:
  assumes "elf_kernel elf name = Ok found"
  shows "\<exists>code. kernel_in_section elf (dk_summary found) code"
    and "ks_name (dk_summary found) = name" and "4 dvd unat (ks_byte_count (dk_summary found))"
    and "dk_bytes found = take (unat (ks_byte_count (dk_summary found)))
           (drop (unat (ks_file_offset (dk_summary found))) (elf_bytes elf))"
proof -
  obtain ks k where ks: "kernels elf = Ok ks" "filter (\<lambda>k. ks_name k = name) ks = [k]"
    and k: "ks_byte_count k mod 4 = 0" "dk_summary found = k"
      "checked_slice (elf_bytes elf) (ks_file_offset k) (ks_byte_count k) = Ok (dk_bytes found)"
    by (rule elf_kernel_cases [OF assms])
  have "k \<in> set (filter (\<lambda>k. ks_name k = name) ks)" by (simp add: ks(2))
  then have mem: "k \<in> set ks" "ks_name k = name" by simp_all
  show "\<exists>code. kernel_in_section elf (dk_summary found) code" using kernels_Ok [OF ks(1) mem(1)] k(2) by simp
  show "ks_name (dk_summary found) = name" using mem k(2) by simp
  have "unat (ks_byte_count k mod 4) = 0" by (simp add: k(1))
  then show "4 dvd unat (ks_byte_count (dk_summary found))" by (simp add: unat_mod k(2) dvd_eq_mod_eq_0)
  show "dk_bytes found = take (unat (ks_byte_count (dk_summary found)))
      (drop (unat (ks_file_offset (dk_summary found))) (elf_bytes elf))"
    using k by (simp add: checked_slice_Ok)
qed

lemma elf_kernel_no_panic: "elf_ok elf \<Longrightarrow> panic_free (elf_kernel elf name)"
  unfolding elf_kernel_def
  by (intro no_panic kernels_no_panic) (auto split: list.splits intro!: no_panic)

section \<open>The load image covers the loadable sections\<close>

definition loadable :: "section_header \<Rightarrow> bool" where
  "loadable section \<longleftrightarrow> sh_flags section AND 2 \<noteq> 0 \<and> sh_byte_count section \<noteq> 0"

lemma load_span_no_panic [no_panic]: "panic_free (load_span sections start latest)"
  by (induction sections start latest rule: load_span.induct) (simp_all, auto intro!: no_panic)

lemma load_span_latest:
  "load_span sections start latest = Ok (start', latest') \<Longrightarrow> (start = None) = (latest = None) \<Longrightarrow>
     (start' = None) = (latest' = None)"
  by (induction sections start latest rule: load_span.induct) (auto simp: and_then_Ok split: if_splits)

lemma load_image_no_panic: "panic_free (load_image elf)"
  unfolding load_image_def
proof (rule panic_free_and_then [OF load_span_no_panic], clarify, intro no_panic)
  fix start latest file_offset
  assume "load_span (elf_sections elf) None None = Ok (start, latest)" "fail_or start NoLoadImage = Ok file_offset"
  then have "latest \<noteq> None" by (auto simp: fail_or_Ok dest: load_span_latest)
  then show "panic_free (ok_or latest Panic)" by (auto simp: panic_free_def)
qed (clarify, intro no_panic)

text \<open>The scan keeps the first offset and extends the end past every loadable section it meets.\<close>

lemma load_span_step:
  assumes "loadable sec"
  shows "load_span (sec # rest) start latest = Ok r \<longleftrightarrow> start \<noteq> Some 0 \<and>
    (\<exists>stop. checked_add (sh_file_offset sec) (sh_byte_count sec) = Some stop \<and>
       (\<forall>x y. latest = Some (x, y) \<longrightarrow> x \<le> sh_file_offset sec \<and> y \<le> stop) \<and>
       load_span rest (Some (case start of None \<Rightarrow> sh_file_offset sec | Some x \<Rightarrow> x))
         (Some (sh_file_offset sec, stop)) = Ok r)"
  using assms by (cases start; cases latest) (auto simp: loadable_def and_then_Ok fail_or_Ok not_less split: if_splits)

lemma load_span_skip: "\<not> loadable sec \<Longrightarrow> load_span (sec # rest) start latest = load_span rest start latest"
  by (auto simp: loadable_def)

lemma load_span_covers:
  "load_span sections start latest = Ok (Some a, Some (b, stop)) \<Longrightarrow>
     (\<forall>x. start = Some x \<longrightarrow> x = a) \<and> (\<forall>x y. latest = Some (x, y) \<longrightarrow> y \<le> stop) \<and>
     (\<forall>s\<in>set sections. loadable s \<longrightarrow>
        (case latest of None \<Rightarrow> start = None \<longrightarrow> a \<le> sh_file_offset s | Some (x, _) \<Rightarrow> x \<le> sh_file_offset s) \<and>
        unat (sh_file_offset s) + unat (sh_byte_count s) \<le> unat stop)"
proof (induction sections arbitrary: start latest)
  case (Cons sec rest)
  show ?case
  proof (cases "loadable sec")
    case False
    then show ?thesis using Cons by (auto simp: load_span_skip simp del: load_span.simps)
  next
    case True
    then obtain this_stop where this_stop: "checked_add (sh_file_offset sec) (sh_byte_count sec) = Some this_stop"
      and order: "\<And>x y. latest = Some (x, y) \<Longrightarrow> x \<le> sh_file_offset sec \<and> y \<le> this_stop"
      and rest: "load_span rest (Some (case start of None \<Rightarrow> sh_file_offset sec | Some x \<Rightarrow> x))
        (Some (sh_file_offset sec, this_stop)) = Ok (Some a, Some (b, stop))"
      using Cons.prems by (auto simp: load_span_step simp del: load_span.simps)
    note IH = Cons.IH [OF rest]
    have a: "a = (case start of None \<Rightarrow> sh_file_offset sec | Some x \<Rightarrow> x)" and "this_stop \<le> stop" using IH by auto
    then have "unat (sh_file_offset sec) + unat (sh_byte_count sec) \<le> unat stop"
      using this_stop by (auto simp: checked_add_sum word_le_nat_alt)
    then show ?thesis using IH order a \<open>this_stop \<le> stop\<close>
      by (auto split: option.splits intro: order_trans)
  qed
qed auto

lemma load_image_Ok:
  assumes "load_image elf = Ok im"
  shows "li_bytes im = take (length (li_bytes im)) (drop (unat (li_file_offset im)) (elf_bytes elf))"
    and "unat (li_file_offset im) + length (li_bytes im) \<le> length (elf_bytes elf)"
    and "s \<in> set (elf_sections elf) \<Longrightarrow> loadable s \<Longrightarrow> li_file_offset im \<le> sh_file_offset s \<and>
      unat (sh_file_offset s) + unat (sh_byte_count s) \<le> unat (li_file_offset im) + length (li_bytes im)"
proof -
  obtain b stop byte_count where
    scan: "load_span (elf_sections elf) None None = Ok (Some (li_file_offset im), Some (b, stop))"
    and count: "checked_sub stop (li_file_offset im) = Some byte_count"
    and bytes: "checked_slice (elf_bytes elf) (li_file_offset im) byte_count = Ok (li_bytes im)"
    using assms by (auto simp: load_image_def and_then_Ok fail_or_Ok ok_or_def split: option.splits)
  have stop: "unat stop = unat (li_file_offset im) + length (li_bytes im)"
    using count checked_slice_length [OF bytes] by (auto simp: checked_sub_Some word_le_nat_alt)
  show "li_bytes im = take (length (li_bytes im)) (drop (unat (li_file_offset im)) (elf_bytes elf))"
    "unat (li_file_offset im) + length (li_bytes im) \<le> length (elf_bytes elf)"
    using bytes checked_slice_length [OF bytes] by (auto simp: checked_slice_Ok)
  show "s \<in> set (elf_sections elf) \<Longrightarrow> loadable s \<Longrightarrow> li_file_offset im \<le> sh_file_offset s \<and>
      unat (sh_file_offset s) + unat (sh_byte_count s) \<le> unat (li_file_offset im) + length (li_bytes im)"
    using load_span_covers [OF scan] stop by auto
qed

lemma loadable_kernel_no_panic: "elf_ok elf \<Longrightarrow> panic_free (loadable_kernel elf name)"
  unfolding loadable_kernel_def Let_def outside_image_def
  by (intro no_panic load_image_no_panic elf_kernel_no_panic)
    (auto simp: panic_free_def map_err_def split: sum.splits)

text \<open>A kernel that may be loaded: its addresses are offsets in the load image, aligned, and in range.\<close>

lemma loadable_kernel_Ok:
  assumes "loadable_kernel elf name = Ok k"
  obtains im code where "load_image elf = Ok im" "kernel_in_section elf k code"
    "4 dvd ks_virtual_address k" "4 dvd unat (ks_byte_count k)" "ks_name k = name"
    "unat (ks_file_offset k) = unat (li_file_offset im) + unat (ks_virtual_address k)"
    "unat (ks_section_file_offset k) = unat (li_file_offset im) + unat (ks_section_virtual_address k)"
    "unat (ks_section_virtual_address k) + unat (ks_section_byte_count k) \<le> length (li_bytes im)"
    "unat (ks_virtual_address k) + unat (ks_byte_count k) \<le> length (li_bytes im)"
proof -
  obtain im found offset section_offset where im: "load_image elf = Ok im" and found: "elf_kernel elf name = Ok found"
    and k: "k = dk_summary found" and align: "4 dvd ks_virtual_address k"
    and offsets: "checked_sub (ks_file_offset k) (li_file_offset im) = Some (ks_virtual_address k)"
      "checked_sub (ks_section_file_offset k) (li_file_offset im) = Some (ks_section_virtual_address k)"
    and slices: "is_ok (checked_slice (li_bytes im) (ks_section_virtual_address k) (ks_section_byte_count k))"
      "is_ok (checked_slice (li_bytes im) (ks_virtual_address k) (ks_byte_count k))"
    using assms
    by (auto simp: loadable_kernel_def and_then_Ok fail_or_Ok Let_def outside_image_def is_ok_iff split: if_splits)
  obtain code where "kernel_in_section elf k code" using elf_kernel_Ok(1) [OF found] k by blast
  with that [OF im this align] elf_kernel_Ok(2,3) [OF found] k offsets slices
  show thesis by (auto simp: is_ok_iff checked_slice_Ok checked_sub_Some word_le_nat_alt)
qed

section \<open>The property\<close>

text \<open>C26. No file makes the parser of device binaries panic, and every range it hands out is in bounds: parsing
  is total; for a parsed file the load image is a range of the file that covers every nonempty allocated
  section, and a kernel is a nonempty whole number of words with the requested name, whose bytes are a range
  of the file inside an executable section at the offset of its address in the section.\<close>

theorem device_elf_ranges:
  assumes "elf_parse bytes = Ok elf"
  shows "panic_free (elf_parse other) \<and> panic_free (load_image elf) \<and> panic_free (kernels elf) \<and>
    panic_free (loadable_kernel elf name) \<and>
    (\<forall>im. load_image elf = Ok im \<longrightarrow>
      li_bytes im = take (length (li_bytes im)) (drop (unat (li_file_offset im)) bytes) \<and>
      unat (li_file_offset im) + length (li_bytes im) \<le> length bytes \<and>
      (\<forall>s\<in>set (elf_sections elf). loadable s \<longrightarrow> li_file_offset im \<le> sh_file_offset s \<and>
         unat (sh_file_offset s) + unat (sh_byte_count s) \<le> unat (li_file_offset im) + length (li_bytes im))) \<and>
    (\<forall>found. elf_kernel elf name = Ok found \<longrightarrow>
      (\<exists>code. kernel_in_section elf (dk_summary found) code) \<and> ks_name (dk_summary found) = name \<and>
      4 dvd length (dk_bytes found) \<and>
      dk_bytes found = take (unat (ks_byte_count (dk_summary found)))
        (drop (unat (ks_file_offset (dk_summary found))) bytes))"
proof (intro conjI allI impI)
  have elf: "elf_ok elf" "elf_bytes elf = bytes" using elf_parse_Ok [OF assms] by simp_all
  then show "panic_free (elf_parse other)" "panic_free (load_image elf)" "panic_free (kernels elf)"
    "panic_free (loadable_kernel elf name)"
    by (simp_all add: elf_parse_no_panic load_image_no_panic kernels_no_panic loadable_kernel_no_panic)
  fix im assume im: "load_image elf = Ok im"
  show "li_bytes im = take (length (li_bytes im)) (drop (unat (li_file_offset im)) bytes)"
    "unat (li_file_offset im) + length (li_bytes im) \<le> length bytes"
    "\<forall>s\<in>set (elf_sections elf). loadable s \<longrightarrow> li_file_offset im \<le> sh_file_offset s \<and>
       unat (sh_file_offset s) + unat (sh_byte_count s) \<le> unat (li_file_offset im) + length (li_bytes im)"
    using load_image_Ok [OF im] elf by simp_all
next
  have elf: "elf_bytes elf = bytes" using elf_parse_Ok [OF assms] by simp
  fix found assume found: "elf_kernel elf name = Ok found"
  note kernel_facts = elf_kernel_Ok [OF found, unfolded elf]
  obtain code where "kernel_in_section elf (dk_summary found) code" using kernel_facts(1) by blast
  then have "length (dk_bytes found) = unat (ks_byte_count (dk_summary found))"
    using kernel_facts(4) by (auto simp: kernel_in_section_def elf)
  then show "\<exists>code. kernel_in_section elf (dk_summary found) code" "ks_name (dk_summary found) = name"
    "4 dvd length (dk_bytes found)"
    "dk_bytes found = take (unat (ks_byte_count (dk_summary found)))
       (drop (unat (ks_file_offset (dk_summary found))) bytes)"
    using kernel_facts by simp_all
qed

text \<open>A file with one kernel of two words in an executable, allocated section.\<close>

definition u64_field :: "u8 \<Rightarrow> u8 list" where
  "u64_field b = b # replicate 7 0"

definition section_bytes :: "u8 \<Rightarrow> u8 \<Rightarrow> u8 \<Rightarrow> u8 \<Rightarrow> u8 \<Rightarrow> u8 list" where
  "section_bytes kind flags offset count entry =
     [0, 0, 0, 0, kind, 0, 0, 0] @ u64_field flags @ u64_field 0 @ u64_field offset @ u64_field count @
     replicate 16 0 @ u64_field entry"

definition sample_file :: "u8 list" where
  "sample_file =
     [0x7f, 0x45, 0x4c, 0x46, 2, 1, 1] @ replicate 9 0 @ [2, 0, 0x29, 0x10, 1, 0, 0, 0] @ replicate 16 0 @
     u64_field 104 @ replicate 4 0 @ [64, 0, 0, 0, 0, 0, 64, 0, 3, 0, 0, 0] @
     [1, 2, 3, 4, 5, 6, 7, 8] @
     [1, 0, 0, 0, 0x12, 0, 1, 0] @ u64_field 0 @ u64_field 8 @
     [0, 75, 0, 0, 0, 0, 0, 0] @
     section_bytes 3 0 96 8 0 @ section_bytes 1 6 64 8 0 @ section_bytes 2 0 72 24 24"

definition sample_elf :: device_elf where
  "sample_elf = \<lparr>elf_bytes = sample_file,
     elf_header = \<lparr>eh_file_type = 2, eh_machine = 0x1029, eh_flags = 0, eh_section_count = 3\<rparr>,
     elf_sections =
       [\<lparr>sh_name_offset = 0, sh_section_type = 3, sh_flags = 0, sh_address = 0, sh_file_offset = 96,
         sh_byte_count = 8, sh_link = 0, sh_entry_size = 0\<rparr>,
        \<lparr>sh_name_offset = 0, sh_section_type = 1, sh_flags = 6, sh_address = 0, sh_file_offset = 64,
         sh_byte_count = 8, sh_link = 0, sh_entry_size = 0\<rparr>,
        \<lparr>sh_name_offset = 0, sh_section_type = 2, sh_flags = 0, sh_address = 0, sh_file_offset = 72,
         sh_byte_count = 24, sh_link = 0, sh_entry_size = 24\<rparr>],
     elf_section_names = [[], [], []]\<rparr>"

definition sample_summary :: device_kernel_summary where
  "sample_summary = \<lparr>ks_name = [75], ks_section = [], ks_section_virtual_address = 0,
     ks_section_file_offset = 64, ks_section_byte_count = 8, ks_virtual_address = 0, ks_file_offset = 64,
     ks_byte_count = 8\<rparr>"

lemma sample_parse: "elf_parse sample_file = Ok sample_elf"
  by code_simp

lemma sample_load: "load_image sample_elf = Ok \<lparr>li_file_offset = 64, li_bytes = [1, 2, 3, 4, 5, 6, 7, 8]\<rparr>"
  by code_simp

lemma sample_kernel:
  "elf_kernel sample_elf [75] = Ok \<lparr>dk_summary = sample_summary, dk_bytes = [1, 2, 3, 4, 5, 6, 7, 8]\<rparr>"
  by code_simp

theorem device_elf_ranges_witness:
  "elf_parse sample_file = Ok sample_elf \<and> panic_free (kernels sample_elf) \<and>
   (\<exists>code. kernel_in_section sample_elf sample_summary code) \<and>
   [1, 2, 3, 4, 5, 6, 7, 8] = take 8 (drop 64 sample_file)"
  using device_elf_ranges [OF sample_parse, of "[]" "[75]"] sample_parse sample_kernel
  by (simp add: sample_summary_def)

end
