(* ===== verification/Device_Loader.thy ===== *)
theory Device_Loader
  imports Device_Elf Hbm_Pv_Memory Scalar_Exec
begin

text \<open>
  \<open>src/src/image/loader.rs\<close>: a parsed device binary is copied into an allocation of the device memory, and
  the words of its executable section are fetched from there; with it \<open>ScalarStepper::step_loaded\<close> of
  \<open>src/src/sim/common/scalar/stepper.rs\<close>, which executes a loaded kernel. The host reservation of the
  allocator stays the parameter \<open>reserve\<close>.
\<close>

section \<open>Data\<close>

record device_binary_placement =
  bp_architecture :: architecture
  bp_aligned_code_address :: u64
  bp_allocation_base :: u64
  bp_allocation_bytes :: u64
  bp_image_bytes :: u64

record loaded_device_kernel =
  lk_placement :: device_binary_placement
  lk_kernel :: device_kernel_summary
  lk_entry_address :: u64
  lk_executable_start_address :: u64

datatype device_binary_load_error =
    InvalidImageSize
  | AllocationSizeOverflow
  | BinaryAllocation hbm_resolve_error
  | BinaryMemory hbm_pv_memory_error

datatype device_kernel_load_error =
    KernelElf device_elf_error
  | KernelBinary device_binary_load_error

datatype device_kernel_fetch_error =
    FetchArchitectureMismatch
  | UnalignedPc u64
  | OutsideExecutableSection u64
  | ImageAllocationChanged
  | FetchAllocation hbm_resolve_error
  | FetchMemory hbm_pv_memory_error

section \<open>Loading\<close>

definition validate_image :: "device_load_image \<Rightarrow> device_binary_load_error + u64" where
  "validate_image im =
     (if \<not> length (li_bytes im) < 2 ^ 64 then Err AllocationSizeOverflow
      else if li_bytes im = [] then Err InvalidImageSize
      else Ok (word_of_nat (length (li_bytes im))))"

definition aligned_address :: "u64 \<Rightarrow> device_binary_load_error + u64" where
  "aligned_address base =
     ok_or (map_option (\<lambda>address. address AND NOT 4095) (checked_add base 4095)) AllocationSizeOverflow"

text \<open>The closure of \<open>load_image\<close>: what happens once the block is allocated.\<close>

definition place_image ::
  "hbm_pv_memory \<Rightarrow> device_load_image \<Rightarrow> u64 \<Rightarrow> u64 \<Rightarrow> u64
     \<Rightarrow> hbm_pv_memory \<times> (device_binary_load_error + device_binary_placement)" where
  "place_image m im image_bytes block_bytes base =
     (case aligned_address base of
        Err e \<Rightarrow> (m, Err e)
      | Ok aligned \<Rightarrow>
          (case hbm_resolve_live (hp_allocator m) aligned image_bytes of
             Err e \<Rightarrow> (m, Err (BinaryAllocation e))
           | Ok _ \<Rightarrow>
               (case host_to_device m aligned (li_bytes im) of
                  (m', Err e) \<Rightarrow> (m', Err (BinaryMemory e))
                | (m', Ok _) \<Rightarrow>
                    (m', Ok \<lparr>bp_architecture = hbm_architecture (hp_allocator m'), bp_aligned_code_address = aligned,
                             bp_allocation_base = base, bp_allocation_bytes = block_bytes,
                             bp_image_bytes = image_bytes\<rparr>))))"

text \<open>\<open>load_image\<close>; a failure after the allocation frees the block.\<close>

definition load_binary ::
  "bool \<Rightarrow> hbm_pv_memory \<Rightarrow> device_load_image \<Rightarrow> hbm_pv_memory \<times> (device_binary_load_error + device_binary_placement)" where
  "load_binary reserve m im =
     (case and_then (validate_image im) (\<lambda>image_bytes.
            and_then (ok_or (checked_add image_bytes 4095) AllocationSizeOverflow) (\<lambda>block_bytes.
              Ok (image_bytes, block_bytes))) of
        Err e \<Rightarrow> (m, Err e)
      | Ok (image_bytes, block_bytes) \<Rightarrow>
          (case hp_allocate reserve m block_bytes of
             (m1, Err e) \<Rightarrow> (m1, Err (BinaryMemory e))
           | (m1, Ok base) \<Rightarrow>
               (case place_image m1 im image_bytes block_bytes base of
                  (m2, Ok placement) \<Rightarrow> (m2, Ok placement)
                | (m2, Err e) \<Rightarrow>
                    (case hp_free m2 base of
                       (m3, Err free_error) \<Rightarrow> (m3, Err (BinaryMemory free_error))
                     | (m3, Ok _) \<Rightarrow> (m3, Err e)))))"

definition kernel_addresses ::
  "device_binary_placement \<Rightarrow> device_kernel_summary \<Rightarrow> (u64 \<times> u64) elf_result" where
  "kernel_addresses placement k =
     and_then (device_address k (bp_aligned_code_address placement)) (\<lambda>entry.
     and_then (fail_or (checked_add entry (ks_byte_count k)) DeviceAddressOverflow) (\<lambda>stop.
     and_then (fail_or (checked_add (bp_aligned_code_address placement) (ks_section_virtual_address k))
       DeviceAddressOverflow) (\<lambda>start.
     and_then (fail_or (checked_add start (ks_section_byte_count k)) DeviceAddressOverflow) (\<lambda>section_end.
       if section_end < stop then Err (Fail InvalidKernelRange) else Ok (entry, start)))))"

definition load_named_kernel ::
  "bool \<Rightarrow> hbm_pv_memory \<Rightarrow> device_elf \<Rightarrow> u8 list
     \<Rightarrow> hbm_pv_memory \<times> (device_kernel_load_error fault + loaded_device_kernel)" where
  "load_named_kernel reserve m elf name =
     (case and_then (loadable_kernel elf name) (\<lambda>k. and_then (load_image elf) (\<lambda>im. Ok (k, im))) of
        Err e \<Rightarrow> (m, Err (map_fault KernelElf e))
      | Ok (k, im) \<Rightarrow>
          (case load_binary reserve m im of
             (m1, Err e) \<Rightarrow> (m1, Err (Fail (KernelBinary e)))
           | (m1, Ok placement) \<Rightarrow>
               (case kernel_addresses placement k of
                  Ok (entry, start) \<Rightarrow>
                    (m1, Ok \<lparr>lk_placement = placement, lk_kernel = k, lk_entry_address = entry,
                             lk_executable_start_address = start\<rparr>)
                | Err e \<Rightarrow>
                    (case hp_free m1 (bp_allocation_base placement) of
                       (m2, Err free_error) \<Rightarrow> (m2, Err (Fail (KernelBinary (BinaryMemory free_error))))
                     | (m2, Ok _) \<Rightarrow> (m2, Err (map_fault KernelElf e))))))"

section \<open>Fetching and stepping\<close>

definition fetch_executable_word ::
  "loaded_device_kernel \<Rightarrow> hbm_pv_memory \<Rightarrow> u64 \<Rightarrow> device_kernel_fetch_error + u32" where
  "fetch_executable_word lk m pc =
     (if hbm_architecture (hp_allocator m) \<noteq> bp_architecture (lk_placement lk) then Err FetchArchitectureMismatch else
      and_then (ok_or (checked_sub pc (lk_executable_start_address lk)) (OutsideExecutableSection pc)) (\<lambda>relative.
      if pc mod 4 \<noteq> 0 then Err (UnalignedPc pc)
      else if (case checked_add relative 4 of
                 None \<Rightarrow> True
               | Some stop \<Rightarrow> ks_section_byte_count (lk_kernel lk) < stop)
      then Err (OutsideExecutableSection pc) else
      and_then (map_err FetchAllocation (hbm_resolve_live (hp_allocator m) pc 4)) (\<lambda>span.
      if allocation_base span \<noteq> bp_allocation_base (lk_placement lk) then Err ImageAllocationChanged else
      and_then (map_err FetchMemory (device_to_host m pc [0, 0, 0, 0])) (\<lambda>bytes.
        Ok (ucast (from_le_bytes bytes))))))"

datatype 'e scalar_stepper_error =
    StepperArchitectureMismatch
  | StepperFetch device_kernel_fetch_error
  | StepperExecute "'e scalar_instruction_error"

definition step_loaded ::
  "('m, 'e) scalar_memory_bus \<Rightarrow> scalar_stepper \<Rightarrow> 'm \<Rightarrow> loaded_device_kernel \<Rightarrow> hbm_pv_memory
     \<Rightarrow> scalar_stepper \<times> 'm \<times> ('e scalar_stepper_error fault + scalar_program_step)" where
  "step_loaded bus st data lk code =
     (if sm_architecture (st_machine st) \<noteq> bp_architecture (lk_placement lk)
      then (st, data, Err (Fail StepperArchitectureMismatch))
      else if st_halted st then (st, data, Err (Fail (StepperExecute (ProgramEnded (st_pc st)))))
      else case fetch_executable_word lk code (st_pc st) of
        Err e \<Rightarrow> (st, data, Err (Fail (StepperFetch e)))
      | Ok word \<Rightarrow>
          (case step_word bus st data word of
             (st', data', r) \<Rightarrow> (st', data', map_err (map_fault StepperExecute) r)))"

section \<open>What a load does to the device memory\<close>

lemma place_image_cases:
  assumes "hp_ok m" and "place_image m im image_bytes block_bytes base = (m', r)"
  obtains (failed) e where "m' = m" "r = Err e"
  | (placed) aligned where "aligned_address base = Ok aligned"
      "host_to_device m aligned (li_bytes im) = (m', Ok ())"
      "r = Ok \<lparr>bp_architecture = hbm_architecture (hp_allocator m), bp_aligned_code_address = aligned,
        bp_allocation_base = base, bp_allocation_bytes = block_bytes, bp_image_bytes = image_bytes\<rparr>"
proof (cases "aligned_address base")
  case (Inl e)
  with assms(2) show ?thesis by (intro failed) (auto simp: place_image_def)
next
  case (Inr aligned)
  obtain m1 r1 where copy: "host_to_device m aligned (li_bytes im) = (m1, r1)" by fastforce
  show ?thesis
  proof (cases "is_ok (hbm_resolve_live (hp_allocator m) aligned image_bytes) \<and> r1 = Ok ()")
    case True
    with assms(2) Inr copy host_to_device_spec(2) [OF assms(1) copy] show ?thesis
      by (intro placed [of aligned]) (auto simp: place_image_def is_ok_iff)
  next
    case False
    with assms(2) Inr copy host_to_device_spec(3) [OF assms(1) copy]
    have "m' = m \<and> (\<exists>e. r = Err e)" by (auto simp: place_image_def is_ok_def split: sum.splits)
    then show ?thesis using failed by blast
  qed
qed

lemma unat_clear_low: "unat (w AND NOT (mask n)) = unat w div 2 ^ n * 2 ^ n" for w :: "'w::len word"
proof -
  have "(w AND NOT (mask n)) + take_bit n w = (w AND NOT (mask n)) OR take_bit n w"
    by (rule disjunctive_add_eq_or) (rule bit_word_eqI, auto simp: bit_simps)
  also have "\<dots> = w" by (rule bit_word_eqI) (auto simp: bit_simps)
  finally have "w AND NOT (mask n) = w - take_bit n w" by (simp add: eq_diff_eq)
  moreover have low: "unat (take_bit n w) = unat w mod 2 ^ n"
    by (subst unsigned_take_bit_eq) (simp add: take_bit_eq_mod)
  moreover have "take_bit n w \<le> w" by (simp add: word_le_nat_alt low)
  ultimately show ?thesis by (simp add: unat_sub minus_mod_eq_div_mult)
qed

lemma aligned_address_Ok:
  assumes "aligned_address base = Ok aligned"
  shows "unat base \<le> unat aligned" "unat aligned \<le> unat base + 4095" "4096 dvd unat aligned"
proof -
  have sum: "unat (base + 4095) = unat base + 4095" and aligned: "aligned = (base + 4095) AND NOT 4095"
    using assms by (auto simp: aligned_address_def ok_or_def checked_add_def unat_add_exact split: if_splits)
  have "unat aligned = (unat base + 4095) div 4096 * 4096"
    using unat_clear_low [of "base + 4095" 12] by (simp add: aligned mask_eq_exp_minus_1 sum)
  moreover have "(unat base + 4095) div 4096 * 4096 + (unat base + 4095) mod 4096 = unat base + 4095"
    "(unat base + 4095) mod 4096 < 4096"
    by (rule div_mult_mod_eq) simp
  ultimately show "unat base \<le> unat aligned" "unat aligned \<le> unat base + 4095" "4096 dvd unat aligned"
    by (linarith, linarith, simp)
qed

lemma hp_free_after_allocate:
  assumes "hbm_ok_in lo hi (hp_allocator m)" and "hp_allocate reserve m n = (m1, Ok base)"
    and "hp_allocator m2 = hp_allocator m1" and "hp_store m2 = hp_store m"
  shows "hp_free m2 base = (m, Ok ())"
proof -
  have "hbm_allocate reserve (hp_allocator m) n = (hp_allocator m1, Ok base)"
    using assms(2) by (auto simp: hp_allocate_def split: prod.splits)
  from hbm_free_after_allocate [OF assms(1) this] show ?thesis
    using assms(3,4) by (cases m; cases m2) (simp add: hp_free_def)
qed

lemma hp_allocate_failed: "hp_allocate reserve m n = (m', Err e) \<Longrightarrow> m' = m"
  by (cases "hbm_allocate reserve (hp_allocator m) n")
    (auto simp: hp_allocate_def elim!: hbm_allocate_cases)

lemma load_binary_cases:
  assumes ok: "hp_ok m" "hbm_ok_in lo hi (hp_allocator m)" and "load_binary reserve m im = (m', r)"
  obtains (failed) e where "r = Err e" "m' = m"
  | (loaded) block_bytes m1 base aligned where "li_bytes im \<noteq> []"
      "unat block_bytes = length (li_bytes im) + 4095"
      "hp_allocate reserve m block_bytes = (m1, Ok base)" "aligned_address base = Ok aligned"
      "host_to_device m1 aligned (li_bytes im) = (m', Ok ())"
      "r = Ok \<lparr>bp_architecture = hbm_architecture (hp_allocator m1), bp_aligned_code_address = aligned,
        bp_allocation_base = base, bp_allocation_bytes = block_bytes,
        bp_image_bytes = word_of_nat (length (li_bytes im))\<rparr>"
proof -
  let ?n = "word_of_nat (length (li_bytes im)) :: u64"
  consider (early) "\<exists>e. r = Err e" "m' = m"
    | (sized) block_bytes where "li_bytes im \<noteq> []" "length (li_bytes im) < 2 ^ 64"
        "checked_add ?n 4095 = Some block_bytes"
        "load_binary reserve m im = (case hp_allocate reserve m block_bytes of
             (m1, Err e) \<Rightarrow> (m1, Err (BinaryMemory e))
           | (m1, Ok base) \<Rightarrow>
               (case place_image m1 im ?n block_bytes base of
                  (m2, Ok placement) \<Rightarrow> (m2, Ok placement)
                | (m2, Err e) \<Rightarrow>
                    (case hp_free m2 base of
                       (m3, Err free_error) \<Rightarrow> (m3, Err (BinaryMemory free_error))
                     | (m3, Ok _) \<Rightarrow> (m3, Err e))))"
    using assms(3) by (auto simp: load_binary_def validate_image_def ok_or_def split: if_splits option.splits)
  then show thesis
  proof cases
    case early
    then show thesis using failed by blast
  next
    case sized
    then have block: "unat block_bytes = length (li_bytes im) + 4095"
      using checked_add_unat [OF sized(3)] by (simp add: unat_of_nat)
    obtain m1 res where al: "hp_allocate reserve m block_bytes = (m1, res)" by fastforce
    show thesis
    proof (cases res)
      case (Inl e)
      with al sized(4) assms(3) hp_allocate_failed have "m' = m" "r = Err (BinaryMemory e)" by auto
      then show thesis by (intro failed)
    next
      case (Inr base)
      have ok1: "hp_ok m1" using hp_ok_allocate [OF ok(1), of reserve block_bytes] al by simp
      obtain m2 placed where place: "place_image m1 im ?n block_bytes base = (m2, placed)" by fastforce
      show thesis using ok1 place
      proof (cases rule: place_image_cases)
        case (failed e)
        have "hp_store m1 = hp_store m" using al by (auto simp: hp_allocate_def split: prod.splits)
        then have "hp_free m1 base = (m, Ok ())" using hp_free_after_allocate [OF ok(2)] al Inr by auto
        with al Inr place failed sized(4) assms(3) have "r = Err e" "m' = m" by auto
        then show thesis by (rule that(1))
      next
        case (placed aligned)
        with al Inr place sized(4) assms(3) have "m' = m2" "r = Ok \<lparr>bp_architecture = hbm_architecture (hp_allocator m1),
          bp_aligned_code_address = aligned, bp_allocation_base = base, bp_allocation_bytes = block_bytes,
          bp_image_bytes = ?n\<rparr>" by auto
        with that(2) [OF sized(1) block] al Inr placed show thesis by simp
      qed
    qed
  qed
qed

text \<open>The image of a loaded kernel: it stands in its block, byte for byte, at an aligned address.\<close>

definition image_in_memory ::
  "nat \<Rightarrow> nat \<Rightarrow> device_load_image \<Rightarrow> hbm_pv_memory \<Rightarrow> device_binary_placement \<Rightarrow> bool" where
  "image_in_memory lo hi im m placement \<longleftrightarrow>
     hp_ok m \<and> hbm_ok_in lo hi (hp_allocator m) \<and>
     bp_architecture placement = hbm_architecture (hp_allocator m) \<and>
     (bp_allocation_base placement, bp_allocation_bytes placement) \<in> live (hp_allocator m) \<and>
     unat (bp_allocation_base placement) \<le> unat (bp_aligned_code_address placement) \<and>
     unat (bp_aligned_code_address placement) + length (li_bytes im) \<le>
       unat (bp_allocation_base placement) + unat (bp_allocation_bytes placement) \<and>
     4096 dvd unat (bp_aligned_code_address placement) \<and>
     (\<forall>x. unat (bp_aligned_code_address placement) \<le> unat x \<and>
          unat x < unat (bp_aligned_code_address placement) + length (li_bytes im) \<longrightarrow>
        pv_read_byte (hp_store m) x = li_bytes im ! (unat x - unat (bp_aligned_code_address placement)))"

lemma hp_allocate_Ok:
  assumes "hbm_ok_in lo hi (hp_allocator m)" and "hp_allocate reserve m n = (m1, Ok base)"
  shows "hbm_ok_in lo hi (hp_allocator m1)" "live (hp_allocator m1) = insert (base, n) (live (hp_allocator m))"
    "hp_store m1 = hp_store m" "unat base + unat n \<le> hi"
    "\<forall>(q, k)\<in>live (hp_allocator m). unat base + unat n \<le> unat q \<or> unat q + unat k \<le> unat base"
proof -
  obtain h where "hbm_allocate reserve (hp_allocator m) n = (h, Ok base)" "m1 = m\<lparr>hp_allocator := h\<rparr>"
    using assms(2) by (cases "hbm_allocate reserve (hp_allocator m) n") (auto simp: hp_allocate_def)
  with hbm_allocate_spec [OF assms(1), of reserve n h "Ok base"] show "hbm_ok_in lo hi (hp_allocator m1)"
    "live (hp_allocator m1) = insert (base, n) (live (hp_allocator m))" "hp_store m1 = hp_store m" "unat base + unat n \<le> hi"
    "\<forall>(q, k)\<in>live (hp_allocator m). unat base + unat n \<le> unat q \<or> unat q + unat k \<le> unat base"
    by simp_all
qed

lemma load_binary_image:
  assumes ok: "hp_ok m" "hbm_ok_in lo hi (hp_allocator m)" and "load_binary reserve m im = (m', Ok placement)"
  shows "image_in_memory lo hi im m' placement \<and>
    live (hp_allocator m') =
      insert (bp_allocation_base placement, bp_allocation_bytes placement) (live (hp_allocator m)) \<and>
    (\<forall>(q, k)\<in>live (hp_allocator m). \<forall>x. unat q \<le> unat x \<and> unat x < unat q + unat k \<longrightarrow>
       pv_read_byte (hp_store m') x = pv_read_byte (hp_store m) x)"
proof (cases rule: load_binary_cases [OF assms, case_names failed loaded])
  case (loaded block_bytes m1 base aligned)
    note alloc = hp_allocate_Ok [OF ok(2) loaded(3)] and aligned = aligned_address_Ok [OF loaded(4)]
    have ok1: "hp_ok m1" using hp_ok_allocate [OF ok(1), of reserve block_bytes] loaded(3) by simp
    note copy = host_to_device_spec [OF ok1 loaded(5)]
    have block: "unat base \<le> unat aligned" "unat aligned + length (li_bytes im) \<le> unat base + unat block_bytes"
      using aligned loaded(2) by simp_all
    have placement: "bp_allocation_base placement = base" "bp_allocation_bytes placement = block_bytes"
      "bp_aligned_code_address placement = aligned" "bp_architecture placement = hbm_architecture (hp_allocator m1)"
      using loaded(6) by auto
    have "image_in_memory lo hi im m' placement"
      using copy(1,2,5) alloc block aligned by (simp add: image_in_memory_def placement)
    moreover have "pv_read_byte (hp_store m') x = pv_read_byte (hp_store m) x"
      if "(q, k) \<in> live (hp_allocator m)" "unat q \<le> unat x" "unat x < unat q + unat k" for q k x
      using copy(5) that alloc(3,5) block by fastforce
    ultimately show ?thesis using copy(2) alloc(2) by (auto simp: placement)
qed simp

lemma image_fits:
  assumes "image_in_memory lo hi im m placement"
  shows "unat (bp_aligned_code_address placement) + length (li_bytes im) < 2 ^ 64"
proof -
  have hbm: "hbm_ok_in lo hi (hp_allocator m)"
    and block: "(bp_allocation_base placement, bp_allocation_bytes placement) \<in> live (hp_allocator m)"
    and inside: "unat (bp_aligned_code_address placement) + length (li_bytes im) \<le>
      unat (bp_allocation_base placement) + unat (bp_allocation_bytes placement)"
    using assms by (simp_all add: image_in_memory_def)
  obtain s where "s \<in> set (hbm_spans (hp_allocator m))" "span_base s = bp_allocation_base placement"
    "span_bytes s = bp_allocation_bytes placement" using block by (auto simp: live_iff)
  then show ?thesis using inside hbm_okD [OF hbm] tiles_mem [of lo "hbm_spans (hp_allocator m)" hi s] by simp
qed

text \<open>The addresses of a loadable kernel never overflow: the image lies below the end of the region.\<close>

lemma kernel_addresses_loaded:
  assumes "image_in_memory lo hi im m placement" and "kernel_in_section elf k code"
    and "unat (ks_section_virtual_address k) + unat (ks_section_byte_count k) \<le> length (li_bytes im)"
    and "unat (ks_virtual_address k) + unat (ks_byte_count k) \<le> length (li_bytes im)"
  shows "\<exists>entry start. kernel_addresses placement k = Ok (entry, start) \<and>
    unat entry = unat (bp_aligned_code_address placement) + unat (ks_virtual_address k) \<and>
    unat start = unat (bp_aligned_code_address placement) + unat (ks_section_virtual_address k) \<and>
    unat start \<le> unat entry \<and>
    unat entry + unat (ks_byte_count k) \<le> unat start + unat (ks_section_byte_count k)"
proof -
  let ?a = "bp_aligned_code_address placement"
  have fits: "unat ?a + length (li_bytes im) < 2 ^ 64" by (rule image_fits [OF assms(1)])
  then have sums: "unat (?a + ks_virtual_address k) = unat ?a + unat (ks_virtual_address k)"
    "unat (?a + ks_section_virtual_address k) = unat ?a + unat (ks_section_virtual_address k)"
    "unat (?a + ks_virtual_address k + ks_byte_count k) =
       unat ?a + unat (ks_virtual_address k) + unat (ks_byte_count k)"
    "unat (?a + ks_section_virtual_address k + ks_section_byte_count k) =
       unat ?a + unat (ks_section_virtual_address k) + unat (ks_section_byte_count k)"
    using assms(3,4) by (simp_all add: unat_add_exact)
  moreover obtain relative where relative:
    "unat (ks_virtual_address k) = unat (ks_section_virtual_address k) + relative"
    "relative + unat (ks_byte_count k) \<le> unat (ks_section_byte_count k)"
    using assms(2) by (auto simp: kernel_in_section_def)
  ultimately have "kernel_addresses placement k =
      Ok (?a + ks_virtual_address k, ?a + ks_section_virtual_address k)"
    using assms(3,4) fits
    by (simp add: kernel_addresses_def device_address_def checked_add_def word_less_nat_alt)
  then show ?thesis using sums relative by simp
qed

text \<open>A kernel that was loaded from a file: what the model keeps of it, in terms of the file.\<close>

definition kernel_loaded ::
  "nat \<Rightarrow> nat \<Rightarrow> device_elf \<Rightarrow> hbm_pv_memory \<Rightarrow> loaded_device_kernel \<Rightarrow> bool" where
  "kernel_loaded lo hi elf m lk \<longleftrightarrow>
     (\<exists>im code. image_in_memory lo hi im m (lk_placement lk) \<and> load_image elf = Ok im \<and>
        kernel_in_section elf (lk_kernel lk) code \<and> 4 dvd unat (lk_entry_address lk) \<and>
        4 dvd unat (ks_byte_count (lk_kernel lk)) \<and>
        unat (ks_section_file_offset (lk_kernel lk)) =
          unat (li_file_offset im) + unat (ks_section_virtual_address (lk_kernel lk)) \<and>
        unat (ks_section_virtual_address (lk_kernel lk)) + unat (ks_section_byte_count (lk_kernel lk)) \<le>
          length (li_bytes im) \<and>
        unat (lk_executable_start_address lk) = unat (bp_aligned_code_address (lk_placement lk)) +
          unat (ks_section_virtual_address (lk_kernel lk)) \<and>
        unat (lk_executable_start_address lk) \<le> unat (lk_entry_address lk) \<and>
        unat (lk_entry_address lk) + unat (ks_byte_count (lk_kernel lk)) \<le>
          unat (lk_executable_start_address lk) + unat (ks_section_byte_count (lk_kernel lk)))"

lemma map_fault_Panic [simp]: "map_fault f e = Panic \<longleftrightarrow> e = Panic"
  by (cases e) simp_all

lemma unat_dvd_4: "4 dvd w \<Longrightarrow> 4 dvd unat w" for w :: u64
  by (elim dvdE) (simp add: unat_word_ariths dvd_mod)

lemma load_named_kernel_cases:
  assumes ok: "hp_ok m" "hbm_ok_in lo hi (hp_allocator m)" and "load_named_kernel reserve m elf name = (m', r)"
  obtains (failed) e where "r = Err e" "m' = m" "elf_ok elf \<Longrightarrow> e \<noteq> Panic"
  | (loaded) lk where "r = Ok lk" "kernel_loaded lo hi elf m' lk" "ks_name (lk_kernel lk) = name"
      "live (hp_allocator m') = insert (bp_allocation_base (lk_placement lk), bp_allocation_bytes (lk_placement lk))
         (live (hp_allocator m))"
      "\<forall>(q, k)\<in>live (hp_allocator m). \<forall>x. unat q \<le> unat x \<and> unat x < unat q + unat k \<longrightarrow>
         pv_read_byte (hp_store m') x = pv_read_byte (hp_store m) x"
proof (cases "and_then (loadable_kernel elf name) (\<lambda>k. and_then (load_image elf) (\<lambda>im. Ok (k, im)))")
  case (Inl e)
  then have "e \<noteq> Panic" if "elf_ok elf"
    using loadable_kernel_no_panic [OF that, of name] load_image_no_panic [of elf]
    by (auto simp: and_then_def panic_free_def split: sum.splits)
  then show thesis using Inl assms(3) by (intro failed) (auto simp: load_named_kernel_def)
next
  case (Inr kim)
  then obtain k im where kim: "kim = (k, im)" "loadable_kernel elf name = Ok k" "load_image elf = Ok im"
    by (auto simp: and_then_Ok)
  obtain code where k: "kernel_in_section elf k code" "4 dvd ks_virtual_address k" "4 dvd unat (ks_byte_count k)"
    "ks_name k = name"
    "unat (ks_section_file_offset k) = unat (li_file_offset im) + unat (ks_section_virtual_address k)"
    "unat (ks_section_virtual_address k) + unat (ks_section_byte_count k) \<le> length (li_bytes im)"
    "unat (ks_virtual_address k) + unat (ks_byte_count k) \<le> length (li_bytes im)"
    by (rule loadable_kernel_Ok [OF kim(2)]) (use kim(3) in auto)
  obtain m1 res where load: "load_binary reserve m im = (m1, res)" by fastforce
  show thesis
  proof (cases res)
    case (Inl e)
    with load load_binary_cases [OF ok] have "m1 = m" by blast
    with Inl Inr kim(1) load assms(3) show thesis
      by (intro failed [of "Fail (KernelBinary e)"]) (auto simp: load_named_kernel_def)
  next
    case (Inr placement)
    note image = load_binary_image [OF ok load [unfolded Inr]]
    obtain entry start where addresses: "kernel_addresses placement k = Ok (entry, start)"
      "unat entry = unat (bp_aligned_code_address placement) + unat (ks_virtual_address k)"
      "unat start = unat (bp_aligned_code_address placement) + unat (ks_section_virtual_address k)"
      "unat start \<le> unat entry" "unat entry + unat (ks_byte_count k) \<le> unat start + unat (ks_section_byte_count k)"
      using kernel_addresses_loaded [OF _ k(1,6,7)] image by blast
    define lk where "lk = \<lparr>lk_placement = placement, lk_kernel = k, lk_entry_address = entry,
      lk_executable_start_address = start\<rparr>"
    have "(m', r) = (m1, Ok lk)"
      using assms(3) load Inr addresses(1) kim
      by (simp add: load_named_kernel_def lk_def)
    moreover have "4096 dvd unat (bp_aligned_code_address placement)" using image by (simp add: image_in_memory_def)
    then have "4 dvd unat (bp_aligned_code_address placement)" by (rule dvd_trans [rotated]) simp
    then have "4 dvd unat entry" using addresses(2) unat_dvd_4 [OF k(2)] by simp
    ultimately show thesis using image k kim addresses
      by (intro loaded [of lk]) (auto simp: lk_def kernel_loaded_def)
  qed
qed

section \<open>Fetching from a loaded kernel\<close>

text \<open>The word of the file that a program counter of the executable section stands for.\<close>

definition section_word :: "device_elf \<Rightarrow> loaded_device_kernel \<Rightarrow> u64 \<Rightarrow> u32" where
  "section_word elf lk pc =
     ucast (from_le_bytes (take 4 (drop (unat (ks_section_file_offset (lk_kernel lk)) +
       (unat pc - unat (lk_executable_start_address lk))) (elf_bytes elf))))"

definition fetch_spec :: "device_elf \<Rightarrow> loaded_device_kernel \<Rightarrow> u64 \<Rightarrow> device_kernel_fetch_error + u32" where
  "fetch_spec elf lk pc =
     (if pc < lk_executable_start_address lk then Err (OutsideExecutableSection pc)
      else if pc mod 4 \<noteq> 0 then Err (UnalignedPc pc)
      else if unat (lk_executable_start_address lk) + unat (ks_section_byte_count (lk_kernel lk)) < unat pc + 4
      then Err (OutsideExecutableSection pc)
      else Ok (section_word elf lk pc))"

lemma resolve_image:
  assumes "image_in_memory lo hi im m placement" and "unat (bp_aligned_code_address placement) \<le> unat pc"
    and "unat pc + 4 \<le> unat (bp_aligned_code_address placement) + length (li_bytes im)"
  shows "\<exists>v. hbm_resolve_live (hp_allocator m) pc 4 = Ok v \<and> allocation_base v = bp_allocation_base placement"
proof -
  have hbm: "hbm_ok_in lo hi (hp_allocator m)" using assms(1) by (simp add: image_in_memory_def)
  show ?thesis using assms
    by (intro exI [of _ "\<lparr>allocation_base = bp_allocation_base placement,
          allocation_size = bp_allocation_bytes placement, allocation_offset = pc - bp_allocation_base placement\<rparr>"])
      (auto simp: hbm_resolve_live_spec [OF hbm] image_in_memory_def)
qed

lemma image_word:
  assumes "image_in_memory lo hi im m placement" and "unat (bp_aligned_code_address placement) \<le> unat pc"
    and "unat pc + 4 \<le> unat (bp_aligned_code_address placement) + length (li_bytes im)"
  shows "device_to_host m pc [0, 0, 0, 0] =
    Ok (take 4 (drop (unat pc - unat (bp_aligned_code_address placement)) (li_bytes im)))"
proof -
  let ?at = "unat pc - unat (bp_aligned_code_address placement)"
  have ok: "hp_ok m" and image: "\<And>x. unat (bp_aligned_code_address placement) \<le> unat x \<Longrightarrow>
      unat x < unat (bp_aligned_code_address placement) + length (li_bytes im) \<Longrightarrow>
      pv_read_byte (hp_store m) x = li_bytes im ! (unat x - unat (bp_aligned_code_address placement))"
    using assms(1) by (simp_all add: image_in_memory_def)
  have "pv_read_byte (hp_store m) (pc + word_of_nat i) = li_bytes im ! (?at + i)" if "i < 4" for i
  proof -
    have "unat (word_of_nat i :: u64) = i" using that by (simp add: unat_of_nat)
    then have "unat (pc + word_of_nat i) = unat pc + i"
      using that assms(3) image_fits [OF assms(1)] by (subst unat_add_exact) simp_all
    then show ?thesis using image [of "pc + word_of_nat i"] that assms(2,3) by simp
  qed
  then have "pv_bytes (hp_store m) pc 4 = take 4 (drop ?at (li_bytes im))"
    using assms(2,3) by (intro nth_equalityI) (simp_all add: pv_bytes_def)
  moreover obtain v where "hbm_resolve_live (hp_allocator m) pc 4 = Ok v" using resolve_image [OF assms] by blast
  moreover have "unat pc + 4 \<le> 2 ^ 64" using assms(3) image_fits [OF assms(1)] by simp
  moreover have len: "length [0, 0, 0, 0 :: u8] = 4" by simp
  ultimately show ?thesis unfolding device_to_host_eq [OF ok] len by simp
qed

lemma take_drop_range: "d + j \<le> n \<Longrightarrow> take j (drop d (take n (drop k xs))) = take j (drop (k + d) xs)"
  by (simp add: drop_take take_take min_def add.commute)

lemma kernel_loaded_fetch:
  assumes "kernel_loaded lo hi elf m lk"
  shows "fetch_executable_word lk m pc = fetch_spec elf lk pc"
proof -
  obtain im code where image: "image_in_memory lo hi im m (lk_placement lk)" and im: "load_image elf = Ok im"
    and off: "unat (ks_section_file_offset (lk_kernel lk)) =
      unat (li_file_offset im) + unat (ks_section_virtual_address (lk_kernel lk))"
    and inside: "unat (ks_section_virtual_address (lk_kernel lk)) + unat (ks_section_byte_count (lk_kernel lk)) \<le>
      length (li_bytes im)"
    and start: "unat (lk_executable_start_address lk) = unat (bp_aligned_code_address (lk_placement lk)) +
      unat (ks_section_virtual_address (lk_kernel lk))"
    using assms by (auto simp: kernel_loaded_def)
  let ?start = "lk_executable_start_address lk" and ?count = "ks_section_byte_count (lk_kernel lk)"
  have arch: "hbm_architecture (hp_allocator m) = bp_architecture (lk_placement lk)"
    using image by (simp add: image_in_memory_def)
  have bound: "(case checked_add (pc - ?start) 4 of None \<Rightarrow> True | Some stop \<Rightarrow> ?count < stop) \<longleftrightarrow>
      unat ?start + unat ?count < unat pc + 4" if "?start \<le> pc"
  proof -
    have rel: "unat (pc - ?start) = unat pc - unat ?start" "unat ?start \<le> unat pc"
      using that by (simp_all add: unat_sub word_le_nat_alt)
    show ?thesis
      using rel unsigned_less [of ?count, where ?'a = nat]
      by (auto simp: checked_add_def word_less_nat_alt unat_add_exact)
  qed
  show ?thesis
  proof (cases "?start \<le> pc \<and> pc mod 4 = 0 \<and> unat pc + 4 \<le> unat ?start + unat ?count")
    case True
    let ?a = "unat (bp_aligned_code_address (lk_placement lk))"
    have at: "?a \<le> unat pc" "unat pc + 4 \<le> ?a + length (li_bytes im)"
      using True start inside by (simp_all add: word_le_nat_alt)
    obtain v where "hbm_resolve_live (hp_allocator m) pc 4 = Ok v"
      "allocation_base v = bp_allocation_base (lk_placement lk)" using resolve_image [OF image at] by blast
    moreover have "take 4 (drop (unat pc - ?a) (li_bytes im)) =
        take 4 (drop (unat (ks_section_file_offset (lk_kernel lk)) + (unat pc - unat ?start)) (elf_bytes elf))"
    proof -
      have pos: "unat (li_file_offset im) + (unat pc - ?a) =
          unat (ks_section_file_offset (lk_kernel lk)) + (unat pc - unat ?start)"
        using True start off by (simp add: word_le_nat_alt)
      have "take 4 (drop (unat pc - ?a) (take (length (li_bytes im)) (drop (unat (li_file_offset im)) (elf_bytes elf)))) =
          take 4 (drop (unat (li_file_offset im) + (unat pc - ?a)) (elf_bytes elf))"
        by (rule take_drop_range) (use at in arith)
      then show ?thesis unfolding pos load_image_Ok(1) [OF im, symmetric] .
    qed
    ultimately show ?thesis
      using True arch bound image_word [OF image at]
      by (simp add: fetch_executable_word_def fetch_spec_def section_word_def checked_sub_def not_less)
  next
    case False
    then show ?thesis using arch bound
      by (auto simp: fetch_executable_word_def fetch_spec_def checked_sub_def not_less not_le)
  qed
qed

lemma step_loaded_fetched:
  assumes "kernel_loaded lo hi elf m lk" and "sm_architecture (st_machine st) = hbm_architecture (hp_allocator m)"
    and "\<not> st_halted st" and "fetch_spec elf lk (st_pc st) = Ok word"
  shows "step_loaded bus st data lk m =
    (case step_word bus st data word of (st', data', r) \<Rightarrow> (st', data', map_err (map_fault StepperExecute) r))"
  using assms(2-4) kernel_loaded_fetch [OF assms(1), of "st_pc st"] assms(1)
  by (auto simp: step_loaded_def kernel_loaded_def image_in_memory_def)

section \<open>Properties\<close>

text \<open>C27. Loading a kernel. On a well-formed device memory \<open>load_named_kernel\<close> of a parsed file either fails
  without a panic and leaves the device memory as it was, or adds one block to the live allocations, leaves the
  bytes of all others alone, and yields a kernel whose fetches, at every program counter, give the
  little-endian word of the file that belongs to that address of its executable section: below the section,
  past it and at unaligned addresses they report exactly that error. The entry point is aligned and the whole
  kernel lies in the section.\<close>

theorem loaded_kernel_fetches_file:
  assumes "elf_parse bytes = Ok elf" and "hp_ok m" and "hbm_ok_in lo hi (hp_allocator m)"
    and "load_named_kernel reserve m elf name = (m', r)"
  shows "case r of
      Err e \<Rightarrow> m' = m \<and> e \<noteq> Panic
    | Ok lk \<Rightarrow>
        live (hp_allocator m') = insert (bp_allocation_base (lk_placement lk), bp_allocation_bytes (lk_placement lk))
          (live (hp_allocator m)) \<and>
        (\<forall>(q, k)\<in>live (hp_allocator m). \<forall>x. unat q \<le> unat x \<and> unat x < unat q + unat k \<longrightarrow>
           pv_read_byte (hp_store m') x = pv_read_byte (hp_store m) x) \<and>
        ks_name (lk_kernel lk) = name \<and> 4 dvd unat (lk_entry_address lk) \<and>
        lk_executable_start_address lk \<le> lk_entry_address lk \<and>
        unat (lk_entry_address lk) + unat (ks_byte_count (lk_kernel lk)) \<le>
          unat (lk_executable_start_address lk) + unat (ks_section_byte_count (lk_kernel lk)) \<and>
        (\<forall>pc. fetch_executable_word lk m' pc =
          (if pc < lk_executable_start_address lk then Err (OutsideExecutableSection pc)
           else if pc mod 4 \<noteq> 0 then Err (UnalignedPc pc)
           else if unat (lk_executable_start_address lk) + unat (ks_section_byte_count (lk_kernel lk)) < unat pc + 4
           then Err (OutsideExecutableSection pc)
           else Ok (ucast (from_le_bytes (take 4 (drop (unat (ks_section_file_offset (lk_kernel lk)) +
             (unat pc - unat (lk_executable_start_address lk))) bytes))))))"
proof -
  have elf: "elf_ok elf" "elf_bytes elf = bytes" using elf_parse_Ok [OF assms(1)] by simp_all
  show ?thesis
  proof (cases rule: load_named_kernel_cases [OF assms(2-4), case_names failed loaded])
    case (failed e)
    then show ?thesis using elf by simp
  next
    case (loaded lk)
    have "fetch_executable_word lk m' pc = fetch_spec elf lk pc" for pc
      by (rule kernel_loaded_fetch [OF loaded(2)])
    moreover have "4 dvd unat (lk_entry_address lk)" "lk_executable_start_address lk \<le> lk_entry_address lk"
      "unat (lk_entry_address lk) + unat (ks_byte_count (lk_kernel lk)) \<le>
        unat (lk_executable_start_address lk) + unat (ks_section_byte_count (lk_kernel lk))"
      using loaded(2) by (auto simp: kernel_loaded_def word_le_nat_alt)
    ultimately show ?thesis using loaded(1,3-5) by (simp add: fetch_spec_def section_word_def elf)
  qed
qed

definition loader_memory :: hbm_pv_memory where
  "loader_memory = hp_new Dav2201 0 1"

lemma loader_memory_ok: "hp_ok loader_memory" "hbm_ok_in 268435456 21743271936 (hp_allocator loader_memory)"
  by (simp_all add: loader_memory_def hp_ok_new) (simp add: hp_new_def hbm_new_def hbm_ok_in_def default_hbm_base_def default_hbm_bytes_def)

lemma loader_demo:
  "\<exists>m' lk. load_named_kernel True loader_memory sample_elf [75] = (m', Ok lk) \<and> lk_entry_address lk = 268435456 \<and>
     lk_executable_start_address lk = 268435456 \<and> lk_kernel lk = sample_summary"
proof -
  have kernel: "loadable_kernel sample_elf [75] = Ok sample_summary" by code_simp
  have "pv_check_range 268435456 (length [1, 2, 3, 4, 5, 6, 7, 8 :: u8]) = Ok ()" by (simp add: pv_check_range_Ok)
  moreover have "touched 268435456 (length [1, 2, 3, 4, 5, 6, 7, 8 :: u8]) = {268435456}"
    by (subst touched_eq) (auto simp: pv_page_bytes_def)
  ultimately obtain st where "pv_write (pv_new 0 1) 268435456 [1, 2, 3, 4, 5, 6, 7, 8] = (st, Ok ())"
    using pv_write_one_page [of _ _ _ 0] by blast
  then show ?thesis
    by (simp add: load_named_kernel_def kernel sample_load load_binary_def validate_image_def loader_memory_def hp_new_def
        hbm_new_def default_hbm_base_def default_hbm_bytes_def hp_allocate_def hbm_allocate_def insert_at_def
        checked_add_def place_image_def aligned_address_def hbm_resolve_live_def host_to_device_def
        kernel_addresses_def device_address_def sample_summary_def)
qed

theorem loaded_kernel_fetches_file_witness:
  "\<exists>m' lk. load_named_kernel True loader_memory sample_elf [75] = (m', Ok lk) \<and>
     fetch_executable_word lk m' 268435460 = Ok 0x08070605 \<and>
     fetch_executable_word lk m' 268435458 = Err (UnalignedPc 268435458) \<and>
     fetch_executable_word lk m' 268435464 = Err (OutsideExecutableSection 268435464)"
proof -
  obtain m' lk where load: "load_named_kernel True loader_memory sample_elf [75] = (m', Ok lk)"
    and lk: "lk_executable_start_address lk = 268435456" "lk_kernel lk = sample_summary" using loader_demo by blast
  have fourth: "take 4 (drop 68 sample_file) = [5, 6, 7, 8]" by code_simp
  show ?thesis
    using loaded_kernel_fetches_file [OF sample_parse loader_memory_ok load] load lk fourth
    by (intro exI [of _ m'] exI [of _ lk]) (simp add: sample_summary_def)
qed

end
