(* ===== verification/Ub_Arbiter.thy ===== *)
theory Ub_Arbiter
  imports Rust_Std
begin

text \<open>
  \<open>src/src/sim/c220/memory/ub_block.rs\<close> and \<open>ub_arbiter.rs\<close>: the vector ports of the unified buffer. An
  access is split into blocks that each lie in one 32-byte bank line; in every cycle the arbiter grants blocks,
  port by port and in block order, as long as no bank and no bank group of the port's direction is used twice.
  A partial write needs two grants, the second one after a delay.
\<close>

section \<open>Progress of a block\<close>

definition partial_write_ticks :: u64 where
  "partial_write_ticks = 6"

datatype ub_block_progress =
    Waiting
  | ReadModifyWriteDelay u64
  | AwaitingWriteGrant u64
  | Complete u64 u64

fun pending_grant :: "ub_block_progress \<Rightarrow> bool option" where
  "pending_grant Waiting = Some False"
| "pending_grant (AwaitingWriteGrant _) = Some True"
| "pending_grant _ = None"

fun progress_tick :: "ub_block_progress \<Rightarrow> u64 option" where
  "progress_tick (Complete _ final_grant) = Some final_grant"
| "progress_tick _ = None"

fun grant_progress :: "u64 \<Rightarrow> bool \<Rightarrow> ub_block_progress \<Rightarrow> ub_block_progress" where
  "grant_progress tick partial_write Waiting =
     (if partial_write then ReadModifyWriteDelay tick else Complete tick tick)"
| "grant_progress tick _ (AwaitingWriteGrant first_grant) = Complete first_grant tick"
| "grant_progress _ _ p = p"

definition saturating_sub :: "u64 \<Rightarrow> u64 \<Rightarrow> u64" where
  "saturating_sub a b = (if b \<le> a then a - b else 0)"

fun finish_progress :: "u64 \<Rightarrow> ub_block_progress \<Rightarrow> ub_block_progress" where
  "finish_progress tick (ReadModifyWriteDelay first_grant) =
     (if partial_write_ticks \<le> saturating_sub tick first_grant then AwaitingWriteGrant first_grant
      else ReadModifyWriteDelay first_grant)"
| "finish_progress _ p = p"

section \<open>Requests\<close>

record ub_bank =
  bank_group :: u8
  bank_id :: u8

definition bank_from_address :: "u64 \<Rightarrow> ub_bank" where
  "bank_from_address address =
     (let group = ucast (drop_bit 5 address AND 0xf) :: u8
      in \<lparr>bank_group = group, bank_id = group OR ucast (drop_bit 12 address AND 0x30)\<rparr>)"

datatype ub_request_error = AddressOverflow u64 usize

record ub_block =
  block_address :: u64
  block_bytes :: u8
  block_bank :: ub_bank

record ub_request =
  rq_blocks :: "ub_block list"
  rq_grants :: "u64 option list"
  rq_progress :: "ub_block_progress list"
  rq_partial_writes :: "bool list"

definition next_boundary :: "u64 \<Rightarrow> u64" where
  "next_boundary at = saturating_add at (32 - at mod 32)"

lemma unat_line_rest: "unat (32 - at mod 32) = 32 - unat at mod 32" "0 < 32 - unat at mod 32" for at :: u64
  by (simp_all add: unat_sub unat_mod word_le_nat_alt)

lemma unat_next_boundary:
  "unat (next_boundary at) = min (unat at + (32 - unat at mod 32)) (2 ^ 64 - 1)"
proof -
  have "unat (- 1 :: u64) = 2 ^ 64 - 1" by (simp add: unsigned_minus_1_eq_mask mask_eq_exp_minus_1)
  then show ?thesis by (auto simp: next_boundary_def saturating_add_def unat_add_exact unat_line_rest min_def)
qed

lemma next_boundary_less: "at < stop \<Longrightarrow> at < min (next_boundary at) stop" for at stop :: u64
  using unat_line_rest(2) [of at] unsigned_less [of stop, where ?'a = nat]
  by (auto simp: word_less_nat_alt unat_next_boundary min_def)

text \<open>The blocks of one access with their flags of a partial write: the loop \<open>while at < end\<close>.\<close>

function split_access :: "bool \<Rightarrow> bool \<Rightarrow> u64 \<Rightarrow> u64 \<Rightarrow> (ub_block \<times> bool) list" where
  "split_access write full_mask at stop =
     (if at < stop then
        let next_at = min (next_boundary at) stop
        in (\<lparr>block_address = at, block_bytes = ucast (next_at - at), block_bank = bank_from_address at\<rparr>,
            write \<and> (\<not> full_mask \<or> at mod 32 \<noteq> 0 \<or> next_at - at \<noteq> 32))
           # split_access write full_mask next_at stop
      else [])"
  by pat_completeness auto
termination
  by (relation "measure (\<lambda>(_, _, at, stop). unat stop - unat at)")
    (use next_boundary_less in \<open>auto simp: word_less_nat_alt diff_less_mono2\<close>)

declare split_access.simps [simp del]

fun build_blocks :: "(u64 \<times> usize \<times> bool \<times> bool) list \<Rightarrow> ub_request_error + (ub_block \<times> bool) list" where
  "build_blocks [] = Ok []"
| "build_blocks ((address, bytes, write, full_mask) # accesses) =
     and_then (ok_or (checked_add address (word_of_nat bytes)) (AddressOverflow address bytes)) (\<lambda>stop.
     and_then (build_blocks accesses) (\<lambda>rest. Ok (split_access write full_mask address stop @ rest)))"

definition build_request :: "(u64 \<times> usize \<times> bool \<times> bool) list \<Rightarrow> ub_request_error + ub_request" where
  "build_request accesses =
     and_then (build_blocks accesses) (\<lambda>blocks.
       Ok \<lparr>rq_blocks = map fst blocks, rq_grants = replicate (length blocks) None,
           rq_progress = replicate (length blocks) Waiting, rq_partial_writes = map snd blocks\<rparr>)"

definition from_accesses :: "(u64 \<times> usize) list \<Rightarrow> ub_request_error + ub_request" where
  "from_accesses accesses = build_request (map (\<lambda>(address, bytes). (address, bytes, False, False)) accesses)"

definition from_writes :: "(u64 \<times> usize \<times> bool) list \<Rightarrow> ub_request_error + ub_request" where
  "from_writes accesses = build_request (map (\<lambda>(address, bytes, full). (address, bytes, True, full)) accesses)"

definition request_complete :: "ub_request \<Rightarrow> bool" where
  "request_complete r \<longleftrightarrow> list_all (\<lambda>g. g \<noteq> None) (rq_grants r)"

definition request_completion_tick :: "ub_request \<Rightarrow> u64 option" where
  "request_completion_tick r =
     (case List.map_filter (\<lambda>g. g) (rq_grants r) of [] \<Rightarrow> None | t # ts \<Rightarrow> Some (fold max ts t))"

section \<open>Arbitration\<close>

datatype ub_port = VectorWrite | VectorRead0 | VectorRead1 | VectorReadDestination

record ub_decision =
  dc_port :: ub_port
  dc_index :: usize
  dc_block :: ub_block
  dc_granted :: bool
  dc_second_grant :: bool

record ub_cycle =
  cy_tick :: u64
  cy_bank_mask :: u64
  cy_read_group_mask :: u16
  cy_write_group_mask :: u16
  cy_decisions :: "ub_decision list"

definition group_mask :: "ub_port \<Rightarrow> ub_cycle \<Rightarrow> u16" where
  "group_mask port c = (if port = VectorWrite then cy_write_group_mask c else cy_read_group_mask c)"

definition take_group :: "ub_port \<Rightarrow> u16 \<Rightarrow> ub_cycle \<Rightarrow> ub_cycle" where
  "take_group port group_bit c =
     (if port = VectorWrite then c\<lparr>cy_write_group_mask := cy_write_group_mask c OR group_bit\<rparr>
      else c\<lparr>cy_read_group_mask := cy_read_group_mask c OR group_bit\<rparr>)"

definition arbitrate_block :: "ub_port \<Rightarrow> nat \<Rightarrow> ub_cycle \<times> ub_request \<Rightarrow> ub_cycle \<times> ub_request" where
  "arbitrate_block port i = (\<lambda>(c, r).
     case pending_grant (rq_progress r ! i) of
       None \<Rightarrow> (c, r)
     | Some second_grant \<Rightarrow>
         let block = rq_blocks r ! i;
             bank_bit = push_bit (unat (bank_id (block_bank block))) (1 :: u64);
             group_bit = push_bit (unat (bank_group (block_bank block))) (1 :: u16);
             granted = (cy_bank_mask c AND bank_bit = 0 \<and> group_mask port c AND group_bit = 0);
             progress = grant_progress (cy_tick c) (rq_partial_writes r ! i) (rq_progress r ! i);
             c' = (if granted then take_group port group_bit (c\<lparr>cy_bank_mask := cy_bank_mask c OR bank_bit\<rparr>) else c);
             r' = (if granted then r\<lparr>rq_progress := (rq_progress r)[i := progress],
                                     rq_grants := (rq_grants r)[i := progress_tick progress]\<rparr> else r)
         in (c'\<lparr>cy_decisions := cy_decisions c @ [\<lparr>dc_port = port, dc_index = i, dc_block = block,
                 dc_granted = granted, dc_second_grant = second_grant\<rparr>]\<rparr>, r'))"

definition arbitrate_port :: "ub_port \<Rightarrow> ub_cycle \<Rightarrow> ub_request \<Rightarrow> ub_cycle \<times> ub_request" where
  "arbitrate_port port c r =
     (case fold (arbitrate_block port) [0..<length (rq_blocks r)] (c, r) of
        (c', r') \<Rightarrow> (c', r'\<lparr>rq_progress := map (finish_progress (cy_tick c)) (rq_progress r')\<rparr>))"

fun arbitrate_ports :: "(ub_port \<times> ub_request option) list \<Rightarrow> ub_cycle \<Rightarrow> ub_cycle \<times> ub_request option list" where
  "arbitrate_ports [] c = (c, [])"
| "arbitrate_ports ((port, None) # rest) c = map_prod id (Cons None) (arbitrate_ports rest c)"
| "arbitrate_ports ((port, Some r) # rest) c =
     (case arbitrate_port port c r of (c', r') \<Rightarrow> map_prod id (Cons (Some r')) (arbitrate_ports rest c'))"

definition empty_cycle :: "u64 \<Rightarrow> ub_cycle" where
  "empty_cycle tick = \<lparr>cy_tick = tick, cy_bank_mask = 0, cy_read_group_mask = 0, cy_write_group_mask = 0,
     cy_decisions = []\<rparr>"

text \<open>The requests of the write port and the three read ports, and what becomes of them.\<close>

definition arbitrate_with_destination ::
  "u64 \<Rightarrow> ub_request option \<Rightarrow> ub_request option \<Rightarrow> ub_request option \<Rightarrow> ub_request option
     \<Rightarrow> ub_cycle \<times> ub_request option list" where
  "arbitrate_with_destination tick write read0 read1 read_destination =
     arbitrate_ports [(VectorWrite, write), (VectorRead0, read0), (VectorRead1, read1),
       (VectorReadDestination, read_destination)] (empty_cycle tick)"

definition arbitrate ::
  "u64 \<Rightarrow> ub_request option \<Rightarrow> ub_request option \<Rightarrow> ub_request option \<Rightarrow> ub_cycle \<times> ub_request option list" where
  "arbitrate tick write read0 read1 = arbitrate_with_destination tick write read0 read1 None"

text \<open>The projection of a write request in isolation; its clock ends with the type.\<close>

definition arbitrate_alone :: "u64 \<Rightarrow> ub_request \<Rightarrow> ub_request" where
  "arbitrate_alone tick r = the (hd (snd (arbitrate tick (Some r) None None)))"

function projected_write_completion :: "ub_request \<Rightarrow> u64 \<Rightarrow> u64 option" where
  "projected_write_completion r tick =
     (if request_complete r then request_completion_tick r
      else let r' = arbitrate_alone tick r in
        if request_complete r' then request_completion_tick r'
        else (case checked_add tick 1 of
                None \<Rightarrow> None
              | Some tick' \<Rightarrow> projected_write_completion r' tick'))"
  by pat_completeness auto
termination
  by (relation "measure (\<lambda>(_, tick). 2 ^ 64 - unat tick)")
    (use unat_u64_less in \<open>auto dest!: checked_add_unat intro!: diff_less_mono2\<close>)

declare projected_write_completion.simps [simp del]

section \<open>Requests cover their accesses\<close>

definition byte_range :: "u64 \<Rightarrow> nat \<Rightarrow> nat list" where
  "byte_range address n = [unat address ..< unat address + n]"

definition block_range :: "ub_block \<Rightarrow> nat list" where
  "block_range b = byte_range (block_address b) (unat (block_bytes b))"

definition block_ok :: "ub_block \<Rightarrow> bool" where
  "block_ok b \<longleftrightarrow> block_bank b = bank_from_address (block_address b) \<and> 0 < unat (block_bytes b) \<and>
     unat (block_address b) mod 32 + unat (block_bytes b) \<le> 32"

lemma split_access_spec:
  "concat (map (block_range \<circ> fst) (split_access wr full start stop)) = [unat start ..< unat stop] \<and>
   list_all block_ok (map fst (split_access wr full start stop)) \<and>
   (\<forall>(b, part)\<in>set (split_access wr full start stop). part \<longleftrightarrow> wr \<and> (\<not> full \<or> unat (block_bytes b) \<noteq> 32))"
proof (induction wr full start stop rule: split_access.induct)
  case (1 wr full start stop)
  show ?case
  proof (cases "start < stop")
    case False
    then show ?thesis by (simp add: split_access.simps word_less_nat_alt)
  next
    case True
    define upto where "upto = min (next_boundary start) stop"
    define b where "b = \<lparr>block_address = start, block_bytes = ucast (upto - start), block_bank = bank_from_address start\<rparr>"
    have less: "unat start < unat upto" "unat upto \<le> unat stop"
      using next_boundary_less [OF True] by (simp_all add: upto_def word_less_nat_alt min_def word_le_nat_alt)
    have line: "unat upto \<le> unat start + (32 - unat start mod 32)"
      unfolding upto_def by (auto simp: min_def word_le_nat_alt unat_next_boundary)
    have size: "unat (upto - start) = unat upto - unat start" using less by (simp add: unat_sub word_le_nat_alt)
    then have count: "unat (block_bytes b) = unat upto - unat start"
      using line by (simp add: b_def unsigned_ucast_eq take_bit_nat_eq_self)
    have whole: "upto - start = 32 \<longleftrightarrow> unat (block_bytes b) = 32" "start mod 32 = 0 \<longleftrightarrow> unat start mod 32 = 0"
      using size count by (auto simp: word_unat_eq_iff unat_mod)
    have aligned: "start mod 32 \<noteq> 0 \<or> upto - start \<noteq> 32 \<longleftrightarrow> unat (block_bytes b) \<noteq> 32"
      using line less count unfolding whole by linarith
    have step: "split_access wr full start stop =
        (b, wr \<and> (\<not> full \<or> unat (block_bytes b) \<noteq> 32)) # split_access wr full upto stop"
      using aligned by (subst split_access.simps)
        (simp only: Let_def upto_def [symmetric] True if_True b_def [symmetric] de_Morgan_conj HOL.simp_thms)
    have "block_range b @ [unat upto ..< unat stop] = [unat start ..< unat stop]"
      using less upt_add_eq_append [of "unat start" "unat upto" "unat stop - unat upto"]
      by (simp add: block_range_def byte_range_def count) (simp add: b_def)
    moreover have "block_ok b" using less line count by (simp add: block_ok_def) (simp add: b_def)
    ultimately show ?thesis using 1 [OF True upto_def] by (simp add: step)
  qed
qed

text \<open>The blocks of one access: they tile its bytes, none leaves its line, and a write is partial unless the
  mask is full and the block a whole line.\<close>

definition splits :: "u64 \<times> usize \<times> bool \<times> bool \<Rightarrow> (ub_block \<times> bool) list \<Rightarrow> bool" where
  "splits access part = (case access of (address, bytes, wr, full) \<Rightarrow>
     unat address + unat (word_of_nat bytes :: u64) < 2 ^ 64 \<and>
     concat (map (block_range \<circ> fst) part) = byte_range address (unat (word_of_nat bytes :: u64)) \<and>
     list_all (\<lambda>(b, partial). block_ok b \<and> partial = (wr \<and> (\<not> full \<or> unat (block_bytes b) \<noteq> 32))) part)"

lemma split_access_splits:
  assumes "checked_add address (word_of_nat bytes) = Some stop"
  shows "splits (address, bytes, wr, full) (split_access wr full address stop)"
  using split_access_spec [of wr full address stop] checked_add_unat [OF assms] assms
  by (auto simp: splits_def byte_range_def checked_add_Some list_all_iff)

lemma build_blocks_spec:
  "case build_blocks accesses of
     Ok blocks \<Rightarrow> \<exists>parts. list_all2 splits accesses parts \<and> blocks = concat parts
   | Err e \<Rightarrow> \<exists>address bytes flags. (address, bytes, flags) \<in> set accesses \<and>
       e = AddressOverflow address bytes \<and> 2 ^ 64 \<le> unat address + unat (word_of_nat bytes :: u64)"
proof (induction accesses)
  case (Cons access accesses)
  obtain address bytes wr full where access: "access = (address, bytes, wr, full)" by (cases access)
  show ?case
  proof (cases "checked_add address (word_of_nat bytes)")
    case None
    then have "2 ^ 64 \<le> unat address + unat (word_of_nat bytes :: u64)" by (simp add: checked_add_None)
    with None show ?thesis by (auto simp: access)
  next
    case (Some stop)
    show ?thesis
    proof (cases "build_blocks accesses")
      case (Inl e)
      with Cons Some show ?thesis by (auto simp: access)
    next
      case (Inr blocks)
      with Cons obtain parts where "list_all2 splits accesses parts" "blocks = concat parts" by auto
      then have "list_all2 splits (access # accesses) (split_access wr full address stop # parts)"
        using split_access_splits [OF Some] by (simp add: access)
      with \<open>blocks = concat parts\<close> show ?thesis
        by (auto simp: access Some Inr intro!: exI [of _ "split_access wr full address stop # parts"])
    qed
  qed
qed simp

section \<open>The request invariant\<close>

definition request_ok :: "ub_request \<Rightarrow> bool" where
  "request_ok r \<longleftrightarrow> list_all block_ok (rq_blocks r) \<and> length (rq_progress r) = length (rq_blocks r) \<and>
     length (rq_partial_writes r) = length (rq_blocks r) \<and> rq_grants r = map progress_tick (rq_progress r)"

lemma splits_blocks_ok: "list_all2 splits accesses parts \<Longrightarrow> list_all block_ok (map fst (concat parts))"
  by (induction rule: list_all2_induct) (auto simp: splits_def list_all_iff)

lemma build_request_ok: "build_request accesses = Ok r \<Longrightarrow> request_ok r"
  using build_blocks_spec [of accesses]
  by (auto simp: build_request_def and_then_Ok request_ok_def splits_blocks_ok [simplified] map_replicate)

lemma unat_less_exp: "take_bit n w = w \<Longrightarrow> unat w < 2 ^ n" for w :: "'w::len word"
  by (metis take_bit_nat_less_exp unsigned_take_bit_eq)

lemma bank_bounds: "unat (bank_id (bank_from_address a)) < 64" "unat (bank_group (bank_from_address a)) < 16"
proof -
  have low: "0xf = (mask 4 :: u64)" and high: "0x30 = push_bit 4 (mask 2 :: u64)" by (simp_all add: mask_eq_exp_minus_1 push_bit_eq_mult)
  have "take_bit 6 (bank_id (bank_from_address a)) = bank_id (bank_from_address a)"
    unfolding bank_from_address_def Let_def low high by (rule bit_word_eqI) (auto simp: bit_simps)
  then show "unat (bank_id (bank_from_address a)) < 64" using unat_less_exp by fastforce
  have "take_bit 4 (bank_group (bank_from_address a)) = bank_group (bank_from_address a)"
    unfolding bank_from_address_def Let_def low by (rule bit_word_eqI) (auto simp: bit_simps)
  then show "unat (bank_group (bank_from_address a)) < 16" using unat_less_exp by fastforce
qed

section \<open>Arbitration is greedy\<close>

definition decision_bank :: "ub_decision \<Rightarrow> nat" where
  "decision_bank d = unat (bank_id (block_bank (dc_block d)))"

definition decision_group :: "ub_decision \<Rightarrow> nat" where
  "decision_group d = unat (bank_group (block_bank (dc_block d)))"

text \<open>Two decisions conflict on a bank, or on a bank group if both read or both write.\<close>

definition conflicts :: "ub_decision \<Rightarrow> ub_decision \<Rightarrow> bool" where
  "conflicts d e \<longleftrightarrow> decision_bank d = decision_bank e \<or>
     ((dc_port d = VectorWrite) = (dc_port e = VectorWrite) \<and> decision_group d = decision_group e)"

text \<open>The reference: a block is granted unless a block granted before it conflicts.\<close>

definition greedy :: "ub_decision list \<Rightarrow> bool" where
  "greedy ds \<longleftrightarrow> (\<forall>i<length ds. dc_granted (ds ! i) \<longleftrightarrow>
     (\<forall>j<i. dc_granted (ds ! j) \<longrightarrow> \<not> conflicts (ds ! j) (ds ! i)))"

lemma greedy_Nil [simp]: "greedy []"
  by (simp add: greedy_def)

lemma greedy_snoc:
  "greedy (ds @ [d]) \<longleftrightarrow> greedy ds \<and> (dc_granted d \<longleftrightarrow> (\<forall>e\<in>set ds. dc_granted e \<longrightarrow> \<not> conflicts e d))"
  by (auto simp: greedy_def nth_append less_Suc_eq all_set_conv_all_nth)

definition cycle_ok :: "ub_cycle \<Rightarrow> bool" where
  "cycle_ok c \<longleftrightarrow> greedy (cy_decisions c) \<and>
     (\<forall>k. bit (cy_bank_mask c) k \<longleftrightarrow> (\<exists>d\<in>set (cy_decisions c). dc_granted d \<and> decision_bank d = k)) \<and>
     (\<forall>k. bit (cy_write_group_mask c) k \<longleftrightarrow>
        (\<exists>d\<in>set (cy_decisions c). dc_granted d \<and> dc_port d = VectorWrite \<and> decision_group d = k)) \<and>
     (\<forall>k. bit (cy_read_group_mask c) k \<longleftrightarrow>
        (\<exists>d\<in>set (cy_decisions c). dc_granted d \<and> dc_port d \<noteq> VectorWrite \<and> decision_group d = k))"

lemma cycle_ok_bank: "cycle_ok c \<Longrightarrow>
    bit (cy_bank_mask c) k \<longleftrightarrow> (\<exists>d\<in>set (cy_decisions c). dc_granted d \<and> decision_bank d = k)"
  by (simp add: cycle_ok_def)

lemma cycle_ok_group: "cycle_ok c \<Longrightarrow> bit (group_mask port c) k \<longleftrightarrow>
    (\<exists>d\<in>set (cy_decisions c). dc_granted d \<and> (dc_port d = VectorWrite) = (port = VectorWrite) \<and> decision_group d = k)"
  by (cases "port = VectorWrite") (simp_all add: cycle_ok_def group_mask_def)

lemma cycle_ok_empty: "cycle_ok (empty_cycle tick)"
  by (simp add: cycle_ok_def empty_cycle_def)

text \<open>The effect of one port on the decisions and on its request.\<close>

definition pending_indices :: "ub_request \<Rightarrow> nat list" where
  "pending_indices r = filter (\<lambda>i. pending_grant (rq_progress r ! i) \<noteq> None) [0..<length (rq_blocks r)]"

definition granted_in :: "ub_port \<Rightarrow> ub_cycle \<Rightarrow> nat \<Rightarrow> bool" where
  "granted_in port c i \<longleftrightarrow> (\<exists>d\<in>set (cy_decisions c). dc_port d = port \<and> dc_index d = i \<and> dc_granted d)"

lemma arbitrate_block_cases:
  assumes "arbitrate_block port i (c, r) = (c', r')" and "block_ok (rq_blocks r ! i)" and "cycle_ok c"
  obtains (idle) "pending_grant (rq_progress r ! i) = None" "c' = c" "r' = r"
  | (decided) d where "cy_decisions c' = cy_decisions c @ [d]" "dc_port d = port" "dc_index d = i"
      "dc_block d = rq_blocks r ! i" "pending_grant (rq_progress r ! i) = Some (dc_second_grant d)"
      "cycle_ok c'" "cy_tick c' = cy_tick c"
      "r' = (if dc_granted d then
         r\<lparr>rq_progress := (rq_progress r)[i := grant_progress (cy_tick c) (rq_partial_writes r ! i) (rq_progress r ! i)],
           rq_grants := (rq_grants r)[i := progress_tick
             (grant_progress (cy_tick c) (rq_partial_writes r ! i) (rq_progress r ! i))]\<rparr> else r)"
proof (cases "pending_grant (rq_progress r ! i)")
  case None
  with assms(1) show ?thesis by (intro idle) (simp_all add: arbitrate_block_def)
next
  case (Some second)
  let ?b = "block_bank (rq_blocks r ! i)"
  have bounds: "unat (bank_id ?b) < 64" "unat (bank_group ?b) < 16"
    using assms(2) bank_bounds by (simp_all add: block_ok_def)
  define granted where "granted = (cy_bank_mask c AND push_bit (unat (bank_id ?b)) 1 = 0 \<and>
    group_mask port c AND push_bit (unat (bank_group ?b)) 1 = 0)"
  define d where "d = \<lparr>dc_port = port, dc_index = i, dc_block = rq_blocks r ! i, dc_granted = granted,
    dc_second_grant = second\<rparr>"
  have dp: "dc_port d = port" by (simp add: d_def)
  have free: "granted \<longleftrightarrow> \<not> bit (cy_bank_mask c) (decision_bank d) \<and> \<not> bit (group_mask port c) (decision_group d)"
    using bounds by (simp add: granted_def and_exp_eq_0_iff_not_bit decision_bank_def decision_group_def d_def)
  define progress where "progress = grant_progress (cy_tick c) (rq_partial_writes r ! i) (rq_progress r ! i)"
  have step: "arbitrate_block port i (c, r) =
     ((if granted then take_group port (push_bit (unat (bank_group ?b)) 1)
        (c\<lparr>cy_bank_mask := cy_bank_mask c OR push_bit (unat (bank_id ?b)) 1\<rparr>) else c)
      \<lparr>cy_decisions := cy_decisions c @ [d]\<rparr>,
      if granted then r\<lparr>rq_progress := (rq_progress r)[i := progress],
        rq_grants := (rq_grants r)[i := progress_tick progress]\<rparr> else r)"
    unfolding arbitrate_block_def Some Let_def prod.case option.case granted_def d_def progress_def ..
  have c': "c' = (if granted then take_group port (push_bit (unat (bank_group ?b)) 1)
        (c\<lparr>cy_bank_mask := cy_bank_mask c OR push_bit (unat (bank_id ?b)) 1\<rparr>) else c)
      \<lparr>cy_decisions := cy_decisions c @ [d]\<rparr>"
    and r': "r' = (if granted then r\<lparr>rq_progress := (rq_progress r)[i := progress],
        rq_grants := (rq_grants r)[i := progress_tick progress]\<rparr> else r)"
    using trans [OF assms(1) [symmetric] step] unfolding prod.inject by (rule conjunct1, rule conjunct2)
  have "granted \<longleftrightarrow> (\<forall>e\<in>set (cy_decisions c). dc_granted e \<longrightarrow> \<not> conflicts e d)"
    unfolding free cycle_ok_bank [OF assms(3)] cycle_ok_group [OF assms(3)] conflicts_def dp by blast
  then have "greedy (cy_decisions c @ [d])" using assms(3) by (simp add: greedy_snoc cycle_ok_def d_def)
  have bits: "bit (push_bit (unat (bank_id ?b)) (1 :: u64)) k \<longleftrightarrow> k = decision_bank d"
    "bit (push_bit (unat (bank_group ?b)) (1 :: u16)) k \<longleftrightarrow> k = decision_group d" for k
    using bounds by (auto simp: bit_simps decision_bank_def decision_group_def d_def)
  have "cy_decisions c' = cy_decisions c @ [d]" "cy_tick c' = cy_tick c"
    "cy_bank_mask c' = (if granted then cy_bank_mask c OR push_bit (unat (bank_id ?b)) 1 else cy_bank_mask c)"
    "cy_write_group_mask c' = (if granted \<and> port = VectorWrite
       then cy_write_group_mask c OR push_bit (unat (bank_group ?b)) 1 else cy_write_group_mask c)"
    "cy_read_group_mask c' = (if granted \<and> port \<noteq> VectorWrite
       then cy_read_group_mask c OR push_bit (unat (bank_group ?b)) 1 else cy_read_group_mask c)"
    by (simp_all add: c' take_group_def)
  note fields = this
  have "dc_granted d = granted" "dc_port d = port" "dc_index d = i" "dc_block d = rq_blocks r ! i" "dc_second_grant d = second"
    by (simp_all add: d_def)
  note d = this
  have "cycle_ok c'"
    using assms(3) \<open>greedy (cy_decisions c @ [d])\<close>
    by (simp add: cycle_ok_def fields bit_or_iff bits d del: push_bit_of_1) blast
  then show ?thesis
    using Some by (intro decided [of d]) (simp_all add: fields d r' progress_def)
qed

text \<open>What one cycle does to a request, given the blocks it was granted.\<close>

definition granted_progress :: "u64 \<Rightarrow> (nat \<Rightarrow> bool) \<Rightarrow> ub_request \<Rightarrow> nat \<Rightarrow> ub_block_progress" where
  "granted_progress tick granted r i =
     (if granted i then grant_progress tick (rq_partial_writes r ! i) (rq_progress r ! i) else rq_progress r ! i)"

definition port_invariant ::
  "ub_port \<Rightarrow> ub_cycle \<Rightarrow> ub_request \<Rightarrow> nat \<Rightarrow> ub_cycle \<Rightarrow> ub_request \<Rightarrow> bool" where
  "port_invariant port c r n c' r' \<longleftrightarrow>
     cycle_ok c' \<and> cy_tick c' = cy_tick c \<and> request_ok r' \<and>
     rq_blocks r' = rq_blocks r \<and> rq_partial_writes r' = rq_partial_writes r \<and>
     (\<exists>new. cy_decisions c' = cy_decisions c @ new \<and>
        map dc_index new = filter (\<lambda>i. pending_grant (rq_progress r ! i) \<noteq> None) [0..<n] \<and>
        (\<forall>d\<in>set new. dc_port d = port \<and> dc_block d = rq_blocks r ! dc_index d \<and>
           pending_grant (rq_progress r ! dc_index d) = Some (dc_second_grant d)) \<and>
        (\<forall>i<length (rq_blocks r). rq_progress r' ! i =
           granted_progress (cy_tick c) (\<lambda>i. \<exists>d\<in>set new. dc_index d = i \<and> dc_granted d) r i))"

lemma port_invariant_fold:
  assumes "request_ok r" and "cycle_ok c" and "n \<le> length (rq_blocks r)"
  shows "case fold (arbitrate_block port) [0..<n] (c, r) of (c', r') \<Rightarrow> port_invariant port c r n c' r'"
  using assms(3)
proof (induction n)
  case 0
  then show ?case using assms by (simp add: port_invariant_def granted_progress_def)
next
  case (Suc n)
  obtain c1 r1 where fold: "fold (arbitrate_block port) [0..<n] (c, r) = (c1, r1)" by fastforce
  with Suc have inv: "port_invariant port c r n c1 r1" by simp
  then obtain new where new: "cy_decisions c1 = cy_decisions c @ new"
    "map dc_index new = filter (\<lambda>i. pending_grant (rq_progress r ! i) \<noteq> None) [0..<n]"
    "\<forall>d\<in>set new. dc_port d = port \<and> dc_block d = rq_blocks r ! dc_index d \<and>
       pending_grant (rq_progress r ! dc_index d) = Some (dc_second_grant d)"
    "\<forall>i<length (rq_blocks r). rq_progress r1 ! i =
       granted_progress (cy_tick c) (\<lambda>i. \<exists>d\<in>set new. dc_index d = i \<and> dc_granted d) r i"
    by (auto simp: port_invariant_def)
  have r1: "request_ok r1" "rq_blocks r1 = rq_blocks r" "rq_partial_writes r1 = rq_partial_writes r"
    "cycle_ok c1" "cy_tick c1 = cy_tick c"
    using inv by (simp_all add: port_invariant_def)
  have "dc_index d < n" if "d \<in> set new" for d
    using that new(2) by (metis atLeastLessThan_iff filter_is_subset image_eqI image_set set_upt subsetD)
  then have fresh: "\<not> (\<exists>d\<in>set new. dc_index d = n \<and> dc_granted d)" by blast
  then have same: "rq_progress r1 ! n = rq_progress r ! n"
    using new(4) Suc.prems by (auto simp: granted_progress_def)
  have block: "block_ok (rq_blocks r1 ! n)"
    using Suc.prems assms(1) r1(2) by (simp add: request_ok_def list_all_length)
  obtain c2 r2 where step: "arbitrate_block port n (c1, r1) = (c2, r2)" by fastforce
  show ?case using step block r1(4)
  proof (cases rule: arbitrate_block_cases)
    case idle
    then show ?thesis using inv fold step new same r1
      by (simp add: port_invariant_def)
  next
    case (decided d)
    let ?new = "new @ [d]"
    let ?p = "grant_progress (cy_tick c) (rq_partial_writes r ! n) (rq_progress r ! n)"
    have r2: "rq_blocks r2 = rq_blocks r" "rq_partial_writes r2 = rq_partial_writes r"
      "rq_progress r2 = (if dc_granted d then (rq_progress r1)[n := ?p] else rq_progress r1)"
      "rq_grants r2 = (if dc_granted d then (rq_grants r1)[n := progress_tick ?p] else rq_grants r1)"
      using decided(8) r1 same by simp_all
    then have "request_ok r2" using r1 by (simp add: request_ok_def map_update)
    moreover have "rq_progress r2 ! i =
        granted_progress (cy_tick c) (\<lambda>i. \<exists>d\<in>set ?new. dc_index d = i \<and> dc_granted d) r i"
      if "i < length (rq_blocks r)" for i
      using that new(4) fresh r1(1,2) decided(3)
      by (cases "i = n") (auto simp: r2(3) granted_progress_def request_ok_def same)
    moreover have "cy_decisions c2 = cy_decisions c @ ?new" using decided(1) new(1) by simp
    moreover have "map dc_index ?new = filter (\<lambda>i. pending_grant (rq_progress r ! i) \<noteq> None) [0..<Suc n]"
      using new(2) decided(3,5) same by simp
    moreover have "\<forall>d\<in>set ?new. dc_port d = port \<and> dc_block d = rq_blocks r ! dc_index d \<and>
       pending_grant (rq_progress r ! dc_index d) = Some (dc_second_grant d)"
      using new(3) decided(2-5) r1(2) same by simp
    ultimately have "port_invariant port c r (Suc n) c2 r2"
      unfolding port_invariant_def using decided(6,7) r1(5) r2(1,2) by (intro conjI exI [of _ ?new]) simp_all
    then show ?thesis using fold step by simp
  qed
qed

text \<open>The outcome of a cycle for the request of one port.\<close>

definition port_outcome :: "u64 \<Rightarrow> ub_decision list \<Rightarrow> ub_port \<Rightarrow> ub_request \<Rightarrow> ub_request \<Rightarrow> bool" where
  "port_outcome tick ds port r r' \<longleftrightarrow>
     request_ok r' \<and> rq_blocks r' = rq_blocks r \<and> rq_partial_writes r' = rq_partial_writes r \<and>
     (\<forall>i<length (rq_blocks r). rq_progress r' ! i = finish_progress tick
        (granted_progress tick (\<lambda>i. \<exists>d\<in>set ds. dc_port d = port \<and> dc_index d = i \<and> dc_granted d) r i))"

definition port_decisions :: "ub_port \<Rightarrow> ub_request \<Rightarrow> ub_decision list \<Rightarrow> bool" where
  "port_decisions port r ds \<longleftrightarrow> map dc_index ds = pending_indices r \<and>
     (\<forall>d\<in>set ds. dc_port d = port \<and> dc_block d = rq_blocks r ! dc_index d \<and>
        pending_grant (rq_progress r ! dc_index d) = Some (dc_second_grant d))"

lemma progress_tick_finish [simp]: "progress_tick (finish_progress tick p) = progress_tick p"
  by (cases p) simp_all

lemma arbitrate_port_spec:
  assumes "arbitrate_port port c r = (c', r')" and "request_ok r" and "cycle_ok c"
  shows "cycle_ok c' \<and> cy_tick c' = cy_tick c \<and>
    (\<exists>new. cy_decisions c' = cy_decisions c @ new \<and> port_decisions port r new \<and>
       port_outcome (cy_tick c) new port r r')"
proof -
  obtain r1 where fold: "fold (arbitrate_block port) [0..<length (rq_blocks r)] (c, r) = (c', r1)"
    and r': "r' = r1\<lparr>rq_progress := map (finish_progress (cy_tick c)) (rq_progress r1)\<rparr>"
    using assms(1) by (auto simp: arbitrate_port_def split: prod.splits)
  have inv: "port_invariant port c r (length (rq_blocks r)) c' r1"
    using port_invariant_fold [OF assms(2,3) order_refl, of port] fold by simp
  then obtain new where new: "cy_decisions c' = cy_decisions c @ new" "port_decisions port r new"
    and progress: "\<forall>i<length (rq_blocks r). rq_progress r1 ! i =
       granted_progress (cy_tick c) (\<lambda>i. \<exists>d\<in>set new. dc_index d = i \<and> dc_granted d) r i"
    by (auto simp: port_invariant_def port_decisions_def pending_indices_def)
  have r1: "request_ok r1" "rq_blocks r1 = rq_blocks r" "rq_partial_writes r1 = rq_partial_writes r"
    using inv by (simp_all add: port_invariant_def)
  have "(\<exists>d\<in>set new. dc_port d = port \<and> dc_index d = i \<and> dc_granted d) \<longleftrightarrow> (\<exists>d\<in>set new. dc_index d = i \<and> dc_granted d)" for i
    using new(2) by (auto simp: port_decisions_def)
  then have "port_outcome (cy_tick c) new port r r'"
    using r1 progress by (simp add: port_outcome_def r' request_ok_def granted_progress_def comp_def)
  with inv new show ?thesis by (auto simp: port_invariant_def)
qed

text \<open>The ports one after the other; a port that is absent decides nothing.\<close>

definition decided_by :: "ub_port \<times> ub_request option \<Rightarrow> ub_decision list \<Rightarrow> bool" where
  "decided_by p part = (case p of (port, None) \<Rightarrow> part = [] | (port, Some r) \<Rightarrow> port_decisions port r part)"

definition served :: "u64 \<Rightarrow> ub_decision list \<Rightarrow> ub_port \<times> ub_request option \<Rightarrow> ub_request option \<Rightarrow> bool" where
  "served tick ds p r' = (case p of
       (port, None) \<Rightarrow> r' = None
     | (port, Some r) \<Rightarrow> (\<exists>s. r' = Some s \<and> port_outcome tick ds port r s))"

lemma decided_by_simps [simp]:
  "decided_by (port, None) part \<longleftrightarrow> part = []" "decided_by (port, Some r) part \<longleftrightarrow> port_decisions port r part"
  by (simp_all add: decided_by_def)

lemma served_simps [simp]:
  "served tick ds (port, None) r' \<longleftrightarrow> r' = None"
  "served tick ds (port, Some r) r' \<longleftrightarrow> (\<exists>s. r' = Some s \<and> port_outcome tick ds port r s)"
  by (simp_all add: served_def)

lemma port_outcome_cong:
  "(\<And>d. dc_port d = port \<Longrightarrow> d \<in> set ds \<longleftrightarrow> d \<in> set ds') \<Longrightarrow>
     port_outcome tick ds port r r' = port_outcome tick ds' port r r'"
proof -
  assume "\<And>d. dc_port d = port \<Longrightarrow> d \<in> set ds \<longleftrightarrow> d \<in> set ds'"
  then have "(\<lambda>i. \<exists>d\<in>set ds. dc_port d = port \<and> dc_index d = i \<and> dc_granted d) =
      (\<lambda>i. \<exists>d\<in>set ds'. dc_port d = port \<and> dc_index d = i \<and> dc_granted d)" by blast
  then show ?thesis by (simp add: port_outcome_def)
qed

lemma served_cong:
  "(\<And>d. dc_port d = fst p \<Longrightarrow> d \<in> set ds \<longleftrightarrow> d \<in> set ds') \<Longrightarrow> served tick ds p r' = served tick ds' p r'"
proof (cases p)
  case (Pair port r)
  assume "\<And>d. dc_port d = fst p \<Longrightarrow> d \<in> set ds \<longleftrightarrow> d \<in> set ds'"
  then have "port_outcome tick ds port = port_outcome tick ds' port"
    using port_outcome_cong [of port ds ds' tick] by (intro ext) (simp add: Pair)
  then show ?thesis by (cases r) (simp_all add: Pair)
qed

lemma decided_by_port: "list_all2 decided_by ports parts \<Longrightarrow> d \<in> set (concat parts) \<Longrightarrow> dc_port d \<in> fst ` set ports"
  by (induction rule: list_all2_induct) (auto simp: decided_by_def port_decisions_def split: prod.splits option.splits)

lemma arbitrate_ports_spec:
  assumes "arbitrate_ports ports c = (c', rs)" and "cycle_ok c" and "distinct (map fst ports)"
    and "\<And>port r. (port, Some r) \<in> set ports \<Longrightarrow> request_ok r"
  shows "cycle_ok c' \<and> cy_tick c' = cy_tick c \<and>
    (\<exists>parts. cy_decisions c' = cy_decisions c @ concat parts \<and> list_all2 decided_by ports parts \<and>
       list_all2 (served (cy_tick c) (concat parts)) ports rs)"
  using assms
proof (induction ports c arbitrary: rs rule: arbitrate_ports.induct)
  case (1 c)
  then show ?case by (auto intro!: exI [of _ "[]"])
next
  case (2 port rest c)
  then obtain rs' where rs: "rs = None # rs'" "arbitrate_ports rest c = (c', rs')" by (cases "arbitrate_ports rest c") auto
  from "2.IH" [OF rs(2) "2.prems"(2)] "2.prems"(3,4) obtain parts where
    "cycle_ok c'" "cy_tick c' = cy_tick c" "cy_decisions c' = cy_decisions c @ concat parts"
    "list_all2 decided_by rest parts" "list_all2 (served (cy_tick c) (concat parts)) rest rs'" by auto
  then show ?case by (intro conjI exI [of _ "[] # parts"]) (simp_all add: rs)
next
  case (3 port r rest c)
  obtain c1 r1 where port: "arbitrate_port port c r = (c1, r1)" by fastforce
  then obtain rs' where rs: "rs = Some r1 # rs'" "arbitrate_ports rest c1 = (c', rs')"
    using "3.prems"(1) by (cases "arbitrate_ports rest c1") auto
  from arbitrate_port_spec [OF port _ "3.prems"(2)] "3.prems"(4) obtain new where
    c1: "cycle_ok c1" "cy_tick c1 = cy_tick c" "cy_decisions c1 = cy_decisions c @ new" "port_decisions port r new"
    and out: "port_outcome (cy_tick c) new port r r1" by force
  from "3.IH" [OF port [symmetric] rs(2) c1(1)] "3.prems"(3,4) obtain parts where
    rest: "cycle_ok c'" "cy_tick c' = cy_tick c" "cy_decisions c' = cy_decisions c1 @ concat parts"
    "list_all2 decided_by rest parts" "list_all2 (served (cy_tick c) (concat parts)) rest rs'"
    by (auto simp: c1(2))
  have other: "dc_port d \<noteq> port" if "d \<in> set (concat parts)" for d
    using decided_by_port [OF rest(4) that] "3.prems"(3) by auto
  have own: "dc_port d = port" if "d \<in> set new" for d
    using c1(4) that by (auto simp: port_decisions_def)
  have "port_outcome (cy_tick c) (concat (new # parts)) port r r1"
    by (rule port_outcome_cong [THEN iffD1, OF _ out]) (use other in auto)
  moreover have "list_all2 (served (cy_tick c) (concat (new # parts))) rest rs'"
    using rest(5)
  proof (rule list.rel_mono_strong)
    fix p r'
    assume "p \<in> set rest" and served: "served (cy_tick c) (concat parts) p r'"
    then have "fst p \<noteq> port" using "3.prems"(3) by force
    then show "served (cy_tick c) (concat (new # parts)) p r'"
      by (intro served_cong [THEN iffD1, OF _ served]) (use own in auto)
  qed
  ultimately show ?case using rest(1-4) c1
    by (intro conjI exI [of _ "new # parts"]) (simp_all add: rs)
qed

section \<open>A lone request completes\<close>

text \<open>The number of cycles a block still needs before the cycle of the given tick, at most.\<close>

fun block_cost :: "nat \<Rightarrow> bool \<Rightarrow> ub_block_progress \<Rightarrow> nat" where
  "block_cost tick partial_write Waiting = (if partial_write then 8 else 1)"
| "block_cost tick _ (ReadModifyWriteDelay first_grant) = (unat first_grant + 7 - tick) + 1"
| "block_cost tick _ (AwaitingWriteGrant _) = 1"
| "block_cost tick _ (Complete _ _) = 0"

definition request_cost :: "nat \<Rightarrow> ub_request \<Rightarrow> nat" where
  "request_cost tick r = (\<Sum>i<length (rq_blocks r). block_cost tick (rq_partial_writes r ! i) (rq_progress r ! i))"

text \<open>Every grant lies in the past of the tick; a delay runs for at most its six ticks.\<close>

definition progress_before :: "u64 \<Rightarrow> ub_block_progress \<Rightarrow> bool" where
  "progress_before tick p = (case p of
       Waiting \<Rightarrow> True
     | ReadModifyWriteDelay first_grant \<Rightarrow> first_grant < tick \<and> unat tick \<le> unat first_grant + 6
     | AwaitingWriteGrant first_grant \<Rightarrow> first_grant < tick
     | Complete first_grant final_grant \<Rightarrow> first_grant < tick \<and> final_grant < tick)"

lemma block_cost_step:
  assumes "checked_add tick 1 = Some tick'" and "progress_before tick p"
  shows "progress_before tick' (finish_progress tick (if g then grant_progress tick w p else p))"
    and "block_cost (unat tick') w (finish_progress tick (if g then grant_progress tick w p else p)) \<le>
      block_cost (unat tick) w p"
    and "progress_tick p = None \<Longrightarrow> g \<or> pending_grant p = None \<Longrightarrow>
      block_cost (unat tick') w (finish_progress tick (if g then grant_progress tick w p else p)) <
      block_cost (unat tick) w p"
proof -
  have tick': "unat tick' = unat tick + 1" using checked_add_unat [OF assms(1)] by simp
  have sub: "unat (saturating_sub a b) = unat a - unat b" for a b
    by (auto simp: saturating_sub_def unat_sub word_le_nat_alt)
  show "progress_before tick' (finish_progress tick (if g then grant_progress tick w p else p))"
    "block_cost (unat tick') w (finish_progress tick (if g then grant_progress tick w p else p)) \<le>
      block_cost (unat tick) w p"
    "progress_tick p = None \<Longrightarrow> g \<or> pending_grant p = None \<Longrightarrow>
      block_cost (unat tick') w (finish_progress tick (if g then grant_progress tick w p else p)) <
      block_cost (unat tick) w p"
    using assms(2)
    by (cases p; cases g; cases w;
        auto simp: progress_before_def word_less_nat_alt word_le_nat_alt tick' sub partial_write_ticks_def)+
qed

definition started :: "u64 \<Rightarrow> ub_request \<Rightarrow> bool" where
  "started tick r \<longleftrightarrow> request_ok r \<and> (\<forall>i<length (rq_blocks r). progress_before tick (rq_progress r ! i))"

lemma block_cost_bound: "progress_before tick p \<Longrightarrow> block_cost (unat tick) w p \<le> 8"
  by (cases p) (auto simp: progress_before_def word_less_nat_alt)

lemma request_cost_bound: "started tick r \<Longrightarrow> request_cost (unat tick) r \<le> 8 * length (rq_blocks r)"
  unfolding request_cost_def started_def
  using sum_bounded_above [of "{..<length (rq_blocks r)}" _ "8 :: nat"] by (auto simp: block_cost_bound mult.commute)

lemma request_complete_iff:
  "request_ok r \<Longrightarrow> request_complete r \<longleftrightarrow> (\<forall>i<length (rq_blocks r). progress_tick (rq_progress r ! i) \<noteq> None)"
  by (simp add: request_complete_def request_ok_def list_all_length)

lemma request_cost_pos:
  assumes "request_ok r" and "\<not> request_complete r"
  shows "0 < request_cost tick r"
proof -
  obtain i where i: "i < length (rq_blocks r)" "progress_tick (rq_progress r ! i) = None"
    using assms request_complete_iff by auto
  then have "0 < block_cost tick (rq_partial_writes r ! i) (rq_progress r ! i)"
    by (cases "rq_progress r ! i") simp_all
  also have "\<dots> \<le> request_cost tick r" unfolding request_cost_def by (rule member_le_sum) (use i in simp_all)
  finally show ?thesis .
qed

lemma arbitrate_alone_spec:
  assumes "request_ok r"
  obtains ds where "greedy ds" "port_decisions VectorWrite r ds"
    "port_outcome tick ds VectorWrite r (arbitrate_alone tick r)"
proof -
  obtain c rs where arb: "arbitrate_ports [(VectorWrite, Some r), (VectorRead0, None), (VectorRead1, None),
      (VectorReadDestination, None)] (empty_cycle tick) = (c, rs)" by fastforce
  from arbitrate_ports_spec [OF arb cycle_ok_empty] assms obtain parts where
    parts: "greedy (cy_decisions c)" "cy_decisions c = concat parts"
      "list_all2 decided_by [(VectorWrite, Some r), (VectorRead0, None), (VectorRead1, None),
        (VectorReadDestination, None)] parts"
      "list_all2 (served tick (concat parts)) [(VectorWrite, Some r), (VectorRead0, None), (VectorRead1, None),
        (VectorReadDestination, None)] rs"
    by (auto simp: empty_cycle_def cycle_ok_def)
  then have "port_decisions VectorWrite r (concat parts)"
    "port_outcome tick (concat parts) VectorWrite r (arbitrate_alone tick r)"
    using arb by (auto simp: list_all2_Cons1 arbitrate_alone_def arbitrate_def arbitrate_with_destination_def)
  with that parts(1,2) show thesis by metis
qed

lemma arbitrate_alone_step:
  assumes "started tick r" and "\<not> request_complete r" and "checked_add tick 1 = Some tick'"
  shows "started tick' (arbitrate_alone tick r) \<and> rq_blocks (arbitrate_alone tick r) = rq_blocks r \<and>
    request_cost (unat tick') (arbitrate_alone tick r) < request_cost (unat tick) r"
proof -
  have ok: "request_ok r" using assms(1) by (simp add: started_def)
  obtain ds where ds: "greedy ds" "port_decisions VectorWrite r ds"
    and out: "port_outcome tick ds VectorWrite r (arbitrate_alone tick r)" by (rule arbitrate_alone_spec [OF ok])
  define g where "g i = (\<exists>d\<in>set ds. dc_port d = VectorWrite \<and> dc_index d = i \<and> dc_granted d)" for i
  let ?r = "arbitrate_alone tick r" and ?n = "length (rq_blocks r)"
  have r': "request_ok ?r" "rq_blocks ?r = rq_blocks r" "rq_partial_writes ?r = rq_partial_writes r"
    and progress: "\<And>i. i < ?n \<Longrightarrow> rq_progress ?r ! i = finish_progress tick
      (if g i then grant_progress tick (rq_partial_writes r ! i) (rq_progress r ! i) else rq_progress r ! i)"
    using out by (simp_all add: port_outcome_def granted_progress_def g_def)
  have before: "\<And>i. i < ?n \<Longrightarrow> progress_before tick (rq_progress r ! i)" using assms(1) by (simp add: started_def)
  note step = block_cost_step [OF assms(3) before]
  have "\<exists>i<?n. progress_tick (rq_progress r ! i) = None \<and> (g i \<or> pending_grant (rq_progress r ! i) = None)"
  proof (cases "pending_indices r")
    case Nil
    then have "\<And>i. i < ?n \<Longrightarrow> pending_grant (rq_progress r ! i) = None"
      by (auto simp: pending_indices_def filter_empty_conv)
    moreover obtain i where "i < ?n" "progress_tick (rq_progress r ! i) = None"
      using assms(2) request_complete_iff [OF ok] by auto
    ultimately show ?thesis by blast
  next
    case (Cons i more)
    then obtain d ds' where d: "ds = d # ds'" "dc_index d = i" "dc_port d = VectorWrite"
      using ds(2) by (cases ds) (auto simp: port_decisions_def)
    have "dc_granted (ds ! 0)" using ds(1) d(1) by (force simp: greedy_def)
    then have "g i" using d by (auto simp: g_def)
    moreover have "i \<in> set (pending_indices r)" using Cons by simp
    then have "i < ?n" "progress_tick (rq_progress r ! i) = None"
      by (auto simp: pending_indices_def elim: pending_grant.elims)
    ultimately show ?thesis by blast
  qed
  then obtain j where j: "j < ?n" "progress_tick (rq_progress r ! j) = None"
    "g j \<or> pending_grant (rq_progress r ! j) = None" by blast
  have "request_cost (unat tick') ?r < request_cost (unat tick) r"
    unfolding request_cost_def r'(2,3)
  proof (rule sum_strict_mono_ex1)
    show "\<forall>i\<in>{..<?n}. block_cost (unat tick') (rq_partial_writes r ! i) (rq_progress ?r ! i) \<le>
        block_cost (unat tick) (rq_partial_writes r ! i) (rq_progress r ! i)"
      by (simp add: progress step(2))
    have "block_cost (unat tick') (rq_partial_writes r ! j) (rq_progress ?r ! j) <
        block_cost (unat tick) (rq_partial_writes r ! j) (rq_progress r ! j)"
      unfolding progress [OF j(1)] by (rule step(3) [OF j])
    with j(1) show "\<exists>i\<in>{..<?n}. block_cost (unat tick') (rq_partial_writes r ! i) (rq_progress ?r ! i) <
        block_cost (unat tick) (rq_partial_writes r ! i) (rq_progress r ! i)" by blast
  qed simp
  moreover have "started tick' ?r" using r' by (simp add: started_def progress step(1))
  ultimately show ?thesis using r'(2) by simp
qed

lemma completion_tick_before:
  assumes "started tick r" and "request_complete r" and "rq_blocks r \<noteq> []"
  shows "\<exists>t. request_completion_tick r = Some t \<and> t < tick"
proof -
  define ts where "ts = List.map_filter (\<lambda>g. g) (rq_grants r)"
  have len: "length (rq_progress r) = length (rq_blocks r)" "rq_grants r = map progress_tick (rq_progress r)"
    using assms(1) by (simp_all add: started_def request_ok_def)
  then have "rq_grants r \<noteq> []" using assms(3) by auto
  then have "hd (rq_grants r) \<in> set (rq_grants r)" by simp
  moreover have "\<And>g. g \<in> set (rq_grants r) \<Longrightarrow> g \<noteq> None" using assms(2) by (simp add: request_complete_def list_all_iff)
  ultimately have "ts \<noteq> []" unfolding ts_def by (auto simp: List.map_filter_def filter_empty_conv)
  then obtain t us where ts: "ts = t # us" by (cases ts) auto
  have "u < tick" if "u \<in> set ts" for u
  proof -
    from that have "Some u \<in> set (rq_grants r)" by (auto simp: ts_def List.map_filter_def)
    then obtain i where "i < length (rq_blocks r)" "progress_tick (rq_progress r ! i) = Some u"
      using len by (auto simp: in_set_conv_nth)
    then show "u < tick" using assms(1) by (auto simp: started_def progress_before_def elim!: progress_tick.elims)
  qed
  moreover have "fold max us t \<in> set (t # us)"
    by (induction us arbitrary: t) (auto simp: max_def)
  ultimately have "fold max us t < tick" using ts by blast
  then show ?thesis using ts by (simp add: request_completion_tick_def ts_def)
qed

lemma projected_completion:
  assumes "started tick r" and "rq_blocks r \<noteq> []" and "unat tick + request_cost (unat tick) r < 2 ^ 64"
  shows "\<exists>t. projected_write_completion r tick = Some t \<and> unat t < unat tick + request_cost (unat tick) r + 1"
  using assms
proof (induction r tick rule: projected_write_completion.induct)
  case (1 r tick)
  show ?case
  proof (cases "request_complete r")
    case True
    then show ?thesis using completion_tick_before [OF "1.prems"(1) True "1.prems"(2)]
      by (auto simp: projected_write_completion.simps [of r tick] word_less_nat_alt)
  next
    case False
    have "0 < request_cost (unat tick) r" using "1.prems"(1) False by (simp add: request_cost_pos started_def)
    then have "unat tick + unat (1 :: u64) < 2 ^ LENGTH(64)" using "1.prems"(3) by simp
    then obtain tick' where tick': "checked_add tick 1 = Some tick'" by (simp add: checked_add_def)
    note step = arbitrate_alone_step [OF "1.prems"(1) False tick']
    have next_tick: "unat tick' = unat tick + 1" using checked_add_unat [OF tick'] by simp
    show ?thesis
    proof (cases "request_complete (arbitrate_alone tick r)")
      case True
      then show ?thesis
        using completion_tick_before [of tick' "arbitrate_alone tick r"] step "1.prems"(2) False next_tick
        by (auto simp: projected_write_completion.simps [of r tick] word_less_nat_alt)
    next
      case incomplete: False
      have "\<exists>t. projected_write_completion (arbitrate_alone tick r) tick' = Some t \<and>
          unat t < unat tick' + request_cost (unat tick') (arbitrate_alone tick r) + 1"
        using step "1.prems"(2,3) next_tick by (intro "1.IH" [OF False refl incomplete tick']) auto
      then show ?thesis using False incomplete tick' step next_tick
        by (auto simp: projected_write_completion.simps [of r tick])
    qed
  qed
qed

section \<open>Properties\<close>

text \<open>C28. A request covers its accesses: \<open>build\<close> fails exactly with an access whose end overflows; otherwise
  the blocks of the request are, access by access, consecutive ranges that tile the bytes of the access, each
  inside one 32-byte line and with the bank of its address. A block counts as a partial write exactly when it
  is written and its mask is not full or it is not a whole line; no block has been granted.\<close>

theorem request_covers_accesses:
  "case build_request accesses of
     Ok r \<Rightarrow> request_ok r \<and>
       (\<exists>parts. list_all2 splits accesses parts \<and> rq_blocks r = map fst (concat parts) \<and>
          rq_partial_writes r = map snd (concat parts)) \<and>
       rq_progress r = replicate (length (rq_blocks r)) Waiting
   | Err e \<Rightarrow> \<exists>address bytes flags. (address, bytes, flags) \<in> set accesses \<and>
       e = AddressOverflow address bytes \<and> 2 ^ 64 \<le> unat address + unat (word_of_nat bytes :: u64)"
proof (cases "build_blocks accesses")
  case (Inl e)
  then show ?thesis using build_blocks_spec [of accesses] by (simp add: build_request_def)
next
  case (Inr blocks)
  then obtain parts where "list_all2 splits accesses parts" "blocks = concat parts"
    using build_blocks_spec [of accesses] by auto
  then show ?thesis using Inr build_request_ok [of accesses] by (auto simp: build_request_def)
qed

text \<open>C29. The arbiter is greedy and conflict-free. In one cycle it decides, port by port in priority order,
  on exactly the blocks that wait for a grant; it grants a block unless a block granted before it uses the same
  bank, or the same bank group in the same direction. So no two grants of a cycle conflict, and the masks name
  exactly the banks and groups granted. Each request changes only in the blocks granted to its port, and by the
  expiry of its delays.\<close>

theorem arbitration_greedy:
  assumes "arbitrate_with_destination tick w r0 r1 rd = (c, rs)"
    and "\<And>r. Some r \<in> {w, r0, r1, rd} \<Longrightarrow> request_ok r"
  shows "greedy (cy_decisions c) \<and>
    (\<forall>i<length (cy_decisions c). \<forall>j<i. dc_granted (cy_decisions c ! i) \<and> dc_granted (cy_decisions c ! j) \<longrightarrow>
       \<not> conflicts (cy_decisions c ! j) (cy_decisions c ! i)) \<and>
    (\<forall>k. bit (cy_bank_mask c) k \<longleftrightarrow> (\<exists>d\<in>set (cy_decisions c). dc_granted d \<and> decision_bank d = k)) \<and>
    (\<forall>k. bit (cy_write_group_mask c) k \<longleftrightarrow>
       (\<exists>d\<in>set (cy_decisions c). dc_granted d \<and> dc_port d = VectorWrite \<and> decision_group d = k)) \<and>
    (\<forall>k. bit (cy_read_group_mask c) k \<longleftrightarrow>
       (\<exists>d\<in>set (cy_decisions c). dc_granted d \<and> dc_port d \<noteq> VectorWrite \<and> decision_group d = k)) \<and>
    (\<exists>parts. cy_decisions c = concat parts \<and>
       list_all2 decided_by [(VectorWrite, w), (VectorRead0, r0), (VectorRead1, r1), (VectorReadDestination, rd)] parts) \<and>
    list_all2 (served tick (cy_decisions c))
      [(VectorWrite, w), (VectorRead0, r0), (VectorRead1, r1), (VectorReadDestination, rd)] rs"
proof -
  from assms(1) have arb: "arbitrate_ports [(VectorWrite, w), (VectorRead0, r0), (VectorRead1, r1),
      (VectorReadDestination, rd)] (empty_cycle tick) = (c, rs)" by (simp add: arbitrate_with_destination_def)
  have spec: "cycle_ok c \<and> cy_tick c = cy_tick (empty_cycle tick) \<and>
    (\<exists>parts. cy_decisions c = cy_decisions (empty_cycle tick) @ concat parts \<and>
       list_all2 decided_by [(VectorWrite, w), (VectorRead0, r0), (VectorRead1, r1), (VectorReadDestination, rd)] parts \<and>
       list_all2 (served (cy_tick (empty_cycle tick)) (concat parts))
         [(VectorWrite, w), (VectorRead0, r0), (VectorRead1, r1), (VectorReadDestination, rd)] rs)"
    by (rule arbitrate_ports_spec [OF arb cycle_ok_empty]) (use assms(2) in auto)
  then have "cycle_ok c" by simp
  moreover have "\<forall>i<length (cy_decisions c). \<forall>j<i. dc_granted (cy_decisions c ! i) \<and> dc_granted (cy_decisions c ! j) \<longrightarrow>
      \<not> conflicts (cy_decisions c ! j) (cy_decisions c ! i)"
    using \<open>cycle_ok c\<close> by (auto simp: cycle_ok_def greedy_def)
  ultimately show ?thesis using spec by (auto simp: cycle_ok_def empty_cycle_def)
qed

text \<open>C30. A lone write completes. The projection of a request whose grants lie in the past terminates with a
  completion tick before eight cycles per block have passed (unless the clock ends first): in every cycle the
  first waiting block is granted or a delay runs on.\<close>

theorem lone_write_completes:
  assumes "request_ok r" and "\<forall>i<length (rq_blocks r). progress_before tick (rq_progress r ! i)"
    and "rq_blocks r \<noteq> []" and "unat tick + 8 * length (rq_blocks r) < 2 ^ 64"
  shows "\<exists>t. projected_write_completion r tick = Some t \<and> unat t \<le> unat tick + 8 * length (rq_blocks r)"
proof -
  have "started tick r" using assms(1,2) by (simp add: started_def)
  then show ?thesis
    using projected_completion [OF _ assms(3), of tick] request_cost_bound [of tick r] assms(4) by fastforce
qed

definition unaligned_write :: ub_request where
  "unaligned_write = \<lparr>rq_blocks = [\<lparr>block_address = 31, block_bytes = 1, block_bank = \<lparr>bank_group = 0, bank_id = 0\<rparr>\<rparr>,
       \<lparr>block_address = 32, block_bytes = 31, block_bank = \<lparr>bank_group = 1, bank_id = 1\<rparr>\<rparr>],
     rq_grants = [None, None], rq_progress = [Waiting, Waiting], rq_partial_writes = [True, True]\<rparr>"

lemma unaligned_write_eq: "from_writes [(31, 32, True)] = Ok unaligned_write"
  by code_simp

lemma unaligned_write_ok: "request_ok unaligned_write"
  using build_request_ok unaligned_write_eq by (simp add: from_writes_def)

theorem lone_write_completes_witness:
  "\<exists>t. projected_write_completion unaligned_write 0 = Some t \<and> unat t \<le> 16"
proof -
  have len: "length (rq_blocks unaligned_write) = 2" by (simp add: unaligned_write_def)
  have "\<forall>i<length (rq_blocks unaligned_write). progress_before 0 (rq_progress unaligned_write ! i)"
    unfolding len by (auto simp: less_2_cases_iff unaligned_write_def progress_before_def)
  moreover have "rq_blocks unaligned_write \<noteq> []" by (simp add: unaligned_write_def)
  ultimately show ?thesis using lone_write_completes [OF unaligned_write_ok, of 0] by (simp add: len)
qed

theorem arbitration_greedy_witness:
  "\<exists>c rs. arbitrate_with_destination 10 (Some unaligned_write) (Some unaligned_write) None None = (c, rs) \<and>
     greedy (cy_decisions c) \<and> map dc_granted (cy_decisions c) = [True, True, False, False]"
proof -
  obtain c rs where arb: "arbitrate_with_destination 10 (Some unaligned_write) (Some unaligned_write) None None = (c, rs)"
    by fastforce
  have "map dc_granted (cy_decisions (fst (arbitrate_with_destination 10 (Some unaligned_write)
      (Some unaligned_write) None None))) = [True, True, False, False]" by code_simp
  with arbitration_greedy [OF arb] unaligned_write_ok arb show ?thesis by auto
qed

end
