(* ===== verification/Ub_Service.thy ===== *)
theory Ub_Service
  imports Ub_Arbiter
begin

text \<open>
  \<open>src/src/sim/c220/memory/ub_service.rs\<close>: the scalar and MTE ports of the unified buffer, served after the
  vector ports. A request waits in the input queue of its port, its blocks are granted banks cycle by cycle, its
  response waits for its latency, is sent, and is taken by the owner of the port. The arrays that the source
  indexes with \<open>port as usize\<close> are functions of the port.
\<close>

section \<open>State\<close>

datatype service_port = ScalarWrite | ScalarRead | MteWrite0 | MteWrite1 | MteRead

definition service_ports :: "service_port list" where
  "service_ports = [ScalarWrite, ScalarRead, MteWrite0, MteWrite1, MteRead]"

fun response_ticks :: "service_port \<Rightarrow> u64" where
  "response_ticks ScalarWrite = 0"
| "response_ticks ScalarRead = 3"
| "response_ticks MteWrite0 = 3"
| "response_ticks MteWrite1 = 3"
| "response_ticks MteRead = 5"

definition is_write_port :: "service_port \<Rightarrow> bool" where
  "is_write_port port \<longleftrightarrow> port = ScalarWrite \<or> port = MteWrite0 \<or> port = MteWrite1"

record vector_activity =
  va_bank_mask :: u64
  va_triggered :: bool
  va_write_pending :: bool
  va_read_pending :: bool

record service_request =
  sr_id :: u64
  sr_address :: u64
  sr_bytes :: u32

record service_block =
  sb_block :: ub_block
  sb_partial_write :: bool
  sb_progress :: ub_block_progress

record service_entry =
  se_request :: service_request
  se_received_tick :: u64
  se_ready_tick :: u64
  se_blocks :: "service_block list"

record service_response =
  sp_request :: service_request
  sp_completion_tick :: u64
  sp_ready_tick :: u64

record service_decision =
  sd_port :: service_port
  sd_request_id :: u64
  sd_block_index :: usize
  sd_bank :: u8
  sd_granted :: bool
  sd_second_grant :: bool

record service_cycle =
  sc_tick :: u64
  sc_higher_priority_banks :: u64
  sc_bank_mask :: u64
  sc_scalar_write_blocked :: bool
  sc_scalar_read_blocked :: bool
  sc_decisions :: "service_decision list"
  sc_completed :: "(service_port \<times> service_response) list"

datatype service_phase = Arbitrate | Send

datatype service_error =
    ServiceAccess ub_request_error
  | ServiceTimeReversed u64 u64
  | RepeatedCallback service_phase u64
  | ServiceTimeOverflow
  | DuplicateRequest u64

record ub_service =
  us_scalar_uses_vector_ports :: bool
  us_inputs :: "service_port \<Rightarrow> service_entry list"
  us_responses :: "service_port \<Rightarrow> service_response list"
  us_transport :: "service_port \<Rightarrow> service_response list"
  us_observed_tick :: "u64 option"
  us_arbitration_tick :: "u64 option"
  us_send_tick :: "u64 option"
  us_receive_ticks :: "service_port \<Rightarrow> u64 option"
  us_response_ticks :: "service_port \<Rightarrow> u64 option"

definition service_new :: "bool \<Rightarrow> ub_service" where
  "service_new shared =
     \<lparr>us_scalar_uses_vector_ports = shared, us_inputs = (\<lambda>_. []), us_responses = (\<lambda>_. []), us_transport = (\<lambda>_. []),
      us_observed_tick = None, us_arbitration_tick = None, us_send_tick = None,
      us_receive_ticks = (\<lambda>_. None), us_response_ticks = (\<lambda>_. None)\<rparr>"

definition service_is_idle :: "ub_service \<Rightarrow> bool" where
  "service_is_idle s \<longleftrightarrow>
     list_all (\<lambda>p. us_inputs s p = [] \<and> us_responses s p = [] \<and> us_transport s p = []) service_ports"

section \<open>Operations\<close>

definition can_receive :: "ub_service \<Rightarrow> u64 \<Rightarrow> service_port \<Rightarrow> bool" where
  "can_receive s tick port \<longleftrightarrow> us_receive_ticks s port \<noteq> Some tick \<and> length (us_inputs s port) < 2"

definition check_time :: "ub_service \<Rightarrow> u64 \<Rightarrow> service_error + unit" where
  "check_time s tick = (case us_observed_tick s of
       Some previous \<Rightarrow> if tick < previous then Err (ServiceTimeReversed previous tick) else Ok ()
     | None \<Rightarrow> Ok ())"

definition check_callback :: "ub_service \<Rightarrow> u64 \<Rightarrow> u64 option \<Rightarrow> service_phase \<Rightarrow> service_error + unit" where
  "check_callback s tick previous phase =
     and_then (check_time s tick) (\<lambda>_. if previous = Some tick then Err (RepeatedCallback phase tick) else Ok ())"

definition pending_id :: "ub_service \<Rightarrow> service_port \<Rightarrow> u64 \<Rightarrow> bool" where
  "pending_id s port i \<longleftrightarrow> list_ex (\<lambda>e. sr_id (se_request e) = i) (us_inputs s port) \<or>
     list_ex (\<lambda>r. sr_id (sp_request r) = i) (us_responses s port @ us_transport s port)"

definition access_blocks :: "service_port \<Rightarrow> service_request \<Rightarrow> service_error + service_block list" where
  "access_blocks port request =
     and_then (if sr_address request = - 1 then Ok []
               else map_err ServiceAccess (and_then (from_accesses [(sr_address request, unat (sr_bytes request))])
                 (\<lambda>r. Ok (rq_blocks r)))) (\<lambda>blocks.
       Ok (map (\<lambda>block. \<lparr>sb_block = block,
                  sb_partial_write = is_write_port port \<and> (block_bytes block \<noteq> 32 \<or> block_address block mod 32 \<noteq> 0),
                  sb_progress = Waiting\<rparr>) blocks))"

definition service_receive ::
  "ub_service \<Rightarrow> u64 \<Rightarrow> service_port \<Rightarrow> service_request \<Rightarrow> service_error + ub_service \<times> bool" where
  "service_receive s tick port request =
     and_then (check_time s tick) (\<lambda>_.
      if pending_id s port (sr_id request) then Err (DuplicateRequest (sr_id request))
      else if \<not> can_receive s tick port then Ok (s, False) else
     and_then (ok_or (checked_add tick 1) ServiceTimeOverflow) (\<lambda>ready_tick.
     and_then (access_blocks port request) (\<lambda>blocks.
       Ok (s\<lparr>us_inputs := (us_inputs s)(port := us_inputs s port @
               [\<lparr>se_request = request, se_received_tick = tick, se_ready_tick = ready_tick, se_blocks = blocks\<rparr>]),
             us_receive_ticks := (us_receive_ticks s)(port := Some tick),
             us_observed_tick := Some tick\<rparr>, True))))"

definition bank_bit :: "u8 \<Rightarrow> u64" where
  "bank_bit bank = push_bit (unat bank) 1"

text \<open>The blocks of one entry in order, from the given index on.\<close>

fun service_blocks ::
  "u64 \<Rightarrow> service_port \<Rightarrow> u64 \<Rightarrow> nat \<Rightarrow> service_block list \<Rightarrow> u64
     \<Rightarrow> service_block list \<times> u64 \<times> service_decision list" where
  "service_blocks tick port i index [] banks = ([], banks, [])"
| "service_blocks tick port i index (b # bs) banks =
     (case pending_grant (sb_progress b) of
        None \<Rightarrow> (case service_blocks tick port i (index + 1) bs banks of (bs', banks', ds) \<Rightarrow> (b # bs', banks', ds))
      | Some second_grant \<Rightarrow>
          let bank = bank_id (block_bank (sb_block b));
              granted = (banks AND bank_bit bank = 0);
              d = \<lparr>sd_port = port, sd_request_id = i, sd_block_index = index, sd_bank = bank,
                   sd_granted = granted, sd_second_grant = second_grant\<rparr>;
              b' = (if granted then b\<lparr>sb_progress := grant_progress tick (sb_partial_write b) (sb_progress b)\<rparr> else b)
          in (case service_blocks tick port i (index + 1) bs (if granted then banks OR bank_bit bank else banks) of
                (bs', banks', ds) \<Rightarrow> (b' # bs', banks', d # ds)))"

definition port_blocked :: "service_cycle \<Rightarrow> service_port \<Rightarrow> bool" where
  "port_blocked c port \<longleftrightarrow> port = ScalarWrite \<and> sc_scalar_write_blocked c \<or> port = ScalarRead \<and> sc_scalar_read_blocked c"

definition grant_port ::
  "service_port \<Rightarrow> ub_service \<times> service_cycle \<Rightarrow> ub_service \<times> service_cycle" where
  "grant_port port = (\<lambda>(s, c).
     case us_inputs s port of
       [] \<Rightarrow> (s, c)
     | entry # rest \<Rightarrow>
         if port_blocked c port then (s, c)
         else case service_blocks (sc_tick c) port (sr_id (se_request entry)) 0 (se_blocks entry) (sc_bank_mask c) of
           (blocks, banks, decisions) \<Rightarrow>
             (s\<lparr>us_inputs := (us_inputs s)(port := entry\<lparr>se_blocks := blocks\<rparr> # rest)\<rparr>,
              c\<lparr>sc_bank_mask := banks, sc_decisions := sc_decisions c @ decisions\<rparr>))"

definition finish_block :: "u64 \<Rightarrow> service_block \<Rightarrow> service_block" where
  "finish_block tick b = b\<lparr>sb_progress := finish_progress tick (sb_progress b)\<rparr>"

definition block_complete :: "service_block \<Rightarrow> bool" where
  "block_complete b = (case sb_progress b of Complete _ _ \<Rightarrow> True | _ \<Rightarrow> False)"

definition complete_port ::
  "service_port \<Rightarrow> ub_service \<times> service_cycle \<Rightarrow> ub_service \<times> service_cycle" where
  "complete_port port = (\<lambda>(s, c).
     case us_inputs s port of
       [] \<Rightarrow> (s, c)
     | entry # rest \<Rightarrow>
         let blocks = map (finish_block (sc_tick c)) (se_blocks entry)
         in if list_all block_complete blocks
            then let response = \<lparr>sp_request = se_request entry, sp_completion_tick = sc_tick c,
                                 sp_ready_tick = sc_tick c + response_ticks port\<rparr>
              in (s\<lparr>us_inputs := (us_inputs s)(port := rest),
                    us_responses := (us_responses s)(port := us_responses s port @ [response])\<rparr>,
                  c\<lparr>sc_completed := sc_completed c @ [(port, response)]\<rparr>)
            else (s\<lparr>us_inputs := (us_inputs s)(port := entry\<lparr>se_blocks := blocks\<rparr> # rest)\<rparr>, c))"

text \<open>The ticks that the cycle is going to compute are checked beforehand.\<close>

definition port_ticks_fit :: "ub_service \<Rightarrow> u64 \<Rightarrow> service_port \<Rightarrow> bool" where
  "port_ticks_fit s tick port = (case us_inputs s port of
       [] \<Rightarrow> True
     | entry # _ \<Rightarrow> checked_add tick (response_ticks port) \<noteq> None \<and>
         (list_ex (\<lambda>b. sb_partial_write b \<and> sb_progress b = Waiting) (se_blocks entry) \<longrightarrow>
            checked_add tick partial_write_ticks \<noteq> None))"

definition service_triggered :: "ub_service \<Rightarrow> u64 \<Rightarrow> vector_activity \<Rightarrow> bool" where
  "service_triggered s tick vector \<longleftrightarrow> va_triggered vector \<or>
     list_ex (\<lambda>p. us_inputs s p \<noteq> [] \<and> se_ready_tick (hd (us_inputs s p)) \<le> tick) service_ports"

definition service_arbitrate ::
  "ub_service \<Rightarrow> u64 \<Rightarrow> vector_activity \<Rightarrow> service_error + ub_service \<times> service_cycle" where
  "service_arbitrate s tick vector =
     and_then (check_callback s tick (us_arbitration_tick s) Arbitrate) (\<lambda>_.
       let c = \<lparr>sc_tick = tick, sc_higher_priority_banks = va_bank_mask vector, sc_bank_mask = va_bank_mask vector,
                sc_scalar_write_blocked = us_scalar_uses_vector_ports s \<and> va_write_pending vector,
                sc_scalar_read_blocked = us_scalar_uses_vector_ports s \<and> va_read_pending vector,
                sc_decisions = [], sc_completed = []\<rparr>
       in and_then
            (if \<not> service_triggered s tick vector then Ok (s, c)
             else if \<not> list_all (port_ticks_fit s tick) service_ports then Err ServiceTimeOverflow
             else Ok (fold complete_port service_ports (fold grant_port service_ports (s, c))))
            (\<lambda>(s', c'). Ok (s'\<lparr>us_arbitration_tick := Some tick, us_observed_tick := Some tick\<rparr>, c')))"

text \<open>One response of every port, until a transport queue is full.\<close>

fun send_ports ::
  "service_port list \<Rightarrow> u64 \<Rightarrow> ub_service \<Rightarrow> ub_service \<times> (service_port \<times> service_response) list" where
  "send_ports [] ready_tick s = (s, [])"
| "send_ports (port # ports) ready_tick s =
     (case us_responses s port of
        [] \<Rightarrow> send_ports ports ready_tick s
      | head # rest \<Rightarrow>
          if length (us_transport s port) = 2 then (s, [])
          else let response = head\<lparr>sp_ready_tick := ready_tick\<rparr>
            in map_prod id (Cons (port, response)) (send_ports ports ready_tick
                 (s\<lparr>us_responses := (us_responses s)(port := rest),
                    us_transport := (us_transport s)(port := us_transport s port @ [response])\<rparr>)))"

definition send_responses ::
  "ub_service \<Rightarrow> u64 \<Rightarrow> service_error + ub_service \<times> (service_port \<times> service_response) list" where
  "send_responses s tick =
     and_then (check_callback s tick (us_send_tick s) Send) (\<lambda>_.
     and_then
       (if list_ex (\<lambda>p. us_responses s p \<noteq> [] \<and> sp_ready_tick (hd (us_responses s p)) \<le> tick) service_ports
        then and_then (ok_or (checked_add tick 1) ServiceTimeOverflow) (\<lambda>ready_tick. Ok (send_ports service_ports ready_tick s))
        else Ok (s, []))
       (\<lambda>(s', sent). Ok (s'\<lparr>us_send_tick := Some tick, us_observed_tick := Some tick\<rparr>, sent)))"

definition take_response ::
  "ub_service \<Rightarrow> u64 \<Rightarrow> service_port \<Rightarrow> service_error + ub_service \<times> service_response option" where
  "take_response s tick port =
     and_then (check_time s tick) (\<lambda>_.
      if us_response_ticks s port = Some tick then Ok (s, None)
      else case us_transport s port of
        head # rest \<Rightarrow>
          if sp_ready_tick head \<le> tick
          then Ok (s\<lparr>us_transport := (us_transport s)(port := rest),
                     us_response_ticks := (us_response_ticks s)(port := Some tick),
                     us_observed_tick := Some tick\<rparr>, Some head)
          else Ok (s\<lparr>us_observed_tick := Some tick\<rparr>, None)
      | [] \<Rightarrow> Ok (s\<lparr>us_observed_tick := Some tick\<rparr>, None))"

section \<open>Histories\<close>

text \<open>A run of the service with the requests that each port has accepted and those whose response has been
  taken, oldest first.\<close>

type_synonym history = "service_port \<Rightarrow> service_request list"

inductive service_run :: "ub_service \<Rightarrow> history \<Rightarrow> history \<Rightarrow> bool" where
  run_new: "service_run (service_new shared) (\<lambda>_. []) (\<lambda>_. [])"
| run_receive: "service_run s accepted taken \<Longrightarrow> service_receive s tick port request = Ok (s', ok) \<Longrightarrow>
    service_run s' (accepted(port := accepted port @ (if ok then [request] else []))) taken"
| run_arbitrate: "service_run s accepted taken \<Longrightarrow> service_arbitrate s tick vector = Ok (s', c) \<Longrightarrow>
    service_run s' accepted taken"
| run_send: "service_run s accepted taken \<Longrightarrow> send_responses s tick = Ok (s', sent) \<Longrightarrow>
    service_run s' accepted taken"
| run_take: "service_run s accepted taken \<Longrightarrow> take_response s tick port = Ok (s', response) \<Longrightarrow>
    service_run s' accepted (taken(port := taken port @ (case response of None \<Rightarrow> [] | Some r \<Rightarrow> [sp_request r])))"
| run_shared: "service_run s accepted taken \<Longrightarrow>
    service_run (s\<lparr>us_scalar_uses_vector_ports := shared\<rparr>) accepted taken"

text \<open>The requests on their way through a port, oldest first.\<close>

definition in_flight :: "ub_service \<Rightarrow> service_port \<Rightarrow> service_request list" where
  "in_flight s port = map sp_request (us_transport s port) @ map sp_request (us_responses s port) @
     map se_request (us_inputs s port)"

text \<open>The blocks of an entry tile the bytes of its request; the address \<open>u64::MAX\<close> stands for no access.\<close>

definition entry_ok :: "service_entry \<Rightarrow> bool" where
  "entry_ok e \<longleftrightarrow> list_all block_ok (map sb_block (se_blocks e)) \<and>
     concat (map block_range (map sb_block (se_blocks e))) =
       (if sr_address (se_request e) = - 1 then []
        else byte_range (sr_address (se_request e)) (unat (sr_bytes (se_request e))))"

definition service_ok :: "ub_service \<Rightarrow> bool" where
  "service_ok s \<longleftrightarrow> (\<forall>p. length (us_inputs s p) \<le> 2 \<and> length (us_transport s p) \<le> 2 \<and>
     distinct (map sr_id (in_flight s p)) \<and> list_all entry_ok (us_inputs s p))"

text \<open>What an internal step may do: move requests along, in order, within the bounds.\<close>

definition moves :: "ub_service \<Rightarrow> ub_service \<Rightarrow> bool" where
  "moves s s' \<longleftrightarrow> (\<forall>p. in_flight s' p = in_flight s p \<and> length (us_inputs s' p) \<le> length (us_inputs s p) \<and>
     (length (us_transport s p) \<le> 2 \<longrightarrow> length (us_transport s' p) \<le> 2) \<and>
     (list_all entry_ok (us_inputs s p) \<longrightarrow> list_all entry_ok (us_inputs s' p)))"

lemma moves_refl: "moves s s"
  by (simp add: moves_def)

lemma moves_trans: "moves s t \<Longrightarrow> moves t u \<Longrightarrow> moves s u"
  unfolding moves_def by (metis order_trans)

lemma moves_ok: "moves s s' \<Longrightarrow> service_ok s \<Longrightarrow> service_ok s'"
  unfolding moves_def service_ok_def by (metis order_trans)

lemma service_blocks_frame:
  "service_blocks tick port i index bs banks = (bs', banks', ds) \<Longrightarrow> map sb_block bs' = map sb_block bs"
  by (induction tick port i index bs banks arbitrary: bs' banks' ds rule: service_blocks.induct)
    (auto simp: Let_def split: option.splits prod.splits)

lemma entry_ok_blocks:
  "map sb_block bs = map sb_block (se_blocks e) \<Longrightarrow> entry_ok (e\<lparr>se_blocks := bs\<rparr>) \<longleftrightarrow> entry_ok e"
  by (simp add: entry_ok_def del: map_map)

lemma grant_port_moves: "moves s (fst (grant_port port (s, c)))"
  by (auto simp: grant_port_def moves_def in_flight_def entry_ok_blocks dest!: service_blocks_frame
      split: list.splits prod.splits)

lemma complete_port_moves: "moves s (fst (complete_port port (s, c)))"
proof -
  have blocks: "map sb_block (map (finish_block tick) bs) = map sb_block bs" for tick bs
    by (simp add: finish_block_def)
  show ?thesis
    by (auto simp: complete_port_def moves_def in_flight_def entry_ok_blocks [OF blocks] Let_def split: list.splits)
qed

lemma fold_moves: "(\<And>port s c. moves s (fst (f port (s, c)))) \<Longrightarrow> moves s (fst (fold f ports (s, c)))"
proof (induction ports arbitrary: s c)
  case (Cons port ports)
  obtain s1 c1 where "f port (s, c) = (s1, c1)" by fastforce
  with Cons.prems [of s port c] Cons.IH [OF Cons.prems, of s1 c1] show ?case by (auto intro: moves_trans)
qed (simp add: moves_refl)

lemma moves_ticks [simp]:
  "moves s (t\<lparr>us_arbitration_tick := a, us_observed_tick := b\<rparr>) \<longleftrightarrow> moves s t"
  "moves s (t\<lparr>us_send_tick := a, us_observed_tick := b\<rparr>) \<longleftrightarrow> moves s t"
  by (simp_all add: moves_def in_flight_def)

lemma cycle_moves:
  assumes "fold complete_port service_ports (fold grant_port service_ports (s, c0)) = (s', c)"
  shows "moves s s'"
proof -
  obtain s1 c1 where s1: "fold grant_port service_ports (s, c0) = (s1, c1)" by fastforce
  have "moves s (fst (fold grant_port service_ports (s, c0)))" by (rule fold_moves) (rule grant_port_moves)
  moreover have "moves s1 (fst (fold complete_port service_ports (s1, c1)))"
    by (rule fold_moves) (rule complete_port_moves)
  ultimately show ?thesis using s1 assms by (auto intro: moves_trans)
qed

lemma arbitrate_moves: "service_arbitrate s tick vector = Ok (s', c) \<Longrightarrow> moves s s'"
  by (auto simp: service_arbitrate_def Let_def and_then_Ok moves_refl dest!: cycle_moves split: if_splits)

lemma send_ports_moves: "moves s (fst (send_ports ports ready_tick s))"
proof (induction ports ready_tick s rule: send_ports.induct)
  case (2 port ports ready_tick s)
  show ?case
  proof (cases "us_responses s port")
    case (Cons head rest)
    let ?r = "head\<lparr>sp_ready_tick := ready_tick\<rparr>"
    let ?s = "s\<lparr>us_responses := (us_responses s)(port := rest),
      us_transport := (us_transport s)(port := us_transport s port @ [?r])\<rparr>"
    show ?thesis
    proof (cases "length (us_transport s port) = 2")
      case False
      then have "moves s ?s" using Cons by (auto simp: moves_def in_flight_def)
      then show ?thesis using "2.IH"(2) [OF Cons False refl] Cons False by (auto simp: Let_def intro: moves_trans)
    qed (simp add: Cons moves_refl)
  qed (use "2.IH"(1) in simp)
qed (simp add: moves_refl)

lemma send_moves: "send_responses s tick = Ok (s', sent) \<Longrightarrow> moves s s'"
  using send_ports_moves [of s service_ports]
  by (auto simp: send_responses_def and_then_Ok moves_refl split: if_splits) (metis fst_conv)

lemma access_blocks_ok:
  assumes "access_blocks port request = Ok blocks"
  shows "entry_ok \<lparr>se_request = request, se_received_tick = t, se_ready_tick = r, se_blocks = blocks\<rparr>"
proof (cases "sr_address request = - 1")
  case True
  with assms show ?thesis by (simp add: access_blocks_def entry_ok_def)
next
  case False
  then obtain access where access: "build_request [(sr_address request, unat (sr_bytes request), False, False)] = Ok access"
    and blocks: "map sb_block blocks = rq_blocks access"
    using assms by (auto simp: access_blocks_def and_then_Ok from_accesses_def comp_def)
  have len: "unat (word_of_nat (unat (sr_bytes request)) :: u64) = unat (sr_bytes request)"
    using unsigned_less [of "sr_bytes request", where ?'a = nat] by (simp add: unsigned_ucast_eq take_bit_nat_eq_self)
  obtain parts where parts: "list_all2 splits [(sr_address request, unat (sr_bytes request), False, False)] parts"
    "rq_blocks access = map fst (concat parts)"
    using access build_blocks_spec [of "[(sr_address request, unat (sr_bytes request), False, False)]"]
    by (auto simp: build_request_def and_then_Ok simp del: build_blocks.simps)
  then obtain part where part: "splits (sr_address request, unat (sr_bytes request), False, False) part"
    "rq_blocks access = map fst part" by (auto simp: list_all2_Cons1)
  then have "list_all block_ok (map fst part)"
    and "concat (map block_range (map fst part)) = byte_range (sr_address request) (unat (sr_bytes request))"
    using len by (auto simp: splits_def list_all_iff)
  then show ?thesis using False blocks part(2) by (simp add: entry_ok_def del: map_map)
qed

lemma take_response_cases:
  assumes "take_response s tick port = Ok (s', response)"
  obtains (none) "response = None" "us_inputs s' = us_inputs s" "us_responses s' = us_responses s"
      "us_transport s' = us_transport s"
  | (some) head rest where "response = Some head" "us_transport s port = head # rest"
      "us_inputs s' = us_inputs s" "us_responses s' = us_responses s"
      "us_transport s' = (us_transport s)(port := rest)"
proof (cases "us_response_ticks s port = Some tick \<or> us_transport s port = []")
  case True
  with assms show ?thesis by (intro none) (auto simp: take_response_def and_then_Ok split: if_splits)
next
  case False
  then obtain head rest where "us_transport s port = head # rest" by (cases "us_transport s port") auto
  with False assms show ?thesis
    by (cases "sp_ready_tick head \<le> tick") (auto simp: take_response_def and_then_Ok intro: none some)
qed

text \<open>The invariant of a run: nothing is lost, duplicated or reordered.\<close>

lemma service_run_invariant:
  assumes "service_run s accepted taken"
  shows "service_ok s \<and> (\<forall>p. accepted p = taken p @ in_flight s p)"
  using assms
proof induction
  case (run_new shared)
  then show ?case by (simp add: service_ok_def service_new_def in_flight_def)
next
  case (run_receive s accepted taken tick port request s' ok)
  show ?case
  proof (cases ok)
    case False
    then have "s' = s" using run_receive(2) by (auto simp: service_receive_def and_then_Ok split: if_splits)
    then show ?thesis using run_receive False by simp
  next
    case True
    then obtain ready blocks where free: "\<not> pending_id s port (sr_id request)" "can_receive s tick port"
      and blocks: "access_blocks port request = Ok blocks"
      and s': "s' = s\<lparr>us_inputs := (us_inputs s)(port := us_inputs s port @
               [\<lparr>se_request = request, se_received_tick = tick, se_ready_tick = ready, se_blocks = blocks\<rparr>]),
             us_receive_ticks := (us_receive_ticks s)(port := Some tick), us_observed_tick := Some tick\<rparr>"
      using run_receive(2) by (auto simp: service_receive_def and_then_Ok split: if_splits)
    have flight: "in_flight s' p = in_flight s p @ (if p = port then [request] else [])" for p
      by (simp add: s' in_flight_def)
    have "sr_id request \<notin> set (map sr_id (in_flight s port))"
      using free(1) by (auto simp: pending_id_def in_flight_def list_ex_iff)
    then have "service_ok s'" using run_receive.IH free(2) access_blocks_ok [OF blocks] flight
      by (auto simp: service_ok_def can_receive_def s')
    then show ?thesis using run_receive.IH True flight by simp
  qed
next
  case (run_arbitrate s accepted taken tick vector s' c)
  then show ?case using arbitrate_moves moves_ok by (simp add: moves_def) blast
next
  case (run_send s accepted taken tick s' sent)
  then show ?case using send_moves moves_ok by (simp add: moves_def) blast
next
  case (run_take s accepted taken tick port s' response)
  from run_take(2) show ?case
  proof (cases rule: take_response_cases)
    case none
    then show ?thesis using run_take.IH by (simp add: service_ok_def in_flight_def)
  next
    case (some head rest)
    then have flight: "in_flight s p = (if p = port then [sp_request head] else []) @ in_flight s' p" for p
      by (simp add: in_flight_def)
    have "distinct (map sr_id (in_flight s' p))" for p
    proof -
      have "distinct (map sr_id (in_flight s p))" using run_take.IH by (simp add: service_ok_def)
      then show ?thesis unfolding flight [of p] by (cases "p = port") simp_all
    qed
    moreover have "length (us_transport s' p) \<le> 2" for p
    proof -
      have "length (us_transport s q) \<le> 2" for q using run_take.IH by (simp add: service_ok_def)
      from this [of p] show ?thesis using some(2) by (cases "p = port") (simp_all add: some(5))
    qed
    ultimately have "service_ok s'" using run_take.IH some(3) by (simp add: service_ok_def)
    then show ?thesis using run_take.IH some(1) flight by simp
  qed
next
  case (run_shared s accepted taken shared)
  then show ?case by (simp add: service_ok_def in_flight_def)
qed

section \<open>Banks are exclusive within a cycle\<close>

definition granted_banks :: "service_decision list \<Rightarrow> nat list" where
  "granted_banks ds = map (unat \<circ> sd_bank) (filter sd_granted ds)"

lemma granted_banks_append: "granted_banks (ds @ es) = granted_banks ds @ granted_banks es"
  by (simp add: granted_banks_def)

text \<open>From one mask to the next: every granted bank was free, is granted once, and is then taken.\<close>

definition takes_banks :: "u64 \<Rightarrow> service_decision list \<Rightarrow> u64 \<Rightarrow> bool" where
  "takes_banks before ds after \<longleftrightarrow> distinct (granted_banks ds) \<and> (\<forall>k\<in>set (granted_banks ds). \<not> bit before k) \<and>
     (\<forall>k. bit after k \<longleftrightarrow> bit before k \<or> k \<in> set (granted_banks ds))"

lemma takes_banks_refl: "takes_banks m [] m"
  by (simp add: takes_banks_def granted_banks_def)

lemma takes_banks_append: "takes_banks a ds b \<Longrightarrow> takes_banks b es c \<Longrightarrow> takes_banks a (ds @ es) c"
  by (auto simp: takes_banks_def granted_banks_append)

lemma bank_bit_free: "unat b < 64 \<Longrightarrow> m AND bank_bit b = 0 \<longleftrightarrow> \<not> bit m (unat b)"
  by (simp add: bank_bit_def and_exp_eq_0_iff_not_bit)

lemma bit_bank_bit: "unat b < 64 \<Longrightarrow> bit (bank_bit b) k \<longleftrightarrow> k = unat b"
  by (auto simp: bank_bit_def bit_exp_iff)

lemma takes_banks_Cons:
  "takes_banks (if sd_granted d then m OR bank_bit (sd_bank d) else m) ds m' \<Longrightarrow>
     unat (sd_bank d) < 64 \<Longrightarrow> (sd_granted d \<longrightarrow> m AND bank_bit (sd_bank d) = 0) \<Longrightarrow> takes_banks m (d # ds) m'"
  by (auto simp: takes_banks_def granted_banks_def bit_or_iff bit_bank_bit bank_bit_free split: if_splits)

lemma service_blocks_banks:
  "service_blocks tick port i index bs m = (bs', m', ds) \<Longrightarrow> list_all block_ok (map sb_block bs) \<Longrightarrow> takes_banks m ds m'"
proof (induction tick port i index bs m arbitrary: bs' m' ds rule: service_blocks.induct)
  case (1 tick port i index m)
  then show ?case by (simp add: takes_banks_refl)
next
  case (2 tick port i index b bs m)
  show ?case
  proof (cases "pending_grant (sb_progress b)")
    case None
    with 2 show ?thesis by (auto split: prod.splits)
  next
    case (Some second)
    have bank: "unat (bank_id (block_bank (sb_block b))) < 64"
      using "2.prems"(2) bank_bounds(1) by (simp add: block_ok_def)
    define granted where "granted \<longleftrightarrow> m AND bank_bit (bank_id (block_bank (sb_block b))) = 0"
    define m1 where "m1 = (if granted then m OR bank_bit (bank_id (block_bank (sb_block b))) else m)"
    obtain bs1 ds1 where rest: "service_blocks tick port i (index + 1) bs m1 = (bs1, m', ds1)"
      and ds: "ds = \<lparr>sd_port = port, sd_request_id = i, sd_block_index = index,
        sd_bank = bank_id (block_bank (sb_block b)), sd_granted = granted, sd_second_grant = second\<rparr> # ds1"
      using "2.prems"(1) Some by (auto simp: Let_def granted_def m1_def split: prod.splits)
    have "list_all block_ok (map sb_block bs)" using "2.prems"(2) by simp
    then have "takes_banks m1 ds1 m'"
      using "2.IH"(2) [OF Some refl refl refl refl rest [unfolded m1_def granted_def]]
      unfolding m1_def granted_def by blast
    then have "takes_banks (if granted then m OR bank_bit (bank_id (block_bank (sb_block b))) else m) ds1 m'"
      by (simp only: m1_def)
    then show ?thesis unfolding ds by (intro takes_banks_Cons, simp_all only: bank service_decision.select_convs)
      (simp add: granted_def)
  qed
qed

lemma grant_port_banks:
  assumes "grant_port port (s, c) = (s', c')" and "\<And>p. list_all entry_ok (us_inputs s p)"
    and "takes_banks m (sc_decisions c) (sc_bank_mask c)"
  shows "takes_banks m (sc_decisions c') (sc_bank_mask c')"
proof (cases "us_inputs s port")
  case Nil
  with assms show ?thesis by (simp add: grant_port_def)
next
  case (Cons entry rest)
  then have "list_all block_ok (map sb_block (se_blocks entry))"
    using assms(2) [of port] by (simp add: entry_ok_def)
  with assms(1,3) Cons show ?thesis
    by (auto simp: grant_port_def intro: takes_banks_append [OF _ service_blocks_banks] split: if_splits prod.splits)
qed

lemma fold_grant_banks:
  assumes "fold grant_port ports (s, c) = (s', c')" and "\<And>p. list_all entry_ok (us_inputs s p)"
    and "takes_banks m (sc_decisions c) (sc_bank_mask c)"
  shows "takes_banks m (sc_decisions c') (sc_bank_mask c')"
  using assms
proof (induction ports arbitrary: s c)
  case (Cons port ports)
  obtain s1 c1 where step: "grant_port port (s, c) = (s1, c1)" by fastforce
  have "list_all entry_ok (us_inputs s1 p)" for p
    using grant_port_moves [of s port c] step Cons.prems(2) by (simp add: moves_def)
  then show ?case using Cons grant_port_banks [OF step Cons.prems(2,3)] step by simp
qed simp

lemma complete_port_keeps: "sc_decisions (snd (complete_port port x)) = sc_decisions (snd x)"
    "sc_bank_mask (snd (complete_port port x)) = sc_bank_mask (snd x)"
  by (cases x; auto simp: complete_port_def Let_def split: list.split)+

lemma fold_complete_keeps: "sc_decisions (snd (fold complete_port ports x)) = sc_decisions (snd x)"
    "sc_bank_mask (snd (fold complete_port ports x)) = sc_bank_mask (snd x)"
  by (induction ports arbitrary: x) (simp_all add: complete_port_keeps)

lemma arbitrate_banks:
  assumes "service_arbitrate s tick vector = Ok (s', c)" and "service_ok s"
  shows "takes_banks (va_bank_mask vector) (sc_decisions c) (sc_bank_mask c)"
proof -
  have entries: "\<And>p. list_all entry_ok (us_inputs s p)" using assms(2) by (simp add: service_ok_def)
  define c0 where "c0 = \<lparr>sc_tick = tick, sc_higher_priority_banks = va_bank_mask vector, sc_bank_mask = va_bank_mask vector,
      sc_scalar_write_blocked = us_scalar_uses_vector_ports s \<and> va_write_pending vector,
      sc_scalar_read_blocked = us_scalar_uses_vector_ports s \<and> va_read_pending vector,
      sc_decisions = [], sc_completed = []\<rparr>"
  have start: "takes_banks (va_bank_mask vector) (sc_decisions c0) (sc_bank_mask c0)"
    by (simp add: c0_def takes_banks_refl)
  obtain s1 c1 where grants: "fold grant_port service_ports (s, c0) = (s1, c1)" by fastforce
  have "c = c0 \<or> c = snd (fold complete_port service_ports (s1, c1))"
    using assms(1) grants
    by (auto simp: service_arbitrate_def and_then_Ok c0_def [symmetric] split: if_splits)
  then show ?thesis
    using start fold_grant_banks [OF grants entries start] fold_complete_keeps [of service_ports "(s1, c1)"] by auto
qed

section \<open>Property\<close>

text \<open>C31. The service is a first-in first-out channel per port that shares the banks. Along every run, whatever
  is called and when, the requests a port has accepted are, in order, those answered, those whose response is in
  transport, those whose response waits, and those in the input queue: none is lost, answered twice or
  overtaken. The input and transport queues hold at most two, the identifiers in flight are distinct, and the
  blocks of a queued request tile its bytes. In every cycle the granted blocks have pairwise distinct banks, none
  of them used by the vector ports, and the mask of the cycle is the union.\<close>

theorem service_fifo:
  assumes "service_run s accepted taken"
  shows "accepted p = taken p @ in_flight s p \<and> length (us_inputs s p) \<le> 2 \<and> length (us_transport s p) \<le> 2 \<and>
    distinct (map sr_id (in_flight s p)) \<and> list_all entry_ok (us_inputs s p) \<and>
    (case service_arbitrate s tick vector of
       Err _ \<Rightarrow> True
     | Ok (s', c) \<Rightarrow> takes_banks (va_bank_mask vector) (sc_decisions c) (sc_bank_mask c))"
proof -
  have inv: "service_ok s" "accepted p = taken p @ in_flight s p" using service_run_invariant [OF assms] by simp_all
  then show ?thesis using arbitrate_banks [of s tick vector]
    by (auto simp: service_ok_def split: sum.split prod.split)
qed

definition sample_vector :: vector_activity where
  "sample_vector = \<lparr>va_bank_mask = 1, va_triggered = False, va_write_pending = False, va_read_pending = False\<rparr>"

definition sample_request :: service_request where
  "sample_request = \<lparr>sr_id = 7, sr_address = 32, sr_bytes = 64\<rparr>"

definition sample_received :: ub_service where
  "sample_received = (case service_receive (service_new False) 0 MteRead sample_request of
     Ok (s, _) \<Rightarrow> s | Err _ \<Rightarrow> service_new False)"

definition sample_served :: ub_service where
  "sample_served = (case service_arbitrate sample_received 1 sample_vector of Ok (s, _) \<Rightarrow> s | Err _ \<Rightarrow> sample_received)"

lemma sample_receive: "service_receive (service_new False) 0 MteRead sample_request = Ok (sample_received, True)"
proof -
  have "map_sum id snd (service_receive (service_new False) 0 MteRead sample_request) = Ok True" by code_simp
  then show ?thesis by (auto simp: sample_received_def split: sum.splits prod.splits)
qed

lemma sample_cycle: "\<exists>c. service_arbitrate sample_received 1 sample_vector = Ok (sample_served, c)"
proof -
  have "is_ok (service_arbitrate sample_received 1 sample_vector)" by code_simp
  then show ?thesis by (auto simp: sample_served_def is_ok_def split: sum.splits prod.splits)
qed

theorem service_fifo_witness:
  "in_flight sample_served MteRead = [sample_request] \<and> us_inputs sample_served MteRead = []"
proof -
  obtain c where c: "service_arbitrate sample_received 1 sample_vector = Ok (sample_served, c)" using sample_cycle by blast
  have "service_run sample_served ((\<lambda>_. [])(MteRead := [sample_request])) (\<lambda>_. [])"
    using run_arbitrate [OF run_receive [OF run_new sample_receive] c] by simp
  from service_fifo [OF this, of MteRead] have "in_flight sample_served MteRead = [sample_request]" by simp
  moreover have "us_inputs sample_served MteRead = []" by code_simp
  ultimately show ?thesis by simp
qed

end
