(* ===== verification/Local_Buffer.thy ===== *)
theory Local_Buffer
  imports Sparse_Memory Rust_Std
begin

text \<open>
  \<open>src/src/sim/c220/memory/buffer.rs\<close>: the local buffers of a core (L0A, L0B, L0C, weight index). One map of byte
  states is accessed in three ways: inside the capacity, wrapped modulo the capacity, or linearly, where the capacity
  does not count; linear functional reads take untouched bytes as zero. The host allocation of a read is the parameter
  \<open>reserve\<close>.
\<close>

section \<open>State and operations\<close>

datatype local_buffer_error =
    LbRangeOverflow
  | LbOutOfBounds u64 u64 u64
  | LbZeroCapacity
  | LbHostAllocationFailed usize
  | LbUnknownByte u64

record local_buffer =
  lb_capacity :: u64
  lb_bytes :: "(u64, memory_byte_state) btree_map"

definition lb_new :: "u64 \<Rightarrow> local_buffer" where
  "lb_new capacity = \<lparr>lb_capacity = capacity, lb_bytes = bm_empty\<rparr>"

definition tracked_bytes :: "local_buffer \<Rightarrow> usize" where
  "tracked_bytes b = length (lb_bytes b)"

definition lb_check_linear_range :: "u64 \<Rightarrow> usize \<Rightarrow> local_buffer_error + unit" where
  "lb_check_linear_range address len =
     (if len = 0 then Ok ()
      else case u64_try_from (len - 1) of
          None \<Rightarrow> Err LbRangeOverflow
        | Some final \<Rightarrow> (case checked_add address final of None \<Rightarrow> Err LbRangeOverflow | Some _ \<Rightarrow> Ok ()))"

definition lb_check_range :: "local_buffer \<Rightarrow> u64 \<Rightarrow> usize \<Rightarrow> local_buffer_error + unit" where
  "lb_check_range b address len =
     (case u64_try_from len of
        None \<Rightarrow> Err LbRangeOverflow
      | Some n \<Rightarrow>
          (case checked_add address n of
             None \<Rightarrow> Err LbRangeOverflow
           | Some e \<Rightarrow> if lb_capacity b < e then Err (LbOutOfBounds address e (lb_capacity b)) else Ok ()))"

definition lb_read_with ::
  "(usize \<Rightarrow> bool) \<Rightarrow> local_buffer \<Rightarrow> usize \<Rightarrow> (usize \<Rightarrow> u64) \<Rightarrow> memory_byte_state
     \<Rightarrow> local_buffer_error + memory_byte_state list" where
  "lb_read_with reserve b len address untouched =
     (if \<not> reserve len then Err (LbHostAllocationFailed len)
      else Ok (map (\<lambda>offset. case bm_get (lb_bytes b) (address offset) of Some s \<Rightarrow> s | None \<Rightarrow> untouched) [0..<len]))"

definition linear_address :: "u64 \<Rightarrow> usize \<Rightarrow> u64" where
  "linear_address address offset = address + word_of_nat offset"

definition wrapped_address :: "local_buffer \<Rightarrow> u64 \<Rightarrow> usize \<Rightarrow> u64" where
  "wrapped_address b address offset = (address + word_of_nat offset) mod lb_capacity b"

fun collect_known :: "memory_byte_state list \<Rightarrow> (usize \<Rightarrow> u64) \<Rightarrow> local_buffer_error + u8 list" where
  "collect_known [] address = Ok []"
| "collect_known (Unknown # rest) address = Err (LbUnknownByte (address 0))"
| "collect_known (Known v # rest) address =
     (case collect_known rest (\<lambda>offset. address (Suc offset)) of Err e \<Rightarrow> Err e | Ok vs \<Rightarrow> Ok (v # vs))"

definition lb_read_states ::
  "(usize \<Rightarrow> bool) \<Rightarrow> local_buffer \<Rightarrow> u64 \<Rightarrow> usize \<Rightarrow> local_buffer_error + memory_byte_state list" where
  "lb_read_states reserve b address len =
     and_then (lb_check_range b address len) (\<lambda>_. lb_read_with reserve b len (linear_address address) Unknown)"

definition lb_read_states_wrapped ::
  "(usize \<Rightarrow> bool) \<Rightarrow> local_buffer \<Rightarrow> u64 \<Rightarrow> usize \<Rightarrow> local_buffer_error + memory_byte_state list" where
  "lb_read_states_wrapped reserve b address len =
     (if lb_capacity b = 0 then Err LbZeroCapacity
      else lb_read_with reserve b len (wrapped_address b address) Unknown)"

definition lb_read_states_linear ::
  "(usize \<Rightarrow> bool) \<Rightarrow> local_buffer \<Rightarrow> u64 \<Rightarrow> usize \<Rightarrow> local_buffer_error + memory_byte_state list" where
  "lb_read_states_linear reserve b address len =
     and_then (lb_check_linear_range address len) (\<lambda>_. lb_read_with reserve b len (linear_address address) Unknown)"

definition lb_read_initialized_states_linear ::
  "(usize \<Rightarrow> bool) \<Rightarrow> local_buffer \<Rightarrow> u64 \<Rightarrow> usize \<Rightarrow> local_buffer_error + memory_byte_state list" where
  "lb_read_initialized_states_linear reserve b address len =
     and_then (lb_check_linear_range address len) (\<lambda>_. lb_read_with reserve b len (linear_address address) (Known 0))"

definition lb_read_initialized_linear ::
  "(usize \<Rightarrow> bool) \<Rightarrow> local_buffer \<Rightarrow> u64 \<Rightarrow> usize \<Rightarrow> local_buffer_error + u8 list" where
  "lb_read_initialized_linear reserve b address len =
     and_then (lb_read_initialized_states_linear reserve b address len)
       (\<lambda>states. collect_known states (linear_address address))"

definition lb_read_known :: "(usize \<Rightarrow> bool) \<Rightarrow> local_buffer \<Rightarrow> u64 \<Rightarrow> usize \<Rightarrow> local_buffer_error + u8 list" where
  "lb_read_known reserve b address len =
     and_then (lb_read_states reserve b address len) (\<lambda>states. collect_known states (linear_address address))"

definition lb_read_known_wrapped ::
  "(usize \<Rightarrow> bool) \<Rightarrow> local_buffer \<Rightarrow> u64 \<Rightarrow> usize \<Rightarrow> local_buffer_error + u8 list" where
  "lb_read_known_wrapped reserve b address len =
     (if lb_capacity b = 0 then Err LbZeroCapacity
      else and_then (lb_read_states_wrapped reserve b address len)
        (\<lambda>states. collect_known states (wrapped_address b address)))"

text \<open>The insertion loop of the writes.\<close>

definition lb_insert_at :: "(usize \<Rightarrow> u64) \<Rightarrow> memory_byte_state list \<Rightarrow> local_buffer \<Rightarrow> local_buffer" where
  "lb_insert_at address states b =
     b\<lparr>lb_bytes := fold (\<lambda>offset. bm_insert (address offset) (states ! offset)) [0..<length states] (lb_bytes b)\<rparr>"

definition lb_write_states ::
  "local_buffer \<Rightarrow> u64 \<Rightarrow> memory_byte_state list \<Rightarrow> local_buffer \<times> (local_buffer_error + unit)" where
  "lb_write_states b address states =
     (case lb_check_range b address (length states) of
        Err e \<Rightarrow> (b, Err e)
      | Ok _ \<Rightarrow> (lb_insert_at (linear_address address) states b, Ok ()))"

definition lb_write_states_wrapped ::
  "local_buffer \<Rightarrow> u64 \<Rightarrow> memory_byte_state list \<Rightarrow> local_buffer \<times> (local_buffer_error + unit)" where
  "lb_write_states_wrapped b address states =
     (if lb_capacity b = 0 then (b, Err LbZeroCapacity)
      else (lb_insert_at (wrapped_address b address) states b, Ok ()))"

definition lb_write_states_linear ::
  "local_buffer \<Rightarrow> u64 \<Rightarrow> memory_byte_state list \<Rightarrow> local_buffer \<times> (local_buffer_error + unit)" where
  "lb_write_states_linear b address states =
     (case lb_check_linear_range address (length states) of
        Err e \<Rightarrow> (b, Err e)
      | Ok _ \<Rightarrow> (lb_insert_at (linear_address address) states b, Ok ()))"

definition lb_write_known :: "local_buffer \<Rightarrow> u64 \<Rightarrow> u8 list \<Rightarrow> local_buffer \<times> (local_buffer_error + unit)" where
  "lb_write_known b address bytes = lb_write_states b address (map Known bytes)"

definition lb_write_known_linear ::
  "local_buffer \<Rightarrow> u64 \<Rightarrow> u8 list \<Rightarrow> local_buffer \<times> (local_buffer_error + unit)" where
  "lb_write_known_linear b address bytes =
     (case lb_check_linear_range address (length bytes) of
        Err e \<Rightarrow> (b, Err e)
      | Ok _ \<Rightarrow> (lb_insert_at (linear_address address) (map Known bytes) b, Ok ()))"

definition lb_write_known_wrapped ::
  "local_buffer \<Rightarrow> u64 \<Rightarrow> u8 list \<Rightarrow> local_buffer \<times> (local_buffer_error + unit)" where
  "lb_write_known_wrapped b address bytes = lb_write_states_wrapped b address (map Known bytes)"

section \<open>The byte view\<close>

definition lb_state :: "local_buffer \<Rightarrow> u64 \<Rightarrow> memory_byte_state option" where
  "lb_state b a = bm_get (lb_bytes b) a"

text \<open>What a functional read sees: untouched bytes are zero, unknown bytes are none.\<close>

definition lb_byte :: "local_buffer \<Rightarrow> u64 \<Rightarrow> u8 option" where
  "lb_byte b a = (case lb_state b a of None \<Rightarrow> Some 0 | Some (Known v) \<Rightarrow> Some v | Some Unknown \<Rightarrow> None)"

lemma lb_insert_at_capacity [simp]: "lb_capacity (lb_insert_at f states b) = lb_capacity b"
  by (simp add: lb_insert_at_def)

lemma fold_insert_miss:
  "(\<And>i. i \<in> set is \<Longrightarrow> a \<noteq> f i) \<Longrightarrow> bm_get (fold (\<lambda>i. bm_insert (f i) (v i)) is m) a = bm_get m a"
  by (induction "is" arbitrary: m) (simp_all add: bm_get_insert_apply)

lemma lb_insert_at_other:
  "(\<And>i. i < length states \<Longrightarrow> a \<noteq> f i) \<Longrightarrow> lb_state (lb_insert_at f states b) a = lb_state b a"
  unfolding lb_state_def lb_insert_at_def by simp (rule fold_insert_miss, simp)

text \<open>The last write to an address wins.\<close>

lemma lb_insert_at_last:
  assumes "i < length states" "f i = a" "\<And>j. i < j \<Longrightarrow> j < length states \<Longrightarrow> a \<noteq> f j"
  shows "lb_state (lb_insert_at f states b) a = Some (states ! i)"
proof -
  have split: "[0..<length states] = [0..<i] @ i # [Suc i..<length states]"
    using assms(1) upt_add_eq_append [of 0 i "length states - i"] by (simp add: upt_conv_Cons)
  have "bm_get (fold (\<lambda>i. bm_insert (f i) (states ! i)) [Suc i..<length states] m) a = bm_get m a" for m
    by (rule fold_insert_miss) (use assms(3) in auto)
  then show ?thesis
    unfolding lb_state_def lb_insert_at_def by (simp add: split assms(2) bm_get_insert_apply)
qed

lemma lb_check_linear_range_Ok:
  "lb_check_linear_range address len = Ok () \<longleftrightarrow> unat address + len \<le> 2 ^ 64"
proof -
  have "unat (word_of_nat (len - 1) :: u64) = len - 1" if "len - 1 < 2 ^ 64"
    using that by (simp del: of_nat_diff)
  then show ?thesis
    using unat_u64_less [of address]
    by (auto simp: lb_check_linear_range_def u64_try_from_def checked_add_def simp del: of_nat_diff split: option.splits)
qed

lemma linear_address_inject:
  assumes "unat address + len \<le> 2 ^ 64" "i < len" "j < len"
  shows "linear_address address i = linear_address address j \<longleftrightarrow> i = j"
  unfolding linear_address_def using assms by (intro offset_inject) auto

lemma unat_linear_address: "unat address + i < 2 ^ 64 \<Longrightarrow> unat (linear_address address i) = unat address + i"
  unfolding linear_address_def by (rule unat_offset) simp

lemma lb_insert_linear:
  assumes "unat address + length states \<le> 2 ^ 64" "i < length states"
  shows "lb_state (lb_insert_at (linear_address address) states b) (linear_address address i) = Some (states ! i)"
  by (rule lb_insert_at_last) (use assms linear_address_inject [OF assms(1)] in auto)

lemma collect_known_Ok:
  "collect_known states f = Ok bytes \<longleftrightarrow> states = map Known bytes"
proof (induction states f arbitrary: bytes rule: collect_known.induct)
  case (3 v rest f)
  show ?case
  proof (cases bytes)
    case (Cons w ws)
    with 3 [of ws] show ?thesis by (auto split: sum.splits)
  qed (auto split: sum.splits)
qed auto

text \<open>A functional read returns the visible bytes when all are known, and fails on the first unknown one.\<close>

lemma lb_read_initialized_linear_Ok:
  "lb_read_initialized_linear reserve b address len = Ok bytes \<longleftrightarrow>
     unat address + len \<le> 2 ^ 64 \<and> reserve len \<and> map (\<lambda>i. lb_byte b (linear_address address i)) [0..<len] = map Some bytes"
proof -
  have seen: "(case lb_state b a of Some s \<Rightarrow> s | None \<Rightarrow> Known 0) = Known v \<longleftrightarrow> lb_byte b a = Some v" for a v
    by (auto simp: lb_byte_def split: option.splits memory_byte_state.splits)
  have eq: "map (\<lambda>i. case lb_state b (linear_address address i) of Some s \<Rightarrow> s | None \<Rightarrow> Known 0) [0..<len] = map Known bytes \<longleftrightarrow>
      map (\<lambda>i. lb_byte b (linear_address address i)) [0..<len] = map Some bytes"
    by (auto simp: list_eq_iff_nth_eq seen)
  show ?thesis
    unfolding lb_read_initialized_linear_def lb_read_initialized_states_linear_def lb_read_with_def
      and_then_Ok lb_state_def [symmetric]
    using lb_check_linear_range_Ok [of address len] eq by (auto simp: collect_known_Ok split: if_splits)
qed

lemma lb_write_known_linear_Ok:
  assumes "unat address + length bytes \<le> 2 ^ 64"
  shows "lb_write_known_linear b address bytes = (lb_insert_at (linear_address address) (map Known bytes) b, Ok ())"
  using lb_check_linear_range_Ok [of address "length bytes"] assms by (simp add: lb_write_known_linear_def)

lemma wrapped_address_inject:
  assumes "lb_capacity b \<noteq> 0" "i < j" "j < i + unat (lb_capacity b)" "unat address + j < 2 ^ 64"
  shows "wrapped_address b address i \<noteq> wrapped_address b address j"
proof
  assume "wrapped_address b address i = wrapped_address b address j"
  then have "(unat address + i) mod unat (lb_capacity b) = (unat address + j) mod unat (lb_capacity b)"
    using assms by (auto simp: wrapped_address_def unat_mod_distrib unat_offset dest!: arg_cong [of _ _ unat])
  then have "unat (lb_capacity b) dvd (unat address + j - (unat address + i))"
    by (metis assms(2) less_imp_le mod_eq_dvd_iff_nat nat_add_left_cancel_le)
  with assms(2,3) show False by (auto dest!: dvd_imp_le)
qed

end
