(* ===== verification/L0c.thy ===== *)
theory L0c
  imports Local_Buffer
begin

text \<open>
  \<open>src/src/sim/c220/memory/l0c.rs\<close>, \<open>l0c_read.rs\<close> and the requests of \<open>cube/uop.rs\<close>: the accumulator memory of a
  core. Its scoreboard hands fragments of 512 bytes from the Cube to the reader by unit flags, the write arbiter keeps
  the two masters of the write port apart, and the read port admits reads to banks the Cube leaves free. A \<open>BTreeSet\<close>
  is a set, arrays indexed by the master are functions of the master, and fragment numbers are reduced modulo the
  number of fragments, which the constructor makes positive.
\<close>

unbundle bit_operations_syntax

section \<open>Requests\<close>

datatype l0c_access = L0cRead | L0cWrite

datatype unit_flag_mode = UfDisabled | UfCheck | UfCheckAndUpdate

definition mode_from_xt_bits :: "u8 \<Rightarrow> unit_flag_mode" where
  "mode_from_xt_bits bits =
     (if bits AND 3 = 2 then UfCheck else if bits AND 3 = 3 then UfCheckAndUpdate else UfDisabled)"

definition mode_checks :: "unit_flag_mode \<Rightarrow> bool" where
  "mode_checks mode \<longleftrightarrow> mode \<noteq> UfDisabled"

definition mode_updates :: "unit_flag_mode \<Rightarrow> bool" where
  "mode_updates mode \<longleftrightarrow> mode = UfCheckAndUpdate"

record l0c_request =
  lr_address :: u64
  lr_bytes :: u16
  lr_access :: l0c_access
  lr_unit_flags :: unit_flag_mode

record fragment_request =
  fr_address :: u64
  fr_bytes :: u32
  fr_access :: l0c_access
  fr_check :: bool
  fr_update :: bool

definition fragment_request_from :: "l0c_request \<Rightarrow> fragment_request" where
  "fragment_request_from r =
     \<lparr>fr_address = lr_address r, fr_bytes = ucast (lr_bytes r), fr_access = lr_access r,
      fr_check = mode_checks (lr_unit_flags r), fr_update = mode_updates (lr_unit_flags r)\<rparr>"

datatype unit_flag_block = WriterOccupied u32 | ReaderUnavailable u32

datatype l0c_error =
    InvalidReadBankCount u8
  | ReadTimeReversed u64 u64
  | InvalidCapacity
  | TimeOverflow
  | L0cBufferFailed local_buffer_error

section \<open>The scoreboard\<close>

definition l0c_fragment_bytes :: u32 where
  "l0c_fragment_bytes = 512"

record pending_read_flags =
  pf_ready_tick :: u64
  pf_start_fragment :: u64
  pf_fragment_count :: u32

record l0c_scoreboard =
  sb_fragment_count :: u32
  sb_read_latency :: u32
  sb_writer_flags :: "u32 set"
  sb_reader_flags :: "u32 set"
  sb_pending :: "pending_read_flags list"

definition scoreboard_new :: "u64 \<Rightarrow> u32 \<Rightarrow> l0c_error + l0c_scoreboard" where
  "scoreboard_new total_bytes latency =
     (let fragment_count = total_bytes div ucast l0c_fragment_bytes in
      if 2 ^ 32 \<le> unat fragment_count then Err InvalidCapacity
      else if fragment_count = 0 then Err InvalidCapacity
      else Ok \<lparr>sb_fragment_count = ucast fragment_count, sb_read_latency = latency, sb_writer_flags = {},
        sb_reader_flags = {}, sb_pending = []\<rparr>)"

definition sb_fragments :: "l0c_scoreboard \<Rightarrow> u64 \<Rightarrow> u32 \<Rightarrow> u32 list" where
  "sb_fragments sb start count =
     map (\<lambda>offset. ucast ((start + word_of_nat offset) mod ucast (sb_fragment_count sb))) [0..<unat count]"

definition request_fragments :: "fragment_request \<Rightarrow> u64 \<times> u32" where
  "request_fragments r = (fr_address r div ucast l0c_fragment_bytes, fr_bytes r div l0c_fragment_bytes)"

fun release_pending :: "l0c_scoreboard \<Rightarrow> u64 \<Rightarrow> pending_read_flags list \<Rightarrow> u32 set \<Rightarrow> u32 set \<times> pending_read_flags list" where
  "release_pending sb tick [] readers = (readers, [])"
| "release_pending sb tick (p # rest) readers =
     (if pf_ready_tick p \<le> tick then
        release_pending sb tick rest (readers \<union> set (sb_fragments sb (pf_start_fragment p) (pf_fragment_count p)))
      else (readers, p # rest))"

definition sb_advance_to :: "l0c_scoreboard \<Rightarrow> u64 \<Rightarrow> l0c_scoreboard" where
  "sb_advance_to sb tick =
     (let (readers, pending) = release_pending sb tick (sb_pending sb) (sb_reader_flags sb)
      in sb\<lparr>sb_reader_flags := readers, sb_pending := pending\<rparr>)"

definition sb_blocked_by :: "l0c_scoreboard \<Rightarrow> fragment_request \<Rightarrow> unit_flag_block option" where
  "sb_blocked_by sb r =
     (if \<not> fr_check r then None
      else let (start, count) = request_fragments r in
        case fr_access r of
          L0cWrite \<Rightarrow> map_option WriterOccupied (find (\<lambda>f. f \<in> sb_writer_flags sb) (sb_fragments sb start count))
        | L0cRead \<Rightarrow> map_option ReaderUnavailable (find (\<lambda>f. f \<notin> sb_reader_flags sb) (sb_fragments sb start count)))"

text \<open>The writer flags are set before the ready tick is computed.\<close>

definition sb_admit ::
  "l0c_scoreboard \<Rightarrow> fragment_request \<Rightarrow> u64 \<Rightarrow> l0c_scoreboard \<times> (l0c_error + (unit_flag_block + unit))" where
  "sb_admit sb r tick =
     (case sb_blocked_by sb r of
        Some blocked \<Rightarrow> (sb, Ok (Err blocked))
      | None \<Rightarrow>
          if \<not> fr_check r \<or> \<not> fr_update r then (sb, Ok (Ok ()))
          else let (start, count) = request_fragments r; fragments = sb_fragments sb start count in
            case fr_access r of
              L0cWrite \<Rightarrow>
                let sb = sb\<lparr>sb_writer_flags := sb_writer_flags sb \<union> set fragments\<rparr> in
                (case checked_add tick (ucast (sb_read_latency sb)) of
                   None \<Rightarrow> (sb, Err TimeOverflow)
                 | Some ready_tick \<Rightarrow>
                     (sb\<lparr>sb_pending := sb_pending sb @
                        [\<lparr>pf_ready_tick = ready_tick, pf_start_fragment = start, pf_fragment_count = count\<rparr>]\<rparr>, Ok (Ok ())))
            | L0cRead \<Rightarrow>
                (sb\<lparr>sb_reader_flags := sb_reader_flags sb - set fragments,
                   sb_writer_flags := sb_writer_flags sb - set fragments\<rparr>, Ok (Ok ())))"

section \<open>The write arbiter\<close>

datatype l0c_master = MteMaster | CubeMaster

fun master_other :: "l0c_master \<Rightarrow> l0c_master" where
  "master_other MteMaster = CubeMaster"
| "master_other CubeMaster = MteMaster"

record write_arbiter =
  wa_busy :: "l0c_master \<Rightarrow> u32"
  wa_waiting :: "l0c_master \<Rightarrow> u64 list"

definition wa_default :: write_arbiter where
  "wa_default = \<lparr>wa_busy = (\<lambda>_. 0), wa_waiting = (\<lambda>_. [])\<rparr>"

datatype write_port_block = ActiveMaster l0c_master u32 | QueuedMaster l0c_master u64

definition wa_enqueue :: "write_arbiter \<Rightarrow> l0c_master \<Rightarrow> u64 \<Rightarrow> write_arbiter" where
  "wa_enqueue w master tick = w\<lparr>wa_waiting := (wa_waiting w)(master := wa_waiting w master @ [tick])\<rparr>"

definition wa_queued :: "write_arbiter \<Rightarrow> l0c_master \<Rightarrow> usize" where
  "wa_queued w master = length (wa_waiting w master)"

definition wa_blocked_by :: "write_arbiter \<Rightarrow> l0c_master \<Rightarrow> write_port_block option" where
  "wa_blocked_by w master =
     (let competing = master_other master; outstanding = wa_busy w competing in
      if outstanding \<noteq> 0 then Some (ActiveMaster competing outstanding)
      else case (wa_waiting w master, wa_waiting w competing) of
          (own # _, other # _) \<Rightarrow>
            if (case master of CubeMaster \<Rightarrow> other < own | MteMaster \<Rightarrow> other \<le> own)
            then Some (QueuedMaster competing other) else None
        | _ \<Rightarrow> None)"

definition wa_can_grant :: "write_arbiter \<Rightarrow> l0c_master \<Rightarrow> bool" where
  "wa_can_grant w master \<longleftrightarrow> wa_blocked_by w master = None"

definition wa_grant :: "write_arbiter \<Rightarrow> l0c_master \<Rightarrow> write_arbiter \<times> bool" where
  "wa_grant w master =
     (if \<not> wa_can_grant w master then (w, False)
      else (w\<lparr>wa_waiting := (wa_waiting w)(master := tl (wa_waiting w master)),
          wa_busy := (wa_busy w)(master := saturating_add (wa_busy w master) 1)\<rparr>, True))"

definition wa_complete :: "write_arbiter \<Rightarrow> l0c_master \<Rightarrow> write_arbiter" where
  "wa_complete w master =
     w\<lparr>wa_busy := (wa_busy w)(master := if wa_busy w master = 0 then 0 else wa_busy w master - 1)\<rparr>"

section \<open>Read banks\<close>

definition cube_bank_sequence :: "u16 list" where
  "cube_bank_sequence = [0x0001, 0x0012, 0x0124, 0x1248, 0x2480, 0x4800, 0x8000]"

record read_banks =
  rb_tick :: u64
  rb_masks :: "u32 list"

definition rb_default :: read_banks where
  "rb_default = \<lparr>rb_tick = 0, rb_masks = replicate 8 0\<rparr>"

definition rb_advance_to :: "read_banks \<Rightarrow> u64 \<Rightarrow> l0c_error + read_banks" where
  "rb_advance_to b tick =
     (if tick < rb_tick b then Err (ReadTimeReversed tick (rb_tick b))
      else let elapsed = min (unat (tick - rb_tick b)) (length (rb_masks b));
          rotated = rotate elapsed (rb_masks b);
          remaining = length (rb_masks b) - elapsed
        in Ok (b\<lparr>rb_masks := take remaining rotated @ replicate elapsed 0, rb_tick := tick\<rparr>))"

definition cube_pattern :: "u64 \<Rightarrow> bool \<Rightarrow> u16 \<Rightarrow> u32" where
  "cube_pattern address half_accumulator pattern =
     (let pattern = ucast pattern in
      if half_accumulator then push_bit (16 * unat (drop_bit 8 address AND 1)) pattern
      else pattern OR push_bit 16 pattern)"

definition rb_reserve :: "read_banks \<Rightarrow> u64 \<Rightarrow> bool \<Rightarrow> nat \<Rightarrow> read_banks" where
  "rb_reserve b address half_accumulator offset =
     b\<lparr>rb_masks := take offset (rb_masks b) @
        map (\<lambda>(occupied, pattern). occupied OR cube_pattern address half_accumulator pattern)
          (zip (drop offset (rb_masks b)) cube_bank_sequence) @
        drop (offset + length cube_bank_sequence) (rb_masks b)\<rparr>"

definition accept_cube_read :: "read_banks \<Rightarrow> u64 \<Rightarrow> u64 \<Rightarrow> bool \<Rightarrow> l0c_error + read_banks" where
  "accept_cube_read b arrival_tick address half_accumulator =
     and_then (rb_advance_to b arrival_tick) (\<lambda>b. Ok (rb_reserve b address half_accumulator 0))"

definition send_cube_read :: "read_banks \<Rightarrow> u64 \<Rightarrow> u64 \<Rightarrow> bool \<Rightarrow> l0c_error + read_banks" where
  "send_cube_read b issue_tick address half_accumulator =
     (case checked_add issue_tick 1 of
        None \<Rightarrow> Err TimeOverflow
      | Some _ \<Rightarrow> and_then (rb_advance_to b issue_tick) (\<lambda>b. Ok (rb_reserve b address half_accumulator 1)))"

definition rb_occupied_mask :: "read_banks \<Rightarrow> u32" where
  "rb_occupied_mask b = rb_masks b ! 0"

definition rb_conflicts :: "read_banks \<Rightarrow> u32 \<Rightarrow> u32" where
  "rb_conflicts b requested = rb_occupied_mask b AND requested"

section \<open>The read port\<close>

record read_request =
  rr_id :: u32
  rr_fragments :: fragment_request
  rr_data_type :: u32
  rr_half_accumulator :: bool

definition bank_selected :: "read_request \<Rightarrow> nat \<Rightarrow> bool" where
  "bank_selected r bank =
     (let address = fr_address (rr_fragments r); data_type = rr_data_type r in
      if rr_half_accumulator r then (drop_bit 9 address XOR word_of_nat bank) AND 1 = 0
      else
        let groups_of_four = (drop_bit 2 data_type AND 3 = 2 \<or> data_type = 0 \<or> data_type = 5);
            pairs = (1 \<le> data_type \<and> data_type \<le> 3 \<or> data_type = 7) in
        groups_of_four \<and> (word_of_nat (bank div 4) XOR drop_bit 9 address) AND 1 = 0 \<or>
        pairs \<and> (word_of_nat (bank div 2) XOR drop_bit 8 address) AND 3 = 0)"

definition bank_mask :: "read_request \<Rightarrow> u8 \<Rightarrow> l0c_error + u32" where
  "bank_mask r bank_count =
     (if bank_count = 0 \<or> 32 < bank_count then Err (InvalidReadBankCount bank_count)
      else Ok (foldl (\<lambda>mask bank. mask OR push_bit bank (of_bool (bank_selected r bank))) 0 [0..<unat bank_count]))"

datatype read_block = AwaitingBankAdmission | RequestOrder u32 | UnitFlag unit_flag_block

record read_transit =
  rt_request :: read_request
  rt_sent_tick :: u64
  rt_ready_tick :: u64

record read_port =
  rp_waiting :: "read_transit list"
  rp_admitted :: "read_request list"
  rp_arbitration_tick :: "u64 option"
  rp_observed_tick :: "u64 option"

definition rp_default :: read_port where
  "rp_default = \<lparr>rp_waiting = [], rp_admitted = [], rp_arbitration_tick = None, rp_observed_tick = None\<rparr>"

definition read_transport_capacity :: usize where "read_transport_capacity = 2"
definition read_transport_ticks :: u64 where "read_transport_ticks = 1"

definition request_ready :: "read_port \<Rightarrow> bool" where
  "request_ready p \<longleftrightarrow> length (rp_waiting p) < read_transport_capacity"

definition rp_check_time :: "read_port \<Rightarrow> u64 \<Rightarrow> l0c_error + unit" where
  "rp_check_time p tick =
     (case rp_observed_tick p of
        Some previous \<Rightarrow> if tick < previous then Err (ReadTimeReversed tick previous) else Ok ()
      | None \<Rightarrow> Ok ())"

definition send_request :: "read_port \<Rightarrow> u64 \<Rightarrow> read_request \<Rightarrow> read_port \<times> (l0c_error + bool)" where
  "send_request p tick request =
     (case rp_check_time p tick of
        Err e \<Rightarrow> (p, Err e)
      | Ok _ \<Rightarrow>
          if \<not> request_ready p then (p\<lparr>rp_observed_tick := Some tick\<rparr>, Ok False)
          else case checked_add tick read_transport_ticks of
              None \<Rightarrow> (p, Err TimeOverflow)
            | Some ready_tick \<Rightarrow>
                (p\<lparr>rp_waiting := rp_waiting p @ [\<lparr>rt_request = request, rt_sent_tick = tick, rt_ready_tick = ready_tick\<rparr>],
                   rp_observed_tick := Some tick\<rparr>, Ok True))"

text \<open>The conflict of the request at the head, when it has arrived.\<close>

definition head_conflict :: "read_port \<Rightarrow> read_banks \<Rightarrow> u8 \<Rightarrow> l0c_error + u32 option" where
  "head_conflict p banks bank_count =
     (case rp_waiting p of
        [] \<Rightarrow> Ok None
      | transit # _ \<Rightarrow>
          if rt_ready_tick transit \<le> rb_tick banks then
            and_then (bank_mask (rt_request transit) bank_count) (\<lambda>mask. Ok (Some (rb_conflicts banks mask)))
          else Ok None)"

definition rp_arbitrate :: "read_port \<Rightarrow> read_banks \<Rightarrow> u8 \<Rightarrow> read_port \<times> (l0c_error + u32 option)" where
  "rp_arbitrate p banks bank_count =
     (case rp_check_time p (rb_tick banks) of
        Err e \<Rightarrow> (p, Err e)
      | Ok _ \<Rightarrow>
          if rp_arbitration_tick p = Some (rb_tick banks) then (p, Ok None)
          else case head_conflict p banks bank_count of
              Err e \<Rightarrow> (p, Err e)
            | Ok conflict \<Rightarrow>
                let p = p\<lparr>rp_arbitration_tick := Some (rb_tick banks), rp_observed_tick := Some (rb_tick banks)\<rparr> in
                (if conflict = Some 0 then
                   p\<lparr>rp_admitted := rp_admitted p @ [rt_request (hd (rp_waiting p))], rp_waiting := tl (rp_waiting p)\<rparr>
                 else p, Ok conflict))"

definition complete_read ::
  "read_port \<Rightarrow> u32 \<Rightarrow> u64 \<Rightarrow> u32 \<Rightarrow> l0c_scoreboard
     \<Rightarrow> read_port \<times> l0c_scoreboard \<times> (l0c_error + (read_block + u64))" where
  "complete_read p request_id tick data_latency sb =
     (case rp_check_time p tick of
        Err e \<Rightarrow> (p, sb, Err e)
      | Ok _ \<Rightarrow>
          let p = p\<lparr>rp_observed_tick := Some tick\<rparr> in
          case rp_admitted p of
            [] \<Rightarrow> (p, sb, Ok (Err AwaitingBankAdmission))
          | request # rest \<Rightarrow>
              if rr_id request \<noteq> request_id then (p, sb, Ok (Err (RequestOrder (rr_id request))))
              else case checked_add tick (ucast data_latency) of
                  None \<Rightarrow> (p, sb, Err TimeOverflow)
                | Some ready \<Rightarrow>
                    (case sb_admit (sb_advance_to sb tick) (rr_fragments request) tick of
                       (sb, Err e) \<Rightarrow> (p, sb, Err e)
                     | (sb, Ok (Err block)) \<Rightarrow> (p, sb, Ok (Err (UnitFlag block)))
                     | (sb, Ok (Ok _)) \<Rightarrow> (p\<lparr>rp_admitted := rest\<rparr>, sb, Ok (Ok ready))))"

section \<open>The memory\<close>

record l0c =
  l0_read_port :: read_port
  l0_read_banks :: read_banks
  l0_buffer :: local_buffer
  l0_scoreboard :: l0c_scoreboard
  l0_write_arbiter :: write_arbiter

definition l0c_new :: "u64 \<Rightarrow> u32 \<Rightarrow> l0c_error + l0c" where
  "l0c_new total_bytes latency =
     and_then (scoreboard_new total_bytes latency) (\<lambda>sb.
       Ok \<lparr>l0_read_port = rp_default, l0_read_banks = rb_default, l0_buffer = lb_new total_bytes,
         l0_scoreboard = sb, l0_write_arbiter = wa_default\<rparr>)"

definition poll_read :: "l0c \<Rightarrow> u64 \<Rightarrow> u32 \<Rightarrow> u8 \<Rightarrow> u32 \<Rightarrow> l0c \<times> (l0c_error + (read_block + u64))" where
  "poll_read m tick request_id bank_count data_latency =
     (case rb_advance_to (l0_read_banks m) tick of
        Err e \<Rightarrow> (m, Err e)
      | Ok banks \<Rightarrow>
          let m = m\<lparr>l0_read_banks := banks\<rparr> in
          case rp_arbitrate (l0_read_port m) banks bank_count of
            (port, Err e) \<Rightarrow> (m\<lparr>l0_read_port := port\<rparr>, Err e)
          | (port, Ok _) \<Rightarrow>
              let (port, sb, result) = complete_read port request_id tick data_latency (l0_scoreboard m)
              in (m\<lparr>l0_read_port := port, l0_scoreboard := sb\<rparr>, result))"

section \<open>The write port has one owner\<close>

datatype wa_op = WaEnqueue l0c_master u64 | WaGrant l0c_master | WaComplete l0c_master

fun wa_step :: "write_arbiter \<Rightarrow> wa_op \<Rightarrow> write_arbiter" where
  "wa_step w (WaEnqueue master tick) = wa_enqueue w master tick"
| "wa_step w (WaGrant master) = fst (wa_grant w master)"
| "wa_step w (WaComplete master) = wa_complete w master"

lemma master_cases: "m = n \<or> m = master_other n" for m n
  by (cases m; cases n) simp_all

lemma master_other_other [simp]: "master_other (master_other m) = m" "master_other m \<noteq> m" "m \<noteq> master_other m"
  by (cases m; simp)+

lemma wa_step_exclusive:
  assumes "wa_busy w m = 0 \<or> wa_busy w (master_other m) = 0"
  shows "wa_busy (wa_step w oper) m = 0 \<or> wa_busy (wa_step w oper) (master_other m) = 0"
proof (cases oper)
  case (WaGrant n)
  then show ?thesis
    using assms master_cases [of n m] by (auto simp: wa_grant_def wa_can_grant_def wa_blocked_by_def Let_def)
qed (use assms in \<open>auto simp: wa_enqueue_def wa_complete_def\<close>)

lemma wa_run_exclusive:
  "wa_busy w m = 0 \<or> wa_busy w (master_other m) = 0 \<Longrightarrow>
   wa_busy (foldl wa_step w ops) m = 0 \<or> wa_busy (foldl wa_step w ops) (master_other m) = 0"
  by (induction ops arbitrary: w) (simp_all add: wa_step_exclusive)

text \<open>Which master the port would accept.\<close>

lemma wa_can_grant_iff:
  "wa_can_grant w m \<longleftrightarrow> wa_busy w (master_other m) = 0 \<and>
     (case (wa_waiting w m, wa_waiting w (master_other m)) of
        (own # _, other # _) \<Rightarrow> own < other \<or> own = other \<and> m = CubeMaster | _ \<Rightarrow> True)"
  by (cases m) (auto simp: wa_can_grant_def wa_blocked_by_def Let_def split: list.splits)

text \<open>C37. The write port of L0C has one owner at a time, whatever the masters do; a request waits only for the other master's
  writes or behind an older request of the other master (the Cube wins a tie); and when the port is free and somebody
  waits, exactly the master with the oldest request can be granted.\<close>

theorem write_port_exclusive:
  fixes ops
  defines "w \<equiv> foldl wa_step wa_default ops"
  shows "(wa_busy w MteMaster = 0 \<or> wa_busy w CubeMaster = 0) \<and>
    (\<forall>m. \<not> wa_can_grant w m \<longrightarrow> wa_busy w (master_other m) \<noteq> 0 \<or>
       (\<exists>own other. own \<in> set (take 1 (wa_waiting w m)) \<and> other \<in> set (take 1 (wa_waiting w (master_other m))) \<and> other \<le> own)) \<and>
    (wa_busy w MteMaster = 0 \<and> wa_busy w CubeMaster = 0 \<and> wa_waiting w MteMaster \<noteq> [] \<and> wa_waiting w CubeMaster \<noteq> [] \<longrightarrow>
       (wa_can_grant w CubeMaster \<longleftrightarrow> hd (wa_waiting w CubeMaster) \<le> hd (wa_waiting w MteMaster)) \<and>
       (wa_can_grant w MteMaster \<longleftrightarrow> \<not> wa_can_grant w CubeMaster))"
proof -
  have "wa_busy w MteMaster = 0 \<or> wa_busy w CubeMaster = 0"
    using wa_run_exclusive [of wa_default MteMaster ops] by (simp add: w_def wa_default_def)
  moreover have "wa_busy w (master_other m) \<noteq> 0 \<or>
       (\<exists>own other. own \<in> set (take 1 (wa_waiting w m)) \<and> other \<in> set (take 1 (wa_waiting w (master_other m))) \<and> other \<le> own)"
    if "\<not> wa_can_grant w m" for m
    using that by (auto simp: wa_can_grant_iff not_less split: list.splits)
  moreover have "(wa_can_grant w CubeMaster \<longleftrightarrow> hd (wa_waiting w CubeMaster) \<le> hd (wa_waiting w MteMaster)) \<and>
       (wa_can_grant w MteMaster \<longleftrightarrow> \<not> wa_can_grant w CubeMaster)"
    if "wa_busy w MteMaster = 0" "wa_busy w CubeMaster = 0" "wa_waiting w MteMaster \<noteq> []" "wa_waiting w CubeMaster \<noteq> []"
    using that by (cases "wa_waiting w MteMaster"; cases "wa_waiting w CubeMaster") (auto simp: wa_can_grant_iff)
  ultimately show ?thesis by blast
qed

theorem write_port_exclusive_witness:
  "wa_can_grant (foldl wa_step wa_default [WaEnqueue MteMaster 5, WaEnqueue CubeMaster 5]) CubeMaster \<and>
   \<not> wa_can_grant (foldl wa_step wa_default [WaEnqueue MteMaster 5, WaEnqueue CubeMaster 5]) MteMaster"
  using write_port_exclusive [of "[WaEnqueue MteMaster 5, WaEnqueue CubeMaster 5]"]
  by (simp add: wa_enqueue_def wa_default_def)

section \<open>Unit flags hand fragments over\<close>

text \<open>
  A trace of the scoreboard: the latest time it was advanced to, and the updating accesses it admitted, newest first, a
  write with its tick and a read with the latest time.
\<close>

datatype sb_op = SbAdvance u64 | SbAdmit fragment_request u64

record sb_trace =
  st_sb :: l0c_scoreboard
  st_now :: u64
  st_log :: "(l0c_access \<times> u32 set \<times> u64) list"

definition covered_fragments :: "l0c_scoreboard \<Rightarrow> fragment_request \<Rightarrow> u32 set" where
  "covered_fragments sb r = set (sb_fragments sb (fst (request_fragments r)) (snd (request_fragments r)))"

fun sb_step :: "sb_trace \<Rightarrow> sb_op \<Rightarrow> l0c_error + sb_trace" where
  "sb_step t (SbAdvance tick) = Ok (t\<lparr>st_sb := sb_advance_to (st_sb t) tick, st_now := max (st_now t) tick\<rparr>)"
| "sb_step t (SbAdmit r tick) =
     (case sb_admit (st_sb t) r tick of
        (sb, Err e) \<Rightarrow> Err e
      | (sb, Ok (Err _)) \<Rightarrow> Ok (t\<lparr>st_sb := sb\<rparr>)
      | (sb, Ok (Ok _)) \<Rightarrow>
          Ok (t\<lparr>st_sb := sb,
            st_log := (if fr_check r \<and> fr_update r
              then [(fr_access r, covered_fragments sb r, if fr_access r = L0cWrite then tick else st_now t)] else []) @ st_log t\<rparr>))"

fun sb_run :: "sb_trace \<Rightarrow> sb_op list \<Rightarrow> l0c_error + sb_trace" where
  "sb_run t [] = Ok t"
| "sb_run t (oper # rest) = and_then (sb_step t oper) (\<lambda>t. sb_run t rest)"

text \<open>Writes and reads of a fragment alternate, and a read comes the read latency after the write.\<close>

fun alternating :: "nat \<Rightarrow> (l0c_access \<times> u64) list \<Rightarrow> bool" where
  "alternating latency [] \<longleftrightarrow> True"
| "alternating latency [(a, _)] \<longleftrightarrow> a = L0cWrite"
| "alternating latency ((a, t) # (b, u) # rest) \<longleftrightarrow>
     (if a = L0cRead then b = L0cWrite \<and> unat u + latency \<le> unat t else b = L0cRead) \<and> alternating latency ((b, u) # rest)"

definition accesses_of :: "u32 \<Rightarrow> (l0c_access \<times> u32 set \<times> u64) list \<Rightarrow> (l0c_access \<times> u64) list" where
  "accesses_of f log = map (\<lambda>(a, _, t). (a, t)) (filter (\<lambda>(_, fs, _). f \<in> fs) log)"

definition pending_fragments :: "l0c_scoreboard \<Rightarrow> pending_read_flags \<Rightarrow> u32 set" where
  "pending_fragments sb p = set (sb_fragments sb (pf_start_fragment p) (pf_fragment_count p))"

lemma pending_fragments_cong:
  "sb_fragment_count sb' = sb_fragment_count sb \<Longrightarrow> sb_fragments sb' = sb_fragments sb"
  "sb_fragment_count sb' = sb_fragment_count sb \<Longrightarrow> pending_fragments sb' = pending_fragments sb"
  "sb_fragment_count sb' = sb_fragment_count sb \<Longrightarrow> covered_fragments sb' = covered_fragments sb"
  by (auto simp: sb_fragments_def pending_fragments_def covered_fragments_def fun_eq_iff)

text \<open>
  Where a fragment with the accesses \<open>log f\<close> is: free, written and not yet visible to the reader (pending), or readable
  (in \<open>readers\<close>).
\<close>

definition flags_ok ::
  "nat \<Rightarrow> (pending_read_flags \<Rightarrow> u32 set) \<Rightarrow> (u32 \<Rightarrow> (l0c_access \<times> u64) list) \<Rightarrow> u64 \<Rightarrow> u32 set \<Rightarrow> pending_read_flags list \<Rightarrow> bool"
where
  "flags_ok latency P log now readers pending \<longleftrightarrow>
     (\<forall>f\<in>readers. \<exists>t rest. log f = (L0cWrite, t) # rest \<and> unat t + latency \<le> unat now) \<and>
     (\<forall>p\<in>set pending. \<forall>f\<in>P p. f \<notin> readers \<and>
        (\<exists>t rest. log f = (L0cWrite, t) # rest \<and> unat (pf_ready_tick p) = unat t + latency)) \<and>
     sorted_wrt (\<lambda>p q. P p \<inter> P q = {}) pending"

definition trace_ok :: "sb_trace \<Rightarrow> bool" where
  "trace_ok t \<longleftrightarrow>
     (let log = (\<lambda>f. accesses_of f (st_log t)); latency = unat (sb_read_latency (st_sb t)) in
      (\<forall>f. alternating latency (log f) \<and>
         (f \<in> sb_writer_flags (st_sb t) \<longleftrightarrow> (\<exists>u rest. log f = (L0cWrite, u) # rest))) \<and>
      flags_ok latency (pending_fragments (st_sb t)) log (st_now t) (sb_reader_flags (st_sb t)) (sb_pending (st_sb t)))"

lemma flags_ok_later: "flags_ok l P log now readers pending \<Longrightarrow> now \<le> now' \<Longrightarrow> flags_ok l P log now' readers pending"
  unfolding flags_ok_def word_le_nat_alt by fastforce

lemma release_pending_ok:
  assumes "flags_ok l (pending_fragments sb) log now readers pending" "tick \<le> now"
    and "release_pending sb tick pending readers = (readers', pending')"
  shows "flags_ok l (pending_fragments sb) log now readers' pending'"
  using assms
proof (induction sb tick pending readers rule: release_pending.induct)
  case (2 sb tick p rest readers)
  show ?case
  proof (cases "pf_ready_tick p \<le> tick")
    case True
    let ?F = "set (sb_fragments sb (pf_start_fragment p) (pf_fragment_count p))"
    have F: "?F = pending_fragments sb p" by (simp add: pending_fragments_def)
    have ready: "unat (pf_ready_tick p) \<le> unat now" using True 2(3) by (simp add: word_le_nat_alt)
    have "flags_ok l (pending_fragments sb) log now (readers \<union> ?F) rest"
      using 2(2) ready unfolding flags_ok_def F by (fastforce simp: disjoint_iff)
    with 2 True show ?thesis by simp
  next
    case False
    with 2 show ?thesis by auto
  qed
qed auto

lemma sb_advance_trace:
  assumes "trace_ok t"
  shows "trace_ok (t\<lparr>st_sb := sb_advance_to (st_sb t) tick, st_now := max (st_now t) tick\<rparr>)"
proof -
  obtain readers pending where
    r: "release_pending (st_sb t) tick (sb_pending (st_sb t)) (sb_reader_flags (st_sb t)) = (readers, pending)" by fastforce
  have sb: "sb_advance_to (st_sb t) tick = (st_sb t)\<lparr>sb_reader_flags := readers, sb_pending := pending\<rparr>"
    by (simp add: sb_advance_to_def r)
  let ?l = "unat (sb_read_latency (st_sb t))" and ?log = "\<lambda>f. accesses_of f (st_log t)"
  have "flags_ok ?l (pending_fragments (st_sb t)) ?log (max (st_now t) tick) (sb_reader_flags (st_sb t)) (sb_pending (st_sb t))"
  proof (rule flags_ok_later)
    show "flags_ok ?l (pending_fragments (st_sb t)) ?log (st_now t) (sb_reader_flags (st_sb t)) (sb_pending (st_sb t))"
      using assms by (simp add: trace_ok_def Let_def)
  qed simp
  from release_pending_ok [OF this _ r]
  have "flags_ok ?l (pending_fragments (st_sb t)) ?log (max (st_now t) tick) readers pending" by simp
  then show ?thesis
    using assms unfolding trace_ok_def Let_def sb by (simp add: pending_fragments_cong(2) [of "(st_sb t)\<lparr>sb_reader_flags := readers, sb_pending := pending\<rparr>" "st_sb t"])
qed

lemma accesses_of_Cons:
  "accesses_of f ((a, F, t) # log) = (if f \<in> F then (a, t) # accesses_of f log else accesses_of f log)"
  by (simp add: accesses_of_def)

lemma find_None_all: "find P xs = None \<longleftrightarrow> (\<forall>x\<in>set xs. \<not> P x)"
  by (induction xs) auto

lemma sb_admit_cases:
  assumes "sb_admit sb r tick = (sb', Ok (Ok ()))" "fr_check r" "fr_update r"
  shows "if fr_access r = L0cWrite then covered_fragments sb r \<inter> sb_writer_flags sb = {} \<and>
      (\<exists>p. sb' = sb\<lparr>sb_writer_flags := sb_writer_flags sb \<union> covered_fragments sb r, sb_pending := sb_pending sb @ [p]\<rparr> \<and>
        pending_fragments sb p = covered_fragments sb r \<and> unat (pf_ready_tick p) = unat tick + unat (sb_read_latency sb))
    else covered_fragments sb r \<subseteq> sb_reader_flags sb \<and>
      sb' = sb\<lparr>sb_reader_flags := sb_reader_flags sb - covered_fragments sb r,
        sb_writer_flags := sb_writer_flags sb - covered_fragments sb r\<rparr>"
proof -
  obtain start count where f: "request_fragments r = (start, count)" by fastforce
  have c: "covered_fragments sb r = set (sb_fragments sb start count)" by (simp add: covered_fragments_def f)
  have b: "sb_blocked_by sb r = None" using assms(1) by (auto simp: sb_admit_def split: option.splits)
  show ?thesis
  proof (cases "fr_access r")
    case L0cWrite
    have free: "covered_fragments sb r \<inter> sb_writer_flags sb = {}"
      using b assms(2) L0cWrite by (auto simp: sb_blocked_by_def f c find_None_all)
    obtain ready where ready: "checked_add tick (ucast (sb_read_latency sb)) = Some ready"
      using assms b L0cWrite by (auto simp: sb_admit_def f Let_def split: option.splits)
    have "unat (ucast (sb_read_latency sb) :: u64) = unat (sb_read_latency sb)"
      unfolding unsigned_ucast_eq by (rule take_bit_nat_eq_self, rule order_less_le_trans [OF unsigned_less]) simp
    with checked_add_unat [OF ready] have "unat ready = unat tick + unat (sb_read_latency sb)" by simp
    then show ?thesis
      using assms b L0cWrite free ready
      by (auto simp: sb_admit_def f Let_def c pending_fragments_def)
  next
    case L0cRead
    have "covered_fragments sb r \<subseteq> sb_reader_flags sb"
      using b assms(2) L0cRead by (auto simp: sb_blocked_by_def f c find_None_all)
    with assms b L0cRead show ?thesis by (auto simp: sb_admit_def f Let_def c)
  qed
qed

lemma sb_admit_trace:
  assumes ok: "trace_ok t" and adm: "sb_admit (st_sb t) r tick = (sb', Ok (Ok ()))" and up: "fr_check r" "fr_update r"
  shows "trace_ok (t\<lparr>st_sb := sb',
    st_log := (fr_access r, covered_fragments sb' r, if fr_access r = L0cWrite then tick else st_now t) # st_log t\<rparr>)"
proof -
  let ?sb = "st_sb t" and ?F = "covered_fragments (st_sb t) r" and ?log = "\<lambda>f. accesses_of f (st_log t)"
  let ?l = "unat (sb_read_latency (st_sb t))"
  have log: "\<forall>f. alternating ?l (?log f) \<and> (f \<in> sb_writer_flags ?sb \<longleftrightarrow> (\<exists>u rest. ?log f = (L0cWrite, u) # rest))"
    and flags: "flags_ok ?l (pending_fragments ?sb) ?log (st_now t) (sb_reader_flags ?sb) (sb_pending ?sb)"
    using ok by (simp_all add: trace_ok_def Let_def)
  show ?thesis
  proof (cases "fr_access r")
    case L0cWrite
    from sb_admit_cases [OF adm up] L0cWrite obtain p where free: "?F \<inter> sb_writer_flags ?sb = {}"
      and sb': "sb' = ?sb\<lparr>sb_writer_flags := sb_writer_flags ?sb \<union> ?F, sb_pending := sb_pending ?sb @ [p]\<rparr>"
      and p: "pending_fragments ?sb p = ?F" "unat (pf_ready_tick p) = unat tick + ?l" by auto
    have c: "covered_fragments sb' = covered_fragments ?sb" "pending_fragments sb' = pending_fragments ?sb"
      using pending_fragments_cong [of sb' ?sb] by (simp_all add: sb')
    have last: "?log f = [] \<or> (\<exists>u rest. ?log f = (L0cRead, u) # rest)" if "f \<in> ?F" for f
    proof (cases "?log f")
      case (Cons e rest)
      then show ?thesis using that free log by (cases e; cases "fst e") auto
    qed simp
    have alt: "alternating ?l ((L0cWrite, tick) # ?log f)" if "f \<in> ?F" for f
      using last [OF that] log [THEN spec, of f] by auto
    have other: "f \<notin> ?F" if "f \<in> sb_reader_flags ?sb \<or> (\<exists>q\<in>set (sb_pending ?sb). f \<in> pending_fragments ?sb q)" for f
      using that flags log free unfolding flags_ok_def by blast
    have "flags_ok ?l (pending_fragments ?sb) (\<lambda>f. accesses_of f ((L0cWrite, ?F, tick) # st_log t)) (st_now t)
        (sb_reader_flags ?sb) (sb_pending ?sb @ [p])"
      using flags other p unfolding flags_ok_def by (auto simp: accesses_of_Cons sorted_wrt_append disjoint_iff)
    then show ?thesis
      using log alt unfolding trace_ok_def Let_def by (auto simp: L0cWrite sb' accesses_of_Cons c [unfolded sb'])
  next
    case L0cRead
    from sb_admit_cases [OF adm up] L0cRead have rd: "?F \<subseteq> sb_reader_flags ?sb"
      and sb': "sb' = ?sb\<lparr>sb_reader_flags := sb_reader_flags ?sb - ?F, sb_writer_flags := sb_writer_flags ?sb - ?F\<rparr>" by auto
    have c: "covered_fragments sb' = covered_fragments ?sb" "pending_fragments sb' = pending_fragments ?sb"
      using pending_fragments_cong [of sb' ?sb] by (simp_all add: sb')
    have alt: "alternating ?l ((L0cRead, st_now t) # ?log f)" if "f \<in> ?F" for f
    proof -
      have "f \<in> sb_reader_flags ?sb" using that rd by blast
      with flags [unfolded flags_ok_def, THEN conjunct1] obtain u rest where
        "?log f = (L0cWrite, u) # rest" "unat u + ?l \<le> unat (st_now t)" by blast
      then show ?thesis using log [THEN spec, of f] by simp
    qed
    have other: "f \<notin> ?F" if "q \<in> set (sb_pending ?sb)" "f \<in> pending_fragments ?sb q" for f q
      using that flags rd unfolding flags_ok_def by blast
    have "flags_ok ?l (pending_fragments ?sb) (\<lambda>f. accesses_of f ((L0cRead, ?F, st_now t) # st_log t)) (st_now t)
        (sb_reader_flags ?sb - ?F) (sb_pending ?sb)"
      using flags other unfolding flags_ok_def by (auto simp: accesses_of_Cons)
    then show ?thesis
      using log alt unfolding trace_ok_def Let_def by (auto simp: L0cRead sb' accesses_of_Cons c [unfolded sb'])
  qed
qed

lemma sb_step_trace: "trace_ok t \<Longrightarrow> sb_step t oper = Ok t' \<Longrightarrow> trace_ok t'"
proof (cases oper)
  case (SbAdmit r tick)
  assume ok: "trace_ok t" and st: "sb_step t oper = Ok t'"
  obtain sb res where adm: "sb_admit (st_sb t) r tick = (sb, res)" by fastforce
  have same: "sb = st_sb t" if "res = Ok (Err b)" for b
    using adm that by (auto simp: sb_admit_def Let_def split: option.splits if_splits l0c_access.splits prod.splits)
  have plain: "sb = st_sb t" if "res = Ok (Ok ())" "\<not> (fr_check r \<and> fr_update r)"
    using adm that by (auto simp: sb_admit_def split: option.splits)
  show "trace_ok t'"
  proof (cases "\<exists>b. res = Ok (Err b)")
    case True
    with same st ok adm show ?thesis by (auto simp: SbAdmit)
  next
    case False
    then have res: "res = Ok (Ok ())" using st adm by (auto simp: SbAdmit split: sum.splits)
    show ?thesis
    proof (cases "fr_check r \<and> fr_update r")
      case True
      with sb_admit_trace [OF ok] adm st show ?thesis by (auto simp: SbAdmit res)
    next
      case False
      with plain res ok st adm show ?thesis by (auto simp: SbAdmit)
    qed
  qed
next
  case (SbAdvance tick)
  assume "trace_ok t" "sb_step t oper = Ok t'"
  then show "trace_ok t'" using sb_advance_trace by (auto simp: SbAdvance)
qed

lemma sb_run_trace: "trace_ok t \<Longrightarrow> sb_run t ops = Ok t' \<Longrightarrow> trace_ok t'"
  by (induction ops arbitrary: t) (auto simp: and_then_Ok dest: sb_step_trace)

lemma sb_step_latency:
  "sb_step t oper = Ok t' \<Longrightarrow> sb_read_latency (st_sb t') = sb_read_latency (st_sb t)"
  by (cases oper)
    (auto simp: sb_advance_to_def sb_admit_def Let_def split: prod.splits sum.splits option.splits if_splits l0c_access.splits)

lemma sb_run_latency: "sb_run t ops = Ok t' \<Longrightarrow> sb_read_latency (st_sb t') = sb_read_latency (st_sb t)"
  by (induction ops arbitrary: t) (auto simp: and_then_Ok dest: sb_step_latency)

text \<open>C36. The unit flags hand every fragment back and forth: in any run of the scoreboard the admitted updating accesses of a
  fragment alternate, beginning with a write, and each read comes at least the read latency after the write it consumes.
  A fragment is closed to writers exactly while its last write is unread, and only such fragments are readable.\<close>

theorem unit_flag_handoff:
  assumes "scoreboard_new total_bytes latency = Ok sb" and "sb_run \<lparr>st_sb = sb, st_now = 0, st_log = []\<rparr> ops = Ok t"
  shows "alternating (unat latency) (accesses_of f (st_log t)) \<and>
    (f \<in> sb_writer_flags (st_sb t) \<longleftrightarrow> (\<exists>tick rest. accesses_of f (st_log t) = (L0cWrite, tick) # rest)) \<and>
    sb_reader_flags (st_sb t) \<subseteq> sb_writer_flags (st_sb t)"
proof -
  have sb: "sb_read_latency sb = latency" "sb_writer_flags sb = {}" "sb_reader_flags sb = {}" "sb_pending sb = []"
    using assms(1) by (auto simp: scoreboard_new_def Let_def split: if_splits)
  have "trace_ok \<lparr>st_sb = sb, st_now = 0, st_log = []\<rparr>" by (simp add: trace_ok_def sb accesses_of_def flags_ok_def)
  from sb_run_trace [OF this assms(2)] have ok: "trace_ok t" .
  have l: "sb_read_latency (st_sb t) = latency" using sb_run_latency [OF assms(2)] sb by simp
  have "sb_reader_flags (st_sb t) \<subseteq> sb_writer_flags (st_sb t)" using ok by (fastforce simp: trace_ok_def flags_ok_def Let_def)
  with ok l show ?thesis by (simp add: trace_ok_def Let_def)
qed

definition handoff_write :: fragment_request where
  "handoff_write = \<lparr>fr_address = 0, fr_bytes = 512, fr_access = L0cWrite, fr_check = True, fr_update = True\<rparr>"

theorem unit_flag_handoff_witness:
  "\<exists>t. sb_run \<lparr>st_sb = \<lparr>sb_fragment_count = 2, sb_read_latency = 12, sb_writer_flags = {}, sb_reader_flags = {}, sb_pending = []\<rparr>,
      st_now = 0, st_log = []\<rparr> [SbAdmit handoff_write 5, SbAdvance 17, SbAdmit (handoff_write\<lparr>fr_access := L0cRead\<rparr>) 17] = Ok t \<and>
    accesses_of 0 (st_log t) = [(L0cRead, 17), (L0cWrite, 5)] \<and> alternating 12 (accesses_of 0 (st_log t))"
proof -
  let ?sb = "\<lparr>sb_fragment_count = 2, sb_read_latency = 12, sb_writer_flags = {}, sb_reader_flags = {}, sb_pending = []\<rparr>"
  have new: "scoreboard_new 1024 12 = Ok ?sb" by (simp add: scoreboard_new_def l0c_fragment_bytes_def)
  obtain t where run: "sb_run \<lparr>st_sb = ?sb, st_now = 0, st_log = []\<rparr>
      [SbAdmit handoff_write 5, SbAdvance 17, SbAdmit (handoff_write\<lparr>fr_access := L0cRead\<rparr>) 17] = Ok t"
    and log: "accesses_of 0 (st_log t) = [(L0cRead, 17), (L0cWrite, 5)]"
    by (simp add: handoff_write_def sb_admit_def sb_blocked_by_def request_fragments_def l0c_fragment_bytes_def sb_fragments_def
        checked_add_def sb_advance_to_def covered_fragments_def accesses_of_def max_def)
  from unit_flag_handoff [OF new run] have "alternating 12 (accesses_of 0 (st_log t))" by simp
  with run log show ?thesis by blast
qed

section \<open>Reads are answered in order\<close>

datatype l0_op = L0Send u64 read_request | L0Poll u64 u32 u8 u32

record l0_trace =
  lt_memory :: l0c
  lt_sent :: "u32 list"
  lt_done :: "u32 list"

fun l0_step :: "l0_trace \<Rightarrow> l0_op \<Rightarrow> l0_trace" where
  "l0_step t (L0Send tick request) =
     (case send_request (l0_read_port (lt_memory t)) tick request of
        (port, result) \<Rightarrow> t\<lparr>lt_memory := (lt_memory t)\<lparr>l0_read_port := port\<rparr>,
          lt_sent := (if result = Ok True then lt_sent t @ [rr_id request] else lt_sent t)\<rparr>)"
| "l0_step t (L0Poll tick rid bank_count latency) =
     (case poll_read (lt_memory t) tick rid bank_count latency of
        (m, result) \<Rightarrow> t\<lparr>lt_memory := m,
          lt_done := (case result of Ok (Ok _) \<Rightarrow> lt_done t @ [rid] | _ \<Rightarrow> lt_done t)\<rparr>)"

definition port_ids :: "read_port \<Rightarrow> u32 list" where
  "port_ids p = map rr_id (rp_admitted p) @ map (\<lambda>w. rr_id (rt_request w)) (rp_waiting p)"

lemma send_request_ids:
  assumes "send_request p tick r = (p', result)" "length (rp_waiting p) \<le> 2"
  shows "port_ids p' = (if result = Ok True then port_ids p @ [rr_id r] else port_ids p) \<and> length (rp_waiting p') \<le> 2"
  using assms by (auto simp: send_request_def port_ids_def request_ready_def read_transport_capacity_def
      split: sum.splits if_splits option.splits)

lemma rp_arbitrate_ids:
  assumes "rp_arbitrate p banks n = (p', result)"
  shows "port_ids p' = port_ids p \<and> length (rp_waiting p') \<le> length (rp_waiting p)"
  using assms
  by (cases "rp_waiting p")
    (auto simp: rp_arbitrate_def port_ids_def head_conflict_def Let_def split: sum.splits if_splits option.splits)

text \<open>A read is admitted only to banks that the Cube leaves free at the tick.\<close>

lemma rp_arbitrate_free:
  assumes "rp_arbitrate p banks n = (p', result)" "rp_admitted p' \<noteq> rp_admitted p"
  obtains w rest mask where "rp_waiting p = w # rest" "bank_mask (rt_request w) n = Ok mask"
    "rb_occupied_mask banks AND mask = 0" "rt_ready_tick w \<le> rb_tick banks"
  using assms
  by (cases "rp_waiting p")
    (auto simp: rp_arbitrate_def head_conflict_def Let_def and_then_Ok rb_conflicts_def split: sum.splits if_splits option.splits)

lemma complete_read_ids:
  assumes "complete_read p rid tick latency sb = (p', sb', result)"
  shows "rp_waiting p' = rp_waiting p \<and>
    port_ids p = (case result of Ok (Ok _) \<Rightarrow> rid # port_ids p' | _ \<Rightarrow> port_ids p')"
  using assms
  by (auto simp: complete_read_def Let_def port_ids_def split: sum.splits if_splits option.splits list.splits prod.splits)

lemma poll_read_ids:
  assumes "poll_read m tick rid n latency = (m', result)" "length (rp_waiting (l0_read_port m)) \<le> 2"
  shows "length (rp_waiting (l0_read_port m')) \<le> 2 \<and>
    port_ids (l0_read_port m) = (case result of Ok (Ok _) \<Rightarrow> rid # port_ids (l0_read_port m') | _ \<Rightarrow> port_ids (l0_read_port m'))"
proof (cases "rb_advance_to (l0_read_banks m) tick")
  case (Inl e)
  with assms show ?thesis by (auto simp: poll_read_def)
next
  case (Inr banks)
  obtain port r where arb: "rp_arbitrate (l0_read_port m) banks n = (port, r)" by fastforce
  note a = rp_arbitrate_ids [OF arb]
  show ?thesis
  proof (cases r)
    case (Inl e)
    with assms Inr arb a show ?thesis by (auto simp: poll_read_def Let_def)
  next
    case ok: (Inr c)
    obtain port' sb' res where c: "complete_read port rid tick latency (l0_scoreboard m) = (port', sb', res)"
      by (cases "complete_read port rid tick latency (l0_scoreboard m)") auto
    have "m' = m\<lparr>l0_read_banks := banks, l0_read_port := port', l0_scoreboard := sb'\<rparr>" "result = res"
      using assms(1) Inr arb ok c by (simp_all add: poll_read_def Let_def)
    with complete_read_ids [OF c] a assms(2) show ?thesis by (simp split: sum.splits)
  qed
qed

lemma l0_step_ids:
  assumes "lt_sent t = lt_done t @ port_ids (l0_read_port (lt_memory t)) \<and> length (rp_waiting (l0_read_port (lt_memory t))) \<le> 2"
  shows "lt_sent (l0_step t oper) = lt_done (l0_step t oper) @ port_ids (l0_read_port (lt_memory (l0_step t oper))) \<and>
    length (rp_waiting (l0_read_port (lt_memory (l0_step t oper)))) \<le> 2"
proof (cases oper)
  case (L0Send tick r)
  obtain p' res where s: "send_request (l0_read_port (lt_memory t)) tick r = (p', res)" by fastforce
  from send_request_ids [OF s] assms show ?thesis by (auto simp: L0Send s)
next
  case (L0Poll tick rid n latency)
  obtain m' res where s: "poll_read (lt_memory t) tick rid n latency = (m', res)" by fastforce
  from poll_read_ids [OF s] assms show ?thesis by (auto simp: L0Poll s split: sum.splits)
qed

text \<open>C38. The read port of L0C answers reads in the order in which it accepted them, and loses none: the accepted requests are
  those completed, those admitted to the banks and those in transport, in this order, and at most two are in transport.\<close>

theorem l0c_reads_in_order:
  fixes m :: l0c and ops
  defines "t \<equiv> foldl l0_step \<lparr>lt_memory = m\<lparr>l0_read_port := rp_default\<rparr>, lt_sent = [], lt_done = []\<rparr> ops"
  shows "lt_sent t = lt_done t @ map rr_id (rp_admitted (l0_read_port (lt_memory t))) @
      map (\<lambda>w. rr_id (rt_request w)) (rp_waiting (l0_read_port (lt_memory t))) \<and>
    length (rp_waiting (l0_read_port (lt_memory t))) \<le> 2"
proof -
  have "lt_sent (foldl l0_step t ops) = lt_done (foldl l0_step t ops) @ port_ids (l0_read_port (lt_memory (foldl l0_step t ops))) \<and>
      length (rp_waiting (l0_read_port (lt_memory (foldl l0_step t ops)))) \<le> 2"
    if "lt_sent t = lt_done t @ port_ids (l0_read_port (lt_memory t)) \<and> length (rp_waiting (l0_read_port (lt_memory t))) \<le> 2" for t
    using that by (induction ops arbitrary: t) (simp_all add: l0_step_ids)
  from this [of "\<lparr>lt_memory = m\<lparr>l0_read_port := rp_default\<rparr>, lt_sent = [], lt_done = []\<rparr>"] show ?thesis
    by (simp add: t_def port_ids_def rp_default_def)
qed

end
