(* ===== verification/Exact_Limbs.thy ===== *)
theory Exact_Limbs
  imports Rust_Std
begin

text \<open>
  The magnitudes of the Cube accumulator, \<open>src/src/sim/c220/cube/numeric/exact.rs\<close>: arrays of nine \<open>u64\<close> limbs,
  least significant first, with the carry and borrow loops, the comparison, and the bit queries of the rounding. Every
  operation is the one on the natural number the limbs stand for.
\<close>

unbundle bit_operations_syntax

section \<open>Limbs\<close>

type_synonym limbs = "u64 list"

definition exact_limbs :: nat where
  "exact_limbs = 9"

definition magnitude_value :: "limbs \<Rightarrow> nat" where
  "magnitude_value value = horner_sum unat (2 ^ 64) value"

lemma magnitude_value_simps [simp]:
  "magnitude_value [] = 0" "magnitude_value (x # xs) = unat x + 2 ^ 64 * magnitude_value xs"
  by (simp_all add: magnitude_value_def)

lemma magnitude_value_append:
  "magnitude_value (xs @ ys) = magnitude_value xs + 2 ^ (64 * length xs) * magnitude_value ys"
  by (simp add: magnitude_value_def horner_sum_append power_mult)

lemma magnitude_value_less: "magnitude_value xs < 2 ^ (64 * length xs)"
proof (induction xs)
  case (Cons x xs)
  then have "magnitude_value xs + 1 \<le> 2 ^ (64 * length xs)" by simp
  then have "2 ^ 64 * (magnitude_value xs + 1) \<le> 2 ^ 64 * 2 ^ (64 * length xs)" by (rule mult_le_mono2)
  moreover have "unat x < 2 ^ 64" using unat_u64_less [of x] by simp
  ultimately show ?case by (simp add: power_add)
qed simp

lemma bit_magnitude_value:
  "bit (magnitude_value xs) i \<longleftrightarrow> i div 64 < length xs \<and> bit (xs ! (i div 64)) (i mod 64)"
proof (induction xs arbitrary: i)
  case (Cons x xs)
  let ?v = "magnitude_value (x # xs)"
  have less: "unat x < 2 ^ 64" using unat_u64_less [of x] by simp
  show ?case
  proof (cases "i < 64")
    case True
    then have "bit ?v i = bit (take_bit 64 ?v) i" by (simp add: bit_take_bit_iff)
    also have "take_bit 64 ?v = unat x" using less by (simp add: take_bit_eq_mod)
    finally show ?thesis using True by (simp add: bit_unsigned_iff)
  next
    case False
    then have d: "i div 64 = Suc ((i - 64) div 64)" "i mod 64 = (i - 64) mod 64"
      by (simp_all add: le_div_geq le_mod_geq)
    have "bit ?v i = bit (drop_bit 64 ?v) (i - 64)" using False by (simp add: bit_drop_bit_eq)
    also have "drop_bit 64 ?v = magnitude_value xs" using less by (simp add: drop_bit_eq_div)
    finally show ?thesis using Cons.IH d by simp
  qed
qed simp

lemma nat_less_exp_iff: "(v :: nat) < 2 ^ n \<longleftrightarrow> (\<forall>j\<ge>n. \<not> bit v j)"
proof
  assume "v < 2 ^ n"
  then show "\<forall>j\<ge>n. \<not> bit v j"
    by (metis bit_take_bit_iff leD take_bit_nat_eq_self)
next
  assume "\<forall>j\<ge>n. \<not> bit v j"
  then have "take_bit n v = v" by (intro bit_eqI) (metis bit_take_bit_iff not_less)
  then show "v < 2 ^ n" using take_bit_nat_less_exp [of n v] by simp
qed

lemma nat_bit_le: "bit (v :: nat) h \<Longrightarrow> 2 ^ h \<le> v"
  by (metis linorder_not_less nat_less_exp_iff order_refl)

section \<open>Addition, subtraction and comparison\<close>

definition u64_overflowing_add :: "u64 \<Rightarrow> u64 \<Rightarrow> u64 \<times> bool" where
  "u64_overflowing_add a b = (a + b, 2 ^ 64 \<le> uint a + uint b)"

definition u64_overflowing_sub :: "u64 \<Rightarrow> u64 \<Rightarrow> u64 \<times> bool" where
  "u64_overflowing_sub a b = (a - b, uint a < uint b)"

text \<open>The carry and borrow loops of \<open>add_magnitudes\<close> and \<open>subtract_magnitudes\<close>.\<close>

fun carry_loop :: "bool \<Rightarrow> limbs \<Rightarrow> limbs \<Rightarrow> limbs \<times> bool" where
  "carry_loop carry (destination # ds) (source # ss) =
     (let (sum, first_carry) = u64_overflowing_add destination source;
          (sum, second_carry) = u64_overflowing_add sum (of_bool carry);
          (rest, carry) = carry_loop (first_carry \<or> second_carry) ds ss
      in (sum # rest, carry))"
| "carry_loop carry ds _ = (ds, carry)"

fun borrow_loop :: "bool \<Rightarrow> limbs \<Rightarrow> limbs \<Rightarrow> limbs \<times> bool" where
  "borrow_loop borrow (destination # ds) (source # ss) =
     (let (difference, first_borrow) = u64_overflowing_sub destination source;
          (difference, second_borrow) = u64_overflowing_sub difference (of_bool borrow);
          (rest, borrow) = borrow_loop (first_borrow \<or> second_borrow) ds ss
      in (difference # rest, borrow))"
| "borrow_loop borrow ds _ = (ds, borrow)"

datatype ordering = Less | Equal | Greater

fun lexicographic :: "limbs \<Rightarrow> limbs \<Rightarrow> ordering" where
  "lexicographic (x # xs) (y # ys) = (if x < y then Less else if y < x then Greater else lexicographic xs ys)"
| "lexicographic [] [] = Equal"
| "lexicographic [] (y # ys) = Less"
| "lexicographic (x # xs) [] = Greater"

definition compare_magnitudes :: "limbs \<Rightarrow> limbs \<Rightarrow> ordering" where
  "compare_magnitudes first second = lexicographic (rev first) (rev second)"

lemma uint_le_nat: "(18446744073709551616 \<le> uint a + uint b) \<longleftrightarrow> 18446744073709551616 \<le> unat a + unat b" for a b :: u64
proof -
  have "(18446744073709551616 \<le> uint a + uint b) \<longleftrightarrow> int 18446744073709551616 \<le> int (unat a + unat b)" by simp
  then show ?thesis by (simp only: of_nat_le_iff)
qed

lemma uint_less_nat: "uint a < uint b \<longleftrightarrow> unat a < unat b" for a b :: u64
proof -
  have "uint a < uint b \<longleftrightarrow> int (unat a) < int (unat b)" by simp
  then show ?thesis by (simp only: of_nat_less_iff)
qed

lemma overflowing_add_carry:
  "u64_overflowing_add a b = (s, c) \<Longrightarrow> unat s + 18446744073709551616 * of_bool c = unat a + unat b"
  using uint_le_nat [of a b] unat_u64_less [of a] unat_u64_less [of b]
  by (auto simp: u64_overflowing_add_def unat_word_ariths le_mod_geq)

lemma overflowing_sub_borrow:
  "u64_overflowing_sub a b = (s, c) \<Longrightarrow> unat s + unat b = unat a + 18446744073709551616 * of_bool c"
  using uint_less_nat [of a b] unat_u64_less [of a] unat_u64_less [of b]
  by (auto simp: u64_overflowing_sub_def unat_sub_if_size word_size)

lemma add_step:
  assumes "u64_overflowing_add a b = (s, c1)" "u64_overflowing_add s (of_bool c) = (t, c2)"
  shows "unat t + 2 ^ 64 * of_bool (c1 \<or> c2) = unat a + unat b + of_bool c"
  using overflowing_add_carry [OF assms(1)] overflowing_add_carry [OF assms(2)]
    unat_u64_less [of a] unat_u64_less [of b] unat_u64_less [of s] unat_u64_less [of t]
  by (cases c; cases c1; cases c2) auto

lemma sub_step:
  assumes "u64_overflowing_sub a b = (s, c1)" "u64_overflowing_sub s (of_bool c) = (t, c2)"
  shows "unat t + unat b + of_bool c = unat a + 2 ^ 64 * of_bool (c1 \<or> c2)"
  using overflowing_sub_borrow [OF assms(1)] overflowing_sub_borrow [OF assms(2)]
    unat_u64_less [of a] unat_u64_less [of b] unat_u64_less [of s] unat_u64_less [of t]
  by (cases c; cases c1; cases c2) auto

lemma carry_loop_value:
  "length ds = length ss \<Longrightarrow> carry_loop c ds ss = (rs, out) \<Longrightarrow>
     length rs = length ds \<and>
     magnitude_value rs + 2 ^ (64 * length ds) * of_bool out = magnitude_value ds + magnitude_value ss + of_bool c"
proof (induction ds ss arbitrary: c rs out rule: list_induct2)
  case (Cons d ds s ss)
  obtain x c1 where 1: "u64_overflowing_add d s = (x, c1)" by fastforce
  obtain y c2 where 2: "u64_overflowing_add x (of_bool c) = (y, c2)" by fastforce
  obtain zs o' where 3: "carry_loop (c1 \<or> c2) ds ss = (zs, o')" by fastforce
  have r: "rs = y # zs" "out = o'" using Cons.prems 1 2 3 by simp_all
  from Cons.IH [OF 3] have l: "length zs = length ds"
    and v: "magnitude_value zs + 2 ^ (64 * length ds) * of_bool o' = magnitude_value ds + magnitude_value ss + of_bool (c1 \<or> c2)"
    by simp_all
  from arg_cong [OF v, of "(*) (2 ^ 64)"] add_step [OF 1 2] l Cons.hyps show ?case unfolding r
    by (simp add: power_add algebra_simps)
qed simp

lemma borrow_loop_value:
  "length ds = length ss \<Longrightarrow> borrow_loop c ds ss = (rs, out) \<Longrightarrow>
     length rs = length ds \<and>
     magnitude_value rs + magnitude_value ss + of_bool c = magnitude_value ds + 2 ^ (64 * length ds) * of_bool out"
proof (induction ds ss arbitrary: c rs out rule: list_induct2)
  case (Cons d ds s ss)
  obtain x c1 where 1: "u64_overflowing_sub d s = (x, c1)" by fastforce
  obtain y c2 where 2: "u64_overflowing_sub x (of_bool c) = (y, c2)" by fastforce
  obtain zs o' where 3: "borrow_loop (c1 \<or> c2) ds ss = (zs, o')" by fastforce
  have r: "rs = y # zs" "out = o'" using Cons.prems 1 2 3 by simp_all
  from Cons.IH [OF 3] have l: "length zs = length ds"
    and v: "magnitude_value zs + magnitude_value ss + of_bool (c1 \<or> c2) = magnitude_value ds + 2 ^ (64 * length ds) * of_bool o'"
    by simp_all
  from arg_cong [OF v, of "(*) (2 ^ 64)"] sub_step [OF 1 2] l Cons.hyps show ?case unfolding r
    by (simp add: power_add algebra_simps)
qed simp

lemma carry_loop_exact:
  assumes "length ds = length ss" "carry_loop False ds ss = (rs, out)"
  shows "length rs = length ds \<and> (out \<longleftrightarrow> 2 ^ (64 * length ds) \<le> magnitude_value ds + magnitude_value ss) \<and>
    (\<not> out \<longrightarrow> magnitude_value rs = magnitude_value ds + magnitude_value ss)"
  using carry_loop_value [OF assms] magnitude_value_less [of rs] by (cases out) auto

lemma borrow_loop_exact:
  assumes "length ds = length ss" "borrow_loop False ds ss = (rs, out)"
  shows "length rs = length ds \<and> (out \<longleftrightarrow> magnitude_value ds < magnitude_value ss) \<and>
    (\<not> out \<longrightarrow> magnitude_value rs = magnitude_value ds - magnitude_value ss)"
  using borrow_loop_value [OF assms] magnitude_value_less [of rs] by (cases out) auto

definition order_of :: "nat \<Rightarrow> nat \<Rightarrow> ordering" where
  "order_of m n = (if m < n then Less else if n < m then Greater else Equal)"

lemma leading_limb:
  assumes "a < b" "v < (B :: nat)"
  shows "v + B * a < w + B * b"
proof -
  have "v + B * a < B * Suc a" using assms(2) by simp
  also have "\<dots> \<le> B * b" using assms(1) by (intro mult_le_mono2) simp
  finally show ?thesis by simp
qed

lemma lexicographic_value:
  "length xs = length ys \<Longrightarrow> lexicographic xs ys = order_of (magnitude_value (rev xs)) (magnitude_value (rev ys))"
proof (induction xs ys rule: list_induct2)
  case (Cons x xs y ys)
  let ?B = "2 ^ (64 * length xs) :: nat"
  have v: "magnitude_value (rev (x # xs)) = magnitude_value (rev xs) + ?B * unat x"
    "magnitude_value (rev (y # ys)) = magnitude_value (rev ys) + ?B * unat y"
    using Cons.hyps by (simp_all add: magnitude_value_append)
  have b: "magnitude_value (rev xs) < ?B" "magnitude_value (rev ys) < ?B"
    using magnitude_value_less [of "rev xs"] magnitude_value_less [of "rev ys"] Cons.hyps by simp_all
  consider "x < y" | "y < x" | "x = y" by fastforce
  then show ?case
  proof cases
    case 1
    with leading_limb [OF _ b(1), of "unat x" "unat y" "magnitude_value (rev ys)"] show ?thesis
      unfolding v by (simp add: order_of_def word_less_nat_alt)
  next
    case 2
    with leading_limb [OF _ b(2), of "unat y" "unat x" "magnitude_value (rev xs)"] show ?thesis
      unfolding v by (auto simp: order_of_def word_less_nat_alt)
  next
    case 3
    with Cons.IH show ?thesis unfolding v by (simp add: order_of_def)
  qed
qed (simp add: order_of_def)

lemma compare_magnitudes_value:
  "length xs = length ys \<Longrightarrow> compare_magnitudes xs ys = order_of (magnitude_value xs) (magnitude_value ys)"
  using lexicographic_value [of "rev xs" "rev ys"] by (simp add: compare_magnitudes_def)

section \<open>Bit queries\<close>

definition highest_bit :: "limbs \<Rightarrow> nat option" where
  "highest_bit value =
     map_option (\<lambda>index. index * 64 + 63 - leading_zeros (value ! index))
       (find (\<lambda>index. value ! index \<noteq> 0) (rev [0..<length value]))"

definition magnitude_bit :: "limbs \<Rightarrow> nat \<Rightarrow> bool" where
  "magnitude_bit value index =
     (if index div 64 < length value then value ! (index div 64) AND push_bit (index mod 64) 1 \<noteq> 0 else False)"

text \<open>Slicing and indexing past the array panic.\<close>

definition any_bits_below :: "limbs \<Rightarrow> nat \<Rightarrow> 'e fault + bool" where
  "any_bits_below value index =
     (let limb_index = index div 64; within = index mod 64 in
      if length value < limb_index then Err Panic
      else if \<exists>limb\<in>set (take limb_index value). limb \<noteq> 0 then Ok True
      else if within = 0 then Ok False
      else if length value \<le> limb_index then Err Panic
      else Ok (value ! limb_index AND (push_bit within 1 - 1) \<noteq> 0))"

definition limb_or_zero :: "limbs \<Rightarrow> nat \<Rightarrow> u64" where
  "limb_or_zero value limb = (if limb < length value then value ! limb else 0)"

definition low_u64_after_shift :: "limbs \<Rightarrow> nat \<Rightarrow> u64" where
  "low_u64_after_shift value shift =
     (let limb = shift div 64; bit = shift mod 64; low = drop_bit bit (limb_or_zero value limb) in
      if bit = 0 then low else low OR push_bit (64 - bit) (limb_or_zero value (limb + 1)))"

lemma magnitude_bit_value: "magnitude_bit value i = bit (magnitude_value value) i"
  by (simp only: magnitude_bit_def bit_magnitude_value bit_iff_and_push_bit_not_eq_0 [symmetric] if_bool_eq_conj) blast

lemma highest_bit_None: "highest_bit value = None \<longleftrightarrow> magnitude_value value = 0"
proof -
  have "magnitude_value value = 0 \<longleftrightarrow> (\<forall>x\<in>set value. x = 0)" by (induction "value") (auto simp: unat_eq_zero)
  then show ?thesis by (force simp: highest_bit_def find_None_iff all_set_conv_all_nth)
qed

lemma find_last:
  assumes "find P (rev [0..<n]) = Some i"
  shows "i < n \<and> P i \<and> (\<forall>j. i < j \<and> j < n \<longrightarrow> \<not> P j)"
  using assms by (induction n) (auto simp: less_Suc_eq split: if_splits)

lemma highest_bit_Some:
  assumes "highest_bit value = Some h"
  shows "2 ^ h \<le> magnitude_value value \<and> magnitude_value value < 2 ^ Suc h \<and> h < 64 * length value"
proof -
  obtain i where f: "find (\<lambda>index. value ! index \<noteq> 0) (rev [0..<length value]) = Some i"
    and h: "h = i * 64 + 63 - leading_zeros (value ! i)"
    using assms by (auto simp: highest_bit_def)
  from find_last [OF f] have i: "i < length value" "value ! i \<noteq> 0"
    and above: "\<And>j. i < j \<Longrightarrow> j < length value \<Longrightarrow> value ! j = 0" by auto
  let ?z = "leading_zeros (value ! i)"
  note lz = leading_zeros_spec [of "value ! i", simplified]
  have "?z \<noteq> 64"
  proof
    assume "?z = 64"
    with lz have "value ! i = 0" by (auto intro!: bit_word_eqI)
    with i show False by simp
  qed
  with lz have z: "?z < 64" and top: "bit (value ! i) (63 - ?z)"
    and over: "\<And>j. j < 64 \<Longrightarrow> 64 - ?z \<le> j \<Longrightarrow> \<not> bit (value ! i) j" by auto
  have h': "h = 64 * i + (63 - ?z)" using h z by simp
  have "h div 64 = i" "h mod 64 = 63 - ?z" unfolding h' by (simp_all del: diff_le_self)
  with i top have "bit (magnitude_value value) h" by (simp add: bit_magnitude_value)
  then have lo: "2 ^ h \<le> magnitude_value value" by (rule nat_bit_le)
  have "\<not> bit (magnitude_value value) j" if "Suc h \<le> j" for j
  proof (cases "j div 64 = i")
    case True
    then have "j = 64 * i + j mod 64" using div_mult_mod_eq [of j 64] by simp
    with that h' z have "64 - ?z \<le> j mod 64" by linarith
    with over [of "j mod 64"] True show ?thesis by (simp add: bit_magnitude_value)
  next
    case False
    have "i \<le> j div 64" using that h' by (auto simp: less_eq_div_iff_mult_less_eq)
    with False above [of "j div 64"] show ?thesis by (auto simp: bit_magnitude_value)
  qed
  then have "magnitude_value value < 2 ^ Suc h" unfolding nat_less_exp_iff by blast
  with lo h' i show ?thesis by auto
qed

lemma limb_split: "r < 64 \<Longrightarrow> (64 * l + r) div 64 = l \<and> (64 * l + r) mod 64 = r" for l r :: nat
  by simp

lemma low_after_shift_value: "low_u64_after_shift value k = word_of_nat (drop_bit k (magnitude_value value))"
proof (rule bit_word_eqI)
  fix j assume "j < LENGTH(64)"
  then have j: "j < 64" by simp
  let ?l = "k div 64" and ?b = "k mod 64"
  have k: "k = 64 * ?l + ?b" by simp
  have rhs: "bit (word_of_nat (drop_bit k (magnitude_value value)) :: u64) j = bit (magnitude_value value) (k + j)"
    using j by (simp add: bit_simps)
  show "bit (low_u64_after_shift value k) j = bit (word_of_nat (drop_bit k (magnitude_value value)) :: u64) j"
  proof (cases "?b + j < 64")
    case True
    have "k + j = 64 * ?l + (?b + j)" using k by linarith
    with limb_split [OF True, of ?l] have "(k + j) div 64 = ?l" "(k + j) mod 64 = ?b + j" by metis+
    then show ?thesis unfolding rhs using True j
      by (auto simp: low_u64_after_shift_def Let_def limb_or_zero_def bit_simps bit_magnitude_value ac_simps)
  next
    case False
    have d: "k + j = 64 * Suc ?l + (?b + j - 64)" and b: "0 < ?b" "?b + j - 64 < 64"
    proof -
      have "?b < 64" by simp
      with False j show "0 < ?b" "?b + j - 64 < 64" by linarith+
      have "k + j = 64 * ?l + (?b + j)" using k by linarith
      also have "\<dots> = 64 * Suc ?l + (?b + j - 64)" using False by simp
      finally show "k + j = 64 * Suc ?l + (?b + j - 64)" .
    qed
    from limb_split [OF b(2), of "Suc ?l"] have "(k + j) div 64 = Suc ?l" "(k + j) mod 64 = ?b + j - 64"
      unfolding d by blast+
    moreover have "64 - ?b \<le> j" "j - (64 - ?b) = ?b + j - 64" using False by linarith+
    ultimately show ?thesis unfolding rhs using False j b
      by (auto simp: low_u64_after_shift_def Let_def limb_or_zero_def bit_simps bit_magnitude_value ac_simps
          dest: bit_imp_le_length)
  qed
qed

lemma any_bits_below_value:
  assumes "i < 64 * length value"
  shows "any_bits_below value i = Ok (magnitude_value value mod 2 ^ i \<noteq> 0)"
proof -
  let ?l = "i div 64" and ?b = "i mod 64"
  have i: "i = 64 * ?l + ?b" by simp
  have l: "?l < length value" using assms by (simp add: less_mult_imp_div_less)
  have bits: "magnitude_value value mod 2 ^ i \<noteq> 0 \<longleftrightarrow> (\<exists>j<i. bit (magnitude_value value) j)"
    unfolding take_bit_eq_mod [symmetric] bit_eq_iff [of _ 0] by (auto simp: bit_take_bit_iff)
  have split: "(\<exists>j<i. bit (magnitude_value value) j) \<longleftrightarrow>
      (\<exists>x\<in>set (take ?l value). x \<noteq> 0) \<or> (\<exists>j<?b. bit (value ! ?l) j)"
  proof
    assume "\<exists>j<i. bit (magnitude_value value) j"
    then obtain j where j: "j < i" "bit (value ! (j div 64)) (j mod 64)" by (auto simp: bit_magnitude_value)
    show "(\<exists>x\<in>set (take ?l value). x \<noteq> 0) \<or> (\<exists>j<?b. bit (value ! ?l) j)"
    proof (cases "j div 64 < ?l")
      case True
      then have "value ! (j div 64) \<in> set (take ?l value)" using l by (auto simp: in_set_conv_nth intro!: exI [of _ "j div 64"])
      with j(2) show ?thesis by (intro disjI1 bexI [of _ "value ! (j div 64)"]) auto
    next
      case False
      with j(1) have "j div 64 = ?l" using div_le_mono [of j i 64] by simp
      moreover from this have "j mod 64 < ?b" using i j(1) div_mult_mod_eq [of j 64] by linarith
      ultimately show ?thesis using j(2) by auto
    qed
  next
    assume "(\<exists>x\<in>set (take ?l value). x \<noteq> 0) \<or> (\<exists>j<?b. bit (value ! ?l) j)"
    then show "\<exists>j<i. bit (magnitude_value value) j"
    proof
      assume "\<exists>x\<in>set (take ?l value). x \<noteq> 0"
      then obtain n where n: "n < ?l" "value ! n \<noteq> 0" using l by (auto simp: in_set_conv_nth)
      then obtain k where k: "k < 64" "bit (value ! n) k" by (auto simp: bit_eq_iff dest: bit_imp_le_length)
      have "64 * n + k < i" using n(1) k(1) i by linarith
      with k n(1) l limb_split [OF k(1), of n] show ?thesis by (auto simp: bit_magnitude_value intro!: exI [of _ "64 * n + k"])
    next
      assume "\<exists>j<?b. bit (value ! ?l) j"
      then obtain j where j: "j < ?b" "bit (value ! ?l) j" by blast
      then have "j < 64" using mod_less_divisor [of 64 i] by linarith
      moreover have "64 * ?l + j < i" using i j(1) by linarith
      ultimately show ?thesis using limb_split [of j ?l] j l
        by (intro exI [of _ "64 * ?l + j"]) (auto simp: bit_magnitude_value)
    qed
  qed
  have "bit (value ! ?l AND (push_bit ?b 1 - 1)) j \<longleftrightarrow> j < ?b \<and> bit (value ! ?l) j" for j
    by (auto simp: bit_simps mask_eq_exp_minus_1 [symmetric] dest: bit_imp_le_length)
  then have and_below: "value ! ?l AND (push_bit ?b 1 - 1) \<noteq> 0 \<longleftrightarrow> (\<exists>j<?b. bit (value ! ?l) j)"
    unfolding bit_eq_iff [of _ 0] by (metis bit_0_eq bot_apply bot_bool_def impossible_bit)
  show ?thesis
    using l unfolding any_bits_below_def Let_def bits split and_below by auto
qed

end
