(* ===== verification/Cube_Formats.thy ===== *)
theory Cube_Formats
  imports Rust_Std
begin

text \<open>
  \<open>src/src/sim/c220/cube/numeric/mod.rs\<close>: the floating-point formats of the Cube unit (half, bfloat16, single), the
  classification and saturation of their words, and the status flags of a slice. A finite word stands for an integer
  multiple of the least subnormal of its format; \<open>float_int\<close> is that integer.
\<close>

unbundle bit_operations_syntax

section \<open>Formats\<close>

definition F16_SIGN :: u16 where "F16_SIGN = 0x8000"
definition F16_EXPONENT :: u16 where "F16_EXPONENT = 0x7c00"
definition F16_FRACTION :: u16 where "F16_FRACTION = 0x03ff"
definition F16_MAX_FINITE :: u16 where "F16_MAX_FINITE = 0x7bff"
definition BF16_SIGN :: u16 where "BF16_SIGN = 0x8000"
definition BF16_EXPONENT :: u16 where "BF16_EXPONENT = 0x7f80"
definition BF16_FRACTION :: u16 where "BF16_FRACTION = 0x007f"
definition BF16_MAX_FINITE :: u16 where "BF16_MAX_FINITE = 0x7f7f"
definition F32_SIGN :: u32 where "F32_SIGN = 0x80000000"
definition F32_EXPONENT :: u32 where "F32_EXPONENT = 0x7f800000"
definition F32_FRACTION :: u32 where "F32_FRACTION = 0x007fffff"
definition F32_MAX_FINITE :: u32 where "F32_MAX_FINITE = 0x7f7fffff"
definition F32_CANONICAL_NAN :: u32 where "F32_CANONICAL_NAN = 0x7fffffff"

lemmas f16_constants = F16_SIGN_def F16_EXPONENT_def F16_FRACTION_def F16_MAX_FINITE_def
lemmas bf16_constants = BF16_SIGN_def BF16_EXPONENT_def BF16_FRACTION_def BF16_MAX_FINITE_def
lemmas f32_constants = F32_SIGN_def F32_EXPONENT_def F32_FRACTION_def F32_MAX_FINITE_def F32_CANONICAL_NAN_def

record cube_fp_status =
  fs_nan_operand :: bool
  fs_infinity_operand :: bool
  fs_invalid :: bool
  fs_overflow :: bool
  fs_underflow :: bool

definition fp_status_default :: cube_fp_status where
  "fp_status_default = \<lparr>fs_nan_operand = False, fs_infinity_operand = False, fs_invalid = False,
     fs_overflow = False, fs_underflow = False\<rparr>"

definition fp_status_merge :: "cube_fp_status \<Rightarrow> cube_fp_status \<Rightarrow> cube_fp_status" where
  "fp_status_merge s other =
     \<lparr>fs_nan_operand = fs_nan_operand s \<or> fs_nan_operand other,
      fs_infinity_operand = fs_infinity_operand s \<or> fs_infinity_operand other,
      fs_invalid = fs_invalid s \<or> fs_invalid other,
      fs_overflow = fs_overflow s \<or> fs_overflow other,
      fs_underflow = fs_underflow s \<or> fs_underflow other\<rparr>"

record f32_slice_outcome =
  s32_bits :: u32
  s32_status :: cube_fp_status

record f16_slice_outcome =
  s16_bits :: u16
  s16_status :: cube_fp_status

section \<open>Classification\<close>

definition is_f16_zero :: "u16 \<Rightarrow> bool" where
  "is_f16_zero bits \<longleftrightarrow> bits AND NOT F16_SIGN = 0"

definition is_f16_nan :: "u16 \<Rightarrow> bool" where
  "is_f16_nan bits \<longleftrightarrow> bits AND F16_EXPONENT = F16_EXPONENT \<and> bits AND F16_FRACTION \<noteq> 0"

definition is_f16_infinite :: "u16 \<Rightarrow> bool" where
  "is_f16_infinite bits \<longleftrightarrow> bits AND NOT F16_SIGN = F16_EXPONENT"

definition is_bf16_zero :: "u16 \<Rightarrow> bool" where
  "is_bf16_zero bits \<longleftrightarrow> bits AND NOT BF16_SIGN = 0"

definition is_bf16_nan :: "u16 \<Rightarrow> bool" where
  "is_bf16_nan bits \<longleftrightarrow> bits AND BF16_EXPONENT = BF16_EXPONENT \<and> bits AND BF16_FRACTION \<noteq> 0"

definition is_bf16_infinite :: "u16 \<Rightarrow> bool" where
  "is_bf16_infinite bits \<longleftrightarrow> bits AND NOT BF16_SIGN = BF16_EXPONENT"

definition is_f32_nan :: "u32 \<Rightarrow> bool" where
  "is_f32_nan bits \<longleftrightarrow> bits AND F32_EXPONENT = F32_EXPONENT \<and> bits AND F32_FRACTION \<noteq> 0"

definition is_f32_infinite :: "u32 \<Rightarrow> bool" where
  "is_f32_infinite bits \<longleftrightarrow> bits AND NOT F32_SIGN = F32_EXPONENT"

definition is_f32_zero :: "u32 \<Rightarrow> bool" where
  "is_f32_zero bits \<longleftrightarrow> bits AND NOT F32_SIGN = 0"

definition saturate_f16_nonfinite :: "u16 \<Rightarrow> u16" where
  "saturate_f16_nonfinite bits =
     (if bits AND F16_EXPONENT \<noteq> F16_EXPONENT then bits
      else (bits AND F16_SIGN) OR (if is_f16_infinite bits then F16_MAX_FINITE else 0))"

definition saturate_bf16_nonfinite :: "u16 \<Rightarrow> u16" where
  "saturate_bf16_nonfinite bits =
     (if bits AND BF16_EXPONENT \<noteq> BF16_EXPONENT then bits
      else (bits AND BF16_SIGN) OR (if is_bf16_infinite bits then BF16_MAX_FINITE else 0))"

definition saturate_f32_nonfinite :: "u32 \<Rightarrow> u32" where
  "saturate_f32_nonfinite bits =
     (if bits AND F32_EXPONENT \<noteq> F32_EXPONENT then bits
      else (bits AND F32_SIGN) OR (if is_f32_infinite bits then F32_MAX_FINITE else 0))"

definition saturate_hf32_nonfinite :: "u32 \<Rightarrow> u32" where
  "saturate_hf32_nonfinite bits =
     (if bits AND F32_EXPONENT \<noteq> F32_EXPONENT then bits
      else (bits AND F32_SIGN) OR (if is_f32_infinite bits then 0x7f7ff000 else 0))"

section \<open>Values\<close>

text \<open>
  The integer a finite word stands for, in units of the least subnormal: \<open>p\<close> fraction bits, exponent field \<open>e\<close> and
  fraction \<open>f\<close>.
\<close>

definition float_magnitude :: "nat \<Rightarrow> nat \<Rightarrow> nat \<Rightarrow> nat" where
  "float_magnitude p e f = (if e = 0 then f else (2 ^ p + f) * 2 ^ (e - 1))"

definition sign_mag :: "bool \<Rightarrow> nat \<Rightarrow> int" where
  "sign_mag negative n = (if negative then - int n else int n)"

definition f32_exponent :: "u32 \<Rightarrow> nat" where
  "f32_exponent w = unat (take_bit 8 (drop_bit 23 w))"

definition f32_int :: "u32 \<Rightarrow> int" where
  "f32_int w = sign_mag (bit w 31) (float_magnitude 23 (f32_exponent w) (unat (take_bit 23 w)))"

definition f32_finite :: "u32 \<Rightarrow> bool" where
  "f32_finite w \<longleftrightarrow> f32_exponent w < 255"

definition f16_exponent :: "u16 \<Rightarrow> nat" where
  "f16_exponent w = unat (take_bit 5 (drop_bit 10 w))"

definition f16_int :: "u16 \<Rightarrow> int" where
  "f16_int w = sign_mag (bit w 15) (float_magnitude 10 (f16_exponent w) (unat (take_bit 10 w)))"

definition f16_finite :: "u16 \<Rightarrow> bool" where
  "f16_finite w \<longleftrightarrow> f16_exponent w < 31"

definition bf16_exponent :: "u16 \<Rightarrow> nat" where
  "bf16_exponent w = unat (take_bit 8 (drop_bit 7 w))"

definition bf16_int :: "u16 \<Rightarrow> int" where
  "bf16_int w = sign_mag (bit w 15) (float_magnitude 7 (bf16_exponent w) (unat (take_bit 7 w)))"

definition bf16_finite :: "u16 \<Rightarrow> bool" where
  "bf16_finite w \<longleftrightarrow> bf16_exponent w < 255"

lemma sign_mag_simps [simp]: "sign_mag b 0 = 0" "\<bar>sign_mag b n\<bar> = int n" "sign_mag b n = 0 \<longleftrightarrow> n = 0"
  by (auto simp: sign_mag_def)

lemma sign_mag_mult: "sign_mag a m * sign_mag b n = sign_mag (a \<noteq> b) (m * n)"
  by (simp add: sign_mag_def)

text \<open>Fields of a word.\<close>

lemma and_low_bits: "w AND mask n = take_bit n w" for w :: "'w::len word"
  by (simp add: take_bit_eq_mask)

lemma bits_below_zero: "n \<le> LENGTH('w) \<Longrightarrow> unat (take_bit n (w :: 'w::len word)) < 2 ^ n"
  by (metis take_bit_nat_less_exp unsigned_take_bit_eq)

end
