(* ===== verification/Cube_Isa.thy ===== *)
theory Cube_Isa
  imports Rust_Std
begin

text \<open>
  \<open>src/src/isa/c220/cube.rs\<close> and \<open>src/src/sim/c220/cube/control.rs\<close>: the decoder of the matrix instructions, the
  parameters and tile geometry they read from registers, and the numerical and timing controls they read from special
  registers.
\<close>

unbundle bit_operations_syntax

section \<open>Instructions\<close>

datatype cube_operation = Mmad | SparseMmad

datatype cube_data_type =
    S4S4S32
  | U8U8S32
  | S8S8S32
  | F16F16
  | F16F32
  | F16U2
  | U8S8S32
  | B8U2
  | Bf16F32
  | F32F32

definition cube_array_edge :: u16 where
  "cube_array_edge = 16"

definition data_type_from_raw :: "u8 \<Rightarrow> cube_data_type option" where
  "data_type_from_raw raw =
     (if raw = 0 then Some U8U8S32
      else if raw = 1 then Some S8S8S32
      else if raw = 2 then Some F16F16
      else if raw = 3 then Some F16F32
      else if raw = 4 then Some F16U2
      else if raw = 5 then Some U8S8S32
      else if raw = 6 then Some S4S4S32
      else if raw = 7 then Some B8U2
      else if raw = 9 then Some Bf16F32
      else if raw = 10 then Some F32F32
      else None)"

fun k_tile_elements :: "cube_data_type \<Rightarrow> u16" where
  "k_tile_elements S4S4S32 = 64"
| "k_tile_elements U8U8S32 = 32"
| "k_tile_elements S8S8S32 = 32"
| "k_tile_elements U8S8S32 = 32"
| "k_tile_elements B8U2 = 32"
| "k_tile_elements F32F32 = 8"
| "k_tile_elements F16F16 = 16"
| "k_tile_elements F16F32 = 16"
| "k_tile_elements F16U2 = 16"
| "k_tile_elements Bf16F32 = 16"

definition l0c_request_bytes :: "cube_data_type \<Rightarrow> u16" where
  "l0c_request_bytes t = (if t = F16F16 \<or> t = F16U2 then 512 else 1024)"

record cube_instruction =
  cu_word :: u32
  cu_operation :: cube_operation
  cu_data_type :: cube_data_type
  cu_raw_data_type :: u8
  cu_xd :: u8
  cu_xn :: u8
  cu_xm :: u8
  cu_xt :: u8

record cube_register_values =
  cv_xd :: u64
  cv_xn :: u64
  cv_xm :: u64
  cv_xt :: u64

record mmad_parameters =
  mp_xd_low :: u32
  mp_xd_high :: u32
  mp_xn :: u64
  mp_xm :: u64
  mp_m :: u16
  mp_raw_k :: u16
  mp_effective_k :: u16
  mp_n :: u16
  mp_bits_44_50 :: u8
  mp_bits_55_56 :: u8
  mp_bit_58 :: bool
  mp_bit_62 :: bool
  mp_bit_63 :: bool

record cube_geometry =
  cg_m_tiles :: u16
  cg_n_tiles :: u16
  cg_k_tiles :: u16
  cg_k_tile_elements :: u16
  cg_native_uop_count :: u64

definition cube_decode :: "u32 \<Rightarrow> cube_instruction option" where
  "cube_decode word =
     (if drop_bit 29 word \<noteq> 7 then None
      else case (if field word 25 7 = 0 then Some Mmad else if field word 25 7 = 5 then Some SparseMmad else None) of
          None \<Rightarrow> None
        | Some operation \<Rightarrow>
            let raw_data_type = ucast (field word 22 7 OR push_bit 3 (word AND 1)) in
            (case data_type_from_raw raw_data_type of
               None \<Rightarrow> None
             | Some data_type \<Rightarrow>
                 Some \<lparr>cu_word = word, cu_operation = operation, cu_data_type = data_type,
                   cu_raw_data_type = raw_data_type, cu_xd = ucast (field word 17 0x1f),
                   cu_xn = ucast (field word 12 0x1f), cu_xm = ucast (field word 7 0x1f),
                   cu_xt = ucast (field word 2 0x1f)\<rparr>))"

text \<open>The four register reads; a number past the register file panics.\<close>

definition cube_capture :: "cube_instruction \<Rightarrow> u64 list \<Rightarrow> 'e fault + cube_register_values" where
  "cube_capture i xregs =
     (if unat (cu_xd i) < length xregs \<and> unat (cu_xn i) < length xregs \<and> unat (cu_xm i) < length xregs
         \<and> unat (cu_xt i) < length xregs
      then Ok \<lparr>cv_xd = xregs ! unat (cu_xd i), cv_xn = xregs ! unat (cu_xn i), cv_xm = xregs ! unat (cu_xm i),
        cv_xt = xregs ! unat (cu_xt i)\<rparr>
      else Err Panic)"

definition cube_parameters :: "cube_instruction \<Rightarrow> cube_register_values \<Rightarrow> mmad_parameters" where
  "cube_parameters i registers =
     (let m = ucast (cv_xt registers AND 0xfff);
          raw_k = ucast (field (cv_xt registers) 12 0xfff);
          n = ucast (field (cv_xt registers) 24 0xfff);
          effective_k = (case cu_operation i of Mmad \<Rightarrow> raw_k | SparseMmad \<Rightarrow> div_ceil raw_k 4 * 2)
      in \<lparr>mp_xd_low = ucast (cv_xd registers), mp_xd_high = ucast (drop_bit 32 (cv_xd registers)),
           mp_xn = cv_xn registers, mp_xm = cv_xm registers, mp_m = m, mp_raw_k = raw_k,
           mp_effective_k = effective_k, mp_n = n,
           mp_bits_44_50 = ucast (field (cv_xt registers) 44 0x7f),
           mp_bits_55_56 = ucast (field (cv_xt registers) 55 3),
           mp_bit_58 = test (cv_xt registers) (push_bit 58 1),
           mp_bit_62 = test (cv_xt registers) (push_bit 62 1),
           mp_bit_63 = test (cv_xt registers) (push_bit 63 1)\<rparr>)"

definition cube_geometry_of :: "cube_instruction \<Rightarrow> mmad_parameters \<Rightarrow> cube_geometry" where
  "cube_geometry_of i p =
     (let elements = k_tile_elements (cu_data_type i);
          m_tiles = div_ceil (mp_m p) cube_array_edge;
          n_tiles = div_ceil (mp_n p) cube_array_edge;
          k_tiles = div_ceil (mp_effective_k p) elements
      in \<lparr>cg_m_tiles = m_tiles, cg_n_tiles = n_tiles, cg_k_tiles = k_tiles, cg_k_tile_elements = elements,
           cg_native_uop_count = ucast m_tiles * ucast n_tiles * ucast k_tiles\<rparr>)"

section \<open>Control registers\<close>

datatype fp16_mode = Saturating | NonSaturating

definition fp16_mode_from_control_spr :: "u64 \<Rightarrow> fp16_mode" where
  "fp16_mode_from_control_spr value = (if value AND push_bit 48 1 = 0 then Saturating else NonSaturating)"

datatype f32_mmad_mode = Fp32 | Hf32

definition f32_mode_from_spr3 :: "u64 \<Rightarrow> f32_mmad_mode" where
  "f32_mode_from_spr3 value = (if value AND push_bit 46 1 = 0 then Fp32 else Hf32)"

record cube_execution_control =
  ce_fp16_mode :: fp16_mode
  ce_f32_mode :: f32_mmad_mode
  ce_hf32_rounding :: bool

definition execution_control_from_spr3 :: "u64 \<Rightarrow> cube_execution_control" where
  "execution_control_from_spr3 value =
     \<lparr>ce_fp16_mode = fp16_mode_from_control_spr value, ce_f32_mode = f32_mode_from_spr3 value,
      ce_hf32_rounding = test value (push_bit 47 1)\<rparr>"

record cube_issue_delay =
  id_enabled :: bool
  id_guard_ticks :: u8
  id_observation_ticks :: u8

definition issue_delay_from_sprs :: "u64 \<Rightarrow> u64 \<Rightarrow> cube_issue_delay" where
  "issue_delay_from_sprs spr107 spr108 =
     \<lparr>id_enabled = test spr107 (push_bit 4 1), id_guard_ticks = ucast (field spr108 2 0x3f),
      id_observation_ticks =
        ucast (field spr107 1 0x7 + field spr107 5 0xf + push_bit 4 (field spr108 24 0x3))\<rparr>"

record cube_timing_control =
  ct_f32_mode :: f32_mmad_mode
  ct_fsm_m_priority :: bool
  ct_issue_delay :: cube_issue_delay

definition timing_control_from_sprs :: "u64 \<Rightarrow> u64 \<Rightarrow> u64 \<Rightarrow> cube_timing_control" where
  "timing_control_from_sprs spr3 spr107 spr108 =
     \<lparr>ct_f32_mode = f32_mode_from_spr3 spr3, ct_fsm_m_priority = test spr3 (push_bit 51 1),
      ct_issue_delay = issue_delay_from_sprs spr107 spr108\<rparr>"

section \<open>Bounds\<close>

lemma unat_field_less: "unat (field w s m) \<le> unat m"
  unfolding field_def by (metis word_and_le1 word_le_nat_alt)

lemma unat_ucast_field_less:
  fixes w :: "'a::len word"
  shows "unat (ucast (field w s m) :: 'b::len word) \<le> unat m"
proof -
  have "unat (ucast (field w s m) :: 'b word) = take_bit LENGTH('b) (unat (field w s m))"
    by (simp add: unsigned_ucast_eq)
  also have "\<dots> \<le> unat (field w s m)" by (rule take_bit_nat_less_eq_self)
  finally show ?thesis using unat_field_less [of w s m] by linarith
qed

text \<open>Decoded register numbers fit the register file, so capturing the operands never panics.\<close>

lemma cube_decode_capture:
  assumes "cube_decode word = Some i" "length xregs = 32"
  shows "\<exists>r. cube_capture i xregs = Ok r"
  using assms unat_ucast_field_less [of word 17 "0x1f", where 'b = 8] unat_ucast_field_less [of word 12 "0x1f", where 'b = 8]
    unat_ucast_field_less [of word 7 "0x1f", where 'b = 8] unat_ucast_field_less [of word 2 "0x1f", where 'b = 8]
  by (auto simp: cube_decode_def cube_capture_def Let_def split: option.splits if_splits)

lemma unat_div_ceil:
  fixes a b :: "'w::len word"
  assumes "b \<noteq> 0"
  shows "unat (div_ceil a b) = (unat a + unat b - 1) div unat b"
proof -
  have b: "0 < unat b" using assms by (simp add: unat_gt_0)
  let ?q = "unat a div unat b" and ?r = "unat a mod unat b"
  have a: "unat a = unat b * ?q + ?r" by simp
  show ?thesis
  proof (cases "?r = 0")
    case True
    then have "unat (a mod b) = 0" by (simp add: unat_mod_distrib)
    then have "a mod b = 0" by (simp only: unat_eq_zero)
    moreover have "(unat a + unat b - 1) div unat b = ?q"
    proof -
      have "unat a + unat b - 1 = unat b * ?q + (unat b - 1)" using a True b by linarith
      then show ?thesis using b by (simp only: div_mult_self4) simp
    qed
    ultimately show ?thesis by (simp add: div_ceil_def unat_div_distrib)
  next
    case False
    have "a mod b \<noteq> 0" using False by (metis unat_0 unat_mod_distrib)
    moreover have "?q + 1 < 2 ^ LENGTH('w)"
    proof -
      have "?q * 1 < unat a" if "?q \<noteq> 0"
      proof -
        have "?q * 1 \<le> unat b * ?q" using b by simp
        then show ?thesis using a False by linarith
      qed
      then have small: "?q + 1 \<le> unat a" if "?q \<noteq> 0" using that by simp
      have "(1 :: nat) < 2 ^ LENGTH('w)" by (rule one_less_power) simp_all
      then show ?thesis using le_less_trans [OF small unsigned_less [of a]] by (cases "?q = 0") (simp only: add_0, blast)
    qed
    moreover have "(unat a + unat b - 1) div unat b = ?q + 1"
    proof -
      have r: "?r - 1 < unat b" using mod_less_divisor [OF b, of "unat a"] by linarith
      have "unat a + unat b - 1 = unat b * (?q + 1) + (?r - 1)" 
      proof -
        have "unat b * (?q + 1) = unat b * ?q + unat b" by (simp only: distrib_left mult_1_right)
        with a False show ?thesis by linarith
      qed
      then show ?thesis using b r by (simp only: div_mult_self4) simp
    qed
    ultimately show ?thesis by (simp add: div_ceil_def unat_word_ariths unat_div_distrib)
  qed
qed

end
