(* ===== verification/Exact_Dyadic.thy ===== *)
theory Exact_Dyadic
  imports Exact_Limbs Cube_Formats Cube_Isa Local_Buffer Pv_Memory
begin

text \<open>
  \<open>src/src/sim/c220/cube/numeric/exact.rs\<close>: the accumulator of the Cube unit, a signed integer of 576 bits in units of
  \<open>2 ^ (-298)\<close>, to which accumulators and products are added without rounding and which is rounded once at the end. A
  failed addition leaves the accumulator to its caller, which always discards it, so the operations return either the
  new accumulator or the error. The debug assertions of the source are branches with the value \<open>Panic\<close>.
\<close>

unbundle bit_operations_syntax

section \<open>Errors\<close>

datatype cube_execution_error =
    UnsupportedOperation cube_operation
  | UnsupportedDataType cube_data_type
  | SparseInputOutsideLoadedTiles u64 u64
  | SparseUninitializedRow u64 u64
  | BiasMemory pv_memory_error
  | ExactAccumulatorOverflow
  | LocalBufferFailed local_buffer_error

type_synonym 'a cube_result = "cube_execution_error fault + 'a"

section \<open>The accumulator\<close>

definition exact_scale_exponent :: int where
  "exact_scale_exponent = - 298"

record exact_dyadic =
  ed_negative :: bool
  ed_magnitude :: limbs

definition exact_default :: exact_dyadic where
  "exact_default = \<lparr>ed_negative = False, ed_magnitude = replicate exact_limbs 0\<rparr>"

definition exact_is_zero :: "exact_dyadic \<Rightarrow> bool" where
  "exact_is_zero d \<longleftrightarrow> (\<forall>limb\<in>set (ed_magnitude d). limb = 0)"

definition finite_f16_parts :: "u16 \<Rightarrow> u16 \<times> int" where
  "finite_f16_parts bits =
     (let exponent = uint (drop_bit 10 (bits AND F16_EXPONENT)); fraction = bits AND F16_FRACTION in
      if exponent = 0 then (fraction, - 24) else (0x400 OR fraction, exponent - 25))"

definition finite_bf16_parts :: "u16 \<Rightarrow> u16 \<times> int" where
  "finite_bf16_parts bits =
     (let exponent = uint (drop_bit 7 (bits AND BF16_EXPONENT)); fraction = bits AND BF16_FRACTION in
      if exponent = 0 then (fraction, - 133) else (0x80 OR fraction, exponent - 134))"

definition finite_f32_parts :: "u32 \<Rightarrow> u32 \<times> int" where
  "finite_f32_parts bits =
     (let exponent = uint (drop_bit 23 (bits AND F32_EXPONENT)); fraction = bits AND F32_FRACTION in
      if exponent = 0 then (fraction, - 149) else (push_bit 23 1 OR fraction, exponent - 150))"

definition shifted :: "u64 \<Rightarrow> nat \<Rightarrow> limbs cube_result" where
  "shifted significand shift =
     (let limb = shift div 64; bit = shift mod 64 in
      if exact_limbs \<le> limb then Err (Fail ExactAccumulatorOverflow)
      else let result = (replicate exact_limbs 0)[limb := push_bit bit significand] in
        if bit = 0 then Ok result
        else let high = drop_bit (64 - bit) significand in
          if high = 0 then Ok result
          else if exact_limbs \<le> limb + 1 then Err (Fail ExactAccumulatorOverflow)
          else Ok (result[limb + 1 := high]))"

definition add_magnitudes :: "limbs \<Rightarrow> limbs \<Rightarrow> limbs cube_result" where
  "add_magnitudes destination source =
     (let (result, carry) = carry_loop False destination source in
      if carry then Err (Fail ExactAccumulatorOverflow) else Ok result)"

definition subtract_magnitudes :: "limbs \<Rightarrow> limbs \<Rightarrow> limbs cube_result" where
  "subtract_magnitudes destination source =
     (let (result, borrow) = borrow_loop False destination source in if borrow then Err Panic else Ok result)"

definition add_term :: "exact_dyadic \<Rightarrow> bool \<Rightarrow> u64 \<Rightarrow> nat \<Rightarrow> exact_dyadic cube_result" where
  "add_term d negative significand shift =
     (if significand = 0 then Ok d
      else and_then (shifted significand shift) (\<lambda>term.
        if exact_is_zero d then Ok (d\<lparr>ed_negative := negative, ed_magnitude := term\<rparr>)
        else if ed_negative d = negative then
          and_then (add_magnitudes (ed_magnitude d) term) (\<lambda>m. Ok (d\<lparr>ed_magnitude := m\<rparr>))
        else case compare_magnitudes (ed_magnitude d) term of
            Greater \<Rightarrow> and_then (subtract_magnitudes (ed_magnitude d) term) (\<lambda>m. Ok (d\<lparr>ed_magnitude := m\<rparr>))
          | Equal \<Rightarrow> Ok (d\<lparr>ed_magnitude := replicate exact_limbs 0, ed_negative := False\<rparr>)
          | Less \<Rightarrow> and_then (subtract_magnitudes term (ed_magnitude d))
              (\<lambda>m. Ok (d\<lparr>ed_magnitude := m, ed_negative := negative\<rparr>))))"

text \<open>\<open>(exponent - EXACT_SCALE_EXPONENT) as u32\<close>.\<close>

definition shift_cast :: "int \<Rightarrow> nat" where
  "shift_cast i = unat (word_of_int i :: u32)"

definition add_f16 :: "exact_dyadic \<Rightarrow> u16 \<Rightarrow> exact_dyadic cube_result" where
  "add_f16 d bits =
     (let exponent = drop_bit 10 (bits AND F16_EXPONENT) in
      if exponent = 0 then Ok d
      else if exponent = 0x1f then Err Panic
      else let (significand, exponent) = finite_f16_parts bits in
        add_term d (bits AND F16_SIGN \<noteq> 0) (ucast significand) (shift_cast (exponent - exact_scale_exponent)))"

definition add_f32 :: "exact_dyadic \<Rightarrow> u32 \<Rightarrow> exact_dyadic cube_result" where
  "add_f32 d bits =
     (let exponent = drop_bit 23 bits AND 0xff in
      if exponent = 0 then Ok d
      else if exponent = 0xff then Err Panic
      else let (significand, exponent) = finite_f32_parts bits in
        add_term d (bits AND F32_SIGN \<noteq> 0) (ucast significand) (shift_cast (exponent - exact_scale_exponent)))"

definition add_f16_product :: "exact_dyadic \<Rightarrow> u16 \<Rightarrow> u16 \<Rightarrow> exact_dyadic cube_result" where
  "add_f16_product d first second =
     (let (first_significand, first_exponent) = finite_f16_parts first;
          (second_significand, second_exponent) = finite_f16_parts second in
      if first_significand = 0 \<or> second_significand = 0 then Ok d
      else let shift = first_exponent + second_exponent - exact_scale_exponent in
        if shift < 0 then Err Panic
        else add_term d ((first XOR second) AND F16_SIGN \<noteq> 0) (ucast first_significand * ucast second_significand)
          (shift_cast shift))"

definition add_bf16_product :: "exact_dyadic \<Rightarrow> u16 \<Rightarrow> u16 \<Rightarrow> exact_dyadic cube_result" where
  "add_bf16_product d first second =
     (let (first_significand, first_exponent) = finite_bf16_parts first;
          (second_significand, second_exponent) = finite_bf16_parts second in
      if first_significand = 0 \<or> second_significand = 0 then Ok d
      else let shift = first_exponent + second_exponent - exact_scale_exponent in
        add_term d ((first XOR second) AND BF16_SIGN \<noteq> 0) (ucast first_significand * ucast second_significand)
          (shift_cast shift))"

definition add_f32_product :: "exact_dyadic \<Rightarrow> u32 \<Rightarrow> u32 \<Rightarrow> exact_dyadic cube_result" where
  "add_f32_product d first second =
     (let (first_significand, first_exponent) = finite_f32_parts first;
          (second_significand, second_exponent) = finite_f32_parts second in
      if first_significand = 0 \<or> second_significand = 0 then Ok d
      else let shift = first_exponent + second_exponent - exact_scale_exponent in
        if shift < 0 then Err Panic
        else add_term d ((first XOR second) AND F32_SIGN \<noteq> 0) (ucast first_significand * ucast second_significand)
          (shift_cast shift))"

section \<open>Rounding\<close>

text \<open>\<open>bit(half_bit) && (any_bits_below(half_bit) || odd)\<close>.\<close>

definition rounds_up :: "limbs \<Rightarrow> nat \<Rightarrow> bool \<Rightarrow> bool cube_result" where
  "rounds_up value half_bit odd_bit =
     (if magnitude_bit value half_bit then and_then (any_bits_below value half_bit) (\<lambda>below. Ok (below \<or> odd_bit)) else Ok False)"

definition round_f32 :: "exact_dyadic \<Rightarrow> bool \<Rightarrow> (u32 \<times> cube_fp_status) cube_result" where
  "round_f32 d negative_zero =
     (let value = ed_magnitude d;
          sign = push_bit 31 (of_bool (if exact_is_zero d then negative_zero else ed_negative d)) in
      case highest_bit value of
        None \<Rightarrow> Ok (sign, fp_status_default)
      | Some high_bit \<Rightarrow>
          if high_bit < 172 then
            let fraction = (ucast (low_u64_after_shift value 149) :: u32) in
            and_then (rounds_up value 148 (fraction AND 1 \<noteq> 0)) (\<lambda>round.
              let fraction = fraction + of_bool round in
              if fraction = push_bit 23 1 then Ok (sign OR push_bit 23 1, fp_status_default)
              else Ok (sign, fp_status_default\<lparr>fs_underflow := True\<rparr>))
          else
            let discard = high_bit - 23; significand = ucast (low_u64_after_shift value discard) in
            and_then (if discard \<noteq> 0 then rounds_up value (discard - 1) (significand AND 1 \<noteq> 0) else Ok False) (\<lambda>round.
              let significand = significand + of_bool round;
                  (significand, rounded_high_bit) =
                    (if significand = push_bit 24 1 then (drop_bit 1 significand, high_bit + 1) else (significand, high_bit));
                  raw_exponent = rounded_high_bit - 171 in
              if 255 \<le> raw_exponent then Ok (sign OR F32_MAX_FINITE, fp_status_default\<lparr>fs_overflow := True\<rparr>)
              else Ok (sign OR push_bit 23 (word_of_nat raw_exponent) OR (significand AND F32_FRACTION), fp_status_default)))"

definition round_f16 :: "exact_dyadic \<Rightarrow> bool \<Rightarrow> fp16_mode \<Rightarrow> (u16 \<times> cube_fp_status) cube_result" where
  "round_f16 d negative_zero mode =
     (let value = ed_magnitude d;
          sign = push_bit 15 (of_bool (if exact_is_zero d then negative_zero else ed_negative d)) in
      case highest_bit value of
        None \<Rightarrow> Ok (sign, fp_status_default)
      | Some high_bit \<Rightarrow>
          if high_bit < 284 then
            let fraction = (ucast (low_u64_after_shift value 274) :: u16) in
            and_then (rounds_up value 273 (fraction AND 1 \<noteq> 0)) (\<lambda>round.
              let fraction = fraction + of_bool round in
              if fraction = 0x400 then Ok (sign OR 0x0400, fp_status_default)
              else Ok (sign, fp_status_default\<lparr>fs_underflow := True\<rparr>))
          else
            let discard = high_bit - 10; significand = ucast (low_u64_after_shift value discard) in
            and_then (if discard \<noteq> 0 then rounds_up value (discard - 1) (significand AND 1 \<noteq> 0) else Ok False) (\<lambda>round.
              let significand = significand + of_bool round;
                  (significand, rounded_high_bit) =
                    (if significand = push_bit 11 1 then (drop_bit 1 significand, high_bit + 1) else (significand, high_bit));
                  raw_exponent = rounded_high_bit - 283 in
              if 31 \<le> raw_exponent then
                Ok (sign OR (case mode of Saturating \<Rightarrow> F16_MAX_FINITE | NonSaturating \<Rightarrow> F16_EXPONENT),
                  fp_status_default\<lparr>fs_overflow := True\<rparr>)
              else Ok (sign OR push_bit 10 (word_of_nat raw_exponent) OR (significand AND F16_FRACTION), fp_status_default)))"

section \<open>Exact addition\<close>

definition exact_int :: "exact_dyadic \<Rightarrow> int" where
  "exact_int d = sign_mag (ed_negative d) (magnitude_value (ed_magnitude d))"

definition exact_ok :: "exact_dyadic \<Rightarrow> bool" where
  "exact_ok d \<longleftrightarrow> length (ed_magnitude d) = exact_limbs"

lemma exact_default_ok [simp]: "exact_ok exact_default" "exact_int exact_default = 0"
proof -
  have "magnitude_value (replicate n 0) = 0" for n by (induction n) simp_all
  then show "exact_ok exact_default" "exact_int exact_default = 0"
    by (simp_all add: exact_ok_def exact_int_def exact_default_def)
qed

lemma magnitude_value_zeros [simp]: "magnitude_value (replicate n 0) = 0"
  by (induction n) simp_all

lemma magnitude_value_0_iff: "magnitude_value xs = 0 \<longleftrightarrow> (\<forall>x\<in>set xs. x = 0)"
  by (induction xs) (auto simp: unat_eq_zero)

lemma magnitude_value_update:
  "i < length xs \<Longrightarrow>
     magnitude_value (xs[i := v]) + 2 ^ (64 * i) * unat (xs ! i) = magnitude_value xs + 2 ^ (64 * i) * unat v"
proof (induction xs arbitrary: i)
  case (Cons x xs)
  show ?case
  proof (cases i)
    case (Suc k)
    with Cons.prems have "k < length xs" by simp
    from arg_cong [OF Cons.IH [OF this], of "(*) (2 ^ 64)"] Suc show ?thesis by (simp add: power_add algebra_simps)
  qed simp
qed simp

lemma shifted_pieces:
  fixes w :: u64
  assumes "b < 64"
  shows "unat (push_bit b w) + 2 ^ 64 * (if b = 0 then 0 else unat (drop_bit (64 - b) w)) = unat w * 2 ^ b"
proof -
  have lo: "unat (push_bit b w) = (unat w * 2 ^ b) mod 2 ^ 64"
    unfolding unsigned_push_bit_eq by (simp add: take_bit_eq_mod push_bit_eq_mult)
  have "unat (drop_bit (64 - b) w) = (unat w * 2 ^ b) div 2 ^ 64" if "b \<noteq> 0"
  proof -
    have e: "(2 :: nat) ^ 64 = 2 ^ (64 - b) * 2 ^ b" using assms by (simp flip: power_add)
    have "(unat w * 2 ^ b) div 2 ^ 64 = unat w div 2 ^ (64 - b)" unfolding e by (rule div_mult_mult2) simp
    then show ?thesis using unat_u64_less [of w]
      unfolding unsigned_drop_bit_eq by (simp add: drop_bit_eq_div take_bit_nat_eq_self)
  qed
  moreover have "(unat w * 2 ^ b) div 2 ^ 64 = 0" if "b = 0" using that unat_u64_less [of w] by simp
  ultimately show ?thesis unfolding lo using unat_u64_less [of w] by (cases "b = 0") (simp_all del: mult_2)
qed

lemma shifted_Ok:
  assumes "w \<noteq> 0" "unat w * 2 ^ shift < 2 ^ 576"
  shows "\<exists>t. shifted w shift = Ok t \<and> length t = exact_limbs \<and> magnitude_value t = unat w * 2 ^ shift"
proof -
  let ?l = "shift div 64" and ?b = "shift mod 64"
  have s: "shift = 64 * ?l + ?b" by simp
  have b: "?b < 64" by simp
  have w: "1 \<le> unat w" using assms(1) by (simp add: unat_gt_0 Suc_le_eq)
  have eq: "unat w * 2 ^ shift = 2 ^ (64 * ?l) * (unat w * 2 ^ ?b)"
    by (subst s, simp only: power_add) (simp add: ac_simps)
  have l: "?l < 9"
  proof (rule ccontr)
    assume "\<not> ?l < 9"
    then have "(2 :: nat) ^ 576 \<le> 2 ^ shift" using s by (intro power_increasing) linarith+
    then have "2 ^ 576 \<le> unat w * 2 ^ shift" using w by (metis mult_le_mono nat_mult_1)
    with assms(2) show False by linarith
  qed
  let ?r = "(replicate exact_limbs 0)[?l := push_bit ?b w]" and ?h = "drop_bit (64 - ?b) w"
  have r: "magnitude_value ?r = 2 ^ (64 * ?l) * unat (push_bit ?b w)"
    using magnitude_value_update [of ?l "replicate exact_limbs 0" "push_bit ?b w"] l by (simp add: exact_limbs_def)
  note pieces = shifted_pieces [OF b, of w]
  show ?thesis
  proof (cases "?b = 0 \<or> ?h = 0")
    case True
    then have "unat (push_bit ?b w) = unat w * 2 ^ ?b" using pieces by (auto split: if_splits)
    then have "magnitude_value ?r = unat w * 2 ^ shift" unfolding r eq by simp
    moreover have "shifted w shift = Ok ?r" using True l by (auto simp: shifted_def Let_def exact_limbs_def)
    ultimately show ?thesis by (intro exI [of _ ?r]) (simp add: exact_limbs_def)
  next
    case False
    then have h: "1 \<le> unat ?h" by (auto simp: unat_gt_0 Suc_le_eq)
    have l': "?l + 1 < 9"
    proof (rule ccontr)
      assume "\<not> ?l + 1 < 9"
      with l have "?l = 8" by simp
      moreover have "2 ^ 64 * 1 \<le> unat w * 2 ^ ?b"
      proof -
        have p: "unat (push_bit ?b w) + 2 ^ 64 * unat ?h = unat w * 2 ^ ?b"
          using pieces False by (simp only: de_Morgan_disj if_False)
        have "2 ^ 64 * 1 \<le> 2 ^ 64 * unat ?h" using h by (intro mult_le_mono2)
        also have "\<dots> \<le> unat w * 2 ^ ?b" unfolding p [symmetric] by (rule le_add2)
        finally show ?thesis .
      qed
      ultimately have "2 ^ (64 * 8) * 2 ^ 64 \<le> unat w * 2 ^ shift" unfolding eq by (intro mult_le_mono) simp_all
      then have "2 ^ 576 \<le> unat w * 2 ^ shift" by (simp flip: power_add)
      with assms(2) show False by linarith
    qed
    let ?t = "?r[?l + 1 := ?h]"
    have "?r ! (?l + 1) = 0" using l' by (simp add: exact_limbs_def)
    then have "magnitude_value ?t = 2 ^ (64 * ?l) * unat (push_bit ?b w) + 2 ^ (64 * (?l + 1)) * unat ?h"
      using magnitude_value_update [of "?l + 1" ?r ?h] l' r by (simp add: exact_limbs_def)
    also have "\<dots> = 2 ^ (64 * ?l) * (unat (push_bit ?b w) + 2 ^ 64 * unat ?h)"
      by (simp only: distrib_left mult_1_right power_add distrib_left mult.assoc)
    also have "\<dots> = unat w * 2 ^ shift" unfolding eq using pieces False by (simp only: de_Morgan_disj if_False)
    finally have "magnitude_value ?t = unat w * 2 ^ shift" .
    moreover have "shifted w shift = Ok ?t" using False l l' by (auto simp: shifted_def Let_def exact_limbs_def)
    ultimately show ?thesis by (intro exI [of _ ?t]) (simp add: exact_limbs_def)
  qed
qed

text \<open>A term that keeps the sum inside the array is added exactly, and no assertion fails.\<close>

lemma add_term_exact:
  assumes ok: "exact_ok d" and fits: "\<bar>exact_int d\<bar> + int (unat w * 2 ^ shift) < 2 ^ 576"
  shows "\<exists>d'. add_term d negative w shift = Ok d' \<and> exact_ok d' \<and> exact_int d' = exact_int d + sign_mag negative (unat w * 2 ^ shift)"
proof (cases "w = 0")
  case False
  have bound: "magnitude_value (ed_magnitude d) + unat w * 2 ^ shift < 2 ^ 576"
  proof -
    have "int (magnitude_value (ed_magnitude d) + unat w * 2 ^ shift) < int (2 ^ 576)"
      using fits by (simp only: exact_int_def sign_mag_simps of_nat_add of_nat_power of_nat_numeral)
    then show ?thesis by (simp only: of_nat_less_iff)
  qed
  then obtain t where t: "shifted w shift = Ok t" "length t = exact_limbs" "magnitude_value t = unat w * 2 ^ shift"
    using shifted_Ok [OF False, of shift] by (meson le_add2 le_less_trans)
  let ?m = "ed_magnitude d"
  have len: "length ?m = length t" using ok t by (simp add: exact_ok_def)
  have zero: "exact_is_zero d \<longleftrightarrow> magnitude_value ?m = 0" by (simp add: exact_is_zero_def magnitude_value_0_iff)
  show ?thesis
  proof (cases "exact_is_zero d")
    case True
    with t False zero show ?thesis by (simp add: add_term_def exact_ok_def exact_int_def)
  next
    case nz: False
    show ?thesis
    proof (cases "ed_negative d = negative")
      case True
      obtain rs c where c: "carry_loop False ?m t = (rs, c)" by fastforce
      from carry_loop_exact [OF len c] bound t ok
      have "\<not> c" "length rs = exact_limbs" "magnitude_value rs = magnitude_value ?m + magnitude_value t"
        by (auto simp: exact_ok_def exact_limbs_def)
      with True nz False t c show ?thesis
        by (auto simp: add_term_def add_magnitudes_def exact_ok_def exact_int_def sign_mag_def)
    next
      case False': False
      note cmp = compare_magnitudes_value [OF len]
      consider "magnitude_value t < magnitude_value ?m" | "magnitude_value t = magnitude_value ?m"
        | "magnitude_value ?m < magnitude_value t" by linarith
      then show ?thesis
      proof cases
        case 1
        obtain rs c where c: "borrow_loop False ?m t = (rs, c)" by fastforce
        from borrow_loop_exact [OF len c] 1 ok
        have "\<not> c" "length rs = exact_limbs" "magnitude_value rs = magnitude_value ?m - magnitude_value t"
          by (auto simp: exact_ok_def)
        with 1 False' nz False t c cmp show ?thesis
          by (auto simp: add_term_def subtract_magnitudes_def exact_ok_def exact_int_def sign_mag_def order_of_def of_nat_diff)
      next
        case 2
        with False' nz False t cmp show ?thesis
          by (auto simp: add_term_def exact_ok_def exact_int_def sign_mag_def order_of_def)
      next
        case 3
        obtain rs c where c: "borrow_loop False t ?m = (rs, c)" by fastforce
        from borrow_loop_exact [OF len [symmetric] c] 3 t
        have "\<not> c" "length rs = exact_limbs" "magnitude_value rs = magnitude_value t - magnitude_value ?m" by auto
        with 3 False' nz False t c cmp show ?thesis
          by (auto simp: add_term_def subtract_magnitudes_def exact_ok_def exact_int_def sign_mag_def order_of_def of_nat_diff)
      qed
    qed
  qed
qed (use ok in \<open>auto simp: add_term_def\<close>)

section \<open>Adding floating-point words\<close>

text \<open>
  The significand and exponent of a finite word: an exponent of at least \<open>- quantum\<close>, the exponent of the least
  subnormal, and together the magnitude of the word in units of that subnormal.
\<close>

definition is_parts :: "nat \<Rightarrow> nat \<Rightarrow> nat \<Rightarrow> nat \<Rightarrow> 'w::len word \<times> int \<Rightarrow> bool" where
  "is_parts p quantum bound magnitude sp \<longleftrightarrow>
     (\<exists>s k. sp = (s, int k - int quantum) \<and> k < bound \<and> unat s < 2 ^ Suc p \<and> unat s * 2 ^ k = magnitude)"

lemma exponent_field: "m = push_bit p (mask n) \<Longrightarrow> drop_bit p (w AND m) = take_bit n (drop_bit p w)" for w :: "'w::len word"
  by (rule bit_word_eqI) (auto simp: bit_simps dest: bit_imp_le_length)

lemma significand_value:
  fixes w :: "'w::len word"
  assumes "p < LENGTH('w)"
  shows "unat (push_bit p 1 OR take_bit p w) = 2 ^ p + unat (take_bit p w)"
proof -
  have "push_bit p 1 AND take_bit p w = 0" by (rule bit_word_eqI) (auto simp: bit_simps)
  then have "push_bit p 1 OR take_bit p w = push_bit p 1 + take_bit p w" by (simp add: disjunctive_add_eq_or)
  moreover have "unat (push_bit p 1 :: 'w word) = 2 ^ p"
    unfolding unsigned_push_bit_eq using assms by (simp add: push_bit_eq_mult take_bit_nat_eq_self)
  moreover have "unat (take_bit p w) < 2 ^ p" using assms by (intro bits_below_zero) simp
  moreover have "(2 :: nat) ^ p + 2 ^ p \<le> 2 ^ LENGTH('w)"
    using assms by (metis Suc_leI mult_2 one_le_numeral power_Suc power_increasing)
  ultimately show ?thesis using unat_add_exact [of "push_bit p 1" "take_bit p w"] by simp
qed

lemma parts_of_word:
  fixes w :: "'w::len word"
  assumes "p < LENGTH('w)" and bound: "unat (take_bit n (drop_bit p w)) < bound" "0 < bound"
    and sp: "sp = (if uint (take_bit n (drop_bit p w)) = 0 then (take_bit p w, - int quantum)
        else (push_bit p 1 OR take_bit p w, uint (take_bit n (drop_bit p w)) - int (Suc quantum)))"
  shows "is_parts p quantum bound (float_magnitude p (unat (take_bit n (drop_bit p w))) (unat (take_bit p w))) sp"
proof -
  let ?e = "unat (take_bit n (drop_bit p w))"
  have f: "unat (take_bit p w) < 2 ^ p" using assms(1) by (intro bits_below_zero) simp
  show ?thesis
  proof (cases "?e = 0")
    case True
    then have "uint (take_bit n (drop_bit p w)) = 0" unfolding uint_nat by simp
    with True f bound(2) show ?thesis
      unfolding is_parts_def sp by (intro exI [of _ "take_bit p w"] exI [of _ 0]) (auto simp: float_magnitude_def)
  next
    case False
    have u: "uint (take_bit n (drop_bit p w)) = int ?e" by (rule uint_nat)
    have nz: "uint (take_bit n (drop_bit p w)) \<noteq> 0" unfolding u using False by (simp only: of_nat_eq_0_iff not_False_eq_True)
    have "uint (take_bit n (drop_bit p w)) - int (Suc quantum) = int (?e - 1) - int quantum"
      unfolding u using False by (cases ?e) simp_all
    moreover have "?e - 1 < bound" using bound(1) by simp
    moreover have "unat (push_bit p 1 OR take_bit p w) < 2 ^ Suc p"
      using f significand_value [OF assms(1), of w] by simp
    moreover have "unat (push_bit p 1 OR take_bit p w) * 2 ^ (?e - 1) = float_magnitude p ?e (unat (take_bit p w))"
      unfolding significand_value [OF assms(1)] float_magnitude_def using False by simp
    ultimately show ?thesis
      unfolding is_parts_def sp if_not_P [OF nz] by blast
  qed
qed

lemma f32_parts:
  "f32_finite w \<Longrightarrow> is_parts 23 149 255 (float_magnitude 23 (f32_exponent w) (unat (take_bit 23 w))) (finite_f32_parts w)"
  unfolding f32_exponent_def f32_finite_def
proof (rule parts_of_word)
  have "drop_bit 23 (w AND F32_EXPONENT) = take_bit 8 (drop_bit 23 w)"
    by (rule exponent_field) (simp add: F32_EXPONENT_def mask_eq_exp_minus_1)
  moreover have "w AND F32_FRACTION = take_bit 23 w"
    by (simp add: F32_FRACTION_def take_bit_eq_mask mask_eq_exp_minus_1)
  ultimately show "finite_f32_parts w = (if uint (take_bit 8 (drop_bit 23 w)) = 0 then (take_bit 23 w, - int 149)
      else (push_bit 23 1 OR take_bit 23 w, uint (take_bit 8 (drop_bit 23 w)) - int (Suc 149)))"
    by (simp add: finite_f32_parts_def Let_def)
qed simp_all

lemma f16_parts:
  "f16_finite w \<Longrightarrow> is_parts 10 24 31 (float_magnitude 10 (f16_exponent w) (unat (take_bit 10 w))) (finite_f16_parts w)"
  unfolding f16_exponent_def f16_finite_def
proof (rule parts_of_word)
  have "drop_bit 10 (w AND F16_EXPONENT) = take_bit 5 (drop_bit 10 w)"
    by (rule exponent_field) (simp add: F16_EXPONENT_def mask_eq_exp_minus_1)
  moreover have "w AND F16_FRACTION = take_bit 10 w"
    by (simp add: F16_FRACTION_def take_bit_eq_mask mask_eq_exp_minus_1)
  ultimately show "finite_f16_parts w = (if uint (take_bit 5 (drop_bit 10 w)) = 0 then (take_bit 10 w, - int 24)
      else (push_bit 10 1 OR take_bit 10 w, uint (take_bit 5 (drop_bit 10 w)) - int (Suc 24)))"
    by (simp add: finite_f16_parts_def Let_def)
qed simp_all

lemma bf16_parts:
  "bf16_finite w \<Longrightarrow> is_parts 7 133 255 (float_magnitude 7 (bf16_exponent w) (unat (take_bit 7 w))) (finite_bf16_parts w)"
  unfolding bf16_exponent_def bf16_finite_def
proof (rule parts_of_word)
  have "drop_bit 7 (w AND BF16_EXPONENT) = take_bit 8 (drop_bit 7 w)"
    by (rule exponent_field) (simp add: BF16_EXPONENT_def mask_eq_exp_minus_1)
  moreover have "w AND BF16_FRACTION = take_bit 7 w"
    by (simp add: BF16_FRACTION_def take_bit_eq_mask mask_eq_exp_minus_1)
  ultimately show "finite_bf16_parts w = (if uint (take_bit 8 (drop_bit 7 w)) = 0 then (take_bit 7 w, - int 133)
      else (push_bit 7 1 OR take_bit 7 w, uint (take_bit 8 (drop_bit 7 w)) - int (Suc 133)))"
    by (simp add: finite_bf16_parts_def Let_def)
qed simp_all

lemma sign_test: "w AND push_bit k 1 \<noteq> 0 \<longleftrightarrow> bit w k" for w :: "'w::len word"
  by (rule bit_iff_and_push_bit_not_eq_0 [symmetric])

lemma sign_masks:
  "w AND F32_SIGN \<noteq> 0 \<longleftrightarrow> bit w 31" "h AND F16_SIGN \<noteq> 0 \<longleftrightarrow> bit h 15" "h AND BF16_SIGN \<noteq> 0 \<longleftrightarrow> bit h 15"
proof -
  have "F32_SIGN = push_bit 31 1" "F16_SIGN = push_bit 15 1" "BF16_SIGN = push_bit 15 1"
    by (simp_all add: F32_SIGN_def F16_SIGN_def BF16_SIGN_def)
  note masks = this
  show "w AND F32_SIGN \<noteq> 0 \<longleftrightarrow> bit w 31" unfolding masks(1) by (rule sign_test)
  show "h AND F16_SIGN \<noteq> 0 \<longleftrightarrow> bit h 15" unfolding masks(2) by (rule sign_test)
  show "h AND BF16_SIGN \<noteq> 0 \<longleftrightarrow> bit h 15" unfolding masks(3) by (rule sign_test)
qed

lemma unat_ucast_small:
  fixes s :: "'w::len word"
  assumes "unat s < 2 ^ n" "n \<le> 64"
  shows "unat (ucast s :: u64) = unat s"
proof -
  have "unat s < 2 ^ 64" using assms(1) power_increasing [OF assms(2), of "2 :: nat"] by linarith
  then show ?thesis by (simp add: unsigned_ucast_eq take_bit_nat_eq_self)
qed

lemma shift_cast_small: "0 \<le> i \<Longrightarrow> i < 2 ^ 32 \<Longrightarrow> shift_cast i = nat i"
  unfolding shift_cast_def by (simp add: unsigned_of_int take_bit_int_eq_self)

text \<open>The term of a word and the term of a product, exactly.\<close>

lemma add_word_exact:
  fixes s :: "'w::len word"
  assumes parts: "is_parts p q bound m (s, e)" and "q \<le> 298" "bound \<le> 1000" "p < 63"
    and ok: "exact_ok d" and fits: "\<bar>exact_int d\<bar> + int (m * 2 ^ (298 - q)) < 2 ^ 576"
  shows "\<exists>d'. add_term d negative (ucast s) (shift_cast (e - exact_scale_exponent)) = Ok d' \<and> exact_ok d' \<and>
    exact_int d' = exact_int d + sign_mag negative (m * 2 ^ (298 - q))"
proof -
  obtain k where e: "e = int k - int q" and k: "k < bound" and m: "unat s * 2 ^ k = m"
    using parts by (auto simp: is_parts_def)
  have "e - exact_scale_exponent = int (k + (298 - q))"
    using assms(2) by (simp add: e exact_scale_exponent_def of_nat_diff)
  then have sh: "shift_cast (e - exact_scale_exponent) = k + (298 - q)"
    using k assms(3) by (simp add: shift_cast_small)
  have "unat s < 2 ^ Suc p" using parts e by (auto simp: is_parts_def)
  then have u: "unat (ucast s :: u64) = unat s" using assms(4) by (intro unat_ucast_small [of s "Suc p"]) simp_all
  have v: "unat (ucast s :: u64) * 2 ^ (k + (298 - q)) = m * 2 ^ (298 - q)" by (simp add: u power_add flip: m)
  show ?thesis unfolding sh using add_term_exact [OF ok, of "ucast s" "k + (298 - q)" negative] fits by (simp only: v)
qed

lemma add_product_exact:
  fixes s t :: "'w::len word"
  assumes p1: "is_parts p q bound m (s, e)" and p2: "is_parts p q bound n (t, f)"
    and "2 * q \<le> 298" "bound \<le> 1000" "p < 31"
    and ok: "exact_ok d" and fits: "\<bar>exact_int d\<bar> + int (m * n * 2 ^ (298 - 2 * q)) < 2 ^ 576"
  shows "0 \<le> e + f - exact_scale_exponent \<and>
    (\<exists>d'. add_term d negative (ucast s * ucast t) (shift_cast (e + f - exact_scale_exponent)) = Ok d' \<and> exact_ok d' \<and>
      exact_int d' = exact_int d + sign_mag negative (m * n * 2 ^ (298 - 2 * q)))"
proof -
  obtain k where e: "e = int k - int q" and k: "k < bound" "unat s < 2 ^ Suc p" and m: "unat s * 2 ^ k = m"
    using p1 by (auto simp: is_parts_def)
  obtain l where f: "f = int l - int q" and l: "l < bound" "unat t < 2 ^ Suc p" and n: "unat t * 2 ^ l = n"
    using p2 by (auto simp: is_parts_def)
  have sc: "e + f - exact_scale_exponent = int (k + l + (298 - 2 * q))"
    using assms(3) by (simp add: e f exact_scale_exponent_def of_nat_diff)
  then have sh: "shift_cast (e + f - exact_scale_exponent) = k + l + (298 - 2 * q)"
    using k l assms(4) by (simp add: shift_cast_small)
  have su: "unat (ucast s :: u64) = unat s" "unat (ucast t :: u64) = unat t"
    using assms(5) unat_ucast_small [OF k(2)] unat_ucast_small [OF l(2)] by simp_all
  have "unat s * unat t < 2 ^ Suc p * 2 ^ Suc p" using k l by (intro mult_strict_mono) simp_all
  also have "\<dots> \<le> 2 ^ 64" using assms(5) unfolding power_add [symmetric] by (intro power_increasing) simp_all
  finally have "unat s * unat t < 2 ^ 64" .
  then have u: "unat (ucast s * ucast t :: u64) = unat s * unat t" by (simp add: unat_word_ariths su)
  have v: "unat (ucast s * ucast t :: u64) * 2 ^ (k + l + (298 - 2 * q)) = m * n * 2 ^ (298 - 2 * q)"
    unfolding u by (simp add: power_add flip: m n)
  show ?thesis
    unfolding sh using add_term_exact [OF ok, of "ucast s * ucast t" "k + l + (298 - 2 * q)" negative] fits sc
    by (simp only: v of_nat_0_le_iff)
qed

definition f32_flush :: "u32 \<Rightarrow> int" where
  "f32_flush w = (if f32_exponent w = 0 then 0 else f32_int w)"

definition f16_flush :: "u16 \<Rightarrow> int" where
  "f16_flush w = (if f16_exponent w = 0 then 0 else f16_int w)"

lemma word_eq_unat: "v = w \<longleftrightarrow> unat v = unat w" for v w :: "'w::len word"
  by (simp add: word_unat_eq_iff)

lemma add_f32_exact:
  assumes fin: "f32_finite w" and ok: "exact_ok d" and fits: "\<bar>exact_int d\<bar> + 2 ^ 149 * \<bar>f32_int w\<bar> < 2 ^ 576"
  shows "\<exists>d'. add_f32 d w = Ok d' \<and> exact_ok d' \<and> exact_int d' = exact_int d + 2 ^ 149 * f32_flush w"
proof -
  let ?m = "float_magnitude 23 (f32_exponent w) (unat (take_bit 23 w))"
  obtain s e where sp: "finite_f32_parts w = (s, e)" by fastforce
  have x: "drop_bit 23 w AND 0xff = take_bit 8 (drop_bit 23 w)" by (simp add: take_bit_eq_mask mask_eq_exp_minus_1)
  have "\<bar>exact_int d\<bar> + int (?m * 2 ^ (298 - 149)) < 2 ^ 576" using fits by (simp add: f32_int_def)
  from add_word_exact [OF f32_parts [OF fin, unfolded sp] _ _ _ ok this, of "bit w 31"]
  obtain d' where d': "add_term d (bit w 31) (ucast s) (shift_cast (e - exact_scale_exponent)) = Ok d'" "exact_ok d'"
    "exact_int d' = exact_int d + sign_mag (bit w 31) (?m * 2 ^ (298 - 149))" by auto
  have v: "sign_mag (bit w 31) (?m * 2 ^ (298 - 149)) = 2 ^ 149 * f32_int w" by (simp add: f32_int_def sign_mag_def)
  have z: "take_bit 8 (drop_bit 23 w) = 0 \<longleftrightarrow> f32_exponent w = 0" by (simp only: word_eq_unat f32_exponent_def unat_0)
  have n: "take_bit 8 (drop_bit 23 w) \<noteq> 0xff" using fin by (auto simp: f32_exponent_def f32_finite_def)
  show ?thesis
    using d' n ok unfolding add_f32_def x Let_def z sp sign_masks v by (auto simp: f32_flush_def)
qed

lemma add_f16_exact:
  assumes fin: "f16_finite w" and ok: "exact_ok d" and fits: "\<bar>exact_int d\<bar> + 2 ^ 274 * \<bar>f16_int w\<bar> < 2 ^ 576"
  shows "\<exists>d'. add_f16 d w = Ok d' \<and> exact_ok d' \<and> exact_int d' = exact_int d + 2 ^ 274 * f16_flush w"
proof -
  let ?m = "float_magnitude 10 (f16_exponent w) (unat (take_bit 10 w))"
  obtain s e where sp: "finite_f16_parts w = (s, e)" by fastforce
  have x: "drop_bit 10 (w AND F16_EXPONENT) = take_bit 5 (drop_bit 10 w)"
    by (rule exponent_field) (simp add: F16_EXPONENT_def mask_eq_exp_minus_1)
  have "\<bar>exact_int d\<bar> + int (?m * 2 ^ (298 - 24)) < 2 ^ 576" using fits by (simp add: f16_int_def)
  from add_word_exact [OF f16_parts [OF fin, unfolded sp] _ _ _ ok this, of "bit w 15"]
  obtain d' where d': "add_term d (bit w 15) (ucast s) (shift_cast (e - exact_scale_exponent)) = Ok d'" "exact_ok d'"
    "exact_int d' = exact_int d + sign_mag (bit w 15) (?m * 2 ^ (298 - 24))" by auto
  have v: "sign_mag (bit w 15) (?m * 2 ^ (298 - 24)) = 2 ^ 274 * f16_int w" by (simp add: f16_int_def sign_mag_def)
  have z: "take_bit 5 (drop_bit 10 w) = 0 \<longleftrightarrow> f16_exponent w = 0" by (simp only: word_eq_unat f16_exponent_def unat_0)
  have n: "take_bit 5 (drop_bit 10 w) \<noteq> 0x1f" using fin by (auto simp: f16_exponent_def f16_finite_def)
  show ?thesis
    using d' n ok unfolding add_f16_def x Let_def z sp sign_masks v by (auto simp: f16_flush_def)
qed

lemma zero_parts: "is_parts p q bound m (s, e) \<Longrightarrow> s = 0 \<longleftrightarrow> m = 0"
  by (auto simp: is_parts_def unat_eq_zero)

lemma add_f32_product_exact:
  assumes fin: "f32_finite a" "f32_finite b" and ok: "exact_ok d" and fits: "\<bar>exact_int d\<bar> + \<bar>f32_int a * f32_int b\<bar> < 2 ^ 576"
  shows "\<exists>d'. add_f32_product d a b = Ok d' \<and> exact_ok d' \<and> exact_int d' = exact_int d + f32_int a * f32_int b"
proof -
  let ?m = "float_magnitude 23 (f32_exponent a) (unat (take_bit 23 a))"
  let ?n = "float_magnitude 23 (f32_exponent b) (unat (take_bit 23 b))"
  obtain s e where sp: "finite_f32_parts a = (s, e)" by fastforce
  obtain t f where tp: "finite_f32_parts b = (t, f)" by fastforce
  note p = f32_parts [OF fin(1), unfolded sp] f32_parts [OF fin(2), unfolded tp]
  have v: "sign_mag (bit a 31 \<noteq> bit b 31) (?m * ?n * 2 ^ (298 - 2 * 149)) = f32_int a * f32_int b"
    by (simp add: f32_int_def sign_mag_mult)
  have "\<bar>exact_int d\<bar> + int (?m * ?n * 2 ^ (298 - 2 * 149)) < 2 ^ 576" using fits unfolding v [symmetric] by simp
  note add = add_product_exact [OF p _ _ _ ok this, of "bit a 31 \<noteq> bit b 31", unfolded v, simplified]
  show ?thesis
    using add ok zero_parts [OF p(1)] zero_parts [OF p(2)] v
    unfolding add_f32_product_def sp tp Let_def sign_masks by (auto simp: bit_xor_iff f32_int_def)
qed

lemma add_f16_product_exact:
  assumes fin: "f16_finite a" "f16_finite b" and ok: "exact_ok d"
    and fits: "\<bar>exact_int d\<bar> + 2 ^ 250 * \<bar>f16_int a * f16_int b\<bar> < 2 ^ 576"
  shows "\<exists>d'. add_f16_product d a b = Ok d' \<and> exact_ok d' \<and> exact_int d' = exact_int d + 2 ^ 250 * (f16_int a * f16_int b)"
proof -
  let ?m = "float_magnitude 10 (f16_exponent a) (unat (take_bit 10 a))"
  let ?n = "float_magnitude 10 (f16_exponent b) (unat (take_bit 10 b))"
  obtain s e where sp: "finite_f16_parts a = (s, e)" by fastforce
  obtain t f where tp: "finite_f16_parts b = (t, f)" by fastforce
  note p = f16_parts [OF fin(1), unfolded sp] f16_parts [OF fin(2), unfolded tp]
  have v: "sign_mag (bit a 15 \<noteq> bit b 15) (?m * ?n * 2 ^ (298 - 2 * 24)) = 2 ^ 250 * (f16_int a * f16_int b)"
    by (simp add: f16_int_def sign_mag_def)
  have "\<bar>exact_int d\<bar> + int (?m * ?n * 2 ^ (298 - 2 * 24)) < 2 ^ 576"
    using fits by (simp add: f16_int_def abs_mult)
  note add = add_product_exact [OF p _ _ _ ok this, of "bit a 15 \<noteq> bit b 15", unfolded v, simplified]
  show ?thesis
    using add ok zero_parts [OF p(1)] zero_parts [OF p(2)] v
    unfolding add_f16_product_def sp tp Let_def sign_masks by (auto simp: bit_xor_iff f16_int_def)
qed

lemma add_bf16_product_exact:
  assumes fin: "bf16_finite a" "bf16_finite b" and ok: "exact_ok d"
    and fits: "\<bar>exact_int d\<bar> + 2 ^ 32 * \<bar>bf16_int a * bf16_int b\<bar> < 2 ^ 576"
  shows "\<exists>d'. add_bf16_product d a b = Ok d' \<and> exact_ok d' \<and> exact_int d' = exact_int d + 2 ^ 32 * (bf16_int a * bf16_int b)"
proof -
  let ?m = "float_magnitude 7 (bf16_exponent a) (unat (take_bit 7 a))"
  let ?n = "float_magnitude 7 (bf16_exponent b) (unat (take_bit 7 b))"
  obtain s e where sp: "finite_bf16_parts a = (s, e)" by fastforce
  obtain t f where tp: "finite_bf16_parts b = (t, f)" by fastforce
  note p = bf16_parts [OF fin(1), unfolded sp] bf16_parts [OF fin(2), unfolded tp]
  have v: "sign_mag (bit a 15 \<noteq> bit b 15) (?m * ?n * 2 ^ (298 - 2 * 133)) = 2 ^ 32 * (bf16_int a * bf16_int b)"
    by (simp add: bf16_int_def sign_mag_def)
  have "\<bar>exact_int d\<bar> + int (?m * ?n * 2 ^ (298 - 2 * 133)) < 2 ^ 576"
    using fits by (simp add: bf16_int_def abs_mult)
  note add = add_product_exact [OF p _ _ _ ok this, of "bit a 15 \<noteq> bit b 15", unfolded v, simplified]
  show ?thesis
    using add ok zero_parts [OF p(1)] zero_parts [OF p(2)] v
    unfolding add_bf16_product_def sp tp Let_def sign_masks by (auto simp: bit_xor_iff bf16_int_def)
qed

end
