(* ===== verification/Cube_Layout.thy ===== *)
theory Cube_Layout
  imports L0c Exact_Dyadic
begin

text \<open>
  \<open>src/src/sim/c220/device.rs\<close>, \<open>memory/mod.rs\<close>, \<open>cube/layout.rs\<close>, \<open>cube/accumulator.rs\<close> and the issue of
  \<open>cube/mod.rs\<close> and \<open>cube/timing.rs\<close>: the local memories of a core, where the Cube finds its operands in them and where it
  puts its results. Row, column and depth are loop counters below \<open>2 ^ 16\<close>; the offsets computed from them stay below
  \<open>2 ^ 42\<close> and are natural numbers, addresses are words. \<open>reserve\<close> is the host allocation of a buffer read.
\<close>

unbundle bit_operations_syntax

section \<open>Devices and local memories\<close>

datatype c220_device = Ascend910B1 | Ascend910B2 | Ascend910B3 | Ascend910B4

record device_profile =
  dp_cube_cores :: u16
  dp_vector_cores :: u16
  dp_cube_frequency_mhz :: u16
  dp_hbm_bytes :: u64
  dp_l2_bytes :: u64
  dp_l0a_bytes :: u32
  dp_l0b_bytes :: u32
  dp_l0c_bytes :: u32
  dp_l1_bytes :: u32
  dp_ub_bytes :: u32

definition device_profile_of :: "c220_device \<Rightarrow> device_profile" where
  "device_profile_of device =
     (let (cube, vector, frequency, hbm, l2) =
        (case device of
           Ascend910B1 \<Rightarrow> (24, 48, 1850, 68719476736, 201326592)
         | Ascend910B2 \<Rightarrow> (24, 48, 1800, 68719476736, 201326592)
         | Ascend910B3 \<Rightarrow> (20, 40, 1800, 68719476736, 201326592)
         | Ascend910B4 \<Rightarrow> (20, 40, 1500, 34359738368, 100663296))
      in \<lparr>dp_cube_cores = cube, dp_vector_cores = vector, dp_cube_frequency_mhz = frequency, dp_hbm_bytes = hbm,
           dp_l2_bytes = l2, dp_l0a_bytes = 65536, dp_l0b_bytes = 65536, dp_l0c_bytes = 131072, dp_l1_bytes = 524288,
           dp_ub_bytes = 196608\<rparr>)"

record local_memory_config =
  lc_l0a_bytes :: u64
  lc_l0b_bytes :: u64
  lc_l0c_bytes :: u64
  lc_l1_bytes :: u64
  lc_read_latency :: u32

definition config_for_device :: "c220_device \<Rightarrow> local_memory_config" where
  "config_for_device device =
     (let profile = device_profile_of device
      in \<lparr>lc_l0a_bytes = ucast (dp_l0a_bytes profile), lc_l0b_bytes = ucast (dp_l0b_bytes profile),
           lc_l0c_bytes = ucast (dp_l0c_bytes profile), lc_l1_bytes = ucast (dp_l1_bytes profile), lc_read_latency = 12\<rparr>)"

record local_memory =
  lm_l0a :: local_buffer
  lm_l0b :: local_buffer
  lm_l0c :: l0c
  lm_l1 :: local_buffer
  lm_bt :: pv_memory
  lm_smask :: pv_memory
  lm_weight_index :: local_buffer

definition local_memory_new :: "local_memory_config \<Rightarrow> l0c_error + local_memory" where
  "local_memory_new config =
     and_then (l0c_new (lc_l0c_bytes config) (lc_read_latency config)) (\<lambda>l0c.
       Ok \<lparr>lm_l0a = lb_new (lc_l0a_bytes config), lm_l0b = lb_new (lc_l0b_bytes config), lm_l0c = l0c,
         lm_l1 = lb_new (lc_l1_bytes config), lm_bt = pv_new 0 (2 ^ 64 - 1), lm_smask = pv_new 0 (2 ^ 64 - 1),
         lm_weight_index = lb_new (- 1)\<rparr>)"

section \<open>Instructions in flight\<close>

datatype fsm_version = FsmV0 | FsmV1

datatype frame_order = NThenM | MThenN

record resource_waits =
  rw_instruction_order :: u64
  rw_hardware_flag :: u64
  rw_l0c_write_port :: u64
  rw_l0c_unit_flag :: u64

record cube_ticket =
  tk_accept_tick :: u64
  tk_first_uop_tick :: "u64 option"
  tk_last_uop_tick :: "u64 option"
  tk_retire_tick :: u64
  tk_geometry :: cube_geometry
  tk_uop_count :: u64
  tk_fsm_bubbles :: u64
  tk_sparse_bubbles :: u64
  tk_resource_wait_ticks :: u64
  tk_resource_waits :: resource_waits
  tk_issue_delay_wait_ticks :: u64
  tk_issue_delay :: cube_issue_delay
  tk_fsm_version :: fsm_version
  tk_v1_n2_mode :: bool
  tk_v1_frame_order :: frame_order
  tk_v1_dtype_bubbles_per_uop :: u8
  tk_bias_checkpoint_uop :: "u64 option"
  tk_unit_flag_sync :: bool

record cube_issue =
  is_instruction_id :: u64
  is_pc :: u64
  is_word :: u32
  is_instruction :: cube_instruction
  is_registers :: cube_register_values
  is_parameters :: mmad_parameters
  is_execution_control :: cube_execution_control
  is_ticket :: cube_ticket

section \<open>Layout\<close>

definition tile_edge :: nat where "tile_edge = 16"
definition f16_tile_bytes :: nat where "f16_tile_bytes = 512"
definition f32_input_k_tile :: nat where "f32_input_k_tile = 8"
definition f32_input_tile_bytes :: nat where "f32_input_tile_bytes = 512"
definition f32_tile_bytes :: nat where "f32_tile_bytes = 1024"

lemmas layout_constants = tile_edge_def f16_tile_bytes_def f32_input_k_tile_def f32_input_tile_bytes_def f32_tile_bytes_def

definition f16_b_address :: "u64 \<Rightarrow> nat \<Rightarrow> nat \<Rightarrow> nat \<Rightarrow> u64" where
  "f16_b_address base n_tiles k n =
     (let tile = (k div tile_edge) * n_tiles + n div tile_edge;
          lane = (n mod tile_edge) * tile_edge + k mod tile_edge
      in base + word_of_nat (tile * f16_tile_bytes + lane * 2))"

definition f32_b_address :: "u64 \<Rightarrow> nat \<Rightarrow> nat \<Rightarrow> nat \<Rightarrow> u64" where
  "f32_b_address base n_tiles k n =
     (let tile = (k div f32_input_k_tile) * n_tiles + n div tile_edge;
          lane = (n mod tile_edge) * f32_input_k_tile + k mod f32_input_k_tile
      in base + word_of_nat (tile * f32_input_tile_bytes + lane * 4))"

definition integer_a_element :: "nat \<Rightarrow> nat \<Rightarrow> nat \<Rightarrow> nat \<Rightarrow> nat" where
  "integer_a_element k_tiles k_tile m k =
     (let tile = (m div tile_edge) * k_tiles + k div k_tile; lane = (m mod tile_edge) * k_tile + k mod k_tile
      in tile * tile_edge * k_tile + lane)"

definition integer_b_element :: "nat \<Rightarrow> nat \<Rightarrow> nat \<Rightarrow> nat \<Rightarrow> nat" where
  "integer_b_element n_tiles k_tile k n =
     (let tile = (k div k_tile) * n_tiles + n div tile_edge; lane = (n mod tile_edge) * k_tile + k mod k_tile
      in tile * tile_edge * k_tile + lane)"

definition output_tile_base :: "u64 \<Rightarrow> nat \<Rightarrow> nat \<Rightarrow> u64" where
  "output_tile_base base tile bytes =
     (let address = base + word_of_nat (tile * bytes) in
      if word_of_nat (131072 - bytes) < address then address mod 131072 else address)"

definition f32_c_address :: "u64 \<Rightarrow> nat \<Rightarrow> nat \<Rightarrow> nat \<Rightarrow> u64" where
  "f32_c_address base m_tiles m n =
     (let tile = m div tile_edge + m_tiles * (n div tile_edge); lane = (m mod tile_edge) * tile_edge + n mod tile_edge
      in output_tile_base base tile f32_tile_bytes + word_of_nat (lane * 4))"

definition f16_c_address :: "u64 \<Rightarrow> nat \<Rightarrow> nat \<Rightarrow> nat \<Rightarrow> u64" where
  "f16_c_address base m_tiles m n =
     (let tile = m div tile_edge + m_tiles * (n div tile_edge); lane = (m mod tile_edge) * tile_edge + n mod tile_edge
      in output_tile_base base tile f16_tile_bytes + word_of_nat (lane * 2))"

text \<open>\<open>?\<close> on a result of the buffer.\<close>

definition of_buffer :: "local_buffer_error + 'a \<Rightarrow> 'a cube_result" where
  "of_buffer r = (case r of Err e \<Rightarrow> Err (Fail (LocalBufferFailed e)) | Ok v \<Rightarrow> Ok v)"

definition input_tile_base :: "u64 \<Rightarrow> nat \<Rightarrow> u64" where
  "input_tile_base base offset =
     (let tile = base + word_of_nat (offset div 512 * 512) in if 65536 - 512 < tile then tile mod 65536 else tile)"

definition read_input :: "(usize \<Rightarrow> bool) \<Rightarrow> nat \<Rightarrow> local_buffer \<Rightarrow> u64 \<Rightarrow> nat \<Rightarrow> u8 list cube_result" where
  "read_input reserve n buffer base offset =
     of_buffer (lb_read_initialized_linear reserve buffer (input_tile_base base offset + word_of_nat (offset mod 512)) n)"

section \<open>Accumulators\<close>

datatype accumulator_source = AccZero | AccL0c | AccBias u32 u32

definition accumulator_source_of :: "mmad_parameters \<Rightarrow> accumulator_source" where
  "accumulator_source_of p =
     (if mp_bit_63 p then AccZero
      else if mp_bit_62 p then AccBias (mp_xd_high p) (div_ceil (ucast (mp_n p)) 16 * 16 * 8)
      else AccL0c)"

record cube_accumulator =
  ac_source :: accumulator_source
  ac_bias :: "u8 list"

definition accumulator_load :: "mmad_parameters \<Rightarrow> local_memory \<Rightarrow> cube_accumulator cube_result" where
  "accumulator_load p memory =
     (case accumulator_source_of p of
        AccBias address read_bytes \<Rightarrow>
          (case pv_read_into (lm_bt memory) (ucast address) (replicate (unat read_bytes) 0) of
             Err e \<Rightarrow> Err (Fail (BiasMemory e))
           | Ok bias \<Rightarrow> Ok \<lparr>ac_source = AccBias address read_bytes, ac_bias = bias\<rparr>)
      | source \<Rightarrow> Ok \<lparr>ac_source = source, ac_bias = []\<rparr>)"

definition lane_bytes ::
  "(usize \<Rightarrow> bool) \<Rightarrow> nat \<Rightarrow> cube_accumulator \<Rightarrow> local_memory \<Rightarrow> u64 \<Rightarrow> nat \<Rightarrow> u8 list cube_result" where
  "lane_bytes reserve n a memory output_address column =
     (case ac_source a of
        AccZero \<Rightarrow> Ok (replicate n 0)
      | AccL0c \<Rightarrow> of_buffer (lb_read_initialized_linear reserve (l0_buffer (lm_l0c memory)) output_address n)
      | AccBias _ _ \<Rightarrow>
          let offset = column * 4 in
          if offset + n \<le> length (ac_bias a) then Ok (take n (drop offset (ac_bias a))) else Err Panic)"

definition lane_u32 :: "(usize \<Rightarrow> bool) \<Rightarrow> cube_accumulator \<Rightarrow> local_memory \<Rightarrow> u64 \<Rightarrow> nat \<Rightarrow> u32 cube_result" where
  "lane_u32 reserve a memory output_address column =
     and_then (lane_bytes reserve 4 a memory output_address column) (\<lambda>bytes. Ok (ucast (from_le_bytes bytes)))"

definition lane_u16 :: "(usize \<Rightarrow> bool) \<Rightarrow> cube_accumulator \<Rightarrow> local_memory \<Rightarrow> u64 \<Rightarrow> nat \<Rightarrow> u16 cube_result" where
  "lane_u16 reserve a memory output_address column =
     and_then (lane_bytes reserve 2 a memory output_address column) (\<lambda>bytes. Ok (ucast (from_le_bytes bytes)))"

end
