(* ===== verification/Exact_Round.thy ===== *)
theory Exact_Round
  imports Exact_Dyadic
begin

text \<open>
  What the rounding of the accumulator computes: the nearest finite value of the target format, ties to the even one;
  values that would be subnormal after rounding are flushed to zero, values past the largest finite one saturate.
\<close>

unbundle bit_operations_syntax

section \<open>Rounding to a multiple of a power of two\<close>

definition round_half_even :: "nat \<Rightarrow> nat \<Rightarrow> nat" where
  "round_half_even k v =
     (let q = v div 2 ^ k; r = v mod 2 ^ k in if 2 ^ k < 2 * r \<or> 2 * r = 2 ^ k \<and> odd q then q + 1 else q)"

lemma round_half_even_bounds:
  "v div 2 ^ k \<le> round_half_even k v \<and> round_half_even k v \<le> v div 2 ^ k + 1"
  by (simp add: round_half_even_def Let_def)

text \<open>The bit test of the code.\<close>

lemma half_bit_test:
  fixes v :: nat
  assumes "0 < k"
  shows "bit v (k - 1) \<and> (v mod 2 ^ (k - 1) \<noteq> 0 \<or> odd (v div 2 ^ k)) \<longleftrightarrow>
    2 ^ k < 2 * (v mod 2 ^ k) \<or> 2 * (v mod 2 ^ k) = 2 ^ k \<and> odd (v div 2 ^ k)"
proof -
  obtain j where k: "k = Suc j" using assms by (cases k) auto
  have m: "v mod 2 ^ k = 2 ^ j * (v div 2 ^ j mod 2) + v mod 2 ^ j"
    unfolding k power_Suc2 by (rule mod_mult2_eq)
  have b: "bit v j \<longleftrightarrow> odd (v div 2 ^ j)" by (rule bit_iff_odd)
  have l: "v mod 2 ^ j < 2 ^ j" by simp
  show ?thesis
  proof (cases "odd (v div 2 ^ j)")
    case True
    then have "v mod 2 ^ k = 2 ^ j + v mod 2 ^ j" using m by (simp add: odd_iff_mod_2_eq_one)
    with True show ?thesis unfolding k by (simp add: b) auto
  next
    case False
    then have "v mod 2 ^ k = v mod 2 ^ j" using m by (simp add: even_iff_mod_2_eq_zero)
    with l have "2 * (v mod 2 ^ k) < 2 ^ k" unfolding k by simp
    with False show ?thesis unfolding k by (simp add: b)
  qed
qed

lemma round_half_even_nearest:
  fixes j :: int and v :: nat
  assumes "0 < k"
  defines "B \<equiv> 2 ^ k :: int" and "R \<equiv> int (round_half_even k v)"
  shows "\<bar>R * B - int v\<bar> \<le> \<bar>j * B - int v\<bar> \<and> (j \<noteq> R \<and> \<bar>R * B - int v\<bar> = \<bar>j * B - int v\<bar> \<longrightarrow> even (round_half_even k v))"
proof -
  let ?q = "int (v div 2 ^ k)" and ?r = "int (v mod 2 ^ k)"
  have v: "int v = ?q * B + ?r" 
  proof -
    have "int v = int (v div 2 ^ k * 2 ^ k + v mod 2 ^ k)" by (simp only: div_mult_mod_eq)
    also have "\<dots> = ?q * B + ?r" unfolding B_def by (simp only: of_nat_add of_nat_mult of_nat_power of_nat_numeral)
    finally show ?thesis .
  qed
  have r: "0 \<le> ?r" "?r < B" unfolding B_def by (simp_all add: zmod_int)
  have up: "int (2 ^ k) = B" by (simp add: B_def)
  have t: "2 ^ k < 2 * (v mod 2 ^ k) \<longleftrightarrow> B < 2 * ?r" "2 * (v mod 2 ^ k) = 2 ^ k \<longleftrightarrow> 2 * ?r = B"
    using up by linarith+
  have low: "?r \<le> \<bar>j * B - int v\<bar> \<and> (?r = \<bar>j * B - int v\<bar> \<longrightarrow> j = ?q)" if "j \<le> ?q"
  proof -
    have "j * B \<le> ?q * B" using that r by (intro mult_right_mono) linarith+
    moreover have "(j + 1) * B \<le> ?q * B" if "j \<noteq> ?q" using that \<open>j \<le> ?q\<close> r by (intro mult_right_mono) linarith+
    ultimately show ?thesis using v r by (cases "j = ?q") (auto simp: algebra_simps)
  qed
  have high: "B - ?r \<le> \<bar>j * B - int v\<bar> \<and> (B - ?r = \<bar>j * B - int v\<bar> \<longrightarrow> j = ?q + 1)" if "?q < j"
  proof -
    have "(?q + 1) * B \<le> j * B" using that r by (intro mult_right_mono) linarith+
    moreover have "(?q + 2) * B \<le> j * B" if "j \<noteq> ?q + 1" using that \<open>?q < j\<close> r by (intro mult_right_mono) linarith+
    ultimately show ?thesis using v r by (cases "j = ?q + 1") (auto simp: algebra_simps)
  qed
  show ?thesis
  proof (cases "2 ^ k < 2 * (v mod 2 ^ k) \<or> 2 * (v mod 2 ^ k) = 2 ^ k \<and> odd (v div 2 ^ k)")
    case True
    then have s: "round_half_even k v = v div 2 ^ k + 1" by (simp add: round_half_even_def Let_def)
    then have "R = ?q + 1" by (simp add: R_def)
    then have e: "\<bar>R * B - int v\<bar> = B - ?r" using v r by (simp add: algebra_simps)
    have ge: "B \<le> 2 * ?r" and tie: "2 * ?r = B \<Longrightarrow> odd (v div 2 ^ k)" using True t by auto
    show ?thesis
    proof (cases "j \<le> ?q")
      case True
      with low ge tie s e show ?thesis by auto
    next
      case False
      with high e \<open>R = ?q + 1\<close> show ?thesis by auto
    qed
  next
    case False
    then have s: "round_half_even k v = v div 2 ^ k" by (simp add: round_half_even_def Let_def)
    then have "R = ?q" by (simp add: R_def)
    then have e: "\<bar>R * B - int v\<bar> = ?r" using v r by simp
    have le: "2 * ?r \<le> B" and tie: "2 * ?r = B \<Longrightarrow> even (v div 2 ^ k)" using False t by auto
    show ?thesis
    proof (cases "j \<le> ?q")
      case True
      with low e \<open>R = ?q\<close> show ?thesis by auto
    next
      case False
      with high le tie s e show ?thesis by auto
    qed
  qed
qed

text \<open>When rounding reaches the next power of two.\<close>

lemma round_half_even_carry:
  assumes "v < 2 ^ (k + m)" "0 < k" "0 < m"
  shows "round_half_even k v \<le> 2 ^ m \<and> (round_half_even k v = 2 ^ m \<longleftrightarrow> 2 ^ (k + m) - 2 ^ (k - 1) \<le> v)"
proof -
  let ?q = "v div 2 ^ k" and ?r = "v mod 2 ^ k"
  have q: "?q < 2 ^ m" using assms(1) by (simp add: less_mult_imp_div_less power_add mult.commute)
  have v: "v = 2 ^ k * ?q + ?r" by simp
  have r: "?r < 2 ^ k" by simp
  have half: "2 * 2 ^ (k - 1) = (2 :: nat) ^ k" using assms(2) by (cases k) auto
  show ?thesis
  proof (cases "?q + 1 < 2 ^ m")
    case True
    then have "2 ^ k * (?q + 2) \<le> 2 ^ k * 2 ^ m" by (intro mult_le_mono2) simp
    then have "2 ^ k * ?q + 2 ^ k + 2 ^ k \<le> 2 ^ (k + m)" by (simp add: power_add algebra_simps)
    then have "v + 2 ^ k \<le> 2 ^ (k + m)" using v r by linarith
    moreover have "(0 :: nat) < 2 ^ (k - 1)" by simp
    ultimately have "\<not> 2 ^ (k + m) - 2 ^ (k - 1) \<le> v" using half by linarith
    with True round_half_even_bounds [of v k] show ?thesis by auto
  next
    case False
    with q have e: "?q = 2 ^ m - 1" by linarith
    then have o: "odd ?q" using assms(3) by simp
    have "2 ^ k * ?q = 2 ^ (k + m) - 2 ^ k" unfolding e by (simp add: diff_mult_distrib2 power_add)
    moreover have "(2 :: nat) ^ k \<le> 2 ^ (k + m)" by simp
    ultimately have "2 ^ (k + m) - 2 ^ (k - 1) \<le> v \<longleftrightarrow> 2 ^ k \<le> 2 * ?r"
      using v half by linarith
    moreover have "round_half_even k v = (if 2 ^ k \<le> 2 * ?r then ?q + 1 else ?q)"
      using o by (auto simp: round_half_even_def Let_def)
    moreover have "?q + 1 = 2 ^ m" using e q by linarith
    ultimately show ?thesis using q by (simp split: if_splits)
  qed
qed

lemma round_half_even_normal:
  assumes "2 ^ h \<le> v" "v < 2 ^ Suc h" "p < h"
  shows "2 ^ p \<le> round_half_even (h - p) v \<and> round_half_even (h - p) v \<le> 2 ^ Suc p"
proof -
  have "2 ^ p * 2 ^ (h - p) = (2 :: nat) ^ h" using assms(3) by (simp flip: power_add)
  then have "2 ^ p \<le> v div 2 ^ (h - p)" using assms(1) by (metis div_le_mono nonzero_mult_div_cancel_right power_not_zero zero_neq_numeral)
  moreover have "v < 2 ^ (h - p + Suc p)" using assms by simp
  ultimately show ?thesis
    using round_half_even_carry [of v "h - p" "Suc p"] round_half_even_bounds [of v "h - p"] assms(3) by simp
qed

section \<open>The grid of a format\<close>

text \<open>
  A format with \<open>p\<close> fraction bits on a scale where the least subnormal is \<open>2 ^ q\<close>. Above \<open>2 ^ h\<close> its values are
  multiples of \<open>2 ^ (h - p)\<close>.
\<close>

lemma float_grid:
  assumes "f < 2 ^ p" "p + q \<le> h"
  shows "float_magnitude p e f * 2 ^ q < 2 ^ h \<or> 2 ^ (h - p) dvd float_magnitude p e f * 2 ^ q"
proof (cases "e = 0")
  case True
  then have "float_magnitude p e f * 2 ^ q < 2 ^ p * 2 ^ q" using assms(1) by (simp add: float_magnitude_def)
  also have "\<dots> \<le> 2 ^ h" using assms(2) unfolding power_add [symmetric] by (intro power_increasing) simp_all
  finally show ?thesis ..
next
  case False
  then have m: "float_magnitude p e f * 2 ^ q = (2 ^ p + f) * 2 ^ (e - 1 + q)"
    by (simp only: float_magnitude_def if_False power_add mult.assoc)
  show ?thesis
  proof (cases "h - p \<le> e - 1 + q")
    case True
    then show ?thesis unfolding m by (simp add: le_imp_power_dvd dvd_mult)
  next
    case less: False
    have "(2 ^ p + f) * 2 ^ (e - 1 + q) < 2 ^ Suc p * 2 ^ (e - 1 + q)" using assms(1) by simp
    also have "\<dots> \<le> 2 ^ h" using less unfolding power_add [symmetric] by (intro power_increasing) simp_all
    finally show ?thesis unfolding m ..
  qed
qed

lemma float_multiple: "2 ^ q dvd float_magnitude p e f * 2 ^ q"
  by simp

text \<open>Rounding in the binade of \<open>v\<close> is rounding to the nearest value of the format.\<close>

lemma binade_nearest:
  fixes y :: int and v :: nat
  assumes h: "2 ^ h \<le> v" "v < 2 ^ Suc h" "p < h"
    and grid: "\<bar>y\<bar> < 2 ^ h \<or> 2 ^ (h - p) dvd y"
  defines "R \<equiv> int (round_half_even (h - p) v * 2 ^ (h - p))"
  shows "\<bar>R - int v\<bar> \<le> \<bar>y - int v\<bar> \<and> (y \<noteq> R \<and> \<bar>R - int v\<bar> = \<bar>y - int v\<bar> \<longrightarrow> even (round_half_even (h - p) v))"
proof -
  have k: "0 < h - p" using h by simp
  note near = round_half_even_nearest [OF k, of v]
  have R: "R = int (round_half_even (h - p) v) * 2 ^ (h - p)" by (simp add: R_def)
  from grid show ?thesis
  proof
    assume "2 ^ (h - p) dvd y"
    then obtain j where "y = j * 2 ^ (h - p)" by (auto simp: dvd_def ac_simps)
    with near [of j] show ?thesis unfolding R by auto
  next
    assume y: "\<bar>y\<bar> < 2 ^ h"
    have e: "2 ^ p * 2 ^ (h - p) = (2 :: int) ^ h" using h by (simp flip: power_add)
    have v: "(2 :: int) ^ h \<le> int v" using h(1) by (metis of_nat_le_iff of_nat_numeral of_nat_power)
    have "\<bar>R - int v\<bar> \<le> \<bar>2 ^ h - int v\<bar>" using near [of "2 ^ p"] unfolding R e by simp
    also have "\<dots> < \<bar>y - int v\<bar>" using y v by linarith
    finally show ?thesis by simp
  qed
qed

lemma subnormal_nearest:
  fixes y :: int and v :: nat
  assumes "0 < q" "2 ^ q dvd y"
  defines "R \<equiv> int (round_half_even q v * 2 ^ q)"
  shows "\<bar>R - int v\<bar> \<le> \<bar>y - int v\<bar> \<and> (y \<noteq> R \<and> \<bar>R - int v\<bar> = \<bar>y - int v\<bar> \<longrightarrow> even (round_half_even q v))"
proof -
  obtain j where "y = j * 2 ^ q" using assms(2) by (auto simp: dvd_def ac_simps)
  with round_half_even_nearest [OF assms(1), of v j] show ?thesis by (auto simp: R_def)
qed

section \<open>Normalising a rounded significand\<close>

text \<open>The carry of the code: a significand that reached \<open>2 ^ Suc p\<close> moves to the next binade.\<close>

definition normalise :: "nat \<Rightarrow> nat \<Rightarrow> nat \<Rightarrow> nat \<times> nat" where
  "normalise p h s = (if s = 2 ^ Suc p then (2 ^ p, h + 1) else (s, h))"

lemma normalise_value:
  assumes v: "2 ^ h \<le> v" "v < 2 ^ Suc h" and q: "0 < q" "q + p \<le> h" and n: "normalise p h (round_half_even (h - p) v) = (s, h')"
  shows "2 ^ p \<le> s \<and> s < 2 ^ Suc p \<and> h \<le> h' \<and>
    float_magnitude p (h' - (q + p) + 1) (s - 2 ^ p) * 2 ^ q = round_half_even (h - p) v * 2 ^ (h - p) \<and>
    (0 < p \<longrightarrow> even s = even (round_half_even (h - p) v))"
proof -
  let ?r = "round_half_even (h - p) v"
  have b: "2 ^ p \<le> ?r" "?r \<le> 2 ^ Suc p" using round_half_even_normal [OF v, of p] q by auto
  have m: "float_magnitude p (k - (q + p) + 1) (t - 2 ^ p) * 2 ^ q = t * 2 ^ (k - p)" if "2 ^ p \<le> t" "q + p \<le> k" for k t
  proof -
    have "k - p = k - (q + p) + q" using that(2) by simp
    then show ?thesis using that(1) by (simp add: float_magnitude_def power_add)
  qed
  show ?thesis
  proof (cases "?r = 2 ^ Suc p")
    case True
    then have sh: "s = 2 ^ p" "h' = h + 1" using n by (simp_all add: normalise_def)
    have "(2 :: nat) ^ p * 2 ^ (h + 1 - p) = 2 ^ Suc p * 2 ^ (h - p)" using q by (simp add: Suc_diff_le)
    with m [of s "h + 1"] q True show ?thesis by (simp add: sh)
  next
    case False
    then have "s = ?r" "h' = h" using n by (auto simp: normalise_def)
    with m [OF b(1), of h] b False q show ?thesis by simp
  qed
qed

lemma normalise_overflow:
  assumes v: "2 ^ h \<le> v" "v < 2 ^ Suc h" and p: "p < h" and t: "p + 2 \<le> t"
    and n: "normalise p h (round_half_even (h - p) v) = (s, h')"
  shows "t \<le> h' \<longleftrightarrow> 2 ^ t - 2 ^ (t - p - 2) \<le> v"
proof -
  let ?r = "round_half_even (h - p) v"
  have carry: "h' = h + of_bool (?r = 2 ^ Suc p)" using n by (auto simp: normalise_def split: if_splits)
  consider "t \<le> h" | "t = Suc h" | "Suc h < t" by linarith
  then show ?thesis
  proof cases
    case 1
    then have "(2 :: nat) ^ t \<le> 2 ^ h" by (intro power_increasing) simp_all
    then have "2 ^ t - 2 ^ (t - p - 2) \<le> v" using v(1) by linarith
    with 1 carry show ?thesis by simp
  next
    case 2
    have e: "h - p + Suc p = t" "h - p - 1 = t - p - 2" using p 2 by simp_all
    from round_half_even_carry [of v "h - p" "Suc p", unfolded e] v p 2 carry show ?thesis by simp
  next
    case 3
    then have "(2 :: nat) ^ Suc h \<le> 2 ^ (t - 1)" by (intro power_increasing) simp_all
    moreover have "(2 :: nat) ^ (t - p - 2) \<le> 2 ^ (t - 1)" by (intro power_increasing) simp_all
    moreover have "2 * (2 :: nat) ^ (t - 1) = 2 ^ t" using t by (cases t) simp_all
    ultimately have "v < 2 ^ t - 2 ^ (t - p - 2)" using v by linarith
    with 3 carry show ?thesis by simp
  qed
qed

section \<open>Packed words\<close>

lemma pack_fields:
  fixes f :: "'w::len word" and e p n :: nat and s :: bool
  assumes "p + n + 1 = LENGTH('w)" "e < 2 ^ n"
  defines "w \<equiv> push_bit (p + n) (of_bool s) OR push_bit p (word_of_nat e) OR (f AND mask p)"
  shows "bit w (p + n) = s" and "unat (take_bit n (drop_bit p w)) = e" and "take_bit p w = take_bit p f"
    and "0 < p \<Longrightarrow> bit w 0 = bit f 0"
proof -
  have ne: "\<not> bit e j" if "n \<le> j" for j using assms(2) that unfolding nat_less_exp_iff by blast
  have small: "j < p + n \<and> j < LENGTH('w) \<and> j - p < LENGTH('w)" if "bit e (j - p)" for j
    using ne [of "j - p"] that assms(1) by linarith
  have w: "bit w j \<longleftrightarrow> j < p \<and> bit f j \<or> p \<le> j \<and> j < p + n \<and> bit e (j - p) \<or> j = p + n \<and> s" for j
    unfolding w_def using assms(1) small
    by (cases s) (auto simp: bit_simps mask_eq_exp_minus_1 [symmetric] not_le dest: bit_imp_le_length)
  show "bit w (p + n) = s" by (simp add: w)
  show "take_bit p w = take_bit p f" by (rule bit_word_eqI) (auto simp: bit_simps w)
  show "0 < p \<Longrightarrow> bit w 0 = bit f 0" by (simp add: w)
  have nb: "j < n" if "bit e j" for j using ne that not_le by blast
  have "take_bit n (drop_bit p w) = word_of_nat e"
    by (rule bit_word_eqI) (use assms(1) in \<open>auto simp: bit_simps w dest: nb\<close>)
  moreover have "(2 :: nat) ^ n \<le> 2 ^ LENGTH('w)" using assms(1) by (intro power_increasing) simp_all
  then have "e < 2 ^ LENGTH('w)" by (rule less_le_trans [OF assms(2)])
  ultimately show "unat (take_bit n (drop_bit p w)) = e" by (simp add: unat_word_of_nat_small)
qed

section \<open>The code computes it\<close>

lemma rounds_up_value:
  assumes "0 < k" "k \<le> 64 * length value"
  shows "rounds_up value (k - 1) (odd (magnitude_value value div 2 ^ k)) =
    Ok (round_half_even k (magnitude_value value) = magnitude_value value div 2 ^ k + 1)"
proof -
  have "k - 1 < 64 * length value" using assms by linarith
  then have below: "any_bits_below value (k - 1) = (Ok (magnitude_value value mod 2 ^ (k - 1) \<noteq> 0) :: bool cube_result)"
    by (rule any_bits_below_value)
  have "rounds_up value (k - 1) (odd (magnitude_value value div 2 ^ k)) =
      Ok (bit (magnitude_value value) (k - 1) \<and>
        (magnitude_value value mod 2 ^ (k - 1) \<noteq> 0 \<or> odd (magnitude_value value div 2 ^ k)))"
    unfolding rounds_up_def magnitude_bit_value below and_then_simps by simp
  then show ?thesis unfolding half_bit_test [OF assms(1)] by (simp add: round_half_even_def Let_def)
qed

lemma ucast_of_nat64: "ucast (word_of_nat n :: u64) = (word_of_nat n :: 'w::len word)" if "LENGTH('w) \<le> 64"
  by (rule bit_word_eqI) (use that in \<open>auto simp: bit_simps\<close>)

lemma and_one_word: "(word_of_nat n AND 1 \<noteq> (0 :: 'w::len word)) \<longleftrightarrow> odd n"
  using sign_test [of "word_of_nat n :: 'w word" 0] by (simp add: bit_0)

lemma round_word:
  "word_of_nat (v div 2 ^ k) + of_bool (round_half_even k v = v div 2 ^ k + 1) = (word_of_nat (round_half_even k v) :: 'w::len word)"
proof (cases "round_half_even k v = v div 2 ^ k + 1")
  case False
  then have "round_half_even k v = v div 2 ^ k" using round_half_even_bounds [of v k] by linarith
  then show ?thesis by simp
qed simp

lemma word_of_nat_eq: "m < 2 ^ LENGTH('w) \<Longrightarrow> n < 2 ^ LENGTH('w) \<Longrightarrow> word_of_nat m = (word_of_nat n :: 'w::len word) \<longleftrightarrow> m = n"
  by (simp add: word_eq_unat unat_word_of_nat_small)

lemma highest_bit_unique:
  assumes "2 ^ h \<le> magnitude_value value" "magnitude_value value < 2 ^ Suc h"
  shows "highest_bit value = Some h \<and> h < 64 * length value"
proof (cases "highest_bit value")
  case None
  with assms show ?thesis by (simp add: highest_bit_None)
next
  case (Some k)
  from highest_bit_Some [OF Some] have k: "2 ^ k \<le> magnitude_value value" "magnitude_value value < 2 ^ Suc k" "k < 64 * length value"
    by auto
  have "(2 :: nat) ^ h < 2 ^ Suc k" "(2 :: nat) ^ k < 2 ^ Suc h" using assms k by linarith+
  then have "h = k" by (simp only: power_strict_increasing_iff one_less_numeral_iff semiring_norm)
  with Some k show ?thesis by simp
qed

definition rounded_sign :: "exact_dyadic \<Rightarrow> bool \<Rightarrow> bool" where
  "rounded_sign d negative_zero = (if exact_int d = 0 then negative_zero else exact_int d < 0)"

lemma rounded_sign_code: "(if exact_is_zero d then nz else ed_negative d) = rounded_sign d nz"
proof -
  have "exact_is_zero d \<longleftrightarrow> magnitude_value (ed_magnitude d) = 0" by (simp add: exact_is_zero_def magnitude_value_0_iff)
  then show ?thesis by (auto simp: rounded_sign_def exact_int_def sign_mag_def)
qed

lemma round_f32_zero:
  "magnitude_value (ed_magnitude d) = 0 \<Longrightarrow> round_f32 d nz = Ok (push_bit 31 (of_bool (rounded_sign d nz)), fp_status_default)"
  using highest_bit_None [of "ed_magnitude d"] by (simp add: round_f32_def Let_def rounded_sign_code)

lemma round_f32_subnormal:
  assumes ok: "exact_ok d" and v: "2 ^ h \<le> v" "v < 2 ^ Suc h" "v = magnitude_value (ed_magnitude d)" and h: "h < 172"
  shows "round_f32 d nz = Ok
    (if round_half_even 149 v = 2 ^ 23 then (push_bit 31 (of_bool (rounded_sign d nz)) OR push_bit 23 1, fp_status_default)
     else (push_bit 31 (of_bool (rounded_sign d nz)), fp_status_default\<lparr>fs_underflow := True\<rparr>))"
proof -
  have hb: "highest_bit (ed_magnitude d) = Some h" using highest_bit_unique v by blast
  have less: "v < 2 ^ (149 + 23)"
  proof -
    have "(2 :: nat) ^ Suc h \<le> 2 ^ (149 + 23)" using h by (intro power_increasing) simp_all
    with v(2) show ?thesis by linarith
  qed
  have len: "149 \<le> 64 * length (ed_magnitude d)" using ok by (simp add: exact_ok_def exact_limbs_def)
  have up: "rounds_up (ed_magnitude d) 148 (odd (v div 2 ^ 149)) = Ok (round_half_even 149 v = v div 2 ^ 149 + 1)"
    using rounds_up_value [of 149, OF _ len] by (simp add: v(3))
  have low: "ucast (low_u64_after_shift (ed_magnitude d) 149) = (word_of_nat (v div 2 ^ 149) :: u32)"
    by (simp add: low_after_shift_value ucast_of_nat64 drop_bit_eq_div v(3))
  have "round_half_even 149 v \<le> 2 ^ 23" using round_half_even_carry [OF less] by simp
  then have eq: "(word_of_nat (round_half_even 149 v) :: u32) = push_bit 23 1 \<longleftrightarrow> round_half_even 149 v = 2 ^ 23"
    using word_of_nat_eq [of "round_half_even 149 v" "2 ^ 23", where 'w = 32] by simp
  show ?thesis
    unfolding round_f32_def Let_def rounded_sign_code hb option.case if_P [OF h] low and_one_word up and_then_simps
      round_word eq by simp
qed

lemma round_f32_normal:
  assumes ok: "exact_ok d" and v: "2 ^ h \<le> v" "v < 2 ^ Suc h" "v = magnitude_value (ed_magnitude d)" and h: "172 \<le> h"
    and n: "normalise 23 h (round_half_even (h - 23) v) = (s, h')"
  shows "round_f32 d nz = Ok
    (if 426 \<le> h' then (push_bit 31 (of_bool (rounded_sign d nz)) OR F32_MAX_FINITE, fp_status_default\<lparr>fs_overflow := True\<rparr>)
     else (push_bit 31 (of_bool (rounded_sign d nz)) OR push_bit 23 (word_of_nat (h' - 171)) OR (word_of_nat s AND F32_FRACTION),
       fp_status_default))"
proof -
  have hb: "highest_bit (ed_magnitude d) = Some h" and hl: "h < 64 * length (ed_magnitude d)"
    using highest_bit_unique [of h "ed_magnitude d"] v by auto
  let ?k = "h - 23" and ?r = "round_half_even (h - 23) v"
  have k: "0 < ?k" "?k \<noteq> 0" "\<not> h < 172" using h by linarith+
  have up: "rounds_up (ed_magnitude d) (?k - 1) (odd (v div 2 ^ ?k)) = Ok (?r = v div 2 ^ ?k + 1)"
    using rounds_up_value [of ?k "ed_magnitude d"] k hl by (simp add: v(3))
  have low: "ucast (low_u64_after_shift (ed_magnitude d) ?k) = (word_of_nat (v div 2 ^ ?k) :: u32)"
    by (simp add: low_after_shift_value ucast_of_nat64 drop_bit_eq_div v(3))
  have b: "?r \<le> 2 ^ 24" using round_half_even_normal [OF v(1,2), of 23] h by simp
  have eq: "(word_of_nat ?r :: u32) = push_bit 24 1 \<longleftrightarrow> ?r = 2 ^ 24"
    using word_of_nat_eq [of ?r "2 ^ 24", where 'w = 32] b by simp
  have half: "drop_bit 1 (push_bit 24 1 :: u32) = word_of_nat (2 ^ 23)" by simp
  have sig: "(if ?r = 2 ^ 24 then (drop_bit 1 (word_of_nat ?r :: u32), h + 1) else (word_of_nat ?r, h)) = (word_of_nat s, h')"
    using n half by (auto simp: normalise_def)
  have raw: "255 \<le> h' - 171 \<longleftrightarrow> 426 \<le> h'" by linarith
  show ?thesis
    unfolding round_f32_def Let_def rounded_sign_code hb option.case if_not_P [OF k(3)] if_P [OF k(2)] low and_one_word up
      and_then_simps round_word eq sig prod.case raw by (simp only: if_distrib [of Ok])
qed

lemma round_f16_zero:
  "magnitude_value (ed_magnitude d) = 0 \<Longrightarrow> round_f16 d nz mode = Ok (push_bit 15 (of_bool (rounded_sign d nz)), fp_status_default)"
  using highest_bit_None [of "ed_magnitude d"] by (simp add: round_f16_def Let_def rounded_sign_code)

lemma round_f16_subnormal:
  assumes ok: "exact_ok d" and v: "2 ^ h \<le> v" "v < 2 ^ Suc h" "v = magnitude_value (ed_magnitude d)" and h: "h < 284"
  shows "round_f16 d nz mode = Ok
    (if round_half_even 274 v = 2 ^ 10 then (push_bit 15 (of_bool (rounded_sign d nz)) OR 0x400, fp_status_default)
     else (push_bit 15 (of_bool (rounded_sign d nz)), fp_status_default\<lparr>fs_underflow := True\<rparr>))"
proof -
  have hb: "highest_bit (ed_magnitude d) = Some h" using highest_bit_unique v by blast
  have less: "v < 2 ^ (274 + 10)"
  proof -
    have "(2 :: nat) ^ Suc h \<le> 2 ^ (274 + 10)" using h by (intro power_increasing) simp_all
    with v(2) show ?thesis by linarith
  qed
  have len: "274 \<le> 64 * length (ed_magnitude d)" using ok by (simp add: exact_ok_def exact_limbs_def)
  have up: "rounds_up (ed_magnitude d) 273 (odd (v div 2 ^ 274)) = Ok (round_half_even 274 v = v div 2 ^ 274 + 1)"
    using rounds_up_value [of 274, OF _ len] by (simp add: v(3))
  have low: "ucast (low_u64_after_shift (ed_magnitude d) 274) = (word_of_nat (v div 2 ^ 274) :: u16)"
    by (simp add: low_after_shift_value ucast_of_nat64 drop_bit_eq_div v(3))
  have "round_half_even 274 v \<le> 2 ^ 10" using round_half_even_carry [OF less] by simp
  then have eq: "(word_of_nat (round_half_even 274 v) :: u16) = 0x400 \<longleftrightarrow> round_half_even 274 v = 2 ^ 10"
    using word_of_nat_eq [of "round_half_even 274 v" "2 ^ 10", where 'w = 16] by simp
  show ?thesis
    unfolding round_f16_def Let_def rounded_sign_code hb option.case if_P [OF h] low and_one_word up and_then_simps
      round_word eq by simp
qed

lemma round_f16_normal:
  assumes ok: "exact_ok d" and v: "2 ^ h \<le> v" "v < 2 ^ Suc h" "v = magnitude_value (ed_magnitude d)" and h: "284 \<le> h"
    and n: "normalise 10 h (round_half_even (h - 10) v) = (s, h')"
  shows "round_f16 d nz mode = Ok
    (if 314 \<le> h' then (push_bit 15 (of_bool (rounded_sign d nz)) OR (case mode of Saturating \<Rightarrow> F16_MAX_FINITE | NonSaturating \<Rightarrow> F16_EXPONENT), fp_status_default\<lparr>fs_overflow := True\<rparr>)
     else (push_bit 15 (of_bool (rounded_sign d nz)) OR push_bit 10 (word_of_nat (h' - 283)) OR (word_of_nat s AND F16_FRACTION),
       fp_status_default))"
proof -
  have hb: "highest_bit (ed_magnitude d) = Some h" and hl: "h < 64 * length (ed_magnitude d)"
    using highest_bit_unique [of h "ed_magnitude d"] v by auto
  let ?k = "h - 10" and ?r = "round_half_even (h - 10) v"
  have k: "0 < ?k" "?k \<noteq> 0" "\<not> h < 284" using h by linarith+
  have up: "rounds_up (ed_magnitude d) (?k - 1) (odd (v div 2 ^ ?k)) = Ok (?r = v div 2 ^ ?k + 1)"
    using rounds_up_value [of ?k "ed_magnitude d"] k hl by (simp add: v(3))
  have low: "ucast (low_u64_after_shift (ed_magnitude d) ?k) = (word_of_nat (v div 2 ^ ?k) :: u16)"
    by (simp add: low_after_shift_value ucast_of_nat64 drop_bit_eq_div v(3))
  have b: "?r \<le> 2 ^ 11" using round_half_even_normal [OF v(1,2), of 10] h by simp
  have eq: "(word_of_nat ?r :: u16) = push_bit 11 1 \<longleftrightarrow> ?r = 2 ^ 11"
    using word_of_nat_eq [of ?r "2 ^ 11", where 'w = 16] b by simp
  have half: "drop_bit 1 (push_bit 11 1 :: u16) = word_of_nat (2 ^ 10)" by simp
  have sig: "(if ?r = 2 ^ 11 then (drop_bit 1 (word_of_nat ?r :: u16), h + 1) else (word_of_nat ?r, h)) = (word_of_nat s, h')"
    using n half by (auto simp: normalise_def)
  have raw: "31 \<le> h' - 283 \<longleftrightarrow> 314 \<le> h'" by linarith
  show ?thesis
    unfolding round_f16_def Let_def rounded_sign_code hb option.case if_not_P [OF k(3)] if_P [OF k(2)] low and_one_word up
      and_then_simps round_word eq sig prod.case raw by (simp only: if_distrib [of Ok])
qed

section \<open>Specification\<close>

text \<open>\<open>w\<close> is the finite word whose value is nearest to \<open>x\<close>, the even one of two equally near ones.\<close>

definition nearest_word :: "('w::len word \<Rightarrow> bool) \<Rightarrow> ('w word \<Rightarrow> int) \<Rightarrow> int \<Rightarrow> 'w word \<Rightarrow> bool" where
  "nearest_word fin val x w \<longleftrightarrow>
     fin w \<and> (\<forall>y. fin y \<longrightarrow> \<bar>val w - x\<bar> \<le> \<bar>val y - x\<bar> \<and> (val y \<noteq> val w \<and> \<bar>val w - x\<bar> = \<bar>val y - x\<bar> \<longrightarrow> \<not> bit w 0))"

text \<open>Words on the scale of the accumulator, \<open>2 ^ (-298)\<close>.\<close>

definition f32_scaled :: "u32 \<Rightarrow> int" where
  "f32_scaled w = 2 ^ 149 * f32_int w"

definition f16_scaled :: "u16 \<Rightarrow> int" where
  "f16_scaled w = 2 ^ 274 * f16_int w"

text \<open>
  The rounding to single precision: the sign of the value; zero with the underflow flag below \<open>2 ^ (-126) - 2 ^ (-150)\<close>,
  the largest finite value with the overflow flag from \<open>2 ^ 128 - 2 ^ 103\<close> on, and the nearest value in between.
\<close>

definition f32_rounded :: "int \<Rightarrow> bool \<Rightarrow> u32 \<times> cube_fp_status \<Rightarrow> bool" where
  "f32_rounded x negative_zero result \<longleftrightarrow>
     (let (bits, status) = result in
      (bit bits 31 \<longleftrightarrow> (if x = 0 then negative_zero else x < 0)) \<and>
      (if x = 0 then f32_int bits = 0 \<and> status = fp_status_default
       else if \<bar>x\<bar> < 2 ^ 172 - 2 ^ 148 then f32_int bits = 0 \<and> status = fp_status_default\<lparr>fs_underflow := True\<rparr>
       else if 2 ^ 426 - 2 ^ 401 \<le> \<bar>x\<bar> then
         take_bit 31 bits = F32_MAX_FINITE \<and> status = fp_status_default\<lparr>fs_overflow := True\<rparr>
       else nearest_word f32_finite f32_scaled x bits \<and> status = fp_status_default))"

definition f16_rounded :: "int \<Rightarrow> bool \<Rightarrow> fp16_mode \<Rightarrow> u16 \<times> cube_fp_status \<Rightarrow> bool" where
  "f16_rounded x negative_zero mode result \<longleftrightarrow>
     (let (bits, status) = result in
      (bit bits 15 \<longleftrightarrow> (if x = 0 then negative_zero else x < 0)) \<and>
      (if x = 0 then f16_int bits = 0 \<and> status = fp_status_default
       else if \<bar>x\<bar> < 2 ^ 284 - 2 ^ 273 then f16_int bits = 0 \<and> status = fp_status_default\<lparr>fs_underflow := True\<rparr>
       else if 2 ^ 314 - 2 ^ 302 \<le> \<bar>x\<bar> then
         take_bit 15 bits = (if mode = Saturating then F16_MAX_FINITE else F16_EXPONENT) \<and>
         status = fp_status_default\<lparr>fs_overflow := True\<rparr>
       else nearest_word f16_finite f16_scaled x bits \<and> status = fp_status_default))"

text \<open>A word with the sign of \<open>x\<close> whose magnitude is the nearest one.\<close>

lemma nearest_wordI:
  assumes "fin w" and x: "x = sign_mag neg v" and w: "val w = sign_mag neg m"
    and even: "\<not> bit w 0 \<longleftrightarrow> e"
    and near: "\<And>y :: int. (\<exists>z. fin z \<and> \<bar>y\<bar> = \<bar>val z\<bar>) \<Longrightarrow>
      \<bar>int m - int v\<bar> \<le> \<bar>y - int v\<bar> \<and> (y \<noteq> int m \<and> \<bar>int m - int v\<bar> = \<bar>y - int v\<bar> \<longrightarrow> e)"
  shows "nearest_word fin val x w"
proof -
  have d: "\<bar>val w - x\<bar> = \<bar>int m - int v\<bar>" by (auto simp: x w sign_mag_def)
  have "\<bar>val w - x\<bar> \<le> \<bar>val y - x\<bar> \<and> (val y \<noteq> val w \<and> \<bar>val w - x\<bar> = \<bar>val y - x\<bar> \<longrightarrow> \<not> bit w 0)" if "fin y" for y
  proof -
    let ?y = "if neg then - val y else val y"
    have d': "\<bar>val y - x\<bar> = \<bar>?y - int v\<bar>" and eq: "val y \<noteq> val w \<longleftrightarrow> ?y \<noteq> int m" by (auto simp: x w sign_mag_def)
    have "\<bar>?y\<bar> = \<bar>val y\<bar>" by simp
    with that have "\<bar>int m - int v\<bar> \<le> \<bar>?y - int v\<bar> \<and> (?y \<noteq> int m \<and> \<bar>int m - int v\<bar> = \<bar>?y - int v\<bar> \<longrightarrow> e)"
      by (intro near) blast
    then show ?thesis unfolding d d' eq even .
  qed
  with assms(1) show ?thesis by (simp add: nearest_word_def)
qed

lemma of_nat_less_exp: "\<bar>sign_mag b n\<bar> < 2 ^ k \<longleftrightarrow> n < 2 ^ k" "2 ^ k \<le> \<bar>sign_mag b n\<bar> \<longleftrightarrow> 2 ^ k \<le> n"
proof -
  have "\<bar>sign_mag b n\<bar> < 2 ^ k \<longleftrightarrow> int n < int (2 ^ k)" by simp
  then show "\<bar>sign_mag b n\<bar> < 2 ^ k \<longleftrightarrow> n < 2 ^ k" by (simp only: of_nat_less_iff)
  then show "2 ^ k \<le> \<bar>sign_mag b n\<bar> \<longleftrightarrow> 2 ^ k \<le> n" by linarith
qed

lemma of_nat_less_gap:
  assumes "j \<le> k"
  shows "\<bar>sign_mag b n\<bar> < 2 ^ k - 2 ^ j \<longleftrightarrow> n < 2 ^ k - 2 ^ j" "2 ^ k - 2 ^ j \<le> \<bar>sign_mag b n\<bar> \<longleftrightarrow> 2 ^ k - 2 ^ j \<le> n"
proof -
  have "(2 :: nat) ^ j \<le> 2 ^ k" using assms by (intro power_increasing) simp_all
  then have "int (2 ^ k - 2 ^ j) = 2 ^ k - 2 ^ j" by (simp add: of_nat_diff)
  then have "\<bar>sign_mag b n\<bar> < 2 ^ k - 2 ^ j \<longleftrightarrow> int n < int (2 ^ k - 2 ^ j)" by simp
  then show "\<bar>sign_mag b n\<bar> < 2 ^ k - 2 ^ j \<longleftrightarrow> n < 2 ^ k - 2 ^ j" by (simp only: of_nat_less_iff)
  then show "2 ^ k - 2 ^ j \<le> \<bar>sign_mag b n\<bar> \<longleftrightarrow> 2 ^ k - 2 ^ j \<le> n" by linarith
qed

lemma binade: "0 < v \<Longrightarrow> \<exists>h. 2 ^ h \<le> v \<and> v < 2 ^ Suc h" for v :: nat
proof (induction v rule: less_induct)
  case (less v)
  show ?case
  proof (cases "v < 2")
    case True
    with less.prems show ?thesis by (intro exI [of _ 0]) simp
  next
    case False
    with less.IH [of "v div 2"] obtain h where "2 ^ h \<le> v div 2" "v div 2 < 2 ^ Suc h" by auto
    then show ?thesis by (intro exI [of _ "Suc h"]) auto
  qed
qed

section \<open>Formats\<close>

text \<open>
  What the rounding needs of a format: \<open>p\<close> fraction bits, \<open>n\<close> exponent bits and a sign fill the word, and on the
  scale of the accumulator the least subnormal is \<open>2 ^ q\<close>.
\<close>

locale float_format =
  fixes p n q :: nat
    and fin :: "'w::len word \<Rightarrow> bool"
    and scaled :: "'w word \<Rightarrow> int"
  assumes width: "p + n + 1 = LENGTH('w)"
    and positive: "0 < p" "1 < n" "0 < q"
    and fin_exponent: "fin w \<longleftrightarrow> unat (take_bit n (drop_bit p w)) < 2 ^ n - 1"
    and scaled_fields: "scaled w =
      sign_mag (bit w (p + n)) (float_magnitude p (unat (take_bit n (drop_bit p w))) (unat (take_bit p w)) * 2 ^ q)"
begin

lemma grid:
  assumes "\<bar>y\<bar> = \<bar>scaled z\<bar>"
  shows "p + q \<le> h \<Longrightarrow> \<bar>y\<bar> < 2 ^ h \<or> 2 ^ (h - p) dvd y" and "2 ^ q dvd y"
proof -
  let ?m = "float_magnitude p (unat (take_bit n (drop_bit p z))) (unat (take_bit p z)) * 2 ^ q"
  have y: "\<bar>y\<bar> = int ?m" using assms by (simp add: scaled_fields)
  have d: "2 ^ k dvd y \<longleftrightarrow> 2 ^ k dvd ?m" for k
  proof -
    have "2 ^ k dvd y \<longleftrightarrow> 2 ^ k dvd \<bar>y\<bar>" by simp
    also have "\<dots> \<longleftrightarrow> int (2 ^ k) dvd int ?m" unfolding y by simp
    finally show ?thesis by (simp only: of_nat_dvd_iff)
  qed
  have l: "\<bar>y\<bar> < 2 ^ h \<longleftrightarrow> ?m < 2 ^ h"
  proof -
    have "\<bar>y\<bar> < 2 ^ h \<longleftrightarrow> int ?m < int (2 ^ h)" unfolding y by simp
    then show ?thesis by (simp only: of_nat_less_iff)
  qed
  have f: "unat (take_bit p z) < 2 ^ p" using width by (intro bits_below_zero) simp
  show "2 ^ q dvd y" unfolding d by (rule float_multiple)
  show "p + q \<le> h \<Longrightarrow> \<bar>y\<bar> < 2 ^ h \<or> 2 ^ (h - p) dvd y" unfolding d l by (rule float_grid [OF f])
qed

lemma least_normal:
  assumes x: "x = sign_mag s v" and r: "round_half_even q v = 2 ^ p"
  defines "w \<equiv> push_bit (p + n) (of_bool s) OR push_bit p 1"
  shows "bit w (p + n) = s \<and> nearest_word fin scaled x w"
proof -
  have w: "w = push_bit (p + n) (of_bool s) OR push_bit p (word_of_nat 1) OR (0 AND mask p)" by (simp add: w_def)
  have two: "(2 :: nat) ^ 2 \<le> 2 ^ n" using positive by (intro power_increasing) simp_all
  then have "1 < (2 :: nat) ^ n" by simp
  note f = pack_fields [OF width this, of s 0, folded w]
  have val: "scaled w = sign_mag s (2 ^ p * 2 ^ q)" using f by (simp add: scaled_fields float_magnitude_def)
  have "nearest_word fin scaled x w"
  proof (rule nearest_wordI [where neg = s and m = "2 ^ p * 2 ^ q" and v = v and e = True])
    show "fin w" using f two by (simp add: fin_exponent)
    show "\<not> bit w 0 \<longleftrightarrow> True" using f positive by simp
    fix y :: int assume "\<exists>z. fin z \<and> \<bar>y\<bar> = \<bar>scaled z\<bar>"
    then have "2 ^ q dvd y" using grid(2) by blast
    from subnormal_nearest [OF positive(3) this, of v] r
    show "\<bar>int (2 ^ p * 2 ^ q) - int v\<bar> \<le> \<bar>y - int v\<bar> \<and>
        (y \<noteq> int (2 ^ p * 2 ^ q) \<and> \<bar>int (2 ^ p * 2 ^ q) - int v\<bar> = \<bar>y - int v\<bar> \<longrightarrow> True)" by simp
  qed (fact x val)+
  with f(1) show ?thesis by blast
qed

lemma normal:
  assumes x: "x = sign_mag sg v" and h: "2 ^ h \<le> v" "v < 2 ^ Suc h" "q + p \<le> h" and h': "h' < 2 ^ n - 2 + q + p"
    and nm: "normalise p h (round_half_even (h - p) v) = (s, h')"
  defines "w \<equiv> push_bit (p + n) (of_bool sg) OR push_bit p (word_of_nat (h' - (q + p) + 1)) OR (word_of_nat s AND mask p)"
  shows "bit w (p + n) = sg \<and> nearest_word fin scaled x w"
proof -
  let ?r = "round_half_even (h - p) v" and ?e = "h' - (q + p) + 1"
  from normalise_value [OF h(1,2) positive(3) h(3) nm]
  have s: "2 ^ p \<le> s" "s < 2 ^ Suc p" "h \<le> h'" "even s = even ?r"
    and m: "float_magnitude p ?e (s - 2 ^ p) * 2 ^ q = ?r * 2 ^ (h - p)" using positive(1) by auto
  have e: "?e < 2 ^ n - 1" using h' s(3) h(3) by linarith
  then have "?e < 2 ^ n" by linarith
  note f = pack_fields [OF width this, of sg "word_of_nat s", folded w_def]
  have "(2 :: nat) ^ Suc p \<le> 2 ^ LENGTH('w)" using width positive by (intro power_increasing) simp_all
  then have "s < 2 ^ LENGTH('w)" using s(2) by linarith
  then have "unat (take_bit p (word_of_nat s :: 'w word)) = s mod 2 ^ p"
    unfolding unsigned_take_bit_eq by (simp add: unat_word_of_nat_small take_bit_eq_mod)
  also have "\<dots> = s - 2 ^ p" using s(1,2) by (simp add: mod_if)
  finally have fr: "unat (take_bit p (word_of_nat s :: 'w word)) = s - 2 ^ p" .
  have val: "scaled w = sign_mag sg (?r * 2 ^ (h - p))" unfolding scaled_fields f fr m ..
  have "nearest_word fin scaled x w"
  proof (rule nearest_wordI [where neg = sg and m = "?r * 2 ^ (h - p)" and v = v and e = "even ?r"])
    show "fin w" unfolding fin_exponent f by (rule e)
    show "\<not> bit w 0 \<longleftrightarrow> even ?r" unfolding f(4) [OF positive(1)] s(4) [symmetric] by (simp add: bit_0)
    fix y :: int assume "\<exists>z. fin z \<and> \<bar>y\<bar> = \<bar>scaled z\<bar>"
    then have "\<bar>y\<bar> < 2 ^ h \<or> 2 ^ (h - p) dvd y" using grid(1) h(3) by (metis add.commute)
    moreover have "p < h" using h(3) positive(3) by linarith
    ultimately show "\<bar>int (?r * 2 ^ (h - p)) - int v\<bar> \<le> \<bar>y - int v\<bar> \<and>
        (y \<noteq> int (?r * 2 ^ (h - p)) \<and> \<bar>int (?r * 2 ^ (h - p)) - int v\<bar> = \<bar>y - int v\<bar> \<longrightarrow> even ?r)"
      by (intro binade_nearest [OF h(1,2)])
  qed (fact x val)+
  with f(1) show ?thesis by blast
qed

end

interpretation f32: float_format 23 8 149 f32_finite f32_scaled
  by unfold_locales (simp_all add: f32_finite_def f32_exponent_def f32_scaled_def f32_int_def sign_mag_def)

interpretation f16: float_format 10 5 274 f16_finite f16_scaled
  by unfold_locales (simp_all add: f16_finite_def f16_exponent_def f16_scaled_def f16_int_def sign_mag_def)

section \<open>The rounding of the code is nearest\<close>

lemma rounded_value:
  "magnitude_value (ed_magnitude d) \<noteq> 0 \<Longrightarrow>
     exact_int d = sign_mag (rounded_sign d nz) (magnitude_value (ed_magnitude d)) \<and> exact_int d \<noteq> 0"
  by (auto simp: exact_int_def rounded_sign_def sign_mag_def)

lemma binade_value:
  assumes "2 ^ h \<le> v" "v = magnitude_value (ed_magnitude d)"
  shows "exact_int d = sign_mag (rounded_sign d nz) v \<and> exact_int d \<noteq> 0"
proof -
  have "(0 :: nat) < 2 ^ h" by simp
  with assms(1) have "v \<noteq> 0" by linarith
  with rounded_value [of d nz] assms(2) show ?thesis by simp
qed

lemma f32_sign_only: "bit (push_bit 31 (of_bool b) :: u32) 31 = b" "f32_int (push_bit 31 (of_bool b)) = 0"
  by (cases b; simp add: f32_int_def f32_exponent_def float_magnitude_def)+

lemma f32_sign_max:
  "bit (push_bit 31 (of_bool b) OR F32_MAX_FINITE) 31 = b" "take_bit 31 (push_bit 31 (of_bool b) OR F32_MAX_FINITE) = F32_MAX_FINITE"
  by (cases b; simp add: F32_MAX_FINITE_def)+

lemma round_f32_small:
  assumes ok: "exact_ok d" and h: "2 ^ h \<le> v" "v < 2 ^ Suc h" "v = magnitude_value (ed_magnitude d)" "h < 172"
  shows "\<exists>r. round_f32 d nz = Ok r \<and> f32_rounded (exact_int d) nz r"
proof -
  let ?S = "rounded_sign d nz"
  have x: "exact_int d = sign_mag ?S v" "exact_int d \<noteq> 0" using binade_value [OF h(1,3)] by auto
  have less: "v < 2 ^ (149 + 23)"
  proof -
    have "(2 :: nat) ^ Suc h \<le> 2 ^ (149 + 23)" using h(4) by (intro power_increasing) simp_all
    with h(2) show ?thesis by linarith
  qed
  have flush: "\<bar>exact_int d\<bar> < 2 ^ 172 - 2 ^ 148 \<longleftrightarrow> round_half_even 149 v \<noteq> 2 ^ 23"
    unfolding x(1) using of_nat_less_gap [of 148 172 ?S v] round_half_even_carry [OF less] by auto
  have bound: "\<not> 2 ^ 426 - 2 ^ 401 \<le> \<bar>exact_int d\<bar>"
  proof -
    have "\<bar>exact_int d\<bar> < 2 ^ 172" unfolding x(1) of_nat_less_exp using less by simp
    moreover have "(2 :: int) ^ 172 \<le> 2 ^ 426 - 2 ^ 401" by simp
    ultimately show ?thesis by linarith
  qed
  note code = round_f32_subnormal [OF ok h, of nz]
  show ?thesis
  proof (cases "round_half_even 149 v = 2 ^ 23")
    case True
    show ?thesis
      unfolding code if_P [OF True] using f32.least_normal [OF x(1) True] flush bound x(2) True
      by (simp add: f32_rounded_def rounded_sign_def)
  next
    case False
    show ?thesis
      unfolding code if_not_P [OF False] using f32_sign_only [of ?S] flush x(2) False
      by (simp add: f32_rounded_def rounded_sign_def)
  qed
qed

lemma round_f32_large:
  assumes ok: "exact_ok d" and h: "2 ^ h \<le> v" "v < 2 ^ Suc h" "v = magnitude_value (ed_magnitude d)" "172 \<le> h"
  shows "\<exists>r. round_f32 d nz = Ok r \<and> f32_rounded (exact_int d) nz r"
proof -
  let ?S = "rounded_sign d nz"
  have x: "exact_int d = sign_mag ?S v" "exact_int d \<noteq> 0" using binade_value [OF h(1,3)] by auto
  obtain s h' where n: "normalise 23 h (round_half_even (h - 23) v) = (s, h')" by fastforce
  have over: "426 \<le> h' \<longleftrightarrow> 2 ^ 426 - 2 ^ 401 \<le> \<bar>exact_int d\<bar>"
    using normalise_overflow [OF h(1,2) _ _ n, of 426] h(4) of_nat_less_gap(2) [of 401 426 ?S v] unfolding x(1) by simp
  have flush: "\<not> \<bar>exact_int d\<bar> < 2 ^ 172 - 2 ^ 148"
  proof -
    have "(2 :: nat) ^ 172 \<le> 2 ^ h" using h(4) by (intro power_increasing) simp_all
    then have "2 ^ 172 \<le> \<bar>exact_int d\<bar>" unfolding x(1) of_nat_less_exp using h(1) by linarith
    then show ?thesis by simp
  qed
  note code = round_f32_normal [OF ok h n, of nz]
  show ?thesis
  proof (cases "426 \<le> h'")
    case True
    show ?thesis
      unfolding code if_P [OF True] using f32_sign_max [of ?S] over flush x(2) True
      by (simp add: f32_rounded_def rounded_sign_def)
  next
    case False
    then have "149 + 23 \<le> h" "h' < 2 ^ 8 - 2 + 149 + 23" using h(4) by simp_all
    moreover have "h \<le> h'" using normalise_value [OF h(1,2) _ _ n, of 149] h(4) by simp
    then have "h' - (149 + 23) + 1 = h' - 171" using h(4) by linarith
    moreover have "F32_FRACTION = mask 23" by (simp add: F32_FRACTION_def mask_eq_exp_minus_1)
    ultimately have "bit w 31 = ?S \<and> nearest_word f32_finite f32_scaled (exact_int d) w"
      if "w = push_bit 31 (of_bool ?S) OR push_bit 23 (word_of_nat (h' - 171)) OR (word_of_nat s AND F32_FRACTION)" for w
      using f32.normal [OF x(1) h(1,2) _ _ n] that by simp
    then show ?thesis
      unfolding code if_not_P [OF False] using over flush x(2) False
      by (simp add: f32_rounded_def rounded_sign_def)
  qed
qed

theorem round_f32_nearest:
  assumes ok: "exact_ok d"
  shows "\<exists>r. round_f32 d nz = Ok r \<and> f32_rounded (exact_int d) nz r"
proof (cases "magnitude_value (ed_magnitude d) = 0")
  case True
  then show ?thesis
    using round_f32_zero [of d nz] f32_sign_only by (simp add: f32_rounded_def rounded_sign_def exact_int_def)
next
  case False
  then obtain h where h: "2 ^ h \<le> magnitude_value (ed_magnitude d)" "magnitude_value (ed_magnitude d) < 2 ^ Suc h"
    using binade [of "magnitude_value (ed_magnitude d)"] by auto
  show ?thesis
    using round_f32_small [OF ok h refl] round_f32_large [OF ok h refl] by (cases "h < 172") simp_all
qed


lemma f16_sign_only: "bit (push_bit 15 (of_bool b) :: u16) 15 = b" "f16_int (push_bit 15 (of_bool b)) = 0"
  by (cases b; simp add: f16_int_def f16_exponent_def float_magnitude_def)+

lemma f16_sign_over:
  fixes mode :: fp16_mode
  defines "m \<equiv> (case mode of Saturating \<Rightarrow> F16_MAX_FINITE | NonSaturating \<Rightarrow> F16_EXPONENT)"
  shows "bit (push_bit 15 (of_bool b) OR m) 15 = b"
    and "take_bit 15 (push_bit 15 (of_bool b) OR m) = (if mode = Saturating then F16_MAX_FINITE else F16_EXPONENT)"
  unfolding m_def by (cases b; cases mode; simp add: F16_MAX_FINITE_def F16_EXPONENT_def)+

lemma round_f16_small:
  assumes ok: "exact_ok d" and h: "2 ^ h \<le> v" "v < 2 ^ Suc h" "v = magnitude_value (ed_magnitude d)" "h < 284"
  shows "\<exists>r. round_f16 d nz mode = Ok r \<and> f16_rounded (exact_int d) nz mode r"
proof -
  let ?S = "rounded_sign d nz"
  have x: "exact_int d = sign_mag ?S v" "exact_int d \<noteq> 0" using binade_value [OF h(1,3)] by auto
  have less: "v < 2 ^ (274 + 10)"
  proof -
    have "(2 :: nat) ^ Suc h \<le> 2 ^ (274 + 10)" using h(4) by (intro power_increasing) simp_all
    with h(2) show ?thesis by linarith
  qed
  have flush: "\<bar>exact_int d\<bar> < 2 ^ 284 - 2 ^ 273 \<longleftrightarrow> round_half_even 274 v \<noteq> 2 ^ 10"
    unfolding x(1) using of_nat_less_gap [of 273 284 ?S v] round_half_even_carry [OF less] by auto
  have bound: "\<not> 2 ^ 314 - 2 ^ 302 \<le> \<bar>exact_int d\<bar>"
  proof -
    have "\<bar>exact_int d\<bar> < 2 ^ 284" unfolding x(1) of_nat_less_exp using less by simp
    moreover have "(2 :: int) ^ 284 \<le> 2 ^ 314 - 2 ^ 302" by simp
    ultimately show ?thesis by linarith
  qed
  note code = round_f16_subnormal [OF ok h, of nz mode]
  show ?thesis
  proof (cases "round_half_even 274 v = 2 ^ 10")
    case True
    show ?thesis
      unfolding code if_P [OF True] using f16.least_normal [OF x(1) True] flush bound x(2) True
      by (simp add: f16_rounded_def rounded_sign_def)
  next
    case False
    show ?thesis
      unfolding code if_not_P [OF False] using f16_sign_only [of ?S] flush x(2) False
      by (simp add: f16_rounded_def rounded_sign_def)
  qed
qed

lemma round_f16_large:
  assumes ok: "exact_ok d" and h: "2 ^ h \<le> v" "v < 2 ^ Suc h" "v = magnitude_value (ed_magnitude d)" "284 \<le> h"
  shows "\<exists>r. round_f16 d nz mode = Ok r \<and> f16_rounded (exact_int d) nz mode r"
proof -
  let ?S = "rounded_sign d nz"
  have x: "exact_int d = sign_mag ?S v" "exact_int d \<noteq> 0" using binade_value [OF h(1,3)] by auto
  obtain s h' where n: "normalise 10 h (round_half_even (h - 10) v) = (s, h')" by fastforce
  have over: "314 \<le> h' \<longleftrightarrow> 2 ^ 314 - 2 ^ 302 \<le> \<bar>exact_int d\<bar>"
    using normalise_overflow [OF h(1,2) _ _ n, of 314] h(4) of_nat_less_gap(2) [of 302 314 ?S v] unfolding x(1) by simp
  have flush: "\<not> \<bar>exact_int d\<bar> < 2 ^ 284 - 2 ^ 273"
  proof -
    have "(2 :: nat) ^ 284 \<le> 2 ^ h" using h(4) by (intro power_increasing) simp_all
    then have "2 ^ 284 \<le> \<bar>exact_int d\<bar>" unfolding x(1) of_nat_less_exp using h(1) by linarith
    then show ?thesis by simp
  qed
  note code = round_f16_normal [OF ok h n, of nz mode]
  show ?thesis
  proof (cases "314 \<le> h'")
    case True
    show ?thesis
      unfolding code if_P [OF True] using f16_sign_over [of ?S mode] over flush x(2) True
      by (simp add: f16_rounded_def rounded_sign_def)
  next
    case False
    then have "274 + 10 \<le> h" "h' < 2 ^ 5 - 2 + 274 + 10" using h(4) by simp_all
    moreover have "h \<le> h'" using normalise_value [OF h(1,2) _ _ n, of 274] h(4) by simp
    then have "h' - (274 + 10) + 1 = h' - 283" using h(4) by linarith
    moreover have "F16_FRACTION = mask 10" by (simp add: F16_FRACTION_def mask_eq_exp_minus_1)
    ultimately have "bit w 15 = ?S \<and> nearest_word f16_finite f16_scaled (exact_int d) w"
      if "w = push_bit 15 (of_bool ?S) OR push_bit 10 (word_of_nat (h' - 283)) OR (word_of_nat s AND F16_FRACTION)" for w
      using f16.normal [OF x(1) h(1,2) _ _ n] that by simp
    then show ?thesis
      unfolding code if_not_P [OF False] using over flush x(2) False
      by (simp add: f16_rounded_def rounded_sign_def)
  qed
qed

theorem round_f16_nearest:
  assumes ok: "exact_ok d"
  shows "\<exists>r. round_f16 d nz mode = Ok r \<and> f16_rounded (exact_int d) nz mode r"
proof (cases "magnitude_value (ed_magnitude d) = 0")
  case True
  then show ?thesis
    using round_f16_zero [of d nz mode] f16_sign_only by (simp add: f16_rounded_def rounded_sign_def exact_int_def)
next
  case False
  then obtain h where h: "2 ^ h \<le> magnitude_value (ed_magnitude d)" "magnitude_value (ed_magnitude d) < 2 ^ Suc h"
    using binade [of "magnitude_value (ed_magnitude d)"] by auto
  show ?thesis
    using round_f16_small [OF ok h refl] round_f16_large [OF ok h refl] by (cases "h < 284") simp_all
qed

end
