(* ===== verification/Cube_Slice.thy ===== *)
theory Cube_Slice
  imports Exact_Round
begin

text \<open>
  \<open>src/src/sim/c220/cube/numeric/fp16.rs\<close> and \<open>fp32.rs\<close>: one slice of a matrix product, the sum of an accumulator and of
  the products of up to sixteen operand pairs, evaluated exactly and rounded once. The five evaluators repeat the same
  loops on different formats; the loops are written once over \<open>operand_format\<close>. Arrays are lists.
\<close>

unbundle bit_operations_syntax

section \<open>The loops\<close>

record 'a operand_format =
  op_nan :: "'a \<Rightarrow> bool"
  op_infinite :: "'a \<Rightarrow> bool"
  op_zero :: "'a \<Rightarrow> bool"
  op_sign :: "'a"
  op_add_product :: "exact_dyadic \<Rightarrow> 'a \<Rightarrow> 'a \<Rightarrow> exact_dyadic cube_result"

definition f16_operands :: "u16 operand_format" where
  "f16_operands = \<lparr>op_nan = is_f16_nan, op_infinite = is_f16_infinite, op_zero = is_f16_zero, op_sign = F16_SIGN,
     op_add_product = add_f16_product\<rparr>"

definition bf16_operands :: "u16 operand_format" where
  "bf16_operands = \<lparr>op_nan = is_bf16_nan, op_infinite = is_bf16_infinite, op_zero = is_bf16_zero, op_sign = BF16_SIGN,
     op_add_product = add_bf16_product\<rparr>"

definition f32_operands :: "u32 operand_format" where
  "f32_operands = \<lparr>op_nan = is_f32_nan, op_infinite = is_f32_infinite, op_zero = is_f32_zero, op_sign = F32_SIGN,
     op_add_product = add_f32_product\<rparr>"

text \<open>The flags of the saturating loop over \<open>left.iter_mut().chain(right.iter_mut())\<close>.\<close>

fun flag_operands :: "('w word \<Rightarrow> bool) \<Rightarrow> ('w word \<Rightarrow> bool) \<Rightarrow> 'w word list \<Rightarrow> cube_fp_status \<Rightarrow> cube_fp_status" where
  "flag_operands is_nan is_infinite [] status = status"
| "flag_operands is_nan is_infinite (bits # rest) status =
     flag_operands is_nan is_infinite rest
       (status\<lparr>fs_nan_operand := fs_nan_operand status \<or> is_nan bits,
          fs_infinity_operand := fs_infinity_operand status \<or> is_infinite bits\<rparr>)"

text \<open>The non-saturating loop over the pairs: it stops at an invalid pair with the status so far.\<close>

fun scan_pairs ::
  "'w::len word operand_format \<Rightarrow> ('w word \<times> 'w word) list \<Rightarrow> cube_fp_status \<Rightarrow> bool \<Rightarrow> bool
     \<Rightarrow> cube_fp_status + cube_fp_status \<times> bool \<times> bool" where
  "scan_pairs F [] status positive negative = Ok (status, positive, negative)"
| "scan_pairs F ((first, second) # rest) status positive negative =
     (let first_nan = op_nan F first; second_nan = op_nan F second;
          first_infinite = op_infinite F first; second_infinite = op_infinite F second;
          invalid = first_nan \<or> second_nan \<or> first_infinite \<and> op_zero F second \<or> second_infinite \<and> op_zero F first;
          status = status\<lparr>fs_nan_operand := fs_nan_operand status \<or> first_nan \<or> second_nan,
            fs_infinity_operand := fs_infinity_operand status \<or> first_infinite \<or> second_infinite,
            fs_invalid := fs_invalid status \<or> invalid\<rparr>
      in if invalid then Err status
         else if first_infinite \<or> second_infinite then
           if (first XOR second) AND op_sign F = 0 then scan_pairs F rest status True negative
           else scan_pairs F rest status positive True
         else scan_pairs F rest status positive negative)"

text \<open>The exceptional outcomes of the non-saturating mode, before anything is added.\<close>

datatype special_outcome =
    CanonicalNan cube_fp_status
  | InfiniteSum bool cube_fp_status
  | FiniteTerms cube_fp_status

definition scan_slice ::
  "'w::len word operand_format \<Rightarrow> ('w word \<times> 'w word) list \<Rightarrow> bool \<Rightarrow> bool \<Rightarrow> bool \<Rightarrow> special_outcome" where
  "scan_slice F pairs accumulator_nan accumulator_infinite accumulator_negative =
     (let status = fp_status_default in
      if accumulator_nan then CanonicalNan (status\<lparr>fs_nan_operand := True\<rparr>)
      else
        let status = (if accumulator_infinite then status\<lparr>fs_infinity_operand := True\<rparr> else status);
            positive_infinity = (accumulator_infinite \<and> \<not> accumulator_negative);
            negative_infinity = (accumulator_infinite \<and> accumulator_negative) in
        (case scan_pairs F pairs status positive_infinity negative_infinity of
           Err status \<Rightarrow> CanonicalNan status
         | Ok (status, positive_infinity, negative_infinity) \<Rightarrow>
             if positive_infinity \<and> negative_infinity then CanonicalNan (status\<lparr>fs_invalid := True\<rparr>)
             else if positive_infinity \<or> negative_infinity then InfiniteSum negative_infinity status
             else FiniteTerms status))"

text \<open>The accumulation loop; a non-finite operand is \<open>unreachable!\<close>.\<close>

fun add_products ::
  "'w::len word operand_format \<Rightarrow> ('w word \<times> 'w word) list \<Rightarrow> exact_dyadic \<Rightarrow> bool \<Rightarrow> (exact_dyadic \<times> bool) cube_result" where
  "add_products F [] current all_negative = Ok (current, all_negative)"
| "add_products F ((first, second) # rest) current all_negative =
     (if op_infinite F first \<or> op_nan F first \<or> op_infinite F second \<or> op_nan F second then Err Panic
      else
        let product_nonzero = (\<not> op_zero F first \<and> \<not> op_zero F second);
            all_negative = (if product_nonzero then all_negative
              else all_negative \<and> (first XOR second) AND op_sign F \<noteq> 0) in
        and_then (op_add_product F current first second) (\<lambda>current. add_products F rest current all_negative))"

definition all_zero_products :: "'w::len word operand_format \<Rightarrow> ('w word \<times> 'w word) list \<Rightarrow> bool" where
  "all_zero_products F pairs = list_all (\<lambda>(first, second). op_zero F first \<or> op_zero F second) pairs"

text \<open>The sum of an accumulator in single precision and the products, rounded.\<close>

definition sum_f32 ::
  "'w::len word operand_format \<Rightarrow> ('w word \<times> 'w word) list \<Rightarrow> u32 \<Rightarrow> cube_fp_status \<Rightarrow> f32_slice_outcome cube_result" where
  "sum_f32 F pairs accumulator status =
     (let contributes = (accumulator AND F32_EXPONENT \<noteq> 0);
          all_negative = (\<not> contributes \<and> accumulator AND F32_SIGN \<noteq> 0) in
      and_then (add_f32 exact_default accumulator) (\<lambda>sum.
      and_then (add_products F pairs sum all_negative) (\<lambda>(sum, all_negative).
      and_then (round_f32 sum (\<not> contributes \<and> all_zero_products F pairs \<and> all_negative)) (\<lambda>(bits, rounded_status).
        Ok \<lparr>s32_bits = bits, s32_status = fp_status_merge status rounded_status\<rparr>))))"

definition sum_f16 ::
  "(u16 \<times> u16) list \<Rightarrow> u16 \<Rightarrow> cube_fp_status \<Rightarrow> fp16_mode \<Rightarrow> f16_slice_outcome cube_result" where
  "sum_f16 pairs accumulator status mode =
     (let contributes = (accumulator AND F16_EXPONENT \<noteq> 0);
          all_negative = (\<not> contributes \<and> accumulator AND F16_SIGN \<noteq> 0) in
      and_then (add_f16 exact_default accumulator) (\<lambda>sum.
      and_then (add_products f16_operands pairs sum all_negative) (\<lambda>(sum, all_negative).
      and_then (round_f16 sum (\<not> contributes \<and> all_zero_products f16_operands pairs \<and> all_negative) mode)
        (\<lambda>(bits, rounded_status).
        Ok \<lparr>s16_bits = bits, s16_status = fp_status_merge status rounded_status\<rparr>))))"

text \<open>The outcome of the exceptional cases in single precision.\<close>

definition special_f32 :: "special_outcome \<Rightarrow> (cube_fp_status \<Rightarrow> f32_slice_outcome cube_result) \<Rightarrow> f32_slice_outcome cube_result" where
  "special_f32 outcome continue =
     (case outcome of
        CanonicalNan status \<Rightarrow> Ok \<lparr>s32_bits = F32_CANONICAL_NAN, s32_status = status\<rparr>
      | InfiniteSum negative status \<Rightarrow>
          Ok \<lparr>s32_bits = (if negative then F32_SIGN OR F32_EXPONENT else F32_EXPONENT), s32_status = status\<rparr>
      | FiniteTerms status \<Rightarrow> continue status)"

section \<open>The evaluators\<close>

definition evaluate_f16_f16_slice ::
  "u16 list \<Rightarrow> u16 list \<Rightarrow> u16 \<Rightarrow> fp16_mode \<Rightarrow> f16_slice_outcome cube_result" where
  "evaluate_f16_f16_slice left right accumulator mode =
     (if mode = Saturating then
        let status = flag_operands is_f16_nan is_f16_infinite (left @ right) fp_status_default;
            status = status\<lparr>fs_nan_operand := fs_nan_operand status \<or> is_f16_nan accumulator,
              fs_infinity_operand := fs_infinity_operand status \<or> is_f16_infinite accumulator\<rparr>
        in sum_f16 (zip (map saturate_f16_nonfinite left) (map saturate_f16_nonfinite right))
             (saturate_f16_nonfinite accumulator) status mode
      else
        case scan_slice f16_operands (zip left right) (is_f16_nan accumulator) (is_f16_infinite accumulator)
            (accumulator AND F16_SIGN \<noteq> 0) of
          CanonicalNan status \<Rightarrow> Ok \<lparr>s16_bits = 0x7fff, s16_status = status\<rparr>
        | InfiniteSum negative status \<Rightarrow>
            Ok \<lparr>s16_bits = (if negative then F16_SIGN OR F16_EXPONENT else F16_EXPONENT), s16_status = status\<rparr>
        | FiniteTerms status \<Rightarrow> sum_f16 (zip left right) accumulator status mode)"

definition evaluate_f16_f32_slice ::
  "u16 list \<Rightarrow> u16 list \<Rightarrow> u32 \<Rightarrow> fp16_mode \<Rightarrow> f32_slice_outcome cube_result" where
  "evaluate_f16_f32_slice left right accumulator mode =
     (if mode = Saturating then
        let status = flag_operands is_f16_nan is_f16_infinite (left @ right) fp_status_default;
            status = status\<lparr>fs_nan_operand := fs_nan_operand status \<or> is_f32_nan accumulator,
              fs_infinity_operand := fs_infinity_operand status \<or> is_f32_infinite accumulator\<rparr>
        in sum_f32 f16_operands (zip (map saturate_f16_nonfinite left) (map saturate_f16_nonfinite right))
             (saturate_f32_nonfinite accumulator) status
      else
        special_f32 (scan_slice f16_operands (zip left right) (is_f32_nan accumulator) (is_f32_infinite accumulator)
            (accumulator AND F32_SIGN \<noteq> 0))
          (sum_f32 f16_operands (zip left right) accumulator))"

definition evaluate_bf16_f32_slice ::
  "u16 list \<Rightarrow> u16 list \<Rightarrow> u32 \<Rightarrow> fp16_mode \<Rightarrow> f32_slice_outcome cube_result" where
  "evaluate_bf16_f32_slice left right accumulator mode =
     (if mode = Saturating then
        let status = flag_operands is_bf16_nan is_bf16_infinite (left @ right) fp_status_default;
            status = status\<lparr>fs_nan_operand := fs_nan_operand status \<or> is_f32_nan accumulator,
              fs_infinity_operand := fs_infinity_operand status \<or> is_f32_infinite accumulator\<rparr>
        in sum_f32 bf16_operands (zip (map saturate_bf16_nonfinite left) (map saturate_bf16_nonfinite right))
             (saturate_f32_nonfinite accumulator) status
      else
        special_f32 (scan_slice bf16_operands (zip left right) (is_f32_nan accumulator) (is_f32_infinite accumulator)
            (accumulator AND F32_SIGN \<noteq> 0))
          (sum_f32 bf16_operands (zip left right) accumulator))"

definition evaluate_f32_f32_slice ::
  "u32 list \<Rightarrow> u32 list \<Rightarrow> u32 \<Rightarrow> fp16_mode \<Rightarrow> f32_slice_outcome cube_result" where
  "evaluate_f32_f32_slice left right accumulator mode =
     (if mode = Saturating then
        let status = flag_operands is_f32_nan is_f32_infinite (left @ right) fp_status_default;
            status = status\<lparr>fs_nan_operand := fs_nan_operand status \<or> is_f32_nan accumulator,
              fs_infinity_operand := fs_infinity_operand status \<or> is_f32_infinite accumulator\<rparr>
        in sum_f32 f32_operands (zip (map saturate_f32_nonfinite left) (map saturate_f32_nonfinite right))
             (saturate_f32_nonfinite accumulator) status
      else
        special_f32 (scan_slice f32_operands (zip left right) (is_f32_nan accumulator) (is_f32_infinite accumulator)
            (accumulator AND F32_SIGN \<noteq> 0))
          (sum_f32 f32_operands (zip left right) accumulator))"

definition round_hf32_operand :: "u32 \<Rightarrow> bool \<Rightarrow> u32" where
  "round_hf32_operand bits round_ties_away =
     (let sign = bits AND F32_SIGN;
          exponent = drop_bit 23 (bits AND F32_EXPONENT);
          significand = bits AND F32_FRACTION;
          significand = (if exponent \<noteq> 0 then significand OR push_bit 23 1 else significand);
          retained = drop_bit 12 significand;
          discarded = significand AND 0x0fff;
          increment = (0x0800 < discarded \<or> discarded = 0x0800 \<and> (round_ties_away \<or> retained AND 1 \<noteq> 0));
          rounded = retained + of_bool increment in
      if rounded = push_bit 12 1 then sign OR push_bit 23 (exponent + 1)
      else
        let fraction = push_bit 12 rounded AND F32_FRACTION in
        if exponent = 0 \<and> rounded = push_bit 11 1 then sign OR push_bit 23 1
        else sign OR push_bit 23 exponent OR fraction)"

text \<open>In the reduced format the non-saturating loop also rounds the operands it has checked.\<close>

definition evaluate_hf32_f32_slice ::
  "u32 list \<Rightarrow> u32 list \<Rightarrow> u32 \<Rightarrow> fp16_mode \<Rightarrow> bool \<Rightarrow> f32_slice_outcome cube_result" where
  "evaluate_hf32_f32_slice left right accumulator mode round_ties_away =
     (if mode = Saturating then
        let status = flag_operands is_f32_nan is_f32_infinite (left @ right) fp_status_default;
            prepare = (\<lambda>bits. saturate_hf32_nonfinite (round_hf32_operand (saturate_f32_nonfinite bits) round_ties_away));
            status = status\<lparr>fs_nan_operand := fs_nan_operand status \<or> is_f32_nan accumulator,
              fs_infinity_operand := fs_infinity_operand status \<or> is_f32_infinite accumulator\<rparr>
        in sum_f32 f32_operands (zip (map prepare left) (map prepare right)) (saturate_f32_nonfinite accumulator) status
      else
        special_f32 (scan_slice f32_operands (zip left right) (is_f32_nan accumulator) (is_f32_infinite accumulator)
            (accumulator AND F32_SIGN \<noteq> 0))
          (sum_f32 f32_operands (zip (map (\<lambda>bits. round_hf32_operand bits round_ties_away) left)
            (map (\<lambda>bits. round_hf32_operand bits round_ties_away) right)) accumulator))"

section \<open>Exact sums\<close>

definition dot :: "('a \<Rightarrow> 'a \<Rightarrow> int) \<Rightarrow> ('a \<times> 'a) list \<Rightarrow> int" where
  "dot product pairs = (\<Sum>(a, b)\<leftarrow>pairs. product a b)"

definition negative_zeros :: "'w::len word operand_format \<Rightarrow> ('w word \<times> 'w word) list \<Rightarrow> bool" where
  "negative_zeros F pairs = list_all (\<lambda>(a, b). (op_zero F a \<or> op_zero F b) \<longrightarrow> (a XOR b) AND op_sign F \<noteq> 0) pairs"

text \<open>
  The laws of an operand format: a word is finite when it is neither infinite nor a NaN, the product of finite words is
  added exactly as the integer \<open>product\<close> on the scale of the accumulator, it is zero exactly when a factor is, and no
  product exceeds \<open>2 ^ 554\<close>.
\<close>

locale exact_products =
  fixes F :: "'w::len word operand_format"
    and fin :: "'w word \<Rightarrow> bool"
    and product :: "'w word \<Rightarrow> 'w word \<Rightarrow> int"
  assumes classify: "fin w \<longleftrightarrow> \<not> op_infinite F w \<and> \<not> op_nan F w"
    and add_exact: "fin a \<Longrightarrow> fin b \<Longrightarrow> exact_ok d \<Longrightarrow> \<bar>exact_int d\<bar> + \<bar>product a b\<bar> < 2 ^ 576 \<Longrightarrow>
      \<exists>d'. op_add_product F d a b = Ok d' \<and> exact_ok d' \<and> exact_int d' = exact_int d + product a b"
    and small: "fin a \<Longrightarrow> fin b \<Longrightarrow> \<bar>product a b\<bar> < 2 ^ 554"
begin

lemma add_products_exact:
  assumes "\<forall>(a, b)\<in>set pairs. fin a \<and> fin b" and "exact_ok d"
    and "\<bar>exact_int d\<bar> + int (length pairs) * 2 ^ 554 < 2 ^ 576"
  shows "\<exists>d'. add_products F pairs d neg = Ok (d', neg \<and> negative_zeros F pairs) \<and> exact_ok d' \<and>
    exact_int d' = exact_int d + dot product pairs"
  using assms
proof (induction pairs arbitrary: d neg)
  case Nil
  then show ?case by (simp add: dot_def negative_zeros_def)
next
  case (Cons p pairs)
  obtain a b where p: "p = (a, b)" by fastforce
  have f: "fin a" "fin b" using Cons.prems(1) p by auto
  have s: "\<bar>product a b\<bar> < 2 ^ 554" using small f by blast
  have bound: "\<bar>exact_int d\<bar> + 2 ^ 554 + int (length pairs) * 2 ^ 554 < 2 ^ 576"
    using Cons.prems(3) by (simp add: algebra_simps)
  have "\<bar>exact_int d\<bar> + \<bar>product a b\<bar> < 2 ^ 576"
    using bound s mult_nonneg_nonneg [of "int (length pairs)" "2 ^ 554"] by linarith
  from add_exact [OF f Cons.prems(2) this] obtain d1 where
    d1: "op_add_product F d a b = Ok d1" "exact_ok d1" "exact_int d1 = exact_int d + product a b" by blast
  have b1: "\<bar>exact_int d1\<bar> + int (length pairs) * 2 ^ 554 < 2 ^ 576" using bound s d1(3) by linarith
  have f1: "\<forall>(a, b)\<in>set pairs. fin a \<and> fin b" using Cons.prems(1) by simp
  let ?neg = "if \<not> op_zero F a \<and> \<not> op_zero F b then neg else neg \<and> (a XOR b) AND op_sign F \<noteq> 0"
  from Cons.IH [OF f1 d1(2) b1, of ?neg] obtain d2 where
    d2: "add_products F pairs d1 ?neg = Ok (d2, ?neg \<and> negative_zeros F pairs)" "exact_ok d2"
      "exact_int d2 = exact_int d1 + dot product pairs" by blast
  have n: "(?neg \<and> negative_zeros F pairs) = (neg \<and> negative_zeros F (p # pairs))" by (auto simp: negative_zeros_def p)
  have "add_products F (p # pairs) d neg = Ok (d2, neg \<and> negative_zeros F (p # pairs))"
    using f d1(1) d2(1) unfolding n by (simp add: p classify Let_def)
  moreover have "exact_int d2 = exact_int d + dot product (p # pairs)" using d1(3) d2(3) by (simp add: dot_def p)
  ultimately show ?case using d2(2) by blast
qed

end

section \<open>The three formats\<close>

lemma exponent_ones:
  fixes w :: "'w::len word"
  assumes "p + n \<le> LENGTH('w)"
  shows "w AND push_bit p (mask n) = push_bit p (mask n) \<longleftrightarrow> unat (take_bit n (drop_bit p w)) = 2 ^ n - 1"
    and "w AND push_bit p (mask n) = 0 \<longleftrightarrow> unat (take_bit n (drop_bit p w)) = 0"
proof -
  have e: "w AND push_bit p (mask n) = push_bit p (take_bit n (drop_bit p w))"
    by (rule bit_word_eqI) (auto simp: bit_simps)
  have inj: "push_bit p x = push_bit p y \<longleftrightarrow> x = y" if "take_bit n x = x" "take_bit n y = y" for x y :: "'w word"
  proof
    assume "push_bit p x = push_bit p y"
    then have "take_bit n (drop_bit p (push_bit p x)) = take_bit n (drop_bit p (push_bit p y))" by simp
    moreover have "take_bit n (drop_bit p (push_bit p z)) = take_bit n z" for z :: "'w word"
      by (rule bit_word_eqI) (use assms in \<open>auto simp: bit_simps\<close>)
    ultimately show "x = y" using that by simp
  qed simp
  have m: "unat (mask n :: 'w word) = 2 ^ n - 1"
  proof -
    have "unat (mask n :: 'w word) = mask n" by (rule bit_eqI) (use assms in \<open>auto simp: bit_simps\<close>)
    then show ?thesis by (simp add: mask_eq_exp_minus_1)
  qed
  show "w AND push_bit p (mask n) = push_bit p (mask n) \<longleftrightarrow> unat (take_bit n (drop_bit p w)) = 2 ^ n - 1"
    unfolding e m [symmetric] word_eq_unat [symmetric] by (rule inj) simp_all
  have "push_bit p (take_bit n (drop_bit p w)) = push_bit p 0 \<longleftrightarrow> take_bit n (drop_bit p w) = 0" by (rule inj) simp_all
  then show "w AND push_bit p (mask n) = 0 \<longleftrightarrow> unat (take_bit n (drop_bit p w)) = 0"
    unfolding e by (simp add: unat_eq_zero)
qed

lemma infinite_or_nan:
  fixes w :: "'w::len word"
  assumes "p + n + 1 = LENGTH('w)"
  shows "w AND NOT (push_bit (p + n) 1) = push_bit p (mask n) \<or>
      w AND push_bit p (mask n) = push_bit p (mask n) \<and> w AND mask p \<noteq> 0 \<longleftrightarrow>
    w AND push_bit p (mask n) = push_bit p (mask n)"
proof -
  have split: "w AND NOT (push_bit (p + n) 1) = (w AND push_bit p (mask n)) OR (w AND mask p)"
    by (rule bit_word_eqI) (use assms in \<open>auto simp: bit_simps\<close>)
  have "w AND push_bit p (mask n) = push_bit p (mask n)" if "w AND NOT (push_bit (p + n) 1) = push_bit p (mask n)"
  proof -
    have "(w AND NOT (push_bit (p + n) 1)) AND push_bit p (mask n) = w AND push_bit p (mask n)"
      by (rule bit_word_eqI) (use assms in \<open>auto simp: bit_simps\<close>)
    with that show ?thesis by simp
  qed
  moreover have "w AND NOT (push_bit (p + n) 1) = push_bit p (mask n)"
    if "w AND push_bit p (mask n) = push_bit p (mask n)" "w AND mask p = 0"
    using split that by simp
  ultimately show ?thesis by blast
qed

lemma float_magnitude_less:
  assumes "f < 2 ^ p" "e \<le> Suc k"
  shows "float_magnitude p e f < 2 ^ (p + 1 + k)"
proof -
  have "float_magnitude p e f < 2 ^ Suc p * 2 ^ k"
  proof (cases "e = 0")
    case True
    have "f * 1 < 2 ^ Suc p * 2 ^ k" using assms(1) by (intro mult_less_le_imp_less) simp_all
    with True show ?thesis by (simp add: float_magnitude_def)
  next
    case False
    have "(2 ^ p + f) * 2 ^ (e - 1) < 2 ^ Suc p * 2 ^ k"
      using assms False by (intro mult_less_le_imp_less power_increasing) simp_all
    with False show ?thesis by (simp add: float_magnitude_def)
  qed
  then show ?thesis by (simp add: power_add)
qed

lemma f32_int_less: "f32_finite w \<Longrightarrow> \<bar>f32_int w\<bar> < 2 ^ 277"
proof -
  assume "f32_finite w"
  then have "float_magnitude 23 (f32_exponent w) (unat (take_bit 23 w)) < 2 ^ (23 + 1 + 253)"
    by (intro float_magnitude_less bits_below_zero) (simp_all add: f32_finite_def)
  then show ?thesis unfolding f32_int_def of_nat_less_exp by simp
qed

lemma f16_int_less: "f16_finite w \<Longrightarrow> \<bar>f16_int w\<bar> < 2 ^ 40"
proof -
  assume "f16_finite w"
  then have "float_magnitude 10 (f16_exponent w) (unat (take_bit 10 w)) < 2 ^ (10 + 1 + 29)"
    by (intro float_magnitude_less bits_below_zero) (simp_all add: f16_finite_def)
  then show ?thesis unfolding f16_int_def of_nat_less_exp by simp
qed

lemma bf16_int_less: "bf16_finite w \<Longrightarrow> \<bar>bf16_int w\<bar> < 2 ^ 261"
proof -
  assume "bf16_finite w"
  then have "float_magnitude 7 (bf16_exponent w) (unat (take_bit 7 w)) < 2 ^ (7 + 1 + 253)"
    by (intro float_magnitude_less bits_below_zero) (simp_all add: bf16_finite_def)
  then show ?thesis unfolding bf16_int_def of_nat_less_exp by simp
qed

lemma abs_product_less:
  fixes a b :: int
  assumes "\<bar>a\<bar> < 2 ^ k" "\<bar>b\<bar> < 2 ^ k" "j + (k + k) \<le> 554"
  shows "\<bar>2 ^ j * (a * b)\<bar> < 2 ^ 554"
proof -
  have "\<bar>a\<bar> * \<bar>b\<bar> < 2 ^ k * 2 ^ k" using assms(1,2) by (intro mult_strict_mono') simp_all
  then have "2 ^ j * (\<bar>a\<bar> * \<bar>b\<bar>) < 2 ^ j * (2 ^ k * 2 ^ k)" by simp
  also have "\<dots> \<le> 2 ^ 554" using assms(3) unfolding power_add [symmetric] by (intro power_increasing) simp_all
  finally show ?thesis by (simp add: abs_mult)
qed

lemma f32_masks: "F32_SIGN = push_bit (23 + 8) 1" "F32_EXPONENT = push_bit 23 (mask 8)" "F32_FRACTION = mask 23"
  by (simp_all add: f32_constants mask_eq_exp_minus_1)

lemma f16_masks: "F16_SIGN = push_bit (10 + 5) 1" "F16_EXPONENT = push_bit 10 (mask 5)" "F16_FRACTION = mask 10"
  by (simp_all add: f16_constants mask_eq_exp_minus_1)

lemma bf16_masks: "BF16_SIGN = push_bit (7 + 8) 1" "BF16_EXPONENT = push_bit 7 (mask 8)" "BF16_FRACTION = mask 7"
  by (simp_all add: bf16_constants mask_eq_exp_minus_1)

lemma f32_classify: "f32_finite w \<longleftrightarrow> \<not> is_f32_infinite w \<and> \<not> is_f32_nan w"
  and f32_all_ones: "w AND F32_EXPONENT = F32_EXPONENT \<longleftrightarrow> \<not> f32_finite w"
  and f32_exponent_zero: "w AND F32_EXPONENT = 0 \<longleftrightarrow> f32_exponent w = 0"
proof -
  have less: "f32_exponent w < 2 ^ 8" unfolding f32_exponent_def by (rule bits_below_zero) simp
  show ones: "w AND F32_EXPONENT = F32_EXPONENT \<longleftrightarrow> \<not> f32_finite w"
    using exponent_ones(1) [of 23 8 w] less by (auto simp: f32_masks f32_finite_def f32_exponent_def)
  show "w AND F32_EXPONENT = 0 \<longleftrightarrow> f32_exponent w = 0"
    using exponent_ones(2) [of 23 8 w] unfolding f32_masks f32_exponent_def by simp
  have "is_f32_infinite w \<or> is_f32_nan w \<longleftrightarrow> w AND F32_EXPONENT = F32_EXPONENT"
    unfolding is_f32_infinite_def is_f32_nan_def f32_masks by (rule infinite_or_nan) simp
  with ones show "f32_finite w \<longleftrightarrow> \<not> is_f32_infinite w \<and> \<not> is_f32_nan w" by blast
qed

lemma f16_classify: "f16_finite w \<longleftrightarrow> \<not> is_f16_infinite w \<and> \<not> is_f16_nan w"
  and f16_all_ones: "w AND F16_EXPONENT = F16_EXPONENT \<longleftrightarrow> \<not> f16_finite w"
  and f16_exponent_zero: "w AND F16_EXPONENT = 0 \<longleftrightarrow> f16_exponent w = 0"
proof -
  have less: "f16_exponent w < 2 ^ 5" unfolding f16_exponent_def by (rule bits_below_zero) simp
  show ones: "w AND F16_EXPONENT = F16_EXPONENT \<longleftrightarrow> \<not> f16_finite w"
    using exponent_ones(1) [of 10 5 w] less by (auto simp: f16_masks f16_finite_def f16_exponent_def)
  show "w AND F16_EXPONENT = 0 \<longleftrightarrow> f16_exponent w = 0"
    using exponent_ones(2) [of 10 5 w] unfolding f16_masks f16_exponent_def by simp
  have "is_f16_infinite w \<or> is_f16_nan w \<longleftrightarrow> w AND F16_EXPONENT = F16_EXPONENT"
    unfolding is_f16_infinite_def is_f16_nan_def f16_masks by (rule infinite_or_nan) simp
  with ones show "f16_finite w \<longleftrightarrow> \<not> is_f16_infinite w \<and> \<not> is_f16_nan w" by blast
qed

lemma bf16_classify: "bf16_finite w \<longleftrightarrow> \<not> is_bf16_infinite w \<and> \<not> is_bf16_nan w"
  and bf16_all_ones: "w AND BF16_EXPONENT = BF16_EXPONENT \<longleftrightarrow> \<not> bf16_finite w"
proof -
  have less: "bf16_exponent w < 2 ^ 8" unfolding bf16_exponent_def by (rule bits_below_zero) simp
  show ones: "w AND BF16_EXPONENT = BF16_EXPONENT \<longleftrightarrow> \<not> bf16_finite w"
    using exponent_ones(1) [of 7 8 w] less by (auto simp: bf16_masks bf16_finite_def bf16_exponent_def)
  have "is_bf16_infinite w \<or> is_bf16_nan w \<longleftrightarrow> w AND BF16_EXPONENT = BF16_EXPONENT"
    unfolding is_bf16_infinite_def is_bf16_nan_def bf16_masks by (rule infinite_or_nan) simp
  with ones show "bf16_finite w \<longleftrightarrow> \<not> is_bf16_infinite w \<and> \<not> is_bf16_nan w" by blast
qed

text \<open>Products on the scale of the accumulator.\<close>

definition f32_product :: "u32 \<Rightarrow> u32 \<Rightarrow> int" where
  "f32_product a b = f32_int a * f32_int b"

definition f16_product :: "u16 \<Rightarrow> u16 \<Rightarrow> int" where
  "f16_product a b = 2 ^ 250 * (f16_int a * f16_int b)"

definition bf16_product :: "u16 \<Rightarrow> u16 \<Rightarrow> int" where
  "bf16_product a b = 2 ^ 32 * (bf16_int a * bf16_int b)"

interpretation f32p: exact_products f32_operands f32_finite f32_product
proof unfold_locales
  show "f32_finite w \<longleftrightarrow> \<not> op_infinite f32_operands w \<and> \<not> op_nan f32_operands w" for w
    by (simp add: f32_operands_def f32_classify)
  show "\<bar>f32_product a b\<bar> < 2 ^ 554" if "f32_finite a" "f32_finite b" for a b
    using abs_product_less [of "f32_int a" 277 "f32_int b" 0] f32_int_less that by (simp add: f32_product_def)
qed (use add_f32_product_exact in \<open>simp add: f32_operands_def f32_product_def\<close>)

interpretation f16p: exact_products f16_operands f16_finite f16_product
proof unfold_locales
  show "f16_finite w \<longleftrightarrow> \<not> op_infinite f16_operands w \<and> \<not> op_nan f16_operands w" for w
    by (simp add: f16_operands_def f16_classify)
  show "\<bar>f16_product a b\<bar> < 2 ^ 554" if "f16_finite a" "f16_finite b" for a b
    using abs_product_less [of "f16_int a" 40 "f16_int b" 250] f16_int_less that by (simp add: f16_product_def)
qed (use add_f16_product_exact in \<open>simp add: f16_operands_def f16_product_def abs_mult\<close>)

interpretation bf16p: exact_products bf16_operands bf16_finite bf16_product
proof unfold_locales
  show "bf16_finite w \<longleftrightarrow> \<not> op_infinite bf16_operands w \<and> \<not> op_nan bf16_operands w" for w
    by (simp add: bf16_operands_def bf16_classify)
  show "\<bar>bf16_product a b\<bar> < 2 ^ 554" if "bf16_finite a" "bf16_finite b" for a b
    using abs_product_less [of "bf16_int a" 261 "bf16_int b" 32] bf16_int_less that by (simp add: bf16_product_def)
qed (use add_bf16_product_exact in \<open>simp add: bf16_operands_def bf16_product_def abs_mult\<close>)

end
