(* ===== verification/Slice_Reference.thy ===== *)
theory Slice_Reference
  imports Cube_Slice
begin

text \<open>
  The reference for the slices of \<open>fp16.rs\<close> and \<open>fp32.rs\<close>: exact sums of products of extended integers (an integer, a
  signed infinity or no number), rounded once. The scan for exceptional operands, the saturation and the accumulation
  of the code are shown to compute it.
\<close>

unbundle bit_operations_syntax

section \<open>Extended integers\<close>

datatype extended = NotANumber | Infinite bool | Exact int

fun ext_add :: "extended \<Rightarrow> extended \<Rightarrow> extended" where
  "ext_add (Exact x) (Exact y) = Exact (x + y)"
| "ext_add (Exact x) (Infinite t) = Infinite t"
| "ext_add (Infinite s) (Exact y) = Infinite s"
| "ext_add (Infinite s) (Infinite t) = (if s = t then Infinite s else NotANumber)"
| "ext_add _ _ = NotANumber"

fun ext_mult :: "extended \<Rightarrow> extended \<Rightarrow> extended" where
  "ext_mult (Exact x) (Exact y) = Exact (x * y)"
| "ext_mult (Exact x) (Infinite t) = (if x = 0 then NotANumber else Infinite ((x < 0) \<noteq> t))"
| "ext_mult (Infinite s) (Exact y) = (if y = 0 then NotANumber else Infinite (s \<noteq> (y < 0)))"
| "ext_mult (Infinite s) (Infinite t) = Infinite (s \<noteq> t)"
| "ext_mult _ _ = NotANumber"

fun ext_scale :: "int \<Rightarrow> extended \<Rightarrow> extended" where
  "ext_scale k (Exact x) = Exact (k * x)"
| "ext_scale k v = v"

text \<open>The value of a word in the saturating mode: an infinity is the largest finite value, a NaN is zero.\<close>

fun ext_saturate :: "int \<Rightarrow> extended \<Rightarrow> extended" where
  "ext_saturate m (Exact x) = Exact x"
| "ext_saturate m (Infinite s) = Exact (if s then - m else m)"
| "ext_saturate m NotANumber = Exact 0"

definition ext_mode :: "int \<Rightarrow> fp16_mode \<Rightarrow> extended \<Rightarrow> extended" where
  "ext_mode m mode v = (if mode = Saturating then ext_saturate m v else v)"

text \<open>The accumulator plus the products, on the scale of the exact accumulator.\<close>

definition dot_value :: "('a \<Rightarrow> extended) \<Rightarrow> int \<Rightarrow> ('a \<times> 'a) list \<Rightarrow> extended \<Rightarrow> extended" where
  "dot_value value k pairs acc = fold (\<lambda>(a, b) v. ext_add v (ext_scale k (ext_mult (value a) (value b)))) pairs acc"

definition negative_zero_sum :: "('a \<Rightarrow> extended) \<Rightarrow> ('a \<Rightarrow> bool) \<Rightarrow> ('a \<times> 'a) list \<Rightarrow> extended \<Rightarrow> bool \<Rightarrow> bool" where
  "negative_zero_sum value neg pairs acc acc_neg \<longleftrightarrow>
     acc = Exact 0 \<and> acc_neg \<and> (\<forall>(a, b)\<in>set pairs. ext_mult (value a) (value b) = Exact 0 \<and> neg a \<noteq> neg b)"

text \<open>
  What a slice returns for a sum \<open>v\<close>: the canonical NaN, with the invalid flag unless the accumulator was a NaN; the
  infinity; or the rounding of the exact sum, with the flags of the operands beside those of the rounding.
\<close>

definition slice_meets ::
  "(int \<Rightarrow> bool \<Rightarrow> 'r \<times> cube_fp_status \<Rightarrow> bool) \<Rightarrow> 'r \<Rightarrow> (bool \<Rightarrow> 'r) \<Rightarrow> extended \<Rightarrow> extended \<Rightarrow> bool \<Rightarrow> bool \<Rightarrow> bool
     \<Rightarrow> 'r \<times> cube_fp_status \<Rightarrow> bool" where
  "slice_meets rounded nan_bits inf_bits acc v negative_zero any_nan any_inf result \<longleftrightarrow>
     (case v of
        NotANumber \<Rightarrow> fst result = nan_bits \<and> (fs_invalid (snd result) \<longleftrightarrow> acc \<noteq> NotANumber) \<and>
          \<not> fs_overflow (snd result) \<and> \<not> fs_underflow (snd result)
      | Infinite s \<Rightarrow> fst result = inf_bits s \<and> snd result = fp_status_default\<lparr>fs_infinity_operand := True\<rparr>
      | Exact x \<Rightarrow> (\<exists>r. rounded x negative_zero (fst result, r) \<and>
          snd result = r\<lparr>fs_nan_operand := any_nan, fs_infinity_operand := any_inf\<rparr>))"

lemma ext_add_nan [simp]: "ext_add NotANumber v = NotANumber" "ext_add v NotANumber = NotANumber"
  by (cases v; simp)+

lemma dot_value_simps [simp]:
  "dot_value value k [] acc = acc"
  "dot_value value k ((a, b) # pairs) acc =
     dot_value value k pairs (ext_add acc (ext_scale k (ext_mult (value a) (value b))))"
  by (simp_all add: dot_value_def)

lemma dot_value_nan [simp]: "dot_value value k pairs NotANumber = NotANumber"
  by (induction pairs) auto

lemma dot_simps [simp]: "dot p [] = 0" "dot p ((a, b) # pairs) = p a b + dot p pairs"
  by (simp_all add: dot_def)

lemma dot_value_exact:
  assumes "\<forall>(a, b)\<in>set pairs. value a = Exact (f a) \<and> value b = Exact (f b)"
  shows "dot_value value k pairs (Exact x) = Exact (x + dot (\<lambda>a b. k * (f a * f b)) pairs)"
  using assms by (induction pairs arbitrary: x) (auto simp: add.assoc)

section \<open>The scan\<close>

definition word_value :: "'w::len word operand_format \<Rightarrow> ('w word \<Rightarrow> bool) \<Rightarrow> ('w word \<Rightarrow> int) \<Rightarrow> 'w word \<Rightarrow> extended" where
  "word_value F neg val w =
     (if op_nan F w then NotANumber else if op_infinite F w then Infinite (neg w) else Exact (val w))"

definition state_value :: "bool \<Rightarrow> bool \<Rightarrow> int \<Rightarrow> extended" where
  "state_value p n x = (if p \<and> n then NotANumber else if p then Infinite False else if n then Infinite True else Exact x)"

locale slice_format = exact_products F fin product
  for F :: "'w::len word operand_format" and fin :: "'w word \<Rightarrow> bool" and product :: "'w word \<Rightarrow> 'w word \<Rightarrow> int" +
  fixes val :: "'w word \<Rightarrow> int" and neg :: "'w word \<Rightarrow> bool" and k :: int
  assumes product_val: "product a b = k * (val a * val b)"
    and zero_val: "op_zero F w \<longleftrightarrow> fin w \<and> val w = 0"
    and sign_law: "(a XOR b) AND op_sign F = 0 \<longleftrightarrow> neg a = neg b"
    and val_neg: "fin w \<Longrightarrow> val w \<noteq> 0 \<Longrightarrow> val w < 0 \<longleftrightarrow> neg w"
    and not_both: "op_infinite F w \<Longrightarrow> \<not> op_nan F w"
begin

lemma term_value:
  "ext_scale k (ext_mult (word_value F neg val a) (word_value F neg val b)) =
     (if op_nan F a \<or> op_nan F b \<or> op_infinite F a \<and> op_zero F b \<or> op_infinite F b \<and> op_zero F a then NotANumber
      else if op_infinite F a \<or> op_infinite F b then Infinite (neg a \<noteq> neg b) else Exact (product a b))"
  using val_neg [of a] val_neg [of b] by (auto simp: word_value_def zero_val classify product_val)

lemma state_value_add:
  "ext_add (state_value p n x) (Infinite s) = (if s then state_value p True y else state_value True n y)"
  "ext_add (state_value p n x) (Exact z) = state_value p n (x + z)"
  by (auto simp: state_value_def)

lemma scan_pairs_reference:
  "case scan_pairs F pairs (fp_status_default\<lparr>fs_infinity_operand := p \<or> n\<rparr>) p n of
     Err status \<Rightarrow> dot_value (word_value F neg val) k pairs (state_value p n x) = NotANumber \<and> fs_invalid status \<and>
       \<not> fs_overflow status \<and> \<not> fs_underflow status
   | Ok (status, p', n') \<Rightarrow> status = fp_status_default\<lparr>fs_infinity_operand := p' \<or> n'\<rparr> \<and> (p \<or> n \<longrightarrow> p' \<or> n') \<and>
       dot_value (word_value F neg val) k pairs (state_value p n x) = state_value p' n' (x + dot product pairs) \<and>
       (\<not> p' \<and> \<not> n' \<longrightarrow> (\<forall>(a, b)\<in>set pairs. fin a \<and> fin b))"
proof (induction pairs arbitrary: p n x)
  case Nil
  show ?case by simp
next
  case (Cons q pairs)
  obtain a b where q: "q = (a, b)" by fastforce
  let ?invalid = "op_nan F a \<or> op_nan F b \<or> op_infinite F a \<and> op_zero F b \<or> op_infinite F b \<and> op_zero F a"
  consider (invalid) ?invalid | (infinite) "\<not> ?invalid" "op_infinite F a \<or> op_infinite F b"
    | (exact) "\<not> ?invalid" "\<not> op_infinite F a" "\<not> op_infinite F b" by blast
  then show ?case
  proof cases
    case invalid
    then show ?thesis by (auto simp: q Let_def term_value fp_status_default_def)
  next
    case infinite
    let ?s = "neg a \<noteq> neg b" and ?st = "fp_status_default\<lparr>fs_infinity_operand := True\<rparr>"
    have scan: "scan_pairs F (q # pairs) (fp_status_default\<lparr>fs_infinity_operand := p \<or> n\<rparr>) p n =
        (if ?s then scan_pairs F pairs ?st p True else scan_pairs F pairs ?st True n)"
      using infinite by (auto simp: q Let_def sign_law fp_status_default_def)
    have sum: "dot_value (word_value F neg val) k (q # pairs) (state_value p n x) =
        (if ?s then dot_value (word_value F neg val) k pairs (state_value p True (x + product a b))
         else dot_value (word_value F neg val) k pairs (state_value True n (x + product a b)))"
      using infinite by (auto simp: q term_value state_value_add(1) [where y = "x + product a b"])
    show ?thesis
    proof (cases ?s)
      case True
      show ?thesis using Cons.IH [of p True "x + product a b"] unfolding scan sum if_P [OF True]
        by (auto simp: q add.assoc split: sum.splits)
    next
      case False
      show ?thesis using Cons.IH [of True n "x + product a b"] unfolding scan sum if_not_P [OF False]
        by (auto simp: q add.assoc split: sum.splits)
    qed
  next
    case exact
    then show ?thesis
      using Cons.IH [of p n "x + product a b"]
      by (auto simp: q Let_def term_value fp_status_default_def state_value_add(2) classify add.assoc split: sum.splits)
  qed
qed

lemma scan_slice_reference:
  assumes acc: "acc = (if is_nan then NotANumber else if is_infinite then Infinite negative else Exact x)"
  shows "case scan_slice F pairs is_nan is_infinite negative of
     CanonicalNan status \<Rightarrow> dot_value (word_value F neg val) k pairs acc = NotANumber \<and>
       (fs_invalid status \<longleftrightarrow> acc \<noteq> NotANumber) \<and> \<not> fs_overflow status \<and> \<not> fs_underflow status
   | InfiniteSum s status \<Rightarrow> dot_value (word_value F neg val) k pairs acc = Infinite s \<and>
       status = fp_status_default\<lparr>fs_infinity_operand := True\<rparr>
   | FiniteTerms status \<Rightarrow> status = fp_status_default \<and> \<not> is_nan \<and> \<not> is_infinite \<and>
       (\<forall>(a, b)\<in>set pairs. fin a \<and> fin b) \<and> dot_value (word_value F neg val) k pairs acc = Exact (x + dot product pairs)"
proof (cases is_nan)
  case True
  then show ?thesis by (simp add: scan_slice_def acc fp_status_default_def)
next
  case False
  let ?p = "is_infinite \<and> \<not> negative" and ?n = "is_infinite \<and> negative"
  have a: "acc = state_value ?p ?n x" "acc \<noteq> NotANumber" using False by (auto simp: acc state_value_def)
  have st: "(if is_infinite then fp_status_default\<lparr>fs_infinity_operand := True\<rparr> else fp_status_default) =
    fp_status_default\<lparr>fs_infinity_operand := ?p \<or> ?n\<rparr>" by (auto simp: fp_status_default_def)
  show ?thesis
    using scan_pairs_reference [of pairs ?p ?n x] False a
    unfolding scan_slice_def Let_def st if_not_P [OF False]
    by (auto simp: state_value_def fp_status_default_def split: sum.splits prod.splits if_splits)
qed

end

section \<open>Single-precision accumulators\<close>

definition f32_value :: "u32 \<Rightarrow> extended" where
  "f32_value w =
     (if f32_finite w then Exact (f32_int w) else if take_bit 23 w = 0 then Infinite (bit w 31) else NotANumber)"

definition f32_max :: int where "f32_max = (2 ^ 24 - 1) * 2 ^ 253"

text \<open>An accumulator below the normal range is flushed to zero.\<close>

definition f32_accumulator :: "fp16_mode \<Rightarrow> u32 \<Rightarrow> extended" where
  "f32_accumulator mode acc =
     ext_scale (2 ^ 149) (if f32_exponent acc = 0 then Exact 0 else ext_mode f32_max mode (f32_value acc))"

definition f32_slice_spec ::
  "('a \<Rightarrow> extended) \<Rightarrow> ('a \<Rightarrow> bool) \<Rightarrow> int \<Rightarrow> int \<Rightarrow> fp16_mode \<Rightarrow> 'a list \<Rightarrow> 'a list \<Rightarrow> u32 \<Rightarrow> f32_slice_outcome \<Rightarrow> bool" where
  "f32_slice_spec value neg k m mode left right acc outcome \<longleftrightarrow>
     (let vs = map value (left @ right) @ [f32_value acc];
          a = f32_accumulator mode acc;
          operand = (\<lambda>w. ext_mode m mode (value w)) in
      slice_meets f32_rounded F32_CANONICAL_NAN (\<lambda>s. if s then 0xff800000 else 0x7f800000) a
        (dot_value operand k (zip left right) a) (negative_zero_sum operand neg (zip left right) a (bit acc 31))
        (NotANumber \<in> set vs) (\<exists>s. Infinite s \<in> set vs) (s32_bits outcome, s32_status outcome))"

lemma flag_operands_eq:
  "flag_operands is_nan is_infinite xs status =
     status\<lparr>fs_nan_operand := fs_nan_operand status \<or> (\<exists>x\<in>set xs. is_nan x),
       fs_infinity_operand := fs_infinity_operand status \<or> (\<exists>x\<in>set xs. is_infinite x)\<rparr>"
  by (induction xs arbitrary: status) (auto simp: Let_def)

lemma word_value_f32: "word_value f32_operands (\<lambda>w. bit w 31) f32_int = f32_value"
proof
  fix w :: u32
  have "is_f32_nan w \<longleftrightarrow> \<not> f32_finite w \<and> take_bit 23 w \<noteq> 0"
    unfolding is_f32_nan_def f32_all_ones by (simp add: F32_FRACTION_def take_bit_eq_mask mask_eq_exp_minus_1)
  then show "word_value f32_operands (\<lambda>w. bit w 31) f32_int w = f32_value w"
    using f32_classify [of w] by (auto simp: word_value_def f32_operands_def f32_value_def)
qed

lemma f32_value_cases:
  "f32_value w = (if is_f32_nan w then NotANumber else if is_f32_infinite w then Infinite (bit w 31) else Exact (f32_int w))"
  unfolding word_value_f32 [symmetric] by (simp add: word_value_def f32_operands_def)

lemma zero_fields:
  fixes w :: "'w::len word"
  assumes "p + n + 1 = LENGTH('w)"
  shows "w AND NOT (push_bit (p + n) 1) = 0 \<longleftrightarrow> float_magnitude p (unat (take_bit n (drop_bit p w))) (unat (take_bit p w)) = 0"
proof -
  have "w AND NOT (push_bit (p + n) 1) = (w AND push_bit p (mask n)) OR (w AND mask p)"
    by (rule bit_word_eqI) (use assms in \<open>auto simp: bit_simps\<close>)
  moreover have "w AND push_bit p (mask n) = 0 \<longleftrightarrow> unat (take_bit n (drop_bit p w)) = 0"
    using assms by (intro exponent_ones) simp
  moreover have "w AND mask p = 0 \<longleftrightarrow> unat (take_bit p w) = 0" by (simp add: take_bit_eq_mask unat_eq_zero)
  ultimately show ?thesis by (simp add: or_eq_0_iff float_magnitude_def)
qed

lemma word_zero:
  "is_f32_zero w \<longleftrightarrow> f32_int w = 0" "is_f16_zero h \<longleftrightarrow> f16_int h = 0" "is_bf16_zero h \<longleftrightarrow> bf16_int h = 0"
  using zero_fields [of 23 8 w] zero_fields [of 10 5 h] zero_fields [of 7 8 h]
  by (simp_all add: is_f32_zero_def is_f16_zero_def is_bf16_zero_def f32_masks f16_masks bf16_masks
      f32_int_def f16_int_def bf16_int_def f32_exponent_def f16_exponent_def bf16_exponent_def)

lemma zero_finite:
  "f32_int w = 0 \<Longrightarrow> f32_finite w" "f16_int h = 0 \<Longrightarrow> f16_finite h" "bf16_int h = 0 \<Longrightarrow> bf16_finite h"
  by (auto simp: f32_int_def f16_int_def bf16_int_def f32_finite_def f16_finite_def bf16_finite_def float_magnitude_def
      split: if_splits)

lemma int_negative:
  "f32_int w \<noteq> 0 \<Longrightarrow> f32_int w < 0 \<longleftrightarrow> bit w 31" "f16_int h \<noteq> 0 \<Longrightarrow> f16_int h < 0 \<longleftrightarrow> bit h 15"
  "bf16_int h \<noteq> 0 \<Longrightarrow> bf16_int h < 0 \<longleftrightarrow> bit h 15"
  by (auto simp: f32_int_def f16_int_def bf16_int_def sign_mag_def split: if_splits)

lemma sign_differs:
  "(v XOR w) AND F32_SIGN = 0 \<longleftrightarrow> bit v 31 = bit w 31" "(g XOR h) AND F16_SIGN = 0 \<longleftrightarrow> bit g 15 = bit h 15"
  "(g XOR h) AND BF16_SIGN = 0 \<longleftrightarrow> bit g 15 = bit h 15"
  using sign_masks(1) [of "v XOR w"] sign_masks(2,3) [of "g XOR h"] by (auto simp: bit_xor_iff)

lemma infinite_fraction:
  fixes w :: "'w::len word"
  assumes "p + n + 1 = LENGTH('w)" "w AND NOT (push_bit (p + n) 1) = push_bit p (mask n)"
  shows "w AND mask p = 0"
proof -
  have "w AND mask p = (w AND NOT (push_bit (p + n) 1)) AND mask p"
    by (rule bit_word_eqI) (use assms(1) in \<open>auto simp: bit_simps\<close>)
  also have "\<dots> = 0" unfolding assms(2) by (rule bit_word_eqI) (auto simp: bit_simps)
  finally show ?thesis .
qed

lemma infinite_not_nan:
  "is_f32_infinite w \<Longrightarrow> \<not> is_f32_nan w" "is_f16_infinite h \<Longrightarrow> \<not> is_f16_nan h" "is_bf16_infinite h \<Longrightarrow> \<not> is_bf16_nan h"
  using infinite_fraction [of 23 8 w] infinite_fraction [of 10 5 h] infinite_fraction [of 7 8 h]
  by (simp_all add: is_f32_infinite_def is_f16_infinite_def is_bf16_infinite_def is_f32_nan_def is_f16_nan_def
      is_bf16_nan_def f32_masks f16_masks bf16_masks)

interpretation f32s: slice_format f32_operands f32_finite f32_product f32_int "\<lambda>w. bit w 31" 1
  by unfold_locales
    (auto simp: f32_product_def f32_operands_def word_zero zero_finite sign_differs int_negative infinite_not_nan)

interpretation f16s: slice_format f16_operands f16_finite f16_product f16_int "\<lambda>w. bit w 15" "2 ^ 250"
  by unfold_locales
    (auto simp: f16_product_def f16_operands_def word_zero zero_finite sign_differs int_negative infinite_not_nan)

interpretation bf16s: slice_format bf16_operands bf16_finite bf16_product bf16_int "\<lambda>w. bit w 15" "2 ^ 32"
  by unfold_locales
    (auto simp: bf16_product_def bf16_operands_def word_zero zero_finite sign_differs int_negative infinite_not_nan)

lemma accumulator_value:
  "f32_accumulator NonSaturating acc = (if is_f32_nan acc then NotANumber
     else if is_f32_infinite acc then Infinite (acc AND F32_SIGN \<noteq> 0) else Exact (2 ^ 149 * f32_flush acc))"
proof (cases "f32_exponent acc = 0")
  case True
  then have "f32_finite acc" by (simp add: f32_finite_def)
  with True show ?thesis using f32_classify [of acc] by (simp add: f32_accumulator_def f32_flush_def)
next
  case False
  then show ?thesis using sign_masks(1) [of acc] by (auto simp: f32_accumulator_def f32_flush_def ext_mode_def f32_value_cases)
qed

section \<open>Saturation\<close>

definition f16_value :: "u16 \<Rightarrow> extended" where
  "f16_value w =
     (if f16_finite w then Exact (f16_int w) else if take_bit 10 w = 0 then Infinite (bit w 15) else NotANumber)"

definition bf16_value :: "u16 \<Rightarrow> extended" where
  "bf16_value w =
     (if bf16_finite w then Exact (bf16_int w) else if take_bit 7 w = 0 then Infinite (bit w 15) else NotANumber)"

definition f16_max :: int where "f16_max = (2 ^ 11 - 1) * 2 ^ 29"
definition bf16_max :: int where "bf16_max = (2 ^ 8 - 1) * 2 ^ 253"

lemma word_value_f16: "word_value f16_operands (\<lambda>w. bit w 15) f16_int = f16_value"
proof
  fix w :: u16
  have "is_f16_nan w \<longleftrightarrow> \<not> f16_finite w \<and> take_bit 10 w \<noteq> 0"
    unfolding is_f16_nan_def f16_all_ones by (simp add: F16_FRACTION_def take_bit_eq_mask mask_eq_exp_minus_1)
  then show "word_value f16_operands (\<lambda>w. bit w 15) f16_int w = f16_value w"
    using f16_classify [of w] by (auto simp: word_value_def f16_operands_def f16_value_def)
qed

lemma word_value_bf16: "word_value bf16_operands (\<lambda>w. bit w 15) bf16_int = bf16_value"
proof
  fix w :: u16
  have "is_bf16_nan w \<longleftrightarrow> \<not> bf16_finite w \<and> take_bit 7 w \<noteq> 0"
    unfolding is_bf16_nan_def bf16_all_ones by (simp add: BF16_FRACTION_def take_bit_eq_mask mask_eq_exp_minus_1)
  then show "word_value bf16_operands (\<lambda>w. bit w 15) bf16_int w = bf16_value w"
    using bf16_classify [of w] by (auto simp: word_value_def bf16_operands_def bf16_value_def)
qed

lemma and_one_bit: "w AND push_bit n 1 = (if bit w n then push_bit n 1 else 0)" for w :: "'w::len word"
  by (rule bit_word_eqI) (auto simp: bit_simps)

lemma sign_part:
  "w AND F32_SIGN = (if bit w 31 then 0x80000000 else 0)" "h AND F16_SIGN = (if bit h 15 then 0x8000 else 0)"
  "h AND BF16_SIGN = (if bit h 15 then 0x8000 else 0)"
  using and_one_bit [of w 31] and_one_bit [of h 15] by (simp_all add: F32_SIGN_def F16_SIGN_def BF16_SIGN_def)

lemma f16_value_cases:
  "f16_value w = (if is_f16_nan w then NotANumber else if is_f16_infinite w then Infinite (bit w 15) else Exact (f16_int w))"
  unfolding word_value_f16 [symmetric] by (simp add: word_value_def f16_operands_def)

lemma bf16_value_cases:
  "bf16_value w = (if is_bf16_nan w then NotANumber else if is_bf16_infinite w then Infinite (bit w 15) else Exact (bf16_int w))"
  unfolding word_value_bf16 [symmetric] by (simp add: word_value_def bf16_operands_def)

text \<open>What the saturation of a word means, on the words that are its results.\<close>

lemma saturated_words:
  "f32_finite 0x7f7fffff" "f32_finite 0xff7fffff" "f32_finite 0" "f32_finite 0x80000000"
  "f32_int 0x7f7fffff = f32_max" "f32_int 0xff7fffff = - f32_max" "f32_int 0 = 0" "f32_int 0x80000000 = 0"
  "f16_finite 0x7bff" "f16_finite 0xfbff" "f16_finite 0" "f16_finite 0x8000"
  "f16_int 0x7bff = f16_max" "f16_int 0xfbff = - f16_max" "f16_int 0 = 0" "f16_int 0x8000 = 0"
  "bf16_finite 0x7f7f" "bf16_finite 0xff7f" "bf16_finite 0" "bf16_finite 0x8000"
  "bf16_int 0x7f7f = bf16_max" "bf16_int 0xff7f = - bf16_max" "bf16_int 0 = 0" "bf16_int 0x8000 = 0"
  by (simp_all add: f32_finite_def f32_exponent_def f32_int_def f32_max_def f16_finite_def f16_exponent_def f16_int_def
      f16_max_def bf16_finite_def bf16_exponent_def bf16_int_def bf16_max_def float_magnitude_def sign_mag_def)

lemma saturate_f32:
  "f32_finite (saturate_f32_nonfinite w) \<and> bit (saturate_f32_nonfinite w) 31 = bit w 31 \<and>
   ext_saturate f32_max (f32_value w) = Exact (f32_int (saturate_f32_nonfinite w))"
  using f32_classify [of w] f32_all_ones [of w] infinite_not_nan(1) [of w] unfolding saturate_f32_nonfinite_def sign_part
  by (cases "bit w 31") (auto simp: f32_value_cases F32_MAX_FINITE_def saturated_words)

lemma saturate_f16:
  "f16_finite (saturate_f16_nonfinite w) \<and> bit (saturate_f16_nonfinite w) 15 = bit w 15 \<and>
   ext_saturate f16_max (f16_value w) = Exact (f16_int (saturate_f16_nonfinite w))"
  using f16_classify [of w] f16_all_ones [of w] infinite_not_nan(2) [of w] unfolding saturate_f16_nonfinite_def sign_part
  by (cases "bit w 15") (auto simp: f16_value_cases F16_MAX_FINITE_def saturated_words)

lemma saturate_bf16:
  "bf16_finite (saturate_bf16_nonfinite w) \<and> bit (saturate_bf16_nonfinite w) 15 = bit w 15 \<and>
   ext_saturate bf16_max (bf16_value w) = Exact (bf16_int (saturate_bf16_nonfinite w))"
  using bf16_classify [of w] bf16_all_ones [of w] infinite_not_nan(3) [of w] unfolding saturate_bf16_nonfinite_def sign_part
  by (cases "bit w 15") (auto simp: bf16_value_cases BF16_MAX_FINITE_def saturated_words)

section \<open>Slices of finite operands\<close>

lemma rounded_status:
  "f32_rounded x nz (bits, r) \<Longrightarrow> fp_status_merge (fp_status_default\<lparr>fs_nan_operand := A, fs_infinity_operand := B\<rparr>) r =
     r\<lparr>fs_nan_operand := A, fs_infinity_operand := B\<rparr>"
  "f16_rounded x nz mode (half, r) \<Longrightarrow> fp_status_merge (fp_status_default\<lparr>fs_nan_operand := A, fs_infinity_operand := B\<rparr>) r =
     r\<lparr>fs_nan_operand := A, fs_infinity_operand := B\<rparr>"
  by (auto simp: f32_rounded_def f16_rounded_def fp_status_merge_def fp_status_default_def split: if_splits)

lemma zip_maps: "zip (map g xs) (map g ys) = map (map_prod g g) (zip xs ys)"
  by (simp add: zip_map_map map_prod_def)

lemma dot_map: "dot p (map (map_prod g g) pairs) = dot (\<lambda>a b. p (g a) (g b)) pairs"
  by (induction pairs) auto

lemma saturated_accumulator: "f32_accumulator Saturating acc = Exact (2 ^ 149 * f32_flush (saturate_f32_nonfinite acc))"
proof -
  let ?c = "saturate_f32_nonfinite acc"
  note c = saturate_f32 [of acc]
  have zero: "f32_exponent ?c = 0 \<Longrightarrow> f32_exponent acc \<noteq> 0 \<Longrightarrow> f32_int ?c = 0"
    using f32_all_ones [of acc] sign_part(1) [of acc]
    by (auto simp: saturate_f32_nonfinite_def saturated_words F32_MAX_FINITE_def f32_exponent_def split: if_splits)
  have keep: "f32_exponent acc = 0 \<Longrightarrow> ?c = acc"
    using f32_all_ones [of acc] by (simp add: saturate_f32_nonfinite_def f32_finite_def)
  show ?thesis
    using c zero keep by (auto simp: f32_accumulator_def ext_mode_def f32_flush_def)
qed

context slice_format
begin

lemma negative_zero_code:
  assumes "\<forall>(a, b)\<in>set pairs. (fin (g a) \<and> neg (g a) = neg a \<and> value a = Exact (val (g a))) \<and>
      (fin (g b) \<and> neg (g b) = neg b \<and> value b = Exact (val (g b)))"
  shows "(\<forall>(a, b)\<in>set pairs. ext_mult (value a) (value b) = Exact 0 \<and> neg a \<noteq> neg b) \<longleftrightarrow>
    all_zero_products F (map (map_prod g g) pairs) \<and> negative_zeros F (map (map_prod g g) pairs)"
proof -
  let ?zero = "\<lambda>a b. op_zero F (g a) \<or> op_zero F (g b)" and ?sign = "\<lambda>a b. (g a XOR g b) AND op_sign F \<noteq> 0"
  have step: "ext_mult (value a) (value b) = Exact 0 \<and> neg a \<noteq> neg b \<longleftrightarrow> ?zero a b \<and> (?zero a b \<longrightarrow> ?sign a b)"
    if "(a, b) \<in> set pairs" for a b
  proof -
    have f: "fin (g a)" "neg (g a) = neg a" "value a = Exact (val (g a))"
      "fin (g b)" "neg (g b) = neg b" "value b = Exact (val (g b))" using that assms by auto
    show ?thesis unfolding f(3,6) zero_val sign_law using f(1,2,4,5) by auto
  qed
  have maps: "list_all P (map (map_prod g g) pairs) \<longleftrightarrow> (\<forall>(a, b)\<in>set pairs. P (g a, g b))" for P
    by (auto simp: list_all_iff)
  show ?thesis unfolding all_zero_products_def negative_zeros_def maps using step by fastforce
qed

lemma finite_dot:
  assumes "\<forall>w\<in>set left \<union> set right. fin (g w) \<and> neg (g w) = neg w \<and> value w = Exact (val (g w))"
  shows "\<forall>(a, b)\<in>set (zip (map g left) (map g right)). fin a \<and> fin b"
    and "dot_value value k (zip left right) (Exact x) = Exact (x + dot product (zip (map g left) (map g right)))"
    and "(\<forall>(a, b)\<in>set (zip left right). ext_mult (value a) (value b) = Exact 0 \<and> neg a \<noteq> neg b) \<longleftrightarrow>
      all_zero_products F (zip (map g left) (map g right)) \<and> negative_zeros F (zip (map g left) (map g right))"
proof -
  have p: "\<forall>(a, b)\<in>set (zip left right). (fin (g a) \<and> neg (g a) = neg a \<and> value a = Exact (val (g a))) \<and>
      (fin (g b) \<and> neg (g b) = neg b \<and> value b = Exact (val (g b)))"
    using assms by (auto dest: set_zip_leftD set_zip_rightD)
  show "\<forall>(a, b)\<in>set (zip (map g left) (map g right)). fin a \<and> fin b" using p by (auto simp: zip_maps)
  have "\<forall>(a, b)\<in>set (zip left right). value a = Exact (val (g a)) \<and> value b = Exact (val (g b))" using p by auto
  from dot_value_exact [OF this] show "dot_value value k (zip left right) (Exact x) = Exact (x + dot product (zip (map g left) (map g right)))"
    by (simp add: zip_maps dot_map product_val)
  show "(\<forall>(a, b)\<in>set (zip left right). ext_mult (value a) (value b) = Exact 0 \<and> neg a \<noteq> neg b) \<longleftrightarrow>
      all_zero_products F (zip (map g left) (map g right)) \<and> negative_zeros F (zip (map g left) (map g right))"
    unfolding zip_maps by (rule negative_zero_code [OF p])
qed

lemma finite_slice_f32:
  assumes w: "\<forall>w\<in>set left \<union> set right. fin (g w) \<and> neg (g w) = neg w \<and> value w = Exact (val (g w))"
    and len: "length left \<le> 16" and c: "f32_finite c" and a: "a = Exact (2 ^ 149 * f32_flush c)"
  shows "\<exists>outcome. sum_f32 F (zip (map g left) (map g right)) c (fp_status_default\<lparr>fs_nan_operand := A, fs_infinity_operand := B\<rparr>) =
      Ok outcome \<and>
    slice_meets f32_rounded nan_bits inf_bits a (dot_value value k (zip left right) a)
      (negative_zero_sum value neg (zip left right) a (bit c 31)) A B (s32_bits outcome, s32_status outcome)"
proof -
  let ?pairs = "zip (map g left) (map g right)" and ?x = "2 ^ 149 * f32_flush c"
  have small: "\<bar>2 ^ 149 * f32_flush c\<bar> < 2 ^ 426"
  proof -
    have "\<bar>f32_flush c\<bar> < 2 ^ 277" using f32_int_less [OF c] by (simp add: f32_flush_def)
    then have "2 ^ 149 * \<bar>f32_flush c\<bar> < 2 ^ 149 * 2 ^ 277" by (rule mult_strict_left_mono) simp
    then show ?thesis by (simp add: abs_mult)
  qed
  have "\<bar>exact_int exact_default\<bar> + 2 ^ 149 * \<bar>f32_int c\<bar> < 2 ^ 576" using f32_int_less [OF c] by simp
  from add_f32_exact [OF c exact_default_ok(1) this] obtain d where
    d: "add_f32 exact_default c = Ok d" "exact_ok d" "exact_int d = ?x" by auto
  have "int (length ?pairs) * 2 ^ 554 \<le> 16 * 2 ^ 554" using len by (intro mult_right_mono) simp_all
  then have "\<bar>exact_int d\<bar> + int (length ?pairs) * 2 ^ 554 < 2 ^ 576" using small unfolding d(3) by simp
  from add_products_exact [OF finite_dot(1) [OF w] d(2) this, of "\<not> c AND F32_EXPONENT \<noteq> 0 \<and> c AND F32_SIGN \<noteq> 0"]
  obtain e where
    e: "add_products F ?pairs d (\<not> c AND F32_EXPONENT \<noteq> 0 \<and> c AND F32_SIGN \<noteq> 0) =
        Ok (e, (\<not> c AND F32_EXPONENT \<noteq> 0 \<and> c AND F32_SIGN \<noteq> 0) \<and> negative_zeros F ?pairs)" "exact_ok e"
      "exact_int e = ?x + dot product ?pairs"
    unfolding d(3) by blast
  let ?nz = "\<not> c AND F32_EXPONENT \<noteq> 0 \<and> all_zero_products F ?pairs \<and>
    (\<not> c AND F32_EXPONENT \<noteq> 0 \<and> c AND F32_SIGN \<noteq> 0) \<and> negative_zeros F ?pairs"
  obtain bits r where r: "round_f32 e ?nz = Ok (bits, r)" "f32_rounded (exact_int e) ?nz (bits, r)"
    using round_f32_nearest [OF e(2), of ?nz] by fastforce
  have flush: "f32_flush c = 0 \<longleftrightarrow> f32_exponent c = 0"
    by (auto simp: f32_flush_def f32_int_def float_magnitude_def)
  have nz: "?nz = negative_zero_sum value neg (zip left right) a (bit c 31)"
    unfolding negative_zero_sum_def finite_dot(3) [OF w] sign_masks f32_exponent_zero a using flush by auto
  have "sum_f32 F ?pairs c (fp_status_default\<lparr>fs_nan_operand := A, fs_infinity_operand := B\<rparr>) =
      Ok \<lparr>s32_bits = bits, s32_status = r\<lparr>fs_nan_operand := A, fs_infinity_operand := B\<rparr>\<rparr>"
    using d(1) e(1) r(1) rounded_status(1) [OF r(2)] by (simp add: sum_f32_def Let_def)
  moreover have "f32_rounded (?x + dot product ?pairs) (negative_zero_sum value neg (zip left right) a (bit c 31)) (bits, r)"
    using r(2) unfolding nz e(3) .
  ultimately show ?thesis
    unfolding a finite_dot(2) [OF w] slice_meets_def by (auto simp del: numeral_power_eq_of_nat_cancel_iff)
qed

lemma value_flags:
  assumes "set xs = set left \<union> set right"
  shows "NotANumber \<in> set (map (word_value F neg val) xs @ [f32_value acc]) \<longleftrightarrow> (\<exists>w\<in>set xs. op_nan F w) \<or> is_f32_nan acc"
    and "(\<exists>s. Infinite s \<in> set (map (word_value F neg val) xs @ [f32_value acc])) \<longleftrightarrow>
      (\<exists>w\<in>set xs. op_infinite F w) \<or> is_f32_infinite acc"
proof -
  have n: "NotANumber = word_value F neg val w \<longleftrightarrow> op_nan F w" "NotANumber = f32_value acc \<longleftrightarrow> is_f32_nan acc" for w
    by (auto simp: word_value_def f32_value_cases)
  have i: "(\<exists>s. Infinite s = word_value F neg val w) \<longleftrightarrow> op_infinite F w" "(\<exists>s. Infinite s = f32_value acc) \<longleftrightarrow> is_f32_infinite acc"
    for w using not_both [of w] infinite_not_nan(1) [of acc] by (auto simp: word_value_def f32_value_cases)
  show "NotANumber \<in> set (map (word_value F neg val) xs @ [f32_value acc]) \<longleftrightarrow> (\<exists>w\<in>set xs. op_nan F w) \<or> is_f32_nan acc"
    using n by (auto simp: image_iff)
  show "(\<exists>s. Infinite s \<in> set (map (word_value F neg val) xs @ [f32_value acc])) \<longleftrightarrow>
      (\<exists>w\<in>set xs. op_infinite F w) \<or> is_f32_infinite acc"
    using i by (auto simp: image_iff) metis+
qed

lemma saturating_slice_f32:
  assumes sat: "\<And>w. fin (sat w) \<and> neg (sat w) = neg w \<and> ext_saturate m (word_value F neg val w) = Exact (val (sat w))"
    and len: "length left \<le> 16" and flags: "A \<longleftrightarrow> (\<exists>w\<in>set (left @ right). op_nan F w) \<or> is_f32_nan acc"
      "B \<longleftrightarrow> (\<exists>w\<in>set (left @ right). op_infinite F w) \<or> is_f32_infinite acc"
  shows "\<exists>outcome. sum_f32 F (zip (map sat left) (map sat right)) (saturate_f32_nonfinite acc)
      (fp_status_default\<lparr>fs_nan_operand := A, fs_infinity_operand := B\<rparr>) = Ok outcome \<and>
    f32_slice_spec (word_value F neg val) neg k m Saturating left right acc outcome"
proof -
  let ?c = "saturate_f32_nonfinite acc"
  note c = saturate_f32 [of acc]
  have a: "f32_accumulator Saturating acc = Exact (2 ^ 149 * f32_flush ?c)" by (rule saturated_accumulator)
  have w: "\<forall>w\<in>set left \<union> set right. fin (sat w) \<and> neg (sat w) = neg w \<and>
      ext_saturate m (word_value F neg val w) = Exact (val (sat w))" using sat by blast
  show ?thesis
    using finite_slice_f32 [OF w len _ a, where A = A and B = B] c
    unfolding f32_slice_spec_def Let_def value_flags [OF set_append] flags [symmetric]
    by (simp add: ext_mode_def)
qed

lemma ieee_slice_f32:
  assumes len: "length left = length right" "length left \<le> 16"
  shows "\<exists>outcome. special_f32 (scan_slice F (zip left right) (is_f32_nan acc) (is_f32_infinite acc) (acc AND F32_SIGN \<noteq> 0))
      (sum_f32 F (zip left right) acc) = Ok outcome \<and>
    f32_slice_spec (word_value F neg val) neg k m NonSaturating left right acc outcome"
proof -
  let ?a = "f32_accumulator NonSaturating acc" and ?scan = "scan_slice F (zip left right) (is_f32_nan acc) (is_f32_infinite acc) (acc AND F32_SIGN \<noteq> 0)"
  note scan = scan_slice_reference [OF accumulator_value [of acc], of "zip left right"]
  show ?thesis
  proof (cases ?scan)
    case (FiniteTerms status)
    then have st: "status = fp_status_default" and c: "\<not> is_f32_nan acc" "\<not> is_f32_infinite acc"
      and f: "\<forall>(a, b)\<in>set (zip left right). fin a \<and> fin b" using scan by simp_all
    have fin: "fin w" if "w \<in> set left \<union> set right" for w
      using f that len(1) by (fastforce simp: in_set_conv_nth set_zip)
    have w: "\<forall>w\<in>set left \<union> set right. fin (id w) \<and> neg (id w) = neg w \<and> word_value F neg val w = Exact (val (id w))"
      using fin classify by (auto simp: word_value_def)
    have no: "\<not> (\<exists>w\<in>set (left @ right). op_nan F w)" "\<not> (\<exists>w\<in>set (left @ right). op_infinite F w)" using fin classify by auto
    have a: "?a = Exact (2 ^ 149 * f32_flush acc)" unfolding accumulator_value using c by simp
    have fc: "f32_finite acc" using c f32_classify by blast
    have "fp_status_default = fp_status_default\<lparr>fs_nan_operand := False, fs_infinity_operand := False\<rparr>"
      by (simp add: fp_status_default_def)
    with finite_slice_f32 [OF w len(2) fc a, where A = False and B = False] show ?thesis
      unfolding f32_slice_spec_def Let_def value_flags [OF set_append] using no c st FiniteTerms
      by (simp add: ext_mode_def special_f32_def)
  next
    case (CanonicalNan status)
    then show ?thesis using scan
      by (simp add: special_f32_def f32_slice_spec_def Let_def slice_meets_def ext_mode_def)
  next
    case (InfiniteSum s status)
    then show ?thesis using scan
      by (simp add: special_f32_def f32_slice_spec_def Let_def slice_meets_def ext_mode_def f32_constants)
  qed
qed

end

section \<open>The evaluators with single-precision accumulators\<close>

lemma saturating_flags:
  "(fp_status_default\<lparr>fs_nan_operand := fs_nan_operand fp_status_default \<or> a, fs_infinity_operand := fs_infinity_operand fp_status_default \<or> b\<rparr>)
     \<lparr>fs_nan_operand := a \<or> c, fs_infinity_operand := b \<or> d\<rparr> =
   fp_status_default\<lparr>fs_nan_operand := a \<or> c, fs_infinity_operand := b \<or> d\<rparr>"
  by (simp add: fp_status_default_def)

lemmas evaluate_f32 =
  f32s.saturating_slice_f32 [where sat = saturate_f32_nonfinite and m = f32_max, unfolded word_value_f32, OF saturate_f32]
  f32s.ieee_slice_f32 [where m = f32_max, unfolded word_value_f32]

lemmas evaluate_f16_f32 =
  f16s.saturating_slice_f32 [where sat = saturate_f16_nonfinite and m = f16_max, unfolded word_value_f16, OF saturate_f16]
  f16s.ieee_slice_f32 [where m = f16_max, unfolded word_value_f16]

lemmas evaluate_bf16_f32 =
  bf16s.saturating_slice_f32 [where sat = saturate_bf16_nonfinite and m = bf16_max, unfolded word_value_bf16, OF saturate_bf16]
  bf16s.ieee_slice_f32 [where m = bf16_max, unfolded word_value_bf16]

text \<open>C32. A slice of four single-precision products never fails: it returns the accumulator (flushed to zero below the normal
  range) plus the exact products, rounded once to the nearest value, ties to even, with the documented treatment of NaNs,
  infinities, saturation, zero signs and status flags.\<close>

theorem f32_slice_reference:
  assumes len: "length left = 4" "length right = 4"
  shows "\<exists>outcome. evaluate_f32_f32_slice left right acc mode = Ok outcome \<and>
    f32_slice_spec f32_value (\<lambda>w. bit w 31) 1 f32_max mode left right acc outcome"
proof (cases mode)
  case Saturating
  show ?thesis
    using evaluate_f32(1) [of left _ right acc _, OF _ refl refl] len
    unfolding Saturating evaluate_f32_f32_slice_def Let_def flag_operands_eq
    by (simp add: f32_operands_def fp_status_default_def)
next
  case NonSaturating
  show ?thesis
    using evaluate_f32(2) [of left right acc] len unfolding NonSaturating evaluate_f32_f32_slice_def by simp
qed

theorem f32_slice_reference_witness:
  "\<exists>outcome. evaluate_f32_f32_slice [0x3f800000, 0, 0, 0x7f800000] [0x40000000, 0, 0, 0x3f800000] 0x3f800000 Saturating = Ok outcome \<and>
     f32_slice_spec f32_value (\<lambda>w. bit w 31) 1 f32_max Saturating [0x3f800000, 0, 0, 0x7f800000] [0x40000000, 0, 0, 0x3f800000] 0x3f800000 outcome"
  by (rule f32_slice_reference) simp_all

text \<open>C33. The same for slices of sixteen products of half precision and of bfloat16 with a single-precision accumulator.\<close>

theorem half_slices_reference:
  assumes len: "length left = 16" "length right = 16"
  shows "(\<exists>outcome. evaluate_f16_f32_slice left right acc mode = Ok outcome \<and>
      f32_slice_spec f16_value (\<lambda>w. bit w 15) (2 ^ 250) f16_max mode left right acc outcome) \<and>
    (\<exists>outcome. evaluate_bf16_f32_slice left right acc mode = Ok outcome \<and>
      f32_slice_spec bf16_value (\<lambda>w. bit w 15) (2 ^ 32) bf16_max mode left right acc outcome)"
proof (cases mode)
  case Saturating
  show ?thesis
    using evaluate_f16_f32(1) [of left _ right acc _, OF _ refl refl] evaluate_bf16_f32(1) [of left _ right acc _, OF _ refl refl] len
    unfolding Saturating evaluate_f16_f32_slice_def evaluate_bf16_f32_slice_def Let_def flag_operands_eq
    by (simp add: f16_operands_def bf16_operands_def fp_status_default_def)
next
  case NonSaturating
  show ?thesis
    using evaluate_f16_f32(2) [of left right acc] evaluate_bf16_f32(2) [of left right acc] len
    unfolding NonSaturating evaluate_f16_f32_slice_def evaluate_bf16_f32_slice_def by simp
qed

theorem half_slices_reference_witness:
  "\<exists>outcome. evaluate_f16_f32_slice (replicate 16 0x3c00) (replicate 16 0x7c00) 0 NonSaturating = Ok outcome \<and>
     s32_bits outcome = 0x7f800000"
proof -
  have "\<exists>outcome. evaluate_f16_f32_slice (replicate 16 0x3c00) (replicate 16 0x7c00) 0 NonSaturating = Ok outcome \<and>
      f32_slice_spec f16_value (\<lambda>w. bit w 15) (2 ^ 250) f16_max NonSaturating (replicate 16 0x3c00) (replicate 16 0x7c00) 0 outcome"
    using half_slices_reference [of "replicate 16 0x3c00" "replicate 16 0x7c00" 0 NonSaturating] by simp
  moreover have "dot_value f16_value (2 ^ 250) (replicate (Suc n) (0x3c00, 0x7c00)) (Exact x) = Infinite False" for n x
    by (induction n) (simp_all add: f16_value_def f16_finite_def f16_exponent_def f16_int_def float_magnitude_def sign_mag_def)
  note this [of 15 0]
  ultimately show ?thesis
    by (auto simp: f32_slice_spec_def slice_meets_def Let_def ext_mode_def f32_accumulator_def f32_exponent_def zip_replicate)
qed

section \<open>Half-precision accumulators\<close>

definition f16_accumulator :: "fp16_mode \<Rightarrow> u16 \<Rightarrow> extended" where
  "f16_accumulator mode acc =
     ext_scale (2 ^ 274) (if f16_exponent acc = 0 then Exact 0 else ext_mode f16_max mode (f16_value acc))"

definition f16_slice_spec :: "fp16_mode \<Rightarrow> u16 list \<Rightarrow> u16 list \<Rightarrow> u16 \<Rightarrow> f16_slice_outcome \<Rightarrow> bool" where
  "f16_slice_spec mode left right acc outcome \<longleftrightarrow>
     (let vs = map f16_value (left @ right @ [acc]);
          a = f16_accumulator mode acc;
          operand = (\<lambda>w. ext_mode f16_max mode (f16_value w)) in
      slice_meets (\<lambda>x nz. f16_rounded x nz mode) 0x7fff (\<lambda>s. if s then 0xfc00 else 0x7c00) a
        (dot_value operand (2 ^ 250) (zip left right) a)
        (negative_zero_sum operand (\<lambda>w. bit w 15) (zip left right) a (bit acc 15))
        (NotANumber \<in> set vs) (\<exists>s. Infinite s \<in> set vs) (s16_bits outcome, s16_status outcome))"

lemma accumulator_value_f16:
  "f16_accumulator NonSaturating acc = (if is_f16_nan acc then NotANumber
     else if is_f16_infinite acc then Infinite (acc AND F16_SIGN \<noteq> 0) else Exact (2 ^ 274 * f16_flush acc))"
proof (cases "f16_exponent acc = 0")
  case True
  then have "f16_finite acc" by (simp add: f16_finite_def)
  with True show ?thesis using f16_classify [of acc] by (simp add: f16_accumulator_def f16_flush_def)
next
  case False
  then show ?thesis using sign_masks(2) [of acc] by (auto simp: f16_accumulator_def f16_flush_def ext_mode_def f16_value_cases)
qed

lemma finite_slice_f16:
  fixes left right :: "u16 list"
  assumes w: "\<forall>w\<in>set left \<union> set right. f16_finite (g w) \<and> bit (g w) 15 = bit w 15 \<and> value w = Exact (f16_int (g w))"
    and len: "length left \<le> 16" and c: "f16_finite c" and a: "a = Exact (2 ^ 274 * f16_flush c)"
  shows "\<exists>outcome. sum_f16 (zip (map g left) (map g right)) c
      (fp_status_default\<lparr>fs_nan_operand := A, fs_infinity_operand := B\<rparr>) mode = Ok outcome \<and>
    slice_meets (\<lambda>x nz. f16_rounded x nz mode) nan_bits inf_bits a (dot_value value (2 ^ 250) (zip left right) a)
      (negative_zero_sum value (\<lambda>w. bit w 15) (zip left right) a (bit c 15)) A B (s16_bits outcome, s16_status outcome)"
proof -
  let ?pairs = "zip (map g left) (map g right)" and ?x = "2 ^ 274 * f16_flush c"
  have small: "\<bar>2 ^ 274 * f16_flush c\<bar> < 2 ^ 314"
  proof -
    have "\<bar>f16_flush c\<bar> < 2 ^ 40" using f16_int_less [OF c] by (simp add: f16_flush_def)
    then have "2 ^ 274 * \<bar>f16_flush c\<bar> < 2 ^ 274 * 2 ^ 40" by (rule mult_strict_left_mono) simp
    then show ?thesis by (simp add: abs_mult)
  qed
  have "\<bar>exact_int exact_default\<bar> + 2 ^ 274 * \<bar>f16_int c\<bar> < 2 ^ 576" using f16_int_less [OF c] by simp
  from add_f16_exact [OF c exact_default_ok(1) this] obtain d where
    d: "add_f16 exact_default c = Ok d" "exact_ok d" "exact_int d = ?x" by auto
  have "int (length ?pairs) * 2 ^ 554 \<le> 16 * 2 ^ 554" using len by (intro mult_right_mono) simp_all
  then have "\<bar>exact_int d\<bar> + int (length ?pairs) * 2 ^ 554 < 2 ^ 576" using small unfolding d(3) by simp
  from f16p.add_products_exact [OF f16s.finite_dot(1) [OF w] d(2) this, of "\<not> c AND F16_EXPONENT \<noteq> 0 \<and> c AND F16_SIGN \<noteq> 0"]
  obtain e where
    e: "add_products f16_operands ?pairs d (\<not> c AND F16_EXPONENT \<noteq> 0 \<and> c AND F16_SIGN \<noteq> 0) =
        Ok (e, (\<not> c AND F16_EXPONENT \<noteq> 0 \<and> c AND F16_SIGN \<noteq> 0) \<and> negative_zeros f16_operands ?pairs)" "exact_ok e"
      "exact_int e = ?x + dot f16_product ?pairs"
    unfolding d(3) by blast
  let ?nz = "\<not> c AND F16_EXPONENT \<noteq> 0 \<and> all_zero_products f16_operands ?pairs \<and>
    (\<not> c AND F16_EXPONENT \<noteq> 0 \<and> c AND F16_SIGN \<noteq> 0) \<and> negative_zeros f16_operands ?pairs"
  obtain bits r where r: "round_f16 e ?nz mode = Ok (bits, r)" "f16_rounded (exact_int e) ?nz mode (bits, r)"
    using round_f16_nearest [OF e(2), of ?nz mode] by fastforce
  have flush: "f16_flush c = 0 \<longleftrightarrow> f16_exponent c = 0"
    by (auto simp: f16_flush_def f16_int_def float_magnitude_def)
  have nz: "?nz = negative_zero_sum value (\<lambda>w. bit w 15) (zip left right) a (bit c 15)"
    unfolding negative_zero_sum_def f16s.finite_dot(3) [OF w] sign_masks f16_exponent_zero a using flush by auto
  have "sum_f16 ?pairs c (fp_status_default\<lparr>fs_nan_operand := A, fs_infinity_operand := B\<rparr>) mode =
      Ok \<lparr>s16_bits = bits, s16_status = r\<lparr>fs_nan_operand := A, fs_infinity_operand := B\<rparr>\<rparr>"
    using d(1) e(1) r(1) rounded_status(2) [OF r(2)] by (simp add: sum_f16_def Let_def)
  moreover have "f16_rounded (?x + dot f16_product ?pairs)
      (negative_zero_sum value (\<lambda>w. bit w 15) (zip left right) a (bit c 15)) mode (bits, r)"
    using r(2) unfolding nz e(3) .
  ultimately show ?thesis
    unfolding a f16s.finite_dot(2) [OF w] slice_meets_def by (auto simp del: numeral_power_eq_of_nat_cancel_iff)
qed

text \<open>C34. The same for slices of sixteen half-precision products with a half-precision accumulator, which in the
  non-saturating mode overflow to infinity.\<close>

theorem f16_slice_reference:
  assumes len: "length left = 16" "length right = 16"
  shows "\<exists>outcome. evaluate_f16_f16_slice left right acc mode = Ok outcome \<and> f16_slice_spec mode left right acc outcome"
proof (cases mode)
  case Saturating
  let ?c = "saturate_f16_nonfinite acc"
  note c = saturate_f16 [of acc]
  have zero: "f16_exponent ?c = 0 \<Longrightarrow> f16_exponent acc \<noteq> 0 \<Longrightarrow> f16_int ?c = 0"
    using f16_all_ones [of acc] sign_part(2) [of acc]
    by (auto simp: saturate_f16_nonfinite_def saturated_words F16_MAX_FINITE_def f16_exponent_def split: if_splits)
  have keep: "f16_exponent acc = 0 \<Longrightarrow> ?c = acc"
    using f16_all_ones [of acc] by (simp add: saturate_f16_nonfinite_def f16_finite_def)
  have a: "f16_accumulator Saturating acc = Exact (2 ^ 274 * f16_flush ?c)"
    using c zero keep by (auto simp: f16_accumulator_def ext_mode_def f16_flush_def)
  have w: "\<forall>w\<in>set left \<union> set right. f16_finite (saturate_f16_nonfinite w) \<and> bit (saturate_f16_nonfinite w) 15 = bit w 15 \<and>
      ext_saturate f16_max (f16_value w) = Exact (f16_int (saturate_f16_nonfinite w))" using saturate_f16 by blast
  have n: "NotANumber \<in> set (map f16_value xs) \<longleftrightarrow> (\<exists>x\<in>set xs. is_f16_nan x)" for xs
    by (auto simp: f16_value_cases image_iff)
  have i: "(\<exists>s. Infinite s \<in> set (map f16_value xs)) \<longleftrightarrow> (\<exists>x\<in>set xs. is_f16_infinite x)" for xs
  proof -
    have "(\<exists>s. Infinite s = f16_value x) \<longleftrightarrow> is_f16_infinite x" for x
      using infinite_not_nan(2) [of x] by (auto simp: f16_value_cases)
    moreover have "(\<exists>s. Infinite s \<in> set (map f16_value xs)) \<longleftrightarrow> (\<exists>x\<in>set xs. \<exists>s. Infinite s = f16_value x)" by auto
    ultimately show ?thesis by simp
  qed
  note core = finite_slice_f16 [OF w _ _ a, where A = "\<exists>x\<in>set (left @ right @ [acc]). is_f16_nan x"
      and B = "\<exists>x\<in>set (left @ right @ [acc]). is_f16_infinite x" and mode = Saturating]
  show ?thesis
    using core c len unfolding Saturating evaluate_f16_f16_slice_def Let_def flag_operands_eq f16_slice_spec_def n i
    by (simp add: fp_status_default_def ext_mode_def bex_Un disj_ac)
next
  case NonSaturating
  let ?a = "f16_accumulator NonSaturating acc"
  let ?scan = "scan_slice f16_operands (zip left right) (is_f16_nan acc) (is_f16_infinite acc) (acc AND F16_SIGN \<noteq> 0)"
  note scan = f16s.scan_slice_reference [OF accumulator_value_f16 [of acc], of "zip left right", unfolded word_value_f16]
  show ?thesis
  proof (cases ?scan)
    case (FiniteTerms status)
    then have st: "status = fp_status_default" and c: "\<not> is_f16_nan acc" "\<not> is_f16_infinite acc"
      and f: "\<forall>(a, b)\<in>set (zip left right). f16_finite a \<and> f16_finite b" using scan by simp_all
    have fin: "f16_finite w" if "w \<in> set left \<union> set right" for w
      using f that len by (fastforce simp: in_set_conv_nth set_zip)
    have w: "\<forall>w\<in>set left \<union> set right. f16_finite (id w) \<and> bit (id w) 15 = bit w 15 \<and> f16_value w = Exact (f16_int (id w))"
      using fin by (simp add: f16_value_def)
    have a: "?a = Exact (2 ^ 274 * f16_flush acc)" unfolding accumulator_value_f16 using c by simp
    have fc: "f16_finite acc" using c f16_classify by blast
    have "\<forall>v\<in>set (map f16_value (left @ right @ [acc])). \<exists>x. v = Exact x" using fin fc by (auto simp: f16_value_def)
    then have no: "NotANumber \<notin> set (map f16_value (left @ right @ [acc]))"
      "\<not> (\<exists>s. Infinite s \<in> set (map f16_value (left @ right @ [acc])))" by blast+
    have "fp_status_default = fp_status_default\<lparr>fs_nan_operand := False, fs_infinity_operand := False\<rparr>"
      by (simp add: fp_status_default_def)
    with finite_slice_f16 [OF w _ fc a, where A = False and B = False and mode = NonSaturating] show ?thesis
      unfolding f16_slice_spec_def Let_def NonSaturating evaluate_f16_f16_slice_def using no st FiniteTerms len
      by (simp add: ext_mode_def)
  next
    case (CanonicalNan status)
    then show ?thesis using scan unfolding NonSaturating
      by (simp add: evaluate_f16_f16_slice_def f16_slice_spec_def Let_def slice_meets_def ext_mode_def)
  next
    case (InfiniteSum s status)
    then show ?thesis using scan unfolding NonSaturating
      by (simp add: evaluate_f16_f16_slice_def f16_slice_spec_def Let_def slice_meets_def ext_mode_def f16_constants)
  qed
qed

theorem f16_slice_reference_witness:
  "\<exists>outcome. evaluate_f16_f16_slice (replicate 16 0x7bff) (replicate 16 0x7bff) 0 NonSaturating = Ok outcome \<and>
     f16_slice_spec NonSaturating (replicate 16 0x7bff) (replicate 16 0x7bff) 0 outcome"
  by (rule f16_slice_reference) simp_all

section \<open>The reduced format\<close>

text \<open>
  An operand of the reduced format keeps the sign, the exponent and eleven bits of the fraction: its significand is
  rounded to a multiple of \<open>2 ^ 12\<close>, to even or away from zero at a tie.
\<close>

definition hf32_round :: "bool \<Rightarrow> nat \<Rightarrow> nat" where
  "hf32_round ties_away m = (if ties_away then (m + 2 ^ 11) div 2 ^ 12 else round_half_even 12 m)"

definition f32_significand :: "u32 \<Rightarrow> nat" where
  "f32_significand w = (if f32_exponent w = 0 then 0 else 2 ^ 23) + unat (take_bit 23 w)"

lemma hf32_round_code:
  "hf32_round ties m = m div 4096 + of_bool (2048 < m mod 4096 \<or> m mod 4096 = 2048 \<and> (ties \<or> odd (m div 4096)))"
proof (cases ties)
  case True
  have "(m + 2048) div 4096 = m div 4096 + of_bool (2048 \<le> m mod 4096)"
  proof -
    have r: "m mod 4096 < 4096" by simp
    then have "(m mod 4096 + 2048) div 4096 = of_bool (2048 \<le> m mod 4096)"
      by (cases "2048 \<le> m mod 4096") (simp_all add: div_if)
    moreover have "m + 2048 = m mod 4096 + 2048 + 4096 * (m div 4096)" using div_mult_mod_eq [of m 4096] by linarith
    then have "(m + 2048) div 4096 = (m mod 4096 + 2048) div 4096 + m div 4096" by (simp only: div_mult_self2)
    ultimately show ?thesis by (simp only: add.commute)
  qed
  with True show ?thesis by (auto simp: hf32_round_def)
next
  case False
  then show ?thesis by (auto simp: hf32_round_def round_half_even_def Let_def)
qed

lemma f32_pack:
  fixes w f :: u32
  assumes "w = push_bit 31 (of_bool s) OR push_bit 23 (word_of_nat e) OR (f AND mask 23)" "e < 256"
  shows "bit w 31 = s \<and> f32_exponent w = e \<and> take_bit 23 w = take_bit 23 f"
  using pack_fields [of 23 8 e s f] assms by (simp add: f32_exponent_def)

lemma f32_significand_less: "f32_significand w < 2 ^ 24"
  using bits_below_zero [of 23 w] by (simp add: f32_significand_def)

lemma hf32_round_le: "hf32_round ties (f32_significand w) \<le> 4096"
proof -
  have "f32_significand w div 4096 < 4096" using f32_significand_less [of w] by (simp add: less_mult_imp_div_less)
  then show ?thesis by (simp add: hf32_round_code)
qed

lemma hf32_words:
  fixes w :: u32 and ties :: bool
  defines "E \<equiv> drop_bit 23 (w AND F32_EXPONENT)" and "R \<equiv> word_of_nat (hf32_round ties (f32_significand w)) :: u32"
  shows "round_hf32_operand w ties =
    (if hf32_round ties (f32_significand w) = 4096 then
       push_bit 31 (of_bool (bit w 31)) OR push_bit 23 (word_of_nat (f32_exponent w + 1)) OR (0 AND mask 23)
     else if f32_exponent w = 0 \<and> hf32_round ties (f32_significand w) = 2048 then
       push_bit 31 (of_bool (bit w 31)) OR push_bit 23 (word_of_nat 1) OR (0 AND mask 23)
     else push_bit 31 (of_bool (bit w 31)) OR push_bit 23 (word_of_nat (f32_exponent w)) OR (push_bit 12 R AND mask 23))"
proof -
  let ?S = "(if E \<noteq> 0 then (w AND F32_FRACTION) OR push_bit 23 1 else w AND F32_FRACTION)"
  have e: "E = take_bit 8 (drop_bit 23 w)" unfolding E_def
    by (rule exponent_field) (simp add: F32_EXPONENT_def mask_eq_exp_minus_1)
  have E: "E = word_of_nat (f32_exponent w)" by (simp add: e f32_exponent_def)
  have E0: "E = 0 \<longleftrightarrow> f32_exponent w = 0" by (simp add: e f32_exponent_def unat_eq_zero)
  have fr: "w AND F32_FRACTION = take_bit 23 w" by (simp add: F32_FRACTION_def take_bit_eq_mask mask_eq_exp_minus_1)
  have S: "unat ?S = f32_significand w"
    using significand_value [of 23 w] by (simp add: fr f32_significand_def E0 or.commute)
  have sg: "w AND F32_SIGN = push_bit 31 (of_bool (bit w 31))" using sign_part(1) [of w] by simp
  have ret: "unat (drop_bit 12 ?S) = f32_significand w div 4096" unfolding unsigned_drop_bit_eq S
    using f32_significand_less [of w] by (simp add: drop_bit_eq_div take_bit_nat_eq_self)
  have dis: "unat (?S AND 0x0fff) = f32_significand w mod 4096"
  proof -
    have "?S AND 0x0fff = take_bit 12 ?S" by (simp add: take_bit_eq_mask mask_eq_exp_minus_1)
    then show ?thesis by (simp only: unsigned_take_bit_eq S) (simp add: take_bit_eq_mod)
  qed
  have odd: "drop_bit 12 ?S AND 1 \<noteq> 0 \<longleftrightarrow> odd (f32_significand w div 4096)"
    unfolding ret [symmetric] using and_one_word [where 'w = 32, of "unat (drop_bit 12 ?S)"] by simp
  have inc: "(0x0800 < ?S AND 0x0fff \<or> ?S AND 0x0fff = 0x0800 \<and> (ties \<or> drop_bit 12 ?S AND 1 \<noteq> 0)) \<longleftrightarrow>
      2048 < f32_significand w mod 4096 \<or> f32_significand w mod 4096 = 2048 \<and> (ties \<or> odd (f32_significand w div 4096))"
    unfolding odd word_less_nat_alt word_eq_unat [of "?S AND 0x0fff"] dis by simp
  have "R = drop_bit 12 ?S + of_bool (2048 < f32_significand w mod 4096 \<or>
      f32_significand w mod 4096 = 2048 \<and> (ties \<or> odd (f32_significand w div 4096)))"
    unfolding R_def hf32_round_code of_nat_add ret [symmetric] by (simp add: of_nat_of_bool)
  then have R: "drop_bit 12 ?S + of_bool (0x0800 < ?S AND 0x0fff \<or> ?S AND 0x0fff = 0x0800 \<and> (ties \<or> drop_bit 12 ?S AND 1 \<noteq> 0)) = R"
    unfolding inc by simp
  have le: "hf32_round ties (f32_significand w) < 2 ^ LENGTH(32)" using hf32_round_le [of ties w] by simp
  have big: "R = push_bit 12 1 \<longleftrightarrow> hf32_round ties (f32_significand w) = 4096"
    using word_of_nat_eq [OF le, of 4096] by (simp add: R_def)
  have half: "R = push_bit 11 1 \<longleftrightarrow> hf32_round ties (f32_significand w) = 2048"
    using word_of_nat_eq [OF le, of 2048] by (simp add: R_def)
  have e1: "E + 1 = word_of_nat (f32_exponent w + 1)" unfolding E by simp
  show ?thesis
    unfolding round_hf32_operand_def Let_def E_def [symmetric] unfolding R unfolding big half sg e1 E0
    by (simp add: E F32_FRACTION_def mask_eq_exp_minus_1)
qed

theorem hf32_rounding:
  assumes "f32_finite w"
  shows "bit (round_hf32_operand w ties) 31 = bit w 31"
    and "float_magnitude 23 (f32_exponent (round_hf32_operand w ties)) (unat (take_bit 23 (round_hf32_operand w ties))) =
      hf32_round ties (f32_significand w) * 2 ^ 12 * 2 ^ (f32_exponent w - 1)"
    and "f32_exponent (round_hf32_operand w ties) = 255 \<longleftrightarrow> f32_exponent w = 254 \<and> hf32_round ties (f32_significand w) = 4096"
    and "f32_exponent (round_hf32_operand w ties) = 255 \<Longrightarrow> take_bit 23 (round_hf32_operand w ties) = 0"
proof -
  let ?r = "hf32_round ties (f32_significand w)" and ?w = "round_hf32_operand w ties"
  have e: "f32_exponent w < 255" using assms by (simp add: f32_finite_def)
  have le: "?r \<le> 4096" by (rule hf32_round_le)
  have lo: "2048 \<le> ?r" if "f32_exponent w \<noteq> 0"
  proof -
    have "2048 * 4096 \<le> f32_significand w" using that by (simp add: f32_significand_def)
    then have "2048 \<le> f32_significand w div 4096" by (simp add: less_eq_div_iff_mult_less_eq)
    then show ?thesis by (simp add: hf32_round_code)
  qed
  have hi: "?r \<le> 2048" if "f32_exponent w = 0"
  proof -
    have "f32_significand w < 2048 * 4096" using that bits_below_zero [of 23 w] by (simp add: f32_significand_def)
    then have "f32_significand w div 4096 < 2048" by (simp add: less_mult_imp_div_less)
    then show ?thesis by (simp add: hf32_round_code)
  qed
  consider (carry) "?r = 4096" | (normal) "f32_exponent w = 0" "?r = 2048"
    | (keep) "?r \<noteq> 4096" "\<not> (f32_exponent w = 0 \<and> ?r = 2048)" by argo
  then have "bit ?w 31 = bit w 31 \<and> float_magnitude 23 (f32_exponent ?w) (unat (take_bit 23 ?w)) = ?r * 2 ^ 12 * 2 ^ (f32_exponent w - 1) \<and>
    (f32_exponent ?w = 255 \<longleftrightarrow> f32_exponent w = 254 \<and> ?r = 4096) \<and> (f32_exponent ?w = 255 \<longrightarrow> take_bit 23 ?w = 0)"
  proof cases
    case carry
    then have n: "f32_exponent w \<noteq> 0" using hi by fastforce
    from carry have "?w = push_bit 31 (of_bool (bit w 31)) OR push_bit 23 (word_of_nat (f32_exponent w + 1)) OR (0 AND mask 23)"
      unfolding hf32_words by simp
    from f32_pack [OF this] e have p: "bit ?w 31 = bit w 31" "f32_exponent ?w = f32_exponent w + 1" "take_bit 23 ?w = 0" by simp_all
    obtain k where k: "f32_exponent w = Suc k" using n not0_implies_Suc by blast
    show ?thesis unfolding p carry k by (simp add: float_magnitude_def)
  next
    case normal
    then have "?w = push_bit 31 (of_bool (bit w 31)) OR push_bit 23 (word_of_nat 1) OR (0 AND mask 23)"
      unfolding hf32_words by simp
    from f32_pack [OF this] have p: "bit ?w 31 = bit w 31" "f32_exponent ?w = 1" "take_bit 23 ?w = 0" by simp_all
    show ?thesis unfolding p normal by (simp add: float_magnitude_def)
  next
    case keep
    have "?w = push_bit 31 (of_bool (bit w 31)) OR push_bit 23 (word_of_nat (f32_exponent w)) OR
        (push_bit 12 (word_of_nat ?r) AND mask 23)" unfolding hf32_words if_not_P [OF keep(1)] if_not_P [OF keep(2)] ..
    from f32_pack [OF this] e have p: "bit ?w 31 = bit w 31" "f32_exponent ?w = f32_exponent w"
      "take_bit 23 ?w = take_bit 23 (push_bit 12 (word_of_nat ?r))" by simp_all
    have q: "push_bit 12 (word_of_nat ?r) = (word_of_nat (?r * 4096) :: u32)" by (simp add: push_bit_eq_mult)
    have u: "unat (word_of_nat (?r * 4096) :: u32) = ?r * 4096" using le by (intro unat_word_of_nat_small) simp
    have f: "unat (take_bit 23 ?w) = ?r * 4096 mod 2 ^ 23" unfolding p q unsigned_take_bit_eq u by (simp only: take_bit_eq_mod)
    show ?thesis
    proof (cases "f32_exponent w = 0")
      case True
      with keep hi have "?r < 2048" by fastforce
      then have "?r * 4096 mod 2 ^ 23 = ?r * 4096" by simp
      then show ?thesis using p f True keep(1) by (simp add: float_magnitude_def)
    next
      case False
      have "?r * 4096 mod 2 ^ 23 = ?r * 4096 - 2 ^ 23" using lo [OF False] le keep by (simp add: mod_if)
      then have "2 ^ 23 + ?r * 4096 mod 2 ^ 23 = ?r * 4096" using lo [OF False] by simp
      then show ?thesis using p f False e keep(1) by (simp add: float_magnitude_def)
    qed
  qed
  then show "bit ?w 31 = bit w 31"
    and "float_magnitude 23 (f32_exponent ?w) (unat (take_bit 23 ?w)) = ?r * 2 ^ 12 * 2 ^ (f32_exponent w - 1)"
    and "f32_exponent ?w = 255 \<longleftrightarrow> f32_exponent w = 254 \<and> ?r = 4096"
    and "f32_exponent ?w = 255 \<Longrightarrow> take_bit 23 ?w = 0" by blast+
qed

definition hf32_int :: "bool \<Rightarrow> u32 \<Rightarrow> int" where
  "hf32_int ties w = sign_mag (bit w 31) (hf32_round ties (f32_significand w) * 2 ^ 12 * 2 ^ (f32_exponent w - 1))"

definition hf32_max :: int where "hf32_max = (2 ^ 24 - 2 ^ 12) * 2 ^ 253"

definition hf32_saturated :: "bool \<Rightarrow> u32 \<Rightarrow> extended" where
  "hf32_saturated ties w =
     (case f32_value w of
        NotANumber \<Rightarrow> Exact 0
      | Infinite s \<Rightarrow> Exact (if s then - hf32_max else hf32_max)
      | Exact _ \<Rightarrow> Exact (max (- hf32_max) (min hf32_max (hf32_int ties w))))"

lemma f32_int_rounded: "f32_finite w \<Longrightarrow> f32_int (round_hf32_operand w ties) = hf32_int ties w"
  by (simp add: f32_int_def hf32_int_def hf32_rounding)

lemma f32_exponent_less: "f32_exponent w < 256"
  using bits_below_zero [of 8 "drop_bit 23 w"] by (simp add: f32_exponent_def)

lemma hf32_finite_iff:
  assumes "f32_finite w"
  shows "f32_finite (round_hf32_operand w ties) \<longleftrightarrow> \<bar>hf32_int ties w\<bar> < 2 ^ 277"
    and "f32_finite (round_hf32_operand w ties) \<longleftrightarrow> \<bar>hf32_int ties w\<bar> \<le> hf32_max"
    and "\<not> f32_finite (round_hf32_operand w ties) \<Longrightarrow> is_f32_infinite (round_hf32_operand w ties)"
proof -
  let ?r = "hf32_round ties (f32_significand w)" and ?e = "f32_exponent w"
  have fin: "f32_finite (round_hf32_operand w ties) \<longleftrightarrow> \<not> (?e = 254 \<and> ?r = 4096)"
    using hf32_rounding(3) [OF assms, of ties] f32_exponent_less [of "round_hf32_operand w ties"] by (auto simp: f32_finite_def)
  have abs: "\<bar>hf32_int ties w\<bar> = int (?r * 2 ^ 12 * 2 ^ (?e - 1))" by (simp add: hf32_int_def)
  have small: "?r * 2 ^ 12 * 2 ^ (?e - 1) \<le> (2 ^ 24 - 2 ^ 12) * 2 ^ 253" if "\<not> (?e = 254 \<and> ?r = 4096)"
  proof (cases "?r = 4096")
    case True
    then have "?e - 1 \<le> 252" using that assms by (simp add: f32_finite_def)
    then have "?r * 2 ^ 12 * 2 ^ (?e - 1) \<le> ?r * 2 ^ 12 * 2 ^ 252" by (intro mult_left_mono power_increasing) simp_all
    also have "\<dots> \<le> (2 ^ 24 - 2 ^ 12) * 2 ^ 253" unfolding True by simp
    finally show ?thesis .
  next
    case False
    then have "?r \<le> 4095" using hf32_round_le [of ties w] by simp
    moreover have "?e - 1 \<le> 253" using assms by (simp add: f32_finite_def)
    ultimately have "?r * 2 ^ 12 * 2 ^ (?e - 1) \<le> 4095 * 2 ^ 12 * 2 ^ 253" by (intro mult_mono power_increasing) simp_all
    then show ?thesis by simp
  qed
  have m: "hf32_max = int ((2 ^ 24 - 2 ^ 12) * 2 ^ 253)" by (simp add: hf32_max_def)
  have le: "\<bar>hf32_int ties w\<bar> \<le> hf32_max" if "\<not> (?e = 254 \<and> ?r = 4096)"
    using small [OF that] unfolding abs m of_nat_le_iff .
  have big: "\<bar>hf32_int ties w\<bar> = 2 ^ 277" if "?e = 254 \<and> ?r = 4096" using that unfolding abs by simp
  have lt: "hf32_max < 2 ^ 277" by (simp add: hf32_max_def)
  show "f32_finite (round_hf32_operand w ties) \<longleftrightarrow> \<bar>hf32_int ties w\<bar> < 2 ^ 277"
    "f32_finite (round_hf32_operand w ties) \<longleftrightarrow> \<bar>hf32_int ties w\<bar> \<le> hf32_max"
    using le big lt unfolding fin by fastforce+
  show "is_f32_infinite (round_hf32_operand w ties)" if "\<not> f32_finite (round_hf32_operand w ties)"
  proof -
    have "f32_exponent (round_hf32_operand w ties) = 255"
      using that f32_exponent_less [of "round_hf32_operand w ties"] by (simp add: f32_finite_def)
    then have "take_bit 23 (round_hf32_operand w ties) = 0" by (rule hf32_rounding(4) [OF assms])
    then have "\<not> is_f32_nan (round_hf32_operand w ties)"
      by (simp add: is_f32_nan_def F32_FRACTION_def take_bit_eq_mask mask_eq_exp_minus_1)
    with that show ?thesis using f32_classify by blast
  qed
qed

lemma saturate_hf32_words:
  "f32_finite 0x7f7ff000" "f32_finite 0xff7ff000" "f32_int 0x7f7ff000 = hf32_max" "f32_int 0xff7ff000 = - hf32_max"
  by (simp_all add: f32_finite_def f32_exponent_def f32_int_def hf32_max_def float_magnitude_def sign_mag_def)

lemma saturate_hf32:
  "f32_finite w \<Longrightarrow> saturate_hf32_nonfinite w = w"
  "is_f32_infinite w \<Longrightarrow> saturate_hf32_nonfinite w = (if bit w 31 then 0xff7ff000 else 0x7f7ff000)"
  using f32_classify [of w] f32_all_ones [of w] unfolding saturate_hf32_nonfinite_def sign_part by auto

lemma hf32_rounded_limit:
  "round_hf32_operand 0x7f7fffff ties = 0x7f800000" "round_hf32_operand 0xff7fffff ties = 0xff800000"
  "round_hf32_operand 0 ties = 0" "round_hf32_operand 0x80000000 ties = 0x80000000"
  by (simp_all add: round_hf32_operand_def f32_constants Let_def)

definition hf32_prepare :: "bool \<Rightarrow> u32 \<Rightarrow> u32" where
  "hf32_prepare ties w = saturate_hf32_nonfinite (round_hf32_operand (saturate_f32_nonfinite w) ties)"

lemma hf32_prepared:
  "f32_finite (hf32_prepare ties w) \<and> bit (hf32_prepare ties w) 31 = bit w 31 \<and>
   hf32_saturated ties w = Exact (f32_int (hf32_prepare ties w))"
proof (cases "f32_finite w")
  case True
  note fin = hf32_finite_iff [OF True, of ties]
  let ?v = "round_hf32_operand w ties"
  have p: "hf32_prepare ties w = saturate_hf32_nonfinite ?v"
    using True f32_all_ones [of w] by (simp add: hf32_prepare_def saturate_f32_nonfinite_def)
  have s: "hf32_saturated ties w = Exact (max (- hf32_max) (min hf32_max (hf32_int ties w)))"
    using True by (simp add: hf32_saturated_def f32_value_def)
  show ?thesis
  proof (cases "f32_finite ?v")
    case True
    then have "max (- hf32_max) (min hf32_max (hf32_int ties w)) = hf32_int ties w" using fin(2) by auto
    then show ?thesis
      unfolding p s saturate_hf32(1) [OF True] using True hf32_rounding(1) [OF \<open>f32_finite w\<close>] f32_int_rounded [OF \<open>f32_finite w\<close>] by simp
  next
    case False
    have big: "2 ^ 277 \<le> \<bar>hf32_int ties w\<bar>" using fin(1) False by simp
    have m: "0 < hf32_max" "hf32_max < 2 ^ 277" by (simp_all add: hf32_max_def)
    have "hf32_int ties w < 0 \<longleftrightarrow> bit w 31"
      using big by (auto simp: hf32_int_def sign_mag_def split: if_splits)
    then have "max (- hf32_max) (min hf32_max (hf32_int ties w)) = (if bit w 31 then - hf32_max else hf32_max)"
      using big m by (auto simp: max_def min_def)
    then show ?thesis
      unfolding p s saturate_hf32(2) [OF fin(3) [OF False]] hf32_rounding(1) [OF \<open>f32_finite w\<close>]
      by (simp add: saturate_hf32_words)
  qed
next
  case False
  note n = f32_classify [of w] f32_all_ones [of w] infinite_not_nan(1) [of w]
  have i: "is_f32_infinite 0x7f800000" "is_f32_infinite 0xff800000" by (simp_all add: is_f32_infinite_def f32_constants)
  show ?thesis
    using False n unfolding hf32_prepare_def saturate_f32_nonfinite_def sign_part hf32_saturated_def
    by (cases "bit w 31") (auto simp: f32_value_cases F32_MAX_FINITE_def saturated_words hf32_rounded_limit
        saturate_hf32(1) saturate_hf32(2) [OF i(1)] saturate_hf32(2) [OF i(2)] saturate_hf32_words)
qed

context exact_products
begin

lemma add_products_panics:
  assumes "\<not> (\<forall>(a, b)\<in>set pairs. fin a \<and> fin b)" and "exact_ok d"
    and "\<bar>exact_int d\<bar> + int (length pairs) * 2 ^ 554 < 2 ^ 576"
  shows "add_products F pairs d neg = Err Panic"
  using assms
proof (induction pairs arbitrary: d neg)
  case (Cons p pairs)
  obtain a b where p: "p = (a, b)" by fastforce
  show ?case
  proof (cases "fin a \<and> fin b")
    case True
    have s: "\<bar>product a b\<bar> < 2 ^ 554" using small True by blast
    have bound: "\<bar>exact_int d\<bar> + 2 ^ 554 + int (length pairs) * 2 ^ 554 < 2 ^ 576"
      using Cons.prems(3) by (simp add: algebra_simps)
    have "\<bar>exact_int d\<bar> + \<bar>product a b\<bar> < 2 ^ 576"
      using bound s mult_nonneg_nonneg [of "int (length pairs)" "2 ^ 554"] by linarith
    from add_exact [OF _ _ Cons.prems(2) this] True obtain d1 where
      d1: "op_add_product F d a b = Ok d1" "exact_ok d1" "exact_int d1 = exact_int d + product a b" by blast
    have b1: "\<bar>exact_int d1\<bar> + int (length pairs) * 2 ^ 554 < 2 ^ 576" using bound s d1(3) by linarith
    have f1: "\<not> (\<forall>(a, b)\<in>set pairs. fin a \<and> fin b)" using Cons.prems(1) True p by auto
    show ?thesis using True d1(1) Cons.IH [OF f1 d1(2) b1] by (simp add: p classify Let_def)
  qed (simp add: p classify; blast)
qed simp

end

lemma sum_f32_panics:
  assumes "\<not> (\<forall>(a, b)\<in>set pairs. f32_finite a \<and> f32_finite b)" and len: "length pairs \<le> 16" and c: "f32_finite c"
  shows "sum_f32 f32_operands pairs c status = Err Panic"
proof -
  have "\<bar>exact_int exact_default\<bar> + 2 ^ 149 * \<bar>f32_int c\<bar> < 2 ^ 576" using f32_int_less [OF c] by simp
  from add_f32_exact [OF c exact_default_ok(1) this] obtain d where
    d: "add_f32 exact_default c = Ok d" "exact_ok d" "exact_int d = 2 ^ 149 * f32_flush c" by auto
  have "\<bar>2 ^ 149 * f32_flush c\<bar> < 2 ^ 426"
  proof -
    have "\<bar>f32_flush c\<bar> < 2 ^ 277" using f32_int_less [OF c] by (simp add: f32_flush_def)
    then have "2 ^ 149 * \<bar>f32_flush c\<bar> < 2 ^ 149 * 2 ^ 277" by (rule mult_strict_left_mono) simp
    then show ?thesis by (simp add: abs_mult)
  qed
  moreover have "int (length pairs) * 2 ^ 554 \<le> 16 * 2 ^ 554" using len by (intro mult_right_mono) simp_all
  ultimately have "\<bar>exact_int d\<bar> + int (length pairs) * 2 ^ 554 < 2 ^ 576" unfolding d(3) by simp
  from f32p.add_products_panics [OF assms(1) d(2) this] d(1) show ?thesis by (simp add: sum_f32_def Let_def)
qed

text \<open>
  The reduced format. In the saturating mode the operands are clamped to the largest value of the format; in the other
  mode an operand that is finite but rounds up to infinity reaches the \<open>unreachable!\<close> of the accumulation loop.
\<close>

definition hf32_slice_spec :: "fp16_mode \<Rightarrow> bool \<Rightarrow> u32 list \<Rightarrow> u32 list \<Rightarrow> u32 \<Rightarrow> f32_slice_outcome cube_result \<Rightarrow> bool" where
  "hf32_slice_spec mode ties left right acc result \<longleftrightarrow>
     (let vs = map f32_value (left @ right) @ [f32_value acc];
          a = f32_accumulator mode acc;
          pairs = zip left right;
          returns = (\<lambda>v nz any_nan any_inf. \<exists>outcome. result = Ok outcome \<and>
            slice_meets f32_rounded F32_CANONICAL_NAN (\<lambda>s. if s then 0xff800000 else 0x7f800000) a v nz any_nan any_inf
              (s32_bits outcome, s32_status outcome));
          sum = (\<lambda>value. returns (dot_value value 1 pairs a) (negative_zero_sum value (\<lambda>w. bit w 31) pairs a (bit acc 31))
            (NotANumber \<in> set vs) (\<exists>s. Infinite s \<in> set vs))
      in if mode = Saturating then sum (hf32_saturated ties)
         else case dot_value f32_value 1 pairs a of
             Exact _ \<Rightarrow>
               if \<exists>w\<in>set (left @ right). 2 ^ 277 \<le> \<bar>hf32_int ties w\<bar> then result = Err Panic
               else sum (\<lambda>w. Exact (hf32_int ties w))
           | v \<Rightarrow> returns v False False False)"

text \<open>C35. A slice in the reduced format rounds the single-precision operands to it and adds their products exactly. In the
  saturating mode it never fails; in the other mode it panics exactly when an operand that is finite rounds up to infinity.\<close>

theorem hf32_slice_reference:
  assumes len: "length left = 8" "length right = 8"
  shows "hf32_slice_spec mode ties left right acc (evaluate_hf32_f32_slice left right acc mode ties)"
proof (cases mode)
  case Saturating
  let ?c = "saturate_f32_nonfinite acc"
  note c = saturate_f32 [of acc]
  have a: "f32_accumulator Saturating acc = Exact (2 ^ 149 * f32_flush ?c)" by (rule saturated_accumulator)
  have w: "\<forall>w\<in>set left \<union> set right. f32_finite (hf32_prepare ties w) \<and> bit (hf32_prepare ties w) 31 = bit w 31 \<and>
      hf32_saturated ties w = Exact (f32_int (hf32_prepare ties w))" using hf32_prepared by blast
  note core = f32s.finite_slice_f32 [OF w _ _ a, where A = "(\<exists>w\<in>set (left @ right). is_f32_nan w) \<or> is_f32_nan acc"
      and B = "(\<exists>w\<in>set (left @ right). is_f32_infinite w) \<or> is_f32_infinite acc"]
  have prep: "(\<lambda>bits. saturate_hf32_nonfinite (round_hf32_operand (saturate_f32_nonfinite bits) ties)) = hf32_prepare ties"
    by (rule ext) (simp add: hf32_prepare_def)
  show ?thesis
    using core c len unfolding Saturating evaluate_hf32_f32_slice_def hf32_slice_spec_def Let_def flag_operands_eq prep
      f32s.value_flags [OF set_append, unfolded word_value_f32]
    by (simp add: fp_status_default_def f32_operands_def)
next
  case NonSaturating
  let ?a = "f32_accumulator NonSaturating acc" and ?g = "\<lambda>w. round_hf32_operand w ties"
  let ?scan = "scan_slice f32_operands (zip left right) (is_f32_nan acc) (is_f32_infinite acc) (acc AND F32_SIGN \<noteq> 0)"
  note scan = f32s.scan_slice_reference [OF accumulator_value [of acc], of "zip left right", unfolded word_value_f32]
  show ?thesis
  proof (cases ?scan)
    case (FiniteTerms status)
    then have st: "status = fp_status_default" and c: "\<not> is_f32_nan acc" "\<not> is_f32_infinite acc"
      and f: "\<forall>(a, b)\<in>set (zip left right). f32_finite a \<and> f32_finite b"
      and v: "\<exists>x. dot_value f32_value 1 (zip left right) ?a = Exact x" using scan by simp_all
    have fin: "f32_finite w" if "w \<in> set left \<union> set right" for w
      using f that len by (fastforce simp: in_set_conv_nth set_zip)
    have fc: "f32_finite acc" using c f32_classify by blast
    have a: "?a = Exact (2 ^ 149 * f32_flush acc)" unfolding accumulator_value using c by simp
    have code: "evaluate_hf32_f32_slice left right acc NonSaturating ties =
        sum_f32 f32_operands (zip (map ?g left) (map ?g right)) acc fp_status_default"
      using FiniteTerms st by (simp add: evaluate_hf32_f32_slice_def special_f32_def)
    show ?thesis
    proof (cases "\<exists>w\<in>set (left @ right). 2 ^ 277 \<le> \<bar>hf32_int ties w\<bar>")
      case True
      then obtain w where "w \<in> set left \<union> set right" "\<not> f32_finite (?g w)"
        using hf32_finite_iff(1) [OF fin] by (auto simp: not_less)
      then have "\<not> (\<forall>(a, b)\<in>set (zip (map ?g left) (map ?g right)). f32_finite a \<and> f32_finite b)"
        using len by (fastforce simp: in_set_conv_nth set_zip)
      from sum_f32_panics [OF this _ fc] True v len show ?thesis
        unfolding hf32_slice_spec_def Let_def NonSaturating code by auto
    next
      case False
      then have w: "\<forall>w\<in>set left \<union> set right. f32_finite (?g w) \<and> bit (?g w) 31 = bit w 31 \<and> Exact (hf32_int ties w) = Exact (f32_int (?g w))"
        using hf32_finite_iff(1) [OF fin] hf32_rounding(1) [OF fin] f32_int_rounded [OF fin] by (auto simp: not_le)
      have no: "NotANumber \<notin> set (map f32_value (left @ right) @ [f32_value acc])"
        "\<not> (\<exists>s. Infinite s \<in> set (map f32_value (left @ right) @ [f32_value acc]))" using fin fc by (auto simp: f32_value_def)
      have "fp_status_default = fp_status_default\<lparr>fs_nan_operand := False, fs_infinity_operand := False\<rparr>"
        by (simp add: fp_status_default_def)
      with f32s.finite_slice_f32 [OF w _ fc a, where A = False and B = False] False v no len show ?thesis
        unfolding hf32_slice_spec_def Let_def NonSaturating code by auto
    qed
  next
    case (CanonicalNan status)
    then show ?thesis using scan unfolding NonSaturating
      by (simp add: evaluate_hf32_f32_slice_def hf32_slice_spec_def Let_def special_f32_def slice_meets_def)
  next
    case (InfiniteSum s status)
    then show ?thesis using scan unfolding NonSaturating
      by (simp add: evaluate_hf32_f32_slice_def hf32_slice_spec_def Let_def special_f32_def slice_meets_def f32_constants)
  qed
qed

theorem hf32_slice_reference_witness:
  "evaluate_hf32_f32_slice (0x7f7fffff # replicate 7 0) (replicate 8 0) 0 NonSaturating False = Err Panic"
proof -
  have spec: "hf32_slice_spec NonSaturating False (0x7f7fffff # replicate 7 0) (replicate 8 0) 0
      (evaluate_hf32_f32_slice (0x7f7fffff # replicate 7 0) (replicate 8 0) 0 NonSaturating False)"
    by (rule hf32_slice_reference) simp_all
  have "f32_value 0x7f7fffff = Exact f32_max" "f32_value 0 = Exact 0" by (simp_all add: f32_value_def saturated_words)
  moreover have "2 ^ 277 \<le> \<bar>hf32_int False 0x7f7fffff\<bar>"
    by (simp add: hf32_int_def f32_significand_def f32_exponent_def hf32_round_code)
  ultimately show ?thesis
    using spec by (simp add: hf32_slice_spec_def Let_def f32_accumulator_def f32_exponent_def numeral_eq_Suc)
qed

end
