(* ===== verification/Cube_Mmad.thy ===== *)
theory Cube_Mmad
  imports Cube_Layout Slice_Reference
begin

text \<open>
  \<open>src/src/sim/c220/cube/sparse.rs\<close>, \<open>mmad.rs\<close> and \<open>execute.rs\<close>: the functional execution of a matrix
  multiplication. \<open>prepare\<close> reads the operands slice by slice and computes the writes, \<open>commit\<close> applies them. The
  counters of the loops are natural numbers, the sum of an integer slice is an integer (it stays far inside \<open>i64\<close>).
\<close>

unbundle bit_operations_syntax

section \<open>Loops with \<open>?\<close>\<close>

fun try_fold :: "('s \<Rightarrow> 'a \<Rightarrow> 'e + 's) \<Rightarrow> 's \<Rightarrow> 'a list \<Rightarrow> 'e + 's" where
  "try_fold f s [] = Ok s"
| "try_fold f s (x # xs) = and_then (f s x) (\<lambda>s. try_fold f s xs)"

definition step_by :: "nat \<Rightarrow> nat \<Rightarrow> nat list" where
  "step_by bound width = map (\<lambda>i. i * width) [0..<(bound + width - 1) div width]"

definition ceil_tiles :: "u16 \<Rightarrow> u16 \<Rightarrow> nat" where
  "ceil_tiles n width = unat (div_ceil n width)"

section \<open>Sparse operands\<close>

record sparse_lane =
  sl_index_address :: u64
  sl_selector :: u8
  sl_dense_k :: nat

definition select_lane ::
  "(usize \<Rightarrow> bool) \<Rightarrow> mmad_parameters \<Rightarrow> local_buffer \<Rightarrow> nat \<Rightarrow> nat \<Rightarrow> nat \<Rightarrow> sparse_lane cube_result" where
  "select_lane reserve p indices column compressed_k width =
     (let columns = ceil_tiles (mp_n p) 16 * 16;
          slice = compressed_k div width;
          lane = compressed_k mod width;
          index_address = ucast (ucast (drop_bit 2 (mp_xm p)) :: u32) + word_of_nat (8 * (column + slice * columns) + lane div 4) in
      and_then (of_buffer (lb_read_initialized_linear reserve indices index_address 1)) (\<lambda>bytes.
        let selector = drop_bit (2 * (lane mod 4)) (hd bytes) AND 3 in
        Ok \<lparr>sl_index_address = index_address, sl_selector = selector,
          sl_dense_k = 2 * compressed_k - lane mod 2 + unat selector\<rparr>))"

definition select_byte_lane ::
  "(usize \<Rightarrow> bool) \<Rightarrow> mmad_parameters \<Rightarrow> local_buffer \<Rightarrow> nat \<Rightarrow> nat \<Rightarrow> sparse_lane cube_result" where
  "select_byte_lane reserve p indices column compressed_k = select_lane reserve p indices column compressed_k 32"

definition select_half_lane ::
  "(usize \<Rightarrow> bool) \<Rightarrow> mmad_parameters \<Rightarrow> local_buffer \<Rightarrow> nat \<Rightarrow> nat \<Rightarrow> sparse_lane cube_result" where
  "select_half_lane reserve p indices column compressed_k = select_lane reserve p indices column compressed_k 16"

definition select_nibble_lane ::
  "(usize \<Rightarrow> bool) \<Rightarrow> mmad_parameters \<Rightarrow> local_buffer \<Rightarrow> nat \<Rightarrow> nat \<Rightarrow> sparse_lane cube_result" where
  "select_nibble_lane reserve p indices column compressed_k = select_lane reserve p indices column compressed_k 64"

definition half_partial :: "mmad_parameters \<Rightarrow> nat" where
  "half_partial p = of_bool (1 \<le> mp_effective_k p AND 31 \<and> mp_effective_k p AND 31 \<le> 16)"

definition read_a_half ::
  "(usize \<Rightarrow> bool) \<Rightarrow> mmad_parameters \<Rightarrow> local_memory \<Rightarrow> nat \<Rightarrow> sparse_lane \<Rightarrow> nat \<Rightarrow> bool \<Rightarrow> u16 cube_result" where
  "read_a_half reserve p memory row selection k_tiles padded =
     (let a_tiles = 2 * k_tiles - half_partial p; dense_k = sl_dense_k selection in
      if dense_k < a_tiles * 16 then
        let offset = 2 * integer_a_element a_tiles 16 row dense_k;
            offset = (if padded then
                let tile = offset div 512; extra = 2 * ceil_tiles (mp_effective_k p) 16 - k_tiles
                in offset + (tile div k_tiles) * extra * 512
              else offset) in
        and_then (read_input reserve 2 (lm_l0a memory) (mp_xn p) offset) (\<lambda>bytes. Ok (ucast (from_le_bytes bytes)))
      else if dense_k < 2 * k_tiles * 16 \<and> row < ceil_tiles (mp_m p) 16 * 8 then Ok 0
      else Err (Fail (SparseInputOutsideLoadedTiles (word_of_nat dense_k) (word_of_nat (a_tiles * 16)))))"

definition read_half_pair ::
  "(usize \<Rightarrow> bool) \<Rightarrow> mmad_parameters \<Rightarrow> local_memory \<Rightarrow> nat \<Rightarrow> nat \<Rightarrow> nat \<Rightarrow> (u16 \<times> u16) cube_result" where
  "read_half_pair reserve p memory row column compressed_k =
     and_then (select_half_lane reserve p (lm_weight_index memory) column compressed_k) (\<lambda>selection.
     and_then (read_a_half reserve p memory row selection (ceil_tiles (mp_effective_k p) 16) False) (\<lambda>left.
     and_then (read_input reserve 2 (lm_l0b memory) (mp_xm p)
         (2 * integer_b_element (ceil_tiles (mp_n p) 16) 16 compressed_k column)) (\<lambda>right.
       Ok (left, ucast (from_le_bytes right)))))"

definition read_word_half ::
  "(usize \<Rightarrow> bool) \<Rightarrow> mmad_parameters \<Rightarrow> local_memory \<Rightarrow> nat \<Rightarrow> nat \<Rightarrow> nat \<Rightarrow> u32 \<Rightarrow> nat \<Rightarrow> u32 cube_result" where
  "read_word_half reserve p memory row column compressed_k left half =
     and_then (select_half_lane reserve p (lm_weight_index memory) column (2 * compressed_k + half)) (\<lambda>selection.
     and_then (read_a_half reserve p memory row selection (ceil_tiles (mp_effective_k p) 8) (mp_bit_58 p)) (\<lambda>bits.
       Ok (left OR push_bit (16 * half) (ucast bits))))"

definition read_word_pair ::
  "(usize \<Rightarrow> bool) \<Rightarrow> mmad_parameters \<Rightarrow> local_memory \<Rightarrow> nat \<Rightarrow> nat \<Rightarrow> nat \<Rightarrow> (u32 \<times> u32) cube_result" where
  "read_word_pair reserve p memory row column compressed_k =
     and_then (try_fold (read_word_half reserve p memory row column compressed_k) 0 [0, 1]) (\<lambda>left.
     and_then (read_input reserve 4 (lm_l0b memory) (mp_xm p)
         (4 * integer_b_element (ceil_tiles (mp_n p) 16) 8 compressed_k column)) (\<lambda>right.
       Ok (left, ucast (from_le_bytes right))))"

text \<open>\<open>((nibble << 4) as i8 >> 4) as u8\<close> of the nibble at \<open>element\<close>.\<close>

definition signed_nibble :: "u8 \<Rightarrow> nat \<Rightarrow> u8" where
  "signed_nibble packed element =
     (let nibble = drop_bit (4 * (element mod 2)) packed AND 15 in signed_drop_bit 4 (push_bit 4 nibble))"

definition read_nibble :: "(usize \<Rightarrow> bool) \<Rightarrow> local_buffer \<Rightarrow> u64 \<Rightarrow> nat \<Rightarrow> u8 cube_result" where
  "read_nibble reserve buffer base element =
     and_then (read_input reserve 1 buffer base (element div 2)) (\<lambda>bytes. Ok (signed_nibble (hd bytes) element))"

definition read_nibble_pair ::
  "(usize \<Rightarrow> bool) \<Rightarrow> mmad_parameters \<Rightarrow> local_memory \<Rightarrow> nat \<Rightarrow> nat \<Rightarrow> nat \<Rightarrow> (u8 \<times> u8) cube_result" where
  "read_nibble_pair reserve p memory row column compressed_k =
     and_then (select_nibble_lane reserve p (lm_weight_index memory) column compressed_k) (\<lambda>selection.
       let initialized_rows = ceil_tiles (mp_m p) 16 * 8 in
       if initialized_rows \<le> row then Err (Fail (SparseUninitializedRow (word_of_nat row) (word_of_nat initialized_rows)))
       else
         let k_tiles = ceil_tiles (mp_effective_k p) 64; a_tiles = 2 * k_tiles - half_partial p; dense_k = sl_dense_k selection in
         and_then
           (if dense_k < a_tiles * 64 then
              read_nibble reserve (lm_l0a memory) (mp_xn p) (integer_a_element a_tiles 64 row dense_k)
            else if dense_k < 2 * k_tiles * 64 then Ok 0
            else Err (Fail (SparseInputOutsideLoadedTiles (word_of_nat dense_k) (word_of_nat (a_tiles * 64))))) (\<lambda>left.
         and_then (read_nibble reserve (lm_l0b memory) (mp_xm p)
             (integer_b_element (ceil_tiles (mp_n p) 16) 64 compressed_k column)) (\<lambda>right. Ok (left, right))))"

definition read_byte_pair ::
  "(usize \<Rightarrow> bool) \<Rightarrow> mmad_parameters \<Rightarrow> local_memory \<Rightarrow> nat \<Rightarrow> nat \<Rightarrow> nat \<Rightarrow> (u8 \<times> u8) cube_result" where
  "read_byte_pair reserve p memory row column compressed_k =
     and_then (select_byte_lane reserve p (lm_weight_index memory) column compressed_k) (\<lambda>selection.
       let k_tiles = ceil_tiles (mp_effective_k p) 32; a_tiles = 2 * k_tiles - half_partial p; dense_k = sl_dense_k selection in
       if a_tiles * 32 \<le> dense_k then
         Err (Fail (SparseInputOutsideLoadedTiles (word_of_nat dense_k) (word_of_nat (a_tiles * 32))))
       else
         and_then (read_input reserve 1 (lm_l0a memory) (mp_xn p) (integer_a_element a_tiles 32 row dense_k)) (\<lambda>left.
         and_then (read_input reserve 1 (lm_l0b memory) (mp_xm p)
             (integer_b_element (ceil_tiles (mp_n p) 16) 32 compressed_k column)) (\<lambda>right. Ok (hd left, hd right))))"

section \<open>Outcomes and writes\<close>

record execution_outcome =
  eo_accumulator_source :: accumulator_source
  eo_m :: u16
  eo_k :: u16
  eo_n :: u16
  eo_mac_count :: u64
  eo_written_lanes :: u64
  eo_padded_lanes :: u64
  eo_fp_status :: cube_fp_status
  eo_integer_overflow :: bool

datatype cube_write = WriteU16 u64 u16 | WriteU32 u64 u32

record prepared_execution =
  pe_writes :: "cube_write list"
  pe_outcome :: execution_outcome

section \<open>Slices\<close>

datatype integer_input_mode = UnsignedUnsigned | SignedSigned | Signed4Signed4 | UnsignedSigned

definition input_read :: "(usize \<Rightarrow> bool) \<Rightarrow> integer_input_mode \<Rightarrow> local_buffer \<Rightarrow> u64 \<Rightarrow> nat \<Rightarrow> u8 cube_result" where
  "input_read reserve mode buffer base element =
     (if mode = Signed4Signed4 then
        and_then (read_input reserve 1 buffer base (element div 2)) (\<lambda>bytes. Ok (signed_nibble (hd bytes) element))
      else and_then (read_input reserve 1 buffer base element) (\<lambda>bytes. Ok (hd bytes)))"

fun input_product :: "integer_input_mode \<Rightarrow> u8 \<Rightarrow> u8 \<Rightarrow> int" where
  "input_product UnsignedUnsigned left right = uint left * uint right"
| "input_product SignedSigned left right = sint left * sint right"
| "input_product Signed4Signed4 left right = sint left * sint right"
| "input_product UnsignedSigned left right = uint left * sint right"

fun input_mode_of :: "cube_data_type \<Rightarrow> integer_input_mode option" where
  "input_mode_of U8U8S32 = Some UnsignedUnsigned"
| "input_mode_of S8S8S32 = Some SignedSigned"
| "input_mode_of S4S4S32 = Some Signed4Signed4"
| "input_mode_of U8S8S32 = Some UnsignedSigned"
| "input_mode_of _ = None"

record mmad_kernel =
  mk_instruction :: cube_instruction
  mk_parameters :: mmad_parameters
  mk_memory :: local_memory
  mk_control :: cube_execution_control
  mk_geometry :: cube_geometry

definition slice_width :: "mmad_kernel \<Rightarrow> nat" where
  "slice_width x =
     (if cu_data_type (mk_instruction x) = F32F32 \<and> ce_f32_mode (mk_control x) = Fp32 then 4
      else unat (cg_k_tile_elements (mk_geometry x)))"

definition active_lanes :: "mmad_kernel \<Rightarrow> nat \<Rightarrow> nat \<Rightarrow> nat" where
  "active_lanes x k_base width = min (unat (mp_effective_k (mk_parameters x)) - k_base) width"

definition a_element :: "mmad_kernel \<Rightarrow> nat \<Rightarrow> nat \<Rightarrow> nat \<Rightarrow> nat \<Rightarrow> nat" where
  "a_element x k_tiles k_tile m k =
     (if mp_m (mk_parameters x) = 1 \<and> cu_operation (mk_instruction x) = Mmad then k
      else integer_a_element k_tiles k_tile m k)"

definition read_float16_lane ::
  "(usize \<Rightarrow> bool) \<Rightarrow> mmad_kernel \<Rightarrow> nat \<Rightarrow> nat \<Rightarrow> nat \<Rightarrow> u16 list \<times> u16 list \<Rightarrow> nat \<Rightarrow> (u16 list \<times> u16 list) cube_result" where
  "read_float16_lane reserve x m n k_base arrays lane =
     (let (left, right) = arrays; k = k_base + lane; p = mk_parameters x; memory = mk_memory x in
      if cu_operation (mk_instruction x) = SparseMmad then
        and_then (read_half_pair reserve p memory m n k) (\<lambda>(l, r). Ok (left[lane := l], right[lane := r]))
      else
        and_then (read_input reserve 2 (lm_l0a memory) (mp_xn p)
          (2 * a_element x (unat (cg_k_tiles (mk_geometry x))) 16 m k)) (\<lambda>l.
        and_then (read_input reserve 2 (lm_l0b memory) (mp_xm p)
          (unat (f16_b_address 0 (unat (cg_n_tiles (mk_geometry x))) k n))) (\<lambda>r.
          Ok (left[lane := ucast (from_le_bytes l)], right[lane := ucast (from_le_bytes r)]))))"

definition read_float16 ::
  "(usize \<Rightarrow> bool) \<Rightarrow> mmad_kernel \<Rightarrow> nat \<Rightarrow> nat \<Rightarrow> nat \<Rightarrow> (u16 list \<times> u16 list) cube_result" where
  "read_float16 reserve x m n k_base =
     try_fold (read_float16_lane reserve x m n k_base) (replicate 16 0, replicate 16 0) [0..<active_lanes x k_base 16]"

definition read_float32_lane ::
  "(usize \<Rightarrow> bool) \<Rightarrow> mmad_kernel \<Rightarrow> nat \<Rightarrow> nat \<Rightarrow> nat \<Rightarrow> u32 list \<times> u32 list \<Rightarrow> nat \<Rightarrow> (u32 list \<times> u32 list) cube_result" where
  "read_float32_lane reserve x m n k_base arrays lane =
     (let (left, right) = arrays; k = k_base + lane; p = mk_parameters x; memory = mk_memory x;
          a_k_tiles = (if mp_bit_58 p then 2 * ceil_tiles (mp_effective_k p) 16 else unat (cg_k_tiles (mk_geometry x))) in
      if cu_operation (mk_instruction x) = SparseMmad then
        and_then (read_word_pair reserve p memory m n k) (\<lambda>(l, r). Ok (left[lane := l], right[lane := r]))
      else
        and_then (read_input reserve 4 (lm_l0a memory) (mp_xn p) (4 * a_element x a_k_tiles 8 m k)) (\<lambda>l.
        and_then (read_input reserve 4 (lm_l0b memory) (mp_xm p)
          (unat (f32_b_address 0 (unat (cg_n_tiles (mk_geometry x))) k n))) (\<lambda>r.
          Ok (left[lane := ucast (from_le_bytes l)], right[lane := ucast (from_le_bytes r)]))))"

definition read_float32 ::
  "(usize \<Rightarrow> bool) \<Rightarrow> nat \<Rightarrow> mmad_kernel \<Rightarrow> nat \<Rightarrow> nat \<Rightarrow> nat \<Rightarrow> (u32 list \<times> u32 list) cube_result" where
  "read_float32 reserve lanes x m n k_base =
     try_fold (read_float32_lane reserve x m n k_base) (replicate lanes 0, replicate lanes 0) [0..<active_lanes x k_base lanes]"

definition integer_pair ::
  "(usize \<Rightarrow> bool) \<Rightarrow> mmad_kernel \<Rightarrow> integer_input_mode \<Rightarrow> nat \<Rightarrow> nat \<Rightarrow> nat \<Rightarrow> (u8 \<times> u8) cube_result" where
  "integer_pair reserve x mode m n k =
     (let p = mk_parameters x; memory = mk_memory x; k_tile = unat (cg_k_tile_elements (mk_geometry x)) in
      if cu_operation (mk_instruction x) = SparseMmad then
        if mode = Signed4Signed4 then read_nibble_pair reserve p memory m n k else read_byte_pair reserve p memory m n k
      else
        and_then (input_read reserve mode (lm_l0a memory) (mp_xn p)
          (a_element x (unat (cg_k_tiles (mk_geometry x))) k_tile m k)) (\<lambda>left.
        and_then (input_read reserve mode (lm_l0b memory) (mp_xm p)
          (integer_b_element (unat (cg_n_tiles (mk_geometry x))) k_tile k n)) (\<lambda>right. Ok (left, right))))"

definition integer_slice ::
  "(usize \<Rightarrow> bool) \<Rightarrow> mmad_kernel \<Rightarrow> integer_input_mode \<Rightarrow> nat \<Rightarrow> nat \<Rightarrow> nat \<Rightarrow> u32 \<Rightarrow> execution_outcome
     \<Rightarrow> (u32 \<times> execution_outcome) cube_result" where
  "integer_slice reserve x mode m n k_base accumulator outcome =
     (let k_tile = unat (cg_k_tile_elements (mk_geometry x)) in
      and_then (try_fold (\<lambda>sum lane. and_then (integer_pair reserve x mode m n (k_base + lane))
          (\<lambda>(left, right). Ok (sum + input_product mode left right))) (sint accumulator) [0..<active_lanes x k_base k_tile])
        (\<lambda>sum. let saturated = max (- (2 ^ 31)) (min (2 ^ 31 - 1) sum) in
          Ok (word_of_int saturated,
            outcome\<lparr>eo_integer_overflow := eo_integer_overflow outcome \<or> saturated \<noteq> sum\<rparr>)))"

definition finish_slice :: "execution_outcome \<Rightarrow> f32_slice_outcome \<Rightarrow> (u32 \<times> execution_outcome) cube_result" where
  "finish_slice outcome result =
     Ok (s32_bits result, outcome\<lparr>eo_fp_status := fp_status_merge (eo_fp_status outcome) (s32_status result)\<rparr>)"

definition evaluate_slice ::
  "(usize \<Rightarrow> bool) \<Rightarrow> mmad_kernel \<Rightarrow> nat \<Rightarrow> nat \<Rightarrow> nat \<Rightarrow> u32 \<times> execution_outcome \<Rightarrow> (u32 \<times> execution_outcome) cube_result" where
  "evaluate_slice reserve x m n k_base state =
     (let (accumulator, outcome) = state; mode = ce_fp16_mode (mk_control x); data_type = cu_data_type (mk_instruction x) in
      case data_type of
        F16F16 \<Rightarrow>
          and_then (read_float16 reserve x m n k_base) (\<lambda>(left, right).
          and_then (evaluate_f16_f16_slice left right (ucast accumulator) mode) (\<lambda>slice.
            finish_slice outcome \<lparr>s32_bits = ucast (s16_bits slice), s32_status = s16_status slice\<rparr>))
      | F16F32 \<Rightarrow>
          and_then (read_float16 reserve x m n k_base) (\<lambda>(left, right).
          and_then (evaluate_f16_f32_slice left right accumulator mode) (finish_slice outcome))
      | Bf16F32 \<Rightarrow>
          and_then (read_float16 reserve x m n k_base) (\<lambda>(left, right).
          and_then (evaluate_bf16_f32_slice left right accumulator mode) (finish_slice outcome))
      | F32F32 \<Rightarrow>
          if ce_f32_mode (mk_control x) = Fp32 then
            and_then (read_float32 reserve 4 x m n k_base) (\<lambda>(left, right).
            and_then (evaluate_f32_f32_slice left right accumulator mode) (finish_slice outcome))
          else
            and_then (read_float32 reserve 8 x m n k_base) (\<lambda>(left, right).
            and_then (evaluate_hf32_f32_slice left right accumulator mode (ce_hf32_rounding (mk_control x)))
              (finish_slice outcome))
      | _ \<Rightarrow>
          (case input_mode_of data_type of
             None \<Rightarrow> Err (Fail (UnsupportedDataType data_type))
           | Some input_mode \<Rightarrow> integer_slice reserve x input_mode m n k_base accumulator outcome))"

section \<open>Preparation\<close>

definition output_address :: "cube_data_type \<Rightarrow> u64 \<Rightarrow> nat \<Rightarrow> nat \<Rightarrow> nat \<Rightarrow> u64" where
  "output_address data_type base m_tiles m n =
     (if data_type = F16F16 then f16_c_address base m_tiles m n else f32_c_address base m_tiles m n)"

text \<open>The body of the loops over rows and columns.\<close>

definition compute_lane ::
  "(usize \<Rightarrow> bool) \<Rightarrow> mmad_kernel \<Rightarrow> cube_accumulator \<Rightarrow> cube_write list \<times> execution_outcome \<Rightarrow> nat \<times> nat
     \<Rightarrow> (cube_write list \<times> execution_outcome) cube_result" where
  "compute_lane reserve x initialization state place =
     (let (writes, outcome) = state; (m, n) = place; p = mk_parameters x;
          half_output = (cu_data_type (mk_instruction x) = F16F16);
          address = output_address (cu_data_type (mk_instruction x)) (ucast (mp_xd_low p)) (unat (cg_m_tiles (mk_geometry x))) m n in
      and_then
        (if half_output then and_then (lane_u16 reserve initialization (mk_memory x) address n) (\<lambda>v. Ok (ucast v))
         else lane_u32 reserve initialization (mk_memory x) address n) (\<lambda>accumulator.
      and_then (try_fold (\<lambda>state k_base. evaluate_slice reserve x m n k_base state) (accumulator, outcome)
          (step_by (unat (mp_effective_k p)) (slice_width x))) (\<lambda>(accumulator, outcome).
        Ok (writes @ [if half_output then WriteU16 address (ucast accumulator) else WriteU32 address accumulator], outcome))))"

definition initial_outcome :: "mmad_parameters \<Rightarrow> u64 \<Rightarrow> execution_outcome" where
  "initial_outcome p mac_count =
     \<lparr>eo_accumulator_source = accumulator_source_of p, eo_m = mp_m p, eo_k = mp_effective_k p, eo_n = mp_n p,
      eo_mac_count = mac_count, eo_written_lanes = 0, eo_padded_lanes = 0, eo_fp_status = fp_status_default,
      eo_integer_overflow = False\<rparr>"

definition mmad_prepare ::
  "(usize \<Rightarrow> bool) \<Rightarrow> cube_instruction \<Rightarrow> mmad_parameters \<Rightarrow> local_memory \<Rightarrow> cube_execution_control
     \<Rightarrow> prepared_execution cube_result" where
  "mmad_prepare reserve i p memory control =
     (if cu_data_type i = F16U2 \<or> cu_data_type i = B8U2 then Err (Fail (UnsupportedDataType (cu_data_type i)))
      else
        let x = \<lparr>mk_instruction = i, mk_parameters = p, mk_memory = memory, mk_control = control,
              mk_geometry = cube_geometry_of i p\<rparr> in
        and_then (accumulator_load p memory) (\<lambda>initialization.
        and_then (try_fold (compute_lane reserve x initialization)
            ([], initial_outcome p (ucast (mp_m p) * ucast (mp_effective_k p) * ucast (mp_n p)))
            (List.product [0..<unat (mp_m p)] [0..<unat (mp_n p)])) (\<lambda>(writes, outcome).
          Ok \<lparr>pe_writes = writes, pe_outcome = outcome\<lparr>eo_written_lanes := word_of_nat (length writes)\<rparr>\<rparr>)))"

definition validate_functional_mode :: "cube_instruction \<Rightarrow> unit cube_result" where
  "validate_functional_mode i =
     (if cu_operation i = SparseMmad \<and>
         cu_data_type i \<notin> {S8S8S32, S4S4S32, U8U8S32, U8S8S32, F16F16, F16F32, Bf16F32, F32F32}
      then Err (Fail (UnsupportedOperation (cu_operation i))) else Ok ())"

text \<open>The physical lanes of the output tiles, tile by tile; padding lanes are written with zero.\<close>

definition tile_positions :: "nat \<Rightarrow> nat \<Rightarrow> (nat \<times> nat) list" where
  "tile_positions m_tiles n_tiles =
     concat (map (\<lambda>n_tile. concat (map (\<lambda>m_tile.
       List.product [m_tile * tile_edge..<(m_tile + 1) * tile_edge] [n_tile * tile_edge..<(n_tile + 1) * tile_edge])
       [0..<m_tiles])) [0..<n_tiles])"

definition tile_write :: "cube_instruction \<Rightarrow> mmad_parameters \<Rightarrow> nat \<Rightarrow> cube_write list \<Rightarrow> nat \<times> nat \<Rightarrow> cube_write" where
  "tile_write i p m_tiles writes place =
     (let (row, column) = place; m = unat (mp_m p); n = unat (mp_n p); base = ucast (mp_xd_low p) in
      if row < m \<and> column < n then writes ! (row * n + column)
      else if cu_data_type i = F16F16 then WriteU16 (f16_c_address base m_tiles row column) 0
      else WriteU32 (f32_c_address base m_tiles row column) 0)"

definition complete_output_tiles ::
  "cube_instruction \<Rightarrow> mmad_parameters \<Rightarrow> prepared_execution \<Rightarrow> prepared_execution" where
  "complete_output_tiles i p prepared =
     (let geometry = cube_geometry_of i p;
          m_tiles = unat (cg_m_tiles geometry); n_tiles = unat (cg_n_tiles geometry);
          writes = map (tile_write i p m_tiles (pe_writes prepared)) (tile_positions m_tiles n_tiles);
          written = word_of_nat (length writes)
      in prepared\<lparr>pe_writes := writes,
           pe_outcome := (pe_outcome prepared)\<lparr>eo_written_lanes := written,
             eo_padded_lanes := written - ucast (mp_m p) * ucast (mp_n p)\<rparr>\<rparr>)"

definition cube_prepare ::
  "(usize \<Rightarrow> bool) \<Rightarrow> cube_instruction \<Rightarrow> mmad_parameters \<Rightarrow> local_memory \<Rightarrow> cube_execution_control
     \<Rightarrow> prepared_execution cube_result" where
  "cube_prepare reserve i p memory control =
     (if mp_m p = 0 \<or> mp_effective_k p = 0 \<or> mp_n p = 0 then
        Ok \<lparr>pe_writes = [], pe_outcome = initial_outcome p 0\<rparr>
      else
        and_then (validate_functional_mode i) (\<lambda>_.
        and_then (mmad_prepare reserve i p memory control) (\<lambda>prepared. Ok (complete_output_tiles i p prepared))))"

section \<open>Commit\<close>

definition le_bytes :: "nat \<Rightarrow> 'w::len word \<Rightarrow> u8 list" where
  "le_bytes n w = map (\<lambda>i. ucast (drop_bit (8 * i) w)) [0..<n]"

fun write_address :: "cube_write \<Rightarrow> u64" where
  "write_address (WriteU16 address value) = address"
| "write_address (WriteU32 address value) = address"

fun write_bytes :: "cube_write \<Rightarrow> u8 list" where
  "write_bytes (WriteU16 address value) = le_bytes 2 value"
| "write_bytes (WriteU32 address value) = le_bytes 4 value"

fun commit_to_buffer :: "cube_write list \<Rightarrow> local_buffer \<Rightarrow> local_buffer \<times> unit cube_result" where
  "commit_to_buffer [] b = (b, Ok ())"
| "commit_to_buffer (w # rest) b =
     (case lb_write_known_linear b (write_address w) (write_bytes w) of
        (b, Err e) \<Rightarrow> (b, Err (Fail (LocalBufferFailed e)))
      | (b, Ok _) \<Rightarrow> commit_to_buffer rest b)"

definition cube_commit :: "prepared_execution \<Rightarrow> local_memory \<Rightarrow> local_memory \<times> unit cube_result" where
  "cube_commit prepared memory =
     (let (b, r) = commit_to_buffer (pe_writes prepared) (l0_buffer (lm_l0c memory))
      in (memory\<lparr>lm_l0c := (lm_l0c memory)\<lparr>l0_buffer := b\<rparr>\<rparr>, r))"

definition cube_execute ::
  "(usize \<Rightarrow> bool) \<Rightarrow> cube_instruction \<Rightarrow> mmad_parameters \<Rightarrow> local_memory \<Rightarrow> cube_execution_control
     \<Rightarrow> local_memory \<times> execution_outcome cube_result" where
  "cube_execute reserve i p memory control =
     (case cube_prepare reserve i p memory control of
        Err e \<Rightarrow> (memory, Err e)
      | Ok prepared \<Rightarrow>
          (case cube_commit prepared memory of
             (memory, Err e) \<Rightarrow> (memory, Err e)
           | (memory, Ok _) \<Rightarrow> (memory, Ok (pe_outcome prepared))))"

definition update_cube_status_spr2 :: "u64 \<Rightarrow> u64 \<Rightarrow> execution_outcome \<Rightarrow> u64" where
  "update_cube_status_spr2 prior_spr2 pc outcome =
     (let status = eo_fp_status outcome;
          flags = 0;
          flags = (if eo_integer_overflow outcome \<or> fs_overflow status then flags OR push_bit 10 1 else flags);
          flags = (if fs_underflow status then flags OR push_bit 11 1 else flags);
          flags = (if fs_nan_operand status \<or> fs_infinity_operand status \<or> fs_invalid status then flags OR push_bit 15 1 else flags)
      in if flags = 0 then prior_spr2
         else (prior_spr2 AND 0xffffff00ffffffff) OR push_bit 32 (drop_bit 2 pc AND 0xff) OR flags)"

end
