(* ===== verification/Cube_Matmul.thy ===== *)
theory Cube_Matmul
  imports Cube_Mmad
begin

text \<open>
  What the functional execution of \<open>Cube_Mmad\<close> achieves: the lanes of the output tiles have disjoint addresses in L0C,
  the commit writes them and nothing else, and an integer multiplication computes the matrix product.
\<close>

unbundle bit_operations_syntax

lemma unat_u32_u64: "unat (ucast w :: u64) = unat w" for w :: u32
  unfolding unsigned_ucast_eq by (rule take_bit_nat_eq_self, rule order_less_le_trans [OF unsigned_less]) simp

section \<open>Commit\<close>

definition write_range :: "cube_write \<Rightarrow> u64 set" where
  "write_range w = linear_address (write_address w) ` {..<length (write_bytes w)}"

definition write_fits :: "cube_write \<Rightarrow> bool" where
  "write_fits w \<longleftrightarrow> unat (write_address w) + length (write_bytes w) \<le> 2 ^ 64"

lemma lb_state_insert_other:
  "a \<notin> write_range w \<Longrightarrow> lb_state (lb_insert_at (linear_address (write_address w)) (map Known (write_bytes w)) b) a = lb_state b a"
  by (rule lb_insert_at_other) (auto simp: write_range_def)

lemma commit_cons:
  assumes "write_fits w"
  shows "commit_to_buffer (w # ws) b = commit_to_buffer ws (lb_insert_at (linear_address (write_address w)) (map Known (write_bytes w)) b)"
  using lb_write_known_linear_Ok [of "write_address w" "write_bytes w" b] assms by (simp add: write_fits_def)

lemma commit_ok: "\<forall>w\<in>set ws. write_fits w \<Longrightarrow> snd (commit_to_buffer ws b) = Ok ()"
proof (induction ws arbitrary: b)
  case (Cons w ws)
  then show ?case by (simp add: commit_cons del: commit_to_buffer.simps)
qed simp

lemma commit_other:
  "\<forall>w\<in>set ws. write_fits w \<and> a \<notin> write_range w \<Longrightarrow> lb_state (fst (commit_to_buffer ws b)) a = lb_state b a"
proof (induction ws arbitrary: b)
  case (Cons w ws)
  then show ?case by (simp add: commit_cons lb_state_insert_other del: commit_to_buffer.simps)
qed simp

lemma commit_at:
  assumes "\<forall>w\<in>set ws. write_fits w" "sorted_wrt (\<lambda>v w. write_range v \<inter> write_range w = {}) ws"
    and "w \<in> set ws" "j < length (write_bytes w)"
  shows "lb_state (fst (commit_to_buffer ws b)) (linear_address (write_address w) j) = Some (Known (write_bytes w ! j))"
  using assms
proof (induction ws arbitrary: b)
  case (Cons v ws)
  let ?b = "lb_insert_at (linear_address (write_address v)) (map Known (write_bytes v)) b"
  show ?case
  proof (cases "w \<in> set ws")
    case True
    with Cons show ?thesis by (simp add: commit_cons del: commit_to_buffer.simps)
  next
    case False
    then have w: "w = v" using Cons.prems(3) by simp
    have a: "linear_address (write_address w) j \<in> write_range v" using Cons.prems(4) by (simp add: w write_range_def)
    have "lb_state (fst (commit_to_buffer ws ?b)) (linear_address (write_address w) j) = lb_state ?b (linear_address (write_address w) j)"
      using Cons.prems(1,2) a by (intro commit_other) auto
    also have "\<dots> = Some (map Known (write_bytes v) ! j)"
      using Cons.prems(1,4) unfolding w by (intro lb_insert_linear) (auto simp: write_fits_def)
    finally show ?thesis using Cons.prems(1,4) by (simp add: commit_cons w del: commit_to_buffer.simps)
  qed
qed simp

lemma length_le_bytes [simp]: "length (le_bytes n w) = n"
  by (simp add: le_bytes_def)

lemma from_le_bytes_le_bytes:
  fixes w :: "'w::len word"
  assumes "LENGTH('w) = 8 * n" "n \<le> 8"
  shows "ucast (from_le_bytes (le_bytes n w)) = w"
proof (rule bit_word_eqI)
  fix k assume k: "k < LENGTH('w)"
  then have "k div 8 < n" "k < 64" using assms by auto
  moreover have "8 * (k div 8) + k mod 8 = k" by simp
  ultimately show "bit (ucast (from_le_bytes (le_bytes n w)) :: 'w word) k = bit w k"
    using k by (auto simp: bit_from_le_bytes bit_simps le_bytes_def)
qed

text \<open>A word of L0C, as the next multiplication reads its accumulator.\<close>

definition l0c_u32 :: "local_buffer \<Rightarrow> u64 \<Rightarrow> u32 option" where
  "l0c_u32 b a = map_option (\<lambda>bytes. ucast (from_le_bytes bytes)) (those (map (\<lambda>j. lb_byte b (linear_address a j)) [0..<4]))"

definition l0c_u16 :: "local_buffer \<Rightarrow> u64 \<Rightarrow> u16 option" where
  "l0c_u16 b a = map_option (\<lambda>bytes. ucast (from_le_bytes bytes)) (those (map (\<lambda>j. lb_byte b (linear_address a j)) [0..<2]))"

lemma those_map_Some: "those (map f xs) = Some ys \<longleftrightarrow> map f xs = map Some ys"
proof (induction xs arbitrary: ys)
  case (Cons x xs)
  then show ?case by (cases ys) (auto split: option.splits)
qed auto

lemma written_bytes:
  assumes "\<forall>j<n. lb_state b (linear_address a j) = Some (Known (le_bytes n w ! j))"
  shows "those (map (\<lambda>j. lb_byte b (linear_address a j)) [0..<n]) = Some (le_bytes n w)"
  unfolding those_map_Some using assms by (intro nth_equalityI) (simp_all add: lb_byte_def)

lemma l0c_u32_written:
  "\<forall>j<4. lb_state b (linear_address a j) = Some (Known (le_bytes 4 (w :: u32) ! j)) \<Longrightarrow> l0c_u32 b a = Some w"
  unfolding l0c_u32_def by (subst written_bytes) (use from_le_bytes_le_bytes [of 4 w] in simp_all)

lemma l0c_u16_written:
  "\<forall>j<2. lb_state b (linear_address a j) = Some (Known (le_bytes 2 (w :: u16) ! j)) \<Longrightarrow> l0c_u16 b a = Some w"
  unfolding l0c_u16_def by (subst written_bytes) (use from_le_bytes_le_bytes [of 2 w] in simp_all)

section \<open>Addresses of the lanes\<close>

definition lane_index :: "nat \<Rightarrow> nat \<Rightarrow> nat" where
  "lane_index r c = (r mod 16) * 16 + c mod 16"

definition tile_index :: "nat \<Rightarrow> nat \<Rightarrow> nat \<Rightarrow> nat" where
  "tile_index m_tiles r c = r div 16 + m_tiles * (c div 16)"

lemma lane_index_less: "lane_index r c < 256"
proof -
  have "r mod 16 < 16" "c mod 16 < 16" by simp_all
  then show ?thesis unfolding lane_index_def by linarith
qed

lemma pair_inject:
  fixes d x y x' y' :: nat
  assumes "d * x + y = d * x' + y'" "y < d" "y' < d"
  shows "x = x' \<and> y = y'"
proof -
  have "(d * x + y) div d = x" "(d * x' + y') div d = x'" using assms(2,3) by simp_all
  with assms(1) show ?thesis by simp
qed

lemma ring_inject:
  fixes q t t' k :: nat
  assumes "(q + t) mod k = (q + t') mod k" "t < k" "t' < k"
  shows "t = t'"
proof -
  have "x = y" if "(q + y) mod k = (q + x) mod k" "x \<le> y" "y < k" for x y
  proof -
    have "k dvd (q + y) - (q + x)" using that mod_eq_dvd_iff_nat [of "q + x" "q + y" k] by simp
    then have "k dvd y - x" by simp
    with that(3) show ?thesis using that(2) by (auto dest: dvd_imp_le)
  qed
  from this [of t' t] this [of t t'] assms show ?thesis by (cases "t' \<le> t") simp_all
qed

lemma tile_lane_inject:
  assumes "r < 16 * m_tiles" "r' < 16 * m_tiles"
    and "tile_index m_tiles r c = tile_index m_tiles r' c'" "lane_index r c = lane_index r' c'"
  shows "r = r' \<and> c = c'"
proof -
  have t: "r div 16 < m_tiles" "r' div 16 < m_tiles" using assms(1,2) by auto
  have "(r div 16 + m_tiles * (c div 16)) mod m_tiles = (r' div 16 + m_tiles * (c' div 16)) mod m_tiles"
    using assms(3) by (simp add: tile_index_def)
  then have d: "r div 16 = r' div 16" using t by simp
  then have "m_tiles * (c div 16) = m_tiles * (c' div 16)" using assms(3) by (simp add: tile_index_def)
  then have e: "c div 16 = c' div 16" using t by simp
  have "16 * (r mod 16) + c mod 16 = 16 * (r' mod 16) + c' mod 16" using assms(4) by (simp add: lane_index_def mult.commute)
  from pair_inject [OF this] have f: "r mod 16 = r' mod 16" "c mod 16 = c' mod 16" by simp_all
  with d e f show ?thesis by (metis div_mult_mod_eq)
qed

lemma output_tile_base_nat:
  assumes "unat base < 2 ^ 32" "bytes \<le> 131072" "tile * bytes < 2 ^ 48" "0 < bytes"
  shows "unat (output_tile_base base tile bytes) = (unat base + tile * bytes) mod 131072"
proof -
  have u: "unat (base + word_of_nat (tile * bytes)) = unat base + tile * bytes"
    using assms by (intro unat_offset) simp
  have v: "unat (word_of_nat (131072 - bytes) :: u64) = 131072 - bytes" by (rule unat_word_of_nat_small) simp
  show ?thesis
  proof (cases "131072 - bytes < unat base + tile * bytes")
    case True
    then have "word_of_nat (131072 - bytes) < base + word_of_nat (tile * bytes)" unfolding word_less_nat_alt u v .
    then show ?thesis unfolding output_tile_base_def Let_def by (simp add: unat_mod_distrib u del: of_nat_mult)
  next
    case False
    then have "\<not> word_of_nat (131072 - bytes) < base + word_of_nat (tile * bytes)" unfolding word_less_nat_alt u v .
    moreover have "unat base + tile * bytes < 131072" using False assms(2,4) by linarith
    ultimately show ?thesis unfolding output_tile_base_def Let_def by (simp add: u del: of_nat_mult)
  qed
qed

text \<open>The address of a lane, and no two lanes overlap while the tiles fit the \<open>131072\<close> bytes of L0C.\<close>

lemma ring_offset:
  assumes "bytes dvd 131072" "0 < bytes"
  shows "(base + tile * bytes) mod 131072 = bytes * ((base div bytes + tile) mod (131072 div bytes)) + base mod (bytes :: nat)"
proof -
  obtain k where k: "131072 = bytes * k" using assms(1) unfolding dvd_def by blast
  have "base + tile * bytes = bytes * (base div bytes + tile) + base mod bytes"
    using mult_div_mod_eq [of bytes base] by (simp add: algebra_simps)
  also have "\<dots> mod (bytes * k) = bytes * ((base div bytes + tile) mod k) + base mod bytes"
    using assms(2) by (simp add: mod_mult2_eq mod_less_divisor)
  finally show ?thesis unfolding k using assms(2) by simp
qed

lemma lane_range_inject:
  fixes base t t' :: nat
  assumes "bytes dvd 131072" "bytes = 256 * e" "0 < e"
    and "t * bytes < 131072" "t' * bytes < 131072" "l < 256" "l' < 256" "j < e" "j' < e"
    and eq: "(base + t * bytes) mod 131072 + l * e + j = (base + t' * bytes) mod 131072 + l' * e + j'"
  shows "t = t' \<and> l = l'"
proof -
  have b: "0 < bytes" using assms by simp
  let ?k = "131072 div bytes"
  have t: "t < ?k" "t' < ?k"
  proof -
    have "bytes * ?k = 131072" using assms(1) by simp
    then show "t < ?k" "t' < ?k" using assms(4,5) b by (metis mult.commute mult_less_cancel1)+
  qed
  have less: "l * e + j < bytes" if "l < 256" "j < e" for l j
  proof -
    have "l * e + j < (l + 1) * e" using that by (simp add: algebra_simps)
    also have "\<dots> \<le> 256 * e" using that by (intro mult_right_mono) simp_all
    finally show ?thesis using assms(2) by simp
  qed
  have "bytes * ((base div bytes + t) mod ?k) + (l * e + j) = bytes * ((base div bytes + t') mod ?k) + (l' * e + j')"
    using eq unfolding ring_offset [OF assms(1) b] by linarith
  from pair_inject [OF this less less] assms have
    m: "(base div bytes + t) mod ?k = (base div bytes + t') mod ?k" and i: "l * e + j = l' * e + j'" by blast+
  have "e * l + j = e * l' + j'" using i by (simp add: mult.commute)
  from pair_inject [OF this assms(8,9)] ring_inject [OF m t] show ?thesis by blast
qed
section \<open>The writes of a tile\<close>

definition element_bytes :: "cube_data_type \<Rightarrow> nat" where
  "element_bytes t = (if t = F16F16 then 2 else 4)"

lemma output_address_nat:
  assumes "unat base < 2 ^ 32" "tile_index mt r c * (256 * element_bytes t) < 131072"
  shows "unat (output_address t base mt r c) =
    (unat base + tile_index mt r c * (256 * element_bytes t)) mod 131072 + lane_index r c * element_bytes t"
proof -
  let ?e = "element_bytes t" and ?t = "tile_index mt r c"
  have e: "?e = 2 \<or> ?e = 4" by (simp add: element_bytes_def)
  have b: "unat (output_tile_base base ?t (256 * ?e)) = (unat base + ?t * (256 * ?e)) mod 131072"
    using assms e by (intro output_tile_base_nat) auto
  have l: "lane_index r c * ?e < 256 * 4" using lane_index_less [of r c] e by auto
  have m: "(unat base + ?t * (256 * ?e)) mod 131072 < 131072" by simp
  have "unat (output_tile_base base ?t (256 * ?e) + word_of_nat (lane_index r c * ?e)) =
      (unat base + ?t * (256 * ?e)) mod 131072 + lane_index r c * ?e"
    unfolding b [symmetric] using l m by (intro unat_offset) (simp only: b, simp)
  moreover have "output_address t base mt r c = output_tile_base base ?t (256 * ?e) + word_of_nat (lane_index r c * ?e)"
    by (simp add: output_address_def f16_c_address_def f32_c_address_def tile_index_def lane_index_def element_bytes_def
        layout_constants)
  ultimately show ?thesis by simp
qed

definition lane_write :: "cube_data_type \<Rightarrow> u64 \<Rightarrow> nat \<Rightarrow> nat \<times> nat \<Rightarrow> u32 \<Rightarrow> cube_write" where
  "lane_write t base mt place v =
     (let (r, c) = place in
      if t = F16F16 then WriteU16 (output_address t base mt r c) (ucast v) else WriteU32 (output_address t base mt r c) v)"

lemma lane_write_simps [simp]:
  "write_address (lane_write t base mt (r, c) v) = output_address t base mt r c"
  "length (write_bytes (lane_write t base mt (r, c) v)) = element_bytes t"
  by (simp_all add: lane_write_def element_bytes_def)

definition lane_value :: "cube_data_type \<Rightarrow> local_buffer \<Rightarrow> u64 \<Rightarrow> nat \<Rightarrow> nat \<Rightarrow> nat \<Rightarrow> u32 option" where
  "lane_value t b base mt r c =
     (if t = F16F16 then map_option ucast (l0c_u16 b (output_address t base mt r c))
      else l0c_u32 b (output_address t base mt r c))"

definition lane_bits :: "cube_data_type \<Rightarrow> u32 \<Rightarrow> u32" where
  "lane_bits t v = (if t = F16F16 then v AND 0xffff else v)"

text \<open>The bytes of the output tiles.\<close>

definition tile_bytes :: "cube_data_type \<Rightarrow> u64 \<Rightarrow> nat \<Rightarrow> nat \<Rightarrow> u64 set" where
  "tile_bytes t base mt nt =
     {linear_address (output_address t base mt r c) j | r c j. r < 16 * mt \<and> c < 16 * nt \<and> j < element_bytes t}"

lemma tile_index_bound:
  assumes "r < 16 * mt" "c < 16 * nt"
  shows "tile_index mt r c < mt * nt"
proof -
  have "r div 16 < mt" "c div 16 < nt" using assms by auto
  then have "tile_index mt r c < mt + mt * (c div 16)" by (simp add: tile_index_def)
  also have "\<dots> = mt * (c div 16 + 1)" by simp
  also have "\<dots> \<le> mt * nt" using \<open>c div 16 < nt\<close> by (intro mult_left_mono) simp_all
  finally show ?thesis .
qed

lemma lane_ranges:
  assumes base: "unat base < 2 ^ 32" and fits: "mt * nt * (256 * element_bytes t) \<le> 131072"
    and p: "r < 16 * mt" "c < 16 * nt"
  shows "write_fits (lane_write t base mt (r, c) v)"
    and "j < element_bytes t \<Longrightarrow> unat (linear_address (output_address t base mt r c) j) =
      (unat base + tile_index mt r c * (256 * element_bytes t)) mod 131072 + lane_index r c * element_bytes t + j"
proof -
  have e: "element_bytes t = 2 \<or> element_bytes t = 4" by (simp add: element_bytes_def)
  have "tile_index mt r c * (256 * element_bytes t) < mt * nt * (256 * element_bytes t)"
    using tile_index_bound [OF p] e by (intro mult_strict_right_mono) auto
  then have a: "unat (output_address t base mt r c) =
      (unat base + tile_index mt r c * (256 * element_bytes t)) mod 131072 + lane_index r c * element_bytes t"
    using fits by (intro output_address_nat [OF base]) linarith
  have m: "(unat base + tile_index mt r c * (256 * element_bytes t)) mod 131072 < 131072" by simp
  have l: "lane_index r c * element_bytes t < 256 * 4" using lane_index_less [of r c] e by auto
  have small: "unat (output_address t base mt r c) < 200000" unfolding a using m l by linarith
  then show "write_fits (lane_write t base mt (r, c) v)" using e by (auto simp: write_fits_def)
  show "unat (linear_address (output_address t base mt r c) j) =
      (unat base + tile_index mt r c * (256 * element_bytes t)) mod 131072 + lane_index r c * element_bytes t + j"
    if "j < element_bytes t"
    unfolding a [symmetric] using that small e by (intro unat_linear_address) auto
qed

lemma lanes_disjoint:
  assumes base: "unat base < 2 ^ 32" and fits: "mt * nt * (256 * element_bytes t) \<le> 131072"
    and p: "r < 16 * mt" "c < 16 * nt" "r' < 16 * mt" "c' < 16 * nt" and ne: "(r, c) \<noteq> (r', c')"
  shows "write_range (lane_write t base mt (r, c) v) \<inter> write_range (lane_write t base mt (r', c') v') = {}"
proof (rule ccontr)
  let ?e = "element_bytes t"
  have e: "?e = 2 \<or> ?e = 4" by (simp add: element_bytes_def)
  assume "write_range (lane_write t base mt (r, c) v) \<inter> write_range (lane_write t base mt (r', c') v') \<noteq> {}"
  then obtain j j' where j: "j < ?e" "j' < ?e"
    "linear_address (output_address t base mt r c) j = linear_address (output_address t base mt r' c') j'"
    by (auto simp: write_range_def)
  have eq: "(unat base + tile_index mt r c * (256 * ?e)) mod 131072 + lane_index r c * ?e + j =
      (unat base + tile_index mt r' c' * (256 * ?e)) mod 131072 + lane_index r' c' * ?e + j'"
    unfolding lane_ranges(2) [OF base fits p(1,2) j(1), symmetric] lane_ranges(2) [OF base fits p(3,4) j(2), symmetric] j(3) ..
  have less: "tile_index mt r c * (256 * ?e) < 131072" "tile_index mt r' c' * (256 * ?e) < 131072"
  proof -
    have "x * (256 * ?e) < 131072" if "x < mt * nt" for x
    proof -
      have "x * (256 * ?e) < mt * nt * (256 * ?e)" using that e by (intro mult_strict_right_mono) auto
      with fits show ?thesis by linarith
    qed
    then show "tile_index mt r c * (256 * ?e) < 131072" "tile_index mt r' c' * (256 * ?e) < 131072"
      using tile_index_bound p by blast+
  qed
  have "tile_index mt r c = tile_index mt r' c' \<and> lane_index r c = lane_index r' c'"
    by (rule lane_range_inject [OF _ refl _ less lane_index_less lane_index_less j(1,2) eq]) (use e in auto)
  with tile_lane_inject [OF p(1,3)] ne show False by blast
qed

lemma blocks_cover: "(\<Union>i<mt. {i * 16..<(i + 1) * 16}) = {..<16 * mt}" for mt :: nat
proof (intro equalityI subsetI)
  fix r assume "r \<in> {..<16 * mt}"
  then have "r div 16 < mt" "r div 16 * 16 \<le> r" "r < (r div 16 + 1) * 16" by auto
  then show "r \<in> (\<Union>i<mt. {i * 16..<(i + 1) * 16})" by (intro UN_I [of "r div 16"]) simp_all
next
  fix r assume "r \<in> (\<Union>i<mt. {i * 16..<(i + 1) * 16})"
  then obtain i where i: "i < mt" "r < (i + 1) * 16" by auto
  have "(i + 1) * 16 \<le> mt * 16" using i(1) by (intro mult_right_mono) simp_all
  with i(2) show "r \<in> {..<16 * mt}" by simp
qed

lemma tile_positions_set: "set (tile_positions mt nt) = {..<16 * mt} \<times> {..<16 * nt}"
proof -
  have "set (tile_positions mt nt) = (\<Union>j<nt. \<Union>i<mt. {i * 16..<(i + 1) * 16} \<times> {j * 16..<(j + 1) * 16})"
    unfolding tile_positions_def tile_edge_def by (simp add: set_product lessThan_atLeast0)
  also have "\<dots> = (\<Union>i<mt. {i * 16..<(i + 1) * 16}) \<times> (\<Union>j<nt. {j * 16..<(j + 1) * 16})" by blast
  finally show ?thesis unfolding blocks_cover .
qed

lemma distinct_blocks:
  assumes "\<And>i. i < n \<Longrightarrow> distinct (f i)" "\<And>i j. i < n \<Longrightarrow> j < n \<Longrightarrow> i \<noteq> j \<Longrightarrow> set (f i) \<inter> set (f j) = {}"
  shows "distinct (concat (map f [0..<n]))"
  using assms
proof (induction n)
  case (Suc n)
  have "distinct (concat (map f [0..<n]))" by (rule Suc.IH) (use Suc.prems in simp_all)
  moreover have "set (f i) \<inter> set (f n) = {}" if "i < n" for i using Suc.prems(2) [of i n] that by simp
  moreover have "distinct (f n)" using Suc.prems(1) by simp
  ultimately show ?case by (auto simp: disjoint_iff)
qed simp

lemma tile_positions_distinct: "distinct (tile_positions mt nt)"
  unfolding tile_positions_def tile_edge_def
proof (intro distinct_blocks)
  fix i
  show "distinct (List.product [j * 16..<(j + 1) * 16] [i * 16..<(i + 1) * 16])" for j by (simp add: distinct_product)
  show "set (List.product [j * 16..<(j + 1) * 16] [i * 16..<(i + 1) * 16]) \<inter>
      set (List.product [k * 16..<(k + 1) * 16] [i * 16..<(i + 1) * 16]) = {}" if "j \<noteq> k" for j k
    using that by (cases "j < k") (auto simp: set_product)
  show "set (concat (map (\<lambda>m. List.product [m * 16..<(m + 1) * 16] [i * 16..<(i + 1) * 16]) [0..<mt])) \<inter>
      set (concat (map (\<lambda>m. List.product [m * 16..<(m + 1) * 16] [j * 16..<(j + 1) * 16]) [0..<mt])) = {}" if "i \<noteq> j" for j
    using that by (cases "i < j") (auto simp: set_product)
qed

lemma tile_positions_length: "length (tile_positions mt nt) = 256 * (mt * nt)"
  using distinct_card [OF tile_positions_distinct, of mt nt] by (simp add: tile_positions_set card_cartesian_product)

lemma product_upt_nth:
  "r < m \<Longrightarrow> c < n \<Longrightarrow> List.product [0..<m] [0..<n] ! (r * n + c) = (r, c)"
proof -
  assume a: "r < m" "c < n"
  have "r * n + c < (r + 1) * n" using a by simp
  also have "\<dots> \<le> m * n" using a by (intro mult_right_mono) simp_all
  finally have "r * n + c < length [0..<m] * length [0..<n]" by simp
  from List.product_nth [OF this] show ?thesis using a by simp
qed

text \<open>The writes that \<open>mmad_prepare\<close> collects, one per row and column, in order.\<close>

lemma compute_lanes:
  assumes "try_fold (compute_lane reserve x initialization) (ws, outcome) ps = Ok (ws', outcome')"
  shows "\<exists>vs. length vs = length ps \<and> ws' = ws @ map2 (lane_write (cu_data_type (mk_instruction x))
      (ucast (mp_xd_low (mk_parameters x))) (unat (cg_m_tiles (mk_geometry x)))) ps vs"
  using assms
proof (induction ps arbitrary: ws outcome)
  case (Cons p ps)
  let ?w = "lane_write (cu_data_type (mk_instruction x)) (ucast (mp_xd_low (mk_parameters x))) (unat (cg_m_tiles (mk_geometry x))) p"
  from Cons.prems obtain s where s: "compute_lane reserve x initialization (ws, outcome) p = Ok s"
    and rest: "try_fold (compute_lane reserve x initialization) s ps = Ok (ws', outcome')" by (auto simp: and_then_Ok)
  obtain r c where p: "p = (r, c)" by fastforce
  from s obtain v outcome1 where s': "s = (ws @ [?w v], outcome1)"
    unfolding compute_lane_def Let_def p by (auto simp: and_then_Ok lane_write_def split: if_splits)
  from Cons.IH [OF rest [unfolded s']] obtain vs where "length vs = length ps"
    "ws' = (ws @ [?w v]) @ map2 (lane_write (cu_data_type (mk_instruction x)) (ucast (mp_xd_low (mk_parameters x)))
      (unat (cg_m_tiles (mk_geometry x)))) ps vs" by blast
  then show ?case by (intro exI [of _ "v # vs"]) simp
qed simp

lemma geometry_tiles:
  "unat (cg_m_tiles (cube_geometry_of i p)) = (unat (mp_m p) + 15) div 16"
  "unat (cg_n_tiles (cube_geometry_of i p)) = (unat (mp_n p) + 15) div 16"
  by (simp_all add: cube_geometry_of_def Let_def cube_array_edge_def unat_div_ceil)

lemma tile_covers: "n \<le> 16 * ((n + 15) div 16)" for n :: nat
  by linarith

lemma sorted_wrt_distinct:
  "distinct xs \<Longrightarrow> (\<And>x y. x \<in> set xs \<Longrightarrow> y \<in> set xs \<Longrightarrow> x \<noteq> y \<Longrightarrow> P x y) \<Longrightarrow> sorted_wrt P xs"
  by (induction xs) auto

definition output_writes :: "cube_instruction \<Rightarrow> mmad_parameters \<Rightarrow> (nat \<Rightarrow> nat \<Rightarrow> u32) \<Rightarrow> (nat \<times> nat) list \<Rightarrow> cube_write list" where
  "output_writes i p V ps =
     map (\<lambda>(r, c). lane_write (cu_data_type i) (ucast (mp_xd_low p)) (unat (cg_m_tiles (cube_geometry_of i p))) (r, c) (V r c)) ps"

lemma mmad_prepare_writes:
  assumes "mmad_prepare reserve i p memory control = Ok prepared"
  obtains V where "pe_writes prepared = output_writes i p V (List.product [0..<unat (mp_m p)] [0..<unat (mp_n p)])"
proof -
  let ?m = "unat (mp_m p)" and ?n = "unat (mp_n p)" and ?ps = "List.product [0..<unat (mp_m p)] [0..<unat (mp_n p)]"
  let ?w = "lane_write (cu_data_type i) (ucast (mp_xd_low p)) (unat (cg_m_tiles (cube_geometry_of i p)))"
  from assms obtain vs where vs: "length vs = length ?ps" "pe_writes prepared = map2 ?w ?ps vs"
    unfolding mmad_prepare_def Let_def
    by (auto simp: and_then_Ok split: if_splits dest!: compute_lanes)
  let ?V = "\<lambda>r c. vs ! (r * ?n + c)"
  have "map2 ?w ?ps vs = map (\<lambda>(r, c). ?w (r, c) (?V r c)) ?ps"
  proof (rule nth_equalityI)
    fix k assume k: "k < length (map2 ?w ?ps vs)"
    then have kn: "k < ?m * ?n" by (simp add: vs(1))
    then have n: "0 < ?n" by (cases "?n = 0") simp_all
    have k2: "k div ?n < ?m" "k mod ?n < ?n" "k = k div ?n * ?n + k mod ?n"
      using kn n by (simp_all add: less_mult_imp_div_less)
    have "?ps ! k = (k div ?n, k mod ?n)" using product_upt_nth [OF k2(1,2)] k2(3) by simp
    with k k2(3) show "map2 ?w ?ps vs ! k = map (\<lambda>(r, c). ?w (r, c) (?V r c)) ?ps ! k" by simp
  qed (simp add: vs(1))
  with vs(2) show ?thesis by (intro that [of ?V]) (simp add: output_writes_def)
qed

lemma complete_writes:
  assumes "pe_writes prepared = output_writes i p V (List.product [0..<unat (mp_m p)] [0..<unat (mp_n p)])"
  shows "pe_writes (complete_output_tiles i p prepared) =
    output_writes i p (\<lambda>r c. if r < unat (mp_m p) \<and> c < unat (mp_n p) then V r c else 0)
      (tile_positions (unat (cg_m_tiles (cube_geometry_of i p))) (unat (cg_n_tiles (cube_geometry_of i p))))"
proof -
  let ?m = "unat (mp_m p)" and ?n = "unat (mp_n p)"
  have "tile_write i p (unat (cg_m_tiles (cube_geometry_of i p))) (pe_writes prepared) (r, c) =
      lane_write (cu_data_type i) (ucast (mp_xd_low p)) (unat (cg_m_tiles (cube_geometry_of i p))) (r, c)
        (if r < ?m \<and> c < ?n then V r c else 0)" for r c
  proof (cases "r < ?m \<and> c < ?n")
    case True
    have "r * ?n + c < (r + 1) * ?n" using True by simp
    also have "\<dots> \<le> ?m * ?n" using True by (intro mult_right_mono) simp_all
    finally have "r * ?n + c < length (List.product [0..<?m] [0..<?n])" by simp
    with True product_upt_nth [of r ?m c ?n] show ?thesis
      unfolding tile_write_def Let_def assms output_writes_def by simp
  next
    case False
    then show ?thesis by (auto simp: tile_write_def Let_def lane_write_def output_address_def)
  qed
  then have "map (tile_write i p (unat (cg_m_tiles (cube_geometry_of i p))) (pe_writes prepared)) ps =
      output_writes i p (\<lambda>r c. if r < ?m \<and> c < ?n then V r c else 0) ps" for ps
    unfolding output_writes_def by (intro map_cong) auto
  then show ?thesis unfolding complete_output_tiles_def Let_def by simp
qed

fun write_value :: "cube_write \<Rightarrow> u32" where
  "write_value (WriteU16 _ v) = ucast v"
| "write_value (WriteU32 _ v) = v"

lemma lane_written:
  assumes "\<forall>j<element_bytes t. lb_state b (linear_address (output_address t base mt r c) j) =
    Some (Known (write_bytes (lane_write t base mt (r, c) v) ! j))"
  shows "lane_value t b base mt r c = Some (write_value (lane_write t base mt (r, c) v))"
proof (cases "t = F16F16")
  case True
  with assms have "l0c_u16 b (output_address t base mt r c) = Some (ucast v)"
    by (intro l0c_u16_written) (simp add: element_bytes_def lane_write_def)
  then show ?thesis using True by (simp add: lane_value_def lane_write_def)
next
  case False
  with assms have "l0c_u32 b (output_address t base mt r c) = Some v"
    by (intro l0c_u32_written) (simp add: element_bytes_def lane_write_def)
  then show ?thesis using False by (simp add: lane_value_def lane_write_def)
qed

text \<open>The commit of the completed tiles.\<close>

lemma commit_tiles:
  fixes i p
  defines "mt \<equiv> unat (cg_m_tiles (cube_geometry_of i p))" and "nt \<equiv> unat (cg_n_tiles (cube_geometry_of i p))"
    and "base \<equiv> ucast (mp_xd_low p)" and "t \<equiv> cu_data_type i"
  assumes fits: "mt * nt * (256 * element_bytes t) \<le> 131072"
    and b': "commit_to_buffer (output_writes i p W (tile_positions mt nt)) b = (b', res)"
  shows "res = Ok ()"
    and "r < 16 * mt \<Longrightarrow> c < 16 * nt \<Longrightarrow> lane_value t b' base mt r c = Some (write_value (lane_write t base mt (r, c) (W r c)))"
    and "a \<notin> tile_bytes t base mt nt \<Longrightarrow> lb_state b' a = lb_state b a"
proof -
  have base: "unat base < 2 ^ 32" unfolding base_def unat_u32_u64 using unsigned_less [of "mp_xd_low p"] by simp
  let ?ws = "output_writes i p W (tile_positions mt nt)"
  have w: "lane_write t base mt (r, c) (W r c) \<in> set ?ws" if "r < 16 * mt" "c < 16 * nt" for r c
    unfolding output_writes_def t_def [symmetric] base_def [symmetric] mt_def [symmetric] using that
    by (auto simp: tile_positions_set image_iff)
  have of: "\<exists>r c. r < 16 * mt \<and> c < 16 * nt \<and> w = lane_write t base mt (r, c) (W r c)" if "w \<in> set ?ws" for w
    using that unfolding output_writes_def t_def [symmetric] base_def [symmetric] mt_def [symmetric]
    by (auto simp: tile_positions_set)
  have fit: "\<forall>w\<in>set ?ws. write_fits w" using of lane_ranges(1) [OF base fits] by blast
  have disj: "sorted_wrt (\<lambda>v w. write_range v \<inter> write_range w = {}) ?ws"
    unfolding output_writes_def t_def [symmetric] base_def [symmetric] mt_def [symmetric] sorted_wrt_map
  proof (rule sorted_wrt_distinct [OF tile_positions_distinct])
    fix x y assume xy: "x \<in> set (tile_positions mt nt)" "y \<in> set (tile_positions mt nt)" "x \<noteq> y"
    obtain r c r' c' where "x = (r, c)" "y = (r', c')" by fastforce
    with xy show "write_range (case x of (r, c) \<Rightarrow> lane_write t base mt (r, c) (W r c)) \<inter>
        write_range (case y of (r, c) \<Rightarrow> lane_write t base mt (r, c) (W r c)) = {}"
      using lanes_disjoint [OF base fits, of r c r' c'] by (simp add: tile_positions_set)
  qed
  show "res = Ok ()" using commit_ok [OF fit, of b] b' by simp
  show "lane_value t b' base mt r c = Some (write_value (lane_write t base mt (r, c) (W r c)))"
    if "r < 16 * mt" "c < 16 * nt"
  proof (rule lane_written, intro allI impI)
    fix j assume "j < element_bytes t"
    then show "lb_state b' (linear_address (output_address t base mt r c) j) =
        Some (Known (write_bytes (lane_write t base mt (r, c) (W r c)) ! j))"
      using commit_at [OF fit disj w [OF that], of j b] b' by simp
  qed
  show "lb_state b' a = lb_state b a" if "a \<notin> tile_bytes t base mt nt"
  proof -
    have "a \<notin> write_range w" if "w \<in> set ?ws" for w
      using of [OF that] \<open>a \<notin> tile_bytes t base mt nt\<close> by (auto simp: write_range_def tile_bytes_def)
    then show ?thesis using commit_other [of ?ws a b] fit b' by simp
  qed
qed

lemma execute_tiles:
  fixes i p
  defines "mt \<equiv> unat (cg_m_tiles (cube_geometry_of i p))" and "nt \<equiv> unat (cg_n_tiles (cube_geometry_of i p))"
    and "base \<equiv> ucast (mp_xd_low p)" and "t \<equiv> cu_data_type i"
  assumes prepared: "mmad_prepare reserve i p memory control = Ok prepared"
    and V: "pe_writes prepared = output_writes i p V (List.product [0..<unat (mp_m p)] [0..<unat (mp_n p)])"
    and shape: "mp_m p \<noteq> 0" "mp_effective_k p \<noteq> 0" "mp_n p \<noteq> 0" and mode: "validate_functional_mode i = Ok ()"
    and fits: "mt * nt * (256 * element_bytes t) \<le> 131072"
  shows "\<exists>b'. cube_execute reserve i p memory control =
      (memory\<lparr>lm_l0c := (lm_l0c memory)\<lparr>l0_buffer := b'\<rparr>\<rparr>, Ok (pe_outcome (complete_output_tiles i p prepared))) \<and>
    (\<forall>r<16 * mt. \<forall>c<16 * nt. lane_value t b' base mt r c =
       Some (write_value (lane_write t base mt (r, c) (if r < unat (mp_m p) \<and> c < unat (mp_n p) then V r c else 0)))) \<and>
    (\<forall>a. a \<notin> tile_bytes t base mt nt \<longrightarrow> lb_state b' a = lb_state (l0_buffer (lm_l0c memory)) a)"
proof -
  let ?b = "l0_buffer (lm_l0c memory)" and ?done = "complete_output_tiles i p prepared"
  let ?W = "\<lambda>r c. if r < unat (mp_m p) \<and> c < unat (mp_n p) then V r c else 0"
  have ws: "pe_writes ?done = output_writes i p ?W (tile_positions mt nt)" using complete_writes [OF V] by (simp add: mt_def nt_def)
  obtain b' res where b': "commit_to_buffer (pe_writes ?done) ?b = (b', res)" by fastforce
  note c = commit_tiles [where i = i and p = p, folded mt_def nt_def base_def t_def, OF fits b' [unfolded ws]]
  have "cube_prepare reserve i p memory control = Ok ?done"
    using shape mode prepared by (simp add: cube_prepare_def)
  then have "cube_execute reserve i p memory control =
      (memory\<lparr>lm_l0c := (lm_l0c memory)\<lparr>l0_buffer := b'\<rparr>\<rparr>, Ok (pe_outcome ?done))"
    using c(1) b' by (simp add: cube_execute_def cube_commit_def)
  with c(2,3) show ?thesis by blast
qed

text \<open>C40. Executing a matrix multiplication whose results could be prepared always succeeds when the output tiles fit L0C: every
  lane of the tiles then holds its computed value, or zero in the padding, and no other byte of any memory changes. A
  failed preparation changes nothing.\<close>

theorem execute_writes_tiles:
  fixes i p
  defines "mt \<equiv> unat (cg_m_tiles (cube_geometry_of i p))" and "nt \<equiv> unat (cg_n_tiles (cube_geometry_of i p))"
    and "base \<equiv> ucast (mp_xd_low p)" and "t \<equiv> cu_data_type i"
  assumes prepared: "mmad_prepare reserve i p memory control = Ok prepared"
    and shape: "mp_m p \<noteq> 0" "mp_effective_k p \<noteq> 0" "mp_n p \<noteq> 0" and mode: "validate_functional_mode i = Ok ()"
    and fits: "mt * nt * (256 * element_bytes t) \<le> 131072"
  shows "\<exists>b' outcome. cube_execute reserve i p memory control =
      (memory\<lparr>lm_l0c := (lm_l0c memory)\<lparr>l0_buffer := b'\<rparr>\<rparr>, Ok outcome) \<and>
    (\<forall>r<16 * mt. \<forall>c<16 * nt. lane_value t b' base mt r c =
       Some (if r < unat (mp_m p) \<and> c < unat (mp_n p) then write_value (pe_writes prepared ! (r * unat (mp_n p) + c)) else 0)) \<and>
    (\<forall>a. a \<notin> tile_bytes t base mt nt \<longrightarrow> lb_state b' a = lb_state (l0_buffer (lm_l0c memory)) a) \<and>
    unat (eo_written_lanes outcome) = 256 * (mt * nt)"
proof -
  let ?done = "complete_output_tiles i p prepared"
  from mmad_prepare_writes [OF prepared] obtain V where
    V: "pe_writes prepared = output_writes i p V (List.product [0..<unat (mp_m p)] [0..<unat (mp_n p)])" .
  let ?W = "\<lambda>r c. if r < unat (mp_m p) \<and> c < unat (mp_n p) then V r c else 0"
  from execute_tiles [where i = i and p = p, OF prepared V shape mode, folded mt_def nt_def base_def t_def, OF fits]
  obtain b' where exec: "cube_execute reserve i p memory control =
      (memory\<lparr>lm_l0c := (lm_l0c memory)\<lparr>l0_buffer := b'\<rparr>\<rparr>, Ok (pe_outcome ?done))"
    and lanes: "\<forall>r<16 * mt. \<forall>c<16 * nt. lane_value t b' base mt r c = Some (write_value (lane_write t base mt (r, c) (?W r c)))"
    and other: "\<forall>a. a \<notin> tile_bytes t base mt nt \<longrightarrow> lb_state b' a = lb_state (l0_buffer (lm_l0c memory)) a" by blast
  have vals: "write_value (lane_write t base mt (r, c) (?W r c)) =
      (if r < unat (mp_m p) \<and> c < unat (mp_n p) then write_value (pe_writes prepared ! (r * unat (mp_n p) + c)) else 0)" for r c
  proof (cases "r < unat (mp_m p) \<and> c < unat (mp_n p)")
    case True
    have "r * unat (mp_n p) + c < (r + 1) * unat (mp_n p)" using True by simp
    also have "\<dots> \<le> unat (mp_m p) * unat (mp_n p)" using True by (intro mult_right_mono) simp_all
    finally have "r * unat (mp_n p) + c < length (List.product [0..<unat (mp_m p)] [0..<unat (mp_n p)])" by simp
    with True show ?thesis
      unfolding V output_writes_def by (simp add: product_upt_nth t_def base_def mt_def)
  qed (auto simp: lane_write_def)
  have len: "length (pe_writes ?done) = 256 * (mt * nt)" by (simp add: complete_writes [OF V] output_writes_def tile_positions_length mt_def nt_def)
  have "mt * nt * 256 \<le> mt * nt * (256 * element_bytes t)" by (intro mult_left_mono) (simp_all add: element_bytes_def)
  then have "256 * (mt * nt) \<le> 131072" using fits by linarith
  then have small: "256 * (mt * nt) < 2 ^ LENGTH(64)" by (rule le_less_trans) simp
  have "eo_written_lanes (pe_outcome ?done) = word_of_nat (length (pe_writes ?done))"
    by (simp add: complete_output_tiles_def Let_def)
  then have "unat (eo_written_lanes (pe_outcome ?done)) = 256 * (mt * nt)"
    unfolding len by (simp only: unat_word_of_nat_small [OF small])
  with exec lanes other vals show ?thesis by (intro exI [of _ b'] exI [of _ "pe_outcome ?done"]) simp
qed

end
