(* ===== verification/Integer_Matmul.thy ===== *)
theory Integer_Matmul
  imports Cube_Matmul
begin

text \<open>
  The integer multiplications of \<open>Cube_Mmad\<close>: every lane of the result is the sum of its products, saturated to 32 bits
  after each slice of \<open>k\<close>, and the overflow flag tells whether any slice was clamped; without it the lanes hold the exact
  matrix product. The operands may come from the dense or the sparse path.
\<close>

section \<open>Reference\<close>

definition sat32 :: "int \<Rightarrow> int" where
  "sat32 v = max (- (2 ^ 31)) (min (2 ^ 31 - 1) v)"

text \<open>One slice of width \<open>w\<close> of a sum over \<open>K\<close> products.\<close>

definition slice_total :: "(nat \<Rightarrow> int) \<Rightarrow> nat \<Rightarrow> nat \<Rightarrow> nat \<Rightarrow> int" where
  "slice_total q K w base = (\<Sum>lane<min (K - base) w. q (base + lane))"

definition accumulate_slice :: "(nat \<Rightarrow> int) \<Rightarrow> nat \<Rightarrow> nat \<Rightarrow> int \<times> bool \<Rightarrow> nat \<Rightarrow> int \<times> bool" where
  "accumulate_slice q K w state base =
     (let total = fst state + slice_total q K w base in (sat32 total, snd state \<or> sat32 total \<noteq> total))"

definition accumulate :: "(nat \<Rightarrow> int) \<Rightarrow> nat \<Rightarrow> nat \<Rightarrow> int \<Rightarrow> int \<times> bool" where
  "accumulate q K w c = foldl (accumulate_slice q K w) (c, False) (step_by K w)"

definition in_s32 :: "int \<Rightarrow> bool" where
  "in_s32 v \<longleftrightarrow> - (2 ^ 31) \<le> v \<and> v < 2 ^ 31"

lemma in_s32_sat32 [simp]: "in_s32 (sat32 v)"
  by (auto simp: in_s32_def sat32_def)

lemma sat32_id: "sat32 v = v \<longleftrightarrow> in_s32 v"
  by (auto simp: in_s32_def sat32_def)

lemma sint_word_of_s32: "in_s32 v \<Longrightarrow> sint (word_of_int v :: u32) = v"
  by (simp add: in_s32_def signed_of_int signed_take_bit_int_eq_self)

lemma in_s32_sint: "in_s32 (sint (w :: u32))"
  using sint_ge [of w] sint_lt [of w] by (simp add: in_s32_def)

lemma sum_lessThan_add: "(\<Sum>k<a + b. q k) = (\<Sum>k<a. q k) + (\<Sum>k<b. q (a + k))" for a b :: nat and q :: "nat \<Rightarrow> int"
  by (induction b) (simp_all add: add.assoc)

lemma foldl_slices_exact:
  "\<not> snd (foldl (accumulate_slice q K w) (c, False) (map (\<lambda>i. i * w) [0..<n])) \<Longrightarrow>
   fst (foldl (accumulate_slice q K w) (c, False) (map (\<lambda>i. i * w) [0..<n])) = c + (\<Sum>k<min (n * w) K. q k)"
proof (induction n)
  case (Suc n)
  let ?s = "foldl (accumulate_slice q K w) (c, False) (map (\<lambda>i. i * w) [0..<n])"
  have step: "foldl (accumulate_slice q K w) (c, False) (map (\<lambda>i. i * w) [0..<Suc n]) = accumulate_slice q K w ?s (n * w)"
    by simp
  have no: "\<not> snd ?s" "sat32 (fst ?s + slice_total q K w (n * w)) = fst ?s + slice_total q K w (n * w)"
    using Suc.prems unfolding step by (auto simp: accumulate_slice_def Let_def)
  have "(\<Sum>k<min (Suc n * w) K. q k) = (\<Sum>k<min (n * w) K. q k) + slice_total q K w (n * w)"
  proof (cases "n * w \<le> K")
    case True
    then have "min (Suc n * w) K = n * w + min (K - n * w) w" "min (n * w) K = n * w" by auto
    then show ?thesis by (simp only: sum_lessThan_add slice_total_def)
  next
    case False
    then show ?thesis by (simp add: slice_total_def min_def)
  qed
  moreover have "fst (accumulate_slice q K w ?s (n * w)) = fst ?s + slice_total q K w (n * w)"
    using no(2) by (simp add: accumulate_slice_def Let_def)
  ultimately show ?case unfolding step Suc.IH [OF no(1)] by simp
qed simp

lemma accumulate_exact:
  assumes "0 < w" "\<not> snd (accumulate q K w c)"
  shows "fst (accumulate q K w c) = c + (\<Sum>k<K. q k)"
proof -
  have "K \<le> (K + w - 1) div w * w"
  proof -
    have "K + w - 1 = w * ((K + w - 1) div w) + (K + w - 1) mod w" by simp
    moreover have "(K + w - 1) mod w \<le> w - 1" using mod_less_divisor [OF assms(1), of "K + w - 1"] by linarith
    ultimately have "K + w - 1 \<le> w * ((K + w - 1) div w) + (w - 1)" by linarith
    then show ?thesis using assms(1) by (simp add: mult.commute)
  qed
  then show ?thesis
    using foldl_slices_exact [of q K w c "(K + w - 1) div w"] assms(2) by (simp add: accumulate_def step_by_def min_def)
qed

lemma foldl_slices_range: "in_s32 (fst s) \<Longrightarrow> in_s32 (fst (foldl (accumulate_slice q K w) s bases))"
  by (induction bases arbitrary: s) (simp_all add: accumulate_slice_def Let_def)

lemma accumulate_range: "in_s32 c \<Longrightarrow> in_s32 (fst (accumulate q K w c))"
  unfolding accumulate_def by (rule foldl_slices_range) simp

section \<open>The loops of the code\<close>

lemma try_fold_products:
  assumes "\<forall>lane\<in>set lanes. g lane = Ok (h lane)"
  shows "try_fold (\<lambda>sum lane. and_then (g lane) (\<lambda>(left, right). Ok (sum + f left right))) (s :: int) lanes =
    Ok (s + (\<Sum>lane\<leftarrow>lanes. case_prod f (h lane)))"
  using assms by (induction lanes arbitrary: s) (auto simp: and_then_def split: prod.splits)

text \<open>The products a kernel adds up for one lane.\<close>

definition lane_product :: "integer_input_mode \<Rightarrow> (nat \<Rightarrow> u8 \<times> u8) \<Rightarrow> nat \<Rightarrow> int" where
  "lane_product mode operands k = case_prod (input_product mode) (operands k)"

definition integer_state :: "execution_outcome \<Rightarrow> int \<times> bool \<Rightarrow> u32 \<times> execution_outcome" where
  "integer_state outcome s = (word_of_int (fst s), outcome\<lparr>eo_integer_overflow := snd s\<rparr>)"

lemma evaluate_integer_slice:
  assumes mode: "input_mode_of (cu_data_type (mk_instruction x)) = Some mode"
    and operands: "\<forall>k<unat (mp_effective_k (mk_parameters x)). integer_pair reserve x mode m n k = Ok (operands k)"
    and s: "in_s32 (fst s)"
  shows "evaluate_slice reserve x m n base (integer_state outcome s) =
    Ok (integer_state outcome (accumulate_slice (lane_product mode operands) (unat (mp_effective_k (mk_parameters x)))
      (unat (cg_k_tile_elements (mk_geometry x))) s base))"
proof -
  let ?K = "unat (mp_effective_k (mk_parameters x))" and ?w = "unat (cg_k_tile_elements (mk_geometry x))"
  let ?lanes = "[0..<active_lanes x base ?w]"
  have reads: "\<forall>lane\<in>set ?lanes. integer_pair reserve x mode m n (base + lane) = Ok (operands (base + lane))"
    using operands by (auto simp: active_lanes_def)
  have total: "(\<Sum>lane\<leftarrow>?lanes. case_prod (input_product mode) (operands (base + lane))) = slice_total (lane_product mode operands) ?K ?w base"
    by (simp add: slice_total_def lane_product_def active_lanes_def interv_sum_list_conv_sum_set_nat lessThan_atLeast0)
  have "evaluate_slice reserve x m n base (integer_state outcome s) =
      integer_slice reserve x mode m n base (word_of_int (fst s)) (outcome\<lparr>eo_integer_overflow := snd s\<rparr>)"
    using mode by (cases "cu_data_type (mk_instruction x)") (simp_all add: evaluate_slice_def integer_state_def Let_def)
  also have "\<dots> = Ok (integer_state outcome (accumulate_slice (lane_product mode operands) ?K ?w s base))"
    unfolding integer_slice_def Let_def try_fold_products [OF reads] total sint_word_of_s32 [OF s]
    by (simp add: and_then_def integer_state_def accumulate_slice_def Let_def sat32_def)
  finally show ?thesis .
qed

lemma evaluate_integer_slices:
  assumes "input_mode_of (cu_data_type (mk_instruction x)) = Some mode"
    and "\<forall>k<unat (mp_effective_k (mk_parameters x)). integer_pair reserve x mode m n k = Ok (operands k)"
    and "in_s32 (fst s)"
  shows "try_fold (\<lambda>state base. evaluate_slice reserve x m n base state) (integer_state outcome s) bases =
    Ok (integer_state outcome (foldl (accumulate_slice (lane_product mode operands) (unat (mp_effective_k (mk_parameters x)))
      (unat (cg_k_tile_elements (mk_geometry x)))) s bases))"
  using assms(3)
proof (induction bases arbitrary: s)
  case (Cons base bases)
  have "in_s32 (fst (accumulate_slice q K w s base))" for q K w by (simp add: accumulate_slice_def Let_def)
  from Cons.IH [OF this] show ?case
    by (simp add: evaluate_integer_slice [OF assms(1,2) Cons.prems] and_then_def)
qed simp

lemma foldl_slices_flag:
  "foldl (accumulate_slice q K w) (c, f \<or> g) bases =
     (fst (foldl (accumulate_slice q K w) (c, g) bases), f \<or> snd (foldl (accumulate_slice q K w) (c, g) bases))"
  by (induction bases arbitrary: c g) (simp_all add: accumulate_slice_def Let_def disj_assoc)

text \<open>The result of one lane, and the loop over the lanes.\<close>

definition lane_result :: "mmad_kernel \<Rightarrow> integer_input_mode \<Rightarrow> (nat \<Rightarrow> u8 \<times> u8) \<Rightarrow> u32 \<Rightarrow> int \<times> bool" where
  "lane_result x mode operands c =
     accumulate (lane_product mode operands) (unat (mp_effective_k (mk_parameters x)))
       (unat (cg_k_tile_elements (mk_geometry x))) (sint c)"

definition kernel_write :: "mmad_kernel \<Rightarrow> nat \<times> nat \<Rightarrow> u32 \<Rightarrow> cube_write" where
  "kernel_write x place v =
     lane_write (cu_data_type (mk_instruction x)) (ucast (mp_xd_low (mk_parameters x)))
       (unat (cg_m_tiles (mk_geometry x))) place v"

lemma compute_integer_lane:
  assumes mode: "input_mode_of (cu_data_type (mk_instruction x)) = Some mode"
    and operands: "\<forall>k<unat (mp_effective_k (mk_parameters x)). integer_pair reserve x mode m n k = Ok (operands k)"
    and c: "lane_u32 reserve initialization (mk_memory x) (output_address (cu_data_type (mk_instruction x))
      (ucast (mp_xd_low (mk_parameters x))) (unat (cg_m_tiles (mk_geometry x))) m n) n = Ok c"
  shows "compute_lane reserve x initialization (ws, outcome\<lparr>eo_integer_overflow := f\<rparr>) (m, n) =
    Ok (ws @ [kernel_write x (m, n) (word_of_int (fst (lane_result x mode operands c)))],
        outcome\<lparr>eo_integer_overflow := f \<or> snd (lane_result x mode operands c)\<rparr>)"
proof -
  have t: "cu_data_type (mk_instruction x) \<noteq> F16F16" "cu_data_type (mk_instruction x) \<noteq> F32F32" using mode by auto
  let ?q = "lane_product mode operands" and ?K = "unat (mp_effective_k (mk_parameters x))"
    and ?w = "unat (cg_k_tile_elements (mk_geometry x))"
  let ?r = "lane_result x mode operands c"
  have start: "(c, outcome\<lparr>eo_integer_overflow := f\<rparr>) = integer_state outcome (sint c, f)"
    by (simp add: integer_state_def)
  have run: "foldl (accumulate_slice ?q ?K ?w) (sint c, f) (step_by ?K ?w) = (fst ?r, f \<or> snd ?r)"
    using foldl_slices_flag [of ?q ?K ?w "sint c" f False "step_by ?K ?w"] by (simp add: lane_result_def accumulate_def)
  have "try_fold (\<lambda>state base. evaluate_slice reserve x m n base state) (c, outcome\<lparr>eo_integer_overflow := f\<rparr>) (step_by ?K ?w) =
      Ok (integer_state outcome (fst ?r, f \<or> snd ?r))"
    unfolding start using evaluate_integer_slices [OF mode operands, of "(sint c, f)" outcome "step_by ?K ?w"]
    by (simp add: in_s32_sint run)
  then show ?thesis
    unfolding compute_lane_def using t
    by (simp add: Let_def c and_then_def slice_width_def kernel_write_def lane_write_def integer_state_def)
qed

lemma compute_integer_lanes:
  assumes "input_mode_of (cu_data_type (mk_instruction x)) = Some mode"
    and "\<forall>(m, n)\<in>set ps. \<forall>k<unat (mp_effective_k (mk_parameters x)). integer_pair reserve x mode m n k = Ok (operands m n k)"
    and "\<forall>(m, n)\<in>set ps. lane_u32 reserve initialization (mk_memory x) (output_address (cu_data_type (mk_instruction x))
      (ucast (mp_xd_low (mk_parameters x))) (unat (cg_m_tiles (mk_geometry x))) m n) n = Ok (c m n)"
  shows "try_fold (compute_lane reserve x initialization) (ws, outcome\<lparr>eo_integer_overflow := f\<rparr>) ps =
    Ok (ws @ map (\<lambda>(m, n). kernel_write x (m, n) (word_of_int (fst (lane_result x mode (operands m n) (c m n))))) ps,
        outcome\<lparr>eo_integer_overflow := f \<or> (\<exists>(m, n)\<in>set ps. snd (lane_result x mode (operands m n) (c m n)))\<rparr>)"
  using assms(2,3)
proof (induction ps arbitrary: ws f)
  case (Cons place ps)
  obtain m n where place: "place = (m, n)" by fastforce
  have "compute_lane reserve x initialization (ws, outcome\<lparr>eo_integer_overflow := f\<rparr>) (m, n) =
    Ok (ws @ [kernel_write x (m, n) (word_of_int (fst (lane_result x mode (operands m n) (c m n))))],
        outcome\<lparr>eo_integer_overflow := f \<or> snd (lane_result x mode (operands m n) (c m n))\<rparr>)"
    using Cons.prems unfolding place by (intro compute_integer_lane [OF assms(1)]) auto
  with Cons show ?case by (simp add: place and_then_def disj_assoc)
qed simp

section \<open>The multiplication\<close>

definition kernel_of :: "cube_instruction \<Rightarrow> mmad_parameters \<Rightarrow> local_memory \<Rightarrow> cube_execution_control \<Rightarrow> mmad_kernel" where
  "kernel_of i p memory control =
     \<lparr>mk_instruction = i, mk_parameters = p, mk_memory = memory, mk_control = control, mk_geometry = cube_geometry_of i p\<rparr>"

lemma prepare_integer:
  fixes i p memory control
  defines "x \<equiv> kernel_of i p memory control"
  assumes mode: "input_mode_of (cu_data_type i) = Some mode"
    and load: "accumulator_load p memory = Ok initialization"
    and operands: "\<And>m n k. m < unat (mp_m p) \<Longrightarrow> n < unat (mp_n p) \<Longrightarrow> k < unat (mp_effective_k p) \<Longrightarrow>
      integer_pair reserve x mode m n k = Ok (operands m n k)"
    and c: "\<And>m n. m < unat (mp_m p) \<Longrightarrow> n < unat (mp_n p) \<Longrightarrow> lane_u32 reserve initialization memory
      (output_address (cu_data_type i) (ucast (mp_xd_low p)) (unat (cg_m_tiles (cube_geometry_of i p))) m n) n = Ok (c m n)"
  shows "\<exists>prepared. mmad_prepare reserve i p memory control = Ok prepared \<and>
    pe_writes prepared = output_writes i p (\<lambda>m n. word_of_int (fst (lane_result x mode (operands m n) (c m n))))
      (List.product [0..<unat (mp_m p)] [0..<unat (mp_n p)]) \<and>
    (eo_integer_overflow (pe_outcome prepared) \<longleftrightarrow>
      (\<exists>m<unat (mp_m p). \<exists>n<unat (mp_n p). snd (lane_result x mode (operands m n) (c m n))))"
proof -
  let ?ps = "List.product [0..<unat (mp_m p)] [0..<unat (mp_n p)]"
  let ?o = "initial_outcome p (ucast (mp_m p) * ucast (mp_effective_k p) * ucast (mp_n p))"
  let ?R = "\<lambda>m n. lane_result x mode (operands m n) (c m n)"
  have xs: "mk_instruction x = i" "mk_parameters x = p" "mk_memory x = memory" "mk_geometry x = cube_geometry_of i p"
    by (simp_all add: x_def kernel_of_def)
  have o: "?o = ?o\<lparr>eo_integer_overflow := False\<rparr>" by (simp add: initial_outcome_def)
  have "try_fold (compute_lane reserve x initialization) ([], ?o\<lparr>eo_integer_overflow := False\<rparr>) ?ps =
      Ok ([] @ map (\<lambda>(m, n). kernel_write x (m, n) (word_of_int (fst (?R m n)))) ?ps,
        ?o\<lparr>eo_integer_overflow := False \<or> (\<exists>(m, n)\<in>set ?ps. snd (?R m n))\<rparr>)"
    by (rule compute_integer_lanes) (use mode operands c in \<open>auto simp: xs\<close>)
  then have "try_fold (compute_lane reserve x initialization) ([], ?o) ?ps =
      Ok (output_writes i p (\<lambda>m n. word_of_int (fst (?R m n))) ?ps,
        ?o\<lparr>eo_integer_overflow := (\<exists>(m, n)\<in>set ?ps. snd (?R m n))\<rparr>)"
    unfolding o [symmetric] by (simp add: output_writes_def kernel_write_def xs)
  moreover have "cu_data_type i \<noteq> F16U2" "cu_data_type i \<noteq> B8U2" using mode by auto
  ultimately have "mmad_prepare reserve i p memory control = Ok \<lparr>pe_writes = output_writes i p (\<lambda>m n. word_of_int (fst (?R m n))) ?ps,
      pe_outcome = ?o\<lparr>eo_integer_overflow := (\<exists>(m, n)\<in>set ?ps. snd (?R m n)),
        eo_written_lanes := word_of_nat (length ?ps)\<rparr>\<rparr>"
    by (simp add: mmad_prepare_def Let_def load and_then_def x_def kernel_of_def output_writes_def)
  then show ?thesis by (auto simp: set_product Bex_def)
qed

lemma integer_mode_valid: "input_mode_of (cu_data_type i) = Some mode \<Longrightarrow> validate_functional_mode i = Ok ()"
  by (cases "cu_data_type i") (simp_all add: validate_functional_mode_def)

lemma integer_element_bytes: "input_mode_of t = Some mode \<Longrightarrow> element_bytes t = 4 \<and> t \<noteq> F16F16"
  by (cases t) (simp_all add: element_bytes_def)

lemma k_tile_positive: "0 < unat (cg_k_tile_elements (cube_geometry_of i p))"
  by (cases "cu_data_type i") (simp_all add: cube_geometry_of_def Let_def)

text \<open>C39. The integer matrix multiplication: when the operands and the accumulators can be read, lane \<open>(m, n)\<close> of the output
  tiles becomes the accumulator plus the products \<open>A m k * B k n\<close>, saturated to 32 bits after each slice of \<open>k\<close>; the
  overflow flag is set exactly when a slice was clamped, and without it every lane holds the exact product. Nothing
  outside the output tiles changes.\<close>

theorem integer_matmul:
  fixes i p memory control
  defines "x \<equiv> kernel_of i p memory control" and "geometry \<equiv> cube_geometry_of i p"
    and "base \<equiv> ucast (mp_xd_low p)" and "t \<equiv> cu_data_type i"
    and "M \<equiv> unat (mp_m p)" and "N \<equiv> unat (mp_n p)" and "K \<equiv> unat (mp_effective_k p)"
  assumes mode: "input_mode_of t = Some mode" and dense: "cu_operation i = Mmad"
    and shape: "0 < M" "0 < N" "0 < K"
    and fits: "unat (cg_m_tiles geometry) * unat (cg_n_tiles geometry) * 1024 \<le> 131072"
    and left: "\<And>m k. m < M \<Longrightarrow> k < K \<Longrightarrow> input_read reserve mode (lm_l0a memory) (mp_xn p)
      (a_element x (unat (cg_k_tiles geometry)) (unat (cg_k_tile_elements geometry)) m k) = Ok (A m k)"
    and right: "\<And>k n. k < K \<Longrightarrow> n < N \<Longrightarrow> input_read reserve mode (lm_l0b memory) (mp_xm p)
      (integer_b_element (unat (cg_n_tiles geometry)) (unat (cg_k_tile_elements geometry)) k n) = Ok (B k n)"
    and load: "accumulator_load p memory = Ok initialization"
    and acc: "\<And>m n. m < M \<Longrightarrow> n < N \<Longrightarrow>
      lane_u32 reserve initialization memory (output_address t base (unat (cg_m_tiles geometry)) m n) n = Ok (C m n)"
  shows "\<exists>b outcome. cube_execute reserve i p memory control =
      (memory\<lparr>lm_l0c := (lm_l0c memory)\<lparr>l0_buffer := b\<rparr>\<rparr>, Ok outcome) \<and>
    (\<forall>m<M. \<forall>n<N. lane_value t b base (unat (cg_m_tiles geometry)) m n =
      Some (word_of_int (fst (lane_result x mode (\<lambda>k. (A m k, B k n)) (C m n))))) \<and>
    (eo_integer_overflow outcome \<longleftrightarrow> (\<exists>m<M. \<exists>n<N. snd (lane_result x mode (\<lambda>k. (A m k, B k n)) (C m n)))) \<and>
    (\<not> eo_integer_overflow outcome \<longrightarrow> (\<forall>m<M. \<forall>n<N.
      map_option sint (lane_value t b base (unat (cg_m_tiles geometry)) m n) =
        Some (sint (C m n) + (\<Sum>k<K. input_product mode (A m k) (B k n))))) \<and>
    (\<forall>a. a \<notin> tile_bytes t base (unat (cg_m_tiles geometry)) (unat (cg_n_tiles geometry)) \<longrightarrow>
      lb_state b a = lb_state (l0_buffer (lm_l0c memory)) a)"
proof -
  let ?R = "\<lambda>m n. lane_result x mode (\<lambda>k. (A m k, B k n)) (C m n)"
  let ?mt = "unat (cg_m_tiles geometry)" and ?nt = "unat (cg_n_tiles geometry)"
  have xs: "mk_instruction x = i" "mk_parameters x = p" "mk_memory x = memory" "mk_geometry x = geometry"
    by (simp_all add: x_def kernel_of_def geometry_def)
  have t: "element_bytes t = 4" "t \<noteq> F16F16" using integer_element_bytes [OF mode] by simp_all
  have pair: "integer_pair reserve x mode m n k = Ok (A m k, B k n)" if "m < M" "n < N" "k < K" for m n k
    using left [OF that(1,3)] right [OF that(3,2)] dense by (simp add: integer_pair_def Let_def xs and_then_def)
  from prepare_integer [where i = i and p = p and reserve = reserve and memory = memory and control = control
      and operands = "\<lambda>m n k. (A m k, B k n)" and c = C, folded x_def M_def N_def K_def t_def base_def geometry_def,
      OF mode load pair acc]
  obtain prepared where prepared: "mmad_prepare reserve i p memory control = Ok prepared"
    and writes: "pe_writes prepared = output_writes i p (\<lambda>m n. word_of_int (fst (?R m n))) (List.product [0..<M] [0..<N])"
    and flag: "eo_integer_overflow (pe_outcome prepared) \<longleftrightarrow> (\<exists>m<M. \<exists>n<N. snd (?R m n))" by blast
  have nz: "mp_m p \<noteq> 0" "mp_effective_k p \<noteq> 0" "mp_n p \<noteq> 0" using shape by (auto simp: M_def N_def K_def)
  have fits': "?mt * ?nt * (256 * element_bytes t) \<le> 131072" using fits by (simp add: t)
  from execute_tiles [where i = i and p = p, OF prepared writes [unfolded M_def N_def] nz integer_mode_valid [OF mode [unfolded t_def]],
      folded geometry_def t_def base_def M_def N_def, OF fits']
  obtain b where exec: "cube_execute reserve i p memory control =
      (memory\<lparr>lm_l0c := (lm_l0c memory)\<lparr>l0_buffer := b\<rparr>\<rparr>, Ok (pe_outcome (complete_output_tiles i p prepared)))"
    and lanes: "\<forall>r<16 * ?mt. \<forall>c<16 * ?nt. lane_value t b base ?mt r c = Some (write_value (lane_write t base ?mt (r, c)
      (if r < M \<and> c < N then word_of_int (fst (?R r c)) else 0)))"
    and other: "\<forall>a. a \<notin> tile_bytes t base ?mt ?nt \<longrightarrow> lb_state b a = lb_state (l0_buffer (lm_l0c memory)) a" by blast
  have tiles: "M \<le> 16 * ?mt" "N \<le> 16 * ?nt"
    unfolding geometry_def geometry_tiles M_def N_def by (rule tile_covers)+
  have lane: "lane_value t b base ?mt m n = Some (word_of_int (fst (?R m n)))" if "m < M" "n < N" for m n
    using lanes that tiles t(2) by (simp add: lane_write_def)
  have overflow: "eo_integer_overflow (pe_outcome (complete_output_tiles i p prepared)) \<longleftrightarrow> (\<exists>m<M. \<exists>n<N. snd (?R m n))"
    using flag by (simp add: complete_output_tiles_def Let_def)
  have exact: "map_option sint (lane_value t b base ?mt m n) = Some (sint (C m n) + (\<Sum>k<K. input_product mode (A m k) (B k n)))"
    if "m < M" "n < N" "\<not> snd (?R m n)" for m n
  proof -
    have "fst (?R m n) = sint (C m n) + (\<Sum>k<K. lane_product mode (\<lambda>k. (A m k, B k n)) k)"
      using that(3) k_tile_positive [of i p] unfolding lane_result_def xs K_def geometry_def by (intro accumulate_exact)
    moreover have "in_s32 (fst (?R m n))" unfolding lane_result_def by (intro accumulate_range in_s32_sint)
    ultimately show ?thesis
      unfolding lane [OF that(1,2)] option.map by (simp only: sint_word_of_s32) (simp add: lane_product_def)
  qed
  from exec lane overflow exact other show ?thesis
    by (intro exI [of _ b] exI [of _ "pe_outcome (complete_output_tiles i p prepared)"]) blast
qed

text \<open>A one by one product of depth two, \<open>3 * 7 + 5 * 11\<close>, on fresh memories.\<close>

definition example_memory :: local_memory where
  "example_memory =
     \<lparr>lm_l0a = lb_insert_at (linear_address 0) [Known 3, Known 5] (lb_new 65536),
      lm_l0b = lb_insert_at (linear_address 0) [Known 7, Known 11] (lb_new 65536),
      lm_l0c = \<lparr>l0_read_port = rp_default, l0_read_banks = rb_default, l0_buffer = lb_new 131072,
        l0_scoreboard = \<lparr>sb_fragment_count = 256, sb_read_latency = 12, sb_writer_flags = {}, sb_reader_flags = {}, sb_pending = []\<rparr>,
        l0_write_arbiter = wa_default\<rparr>,
      lm_l1 = lb_new 524288, lm_bt = pv_new 0 (2 ^ 64 - 1), lm_smask = pv_new 0 (2 ^ 64 - 1), lm_weight_index = lb_new (- 1)\<rparr>"

definition example_instruction :: cube_instruction where
  "example_instruction =
     \<lparr>cu_word = 0xe0000000, cu_operation = Mmad, cu_data_type = U8U8S32, cu_raw_data_type = 0, cu_xd = 0, cu_xn = 0, cu_xm = 0, cu_xt = 0\<rparr>"

definition example_parameters :: mmad_parameters where
  "example_parameters =
     \<lparr>mp_xd_low = 0, mp_xd_high = 0, mp_xn = 0, mp_xm = 0, mp_m = 1, mp_raw_k = 2, mp_effective_k = 2, mp_n = 1,
      mp_bits_44_50 = 0, mp_bits_55_56 = 0, mp_bit_58 = False, mp_bit_62 = False, mp_bit_63 = True\<rparr>"

lemma read_inserted:
  assumes "length vs \<le> 512" "i < length vs" "m \<noteq> Signed4Signed4"
  shows "input_read (\<lambda>_. True) m (lb_insert_at (linear_address 0) (map Known vs) b) 0 i = Ok (vs ! i)"
proof -
  let ?b = "lb_insert_at (linear_address 0) (map Known vs) b"
  have "lb_state ?b (linear_address 0 i) = Some (map Known vs ! i)"
    by (rule lb_insert_linear) (use assms in simp_all)
  moreover have small: "unat (word_of_nat i :: u64) = i" using assms by (intro unat_word_of_nat_small) simp
  ultimately have "lb_read_initialized_linear (\<lambda>_. True) ?b (word_of_nat i) 1 = Ok [vs ! i]"
    unfolding lb_read_initialized_linear_Ok using assms by (simp add: lb_byte_def linear_address_def)
  moreover have "input_tile_base 0 i = 0" using assms by (simp add: input_tile_base_def)
  ultimately show ?thesis using assms by (simp add: input_read_def read_input_def of_buffer_def and_then_def)
qed

definition example_control :: cube_execution_control where
  "example_control = \<lparr>ce_fp16_mode = Saturating, ce_f32_mode = Fp32, ce_hf32_rounding = False\<rparr>"

definition example_kernel :: mmad_kernel where
  "example_kernel = kernel_of example_instruction example_parameters example_memory example_control"

lemma example_geometry [simp]:
  "cube_geometry_of example_instruction example_parameters =
     \<lparr>cg_m_tiles = 1, cg_n_tiles = 1, cg_k_tiles = 1, cg_k_tile_elements = 32, cg_native_uop_count = 1\<rparr>"
  by (simp add: example_instruction_def example_parameters_def cube_geometry_of_def Let_def div_ceil_def cube_array_edge_def)

lemma example_fields [simp]:
  "cu_data_type example_instruction = U8U8S32" "cu_operation example_instruction = Mmad"
  "mp_m example_parameters = 1" "mp_n example_parameters = 1" "mp_effective_k example_parameters = 2"
  "mp_xd_low example_parameters = 0" "mp_xn example_parameters = 0" "mp_xm example_parameters = 0"
  by (simp_all add: example_instruction_def example_parameters_def)

lemma example_left:
  assumes "k < unat (mp_effective_k example_parameters)"
  shows "input_read (\<lambda>_. True) UnsignedUnsigned (lm_l0a example_memory) (mp_xn example_parameters)
    (a_element example_kernel (unat (cg_k_tiles (cube_geometry_of example_instruction example_parameters)))
      (unat (cg_k_tile_elements (cube_geometry_of example_instruction example_parameters))) m k) = Ok ([3, 5] ! k)"
  using assms read_inserted [of "[3, 5]" k UnsignedUnsigned]
  by (simp add: example_memory_def a_element_def example_kernel_def kernel_of_def)

lemma example_right:
  assumes "k < unat (mp_effective_k example_parameters)" "n < unat (mp_n example_parameters)"
  shows "input_read (\<lambda>_. True) UnsignedUnsigned (lm_l0b example_memory) (mp_xm example_parameters)
    (integer_b_element (unat (cg_n_tiles (cube_geometry_of example_instruction example_parameters)))
      (unat (cg_k_tile_elements (cube_geometry_of example_instruction example_parameters))) k n) = Ok ([7, 11] ! k)"
  using assms read_inserted [of "[7, 11]" k UnsignedUnsigned]
  by (simp add: example_memory_def integer_b_element_def tile_edge_def)

lemma example_load: "accumulator_load example_parameters example_memory = Ok \<lparr>ac_source = AccZero, ac_bias = []\<rparr>"
  by (simp add: accumulator_load_def accumulator_source_of_def example_parameters_def)

lemma example_lane: "lane_u32 (\<lambda>_. True) \<lparr>ac_source = AccZero, ac_bias = []\<rparr> memory address n = Ok 0"
proof -
  have "replicate 4 0 = [0, 0, 0, 0 :: u8]" by (simp add: numeral_eq_Suc)
  then show ?thesis by (simp add: lane_u32_def lane_bytes_def and_then_def)
qed

lemma example_result: "lane_result example_kernel UnsignedUnsigned (\<lambda>k. ([3, 5] ! k, [7, 11] ! k)) 0 = (76, False)"
proof -
  have q: "lane_product UnsignedUnsigned (\<lambda>k. ([3, 5] ! k, [7, 11] ! k)) 0 = 21"
    "lane_product UnsignedUnsigned (\<lambda>k. ([3, 5] ! k, [7, 11] ! k)) 1 = 55" by (simp_all add: lane_product_def)
  have "slice_total (lane_product UnsignedUnsigned (\<lambda>k. ([3, 5] ! k, [7, 11] ! k))) 2 32 0 = 76"
    using q by (simp add: slice_total_def numeral_2_eq_2)
  moreover have "step_by 2 32 = [0]" by (simp add: step_by_def)
  ultimately show ?thesis
    by (simp add: lane_result_def accumulate_def example_kernel_def kernel_of_def accumulate_slice_def sat32_def)
qed

theorem integer_matmul_witness:
  "\<exists>b outcome. cube_execute (\<lambda>_. True) example_instruction example_parameters example_memory example_control =
      (example_memory\<lparr>lm_l0c := (lm_l0c example_memory)\<lparr>l0_buffer := b\<rparr>\<rparr>, Ok outcome) \<and>
    lane_value U8U8S32 b 0 1 0 0 = Some 76 \<and> \<not> eo_integer_overflow outcome"
proof -
  note run = integer_matmul [where i = example_instruction and p = example_parameters and memory = example_memory
    and control = example_control and reserve = "\<lambda>_. True" and mode = UnsignedUnsigned and A = "\<lambda>m k. [3, 5] ! k"
    and B = "\<lambda>k n. [7, 11] ! k" and C = "\<lambda>m n. 0" and initialization = "\<lparr>ac_source = AccZero, ac_bias = []\<rparr>",
    folded example_kernel_def, OF _ example_fields(2) _ _ _ _ example_left example_right example_load example_lane]
  then show ?thesis by (simp add: example_result) blast
qed

theorem execute_writes_tiles_witness:
  "\<exists>prepared b outcome. mmad_prepare (\<lambda>_. True) example_instruction example_parameters example_memory example_control = Ok prepared \<and>
    cube_execute (\<lambda>_. True) example_instruction example_parameters example_memory example_control =
      (example_memory\<lparr>lm_l0c := (lm_l0c example_memory)\<lparr>l0_buffer := b\<rparr>\<rparr>, Ok outcome) \<and>
    lane_value U8U8S32 b 0 1 3 4 = Some 0 \<and> unat (eo_written_lanes outcome) = 256"
proof -
  have pair: "integer_pair (\<lambda>_. True) example_kernel UnsignedUnsigned m n k = Ok ([3, 5] ! k, [7, 11] ! k)"
    if "m < unat (mp_m example_parameters)" "n < unat (mp_n example_parameters)" "k < unat (mp_effective_k example_parameters)" for m n k
    using example_left [of k m] example_right [of k n] that
    by (simp add: integer_pair_def Let_def example_kernel_def kernel_of_def and_then_def)
  obtain prepared where prepared:
    "mmad_prepare (\<lambda>_. True) example_instruction example_parameters example_memory example_control = Ok prepared"
    using prepare_integer [where i = example_instruction and p = example_parameters and memory = example_memory
        and control = example_control and reserve = "\<lambda>_. True" and mode = UnsignedUnsigned
        and operands = "\<lambda>m n k. ([3, 5] ! k, [7, 11] ! k)" and c = "\<lambda>m n. 0", folded example_kernel_def,
        OF _ example_load pair example_lane] by auto
  have "validate_functional_mode example_instruction = Ok ()" by (simp add: validate_functional_mode_def)
  from execute_writes_tiles [where i = example_instruction and p = example_parameters, OF prepared _ _ _ this]
  obtain b outcome where run: "cube_execute (\<lambda>_. True) example_instruction example_parameters example_memory example_control =
      (example_memory\<lparr>lm_l0c := (lm_l0c example_memory)\<lparr>l0_buffer := b\<rparr>\<rparr>, Ok outcome)"
    and lanes: "\<forall>r<16. \<forall>c<16. lane_value U8U8S32 b 0 1 r c =
      Some (if r < 1 \<and> c < 1 then write_value (pe_writes prepared ! (r + c)) else 0)"
    and count: "unat (eo_written_lanes outcome) = 256"
    by (auto simp: element_bytes_def)
  have "lane_value U8U8S32 b 0 1 3 4 = Some 0" using lanes by simp
  with prepared run count show ?thesis by blast
qed

end
