(* ===== verification/Spec2Isabelle.thy ===== *)
theory Spec2Isabelle
  imports Sparse_Memory Mapped_Memory Hbm Pv_Memory Hbm_Pv_Memory Memory_Bus Ub_Memory
    Rust_Std Scalar_Isa Flow_Isa Scalar_Machine Scalar_Memory Scalar_Exec
    Event_Dispatcher Hardware_Flags Device_Flags Pipeline_Events Device_Loader Ub_Service
    Integer_Matmul
begin

text \<open>
  Verification of the functional core of the Ascend emulator, an instruction and timing emulator for the targets
  \<open>dav_2201\<close> (C220) and \<open>dav_3510\<close> (C310). Paths are relative to \<open>src/src\<close>.

  \<^bold>\<open>The program.\<close> A host allocates device memory (\<open>memory/\<close>), loads a device binary into it
  (\<open>image/\<close>) and runs a kernel. The scalar unit (\<open>sim/common/scalar\<close>) fetches words, decodes them
  (\<open>isa/\<close>) and executes them against its registers and, through a bus, against the memory. A C220 core
  (\<open>sim/c220\<close>) adds a vector unit, a matrix unit (Cube) and transfer engines around local memories. Its
  units synchronise through flags and events and share the ports of the unified buffer and of L0C; an
  event kernel (\<open>sim/common/event.rs\<close>) orders what happens at a tick.

  \<^bold>\<open>Foundations.\<close> \<open>Prelude\<close> names the machine integers (\<open>u8\<close> to \<open>u64\<close> are words that wrap,
  \<open>usize\<close> is a natural number with its bound written out), the results (\<open>Ok\<close> and \<open>Err\<close> are the two
  injections of a sum) and the checked operations, and collects the laws all parts share
  (\<open>machine_int\<close>, \<open>wf_intros\<close>). \<open>Rust_Std\<close> holds the integer methods of the standard library, and
  the type \<open>fault\<close>: an error of the source or a panic. \<open>Ordered_Map\<close> is \<open>BTreeMap\<close> as a sorted
  association list, under the locale \<open>ordered_map\<close> (interpretation \<open>btree\<close>); \<open>Queue_Map\<close> adds maps of
  queues with the multiset of everything queued.

  \<^bold>\<open>Device memory.\<close>
  \<^item> \<open>Sparse_Memory\<close> (\<open>memory/region.rs\<close>, \<open>memory/sparse.rs\<close>): staged regions under a bounded overlay.
    The view is \<open>byte_state\<close>; a write succeeds exactly within range and budget and then updates its run; a
    batch is the sequence of its writes, made atomic.
  \<^item> \<open>Mapped_Memory\<close> (\<open>memory/mapped.rs\<close>): disjoint windows over the regions; resolution is exact.
  \<^item> \<open>Hbm\<close> (\<open>memory/hbm.rs\<close>, \<open>architecture.rs\<close>): first fit with coalescing, against the set of live blocks.
  \<^item> \<open>Pv_Memory\<close> (\<open>memory/pv_memory.rs\<close>): pages that materialise on a write, against a function from
    addresses to bytes. \<open>Hbm_Pv_Memory\<close> puts the allocator in front of it.
  \<^item> \<open>Memory_Bus\<close> (\<open>sim/common/scalar/bus.rs\<close>): the locale \<open>memory_bus\<close> states what the scalar unit
    relies on; its interpretations \<open>mapped_bus\<close> and \<open>hp_bus\<close> are the two buses of the source.
  \<^item> \<open>Ub_Memory\<close> (\<open>memory/ub.rs\<close>): the unified buffer, with batches that are atomic.

  \<^bold>\<open>The scalar unit.\<close>
  \<^item> \<open>Scalar_Isa\<close> (\<open>isa/scalar.rs\<close>, \<open>isa/class.rs\<close>) and \<open>Flow_Isa\<close> (\<open>isa/flow.rs\<close>): both decoders, with
    the ranges of every decoded field, and the resolution of jumps.
  \<^item> \<open>Scalar_Machine\<close> (\<open>sim/common/scalar/{alu,integer}.rs\<close>): registers and arithmetic against the integers.
  \<^item> \<open>Scalar_Memory\<close> (\<open>sim/common/scalar/memory.rs\<close>): every load and store, over any bus of the contract.
  \<^item> \<open>Scalar_Exec\<close> (\<open>sim/common/scalar/{mod,stepper}.rs\<close>): comparison, selection, special registers, flow,
    dispatch and stepper. An instruction completes or changes nothing, its panics are characterised, a
    store is read back by a later load, and whole programs stay well-formed.

  \<^bold>\<open>Synchronisation of a core.\<close>
  \<^item> \<open>Event_Dispatcher\<close> (\<open>sim/common/event.rs\<close>): \<open>next_callback\<close> is the loop over delivery and queue; a
    drain serves the schedule of the tick, a process that does not repeat runs once per tick.
  \<^item> \<open>Hardware_Flag_Isa\<close>, \<open>Hardware_Flags\<close> (\<open>isa/c220/{control,hflag}.rs\<close>, \<open>sim/c220/sync.rs\<close>,
    \<open>sim/c220/sync/{cube,cross_core}.rs\<close>): counters, scheduled sets, held Cube sets and gates. Tokens are
    accounted for key by key, a scheduled set becomes visible at the notification that reaches it.
  \<^item> \<open>Device_Flags\<close> (\<open>sim/c220/sync/device_flags.rs\<close>, \<open>sim/c220/schedule.rs\<close>): credits and issue clock.
  \<^item> \<open>Pipeline_Events\<close> (\<open>sim/c220/sync/pipeline_events.rs\<close>): events that balance and keep their order of
    publication on each route and flag.

  \<^bold>\<open>Device binaries.\<close> \<open>Device_Elf\<close> (\<open>image/elf.rs\<close>) parses an ELF file with every range checked;
  \<open>Device_Loader\<close> (\<open>image/loader.rs\<close>) allocates, copies and rolls back, and what a loaded kernel fetches
  are the words of the file.

  \<^bold>\<open>Local memories.\<close> \<open>Ub_Arbiter\<close> (\<open>sim/c220/memory/ub_{block,arbiter}.rs\<close>) splits accesses into bank
  blocks and serves the vector ports; \<open>Ub_Service\<close> (\<open>ub_service.rs\<close>) serves the other ports after it.
  \<open>Local_Buffer\<close> (\<open>buffer.rs\<close>) are the byte maps of L0A, L0B and L0C; \<open>L0c\<close> (\<open>l0c.rs\<close>, \<open>l0c_read.rs\<close>)
  the scoreboard of unit flags, the write port and the read port of L0C.

  \<^bold>\<open>The Cube unit.\<close> \<open>Cube_Isa\<close> decodes and captures its operands. \<open>Cube_Formats\<close> gives words of the three
  float formats their values; \<open>Exact_Limbs\<close>, \<open>Exact_Dyadic\<close> and \<open>Exact_Round\<close> are the accumulator of nine
  limbs, its value as an integer, and its rounding, for the locale \<open>float_format\<close> (interpretations
  \<open>f32\<close>, \<open>f16\<close>). \<open>Cube_Slice\<close> translates the slice evaluators over the locale \<open>exact_products\<close>
  (\<open>f32p\<close>, \<open>f16p\<close>, \<open>bf16p\<close>), and \<open>Slice_Reference\<close> proves them equal to exact sums of extended values,
  rounded once, in \<open>slice_format\<close> (\<open>f32s\<close>, \<open>f16s\<close>, \<open>bf16s\<close>). \<open>Cube_Layout\<close>, \<open>Cube_Mmad\<close>,
  \<open>Cube_Matmul\<close> and \<open>Integer_Matmul\<close> (\<open>sim/c220/cube/{layout,accumulator,sparse,mmad,execute}.rs\<close>) are a
  whole multiplication: where its lanes lie, what it writes, and that the integer one is the matrix product.

  \<^bold>\<open>How the model is made.\<close> A struct is a record, an enum a datatype, an operation one definition that
  returns the updated state with its result; every early return and error of the source is a branch, and a
  panic is the value \<open>Panic\<close>. Fixed-size arrays of the source are lists with the index checked. Recursions
  that are not structural terminate by the bytes or blocks left (\<open>split_access\<close>, the page loops), by the
  queued sets and the wake tick (\<open>release_cube_sets\<close>, \<open>advance_notifications\<close>), or by queue and
  subscribers (\<open>next_callback\<close>); the page loop that counts the budget is \<open>while_option\<close> and proved to
  return. The only fuel is a bound proved to be enough: a lone write of the arbiter completes within eight
  cycles for each block. The accumulator has 576 bits; a slice adds at most 16 products below \<open>2 ^ 554\<close> to
  an accumulator in range, so no limb is lost.

  \<^bold>\<open>Choices.\<close> Host allocation (\<open>try_reserve_exact\<close>) is the parameter \<open>reserve\<close>; where a theorem uses
  it, it says for which answers it holds. Integer arithmetic without a checked operation wraps, as in a
  release build; where that matters a finding says so (\<open>Pv_Memory\<close>). A \<open>debug_assert\<close> that fails is a
  \<open>Panic\<close>. The ghost lists of \<open>event_run\<close>, the runs and the reference definitions (\<open>served\<close>,
  \<open>waiting_sets\<close>, \<open>store_effect\<close>, \<open>load_effect\<close>, \<open>key0_exact\<close>, the extended values) are
  specification, not code.

  \<^bold>\<open>Not modelled.\<close> The composition of the units in a core cycle by cycle, the transfer engines, the vector
  unit, the timing of the scalar and Cube pipelines, L1 and the bus interface, and the C310 beyond the
  scalar unit: their state is mostly timing, and they rest on the parts above. Host floating point outside
  the Cube unit is left out with them.
\<close>

end
